(* ===== verification/Prelude.thy ===== *)
theory Prelude
  imports Main "HOL-Library.Word" "HOL-Library.AList" "HOL-Library.Signed_Division"
begin

text \<open>
  The shared vocabulary of the development: Rust's 64-bit integer operations that report
  overflow (\<open>checked_add\<close> and its kin), the conversions between \<open>i64\<close> and \<open>usize\<close>, the
  \<open>Vec\<close> and slice operations that return \<open>Option\<close>, hash maps as association lists, and the
  two collections of rewrite rules the component proofs use. Signed machine integers are
  \<open>int\<close> with the range written out (\<open>in_i64\<close>); words of the machine are \<open>64 word\<close>.
\<close>

unbundle bit_operations_syntax

named_theorems vec_simps "facts on the Vec and slice operations"
named_theorems i64_simps "unfolding rules of the checked 64-bit operations"

type_synonym usize_word = "64 word"
type_synonym byte_string = string

subsection \<open>Signed 64-bit integers with overflow reported\<close>

definition i64_MIN :: int where
  "i64_MIN = - (2 ^ 63)"

definition i64_MAX :: int where
  "i64_MAX = 2 ^ 63 - 1"

definition in_i64 :: "int \<Rightarrow> bool" where
  "in_i64 x \<longleftrightarrow> i64_MIN \<le> x \<and> x \<le> i64_MAX"

definition checked :: "int \<Rightarrow> int option" where
  "checked x = (if in_i64 x then Some x else None)"

definition checked_add :: "int \<Rightarrow> int \<Rightarrow> int option" where
  "checked_add a b = checked (a + b)"

definition checked_sub :: "int \<Rightarrow> int \<Rightarrow> int option" where
  "checked_sub a b = checked (a - b)"

definition checked_mul :: "int \<Rightarrow> int \<Rightarrow> int option" where
  "checked_mul a b = checked (a * b)"

text \<open>Rust divides towards zero, and \<open>checked_div\<close> and \<open>checked_rem\<close> fail on a zero divisor
  and on \<open>i64::MIN / -1\<close>.\<close>

definition checked_div :: "int \<Rightarrow> int \<Rightarrow> int option" where
  "checked_div a b = (if b = 0 then None else checked (a sdiv b))"

definition checked_rem :: "int \<Rightarrow> int \<Rightarrow> int option" where
  "checked_rem a b =
     (if b = 0 then None else if a = i64_MIN \<and> b = -1 then None else Some (a smod b))"

definition saturating_add_i64 :: "int \<Rightarrow> int \<Rightarrow> int" where
  "saturating_add_i64 a b = max i64_MIN (min i64_MAX (a + b))"

definition wrapping_i64 :: "int \<Rightarrow> int" where
  "wrapping_i64 x = (x + 2 ^ 63) mod 2 ^ 64 - 2 ^ 63"

definition usize_MAX :: nat where
  "usize_MAX = 2 ^ 64 - 1"

definition saturating_add_usize :: "nat \<Rightarrow> nat \<Rightarrow> nat" where
  "saturating_add_usize a b = min usize_MAX (a + b)"

definition saturating_mul_usize :: "nat \<Rightarrow> nat \<Rightarrow> nat" where
  "saturating_mul_usize a b = min usize_MAX (a * b)"

text \<open>\<open>usize::try_from(i64)\<close> and \<open>i64::try_from(usize)\<close>.\<close>

definition usize_try_from :: "int \<Rightarrow> nat option" where
  "usize_try_from x = (if 0 \<le> x then Some (nat x) else None)"

definition i64_try_from :: "nat \<Rightarrow> int option" where
  "i64_try_from n = (if int n \<le> i64_MAX then Some (int n) else None)"

lemmas i64_defs [i64_simps] =
  in_i64_def i64_MIN_def i64_MAX_def checked_def checked_add_def checked_sub_def
  checked_mul_def

lemma checked_Some_iff [simp]: "checked x = Some y \<longleftrightarrow> y = x \<and> in_i64 x"
  by (auto simp: checked_def)

lemma checked_None_iff [simp]: "checked x = None \<longleftrightarrow> \<not> in_i64 x"
  by (simp add: checked_def)

lemma checked_add_Some [simp]: "checked_add a b = Some c \<longleftrightarrow> c = a + b \<and> in_i64 (a + b)"
  by (simp add: checked_add_def)

lemma checked_sub_Some [simp]: "checked_sub a b = Some c \<longleftrightarrow> c = a - b \<and> in_i64 (a - b)"
  by (simp add: checked_sub_def)

lemma checked_mul_Some [simp]: "checked_mul a b = Some c \<longleftrightarrow> c = a * b \<and> in_i64 (a * b)"
  by (simp add: checked_mul_def)

lemma usize_try_from_Some [simp]: "usize_try_from x = Some n \<longleftrightarrow> x = int n"
  by (auto simp: usize_try_from_def)

lemma i64_try_from_Some [simp]: "i64_try_from n = Some x \<longleftrightarrow> x = int n \<and> int n \<le> i64_MAX"
  by (auto simp: i64_try_from_def)

lemma in_i64_0 [simp]: "in_i64 0"
  by (simp add: i64_simps)

lemma in_i64_saturating_succ: "in_i64 k \<Longrightarrow> in_i64 (saturating_add_i64 k 1)"
  by (auto simp: saturating_add_i64_def i64_simps)

lemma saturating_succ_gt:
  "in_i64 k \<Longrightarrow> k < saturating_add_i64 k 1 \<or> k = i64_MAX"
  by (auto simp: saturating_add_i64_def i64_simps)

lemma saturating_succ_le: "k \<le> i64_MAX \<Longrightarrow> i64_MIN \<le> k \<Longrightarrow> k \<le> saturating_add_i64 k 1"
  by (auto simp: saturating_add_i64_def i64_simps)

lemma wrapping_i64_id: "in_i64 x \<Longrightarrow> wrapping_i64 x = x"
  by (auto simp: wrapping_i64_def i64_simps)

text \<open>An exact multiple is recovered by the truncating division, whatever the signs.\<close>

lemma smod_mult_self [simp]: "(a * b :: int) smod a = 0"
  by (simp add: signed_modulo_int_eq_modulo_int)

lemma sdiv_mult_self: "a \<noteq> 0 \<Longrightarrow> (a * b :: int) sdiv a = b"
  by (simp add: signed_divide_int_eq_divide_int)

lemma smod_0_mult: "(a :: int) smod b = 0 \<Longrightarrow> a = b * (a sdiv b)"
  by (metis add.right_neutral mult_sdiv_smod_eq)

subsection \<open>Vectors and slices\<close>

fun position :: "('a \<Rightarrow> bool) \<Rightarrow> 'a list \<Rightarrow> nat option" where
  "position P [] = None"
| "position P (x # xs) = (if P x then Some 0 else map_option Suc (position P xs))"

definition vec_get :: "'a list \<Rightarrow> nat \<Rightarrow> 'a option" where
  "vec_get xs i = (if i < length xs then Some (xs ! i) else None)"

definition vec_remove :: "nat \<Rightarrow> 'a list \<Rightarrow> 'a list" where
  "vec_remove i xs = take i xs @ drop (Suc i) xs"

lemma vec_get_Some [simp]: "vec_get xs i = Some x \<longleftrightarrow> i < length xs \<and> xs ! i = x"
  by (simp add: vec_get_def)

lemma vec_get_None [simp]: "vec_get xs i = None \<longleftrightarrow> length xs \<le> i"
  by (simp add: vec_get_def)

lemma vec_get_in [vec_simps]: "i < length xs \<Longrightarrow> vec_get xs i = Some (xs ! i)"
  by (simp add: vec_get_def)

lemma length_vec_remove [simp]: "i < length xs \<Longrightarrow> length (vec_remove i xs) = length xs - 1"
  by (simp add: vec_remove_def)

lemma distinct_vec_remove: "distinct xs \<Longrightarrow> distinct (vec_remove i xs)"
  by (auto simp: vec_remove_def set_take_disj_set_drop_if_distinct)

lemma position_None: "position P xs = None \<longleftrightarrow> (\<forall>x \<in> set xs. \<not> P x)"
  by (induction xs) auto

lemma position_SomeD:
  "position P xs = Some i \<Longrightarrow> i < length xs \<and> P (xs ! i) \<and> (\<forall>j < i. \<not> P (xs ! j))"
proof (induction xs arbitrary: i)
  case (Cons x xs)
  show ?case
  proof (cases "P x")
    case False
    with Cons.prems obtain k where k: "position P xs = Some k" "i = Suc k" by auto
    from Cons.IH [OF k(1)] False show ?thesis by (auto simp: k(2) less_Suc_eq_0_disj)
  qed (use Cons.prems in auto)
qed simp

lemma position_SomeI:
  assumes "i < length xs" and "P (xs ! i)" and "\<And>j. j < i \<Longrightarrow> \<not> P (xs ! j)"
  shows "position P xs = Some i"
proof (cases "position P xs")
  case None
  with assms(1,2) show ?thesis by (auto simp: position_None)
next
  case (Some k)
  then have "k < length xs \<and> P (xs ! k) \<and> (\<forall>j < k. \<not> P (xs ! j))" by (rule position_SomeD)
  with assms Some show ?thesis by (metis linorder_neqE_nat)
qed

lemma position_append:
  "position P (xs @ ys) =
     (case position P xs of Some i \<Rightarrow> Some i
      | None \<Rightarrow> map_option (\<lambda>i. i + length xs) (position P ys))"
  by (induction xs) (auto split: option.splits simp: option.map_comp comp_def option.map_ident)

lemma filter_neq_absent: "k \<notin> set xs \<Longrightarrow> filter (\<lambda>x. x \<noteq> k) xs = xs"
  by (induction xs) auto

lemmas alist_map [simp] = update_conv' delete_conv'

lemma position_cong_map:
  "(\<And>x. x \<in> set xs \<Longrightarrow> P (f x) = Q x) \<Longrightarrow> position P (map f xs) = position Q xs"
  by (induction xs) auto

end
