(* ===== verification/Foreach_Registry.thy ===== *)
theory Foreach_Registry
  imports Prelude
begin

text \<open>
  The registry of live by-reference \<open>foreach\<close> cursors
  (\<open>src/src/value/reference_array_iteration.rs\<close>). A cursor iterates one array and remembers
  a position for every copy of that array; the registry also keeps the reverse index from an
  array to the cursors interested in it. Identities (cursor cells and arrays) are addresses,
  and the two \<open>IdentityMap\<close>s are association lists. The thread-local \<open>RefCell\<close> is explicit
  state passing: every operation takes the registry and returns it.

  The invariant \<open>registry_wf\<close> says that the reverse index is exact; every operation keeps it.
  The locale \<open>position_tracker\<close> is the interface the array component relies on: a structural
  change moves the positions tracked for that array, and no others.
\<close>

record foreach_cursor =
  fc_array :: "nat option"
  fc_position :: nat
  fc_copies :: "(nat \<times> nat) list"

record registry =
  reg_cursors :: "(nat \<times> foreach_cursor) list"
  reg_by_array :: "(nat \<times> nat list) list"

definition empty_registry :: registry where
  "empty_registry = \<lparr>reg_cursors = [], reg_by_array = []\<rparr>"

definition link :: "(nat \<times> nat list) list \<Rightarrow> nat \<Rightarrow> nat \<Rightarrow> (nat \<times> nat list) list" where
  "link by_array array key =
     AList.update array ((case map_of by_array array of None \<Rightarrow> [] | Some ks \<Rightarrow> ks) @ [key]) by_array"

definition unlink_one :: "(nat \<times> nat list) list \<Rightarrow> nat \<Rightarrow> nat \<Rightarrow> (nat \<times> nat list) list" where
  "unlink_one by_array array key =
     (case map_of by_array array of
        None \<Rightarrow> by_array
      | Some ks \<Rightarrow>
          (let keys = filter (\<lambda>candidate. candidate \<noteq> key) ks
           in if keys = [] then AList.delete array by_array else AList.update array keys by_array))"

definition unlink :: "(nat \<times> nat list) list \<Rightarrow> nat \<Rightarrow> foreach_cursor \<Rightarrow> (nat \<times> nat list) list" where
  "unlink by_array key cursor =
     fold (\<lambda>array ba. unlink_one ba array key) (map fst (fc_copies cursor))
       (case fc_array cursor of None \<Rightarrow> by_array | Some array \<Rightarrow> unlink_one by_array array key)"

definition register :: "nat \<Rightarrow> nat \<Rightarrow> registry \<Rightarrow> registry" where
  "register key array reg =
     (let cursor = \<lparr>fc_array = Some array, fc_position = 0, fc_copies = []\<rparr>;
          by_array = (case map_of (reg_cursors reg) key of
                        Some previous \<Rightarrow> unlink (reg_by_array reg) key previous
                      | None \<Rightarrow> reg_by_array reg)
      in \<lparr>reg_cursors = AList.update key cursor (reg_cursors reg),
          reg_by_array = link by_array array key\<rparr>)"

text \<open>\<open>resolve\<close> panics (\<open>expect\<close>) on an unknown cursor: \<open>None\<close> here.\<close>

definition resolve :: "nat \<Rightarrow> nat \<Rightarrow> nat \<Rightarrow> registry \<Rightarrow> (registry \<times> nat) option" where
  "resolve key array fallback reg =
     (case map_of (reg_cursors reg) key of
        None \<Rightarrow> None
      | Some cursor \<Rightarrow>
          if fc_array cursor \<noteq> Some array then
            (let pos = (case map_of (fc_copies cursor) array of Some p \<Rightarrow> p | None \<Rightarrow> fallback);
                 fresh = \<lparr>fc_array = Some array, fc_position = pos, fc_copies = []\<rparr>
             in Some (\<lparr>reg_cursors = AList.update key fresh (reg_cursors reg),
                       reg_by_array = link (unlink (reg_by_array reg) key cursor) array key\<rparr>, pos))
          else Some (reg, fc_position cursor))"

definition advance :: "nat \<Rightarrow> nat \<Rightarrow> registry \<Rightarrow> registry" where
  "advance key pos reg =
     (case map_of (reg_cursors reg) key of
        None \<Rightarrow> reg
      | Some cursor \<Rightarrow>
          reg\<lparr>reg_cursors := AList.update key (cursor\<lparr>fc_position := pos\<rparr>) (reg_cursors reg)\<rparr>)"

text \<open>The position a cursor holds for an array: as the iterated array, or as a copy.\<close>

definition cursor_position :: "foreach_cursor \<Rightarrow> nat \<Rightarrow> nat option" where
  "cursor_position cursor array =
     (if fc_array cursor = Some array then Some (fc_position cursor)
      else map_of (fc_copies cursor) array)"

text \<open>The loop of \<open>copied\<close>: it threads the cursors and the list \<open>linked\<close>.\<close>

definition copied_step ::
  "nat \<Rightarrow> nat \<Rightarrow> nat \<Rightarrow> (nat \<times> foreach_cursor) list \<times> nat list
     \<Rightarrow> (nat \<times> foreach_cursor) list \<times> nat list" where
  "copied_step source target key = (\<lambda>(cursors, linked).
     (case map_of cursors key of
        None \<Rightarrow> (cursors, linked)
      | Some cursor \<Rightarrow>
          (case cursor_position cursor source of
             None \<Rightarrow> (cursors, linked)
           | Some pos \<Rightarrow>
               (AList.update key
                  (cursor\<lparr>fc_copies := AList.update target pos (fc_copies cursor)\<rparr>) cursors,
                if map_of (fc_copies cursor) target = None then linked @ [key] else linked))))"

definition copied :: "nat \<Rightarrow> nat \<Rightarrow> registry \<Rightarrow> registry \<times> bool" where
  "copied source target reg =
     (case map_of (reg_by_array reg) source of
        None \<Rightarrow> (reg, False)
      | Some keys \<Rightarrow>
          (let (cursors, linked) = fold (copied_step source target) keys (reg_cursors reg, []);
               by_array = (if linked = [] then reg_by_array reg
                           else AList.update target
                                  ((case map_of (reg_by_array reg) target of
                                      None \<Rightarrow> [] | Some ks \<Rightarrow> ks) @ linked) (reg_by_array reg))
           in (\<lparr>reg_cursors = cursors, reg_by_array = by_array\<rparr>, True)))"

definition forget_array :: "nat \<Rightarrow> foreach_cursor \<Rightarrow> foreach_cursor" where
  "forget_array array cursor =
     cursor\<lparr>fc_array := (if fc_array cursor = Some array then None else fc_array cursor),
            fc_copies := AList.delete array (fc_copies cursor)\<rparr>"

definition update_cursor ::
  "(foreach_cursor \<Rightarrow> foreach_cursor) \<Rightarrow> nat \<Rightarrow> (nat \<times> foreach_cursor) list
     \<Rightarrow> (nat \<times> foreach_cursor) list" where
  "update_cursor f key cursors =
     (case map_of cursors key of None \<Rightarrow> cursors
      | Some cursor \<Rightarrow> AList.update key (f cursor) cursors)"

definition release_array :: "nat \<Rightarrow> registry \<Rightarrow> registry" where
  "release_array array reg =
     (case map_of (reg_by_array reg) array of
        None \<Rightarrow> reg
      | Some keys \<Rightarrow>
          \<lparr>reg_cursors = fold (update_cursor (forget_array array)) keys (reg_cursors reg),
           reg_by_array = AList.delete array (reg_by_array reg)\<rparr>)"

definition adjust :: "nat \<Rightarrow> nat \<Rightarrow> nat \<Rightarrow> nat \<Rightarrow> nat" where
  "adjust start removed inserted pos =
     (if start < pos then
        (let removed_before = min (saturating_add_usize start removed) pos - start
         in saturating_add_usize (pos - removed_before) inserted)
      else pos)"

definition splice_cursor :: "nat \<Rightarrow> nat \<Rightarrow> nat \<Rightarrow> nat \<Rightarrow> foreach_cursor \<Rightarrow> foreach_cursor" where
  "splice_cursor array start removed inserted cursor =
     (let cursor = (if fc_array cursor = Some array
                    then cursor\<lparr>fc_position := adjust start removed inserted (fc_position cursor)\<rparr>
                    else cursor)
      in case map_of (fc_copies cursor) array of
           None \<Rightarrow> cursor
         | Some pos \<Rightarrow>
             cursor\<lparr>fc_copies :=
               AList.update array (adjust start removed inserted pos) (fc_copies cursor)\<rparr>)"

definition splice :: "nat \<Rightarrow> nat \<Rightarrow> nat \<Rightarrow> nat \<Rightarrow> registry \<Rightarrow> registry" where
  "splice array start removed inserted reg =
     (case map_of (reg_by_array reg) array of
        None \<Rightarrow> reg
      | Some keys \<Rightarrow>
          reg\<lparr>reg_cursors :=
            fold (update_cursor (splice_cursor array start removed inserted)) keys
              (reg_cursors reg)\<rparr>)"

definition release_cursor :: "nat \<Rightarrow> registry \<Rightarrow> registry" where
  "release_cursor key reg =
     (case map_of (reg_cursors reg) key of
        None \<Rightarrow> reg
      | Some cursor \<Rightarrow>
          \<lparr>reg_cursors = AList.delete key (reg_cursors reg),
           reg_by_array = unlink (reg_by_array reg) key cursor\<rparr>)"

subsection \<open>The reverse index is exact\<close>

definition keys_of :: "(nat \<times> nat list) list \<Rightarrow> nat \<Rightarrow> nat list" where
  "keys_of by_array array = (case map_of by_array array of None \<Rightarrow> [] | Some ks \<Rightarrow> ks)"

definition interested :: "foreach_cursor \<Rightarrow> nat \<Rightarrow> bool" where
  "interested cursor array \<longleftrightarrow> cursor_position cursor array \<noteq> None"

definition registry_wf :: "registry \<Rightarrow> bool" where
  "registry_wf reg \<longleftrightarrow>
     (\<forall>array. set (keys_of (reg_by_array reg) array) =
        {key. \<exists>c. map_of (reg_cursors reg) key = Some c \<and> interested c array}) \<and>
     (\<forall>array. distinct (keys_of (reg_by_array reg) array)) \<and>
     (\<forall>array. map_of (reg_by_array reg) array \<noteq> Some []) \<and>
     (\<forall>key c array. map_of (reg_cursors reg) key = Some c \<longrightarrow> fc_array c = Some array \<longrightarrow>
        map_of (fc_copies c) array = None)"

text \<open>The position tracked by cursor \<open>key\<close> for \<open>array\<close>.\<close>

definition tracked :: "registry \<Rightarrow> nat \<Rightarrow> nat \<Rightarrow> nat option" where
  "tracked reg key array =
     Option.bind (map_of (reg_cursors reg) key) (\<lambda>c. cursor_position c array)"

lemma interested_iff:
  "interested c a \<longleftrightarrow> fc_array c = Some a \<or> a \<in> fst ` set (fc_copies c)"
  using dom_map_of_conv_image_fst [of "fc_copies c"]
  by (auto simp: interested_def cursor_position_def dom_def)

lemma keys_of_link [simp]:
  "keys_of (link ba a k) b = (if b = a then keys_of ba a @ [k] else keys_of ba b)"
  by (auto simp: keys_of_def link_def split: option.splits)

lemma link_nonempty: "\<forall>b. map_of ba b \<noteq> Some [] \<Longrightarrow> map_of (link ba a k) b \<noteq> Some []"
  by (auto simp: link_def split: option.splits)

lemma keys_of_unlink_one [simp]:
  "keys_of (unlink_one ba a k) b =
     (if b = a then filter (\<lambda>x. x \<noteq> k) (keys_of ba a) else keys_of ba b)"
  by (auto simp: keys_of_def unlink_one_def Let_def split: option.splits)

lemma unlink_one_nonempty:
  "\<forall>b. map_of ba b \<noteq> Some [] \<Longrightarrow> map_of (unlink_one ba a k) b \<noteq> Some []"
  by (auto simp: unlink_one_def Let_def split: option.splits)

lemma keys_of_unlink_fold:
  "keys_of (fold (\<lambda>a ba. unlink_one ba a k) as ba) b =
     (if b \<in> set as then filter (\<lambda>x. x \<noteq> k) (keys_of ba b) else keys_of ba b)"
  by (induction as arbitrary: ba) auto

lemma unlink_fold_nonempty:
  "\<forall>b. map_of ba b \<noteq> Some [] \<Longrightarrow>
     map_of (fold (\<lambda>a ba. unlink_one ba a k) as ba) b \<noteq> Some []"
  by (induction as arbitrary: ba) (auto dest: unlink_one_nonempty)

lemma keys_of_unlink:
  "keys_of (unlink ba k c) b =
     (if interested c b then filter (\<lambda>x. x \<noteq> k) (keys_of ba b) else keys_of ba b)"
  by (auto simp: unlink_def keys_of_unlink_fold interested_iff split: option.splits)

lemma unlink_nonempty:
  "\<forall>b. map_of ba b \<noteq> Some [] \<Longrightarrow> map_of (unlink ba k c) b \<noteq> Some []"
  by (auto simp: unlink_def unlink_fold_nonempty unlink_one_nonempty split: option.splits)

lemma registry_wfD:
  assumes "registry_wf reg"
  shows "set (keys_of (reg_by_array reg) a) =
           {key. \<exists>c. map_of (reg_cursors reg) key = Some c \<and> interested c a}"
    and "distinct (keys_of (reg_by_array reg) a)"
    and "\<forall>b. map_of (reg_by_array reg) b \<noteq> Some []"
    and "map_of (reg_cursors reg) key = Some c \<Longrightarrow> fc_array c = Some b \<Longrightarrow>
           map_of (fc_copies c) b = None"
  using assms by (auto simp: registry_wf_def)

lemma keys_of_unlink_wf:
  assumes "registry_wf reg" and "map_of (reg_cursors reg) key = Some c"
  shows "keys_of (unlink (reg_by_array reg) key c) b =
           filter (\<lambda>x. x \<noteq> key) (keys_of (reg_by_array reg) b)"
proof (cases "interested c b")
  case False
  then have "key \<notin> set (keys_of (reg_by_array reg) b)"
    using registry_wfD(1) [OF assms(1)] assms(2) by auto
  with False show ?thesis by (simp add: keys_of_unlink filter_neq_absent)
qed (simp add: keys_of_unlink)

lemma registry_wf_empty: "registry_wf empty_registry"
  by (simp add: registry_wf_def empty_registry_def keys_of_def)

lemma fresh_cursor_interested [simp]:
  "interested \<lparr>fc_array = Some a, fc_position = p, fc_copies = []\<rparr> b \<longleftrightarrow> b = a"
  by (auto simp: interested_def cursor_position_def)

text \<open>Replacing a cursor by one that iterates a single array: shared by \<open>register\<close> and
  \<open>resolve\<close>.\<close>

lemma registry_wf_relink:
  assumes wf: "registry_wf reg"
    and ba: "\<And>b. keys_of ba b = filter (\<lambda>x. x \<noteq> key) (keys_of (reg_by_array reg) b)"
    and ne: "\<forall>b. map_of ba b \<noteq> Some []"
  shows "registry_wf \<lparr>reg_cursors = AList.update key
           \<lparr>fc_array = Some a, fc_position = p, fc_copies = []\<rparr> (reg_cursors reg),
           reg_by_array = link ba a key\<rparr>"
  unfolding registry_wf_def
proof (intro conjI allI impI)
  note exact = registry_wfD(1) [OF wf] and dist = registry_wfD(2) [OF wf]
  fix array
  show "set (keys_of (reg_by_array \<lparr>reg_cursors = AList.update key
           \<lparr>fc_array = Some a, fc_position = p, fc_copies = []\<rparr> (reg_cursors reg),
           reg_by_array = link ba a key\<rparr>) array) =
        {k. \<exists>c. map_of (reg_cursors \<lparr>reg_cursors = AList.update key
           \<lparr>fc_array = Some a, fc_position = p, fc_copies = []\<rparr> (reg_cursors reg),
           reg_by_array = link ba a key\<rparr>) k = Some c \<and> interested c array}"
    by (auto simp: ba exact)
qed (use registry_wfD(2,4) [OF wf] link_nonempty [OF ne] in \<open>auto simp: ba split: if_splits\<close>)

lemma register_wf:
  assumes "registry_wf reg" shows "registry_wf (register key array reg)"
proof (cases "map_of (reg_cursors reg) key")
  case None
  then have "key \<notin> set (keys_of (reg_by_array reg) b)" for b
    using registry_wfD(1) [OF assms] by simp
  then have "keys_of (reg_by_array reg) b = filter (\<lambda>x. x \<noteq> key) (keys_of (reg_by_array reg) b)" for b
    by (simp add: filter_neq_absent)
  from registry_wf_relink [OF assms this registry_wfD(3) [OF assms]] None
  show ?thesis by (simp add: register_def)
next
  case (Some c)
  from registry_wf_relink [OF assms keys_of_unlink_wf [OF assms Some]
      allI [OF unlink_nonempty [OF registry_wfD(3) [OF assms]]]] Some
  show ?thesis by (simp add: register_def)
qed

lemma resolve_wf:
  assumes "registry_wf reg" and "resolve key array fallback reg = Some (reg', pos)"
  shows "registry_wf reg'"
proof -
  from assms(2) obtain c where c: "map_of (reg_cursors reg) key = Some c"
    by (auto simp: resolve_def split: option.splits)
  from registry_wf_relink [OF assms(1) keys_of_unlink_wf [OF assms(1) c]
      allI [OF unlink_nonempty [OF registry_wfD(3) [OF assms(1)]]]] assms c
  show ?thesis by (auto simp: resolve_def Let_def split: if_splits)
qed

lemma release_cursor_wf:
  assumes wf: "registry_wf reg" shows "registry_wf (release_cursor key reg)"
proof (cases "map_of (reg_cursors reg) key")
  case None
  with wf show ?thesis by (simp add: release_cursor_def)
next
  case (Some c)
  note keys = keys_of_unlink_wf [OF wf Some]
    and ne = unlink_nonempty [OF registry_wfD(3) [OF wf]]
  show ?thesis
    unfolding registry_wf_def release_cursor_def
    using registry_wfD(1,2,4) [OF wf] ne by (auto simp: Some keys)
qed

text \<open>Updating the cursors named by a list without repetition updates each once.\<close>

lemma map_of_update_cursor:
  "map_of (update_cursor f key cs) k = (if k = key then map_option f (map_of cs k) else map_of cs k)"
  by (auto simp: update_cursor_def split: option.splits)

lemma map_of_update_cursors:
  "distinct keys \<Longrightarrow> map_of (fold (update_cursor f) keys cs) k =
     (if k \<in> set keys then map_option f (map_of cs k) else map_of cs k)"
  by (induction keys arbitrary: cs) (auto simp: map_of_update_cursor)

lemma cursor_position_splice:
  assumes "fc_array c = Some a \<Longrightarrow> map_of (fc_copies c) a = None"
  shows "cursor_position (splice_cursor a s d i c) b =
     (if b = a then map_option (adjust s d i) (cursor_position c a) else cursor_position c b)"
  using assms
  by (auto simp: splice_cursor_def cursor_position_def Let_def split: option.splits)

lemma splice_cursor_array [simp]: "fc_array (splice_cursor a s d i c) = fc_array c"
  by (auto simp: splice_cursor_def Let_def split: option.splits)

lemma splice_cursor_copies:
  "map_of (fc_copies (splice_cursor a s d i c)) b = None \<longleftrightarrow> map_of (fc_copies c) b = None"
  by (auto simp: splice_cursor_def Let_def split: option.splits)

lemma interested_splice [simp]: "interested (splice_cursor a s d i c) b = interested c b"
  using splice_cursor_copies [of a s d i c b]
  by (auto simp: interested_def cursor_position_def)

lemma map_of_splice:
  assumes "registry_wf reg"
  shows "map_of (reg_cursors (splice a s d i reg)) k =
     (if k \<in> set (keys_of (reg_by_array reg) a)
      then map_option (splice_cursor a s d i) (map_of (reg_cursors reg) k)
      else map_of (reg_cursors reg) k)"
  using registry_wfD(2) [OF assms, of a]
  by (auto simp: splice_def keys_of_def map_of_update_cursors split: option.splits)

lemma splice_by_array [simp]: "reg_by_array (splice a s d i reg) = reg_by_array reg"
  by (auto simp: splice_def split: option.splits)

lemma splice_wf:
  assumes wf: "registry_wf reg" shows "registry_wf (splice a s d i reg)"
proof -
  have *: "(\<exists>c'. map_of (reg_cursors (splice a s d i reg)) key = Some c' \<and> interested c' b) \<longleftrightarrow>
      (\<exists>c. map_of (reg_cursors reg) key = Some c \<and> interested c b)" for key b
    by (auto simp: map_of_splice [OF wf])
  show ?thesis
    unfolding registry_wf_def *
    using registry_wfD [OF wf]
    by (auto simp: map_of_splice [OF wf] splice_cursor_copies split: if_splits)
qed

lemma tracked_splice:
  assumes "registry_wf reg"
  shows "tracked (splice a s d i reg) key b =
     (if b = a then map_option (adjust s d i) (tracked reg key a) else tracked reg key b)"
proof (cases "map_of (reg_cursors reg) key")
  case None
  then show ?thesis by (simp add: tracked_def map_of_splice [OF assms])
next
  case (Some c)
  have "key \<in> set (keys_of (reg_by_array reg) a) \<longleftrightarrow> cursor_position c a \<noteq> None"
    using registry_wfD(1) [OF assms] Some by (auto simp: interested_def)
  with Some registry_wfD(4) [OF assms Some] show ?thesis
    by (auto simp: tracked_def map_of_splice [OF assms] cursor_position_splice)
qed

lemma forget_array_interested [simp]:
  "interested (forget_array a c) b \<longleftrightarrow> b \<noteq> a \<and> interested c b"
  by (auto simp: forget_array_def interested_def cursor_position_def)

lemma keys_of_delete [simp]:
  "keys_of (AList.delete a ba) b = (if b = a then [] else keys_of ba b)"
  by (simp add: keys_of_def)

lemma release_array_wf:
  assumes wf: "registry_wf reg" shows "registry_wf (release_array a reg)"
proof (cases "map_of (reg_by_array reg) a")
  case None
  with wf show ?thesis by (simp add: release_array_def)
next
  case (Some keys)
  then have keys: "keys = keys_of (reg_by_array reg) a" by (simp add: keys_of_def)
  have cs: "map_of (fold (update_cursor (forget_array a)) keys (reg_cursors reg)) k =
      (if k \<in> set keys then map_option (forget_array a) (map_of (reg_cursors reg) k)
       else map_of (reg_cursors reg) k)" for k
    using registry_wfD(2) [OF wf] by (simp add: keys map_of_update_cursors)
  have "map_of (fc_copies (forget_array a c)) b = None"
    if "map_of (reg_cursors reg) k = Some c" "fc_array (forget_array a c) = Some b" for k c b
    using registry_wfD(4) [OF wf that(1)] that(2) by (auto simp: forget_array_def split: if_splits)
  moreover have "set keys = {key. \<exists>c. map_of (reg_cursors reg) key = Some c \<and> interested c a}"
    using registry_wfD(1) [OF wf] keys by simp
  ultimately show ?thesis
    using registry_wfD [OF wf]
    by (auto simp: registry_wf_def release_array_def Some cs split: if_splits)
qed

lemma release_array_untracked:
  assumes wf: "registry_wf reg"
  shows "tracked (release_array a reg) key a = None"
proof -
  have "\<not> interested c a" if "map_of (reg_cursors (release_array a reg)) key = Some c" for c
    using registry_wfD(1) [OF release_array_wf [OF wf], of a a] that
    by (auto simp: release_array_def keys_of_def split: option.splits)
  then show ?thesis
    by (cases "map_of (reg_cursors (release_array a reg)) key") (auto simp: tracked_def interested_def)
qed

lemma advance_wf:
  assumes wf: "registry_wf reg" shows "registry_wf (advance key p reg)"
proof (cases "map_of (reg_cursors reg) key")
  case None
  with wf show ?thesis by (simp add: advance_def)
next
  case (Some c)
  have "interested (c\<lparr>fc_position := p\<rparr>) b = interested c b" for b
    by (simp add: interested_def cursor_position_def)
  with registry_wfD [OF wf] Some show ?thesis
    by (auto simp: registry_wf_def advance_def)
qed

definition remember_copy :: "nat \<Rightarrow> nat \<Rightarrow> foreach_cursor \<Rightarrow> foreach_cursor" where
  "remember_copy source target c =
     (case cursor_position c source of None \<Rightarrow> c
      | Some p \<Rightarrow> c\<lparr>fc_copies := AList.update target p (fc_copies c)\<rparr>)"

lemma copied_fold:
  assumes "distinct keys"
    and "\<And>k. k \<in> set keys \<Longrightarrow> \<exists>c. map_of cs k = Some c \<and> interested c source \<and>
            map_of (fc_copies c) target = None"
  shows "snd (fold (copied_step source target) keys (cs, linked)) = linked @ keys \<and>
     map_of (fst (fold (copied_step source target) keys (cs, linked))) k =
       (if k \<in> set keys then map_option (remember_copy source target) (map_of cs k)
        else map_of cs k)"
  using assms
proof (induction keys arbitrary: cs linked)
  case (Cons key keys)
  from Cons.prems(2) [of key] obtain c p where c: "map_of cs key = Some c"
    "cursor_position c source = Some p" "map_of (fc_copies c) target = None"
    by (auto simp: interested_def)
  let ?cs = "AList.update key (remember_copy source target c) cs"
  have step: "copied_step source target key (cs, linked) = (?cs, linked @ [key])"
    by (simp add: copied_step_def remember_copy_def c)
  have "snd (fold (copied_step source target) keys (?cs, linked @ [key])) = (linked @ [key]) @ keys \<and>
     map_of (fst (fold (copied_step source target) keys (?cs, linked @ [key]))) k =
       (if k \<in> set keys then map_option (remember_copy source target) (map_of ?cs k)
        else map_of ?cs k)"
    by (rule Cons.IH) (use Cons.prems in auto)
  with Cons.prems(1) c show ?case by (simp add: step)
qed simp

lemma remember_copy_interested:
  "interested c source \<Longrightarrow>
     interested (remember_copy source target c) b \<longleftrightarrow> b = target \<or> interested c b"
  by (auto simp: remember_copy_def interested_def cursor_position_def split: option.splits)

text \<open>Recording a newly allocated copy: no cursor knows \<open>target\<close> yet.\<close>

lemma copied_wf:
  assumes wf: "registry_wf reg" and fresh: "keys_of (reg_by_array reg) target = []"
  shows "registry_wf (fst (copied source target reg))"
proof (cases "map_of (reg_by_array reg) source")
  case None
  with wf show ?thesis by (simp add: copied_def)
next
  case (Some keys)
  then have keys: "keys = keys_of (reg_by_array reg) source" by (simp add: keys_of_def)
  note exact = registry_wfD(1) [OF wf] and copies = registry_wfD(4) [OF wf]
  have unknown: "\<not> interested c target" if "map_of (reg_cursors reg) k = Some c" for k c
    using exact [of target] fresh that by auto
  have ks: "set keys = {k. \<exists>c. map_of (reg_cursors reg) k = Some c \<and> interested c source}"
    and "distinct keys" and ne: "keys \<noteq> []"
    using exact registry_wfD(2,3) [OF wf] keys Some by auto
  moreover have "\<exists>c. map_of (reg_cursors reg) k = Some c \<and> interested c source \<and>
      map_of (fc_copies c) target = None" if "k \<in> set keys" for k
    using that ks unknown by (fastforce simp: interested_def cursor_position_def split: if_splits)
  ultimately have fold: "snd (fold (copied_step source target) keys (reg_cursors reg, [])) = keys"
    and cs: "\<And>k. map_of (fst (fold (copied_step source target) keys (reg_cursors reg, []))) k =
       (if k \<in> set keys then map_option (remember_copy source target) (map_of (reg_cursors reg) k)
        else map_of (reg_cursors reg) k)"
    using copied_fold [of keys "reg_cursors reg" source target "[]"] by auto
  have reg': "fst (copied source target reg) =
      \<lparr>reg_cursors = fst (fold (copied_step source target) keys (reg_cursors reg, [])),
       reg_by_array = AList.update target keys (reg_by_array reg)\<rparr>"
    using fresh ne fold by (auto simp: copied_def Some keys_of_def Let_def split: prod.splits option.splits)
  have upd: "keys_of (AList.update target keys (reg_by_array reg)) b =
      (if b = target then keys else keys_of (reg_by_array reg) b)" for b
    by (simp add: keys_of_def)
  have fields: "fc_array (remember_copy source target c) = fc_array c"
    "fc_array c = Some b \<Longrightarrow> map_of (fc_copies c) b = None \<Longrightarrow> b \<noteq> target \<Longrightarrow>
       map_of (fc_copies (remember_copy source target c)) b = None" for c b
    by (auto simp: remember_copy_def split: option.splits)
  have "b \<noteq> target" if "map_of (reg_cursors reg) k = Some c" "fc_array c = Some b" for k c b
    using unknown [OF that(1)] that(2) by (auto simp: interested_def cursor_position_def)
  with exact copies registry_wfD(2,3) [OF wf] ks ne \<open>distinct keys\<close> unknown show ?thesis
    unfolding registry_wf_def reg'
    by (auto simp: cs upd fields remember_copy_interested split: if_splits)
qed

subsection \<open>What the array component relies on\<close>

text \<open>
  A tracker of positions inside arrays. \<open>track r k a\<close> is the position client \<open>k\<close> holds in
  array \<open>a\<close>; a splice of \<open>a\<close> moves every position of \<open>a\<close> by \<open>adjust\<close> and no other.
\<close>

locale position_tracker =
  fixes invar :: "'r \<Rightarrow> bool"
    and track :: "'r \<Rightarrow> nat \<Rightarrow> nat \<Rightarrow> nat option"
    and splice_at :: "nat \<Rightarrow> nat \<Rightarrow> nat \<Rightarrow> nat \<Rightarrow> 'r \<Rightarrow> 'r"
  assumes invar_splice: "invar r \<Longrightarrow> invar (splice_at a s d i r)"
    and track_splice: "invar r \<Longrightarrow> track (splice_at a s d i r) k b =
           (if b = a then map_option (adjust s d i) (track r k a) else track r k b)"
begin

lemma track_other: "invar r \<Longrightarrow> b \<noteq> a \<Longrightarrow> track (splice_at a s d i r) k b = track r k b"
  by (simp add: track_splice)

text \<open>After the removal of one element the tracked position still names its element, unless it
  was the removed one.\<close>

lemma track_removed_element:
  assumes "invar r" and "track r k a = Some p" and "p < length xs" and "p \<noteq> s" and "s < length xs"
    and "length xs \<le> usize_MAX"
  shows "\<exists>q. track (splice_at a s 1 0 r) k a = Some q \<and> vec_remove s xs ! q = xs ! p"
proof -
  have "adjust s 1 0 p = (if s < p then p - 1 else p)"
    using assms(3,6) by (auto simp: adjust_def saturating_add_usize_def)
  moreover have "vec_remove s xs ! (if s < p then p - 1 else p) = xs ! p"
    using assms(3-5) by (auto simp: vec_remove_def nth_append min_def)
  ultimately show ?thesis using assms(1,2) by (simp add: track_splice)
qed

end

interpretation foreach_positions: position_tracker registry_wf tracked splice
  by unfold_locales (simp_all add: splice_wf tracked_splice)

lemma adjust_general:
  assumes "s + d \<le> p" "s < p" "p - d + i \<le> usize_MAX" "p \<le> usize_MAX"
  shows "adjust s d i p = p - d + i"
  using assms by (auto simp: adjust_def saturating_add_usize_def Let_def)

text \<open>
  A splice that removes \<open>removed\<close> elements at \<open>start\<close> and inserts the list \<open>new\<close>: a cursor
  behind the removed range keeps pointing at the same element.
\<close>

lemma adjust_same_element:
  assumes "s + d \<le> p" "s < p" "p < length xs" "length xs + length new \<le> usize_MAX"
  shows "(take s xs @ new @ drop (s + d) xs) ! adjust s d (length new) p = xs ! p"
proof -
  from assms(1) obtain k where k: "p = s + d + k" by (auto simp: le_iff_add)
  have "adjust s d (length new) p = s + (length new + k)"
    using assms by (subst adjust_general) (auto simp: k)
  with assms show ?thesis by (simp add: k nth_append)
qed

subsection \<open>Reachable registries\<close>

text \<open>The operations of the registry as steps. The target of a copy is an array that has just
  been allocated, so no cursor knows it yet.\<close>

inductive registry_step :: "registry \<Rightarrow> registry \<Rightarrow> bool" where
  reg_register: "registry_step reg (register key array reg)"
| reg_resolve: "resolve key array fallback reg = Some (reg', pos) \<Longrightarrow> registry_step reg reg'"
| reg_advance: "registry_step reg (advance key pos reg)"
| reg_copied: "keys_of (reg_by_array reg) target = [] \<Longrightarrow>
    registry_step reg (fst (copied source target reg))"
| reg_splice: "registry_step reg (splice array start removed inserted reg)"
| reg_release_array: "registry_step reg (release_array array reg)"
| reg_release_cursor: "registry_step reg (release_cursor key reg)"

inductive_simps registry_step_simps: "registry_step reg reg'"

lemma registry_step_wf: "registry_step reg reg' \<Longrightarrow> registry_wf reg \<Longrightarrow> registry_wf reg'"
  by (induction rule: registry_step.induct)
     (simp_all add: register_wf advance_wf copied_wf splice_wf release_array_wf release_cursor_wf
        resolve_wf)

text \<open>C15. Whatever sequence of registrations, resolutions, advances, copies, splices and releases
  runs on the registry, the reverse index names exactly the cursors that follow each array, each
  once, and keeps no empty list.\<close>

theorem registry_invariant:
  assumes "registry_step\<^sup>*\<^sup>* empty_registry reg"
  shows "registry_wf reg"
  using assms
  by (induction rule: rtranclp_induct) (auto intro: registry_step_wf registry_wf_empty)

theorem registry_invariant_witness:
  "registry_wf (splice 5 0 1 0 (register 1 5 empty_registry))"
proof -
  have "registry_step\<^sup>*\<^sup>* empty_registry (splice 5 0 1 0 (register 1 5 empty_registry))"
    using reg_register [of empty_registry 1 5] reg_splice [of "register 1 5 empty_registry" 5 0 1 0]
    by (meson rtranclp.rtrancl_into_rtrancl rtranclp.rtrancl_refl)
  then show ?thesis by (rule registry_invariant)
qed

text \<open>A splice moves the cursors of its own array by the net length behind the splice point,
  so that a cursor behind the removed range keeps its element, and no cursor of another array.\<close>

theorem splice_moves_own_cursors:
  assumes "registry_wf reg"
  shows "tracked (splice a s d i reg) key b =
     (if b = a then map_option (adjust s d i) (tracked reg key a) else tracked reg key b)"
  using assms by (rule foreach_positions.track_splice)

theorem splice_moves_own_cursors_witness:
  "tracked (splice 5 0 1 0 (advance 1 3 (register 1 5 empty_registry))) 1 5 = Some 2"
proof -
  have "registry_wf (advance 1 3 (register 1 5 empty_registry))"
    by (intro advance_wf register_wf registry_wf_empty)
  from splice_moves_own_cursors [OF this, of 5 0 1 0 1 5] show ?thesis
    by (simp add: tracked_def advance_def register_def empty_registry_def cursor_position_def
        adjust_def saturating_add_usize_def usize_MAX_def Let_def)
qed

end
