(* ===== verification/Array_Types.thy ===== *)
theory Array_Types
  imports Foreach_Registry
begin

text \<open>
  The data model of PHP values and arrays (\<open>src/src/value/mod.rs\<close>): the tagged \<open>Value\<close>, the
  four storage tiers of \<open>PhpArray\<close>, the packed machine word of the integer index
  (\<open>IntIndexValue\<close>) and the metadata word of the internal array pointer (\<open>cursor\<close>).

  A \<open>Value\<close> holds an array by value: sharing of the \<open>Rc\<close> is not observable through the
  operations modelled here, which all require unique ownership or only read. Objects,
  closures, references and resources are held by identity. \<open>ArrayEntryKey\<close> and \<open>ArrayKey\<close>
  differ only in how they own their string, so both are \<open>array_key\<close> and \<open>to_public\<close> is the
  identity. Rust strings are their UTF-8 bytes.
\<close>

subsection \<open>Keys, storage and values\<close>

datatype array_key = Key_Int int | Key_String byte_string

type_synonym str_index = "(byte_string \<times> nat) list"
type_synonym int_index = "(int \<times> usize_word) list"
type_synonym 'v entries = "(array_key \<times> 'v) list"

datatype 'v linear_hash =
  Linear (lin_entries: "(array_key \<times> 'v) list") (lin_lookups: nat)
    (lin_index: "(byte_string \<times> nat) list option")

datatype 'v array_storage =
    Packed "'v list"
  | SmallHash "(array_key \<times> 'v) option list"
  | LinearHash "'v linear_hash"
  | Hash "(array_key \<times> 'v) list" "(byte_string \<times> nat) list" "(int \<times> 64 word) list" nat

datatype 'v php_array =
  PhpArray (allocation: nat) (storage: "'v array_storage") (next_int_key: int) (cursor: "64 word")

datatype php_value =
    VUndef | VNull | VFalse | VTrue
  | VLong int
  | VDouble "64 word"
  | VString byte_string bool
  | VArray "php_value php_array"
  | VObject nat
  | VResource nat bool
  | VReference nat bool
  | VClosure nat

type_synonym parray = "php_value php_array"

definition set_allocation :: "nat \<Rightarrow> 'v php_array \<Rightarrow> 'v php_array" where
  "set_allocation n a = PhpArray n (storage a) (next_int_key a) (cursor a)"

definition set_storage :: "'v array_storage \<Rightarrow> 'v php_array \<Rightarrow> 'v php_array" where
  "set_storage s a = PhpArray (allocation a) s (next_int_key a) (cursor a)"

definition set_next :: "int \<Rightarrow> 'v php_array \<Rightarrow> 'v php_array" where
  "set_next n a = PhpArray (allocation a) (storage a) n (cursor a)"

definition set_cursor :: "64 word \<Rightarrow> 'v php_array \<Rightarrow> 'v php_array" where
  "set_cursor c a = PhpArray (allocation a) (storage a) (next_int_key a) c"

lemma set_fields [simp]:
  "allocation (set_allocation n a) = n" "storage (set_allocation n a) = storage a"
  "next_int_key (set_allocation n a) = next_int_key a" "cursor (set_allocation n a) = cursor a"
  "allocation (set_storage s a) = allocation a" "storage (set_storage s a) = s"
  "next_int_key (set_storage s a) = next_int_key a" "cursor (set_storage s a) = cursor a"
  "allocation (set_next k a) = allocation a" "storage (set_next k a) = storage a"
  "next_int_key (set_next k a) = k" "cursor (set_next k a) = cursor a"
  "allocation (set_cursor c a) = allocation a" "storage (set_cursor c a) = storage a"
  "next_int_key (set_cursor c a) = next_int_key a" "cursor (set_cursor c a) = c"
  by (simp_all add: set_allocation_def set_storage_def set_next_def set_cursor_def)

fun as_long :: "php_value \<Rightarrow> int option" where
  "as_long (VLong n) = Some n"
| "as_long _ = None"

fun is_string_key :: "array_key \<Rightarrow> bool" where
  "is_string_key (Key_String _) = True"
| "is_string_key (Key_Int _) = False"

text \<open>Every \<open>Long\<close> payload is an \<open>i64\<close>.\<close>

definition value_ok :: "php_value \<Rightarrow> bool" where
  "value_ok v \<longleftrightarrow> (case as_long v of None \<Rightarrow> True | Some n \<Rightarrow> in_i64 n)"

subsection \<open>The packed word of the integer index\<close>

definition CACHED_LONG_BIT :: "64 word" where
  "CACHED_LONG_BIT = push_bit 63 1"

definition POSITION_MASK :: "64 word" where
  "POSITION_MASK = push_bit 24 1 - 1"

definition LONG_MASK :: "64 word" where
  "LONG_MASK = push_bit 39 1 - 1"

definition LONG_MIN :: int where
  "LONG_MIN = - (2 ^ 38)"

definition LONG_MAX :: int where
  "LONG_MAX = 2 ^ 38 - 1"

definition iiv_new :: "nat \<Rightarrow> php_value \<Rightarrow> 64 word" where
  "iiv_new pos v =
     (case as_long v of
        None \<Rightarrow> of_nat pos
      | Some long \<Rightarrow>
          if \<not> (LONG_MIN \<le> long \<and> long \<le> LONG_MAX) \<or> unat POSITION_MASK < pos then of_nat pos
          else CACHED_LONG_BIT OR push_bit 39 (of_nat pos) OR (of_int long AND LONG_MASK))"

definition iiv_position :: "64 word \<Rightarrow> nat" where
  "iiv_position w =
     (if w AND CACHED_LONG_BIT \<noteq> 0 then unat (drop_bit 39 w AND POSITION_MASK) else unat w)"

definition iiv_cached_long :: "64 word \<Rightarrow> int option" where
  "iiv_cached_long w =
     (if w AND CACHED_LONG_BIT \<noteq> 0
      then Some (sint (signed_drop_bit 25 (push_bit 25 (w AND LONG_MASK)) :: 64 word))
      else None)"

definition iiv_clear_cached_long :: "64 word \<Rightarrow> 64 word" where
  "iiv_clear_cached_long w = of_nat (iiv_position w)"

lemma mask_consts: "POSITION_MASK = mask 24" "LONG_MASK = mask 39"
  by (simp_all add: POSITION_MASK_def LONG_MASK_def mask_eq_decr_exp)

lemma bit_CACHED: "bit CACHED_LONG_BIT n \<longleftrightarrow> n = 63"
  unfolding CACHED_LONG_BIT_def bit_push_bit_iff bit_1_iff by auto

lemma and_CACHED: "w AND CACHED_LONG_BIT \<noteq> 0 \<longleftrightarrow> bit w 63"
proof -
  have "w AND CACHED_LONG_BIT = 0" if "\<not> bit w 63"
    using that by (intro bit_word_eqI) (auto simp: bit_and_iff bit_CACHED)
  moreover have "\<not> bit w 63" if "w AND CACHED_LONG_BIT = 0"
    using bit_and_iff [of w CACHED_LONG_BIT 63] that by (simp add: bit_CACHED)
  ultimately show ?thesis by blast
qed

lemma unat_of_nat_small: "n < 2 ^ 64 \<Longrightarrow> unat (of_nat n :: 64 word) = n"
  by (simp add: unat_of_nat)

lemma not_bit_of_nat:
  assumes "n < 2 ^ m" shows "\<not> bit (of_nat n :: 64 word) m"
proof -
  from assms have "\<not> bit n m" by (metis bit_take_bit_iff nat_less_le take_bit_nat_eq_self)
  then show ?thesis by (simp add: bit_of_nat_iff)
qed

lemma iiv_position_plain:
  assumes "pos < 2 ^ 63"
  shows "iiv_position (of_nat pos) = pos" "iiv_cached_long (of_nat pos) = None"
proof -
  have "\<not> bit (of_nat pos :: 64 word) 63" using assms by (rule not_bit_of_nat)
  then show "iiv_position (of_nat pos) = pos" "iiv_cached_long (of_nat pos) = None"
    using assms by (simp_all add: iiv_position_def iiv_cached_long_def and_CACHED unat_of_nat_small)
qed

text \<open>The 39 low bits of a small \<open>Long\<close> are sign-extended to the value again.\<close>

lemma bit_small_int:
  assumes "- (2 ^ 38) \<le> long" "long < 2 ^ 38" "38 \<le> n"
  shows "bit (long :: int) n = bit long 38"
proof -
  from assms(1,2) have "signed_take_bit 38 long = long"
    by (intro signed_take_bit_int_eq_self) auto
  then show ?thesis
    using assms(3) by (metis bit_signed_take_bit_iff min.absorb1 min.idem possible_bit_int)
qed

lemma long_mask_roundtrip:
  assumes "- (2 ^ 38) \<le> long" "long < 2 ^ 38"
  shows "sint (signed_drop_bit 25 (push_bit 25 (of_int long AND mask 39)) :: 64 word) = long"
proof -
  have "signed_drop_bit 25 (push_bit 25 (of_int long AND mask 39)) = (of_int long :: 64 word)"
  proof (rule bit_word_eqI)
    fix n assume "n < LENGTH(64)"
    then show "bit (signed_drop_bit 25 (push_bit 25 (of_int long AND mask 39)) :: 64 word) n =
        bit (of_int long :: 64 word) n"
      using bit_small_int [OF assms, of n]
      by (simp add: bit_signed_drop_bit_iff bit_push_bit_iff bit_and_iff bit_mask_iff
          bit_word_of_int_iff)
  qed
  moreover have "signed_take_bit 63 long = long"
    using assms by (intro signed_take_bit_int_eq_self) auto
  ultimately show ?thesis by (simp add: signed_of_int)
qed

lemma iiv_packed:
  assumes "pos < 2 ^ 24" and "- (2 ^ 38) \<le> long" and "long < 2 ^ 38"
  defines "w \<equiv> CACHED_LONG_BIT OR push_bit 39 (of_nat pos) OR (of_int long AND LONG_MASK)"
  shows "iiv_position w = pos" and "iiv_cached_long w = Some long"
proof -
  have b63: "bit w 63"
    by (simp add: w_def bit_CACHED bit_or_iff)
  have hi: "bit (of_nat pos :: 64 word) n \<Longrightarrow> n < 24" for n
    using assms(1) not_bit_of_nat [of pos n] power_increasing [of 24 n "2::nat"]
    by (metis linorder_not_less order_less_le_trans one_le_numeral)
  have "drop_bit 39 w AND mask 24 = of_nat pos"
    using hi by (intro bit_word_eqI) (force simp: w_def mask_consts bit_CACHED bit_and_iff
        bit_or_iff bit_push_bit_iff bit_drop_bit_eq bit_mask_iff)
  with b63 show "iiv_position w = pos"
    using assms(1) by (simp add: iiv_position_def and_CACHED mask_consts unat_of_nat_small)
  have "w AND mask 39 = of_int long AND mask 39"
    using hi by (intro bit_word_eqI) (auto simp: w_def mask_consts bit_CACHED bit_and_iff
        bit_or_iff bit_push_bit_iff bit_mask_iff)
  with b63 long_mask_roundtrip [OF assms(2,3)] show "iiv_cached_long w = Some long"
    by (simp add: iiv_cached_long_def and_CACHED mask_consts)
qed

text \<open>The two facts the arrays use: the position always survives packing, and a cached
  \<open>Long\<close> is the value it was packed from.\<close>

lemma unat_POSITION_MASK [simp]: "unat POSITION_MASK = 2 ^ 24 - 1"
  by (simp add: POSITION_MASK_def)

lemma iiv_position_new [simp]:
  assumes "pos < 2 ^ 63" shows "iiv_position (iiv_new pos v) = pos"
  using iiv_position_plain(1) [OF assms] iiv_packed(1)
  by (auto simp: iiv_new_def LONG_MIN_def LONG_MAX_def split: option.splits)

lemma iiv_cached_long_new:
  assumes "pos < 2 ^ 63" and "iiv_cached_long (iiv_new pos v) = Some n"
  shows "as_long v = Some n"
  using assms iiv_position_plain(2) [OF assms(1)] iiv_packed(2)
  by (auto simp: iiv_new_def LONG_MIN_def LONG_MAX_def split: option.splits if_splits)

lemma iiv_clear [simp]:
  "iiv_position w < 2 ^ 63 \<Longrightarrow> iiv_position (iiv_clear_cached_long w) = iiv_position w"
  "iiv_position w < 2 ^ 63 \<Longrightarrow> iiv_cached_long (iiv_clear_cached_long w) = None"
  by (simp_all add: iiv_clear_cached_long_def iiv_position_plain)

end
