(* ===== verification/Ordered_Map.thy ===== *)
theory Ordered_Map
  imports Prelude
begin

text \<open>
  The abstract specification of PHP's insertion-ordered maps: a list of entries with distinct
  keys. \<open>upsert\<close> overwrites in place or appends, \<open>remove_key\<close> deletes and keeps the order of
  the rest, \<open>lookup_key\<close> reads. The locale \<open>ordered_map\<close> is the contract of an implementation:
  its abstraction \<open>entries\<close> commutes with these operations. The arrays and the dynamic
  property tables are its two instances; the lemmas of the locale are proved once for both.
\<close>

definition find_key :: "'k \<Rightarrow> ('k \<times> 'v) list \<Rightarrow> nat option" where
  "find_key k es = position (\<lambda>e. fst e = k) es"

definition lookup_key :: "'k \<Rightarrow> ('k \<times> 'v) list \<Rightarrow> 'v option" where
  "lookup_key k es = map_option (\<lambda>i. snd (es ! i)) (find_key k es)"

definition upsert :: "'k \<Rightarrow> 'v \<Rightarrow> ('k \<times> 'v) list \<Rightarrow> ('k \<times> 'v) list" where
  "upsert k v es = (case find_key k es of Some i \<Rightarrow> es[i := (k, v)] | None \<Rightarrow> es @ [(k, v)])"

definition remove_key :: "'k \<Rightarrow> ('k \<times> 'v) list \<Rightarrow> ('k \<times> 'v) list" where
  "remove_key k es = (case find_key k es of Some i \<Rightarrow> vec_remove i es | None \<Rightarrow> es)"

subsection \<open>The specification is that of a map\<close>

lemma filter_key_absent: "k \<notin> fst ` set es \<Longrightarrow> filter (\<lambda>e. fst e \<noteq> k) es = es"
  by (induction es) auto

lemma find_key_None: "find_key k es = None \<longleftrightarrow> k \<notin> fst ` set es"
  by (auto simp: find_key_def position_None)

lemma find_key_SomeD: "find_key k es = Some i \<Longrightarrow> i < length es \<and> fst (es ! i) = k"
  unfolding find_key_def by (drule position_SomeD) simp

lemma find_key_unique:
  assumes "distinct (map fst es)" "i < length es" "fst (es ! i) = k"
  shows "find_key k es = Some i"
  unfolding find_key_def
proof (rule position_SomeI [OF assms(2)])
  fix j assume "j < i"
  then show "fst (es ! j) \<noteq> k"
    using assms nth_eq_iff_index_eq [of "map fst es" j i] by auto
qed (use assms in simp)

lemma find_key_Some_iff:
  "distinct (map fst es) \<Longrightarrow> find_key k es = Some i \<longleftrightarrow> i < length es \<and> fst (es ! i) = k"
  using find_key_SomeD find_key_unique by fast

lemma lookup_key_map_of: "lookup_key k es = map_of es k"
  by (induction es)
     (auto simp: lookup_key_def find_key_def option.map_comp comp_def split: option.splits)

lemma find_key_position: "find_key k es = position (\<lambda>x. x = k) (map fst es)"
  unfolding find_key_def by (rule position_cong_map [symmetric]) simp

lemma find_key_cong: "map fst es = map fst es' \<Longrightarrow> find_key k es = find_key k es'"
  by (simp add: find_key_position)

lemma map_fst_update_same:
  "i < length es \<Longrightarrow> fst (es ! i) = k \<Longrightarrow> map fst (es[i := (k, v)]) = map fst es"
  by (metis fst_conv length_map list_update_id map_update nth_map)

lemma upsert_keys:
  "map fst (upsert k v es) = (if find_key k es = None then map fst es @ [k] else map fst es)"
  by (auto simp: upsert_def map_fst_update_same dest!: find_key_SomeD split: option.splits)

lemma distinct_upsert: "distinct (map fst es) \<Longrightarrow> distinct (map fst (upsert k v es))"
  by (auto simp: upsert_keys find_key_None)

lemma lookup_upsert:
  assumes "distinct (map fst es)"
  shows "lookup_key k' (upsert k v es) = (if k' = k then Some v else lookup_key k' es)"
proof (cases "find_key k es")
  case None
  then have "map_of es k = None" by (simp add: find_key_None map_of_eq_None_iff)
  with None show ?thesis
    by (auto simp: upsert_def lookup_key_map_of map_add_def split: option.splits)
next
  case (Some i)
  then have i: "i < length es" "fst (es ! i) = k" by (auto dest: find_key_SomeD)
  have "find_key k' (es[i := (k, v)]) = find_key k' es"
    by (rule find_key_cong) (simp add: i map_fst_update_same)
  then have eq: "lookup_key k' (upsert k v es) =
      map_option (\<lambda>j. snd (es[i := (k, v)] ! j)) (find_key k' es)"
    by (simp add: upsert_def lookup_key_def Some)
  show ?thesis
  proof (cases "k' = k")
    case True
    with eq Some i(1) show ?thesis by simp
  next
    case False
    have "j \<noteq> i" if "find_key k' es = Some j" for j
      using find_key_SomeD [OF that] i(2) False by auto
    with eq False show ?thesis by (cases "find_key k' es") (auto simp: lookup_key_def)
  qed
qed

lemma vec_remove_keys: "map f (vec_remove i es) = vec_remove i (map f es)"
  by (simp add: vec_remove_def take_map drop_map)

lemma vec_remove_split:
  "i < length xs \<Longrightarrow> xs = take i xs @ xs ! i # drop (Suc i) xs"
  by (rule id_take_nth_drop)

lemma set_vec_remove_subset: "set (vec_remove i xs) \<subseteq> set xs"
  by (auto simp: vec_remove_def dest: in_set_takeD in_set_dropD)

lemma set_vec_remove_distinct:
  assumes "distinct xs" "i < length xs"
  shows "set (vec_remove i xs) = set xs - {xs ! i}"
proof -
  have "set xs = insert (xs ! i) (set (vec_remove i xs))"
    using vec_remove_split [OF assms(2)]
    by (metis Un_insert_right list.simps(15) set_append vec_remove_def)
  moreover have "xs ! i \<notin> set (vec_remove i xs)"
    using assms vec_remove_split [OF assms(2)] unfolding vec_remove_def
    by (metis distinct.simps(2) distinct_append disjoint_iff list.set_intros(1) set_append UnE)
  ultimately show ?thesis by auto
qed

lemma distinct_remove_key: "distinct (map fst es) \<Longrightarrow> distinct (map fst (remove_key k es))"
  by (auto simp: remove_key_def vec_remove_keys distinct_vec_remove split: option.splits)

lemma remove_key_filter:
  assumes "distinct (map fst es)"
  shows "remove_key k es = filter (\<lambda>e. fst e \<noteq> k) es"
proof (cases "find_key k es")
  case None
  then have "k \<notin> fst ` set es" by (simp add: find_key_None)
  then have "filter (\<lambda>e. fst e \<noteq> k) es = es" by (rule filter_key_absent)
  with None show ?thesis by (simp add: remove_key_def)
next
  case (Some i)
  then have i: "i < length es" "fst (es ! i) = k" by (auto dest: find_key_SomeD)
  have "distinct (map fst (take i es @ es ! i # drop (Suc i) es))"
    using assms i(1) by (simp add: id_take_nth_drop [symmetric])
  then have "k \<notin> fst ` set (take i es)" "k \<notin> fst ` set (drop (Suc i) es)"
    using i(2) by (auto simp: rev_image_eqI)
  then have "filter (\<lambda>e. fst e \<noteq> k) (take i es @ es ! i # drop (Suc i) es) =
      take i es @ drop (Suc i) es"
    using i(2) by (simp add: filter_key_absent)
  then show ?thesis
    using Some i(1) by (simp add: remove_key_def vec_remove_def id_take_nth_drop [symmetric])
qed

lemma map_of_filter_key:
  "map_of (filter (\<lambda>e. fst e \<noteq> k) es) k' = (if k' = k then None else map_of es k')"
  by (induction es) auto

lemma lookup_remove_key:
  "distinct (map fst es) \<Longrightarrow>
     lookup_key k' (remove_key k es) = (if k' = k then None else lookup_key k' es)"
  by (simp add: remove_key_filter lookup_key_map_of map_of_filter_key)

subsection \<open>The contract of an implementation\<close>

text \<open>
  \<open>admissible m k\<close> is what an update of \<open>m\<close> at \<open>k\<close> requires. Deletion answers whether the
  key was present.
\<close>

locale ordered_map =
  fixes entries :: "'m \<Rightarrow> ('k \<times> 'v) list"
    and invar :: "'m \<Rightarrow> bool"
    and admissible :: "'m \<Rightarrow> 'k \<Rightarrow> bool"
    and lookup :: "'m \<Rightarrow> 'k \<Rightarrow> 'v option"
    and update :: "'k \<Rightarrow> 'v \<Rightarrow> 'm \<Rightarrow> 'm"
    and delete :: "'k \<Rightarrow> 'm \<Rightarrow> 'm \<times> bool"
  assumes distinct_entries: "invar m \<Longrightarrow> distinct (map fst (entries m))"
    and lookup_spec: "invar m \<Longrightarrow> lookup m k = lookup_key k (entries m)"
    and invar_update: "invar m \<Longrightarrow> admissible m k \<Longrightarrow> invar (update k v m)"
    and update_spec: "invar m \<Longrightarrow> admissible m k \<Longrightarrow> entries (update k v m) = upsert k v (entries m)"
    and invar_delete: "invar m \<Longrightarrow> invar (fst (delete k m))"
    and delete_spec: "invar m \<Longrightarrow> entries (fst (delete k m)) = remove_key k (entries m)"
    and delete_found: "invar m \<Longrightarrow> snd (delete k m) = (lookup_key k (entries m) \<noteq> None)"
begin

lemma lookup_update:
  "invar m \<Longrightarrow> admissible m k \<Longrightarrow>
     lookup (update k v m) k' = (if k' = k then Some v else lookup m k')"
  by (simp add: lookup_spec invar_update update_spec lookup_upsert distinct_entries)

lemma lookup_delete:
  "invar m \<Longrightarrow> lookup (fst (delete k m)) k' = (if k' = k then None else lookup m k')"
  by (simp add: lookup_spec invar_delete delete_spec lookup_remove_key distinct_entries)

text \<open>Overwriting a key keeps the order of iteration; a new key goes last.\<close>

lemma update_key_order:
  "invar m \<Longrightarrow> admissible m k \<Longrightarrow>
     map fst (entries (update k v m)) =
       map fst (entries m) @ (if lookup m k = None then [k] else [])"
  by (simp add: update_spec upsert_keys lookup_spec lookup_key_def)

lemma delete_key_order:
  "invar m \<Longrightarrow> map fst (entries (fst (delete k m))) = filter (\<lambda>x. x \<noteq> k) (map fst (entries m))"
  by (simp add: delete_spec remove_key_filter distinct_entries filter_map comp_def)

lemma update_length:
  "invar m \<Longrightarrow> admissible m k \<Longrightarrow>
     length (entries (update k v m)) = length (entries m) + (if lookup m k = None then 1 else 0)"
  using update_key_order [of m k v] by (auto dest: arg_cong [of _ _ length])

lemma delete_update:
  assumes "invar m" "admissible m k" "lookup m k = None"
  shows "entries (fst (delete k (update k v m))) = entries m"
proof -
  have "k \<notin> fst ` set (entries m)"
    using assms by (simp add: lookup_spec lookup_key_def find_key_None)
  then have "filter (\<lambda>e. fst e \<noteq> k) (entries m @ [(k, v)]) = entries m"
    by (simp add: filter_key_absent)
  moreover have "entries (update k v m) = entries m @ [(k, v)]"
    using assms by (simp add: update_spec upsert_def lookup_spec lookup_key_def split: option.splits)
  moreover have "entries (fst (delete k (update k v m))) =
      filter (\<lambda>e. fst e \<noteq> k) (entries (update k v m))"
    using assms by (simp add: delete_spec invar_update remove_key_filter distinct_entries)
  ultimately show ?thesis by simp
qed

end

end
