(* ===== verification/Array_Storage.thy ===== *)
theory Array_Storage
  imports Array_Types Ordered_Map
begin

text \<open>
  The storage tiers below \<open>PhpArray\<close> (\<open>src/src/value/mod.rs\<close>): the inline table of up to
  three entries, the linear table with its lazily built string index, and the indexed hash
  whose integer keys are found through an arithmetic prefix or through \<open>int_index\<close>.
  The invariants \<open>small_wf\<close>, \<open>linear_wf\<close> and \<open>hash_wf\<close> say that every index agrees with the
  ordered entries; the lemmas show that each search equals the linear search \<open>find_key\<close> and
  that \<open>set_indexed_int\<close> implements \<open>upsert\<close>.
\<close>

subsection \<open>Searches, indexes and the verified integer prefix\<close>

definition linear_find_int :: "'v entries \<Rightarrow> int \<Rightarrow> nat option" where
  "linear_find_int es key = position (\<lambda>e. fst e = Key_Int key) es"

definition linear_find_str :: "'v entries \<Rightarrow> byte_string \<Rightarrow> nat option" where
  "linear_find_str es key = position (\<lambda>e. fst e = Key_String key) es"

definition progression_key :: "int \<Rightarrow> int \<Rightarrow> nat \<Rightarrow> int option" where
  "progression_key first stride n =
     Option.bind (Option.bind (i64_try_from n) (checked_mul stride)) (checked_add first)"

text \<open>The scan of \<open>verified_int_prefix_len\<close>: \<open>len\<close> entries follow the progression so far.\<close>

fun prefix_run :: "int \<Rightarrow> int \<Rightarrow> nat \<Rightarrow> 'v entries \<Rightarrow> nat" where
  "prefix_run first stride len [] = len"
| "prefix_run first stride len ((Key_String s, v) # es) = len"
| "prefix_run first stride len ((Key_Int key, v) # es) =
     (if progression_key first stride len = Some key
      then prefix_run first stride (Suc len) es else len)"

fun verified_int_prefix_len :: "'v entries \<Rightarrow> nat" where
  "verified_int_prefix_len ((Key_Int first, v) # (Key_Int second, w) # es) =
     (case checked_sub second first of
        None \<Rightarrow> 1
      | Some stride \<Rightarrow>
          if stride = 0 then 1 else prefix_run first stride 1 ((Key_Int second, w) # es))"
| "verified_int_prefix_len ((Key_Int first, v) # es) = 1"
| "verified_int_prefix_len es = 0"

definition entry_int :: "(array_key \<times> 'v) option \<Rightarrow> int option" where
  "entry_int e = (case e of Some (Key_Int n, _) \<Rightarrow> Some n | _ \<Rightarrow> None)"

text \<open>The position the arithmetic prefix predicts for \<open>key\<close>, before it is validated.\<close>

definition predicted_position :: "'v entries \<Rightarrow> nat \<Rightarrow> int \<Rightarrow> nat option" where
  "predicted_position es verified key =
     Option.bind (entry_int (vec_get es 0)) (\<lambda>first.
       if verified = 1 then (if first = key then Some 0 else None)
       else
         Option.bind (entry_int (vec_get es 1)) (\<lambda>second.
         Option.bind (checked_sub second first) (\<lambda>stride.
           if stride = 0 then None
           else
             Option.bind (checked_sub key first) (\<lambda>offset.
               if checked_rem offset stride \<noteq> Some 0 then None
               else Option.bind (checked_div offset stride) usize_try_from))))"

definition verified_int_position :: "'v entries \<Rightarrow> nat \<Rightarrow> int \<Rightarrow> nat option" where
  "verified_int_position es verified key =
     (if verified = 0 then None
      else
        Option.bind (predicted_position es verified key) (\<lambda>pos.
          if verified \<le> pos then None
          else if entry_int (vec_get es pos) = Some key then Some pos else None))"

fun index_ints :: "nat \<Rightarrow> php_value entries \<Rightarrow> int_index \<Rightarrow> int_index" where
  "index_ints pos [] ii = ii"
| "index_ints pos ((Key_Int n, v) # es) ii =
     index_ints (Suc pos) es (AList.update n (iiv_new pos v) ii)"
| "index_ints pos ((Key_String s, v) # es) ii = index_ints (Suc pos) es ii"

definition materialize_int_index :: "php_value entries \<Rightarrow> int_index" where
  "materialize_int_index es = index_ints 0 es []"

definition rebuild_int_index :: "php_value entries \<Rightarrow> int_index \<times> nat" where
  "rebuild_int_index es =
     (let verified = verified_int_prefix_len es
      in if list_all (\<lambda>e. is_string_key (fst e)) (drop verified es) then ([], verified)
         else (materialize_int_index es, 0))"

definition indexed_int_position ::
  "'v entries \<Rightarrow> int_index \<Rightarrow> nat \<Rightarrow> int \<Rightarrow> nat option" where
  "indexed_int_position es ii verified key =
     (case verified_int_position es verified key of
        Some pos \<Rightarrow> Some pos
      | None \<Rightarrow> map_option iiv_position (map_of ii key))"

text \<open>The string indexes: \<open>index_strings\<close> inserts every string key from a position on,
  \<open>complete_str_index\<close> only those the index misses.\<close>

fun index_strings :: "nat \<Rightarrow> 'v entries \<Rightarrow> str_index \<Rightarrow> str_index" where
  "index_strings pos [] si = si"
| "index_strings pos ((Key_String s, v) # es) si = index_strings (Suc pos) es (AList.update s pos si)"
| "index_strings pos ((Key_Int n, v) # es) si = index_strings (Suc pos) es si"

fun complete_str_index :: "nat \<Rightarrow> 'v entries \<Rightarrow> str_index \<Rightarrow> str_index" where
  "complete_str_index pos [] si = si"
| "complete_str_index pos ((Key_String s, v) # es) si =
     complete_str_index (Suc pos) es (if map_of si s = None then AList.update s pos si else si)"
| "complete_str_index pos ((Key_Int n, v) # es) si = complete_str_index (Suc pos) es si"

definition reindex_string_entries :: "'v entries \<Rightarrow> str_index \<Rightarrow> nat \<Rightarrow> str_index" where
  "reindex_string_entries es si from = index_strings from (drop from es) si"

subsection \<open>The indexed insertion\<close>

definition extends_verified_prefix ::
  "'v entries \<Rightarrow> int_index \<Rightarrow> nat \<Rightarrow> int \<Rightarrow> bool" where
  "extends_verified_prefix es ii verified key \<longleftrightarrow>
     verified = length es \<and> ii = [] \<and>
     (if verified = 0 then es = []
      else if verified = 1 then
        (case entry_int (vec_get es 0) of None \<Rightarrow> False | Some first \<Rightarrow> first \<noteq> key)
      else
        (case (entry_int (vec_get es 0), entry_int (vec_get es 1)) of
           (Some first, Some second) \<Rightarrow>
             Option.bind (checked_sub second first)
               (\<lambda>stride. progression_key first stride verified) = Some key
         | _ \<Rightarrow> False))"

definition bump_next :: "int \<Rightarrow> int \<Rightarrow> int" where
  "bump_next key nxt = (if nxt \<le> key then saturating_add_i64 key 1 else nxt)"

definition set_entry_value :: "'v entries \<Rightarrow> nat \<Rightarrow> 'v \<Rightarrow> 'v entries" where
  "set_entry_value es pos v = es[pos := (fst (es ! pos), v)]"

definition set_indexed_int ::
  "php_value entries \<Rightarrow> int_index \<Rightarrow> nat \<Rightarrow> int \<Rightarrow> int \<Rightarrow> php_value
     \<Rightarrow> php_value entries \<times> int_index \<times> nat \<times> int" where
  "set_indexed_int es ii verified nxt key v =
     (case verified_int_position es verified key of
        Some pos \<Rightarrow> (set_entry_value es pos v, ii, verified, nxt)
      | None \<Rightarrow>
          if extends_verified_prefix es ii verified key then
            (es @ [(Key_Int key, v)], ii, Suc verified, bump_next key nxt)
          else
            (let (ii, verified) = (if verified \<noteq> 0 then (materialize_int_index es, 0)
                                   else (ii, verified))
             in case map_of ii key of
                  Some w \<Rightarrow>
                    (set_entry_value es (iiv_position w) v,
                     AList.update key (iiv_new (iiv_position w) v) ii, verified, nxt)
                | None \<Rightarrow>
                    (es @ [(Key_Int key, v)],
                     AList.update key (iiv_new (length es) v) ii, verified, bump_next key nxt)))"

subsection \<open>The inline table\<close>

definition SMALL_HASH_CAPACITY :: nat where "SMALL_HASH_CAPACITY = 3"
definition LINEAR_HASH_CAPACITY :: nat where "LINEAR_HASH_CAPACITY = 8"
definition LINEAR_HASH_INDEX_THRESHOLD :: nat where "LINEAR_HASH_INDEX_THRESHOLD = 4"

type_synonym 'v slots = "(array_key \<times> 'v) option list"

definition small_new :: "'v slots" where
  "small_new = replicate SMALL_HASH_CAPACITY None"

definition small_len :: "'v slots \<Rightarrow> nat" where
  "small_len slots =
     (case position (\<lambda>e. e = None) slots of Some n \<Rightarrow> n | None \<Rightarrow> SMALL_HASH_CAPACITY)"

definition small_get :: "'v slots \<Rightarrow> nat \<Rightarrow> (array_key \<times> 'v) option" where
  "small_get slots pos = Option.bind (vec_get slots pos) id"

definition small_push :: "array_key \<Rightarrow> 'v \<Rightarrow> 'v slots \<Rightarrow> 'v slots \<times> bool" where
  "small_push key v slots =
     (let len = small_len slots
      in if len = SMALL_HASH_CAPACITY then (slots, False)
         else (slots[len := Some (key, v)], True))"

definition small_find_int :: "'v slots \<Rightarrow> int \<Rightarrow> nat option" where
  "small_find_int slots key =
     position (\<lambda>e. map_option fst e = Some (Key_Int key)) (take (small_len slots) slots)"

definition small_find_str :: "'v slots \<Rightarrow> byte_string \<Rightarrow> nat option" where
  "small_find_str slots key =
     position (\<lambda>e. map_option fst e = Some (Key_String key)) (take (small_len slots) slots)"

definition shift_slot :: "nat \<Rightarrow> 'v slots \<Rightarrow> 'v slots" where
  "shift_slot index slots = slots[index := slots ! Suc index, Suc index := None]"

definition small_remove_at :: "nat \<Rightarrow> 'v slots \<Rightarrow> 'v slots \<times> (array_key \<times> 'v) option" where
  "small_remove_at pos slots =
     (let len = small_len slots
      in if len \<le> pos then (slots, None)
         else (fold shift_slot [pos..<len - 1] (slots[pos := None]), slots ! pos))"

definition small_set_value :: "'v slots \<Rightarrow> nat \<Rightarrow> 'v \<Rightarrow> 'v slots" where
  "small_set_value slots pos v = slots[pos := map_option (\<lambda>(k, _). (k, v)) (slots ! pos)]"

text \<open>\<open>entries.into_iter().flatten()\<close>.\<close>

definition small_entries :: "'v slots \<Rightarrow> 'v entries" where
  "small_entries slots = List.map_filter id slots"

subsection \<open>The linear table\<close>

definition linear_from_entries :: "'v entries \<Rightarrow> 'v linear_hash" where
  "linear_from_entries es = Linear es 0 None"

definition linear_find_str_for_update :: "'v linear_hash \<Rightarrow> byte_string \<Rightarrow> nat option" where
  "linear_find_str_for_update l key =
     (case Option.bind (lin_index l) (\<lambda>index. map_of index key) of
        Some pos \<Rightarrow> Some pos
      | None \<Rightarrow> linear_find_str (lin_entries l) key)"

text \<open>A read counts, and the fourth builds the string index (\<open>Cell\<close> and \<open>OnceCell\<close>: the
  table is returned with the answer).\<close>

definition linear_find_str_read ::
  "'v linear_hash \<Rightarrow> byte_string \<Rightarrow> 'v linear_hash \<times> nat option" where
  "linear_find_str_read l key =
     (case lin_index l of
        Some index \<Rightarrow> (l, map_of index key)
      | None \<Rightarrow>
          (let pos = linear_find_str (lin_entries l) key;
               lookups = min 255 (lin_lookups l + 1)
           in (if LINEAR_HASH_INDEX_THRESHOLD \<le> lookups
               then Linear (lin_entries l) (lin_lookups l)
                      (Some (index_strings 0 (lin_entries l) []))
               else Linear (lin_entries l) lookups None, pos)))"

definition linear_invalidate_index :: "'v linear_hash \<Rightarrow> 'v linear_hash" where
  "linear_invalidate_index l = Linear (lin_entries l) 0 None"

definition linear_with_entries :: "'v linear_hash \<Rightarrow> 'v entries \<Rightarrow> 'v linear_hash" where
  "linear_with_entries l es = Linear es (lin_lookups l) (lin_index l)"

subsection \<open>The invariant of indexed storage\<close>

definition keys_ok :: "'v entries \<Rightarrow> bool" where
  "keys_ok es \<longleftrightarrow> distinct (map fst es) \<and> (\<forall>n. Key_Int n \<in> fst ` set es \<longrightarrow> in_i64 n) \<and>
     length es < 2 ^ 56"

definition str_index_ok :: "'v entries \<Rightarrow> str_index \<Rightarrow> bool" where
  "str_index_ok es si \<longleftrightarrow> (\<forall>s. map_of si s = linear_find_str es s)"

definition int_index_ok :: "'v entries \<Rightarrow> int_index \<Rightarrow> bool" where
  "int_index_ok es ii \<longleftrightarrow> (\<forall>n. map_option iiv_position (map_of ii n) = linear_find_int es n)"

definition int_prefix :: "'v entries \<Rightarrow> nat \<Rightarrow> bool" where
  "int_prefix es p \<longleftrightarrow> p \<le> length es \<and>
     (\<exists>first stride. (\<forall>i < p. fst (es ! i) = Key_Int (first + stride * int i) \<and>
        in_i64 (stride * int i)) \<and> (2 \<le> p \<longrightarrow> stride \<noteq> 0))"

definition hash_wf :: "'v entries \<Rightarrow> str_index \<Rightarrow> int_index \<Rightarrow> nat \<Rightarrow> bool" where
  "hash_wf es si ii p \<longleftrightarrow> keys_ok es \<and> str_index_ok es si \<and>
     (if p = 0 then int_index_ok es ii
      else ii = [] \<and> int_prefix es p \<and> list_all (\<lambda>e. is_string_key (fst e)) (drop p es))"

text \<open>The cached longs of the integer index are those of the entries.\<close>

definition cache_ok :: "php_value entries \<Rightarrow> int_index \<Rightarrow> bool" where
  "cache_ok es ii \<longleftrightarrow> (\<forall>n w l. map_of ii n = Some w \<longrightarrow> iiv_cached_long w = Some l \<longrightarrow>
     as_long (snd (es ! iiv_position w)) = Some l)"

lemma linear_find: "linear_find_int es n = find_key (Key_Int n) es"
    "linear_find_str es s = find_key (Key_String s) es"
  by (simp_all add: linear_find_int_def linear_find_str_def find_key_def)

lemma keys_okD:
  assumes "keys_ok es"
  shows "distinct (map fst es)" "Key_Int n \<in> fst ` set es \<Longrightarrow> in_i64 n" "length es < 2 ^ 56"
    "i < length es \<Longrightarrow> fst (es ! i) = Key_Int n \<Longrightarrow> in_i64 n"
  using assms by (auto simp: keys_ok_def) (metis image_eqI nth_mem)

lemma linear_find_int_iff:
  "keys_ok es \<Longrightarrow> linear_find_int es n = Some i \<longleftrightarrow> i < length es \<and> fst (es ! i) = Key_Int n"
  by (simp add: linear_find find_key_Some_iff keys_okD)

lemma find_key_Cons:
  "find_key k (e # es) = (if fst e = k then Some 0 else map_option Suc (find_key k es))"
  by (simp add: find_key_def)

lemma map_of_index_ints:
  "distinct (map fst es) \<Longrightarrow> map_of (index_ints p es ii) n =
     (case linear_find_int es n of Some i \<Rightarrow> Some (iiv_new (p + i) (snd (es ! i)))
      | None \<Rightarrow> map_of ii n)"
proof (induction p es ii rule: index_ints.induct)
  case (2 pos m v es ii)
  then have "find_key (Key_Int m) es = None" by (simp add: find_key_None)
  with 2 show ?case
    by (auto simp: linear_find find_key_Cons split: option.splits)
qed (auto simp: linear_find find_key_Cons find_key_def split: option.splits)

lemma map_of_index_strings:
  "distinct (map fst es) \<Longrightarrow> map_of (index_strings p es si) s =
     (case linear_find_str es s of Some i \<Rightarrow> Some (p + i) | None \<Rightarrow> map_of si s)"
proof (induction p es si rule: index_strings.induct)
  case (2 pos m v es si)
  then have "find_key (Key_String m) es = None" by (simp add: find_key_None)
  with 2 show ?case
    by (auto simp: linear_find find_key_Cons split: option.splits)
qed (auto simp: linear_find find_key_Cons find_key_def split: option.splits)

lemma map_of_complete_str_index:
  "distinct (map fst es) \<Longrightarrow> map_of (complete_str_index p es si) s =
     (case map_of si s of Some i \<Rightarrow> Some i
      | None \<Rightarrow> (case linear_find_str es s of Some i \<Rightarrow> Some (p + i) | None \<Rightarrow> None))"
proof (induction p es si rule: complete_str_index.induct)
  case (2 pos m v es si)
  then have "find_key (Key_String m) es = None" by (simp add: find_key_None)
  with 2 show ?case
    by (auto simp: linear_find find_key_Cons option.map_comp comp_def split: option.splits)
qed (auto simp: linear_find find_key_Cons find_key_def option.map_comp comp_def split: option.splits)

lemma materialize_ok:
  assumes "keys_ok es"
  shows "int_index_ok es (materialize_int_index es)" "cache_ok es (materialize_int_index es)"
proof -
  have map: "map_of (materialize_int_index es) n =
      map_option (\<lambda>i. iiv_new i (snd (es ! i))) (linear_find_int es n)" for n
    using keys_okD(1) [OF assms]
    by (auto simp: materialize_int_index_def map_of_index_ints split: option.splits)
  have small: "i < 2 ^ 63" if "linear_find_int es n = Some i" for n i
    using that keys_okD(3) [OF assms] find_key_SomeD [of "Key_Int n" es i] by (simp add: linear_find)
  show "int_index_ok es (materialize_int_index es)"
    unfolding int_index_ok_def map
    using small by (auto simp: option.map_comp comp_def intro!: option.map_ident_strong)
  show "cache_ok es (materialize_int_index es)"
    unfolding cache_ok_def map
    using small by (auto dest!: iiv_cached_long_new [rotated])
qed

lemma str_index_ok_rebuild:
  "keys_ok es \<Longrightarrow> str_index_ok es (index_strings 0 es [])"
  by (auto simp: str_index_ok_def map_of_index_strings keys_okD split: option.splits)

lemma str_index_ok_complete:
  "keys_ok es \<Longrightarrow> str_index_ok es si \<Longrightarrow> str_index_ok es (complete_str_index 0 es si)"
  "keys_ok es \<Longrightarrow> str_index_ok es (complete_str_index 0 es [])"
  by (auto simp: str_index_ok_def map_of_complete_str_index keys_okD option.map_ident
      split: option.splits)

text \<open>What the prefix scan has verified.\<close>

lemma prefix_run_ge: "len \<le> prefix_run first stride len es"
  by (induction first stride len es rule: prefix_run.induct) (auto intro: order_trans)

lemma prefix_run_le: "prefix_run first stride len es \<le> len + length es"
  by (induction first stride len es rule: prefix_run.induct) auto

lemma progression_key_Some [simp]:
  "progression_key first stride n = Some k \<longleftrightarrow>
     int n \<le> i64_MAX \<and> in_i64 (stride * int n) \<and> k = first + stride * int n \<and> in_i64 k"
  by (auto simp: progression_key_def bind_eq_Some_conv)

lemma prefix_run_keys:
  "len \<le> i \<Longrightarrow> i < prefix_run first stride len es \<Longrightarrow>
     fst (es ! (i - len)) = Key_Int (first + stride * int i) \<and> in_i64 (stride * int i)"
proof (induction first stride len es arbitrary: i rule: prefix_run.induct)
  case (3 first stride len key v es)
  show ?case
  proof (cases "i = len")
    case True
    with 3 show ?thesis by (auto split: if_splits)
  next
    case False
    with 3 show ?thesis by (auto split: if_splits simp: nth_Cons' Suc_diff_Suc)
  qed
qed auto

lemma verified_int_prefix_len_spec: "int_prefix es (verified_int_prefix_len es)"
proof (cases es rule: verified_int_prefix_len.cases)
  case (1 first v second w es')
  show ?thesis
  proof (cases "\<exists>stride. checked_sub second first = Some stride \<and> stride \<noteq> 0")
    case True
    then obtain stride where st: "checked_sub second first = Some stride" "stride \<noteq> 0" by blast
    let ?p = "prefix_run first stride 1 ((Key_Int second, w) # es')"
    have p: "verified_int_prefix_len es = ?p"
      using st(2) by (simp only: 1 verified_int_prefix_len.simps st(1) option.case if_False)
    have "?p \<le> length es" using prefix_run_le [of first stride 1 "(Key_Int second, w) # es'"] 1 by simp
    moreover have "fst (es ! i) = Key_Int (first + stride * int i) \<and> in_i64 (stride * int i)"
      if "i < ?p" for i
      using prefix_run_keys [of 1 i first stride "(Key_Int second, w) # es'"] that
      by (cases i) (auto simp: 1)
    ultimately show ?thesis using st(2) p unfolding int_prefix_def by metis
  next
    case False
    then have "verified_int_prefix_len es = 1" by (auto simp: 1 split: option.splits)
    moreover have "int_prefix es 1" by (auto simp: int_prefix_def 1)
    ultimately show ?thesis by simp
  qed
qed (auto simp: int_prefix_def)

lemma rebuild_int_index_ok:
  assumes "keys_ok es" and "rebuild_int_index es = (ii, p)"
  shows "if p = 0 then int_index_ok es ii
         else ii = [] \<and> int_prefix es p \<and> list_all (\<lambda>e. is_string_key (fst e)) (drop p es)"
    and "cache_ok es ii"
proof -
  have "int_index_ok es []" if "list_all (\<lambda>e. is_string_key (fst e)) es"
    using that by (force simp: int_index_ok_def linear_find list_all_iff find_key_None
        intro!: sym [of "find_key _ _"])
  with assms verified_int_prefix_len_spec [of es] materialize_ok [OF assms(1)]
  show "if p = 0 then int_index_ok es ii
         else ii = [] \<and> int_prefix es p \<and> list_all (\<lambda>e. is_string_key (fst e)) (drop p es)"
    and "cache_ok es ii"
    by (auto simp: rebuild_int_index_def Let_def cache_ok_def split: if_splits)
qed

lemma entry_int_get [simp]:
  "entry_int (vec_get es i) = Some n \<longleftrightarrow> i < length es \<and> fst (es ! i) = Key_Int n"
  by (cases "es ! i") (auto simp: entry_int_def vec_get_def split: array_key.splits)

lemma verified_int_position_Some:
  assumes "verified_int_position es p key = Some i"
  shows "i < p" "i < length es" "fst (es ! i) = Key_Int key"
  using assms by (auto simp: verified_int_position_def bind_eq_Some_conv split: if_splits)

lemma verified_int_position_complete:
  assumes pre: "int_prefix es p" and i: "i < p" "fst (es ! i) = Key_Int key"
    and bound: "length es < 2 ^ 56"
  shows "\<exists>j. verified_int_position es p key = Some j"
proof -
  from pre obtain first stride where len: "p \<le> length es" and
    run: "\<And>i. i < p \<Longrightarrow> fst (es ! i) = Key_Int (first + stride * int i) \<and> in_i64 (stride * int i)"
    and nz: "2 \<le> p \<Longrightarrow> stride \<noteq> 0"
    unfolding int_prefix_def by blast
  have k: "key = first + stride * int i" and off: "in_i64 (stride * int i)"
    using run [OF i(1)] i(2) by auto
  have "0 < length es" using i(1) len by linarith
  then have e0: "entry_int (vec_get es 0) = Some first" using run [of 0] i(1) by simp
  have "predicted_position es p key = Some i"
  proof (cases "p = 1")
    case True
    with i(1) k e0 show ?thesis by (simp add: predicted_position_def del: entry_int_get)
  next
    case False
    with i(1) have p2: "2 \<le> p" by simp
    have e1: "entry_int (vec_get es 1) = Some (first + stride)" using run [of 1] p2 len by simp
    have st: "in_i64 stride" using run [of 1] p2 by simp
    have "checked_rem (stride * int i) stride = Some 0"
      using nz [OF p2] i(1) len bound by (auto simp: checked_rem_def i64_simps)
    moreover have "checked_div (stride * int i) stride = Some (int i)"
      using nz [OF p2] i(1) len bound
      by (simp add: checked_div_def sdiv_mult_self) (simp add: i64_simps)
    ultimately show ?thesis
      using nz [OF p2] False e0 e1 st off
      by (simp add: predicted_position_def k checked_sub_def checked_def del: entry_int_get)
  qed
  with i len show ?thesis by (simp add: verified_int_position_def)
qed

lemma hash_wfD:
  assumes "hash_wf es si ii p"
  shows "keys_ok es" "str_index_ok es si" "p = 0 \<Longrightarrow> int_index_ok es ii"
    "p \<noteq> 0 \<Longrightarrow> ii = []" "p \<noteq> 0 \<Longrightarrow> int_prefix es p"
    "p \<noteq> 0 \<Longrightarrow> list_all (\<lambda>e. is_string_key (fst e)) (drop p es)"
  using assms by (auto simp: hash_wf_def split: if_splits)

lemma verified_int_position_ok:
  assumes wf: "hash_wf es si ii p" and p: "p \<noteq> 0"
  shows "verified_int_position es p key = linear_find_int es key"
proof (cases "verified_int_position es p key")
  case None
  note keys = hash_wfD(1) [OF wf]
  have "fst (es ! i) \<noteq> Key_Int key" if "i < length es" for i
  proof (cases "i < p")
    case True
    with verified_int_position_complete [OF hash_wfD(5) [OF wf p] True _ keys_okD(3) [OF keys]] None
    show ?thesis by auto
  next
    case False
    with hash_wfD(6) [OF wf p] that have "is_string_key (fst (es ! i))"
      by (auto simp: list_all_length) (metis add.commute le_Suc_ex less_diff_conv not_less)
    then show ?thesis by auto
  qed
  with None keys show ?thesis
    by (metis find_key_SomeD linear_find(1) not_None_eq)
next
  case (Some i)
  with verified_int_position_Some [OF Some] linear_find_int_iff [OF hash_wfD(1) [OF wf], of key i]
  show ?thesis by simp
qed

lemma indexed_int_position_ok:
  assumes wf: "hash_wf es si ii p"
  shows "indexed_int_position es ii p key = linear_find_int es key"
proof (cases "p = 0")
  case True
  with hash_wfD(3) [OF wf] show ?thesis
    by (simp add: indexed_int_position_def verified_int_position_def int_index_ok_def)
next
  case False
  with hash_wfD(4) [OF wf] verified_int_position_ok [OF wf False] show ?thesis
    by (auto simp: indexed_int_position_def split: option.splits)
qed

subsection \<open>Overwriting and appending entries\<close>

lemma find_key_upsert:
  "find_key k' (upsert k v es) =
     (if k' = k \<and> find_key k es = None then Some (length es) else find_key k' es)"
  by (auto simp: find_key_position upsert_keys position_append split: option.splits)

lemma set_entry_value_upsert:
  "find_key k es = Some i \<Longrightarrow> set_entry_value es i v = upsert k v es"
  by (auto simp: set_entry_value_def upsert_def dest: find_key_SomeD)

lemma keys_ok_upsert:
  assumes "keys_ok es" "Suc (length es) < 2 ^ 56" "\<And>n. k = Key_Int n \<Longrightarrow> in_i64 n"
  shows "keys_ok (upsert k v es)"
proof -
  have "fst ` set (upsert k v es) \<subseteq> insert k (fst ` set es)"
    using upsert_keys [of k v es] by (metis image_set insert_is_Un set_append list.set sup_commute
        Un_insert_right subset_insertI subset_refl sup_bot_right)
  moreover have "length (upsert k v es) \<le> Suc (length es)"
    by (auto simp: upsert_def split: option.splits)
  ultimately show ?thesis
    using assms distinct_upsert [of es k v] by (auto simp: keys_ok_def)
qed

lemma int_prefix_cong: "map fst es = map fst es' \<Longrightarrow> int_prefix es p = int_prefix es' p"
  unfolding int_prefix_def by (metis (no_types, lifting) length_map nth_map order_less_le_trans)

lemma str_index_ok_upsert_int:
  "str_index_ok es si \<Longrightarrow> str_index_ok (upsert (Key_Int n) v es) si"
  by (simp add: str_index_ok_def linear_find find_key_upsert)

lemma upsert_overwrite_keys: "find_key k es = Some i \<Longrightarrow> map fst (upsert k v es) = map fst es"
  by (simp add: upsert_keys)

lemma list_all_keys_drop:
  "list_all (\<lambda>e. P (fst e)) (drop p es) = list_all P (drop p (map fst es))"
  by (simp add: drop_map list.pred_map comp_def)

text \<open>Overwriting a value keeps every index.\<close>

lemma hash_wf_overwrite:
  assumes wf: "hash_wf es si ii p" and keys: "map fst es' = map fst es"
  shows "hash_wf es' si ii p"
proof -
  have "find_key k es' = find_key k es" for k by (rule find_key_cong [OF keys])
  moreover have "length es' = length es" using keys by (metis length_map)
  moreover have "fst ` set es' = fst ` set es" using keys by (metis image_set)
  ultimately show ?thesis
    using wf keys int_prefix_cong [OF keys]
    by (auto simp: hash_wf_def keys_ok_def str_index_ok_def int_index_ok_def linear_find
        list_all_keys_drop)
qed

text \<open>
  The side condition of an integer write: when a verified prefix of length one is extended,
  the stride to the new key has to be an \<open>i64\<close>. The code does not check it.
\<close>

definition stride_safe :: "'v entries \<Rightarrow> int_index \<Rightarrow> nat \<Rightarrow> int \<Rightarrow> bool" where
  "stride_safe es ii p key \<longleftrightarrow>
     (p = 1 \<and> length es = 1 \<and> ii = [] \<longrightarrow>
        (case entry_int (vec_get es 0) of None \<Rightarrow> True | Some first \<Rightarrow> in_i64 (key - first)))"

lemma int_prefixI:
  assumes "p \<le> length es"
    and "\<And>i. i < p \<Longrightarrow> fst (es ! i) = Key_Int (first + stride * int i) \<and> in_i64 (stride * int i)"
    and "2 \<le> p \<Longrightarrow> stride \<noteq> 0"
  shows "int_prefix es p"
  using assms unfolding int_prefix_def by blast

lemma int_prefix_extend:
  assumes pre: "int_prefix es p" and ext: "extends_verified_prefix es ii p key"
    and safe: "stride_safe es ii p key"
  shows "int_prefix (es @ [(Key_Int key, v)]) (Suc p)"
proof -
  from ext have len: "p = length es" by (simp add: extends_verified_prefix_def)
  from pre obtain first stride where
    run: "\<And>i. i < p \<Longrightarrow> fst (es ! i) = Key_Int (first + stride * int i) \<and> in_i64 (stride * int i)"
    and nz: "2 \<le> p \<Longrightarrow> stride \<noteq> 0"
    unfolding int_prefix_def by blast
  consider "p = 0" | "p = 1" | "2 \<le> p" by linarith
  then show ?thesis
  proof cases
    case 1
    with len show ?thesis by (auto simp: int_prefix_def intro!: exI [of _ key])
  next
    case 2
    obtain v0 where es: "es = [(Key_Int first, v0)]"
      using run [of 0] 2 len by (cases es) auto
    have "first \<noteq> key" "in_i64 (key - first)"
      using ext safe 2 by (auto simp: extends_verified_prefix_def stride_safe_def es vec_get_def
          entry_int_def)
    then have "\<forall>i < Suc p. fst ((es @ [(Key_Int key, v)]) ! i) =
        Key_Int (first + (key - first) * int i) \<and> in_i64 ((key - first) * int i)"
      using 2 es by (auto simp: less_Suc_eq)
    moreover have "key - first \<noteq> 0" using \<open>first \<noteq> key\<close> by simp
    ultimately show ?thesis using len by (intro int_prefixI) auto
  next
    case 3
    then have ne: "1 < length es" using len by simp
    have e01: "entry_int (vec_get es 0) = Some first" "entry_int (vec_get es (Suc 0)) = Some (first + stride)"
      using run [of 0] run [of 1] 3 ne by auto
    have "in_i64 stride" using run [of 1] 3 by simp
    then have sub: "checked_sub (first + stride) first = Some stride" by simp
    from ext 3 have "progression_key first stride p = Some key"
      by (auto simp add: extends_verified_prefix_def e01 sub simp del: entry_int_get checked_sub_Some
          progression_key_Some)
    then show ?thesis
      using run nz [OF 3] len
      by (intro int_prefixI [where first = first and stride = stride])
         (auto simp: nth_append less_Suc_eq)
  qed
qed

lemma upsert_absent: "find_key k es = None \<Longrightarrow> upsert k v es = es @ [(k, v)]"
  by (simp add: upsert_def)

text \<open>The part of \<open>set_indexed_int\<close> that goes through a materialized index.\<close>

lemma int_index_insert:
  assumes keys: "keys_ok es" and ii: "int_index_ok es ii" and room: "length es < 2 ^ 56"
    and pos: "pos = (case find_key (Key_Int key) es of Some i \<Rightarrow> i | None \<Rightarrow> length es)"
  shows "int_index_ok (upsert (Key_Int key) v es) (AList.update key (iiv_new pos v) ii)"
    and "cache_ok es ii \<Longrightarrow> cache_ok (upsert (Key_Int key) v es) (AList.update key (iiv_new pos v) ii)"
proof -
  have small: "pos < 2 ^ 63"
    using pos room by (auto split: option.splits dest: find_key_SomeD)
  then show "int_index_ok (upsert (Key_Int key) v es) (AList.update key (iiv_new pos v) ii)"
    using ii pos by (auto simp: int_index_ok_def linear_find find_key_upsert split: option.splits)
  assume cache: "cache_ok es ii"
  have new: "snd (upsert (Key_Int key) v es ! pos) = v"
    using pos by (auto simp: upsert_def split: option.splits dest: find_key_SomeD)
  have old: "snd (upsert (Key_Int key) v es ! i) = snd (es ! i)"
    if "find_key (Key_Int n) es = Some i" "n \<noteq> key" for n i
    using find_key_SomeD [OF that(1)] that(2) find_key_SomeD [of "Key_Int key" es]
    by (auto simp: upsert_def nth_append nth_list_update split: option.splits)
  have "find_key (Key_Int n) es = Some (iiv_position w)" if "map_of ii n = Some w" for n w
    using ii that unfolding int_index_ok_def linear_find by (metis option.simps(9))
  then have kept: "as_long (snd (upsert (Key_Int key) v es ! iiv_position w)) = Some l"
    if "map_of ii n = Some w" "iiv_cached_long w = Some l" "n \<noteq> key" for n w l
    using cache old [of n "iiv_position w"] that by (simp add: cache_ok_def)
  show "cache_ok (upsert (Key_Int key) v es) (AList.update key (iiv_new pos v) ii)"
    unfolding cache_ok_def
    using kept iiv_cached_long_new [OF small] iiv_position_new [OF small]
    by (auto simp: new split: if_splits)
qed

lemma set_indexed_int_materialized:
  assumes wf: "hash_wf es si ii 0" and room: "Suc (length es) < 2 ^ 56" and key: "in_i64 key"
  defines "found \<equiv> find_key (Key_Int key) es"
  defines "pos \<equiv> (case found of Some i \<Rightarrow> i | None \<Rightarrow> length es)"
  shows "(case map_of ii key of
            Some w \<Rightarrow> (set_entry_value es (iiv_position w) v,
                       AList.update key (iiv_new (iiv_position w) v) ii, 0, nxt)
          | None \<Rightarrow> (es @ [(Key_Int key, v)], AList.update key (iiv_new (length es) v) ii, 0,
                      bump_next key nxt)) =
         (upsert (Key_Int key) v es, AList.update key (iiv_new pos v) ii, 0,
          if found = None then bump_next key nxt else nxt)"
    and "hash_wf (upsert (Key_Int key) v es) si (AList.update key (iiv_new pos v) ii) 0"
proof -
  note keys = hash_wfD(1) [OF wf] and ii = hash_wfD(3) [OF wf refl]
  have "map_option iiv_position (map_of ii key) = found"
    using ii by (simp add: int_index_ok_def linear_find found_def)
  then show "(case map_of ii key of
            Some w \<Rightarrow> (set_entry_value es (iiv_position w) v,
                       AList.update key (iiv_new (iiv_position w) v) ii, 0, nxt)
          | None \<Rightarrow> (es @ [(Key_Int key, v)], AList.update key (iiv_new (length es) v) ii, 0,
                      bump_next key nxt)) =
         (upsert (Key_Int key) v es, AList.update key (iiv_new pos v) ii, 0,
          if found = None then bump_next key nxt else nxt)"
    by (cases "map_of ii key") (auto simp: pos_def found_def upsert_absent set_entry_value_upsert)
  show "hash_wf (upsert (Key_Int key) v es) si (AList.update key (iiv_new pos v) ii) 0"
    using keys_ok_upsert [OF keys room, of "Key_Int key" v] key hash_wfD(2) [OF wf]
      int_index_insert(1) [OF keys ii keys_okD(3) [OF keys]]
    by (simp add: hash_wf_def str_index_ok_upsert_int pos_def found_def)
qed

lemma set_indexed_int_spec:
  assumes wf: "hash_wf es si ii p" and room: "Suc (length es) < 2 ^ 56" and key: "in_i64 key"
    and safe: "stride_safe es ii p key"
  shows "\<exists>ii' p'. set_indexed_int es ii p nxt key v =
           (upsert (Key_Int key) v es, ii', p',
            if find_key (Key_Int key) es = None then bump_next key nxt else nxt) \<and>
         hash_wf (upsert (Key_Int key) v es) si ii' p' \<and>
         (cache_ok es ii \<longrightarrow> cache_ok (upsert (Key_Int key) v es) ii')"
proof (cases "verified_int_position es p key")
  case (Some pos)
  then have p: "p \<noteq> 0" by (cases "p = 0") (auto simp: verified_int_position_def)
  with Some verified_int_position_ok [OF wf p] have f: "find_key (Key_Int key) es = Some pos"
    by (simp add: linear_find)
  with hash_wf_overwrite [OF wf upsert_overwrite_keys [OF f]] hash_wfD(4) [OF wf p] show ?thesis
    by (simp add: set_indexed_int_def Some set_entry_value_upsert cache_ok_def)
next
  case None
  note keys = hash_wfD(1) [OF wf]
  show ?thesis
  proof (cases "extends_verified_prefix es ii p key")
    case True
    then have ii: "ii = []" and p: "p = length es" by (auto simp: extends_verified_prefix_def)
    have f: "find_key (Key_Int key) es = None"
      using None verified_int_position_ok [OF wf] p
      by (cases "p = 0") (auto simp: linear_find find_key_def)
    have "int_prefix es p" using hash_wfD(5) [OF wf] by (cases "p = 0") (auto simp: int_prefix_def)
    from int_prefix_extend [OF this True safe]
      keys_ok_upsert [OF keys room, of "Key_Int key" v] key hash_wfD(2) [OF wf]
    show ?thesis
      using True None str_index_ok_upsert_int [of es si key v]
      by (simp add: set_indexed_int_def hash_wf_def f upsert_absent ii p cache_ok_def)
  next
    case False
    obtain ii0 where ii0: "ii0 = (if p \<noteq> 0 then materialize_int_index es else ii)" by blast
    have wf0: "hash_wf es si ii0 0"
      using wf materialize_ok(1) [OF keys] by (auto simp: hash_wf_def ii0 split: if_splits)
    have cache0: "cache_ok es ii0" if "cache_ok es ii"
      using that materialize_ok(2) [OF keys] by (simp add: ii0)
    have "set_indexed_int es ii p nxt key v =
        (case map_of ii0 key of
            Some w \<Rightarrow> (set_entry_value es (iiv_position w) v,
                       AList.update key (iiv_new (iiv_position w) v) ii0, 0, nxt)
          | None \<Rightarrow> (es @ [(Key_Int key, v)], AList.update key (iiv_new (length es) v) ii0, 0,
                      bump_next key nxt))"
      using None False by (auto simp: set_indexed_int_def ii0 split: option.splits)
    also note set_indexed_int_materialized(1) [OF wf0 room key, of v nxt]
    finally have eq: "set_indexed_int es ii p nxt key v = (upsert (Key_Int key) v es,
        AList.update key (iiv_new (case find_key (Key_Int key) es of Some i \<Rightarrow> i
          | None \<Rightarrow> length es) v) ii0, 0,
        if find_key (Key_Int key) es = None then bump_next key nxt else nxt)" .
    show ?thesis
      unfolding eq using set_indexed_int_materialized(2) [OF wf0 room key, of v]
        int_index_insert(2) [OF keys hash_wfD(3) [OF wf0 refl] keys_okD(3) [OF keys] refl cache0]
      by blast
  qed
qed

subsection \<open>The inline table holds a list of at most three entries\<close>

definition small_slots :: "'v entries \<Rightarrow> 'v slots" where
  "small_slots es = map Some es @ replicate (SMALL_HASH_CAPACITY - length es) None"

definition small_wf :: "'v slots \<Rightarrow> bool" where
  "small_wf slots \<longleftrightarrow> (\<exists>es. length es \<le> 3 \<and> slots = small_slots es)"

lemma small_slots_cases:
  assumes "length es \<le> 3"
  obtains "es = []" | a where "es = [a]" | a b where "es = [a, b]" | a b c where "es = [a, b, c]"
proof -
  consider "length es = 0" | "length es = 1" | "length es = 2" | "length es = 3"
    using assms by linarith
  then show thesis
    by cases (use that in \<open>auto simp: length_Suc_conv eval_nat_numeral\<close>)
qed

lemmas small_defs = small_slots_def small_len_def SMALL_HASH_CAPACITY_def eval_nat_numeral

lemma small_entries_slots [simp]: "small_entries (small_slots es) = es"
proof -
  have "List.map_filter id (map Some es) = es" for es :: "'a entries"
    by (induction es) (auto simp: List.map_filter_simps)
  moreover have "List.map_filter id (replicate n None) = ([] :: 'a entries)" for n
    by (induction n) (auto simp: List.map_filter_simps)
  ultimately show ?thesis
    by (simp add: small_entries_def small_slots_def List.map_filter_def)
qed

lemma small_new_slots: "small_new = small_slots []"
  by (simp add: small_new_def small_slots_def)

lemma small_len_slots [simp]: "length es \<le> 3 \<Longrightarrow> small_len (small_slots es) = length es"
  by (erule small_slots_cases) (simp_all add: small_defs)

lemma take_small_slots: "length es \<le> 3 \<Longrightarrow> take (length es) (small_slots es) = map Some es"
  by (simp add: small_slots_def)

lemma small_get_slots [simp]: "length es \<le> 3 \<Longrightarrow> small_get (small_slots es) = vec_get es"
  by (rule ext) (auto simp: small_get_def vec_get_def small_slots_def nth_append)

lemma position_map_Some:
  "position (\<lambda>e. map_option fst e = Some k) (map Some es) = position (\<lambda>e. fst e = k) es"
  by (induction es) auto

lemma small_find_slots [simp]:
  "length es \<le> 3 \<Longrightarrow> small_find_int (small_slots es) n = linear_find_int es n"
  "length es \<le> 3 \<Longrightarrow> small_find_str (small_slots es) s = linear_find_str es s"
  by (simp_all only: small_find_int_def small_find_str_def take_small_slots small_len_slots
      linear_find_int_def linear_find_str_def position_map_Some)

lemma small_push_slots [simp]:
  "length es \<le> 3 \<Longrightarrow> small_push k v (small_slots es) =
     (if length es = 3 then (small_slots es, False) else (small_slots (es @ [(k, v)]), True))"
  by (erule small_slots_cases) (simp_all add: small_push_def small_defs)

lemma small_set_value_slots [simp]:
  "length es \<le> 3 \<Longrightarrow> i < length es \<Longrightarrow>
     small_set_value (small_slots es) i v = small_slots (set_entry_value es i v)"
  by (cases "es ! i")
     (auto simp: small_set_value_def small_slots_def nth_append set_entry_value_def map_update
        list_update_append)

lemma small_remove_at_slots [simp]:
  "length es \<le> 3 \<Longrightarrow> small_remove_at i (small_slots es) =
     (if i < length es then (small_slots (vec_remove i es), Some (es ! i)) else (small_slots es, None))"
  by (erule small_slots_cases)
     (auto simp: small_remove_at_def small_defs shift_slot_def vec_remove_def upt_rec less_Suc_eq)

lemma small_wfE:
  assumes "small_wf slots"
  obtains es where "length es \<le> 3" "slots = small_slots es"
  using assms by (auto simp: small_wf_def)

lemma small_wf_slots [simp]: "length es \<le> 3 \<Longrightarrow> small_wf (small_slots es)"
  by (auto simp: small_wf_def)

subsection \<open>The linear table\<close>

definition linear_wf :: "'v linear_hash \<Rightarrow> bool" where
  "linear_wf l \<longleftrightarrow> keys_ok (lin_entries l) \<and> length (lin_entries l) \<le> LINEAR_HASH_CAPACITY \<and>
     (case lin_index l of None \<Rightarrow> True | Some si \<Rightarrow> str_index_ok (lin_entries l) si)"

lemma linear_find_str_for_update_ok:
  "linear_wf l \<Longrightarrow> linear_find_str_for_update l key = linear_find_str (lin_entries l) key"
  by (auto simp: linear_wf_def linear_find_str_for_update_def str_index_ok_def split: option.splits)

lemma linear_find_str_read_ok:
  assumes "linear_wf l" and "linear_find_str_read l key = (l', pos)"
  shows "pos = linear_find_str (lin_entries l) key" "lin_entries l' = lin_entries l" "linear_wf l'"
  using assms
  by (auto simp: linear_wf_def linear_find_str_read_def str_index_ok_def Let_def
      str_index_ok_rebuild [unfolded str_index_ok_def] split: option.splits if_splits)

text \<open>The lazily built index never changes an answer: reads only count until the fourth.\<close>

lemma linear_find_str_read_threshold:
  assumes "lin_index l = None" and "linear_find_str_read l key = (l', pos)"
  shows "lin_index l' = (if 3 \<le> lin_lookups l
           then Some (index_strings 0 (lin_entries l) []) else None)"
  using assms by (auto simp: linear_find_str_read_def Let_def LINEAR_HASH_INDEX_THRESHOLD_def
      split: if_splits)

lemma linear_wf_overwrite:
  assumes "linear_wf l" "map fst es = map fst (lin_entries l)"
  shows "linear_wf (linear_with_entries l es)"
proof -
  have "find_key k es = find_key k (lin_entries l)" for k by (rule find_key_cong [OF assms(2)])
  moreover have "length es = length (lin_entries l)" "fst ` set es = fst ` set (lin_entries l)"
    using assms(2) by (metis length_map, metis image_set)
  ultimately show ?thesis
    using assms by (auto simp: linear_wf_def linear_with_entries_def keys_ok_def str_index_ok_def
        linear_find split: option.splits)
qed

end
