(* ===== verification/Php_Array.thy ===== *)
theory Php_Array
  imports Array_Storage "HOL-Library.Char_ord"
begin

text \<open>
  The operations of \<open>PhpArray\<close> (\<open>src/src/value/mod.rs\<close>, \<open>impl PhpArray\<close>), in the order of
  the source: the metadata word, the constructors, the promotions between storage tiers, the
  writes, the reads, removal and the internal array pointer. Each takes the array and returns
  it updated; a read that may build the lazy string index returns the array too.

  \<open>allocation\<close> is the number of bytes the array has charged; the model is that of a request
  without a finite memory limit, where charging never unwinds. Capacity hints of the Rust
  collections have no other effect and are left out. \<open>self_addr\<close> is the address of the array,
  the identity under which the foreach registry knows it.
\<close>

subsection \<open>The metadata word\<close>

definition ARRAY_CURSOR_PRISTINE :: "64 word" where
  "ARRAY_CURSOR_PRISTINE = push_bit 63 1"
definition ARRAY_INT_KEY_INITIALIZED :: "64 word" where
  "ARRAY_INT_KEY_INITIALIZED = push_bit 62 1"
definition ARRAY_EXTERNAL_BYTE_KEYS :: "64 word" where
  "ARRAY_EXTERNAL_BYTE_KEYS = push_bit 61 1"
definition ARRAY_UTF8_TEXT_KEYS :: "64 word" where
  "ARRAY_UTF8_TEXT_KEYS = push_bit 60 1"
definition ARRAY_DEFERRED_OBJECT_HANDLES_PUBLISHED :: "64 word" where
  "ARRAY_DEFERRED_OBJECT_HANDLES_PUBLISHED = push_bit 59 1"
definition ARRAY_NESTED_RELEASE_CANDIDATE :: "64 word" where
  "ARRAY_NESTED_RELEASE_CANDIDATE = push_bit 58 1"
definition ARRAY_DEEP_DROP_STACK_CHECKPOINT :: "64 word" where
  "ARRAY_DEEP_DROP_STACK_CHECKPOINT = push_bit 57 1"
definition ARRAY_REFERENCE_FOREACH :: "64 word" where
  "ARRAY_REFERENCE_FOREACH = push_bit 56 1"
definition ARRAY_CURSOR_METADATA :: "64 word" where
  "ARRAY_CURSOR_METADATA = ARRAY_CURSOR_PRISTINE OR ARRAY_INT_KEY_INITIALIZED
     OR ARRAY_EXTERNAL_BYTE_KEYS OR ARRAY_UTF8_TEXT_KEYS
     OR ARRAY_DEFERRED_OBJECT_HANDLES_PUBLISHED OR ARRAY_NESTED_RELEASE_CANDIDATE
     OR ARRAY_DEEP_DROP_STACK_CHECKPOINT OR ARRAY_REFERENCE_FOREACH"

definition has_flag :: "64 word \<Rightarrow> 'v php_array \<Rightarrow> bool" where
  "has_flag f a \<longleftrightarrow> cursor a AND f \<noteq> 0"

definition mark_flag :: "64 word \<Rightarrow> 'v php_array \<Rightarrow> 'v php_array" where
  "mark_flag f a = set_cursor (cursor a OR f) a"

definition pointer_position :: "'v php_array \<Rightarrow> nat" where
  "pointer_position a = unat (cursor a AND NOT ARRAY_CURSOR_METADATA)"

definition set_pointer :: "nat \<Rightarrow> 'v php_array \<Rightarrow> 'v php_array" where
  "set_pointer pos a = set_cursor ((cursor a AND ARRAY_CURSOR_METADATA) OR of_nat pos) a"

subsection \<open>Storage accounting\<close>

text \<open>Sizes on the 64-bit targets: \<open>Value\<close> is asserted to be 16 bytes, an entry key is 16
  bytes, so an entry is 32 and each index pair 16; the array itself is 136 bytes.\<close>

definition sizeof_php_array :: nat where "sizeof_php_array = 136"

definition storage_bytes :: "nat \<Rightarrow> bool \<Rightarrow> nat" where
  "storage_bytes capacity hash =
     (let entry_size = (if hash then 32 + 2 * 16 + 2 * 16 else 16)
      in saturating_add_usize (sizeof_php_array + 16) (saturating_mul_usize capacity entry_size))"

fun pow2_above :: "nat \<Rightarrow> nat \<Rightarrow> nat \<Rightarrow> nat option" where
  "pow2_above 0 p n = (if n \<le> p then Some p else None)"
| "pow2_above (Suc k) p n = (if n \<le> p then Some p else pow2_above k (2 * p) n)"

definition checked_next_power_of_two :: "nat \<Rightarrow> nat option" where
  "checked_next_power_of_two n = pow2_above 63 1 n"

definition grow_to :: "nat \<Rightarrow> 'v php_array \<Rightarrow> 'v php_array" where
  "grow_to bytes a = (if allocation a < bytes then set_allocation bytes a else a)"

definition reserve_accounted_entries :: "nat \<Rightarrow> bool \<Rightarrow> 'v php_array \<Rightarrow> 'v php_array" where
  "reserve_accounted_entries len hash a =
     (let capacity = (case checked_next_power_of_two (max len 4) of
                        Some c \<Rightarrow> c | None \<Rightarrow> usize_MAX)
      in grow_to (storage_bytes capacity hash) a)"

subsection \<open>Iteration\<close>

definition packed_entries :: "'v list \<Rightarrow> 'v entries" where
  "packed_entries values = map (\<lambda>(i, v). (Key_Int (int i), v)) (List.enumerate 0 values)"

fun storage_entries :: "'v array_storage \<Rightarrow> 'v entries" where
  "storage_entries (Packed values) = packed_entries values"
| "storage_entries (SmallHash slots) = map the (take (small_len slots) slots)"
| "storage_entries (LinearHash l) = lin_entries l"
| "storage_entries (Hash es si ii p) = es"

definition iter :: "'v php_array \<Rightarrow> 'v entries" where
  "iter a = storage_entries (storage a)"

definition array_len :: "'v php_array \<Rightarrow> nat" where
  "array_len a =
     (case storage a of
        Packed values \<Rightarrow> length values
      | SmallHash slots \<Rightarrow> small_len slots
      | LinearHash l \<Rightarrow> length (lin_entries l)
      | Hash es si ii p \<Rightarrow> length es)"

definition array_is_empty :: "'v php_array \<Rightarrow> bool" where
  "array_is_empty a =
     (case storage a of
        Packed values \<Rightarrow> values = []
      | SmallHash slots \<Rightarrow> small_len slots = 0
      | LinearHash l \<Rightarrow> lin_entries l = []
      | Hash es si ii p \<Rightarrow> es = [])"

definition is_pristine_empty :: "'v php_array \<Rightarrow> bool" where
  "is_pristine_empty a \<longleftrightarrow> has_flag ARRAY_CURSOR_PRISTINE a \<and> array_is_empty a"

definition mark_mutated :: "'v php_array \<Rightarrow> 'v php_array" where
  "mark_mutated a = set_cursor (cursor a AND NOT ARRAY_CURSOR_PRISTINE) a"

subsection \<open>Construction\<close>

definition array_new :: "'v php_array" where
  "array_new = PhpArray (sizeof_php_array + 16) (Packed []) 0 ARRAY_CURSOR_PRISTINE"

definition with_packed_capacity :: "nat \<Rightarrow> 'v php_array" where
  "with_packed_capacity capacity =
     PhpArray (storage_bytes capacity False) (Packed []) 0 ARRAY_CURSOR_PRISTINE"

definition with_hash_capacity :: "nat \<Rightarrow> 'v php_array" where
  "with_hash_capacity capacity =
     (if capacity \<le> SMALL_HASH_CAPACITY
      then PhpArray (storage_bytes capacity True) (SmallHash small_new) 0 ARRAY_CURSOR_PRISTINE
      else PhpArray (storage_bytes capacity True) (Hash [] [] [] 0) 0 ARRAY_CURSOR_PRISTINE)"

definition with_deferred_hash_capacity :: "nat \<Rightarrow> 'v php_array" where
  "with_deferred_hash_capacity capacity =
     (if capacity \<le> SMALL_HASH_CAPACITY
      then PhpArray (storage_bytes capacity True) (SmallHash small_new) 0 ARRAY_CURSOR_PRISTINE
      else if capacity \<le> LINEAR_HASH_CAPACITY
      then PhpArray (storage_bytes capacity True) (LinearHash (Linear [] 0 None)) 0
             ARRAY_CURSOR_PRISTINE
      else with_hash_capacity capacity)"

subsection \<open>Nested-release tracking\<close>

definition may_require_nested_release :: "'v php_array \<Rightarrow> bool" where
  "may_require_nested_release a = has_flag ARRAY_NESTED_RELEASE_CANDIDATE a"

fun value_may_require_nested_release :: "php_value \<Rightarrow> bool" where
  "value_may_require_nested_release (VArray inner) = may_require_nested_release inner"
| "value_may_require_nested_release (VObject _) = True"
| "value_may_require_nested_release (VReference _ _) = True"
| "value_may_require_nested_release (VClosure _) = True"
| "value_may_require_nested_release (VResource _ counted) = counted"
| "value_may_require_nested_release _ = False"

definition track_nested_release_value :: "php_value \<Rightarrow> parray \<Rightarrow> parray" where
  "track_nested_release_value v a =
     (if \<not> has_flag ARRAY_NESTED_RELEASE_CANDIDATE a \<and> value_may_require_nested_release v
      then mark_flag ARRAY_NESTED_RELEASE_CANDIDATE a else a)"

definition packed_from_values :: "php_value list \<Rightarrow> parray" where
  "packed_from_values values =
     (let base = PhpArray (storage_bytes (length values) False) (Packed []) (int (length values))
                   (if values = [] then ARRAY_CURSOR_PRISTINE else ARRAY_INT_KEY_INITIALIZED)
      in set_storage (Packed values) (fold track_nested_release_value values base))"

subsection \<open>Transitions between storage tiers\<close>

definition transition_to_hash :: "'v php_array \<Rightarrow> 'v php_array" where
  "transition_to_hash a =
     (case storage a of
        Packed values \<Rightarrow>
          if length values \<le> SMALL_HASH_CAPACITY then
            set_storage (SmallHash
              (fold (\<lambda>(index, v) slots. fst (small_push (Key_Int (int index)) v slots))
                 (List.enumerate 0 values) small_new)) a
          else set_storage (Hash (packed_entries values) [] [] (length values)) a
      | _ \<Rightarrow> a)"

definition promote_small_hash :: "parray \<Rightarrow> parray" where
  "promote_small_hash a =
     (case storage a of
        SmallHash slots \<Rightarrow>
          (let es = small_entries slots;
               si = index_strings 0 es [];
               (ii, verified) = rebuild_int_index es
           in set_storage (Hash es si ii verified) a)
      | _ \<Rightarrow> a)"

definition promote_small_hash_to_linear :: "'v php_array \<Rightarrow> 'v php_array" where
  "promote_small_hash_to_linear a =
     (case storage a of
        SmallHash slots \<Rightarrow> set_storage (LinearHash (linear_from_entries (small_entries slots))) a
      | _ \<Rightarrow> a)"

definition promote_linear_hash :: "parray \<Rightarrow> parray" where
  "promote_linear_hash a =
     (case storage a of
        LinearHash l \<Rightarrow>
          (let es = lin_entries l;
               si = complete_str_index 0 es (case lin_index l of Some si \<Rightarrow> si | None \<Rightarrow> []);
               (ii, verified) = rebuild_int_index es
           in set_storage (Hash es si ii verified) a)
      | _ \<Rightarrow> a)"

subsection \<open>Reading by key\<close>

definition hash_entry_at :: "'v php_array \<Rightarrow> nat \<Rightarrow> (array_key \<times> 'v) option" where
  "hash_entry_at a pos =
     (case storage a of
        Hash es si ii p \<Rightarrow> vec_get es pos
      | LinearHash l \<Rightarrow> vec_get (lin_entries l) pos
      | SmallHash slots \<Rightarrow> small_get slots pos
      | Packed _ \<Rightarrow> None)"

definition hash_len :: "'v php_array \<Rightarrow> nat option" where
  "hash_len a =
     (case storage a of
        Hash es si ii p \<Rightarrow> Some (length es)
      | LinearHash l \<Rightarrow> Some (length (lin_entries l))
      | SmallHash slots \<Rightarrow> Some (small_len slots)
      | Packed _ \<Rightarrow> None)"

text \<open>The positional probe of \<open>get_int\<close> on indexed storage: the entry where a contiguous run
  from the first key would hold \<open>key\<close>, used only if it does.\<close>

definition positional_probe :: "'v entries \<Rightarrow> int \<Rightarrow> 'v option" where
  "positional_probe es key =
     (let candidate = (case entry_int (vec_get es 0) of
                         Some first \<Rightarrow> Option.bind (checked_sub key first) usize_try_from
                       | None \<Rightarrow> usize_try_from key)
      in Option.bind candidate (\<lambda>pos.
           if entry_int (vec_get es pos) = Some key then Some (snd (es ! pos)) else None))"

definition get_int :: "'v php_array \<Rightarrow> int \<Rightarrow> 'v option" where
  "get_int a key =
     (case storage a of
        Packed values \<Rightarrow> if 0 \<le> key then vec_get values (nat key) else None
      | SmallHash slots \<Rightarrow>
          map_option snd (Option.bind (small_find_int slots key) (small_get slots))
      | LinearHash l \<Rightarrow>
          map_option snd (Option.bind (linear_find_int (lin_entries l) key) (vec_get (lin_entries l)))
      | Hash es si ii p \<Rightarrow>
          (case positional_probe es key of
             Some v \<Rightarrow> Some v
           | None \<Rightarrow> map_option (\<lambda>pos. snd (es ! pos)) (indexed_int_position es ii p key)))"

definition get_str :: "'v php_array \<Rightarrow> byte_string \<Rightarrow> 'v php_array \<times> 'v option" where
  "get_str a key =
     (case storage a of
        Hash es si ii p \<Rightarrow> (a, map_option (\<lambda>idx. snd (es ! idx)) (map_of si key))
      | LinearHash l \<Rightarrow>
          (let (l', pos) = linear_find_str_read l key
           in (set_storage (LinearHash l') a,
               map_option snd (Option.bind pos (vec_get (lin_entries l')))))
      | Packed _ \<Rightarrow> (a, None)
      | SmallHash slots \<Rightarrow>
          (a, map_option snd (Option.bind (small_find_str slots key) (small_get slots))))"

definition can_push :: "'v php_array \<Rightarrow> bool" where
  "can_push a \<longleftrightarrow> next_int_key a \<noteq> i64_MAX \<or> get_int a i64_MAX = None"

subsection \<open>Appending\<close>

text \<open>The last step of an append to explicit-key storage, after the promotion.\<close>

definition push_explicit :: "int \<Rightarrow> php_value \<Rightarrow> parray \<Rightarrow> parray" where
  "push_explicit key v a =
     (case storage a of
        Packed _ \<Rightarrow> a
      | SmallHash slots \<Rightarrow> set_storage (SmallHash (fst (small_push (Key_Int key) v slots))) a
      | LinearHash l \<Rightarrow>
          set_storage (LinearHash (linear_with_entries (linear_invalidate_index l)
            (lin_entries l @ [(Key_Int key, v)]))) a
      | Hash es si ii p \<Rightarrow>
          (let (es', ii', p', nxt) = set_indexed_int es ii p (next_int_key a) key v
           in set_next nxt (set_storage (Hash es' si ii' p') a)))"

text \<open>The prologue of \<open>try_push\<close>: accounting, release tracking and the advanced next key.\<close>

definition prepare_push :: "php_value \<Rightarrow> parray \<Rightarrow> parray" where
  "prepare_push v a =
     (let a = reserve_accounted_entries (saturating_add_usize (array_len a) 1)
                (case storage a of Packed _ \<Rightarrow> False | _ \<Rightarrow> True) a;
          a = track_nested_release_value v a;
          a' = (if next_int_key a = 0 \<and> \<not> has_flag ARRAY_INT_KEY_INITIALIZED a
                then mark_flag ARRAY_INT_KEY_INITIALIZED a else a)
      in set_next (saturating_add_i64 (next_int_key a) 1) a')"

definition push_prepared :: "int \<Rightarrow> php_value \<Rightarrow> parray \<Rightarrow> parray" where
  "push_prepared key v a =
     (case storage a of
        Packed values \<Rightarrow> set_storage (Packed (values @ [v])) a
      | SmallHash slots \<Rightarrow>
          push_explicit key v
            (if small_len slots = SMALL_HASH_CAPACITY then promote_small_hash a else a)
      | LinearHash l \<Rightarrow>
          push_explicit key v
            (if length (lin_entries l) = LINEAR_HASH_CAPACITY then promote_linear_hash a else a)
      | Hash _ _ _ _ \<Rightarrow> push_explicit key v a)"

definition try_push :: "php_value \<Rightarrow> parray \<Rightarrow> parray \<times> bool" where
  "try_push v a =
     (if \<not> can_push a then (a, False)
      else (push_prepared (next_int_key a) v (prepare_push v a), True))"

definition push :: "php_value \<Rightarrow> parray \<Rightarrow> parray" where
  "push v a = fst (try_push v a)"

definition push_packed_long_chunk :: "int list \<Rightarrow> parray \<Rightarrow> parray \<times> bool" where
  "push_packed_long_chunk longs a =
     (case storage a of
        Packed values \<Rightarrow>
          if i64_try_from (length values) \<noteq> Some (next_int_key a) then (a, False)
          else
            (case Option.bind (i64_try_from (length longs)) (checked_add (next_int_key a)) of
               None \<Rightarrow> (a, False)
             | Some nxt \<Rightarrow>
                 (let capacity =
                        (case checked_next_power_of_two
                                (max (saturating_add_usize (length values) (length longs)) 4) of
                           Some c \<Rightarrow> c | None \<Rightarrow> usize_MAX);
                      a = grow_to (storage_bytes capacity False) a
                  in (set_next nxt (set_storage (Packed (values @ map VLong longs)) a), True)))
      | _ \<Rightarrow> (a, False))"

subsection \<open>Writing by key\<close>

text \<open>\<open>set_int\<close> on indexed storage.\<close>

definition set_int_indexed :: "int \<Rightarrow> php_value \<Rightarrow> parray \<Rightarrow> parray" where
  "set_int_indexed key v a =
     (case storage a of
        Hash es si ii p \<Rightarrow>
          (let (es', ii', p', nxt) = set_indexed_int es ii p (next_int_key a) key v
           in set_next nxt (set_storage (Hash es' si ii' p') a))
      | _ \<Rightarrow> a)"

text \<open>\<open>set_int\<close> on the linear table and, when that is full, after the promotion.\<close>

definition set_int_linear :: "int \<Rightarrow> php_value \<Rightarrow> parray \<Rightarrow> parray" where
  "set_int_linear key v a =
     (case storage a of
        LinearHash l \<Rightarrow>
          (case linear_find_int (lin_entries l) key of
             Some index \<Rightarrow>
               set_storage (LinearHash
                 (linear_with_entries l (set_entry_value (lin_entries l) index v))) a
           | None \<Rightarrow>
               if length (lin_entries l) < LINEAR_HASH_CAPACITY then
                 set_next (bump_next key (next_int_key a))
                   (set_storage (LinearHash (linear_with_entries (linear_invalidate_index l)
                     (lin_entries l @ [(Key_Int key, v)]))) a)
               else set_int_indexed key v (promote_linear_hash a))
      | _ \<Rightarrow> set_int_indexed key v (promote_linear_hash a))"

text \<open>\<open>set_int\<close> on the inline table and, when that is full, after the promotion.\<close>

definition set_int_small :: "int \<Rightarrow> php_value \<Rightarrow> parray \<Rightarrow> parray" where
  "set_int_small key v a =
     (case storage a of
        SmallHash slots \<Rightarrow>
          (case small_find_int slots key of
             Some index \<Rightarrow> set_storage (SmallHash (small_set_value slots index v)) a
           | None \<Rightarrow>
               if small_len slots < SMALL_HASH_CAPACITY then
                 set_next (bump_next key (next_int_key a))
                   (set_storage (SmallHash (fst (small_push (Key_Int key) v slots))) a)
               else set_int_linear key v (promote_small_hash a))
      | _ \<Rightarrow> set_int_linear key v (promote_small_hash a))"

text \<open>The prologue of \<open>set_int\<close>: accounting, release tracking and the first integer key.\<close>

definition prepare_set_int :: "int \<Rightarrow> php_value \<Rightarrow> parray \<Rightarrow> parray" where
  "prepare_set_int key v a =
     (let a = (if get_int a key = None
               then reserve_accounted_entries (saturating_add_usize (array_len a) 1)
                      (case storage a of Packed _ \<Rightarrow> key \<noteq> next_int_key a | _ \<Rightarrow> True) a
               else a);
          a = track_nested_release_value v a
      in if next_int_key a = 0 \<and> \<not> has_flag ARRAY_INT_KEY_INITIALIZED a
         then (let a = mark_flag ARRAY_INT_KEY_INITIALIZED a
               in if key < 0 then set_next (saturating_add_i64 key 1) a else a)
         else a)"

definition set_int :: "int \<Rightarrow> php_value \<Rightarrow> parray \<Rightarrow> parray" where
  "set_int key v a0 =
     (let a = prepare_set_int key v a0
      in case storage a of
           Hash _ _ _ _ \<Rightarrow> set_int_indexed key v a
         | Packed values \<Rightarrow>
             if key = next_int_key a then
               set_storage (Packed (values @ [v])) (set_next (saturating_add_i64 key 1) a)
             else if 0 \<le> key \<and> nat key < length values then
               set_storage (Packed (values[nat key := v])) a
             else set_int_small key v (transition_to_hash a)
         | _ \<Rightarrow> set_int_small key v a)"

definition set_streamed_int :: "int \<Rightarrow> php_value \<Rightarrow> parray \<Rightarrow> parray" where
  "set_streamed_int key v a =
     (let a = (case storage a of
                 SmallHash slots \<Rightarrow>
                   if small_len slots = SMALL_HASH_CAPACITY \<and> small_find_int slots key = None
                   then promote_small_hash_to_linear a else a
               | _ \<Rightarrow> a);
          a = (case storage a of
                 LinearHash l \<Rightarrow>
                   if length (lin_entries l) = LINEAR_HASH_CAPACITY \<and>
                      linear_find_int (lin_entries l) key = None
                   then promote_linear_hash a else a
               | _ \<Rightarrow> a)
      in set_int key v a)"

definition set_str_indexed :: "byte_string \<Rightarrow> php_value \<Rightarrow> parray \<Rightarrow> parray" where
  "set_str_indexed key v a =
     (case storage a of
        Hash es si ii p \<Rightarrow>
          (case map_of si key of
             Some idx \<Rightarrow> set_storage (Hash (set_entry_value es idx v) si ii p) a
           | None \<Rightarrow>
               set_storage (Hash (es @ [(Key_String key, v)])
                 (AList.update key (length es) si) ii p) a)
      | _ \<Rightarrow> a)"

definition set_str_linear :: "byte_string \<Rightarrow> php_value \<Rightarrow> parray \<Rightarrow> parray" where
  "set_str_linear key v a =
     (case storage a of
        LinearHash l \<Rightarrow>
          (case linear_find_str_for_update l key of
             Some index \<Rightarrow>
               set_storage (LinearHash
                 (linear_with_entries l (set_entry_value (lin_entries l) index v))) a
           | None \<Rightarrow>
               if length (lin_entries l) < LINEAR_HASH_CAPACITY then
                 set_storage (LinearHash (linear_with_entries (linear_invalidate_index l)
                   (lin_entries l @ [(Key_String key, v)]))) a
               else set_str_indexed key v (promote_linear_hash a))
      | _ \<Rightarrow> set_str_indexed key v (promote_linear_hash a))"

definition set_str_small :: "byte_string \<Rightarrow> php_value \<Rightarrow> parray \<Rightarrow> parray" where
  "set_str_small key v a =
     (case storage a of
        SmallHash slots \<Rightarrow>
          (case small_find_str slots key of
             Some index \<Rightarrow> set_storage (SmallHash (small_set_value slots index v)) a
           | None \<Rightarrow>
               if small_len slots < SMALL_HASH_CAPACITY then
                 set_storage (SmallHash (fst (small_push (Key_String key) v slots))) a
               else set_str_linear key v (promote_small_hash a))
      | _ \<Rightarrow> set_str_linear key v (promote_small_hash a))"

definition set_str :: "byte_string \<Rightarrow> php_value \<Rightarrow> parray \<Rightarrow> parray" where
  "set_str key v a =
     (let (a, found) = get_str a key;
          a = (if found = None
               then reserve_accounted_entries (saturating_add_usize (array_len a) 1) True a else a);
          a = track_nested_release_value v a;
          a = (case storage a of Packed _ \<Rightarrow> transition_to_hash a | _ \<Rightarrow> a)
      in set_str_small key v a)"

text \<open>The owned-key variant runs the same steps and moves the key instead of copying it.\<close>

definition set_owned_str :: "byte_string \<Rightarrow> php_value \<Rightarrow> parray \<Rightarrow> parray" where
  "set_owned_str key v a = set_str key v a"

definition set_streamed_owned_str :: "byte_string \<Rightarrow> php_value \<Rightarrow> parray \<Rightarrow> parray" where
  "set_streamed_owned_str key v a =
     (let a = (case storage a of
                 SmallHash slots \<Rightarrow>
                   if small_len slots = SMALL_HASH_CAPACITY \<and> small_find_str slots key = None
                   then promote_small_hash_to_linear a else a
               | _ \<Rightarrow> a);
          a = (case storage a of
                 LinearHash l \<Rightarrow>
                   if length (lin_entries l) = LINEAR_HASH_CAPACITY \<and>
                      linear_find_str_for_update l key = None
                   then promote_linear_hash a else a
               | _ \<Rightarrow> a)
      in set_owned_str key v a)"

definition array_set :: "array_key \<Rightarrow> php_value \<Rightarrow> parray \<Rightarrow> parray" where
  "array_set key v a =
     (case key of Key_Int k \<Rightarrow> set_int k v a | Key_String k \<Rightarrow> set_str k v a)"

definition array_get :: "parray \<Rightarrow> array_key \<Rightarrow> php_value option" where
  "array_get a key =
     (case key of Key_Int k \<Rightarrow> get_int a k | Key_String k \<Rightarrow> snd (get_str a k))"

subsection \<open>Positional and typed reads\<close>

definition prefers_positional_int_lookup :: "'v php_array \<Rightarrow> bool" where
  "prefers_positional_int_lookup a =
     (case hash_len a of
        None \<Rightarrow> False
      | Some len \<Rightarrow>
          if len = 1 then entry_int (hash_entry_at a 0) \<noteq> None
          else
            (case (entry_int (hash_entry_at a 0), entry_int (hash_entry_at a 1)) of
               (Some first, Some second) \<Rightarrow> checked_add first 1 = Some second
             | _ \<Rightarrow> False))"

text \<open>One window of \<open>integer_position_hint\<close>: at most eight entries from \<open>start\<close> on.\<close>

definition window_hint :: "'v php_array \<Rightarrow> nat \<Rightarrow> nat \<Rightarrow> (int \<times> int) option" where
  "window_hint a len start =
     (let stop = min (saturating_add_usize start 8) len
      in if stop - start < 2 then None
         else
           Option.bind (entry_int (hash_entry_at a start)) (\<lambda>first.
           Option.bind (entry_int (hash_entry_at a (start + 1))) (\<lambda>second.
           Option.bind (checked_sub second first) (\<lambda>stride.
             if stride = 0 then None
             else if \<exists>offset \<in> set [0..<stop - start].
                 (case Option.bind (checked_mul stride (int offset)) (checked_add first) of
                    None \<Rightarrow> True
                  | Some expected \<Rightarrow>
                      entry_int (hash_entry_at a (start + offset)) \<noteq> Some expected) then None
             else
               Option.bind (i64_try_from start) (\<lambda>start.
               Option.bind (Option.bind (checked_mul stride start) (checked_sub first))
                 (\<lambda>position_zero_key. Some (position_zero_key, stride)))))))"

definition integer_position_hint :: "'v php_array \<Rightarrow> (int \<times> int) option" where
  "integer_position_hint a =
     Option.bind (hash_len a) (\<lambda>len.
       case (if len = 1 then entry_int (hash_entry_at a 0) else None) of
         Some first \<Rightarrow> Some (first, 1)
       | None \<Rightarrow>
           (case window_hint a len 0 of
              Some hint \<Rightarrow> Some hint
            | None \<Rightarrow> if len - 8 \<noteq> 0 then window_hint a len (len - 8) else None))"

text \<open>The fallback shared by the indexed integer reads: no positional probe.\<close>

definition indexed_entry :: "'v php_array \<Rightarrow> int \<Rightarrow> (nat \<times> 'v) option" where
  "indexed_entry a key =
     (case storage a of
        SmallHash slots \<Rightarrow>
          Option.bind (small_find_int slots key)
            (\<lambda>pos. map_option (\<lambda>e. (pos, snd e)) (small_get slots pos))
      | LinearHash l \<Rightarrow>
          Option.bind (linear_find_int (lin_entries l) key)
            (\<lambda>pos. map_option (\<lambda>e. (pos, snd e)) (vec_get (lin_entries l) pos))
      | Hash es si ii p \<Rightarrow>
          map_option (\<lambda>w. (iiv_position w, snd (es ! iiv_position w))) (map_of ii key)
      | Packed _ \<Rightarrow> None)"

definition get_indexed_int :: "'v php_array \<Rightarrow> int \<Rightarrow> 'v option" where
  "get_indexed_int a key = map_option snd (indexed_entry a key)"

definition positioned_candidate :: "int \<Rightarrow> int \<Rightarrow> int \<Rightarrow> nat option" where
  "positioned_candidate key first_key stride =
     Option.bind (checked_sub key first_key) (\<lambda>offset.
       if stride = 1 then usize_try_from offset
       else if stride \<noteq> 0 \<and> checked_rem offset stride = Some 0
       then Option.bind (checked_div offset stride) usize_try_from
       else None)"

definition get_positioned_int :: "'v php_array \<Rightarrow> int \<Rightarrow> int \<Rightarrow> int \<Rightarrow> 'v option" where
  "get_positioned_int a key first_key stride =
     (case hash_len a of
        None \<Rightarrow> None
      | Some _ \<Rightarrow>
          (case Option.bind (positioned_candidate key first_key stride) (hash_entry_at a) of
             Some (k, v) \<Rightarrow> if k = Key_Int key then Some v else get_indexed_int a key
           | None \<Rightarrow> get_indexed_int a key))"

definition get_ordered_int_at :: "'v php_array \<Rightarrow> nat \<Rightarrow> int \<Rightarrow> 'v option" where
  "get_ordered_int_at a pos key =
     (case hash_entry_at a pos of
        Some (k, v) \<Rightarrow> if k = Key_Int key then Some v else None
      | None \<Rightarrow> None)"

definition get_indexed_long_with_position :: "parray \<Rightarrow> int \<Rightarrow> (nat \<times> int) option" where
  "get_indexed_long_with_position a key =
     (case storage a of
        Hash es si ii p \<Rightarrow>
          Option.bind (map_of ii key) (\<lambda>w.
            let pos = iiv_position w
            in map_option (\<lambda>n. (pos, n))
                 (case iiv_cached_long w of
                    Some n \<Rightarrow> Some n
                  | None \<Rightarrow> Option.bind (vec_get es pos) (\<lambda>e. as_long (snd e))))
      | _ \<Rightarrow>
          Option.bind (indexed_entry a key)
            (\<lambda>(pos, v). map_option (\<lambda>n. (pos, n)) (as_long v)))"

definition get_indexed_long :: "parray \<Rightarrow> int \<Rightarrow> int option" where
  "get_indexed_long a key =
     (case storage a of
        Hash es si ii p \<Rightarrow>
          Option.bind (map_of ii key) (\<lambda>w.
            case iiv_cached_long w of
              Some n \<Rightarrow> Some n
            | None \<Rightarrow> Option.bind (vec_get es (iiv_position w)) (\<lambda>e. as_long (snd e)))
      | _ \<Rightarrow> Option.bind (indexed_entry a key) (\<lambda>(pos, v). as_long v))"

definition get_positioned_str :: "'v php_array \<Rightarrow> byte_string \<Rightarrow> nat \<Rightarrow> 'v option" where
  "get_positioned_str a key pos =
     (case hash_entry_at a pos of
        Some (k, v) \<Rightarrow> if k = Key_String key then Some v else None
      | None \<Rightarrow> None)"

definition get_str_with_position ::
  "'v php_array \<Rightarrow> byte_string \<Rightarrow> 'v php_array \<times> (nat \<times> 'v) option" where
  "get_str_with_position a key =
     (case storage a of
        Hash es si ii p \<Rightarrow>
          (a, Option.bind (map_of si key) (\<lambda>pos. map_option (\<lambda>e. (pos, snd e)) (vec_get es pos)))
      | LinearHash l \<Rightarrow>
          (let (l', found) = linear_find_str_read l key
           in (set_storage (LinearHash l') a,
               Option.bind found (\<lambda>pos.
                 map_option (\<lambda>e. (pos, snd e)) (vec_get (lin_entries l') pos))))
      | SmallHash slots \<Rightarrow>
          (a, Option.bind (small_find_str slots key)
                (\<lambda>pos. map_option (\<lambda>e. (pos, snd e)) (small_get slots pos)))
      | Packed _ \<Rightarrow> (a, None))"

definition get_at :: "'v php_array \<Rightarrow> nat \<Rightarrow> ('v \<times> array_key) option" where
  "get_at a pos =
     (case storage a of
        Packed values \<Rightarrow> map_option (\<lambda>v. (v, Key_Int (int pos))) (vec_get values pos)
      | SmallHash slots \<Rightarrow> map_option (\<lambda>(k, v). (v, k)) (small_get slots pos)
      | LinearHash l \<Rightarrow> map_option (\<lambda>(k, v). (v, k)) (vec_get (lin_entries l) pos)
      | Hash es si ii p \<Rightarrow> map_option (\<lambda>(k, v). (v, k)) (vec_get es pos))"

definition get_value_at :: "'v php_array \<Rightarrow> nat \<Rightarrow> 'v option" where
  "get_value_at a pos =
     (case storage a of
        Packed values \<Rightarrow> vec_get values pos
      | SmallHash slots \<Rightarrow> map_option snd (small_get slots pos)
      | LinearHash l \<Rightarrow> map_option snd (vec_get (lin_entries l) pos)
      | Hash es si ii p \<Rightarrow> map_option snd (vec_get es pos))"

definition replace_value_at :: "nat \<Rightarrow> php_value \<Rightarrow> parray \<Rightarrow> parray \<times> php_value option" where
  "replace_value_at pos v a =
     (let a = track_nested_release_value v a
      in case get_value_at a pos of
           None \<Rightarrow> (a, None)
         | Some old \<Rightarrow>
             (set_storage
                (case storage a of
                   Packed values \<Rightarrow> Packed (values[pos := v])
                 | SmallHash slots \<Rightarrow> SmallHash (small_set_value slots pos v)
                 | LinearHash l \<Rightarrow>
                     LinearHash (linear_with_entries l (set_entry_value (lin_entries l) pos v))
                 | Hash es si ii p \<Rightarrow> Hash (set_entry_value es pos v) si ii p) a, Some old))"

definition set_value_at :: "nat \<Rightarrow> php_value \<Rightarrow> parray \<Rightarrow> parray \<times> bool" where
  "set_value_at pos v a = (let (a, old) = replace_value_at pos v a in (a, old \<noteq> None))"

text \<open>
  \<open>get_int_mut_untracked\<close> hands out the slot of an integer key; the model writes \<open>v\<close> through
  it. On indexed storage the cached long of the key is dropped first.
\<close>

definition write_int_slot :: "int \<Rightarrow> php_value \<Rightarrow> parray \<Rightarrow> parray \<times> bool" where
  "write_int_slot key v a =
     (case storage a of
        Packed values \<Rightarrow>
          if 0 \<le> key \<and> nat key < length values
          then (set_storage (Packed (values[nat key := v])) a, True) else (a, False)
      | SmallHash slots \<Rightarrow>
          (case small_find_int slots key of
             None \<Rightarrow> (a, False)
           | Some pos \<Rightarrow> (set_storage (SmallHash (small_set_value slots pos v)) a, True))
      | LinearHash l \<Rightarrow>
          (case linear_find_int (lin_entries l) key of
             None \<Rightarrow> (a, False)
           | Some pos \<Rightarrow>
               (set_storage (LinearHash (linear_with_entries l
                  (set_entry_value (lin_entries l) pos v))) a, True))
      | Hash es si ii p \<Rightarrow>
          (case indexed_int_position es ii p key of
             None \<Rightarrow> (a, False)
           | Some pos \<Rightarrow>
               (let ii' = (case map_of ii key of
                             None \<Rightarrow> ii | Some w \<Rightarrow> AList.update key (iiv_clear_cached_long w) ii)
                in (set_storage (Hash (set_entry_value es pos v) si ii' p) a, True))))"

definition get_int_mut :: "int \<Rightarrow> php_value \<Rightarrow> parray \<Rightarrow> parray \<times> bool" where
  "get_int_mut key v a = write_int_slot key v (mark_flag ARRAY_NESTED_RELEASE_CANDIDATE a)"

definition has_string_keys :: "'v php_array \<Rightarrow> bool" where
  "has_string_keys a =
     (case storage a of
        Packed _ \<Rightarrow> False
      | SmallHash slots \<Rightarrow>
          list_ex (\<lambda>e. case e of Some (Key_String _, _) \<Rightarrow> True | _ \<Rightarrow> False)
            (take (small_len slots) slots)
      | LinearHash l \<Rightarrow> list_ex (\<lambda>e. is_string_key (fst e)) (lin_entries l)
      | Hash es si ii p \<Rightarrow> si \<noteq> [])"

definition is_packed :: "'v php_array \<Rightarrow> bool" where
  "is_packed a = (case storage a of Packed _ \<Rightarrow> True | _ \<Rightarrow> False)"

definition list_keys :: "'v entries \<Rightarrow> bool" where
  "list_keys es = list_all (\<lambda>(index, e). fst e = Key_Int (int index)) (List.enumerate 0 es)"

definition is_list :: "'v php_array \<Rightarrow> bool" where
  "is_list a =
     (case storage a of
        Packed _ \<Rightarrow> True
      | SmallHash slots \<Rightarrow>
          list_all (\<lambda>(index, e). map_option fst e = Some (Key_Int (int index)))
            (List.enumerate 0 (take (small_len slots) slots))
      | LinearHash l \<Rightarrow> list_keys (lin_entries l)
      | Hash es si ii p \<Rightarrow> list_keys es)"

definition packed_values :: "'v php_array \<Rightarrow> 'v list option" where
  "packed_values a = (case storage a of Packed values \<Rightarrow> Some values | _ \<Rightarrow> None)"

definition array_entries :: "'v php_array \<Rightarrow> 'v php_array \<times> 'v entries" where
  "array_entries a = (let a = transition_to_hash a in (a, iter a))"

subsection \<open>The internal array pointer\<close>

definition cursor_rewind :: "'v php_array \<Rightarrow> 'v php_array" where
  "cursor_rewind a = set_cursor (cursor a AND ARRAY_CURSOR_METADATA) a"

definition cursor_reset :: "'v php_array \<Rightarrow> 'v php_array \<times> 'v option" where
  "cursor_reset a = (let a = cursor_rewind a in (a, map_option snd (vec_get (iter a) 0)))"

definition cursor_end :: "'v php_array \<Rightarrow> 'v php_array \<times> 'v option" where
  "cursor_end a =
     (let pos = array_len a - 1; a = set_pointer pos a
      in (a, map_option snd (vec_get (iter a) pos)))"

definition cursor_current :: "'v php_array \<Rightarrow> 'v option" where
  "cursor_current a =
     (let pos = pointer_position a
      in case storage a of
           Packed values \<Rightarrow> vec_get values pos
         | SmallHash slots \<Rightarrow>
             map_option snd (Option.bind (vec_get (take (small_len slots) slots) pos) id)
         | LinearHash l \<Rightarrow> map_option snd (vec_get (lin_entries l) pos)
         | Hash es si ii p \<Rightarrow> map_option snd (vec_get es pos))"

definition cursor_key :: "'v php_array \<Rightarrow> array_key option" where
  "cursor_key a =
     (let pos = pointer_position a
      in case storage a of
           Packed values \<Rightarrow> if pos < length values then Some (Key_Int (int pos)) else None
         | SmallHash slots \<Rightarrow>
             map_option fst (Option.bind (vec_get (take (small_len slots) slots) pos) id)
         | LinearHash l \<Rightarrow> map_option fst (vec_get (lin_entries l) pos)
         | Hash es si ii p \<Rightarrow> map_option fst (vec_get es pos))"

definition cursor_next :: "'v php_array \<Rightarrow> 'v php_array \<times> 'v option" where
  "cursor_next a =
     (let a = set_pointer (saturating_add_usize (pointer_position a) 1) a
      in (a, cursor_current a))"

definition cursor_prev :: "'v php_array \<Rightarrow> 'v php_array \<times> 'v option" where
  "cursor_prev a =
     (let current = pointer_position a
      in if current = 0 then (set_pointer (array_len a) a, None)
         else (let a = set_pointer (current - 1) a in (a, cursor_current a)))"

subsection \<open>Removal\<close>

definition adjust_reference_foreach_positions ::
  "nat \<Rightarrow> 'v php_array \<Rightarrow> nat \<Rightarrow> nat \<Rightarrow> nat \<Rightarrow> registry \<Rightarrow> registry" where
  "adjust_reference_foreach_positions self_addr a start removed inserted reg =
     (if has_flag ARRAY_REFERENCE_FOREACH a then splice self_addr start removed inserted reg
      else reg)"

definition adjust_cursor_after_remove ::
  "nat \<Rightarrow> nat \<Rightarrow> 'v php_array \<Rightarrow> registry \<Rightarrow> 'v php_array \<times> registry" where
  "adjust_cursor_after_remove self_addr removed_position a reg =
     (let reg = adjust_reference_foreach_positions self_addr a removed_position 1 0 reg;
          current = pointer_position a
      in (if removed_position < current then set_pointer (current - 1) a else a, reg))"

definition take_with_position ::
  "nat \<Rightarrow> array_key \<Rightarrow> parray \<Rightarrow> registry \<Rightarrow> (parray \<times> registry) \<times> (nat \<times> php_value) option" where
  "take_with_position self_addr key a0 reg =
     (let a = (case storage a0 of Packed _ \<Rightarrow> transition_to_hash a0 | _ \<Rightarrow> a0)
      in case storage a of
           Packed _ \<Rightarrow> ((a, reg), None)
         | SmallHash slots \<Rightarrow>
             (case (case key of Key_Int k \<Rightarrow> small_find_int slots k
                    | Key_String k \<Rightarrow> small_find_str slots k) of
                None \<Rightarrow> ((a, reg), None)
              | Some pos \<Rightarrow>
                  (case small_remove_at pos slots of
                     (slots', None) \<Rightarrow> ((set_storage (SmallHash slots') a, reg), None)
                   | (slots', Some (_, v)) \<Rightarrow>
                       (adjust_cursor_after_remove self_addr pos
                          (set_storage (SmallHash slots') a) reg, Some (pos, v))))
         | LinearHash l \<Rightarrow>
             (case (case key of Key_Int k \<Rightarrow> linear_find_int (lin_entries l) k
                    | Key_String k \<Rightarrow> linear_find_str_for_update l k) of
                None \<Rightarrow> ((a, reg), None)
              | Some pos \<Rightarrow>
                  (adjust_cursor_after_remove self_addr pos
                     (set_storage (LinearHash (linear_with_entries (linear_invalidate_index l)
                        (vec_remove pos (lin_entries l)))) a) reg,
                   Some (pos, snd (lin_entries l ! pos))))
         | Hash es si ii p \<Rightarrow>
             (case (case key of Key_Int k \<Rightarrow> indexed_int_position es ii p k
                    | Key_String k \<Rightarrow> map_of si k) of
                None \<Rightarrow> ((a, reg), None)
              | Some idx \<Rightarrow>
                  (let es' = vec_remove idx es;
                       si' = (case fst (es ! idx) of Key_String s \<Rightarrow> AList.delete s si
                              | Key_Int _ \<Rightarrow> si);
                       (ii', p') = rebuild_int_index es';
                       si'' = reindex_string_entries es' si' idx
                   in (adjust_cursor_after_remove self_addr idx
                         (set_storage (Hash es' si'' ii' p') a) reg,
                       Some (idx, snd (es ! idx))))))"

definition remove_with_position ::
  "nat \<Rightarrow> array_key \<Rightarrow> parray \<Rightarrow> registry \<Rightarrow> (parray \<times> registry) \<times> nat option" where
  "remove_with_position self_addr key a reg =
     (let (s, taken) = take_with_position self_addr key a reg in (s, map_option fst taken))"

definition array_remove ::
  "nat \<Rightarrow> array_key \<Rightarrow> parray \<Rightarrow> registry \<Rightarrow> (parray \<times> registry) \<times> bool" where
  "array_remove self_addr key a reg =
     (let (s, pos) = remove_with_position self_addr key a reg in (s, pos \<noteq> None))"

text \<open>\<open>next_int_key - 1\<close> wraps in a build without overflow checks.\<close>

definition retract_next :: "array_key \<Rightarrow> int \<Rightarrow> int" where
  "retract_next key nxt =
     (case key of
        Key_Int n \<Rightarrow> if n = wrapping_i64 (nxt - 1) then wrapping_i64 (nxt - 1) else nxt
      | Key_String _ \<Rightarrow> nxt)"

definition pop :: "parray \<Rightarrow> parray \<times> php_value option" where
  "pop a =
     (case storage a of
        Packed values \<Rightarrow>
          if values = [] then (a, None)
          else (set_next (int (length values) - 1) (set_storage (Packed (butlast values)) a),
                Some (last values))
      | SmallHash slots \<Rightarrow>
          if small_len slots = 0 then (a, None)
          else
            (case small_remove_at (small_len slots - 1) slots of
               (slots', None) \<Rightarrow> (set_storage (SmallHash slots') a, None)
             | (slots', Some (key, v)) \<Rightarrow>
                 (set_next (retract_next key (next_int_key a))
                    (set_storage (SmallHash slots') a), Some v))
      | LinearHash l \<Rightarrow>
          if lin_entries l = [] then (a, None)
          else
            (let (key, v) = last (lin_entries l)
             in (set_next (retract_next key (next_int_key a))
                   (set_storage (LinearHash (linear_with_entries (linear_invalidate_index l)
                      (butlast (lin_entries l)))) a), Some v))
      | Hash es si ii p \<Rightarrow>
          if es = [] then (a, None)
          else
            (let (key, v) = last es; es' = butlast es
             in case key of
                  Key_Int n \<Rightarrow>
                    (set_next (retract_next key (next_int_key a))
                       (set_storage
                          (if p = length es' + 1 then Hash es' si ii (length es')
                           else Hash es' si (AList.delete n ii) p) a), Some v)
                | Key_String s \<Rightarrow>
                    (set_storage (Hash es' (AList.delete s si) ii p) a, Some v)))"

text \<open>The renumbering loop of \<open>shift\<close>: integer keys count up from \<open>n\<close>.\<close>

fun renumber :: "int \<Rightarrow> 'v entries \<Rightarrow> 'v entries \<times> int" where
  "renumber n [] = ([], n)"
| "renumber n ((Key_Int _, v) # es) =
     (let (es', m) = renumber (n + 1) es in ((Key_Int n, v) # es', m))"
| "renumber n ((Key_String s, v) # es) =
     (let (es', m) = renumber n es in ((Key_String s, v) # es', m))"

fun renumber_slots :: "int \<Rightarrow> 'v slots \<Rightarrow> 'v slots \<times> int" where
  "renumber_slots n [] = ([], n)"
| "renumber_slots n (Some (Key_Int _, v) # es) =
     (let (es', m) = renumber_slots (n + 1) es in (Some (Key_Int n, v) # es', m))"
| "renumber_slots n (e # es) = (let (es', m) = renumber_slots n es in (e # es', m))"

definition shift :: "nat \<Rightarrow> parray \<Rightarrow> registry \<Rightarrow> (parray \<times> registry) \<times> php_value option" where
  "shift self_addr a0 reg =
     (let a = transition_to_hash a0
      in case storage a of
           Packed _ \<Rightarrow> ((a, reg), None)
         | SmallHash slots \<Rightarrow>
             (case small_remove_at 0 slots of
                (slots', None) \<Rightarrow> ((set_storage (SmallHash slots') a, reg), None)
              | (slots', Some (_, v)) \<Rightarrow>
                  (let len = small_len slots';
                       (front, nxt) = renumber_slots 0 (take len slots');
                       a = set_next nxt (set_storage (SmallHash (front @ drop len slots')) a)
                   in ((a, adjust_reference_foreach_positions self_addr a 0 1 0 reg), Some v)))
         | LinearHash l \<Rightarrow>
             if lin_entries l = [] then ((a, reg), None)
             else
               (let (es', nxt) = renumber 0 (vec_remove 0 (lin_entries l));
                    a = set_next nxt (set_storage (LinearHash
                          (linear_with_entries (linear_invalidate_index l) es')) a)
                in ((a, adjust_reference_foreach_positions self_addr a 0 1 0 reg),
                    Some (snd (lin_entries l ! 0))))
         | Hash es si ii p \<Rightarrow>
             if es = [] then ((a, reg), None)
             else
               (let (es', nxt) = renumber 0 (vec_remove 0 es);
                    si' = index_strings 0 es' [];
                    (ii', p') = rebuild_int_index es';
                    a = set_next nxt (set_storage (Hash es' si' ii' p') a)
                in ((a, adjust_reference_foreach_positions self_addr a 0 1 0 reg),
                    Some (snd (es ! 0)))))"

subsection \<open>Byte-string keys\<close>

text \<open>
  The lossless byte bridge: a byte becomes the Unicode scalar of the same number, so a byte
  below 128 is stored as itself and any other as a two-byte UTF-8 sequence.
\<close>

definition utf8_of_byte :: "char \<Rightarrow> byte_string" where
  "utf8_of_byte c =
     (let n = of_char c :: nat
      in if n < 128 then [c] else [char_of (192 + n div 64), char_of (128 + n mod 64)])"

definition php_byte_string_from_bytes :: "char list \<Rightarrow> byte_string" where
  "php_byte_string_from_bytes bytes = concat (map utf8_of_byte bytes)"

text \<open>\<open>str::chars\<close>: the scalars of a UTF-8 string. A truncated sequence, which a Rust string
  never holds, ends the decoding.\<close>

fun utf8_chars :: "byte_string \<Rightarrow> nat list" where
  "utf8_chars (c # cs) =
     (if (of_char c :: nat) < 128 then of_char c # utf8_chars cs
      else
        (case cs of
           [] \<Rightarrow> []
         | d # ds \<Rightarrow>
             if of_char c < (224 :: nat)
             then ((of_char c mod 32) * 64 + of_char d mod 64) # utf8_chars ds
             else
               (case ds of
                  [] \<Rightarrow> []
                | e # es \<Rightarrow>
                    if of_char c < (240 :: nat)
                    then ((of_char c mod 16) * 4096 + (of_char d mod 64) * 64 + of_char e mod 64)
                           # utf8_chars es
                    else
                      (case es of
                         [] \<Rightarrow> []
                       | f # fs \<Rightarrow>
                           ((of_char c mod 8) * 262144 + (of_char d mod 64) * 4096
                              + (of_char e mod 64) * 64 + of_char f mod 64) # utf8_chars fs))))"
| "utf8_chars [] = []"

text \<open>\<open>character as u8\<close> keeps the low byte of the scalar.\<close>

definition php_byte_string_bytes :: "byte_string \<Rightarrow> char list" where
  "php_byte_string_bytes s = map (\<lambda>scalar. char_of (scalar mod 256)) (utf8_chars s)"

definition normalize_array_key_for_external_storage :: "array_key \<Rightarrow> bool \<Rightarrow> array_key" where
  "normalize_array_key_for_external_storage key source_external_byte_keys =
     (case key of
        Key_String s \<Rightarrow>
          if source_external_byte_keys then key else Key_String (php_byte_string_from_bytes s)
      | Key_Int _ \<Rightarrow> key)"

definition promote_keys_to_external_storage :: "parray \<Rightarrow> parray" where
  "promote_keys_to_external_storage a =
     (if has_flag ARRAY_EXTERNAL_BYTE_KEYS a then a
      else
        (let rebuilt = (if has_string_keys a then with_deferred_hash_capacity (array_len a)
                        else with_packed_capacity (array_len a));
             rebuilt = fold (\<lambda>(key, v) r.
                         array_set (normalize_array_key_for_external_storage key False) v r)
                         (iter a) rebuilt;
             rebuilt = set_next (next_int_key a) rebuilt;
             preserved = cursor a AND (ARRAY_CURSOR_METADATA
                           AND NOT (ARRAY_EXTERNAL_BYTE_KEYS OR ARRAY_UTF8_TEXT_KEYS));
             rebuilt_metadata = cursor rebuilt AND ARRAY_CURSOR_METADATA;
             position = cursor a AND NOT ARRAY_CURSOR_METADATA
         in set_cursor (position OR preserved OR rebuilt_metadata OR ARRAY_EXTERNAL_BYTE_KEYS)
              rebuilt))"

definition absorb_key_provenance :: "bool \<Rightarrow> bool \<Rightarrow> parray \<Rightarrow> parray" where
  "absorb_key_provenance source_external source_utf8 a =
     (if source_external then promote_keys_to_external_storage a
      else if source_utf8 \<and> \<not> has_flag ARRAY_EXTERNAL_BYTE_KEYS a
      then mark_flag ARRAY_UTF8_TEXT_KEYS a else a)"

definition normalize_key_from_provenance :: "parray \<Rightarrow> array_key \<Rightarrow> bool \<Rightarrow> array_key" where
  "normalize_key_from_provenance a key source_external_byte_keys =
     (if has_flag ARRAY_EXTERNAL_BYTE_KEYS a
      then normalize_array_key_for_external_storage key source_external_byte_keys
      else key)"

text \<open>Canonical decimal strings are integer keys. \<open>value.parse().ok()\<close> is the range check.\<close>

definition is_digit :: "char \<Rightarrow> bool" where
  "is_digit c \<longleftrightarrow> CHR ''0'' \<le> c \<and> c \<le> CHR ''9''"

definition digits_value :: "byte_string \<Rightarrow> int" where
  "digits_value s = foldl (\<lambda>n c. n * 10 + (of_char c - 48)) 0 s"

definition canonical_decimal_array_key :: "byte_string \<Rightarrow> int option" where
  "canonical_decimal_array_key s =
     (case s of
        [] \<Rightarrow> None
      | c # rest \<Rightarrow>
          if c = CHR ''0'' \<and> rest = [] then Some 0
          else if CHR ''1'' \<le> c \<and> c \<le> CHR ''9'' then
            (if list_all is_digit rest then checked (digits_value s) else None)
          else if c = CHR ''-'' then
            (case rest of
               [] \<Rightarrow> None
             | d # digits \<Rightarrow>
                 if CHR ''1'' \<le> d \<and> d \<le> CHR ''9'' \<and> list_all is_digit digits
                 then checked (- digits_value rest) else None)
          else None)"

end
