(* ===== verification/Php_Array_Refine.thy ===== *)
theory Php_Array_Refine
  imports Php_Array
begin

text \<open>
  The invariant of \<open>PhpArray\<close> and the refinement of its keyed operations to the ordered-map
  specification: \<open>array_wf\<close> says that the storage tier is well formed, that every integer key
  lies below \<open>next_int_key\<close> (or is \<open>i64::MAX\<close>), that packed storage appends at its length, and
  that the marker of an initialised integer sequence is set once the sequence has started.
\<close>

subsection \<open>The invariant\<close>

fun storage_wf :: "'v array_storage \<Rightarrow> bool" where
  "storage_wf (Packed values) = (length values < 2 ^ 56)"
| "storage_wf (SmallHash slots) =
     (\<exists>es. length es \<le> 3 \<and> slots = small_slots es \<and> keys_ok es)"
| "storage_wf (LinearHash l) = linear_wf l"
| "storage_wf (Hash es si ii p) = hash_wf es si ii p"

definition next_ok :: "'v entries \<Rightarrow> int \<Rightarrow> bool \<Rightarrow> bool" where
  "next_ok es nxt init \<longleftrightarrow> in_i64 nxt \<and>
     (\<forall>n. Key_Int n \<in> fst ` set es \<longrightarrow> n < nxt \<or> n = i64_MAX) \<and>
     (\<not> init \<longrightarrow> nxt = 0 \<and> (\<forall>n. Key_Int n \<notin> fst ` set es))"

definition array_wf :: "'v php_array \<Rightarrow> bool" where
  "array_wf a \<longleftrightarrow> storage_wf (storage a) \<and>
     next_ok (iter a) (next_int_key a) (has_flag ARRAY_INT_KEY_INITIALIZED a) \<and>
     (is_packed a \<longrightarrow> next_int_key a = int (array_len a))"

text \<open>Room for one more entry, far beyond what an address space holds.\<close>

definition has_room :: "'v php_array \<Rightarrow> bool" where
  "has_room a \<longleftrightarrow> Suc (length (iter a)) < 2 ^ 56"

definition set_int_safe :: "'v php_array \<Rightarrow> int \<Rightarrow> bool" where
  "set_int_safe a key \<longleftrightarrow> in_i64 key \<and>
     (case storage a of Hash es si ii p \<Rightarrow> stride_safe es ii p key | _ \<Rightarrow> True)"

definition write_safe :: "'v php_array \<Rightarrow> array_key \<Rightarrow> bool" where
  "write_safe a key \<longleftrightarrow> has_room a \<and> (case key of Key_Int k \<Rightarrow> set_int_safe a k | Key_String _ \<Rightarrow> True)"

subsection \<open>Entries of each tier\<close>

lemma length_packed_entries [simp]: "length (packed_entries vs) = length vs"
  by (simp add: packed_entries_def)

lemma packed_entries_Nil [simp]: "packed_entries vs = [] \<longleftrightarrow> vs = []"
  by (metis length_0_conv length_packed_entries)

lemma nth_packed_entries [simp]:
  "i < length vs \<Longrightarrow> packed_entries vs ! i = (Key_Int (int i), vs ! i)"
  by (simp add: packed_entries_def nth_enumerate_eq)

lemma packed_entries_append:
  "packed_entries (vs @ [v]) = packed_entries vs @ [(Key_Int (int (length vs)), v)]"
  by (simp add: packed_entries_def enumerate_append_eq)

lemma keys_packed_entries: "map fst (packed_entries vs) = map (\<lambda>i. Key_Int (int i)) [0..<length vs]"
  by (rule nth_equalityI) auto

lemma distinct_packed_entries: "distinct (map fst (packed_entries vs))"
  by (simp add: keys_packed_entries distinct_map inj_on_def)

lemma key_in_packed_entries:
  "k \<in> fst ` set (packed_entries vs) \<longleftrightarrow> (\<exists>i < length vs. k = Key_Int (int i))"
  using arg_cong [OF keys_packed_entries, of set, of vs] by auto

lemma keys_ok_packed: "length vs < 2 ^ 56 \<Longrightarrow> keys_ok (packed_entries vs)"
  by (auto simp: keys_ok_def distinct_packed_entries key_in_packed_entries i64_simps)

lemma find_packed_int:
  "find_key (Key_Int k) (packed_entries vs) =
     (if 0 \<le> k \<and> nat k < length vs then Some (nat k) else None)"
proof (cases "0 \<le> k \<and> nat k < length vs")
  case True
  then show ?thesis
    using find_key_unique [OF distinct_packed_entries, of "nat k" vs "Key_Int k"] by simp
next
  case False
  then have "Key_Int k \<notin> fst ` set (packed_entries vs)" by (auto simp: key_in_packed_entries)
  with False show ?thesis by (metis find_key_None)
qed

lemma find_packed_str: "find_key (Key_String s) (packed_entries vs) = None"
  by (simp add: find_key_None key_in_packed_entries)

lemma iter_small [simp]:
  "length es \<le> 3 \<Longrightarrow> storage_entries (SmallHash (small_slots es)) = es"
  by (simp add: take_small_slots comp_def)

lemma storage_keys_ok: "storage_wf s \<Longrightarrow> keys_ok (storage_entries s)"
  by (cases s) (auto simp: keys_ok_packed linear_wf_def hash_wfD simp del: storage_entries.simps(2))

lemma array_wfD:
  assumes "array_wf a"
  shows "storage_wf (storage a)" "keys_ok (iter a)" "in_i64 (next_int_key a)"
    "Key_Int n \<in> fst ` set (iter a) \<Longrightarrow> n < next_int_key a \<or> n = i64_MAX"
    "is_packed a \<Longrightarrow> next_int_key a = int (array_len a)"
    "\<not> has_flag ARRAY_INT_KEY_INITIALIZED a \<Longrightarrow> next_int_key a = 0"
    "\<not> has_flag ARRAY_INT_KEY_INITIALIZED a \<Longrightarrow> Key_Int n \<notin> fst ` set (iter a)"
  using assms storage_keys_ok [of "storage a"] by (auto simp: array_wf_def next_ok_def iter_def)

lemma array_len_iter: "storage_wf (storage a) \<Longrightarrow> array_len a = length (iter a)"
  by (cases "storage a") (auto simp: array_len_def iter_def simp del: storage_entries.simps(2))

lemma array_is_empty_iter: "storage_wf (storage a) \<Longrightarrow> array_is_empty a \<longleftrightarrow> iter a = []"
  by (cases "storage a") (auto simp: array_is_empty_def iter_def
      simp del: storage_entries.simps(2))

subsection \<open>Reads\<close>

lemma bind_find_get:
  "Option.bind (find_key k es) (vec_get es) = map_option (\<lambda>i. es ! i) (find_key k es)"
  by (cases "find_key k es") (auto dest: find_key_SomeD)

lemma positional_probe_sound:
  assumes "keys_ok es" "positional_probe es key = Some v"
  shows "lookup_key (Key_Int key) es = Some v"
proof -
  from assms(2) obtain pos where "pos < length es" "fst (es ! pos) = Key_Int key" "v = snd (es ! pos)"
    by (auto simp: positional_probe_def Let_def bind_eq_Some_conv split: if_splits)
  then show ?thesis
    using find_key_unique [OF keys_okD(1) [OF assms(1)]] by (simp add: lookup_key_def)
qed

lemma get_int_lookup:
  assumes "array_wf a" shows "get_int a key = lookup_key (Key_Int key) (iter a)"
proof (cases "storage a")
  case (Packed vs)
  then show ?thesis
    by (auto simp: get_int_def iter_def lookup_key_def find_packed_int vec_get_def)
next
  case (SmallHash slots)
  with array_wfD(1) [OF assms] obtain es where "length es \<le> 3" "slots = small_slots es" by auto
  with SmallHash show ?thesis
    by (simp add: get_int_def iter_def lookup_key_def linear_find bind_find_get option.map_comp
        comp_def del: storage_entries.simps(2))
next
  case (LinearHash l)
  then show ?thesis
    by (simp add: get_int_def iter_def lookup_key_def linear_find bind_find_get option.map_comp comp_def)
next
  case (Hash es si ii p)
  with array_wfD(1) [OF assms] have wf: "hash_wf es si ii p" by simp
  with Hash show ?thesis
    using positional_probe_sound [OF hash_wfD(1) [OF wf], of key]
    by (auto simp: get_int_def iter_def lookup_key_def indexed_int_position_ok [OF wf] linear_find
        split: option.splits)
qed

lemma get_str_lookup:
  assumes wf: "array_wf a"
  shows "snd (get_str a key) = lookup_key (Key_String key) (iter a)"
    and "iter (fst (get_str a key)) = iter a" and "array_wf (fst (get_str a key))"
    and "next_int_key (fst (get_str a key)) = next_int_key a"
    and "cursor (fst (get_str a key)) = cursor a"
proof -
  have "snd (get_str a key) = lookup_key (Key_String key) (iter a) \<and>
    iter (fst (get_str a key)) = iter a \<and> array_wf (fst (get_str a key)) \<and>
    next_int_key (fst (get_str a key)) = next_int_key a \<and> cursor (fst (get_str a key)) = cursor a"
  proof (cases "storage a")
    case (Packed vs)
    with wf show ?thesis by (simp add: get_str_def iter_def lookup_key_def find_packed_str)
  next
    case (SmallHash slots)
    with array_wfD(1) [OF wf] obtain es where "length es \<le> 3" "slots = small_slots es" by auto
    with SmallHash wf show ?thesis
      by (simp add: get_str_def iter_def lookup_key_def linear_find bind_find_get option.map_comp
          comp_def del: storage_entries.simps(2))
  next
    case (LinearHash l)
    obtain l' pos where r: "linear_find_str_read l key = (l', pos)" by fastforce
    from array_wfD(1) [OF wf] LinearHash have "linear_wf l" by simp
    from linear_find_str_read_ok [OF this r] LinearHash wf show ?thesis
      by (simp add: get_str_def r iter_def lookup_key_def linear_find bind_find_get option.map_comp
          comp_def array_wf_def is_packed_def has_flag_def)
  next
    case (Hash es si ii p)
    with array_wfD(1) [OF wf] have "str_index_ok es si" by (simp add: hash_wfD)
    with Hash wf show ?thesis
      by (simp add: get_str_def iter_def lookup_key_def str_index_ok_def linear_find)
  qed
  then show "snd (get_str a key) = lookup_key (Key_String key) (iter a)"
    "iter (fst (get_str a key)) = iter a" "array_wf (fst (get_str a key))"
    "next_int_key (fst (get_str a key)) = next_int_key a"
    "cursor (fst (get_str a key)) = cursor a"
    by simp_all
qed

subsection \<open>Steps that leave the content alone\<close>

lemma iter_frame [simp]:
  "iter (set_allocation n a) = iter a" "iter (set_next k a) = iter a" "iter (set_cursor c a) = iter a"
  "iter (set_storage s a) = storage_entries s"
  by (simp_all add: iter_def)

lemma grow_frame [simp]:
  "storage (grow_to b a) = storage a" "next_int_key (grow_to b a) = next_int_key a"
  "cursor (grow_to b a) = cursor a"
  by (simp_all add: grow_to_def)

lemma reserve_frame [simp]:
  "storage (reserve_accounted_entries n h a) = storage a"
  "next_int_key (reserve_accounted_entries n h a) = next_int_key a"
  "cursor (reserve_accounted_entries n h a) = cursor a"
  by (simp_all add: reserve_accounted_entries_def Let_def)

lemma mark_frame [simp]:
  "storage (mark_flag f a) = storage a" "next_int_key (mark_flag f a) = next_int_key a"
  by (simp_all add: mark_flag_def)

lemma track_frame [simp]:
  "storage (track_nested_release_value v a) = storage a"
  "next_int_key (track_nested_release_value v a) = next_int_key a"
  by (simp_all add: track_nested_release_value_def)

lemma has_flag_mono: "has_flag f a \<Longrightarrow> has_flag f (mark_flag g a)"
proof -
  have "(c AND f = 0)" if "(c OR g) AND f = 0" for c :: "64 word"
    using that by (metis (no_types, lifting) and.commute bit.conj_disj_distrib or_eq_0_iff)
  then show "has_flag f a \<Longrightarrow> has_flag f (mark_flag g a)"
    by (auto simp: has_flag_def mark_flag_def)
qed

lemma has_flag_mark [simp]:
  assumes "f \<noteq> 0" shows "has_flag f (mark_flag f a)"
proof -
  have "(cursor a OR f) AND f = f" by (rule bit_eqI) (auto simp: bit_and_iff bit_or_iff)
  with assms show ?thesis by (simp add: has_flag_def mark_flag_def)
qed

lemma flag_nonzero [simp]: "ARRAY_INT_KEY_INITIALIZED \<noteq> 0"
  by (simp add: ARRAY_INT_KEY_INITIALIZED_def)

lemma track_flag: "has_flag f a \<Longrightarrow> has_flag f (track_nested_release_value v a)"
  by (simp add: track_nested_release_value_def has_flag_mono)

lemma array_wf_frame:
  assumes "array_wf a" "storage b = storage a" "next_int_key b = next_int_key a"
    "has_flag ARRAY_INT_KEY_INITIALIZED a \<Longrightarrow> has_flag ARRAY_INT_KEY_INITIALIZED b"
  shows "array_wf b"
  using assms
  by (auto simp: array_wf_def iter_def next_ok_def is_packed_def array_len_def)

lemma array_wf_reserve [simp]:
  "array_wf a \<Longrightarrow> array_wf (reserve_accounted_entries n h a)"
  by (erule array_wf_frame) (simp_all add: has_flag_def)

lemma array_wf_track [simp]: "array_wf a \<Longrightarrow> array_wf (track_nested_release_value v a)"
  by (erule array_wf_frame) (simp_all add: track_flag)

lemma iter_reserve [simp]: "iter (reserve_accounted_entries n h a) = iter a"
  by (simp add: iter_def)

lemma iter_track [simp]: "iter (track_nested_release_value v a) = iter a"
  by (simp add: iter_def)

subsection \<open>Transitions keep the entries\<close>

lemma fold_small_push:
  assumes "length es + length vs \<le> 3"
  shows "fold (\<lambda>(index, v) slots. fst (small_push (Key_Int (int index)) v slots))
           (List.enumerate n vs) (small_slots es) =
         small_slots (es @ map (\<lambda>(i, v). (Key_Int (int i), v)) (List.enumerate n vs))"
  using assms
proof (induction vs arbitrary: es n)
  case (Cons v vs)
  then show ?case using Cons.IH [of "es @ [(Key_Int (int n), v)]" "Suc n"] by simp
qed simp

lemma transition_to_hash_frame [simp]:
  "next_int_key (transition_to_hash a) = next_int_key a" "cursor (transition_to_hash a) = cursor a"
  by (simp_all add: transition_to_hash_def split: array_storage.splits)

lemma packed_hash_wf:
  assumes "3 < length vs" "length vs < 2 ^ 56"
  shows "hash_wf (packed_entries vs) [] [] (length vs)"
proof -
  have "int_prefix (packed_entries vs) (length vs)"
    using assms(2) by (intro int_prefixI [where first = 0 and stride = 1]) (auto simp: i64_simps)
  with assms show ?thesis
    by (auto simp: hash_wf_def keys_ok_packed str_index_ok_def linear_find find_packed_str)
qed

lemma transition_to_hash_ok:
  assumes "storage_wf (storage a)"
  shows "storage_wf (storage (transition_to_hash a))" "iter (transition_to_hash a) = iter a"
    "\<not> is_packed (transition_to_hash a)"
proof -
  have "storage_wf (storage (transition_to_hash a)) \<and> iter (transition_to_hash a) = iter a \<and>
    \<not> is_packed (transition_to_hash a)"
  proof (cases "\<exists>vs. storage a = Packed vs \<and> length vs \<le> 3")
    case True
    then obtain vs where vs: "storage a = Packed vs" "length vs \<le> 3" by blast
    have "fold (\<lambda>(index, v) slots. fst (small_push (Key_Int (int index)) v slots))
        (List.enumerate 0 vs) small_new = small_slots (packed_entries vs)"
      using fold_small_push [of "[]" vs 0] vs(2) by (simp add: small_new_slots packed_entries_def)
    with vs assms show ?thesis
      by (auto simp: transition_to_hash_def SMALL_HASH_CAPACITY_def is_packed_def iter_def
          keys_ok_packed simp del: storage_entries.simps(2) intro!: exI [of _ "packed_entries vs"])
  next
    case False
    with assms show ?thesis
      by (auto simp: transition_to_hash_def SMALL_HASH_CAPACITY_def is_packed_def iter_def
          packed_hash_wf split: array_storage.splits simp del: storage_entries.simps(2))
  qed
  then show "storage_wf (storage (transition_to_hash a))" "iter (transition_to_hash a) = iter a"
    "\<not> is_packed (transition_to_hash a)" by simp_all
qed

lemma rebuild_hash_wf:
  assumes "keys_ok es" "str_index_ok es si" "rebuild_int_index es = (ii, p)"
  shows "hash_wf es si ii p"
  using assms rebuild_int_index_ok(1) [OF assms(1,3)] by (auto simp: hash_wf_def split: if_splits)

lemma promote_frame [simp]:
  "next_int_key (promote_small_hash a) = next_int_key a" "cursor (promote_small_hash a) = cursor a"
  "next_int_key (promote_linear_hash a) = next_int_key a" "cursor (promote_linear_hash a) = cursor a"
  "next_int_key (promote_small_hash_to_linear a) = next_int_key a"
  "cursor (promote_small_hash_to_linear a) = cursor a"
  by (simp_all add: promote_small_hash_def promote_linear_hash_def promote_small_hash_to_linear_def
      Let_def split: array_storage.splits prod.splits)

lemma promote_small_hash_ok:
  assumes "storage a = SmallHash (small_slots es)" "length es \<le> 3" "keys_ok es"
  shows "\<exists>si ii p. storage (promote_small_hash a) = Hash es si ii p \<and> hash_wf es si ii p"
proof -
  obtain ii p where r: "rebuild_int_index es = (ii, p)" by fastforce
  show ?thesis
    using assms rebuild_hash_wf [OF assms(3) str_index_ok_rebuild [OF assms(3)] r]
    by (simp add: promote_small_hash_def r)
qed

lemma promote_linear_hash_ok:
  assumes "storage a = LinearHash l" "linear_wf l"
  shows "\<exists>si ii p. storage (promote_linear_hash a) = Hash (lin_entries l) si ii p \<and>
           hash_wf (lin_entries l) si ii p"
proof -
  obtain ii p where r: "rebuild_int_index (lin_entries l) = (ii, p)" by fastforce
  have keys: "keys_ok (lin_entries l)" using assms(2) by (simp add: linear_wf_def)
  have "str_index_ok (lin_entries l) (complete_str_index 0 (lin_entries l)
      (case lin_index l of Some si \<Rightarrow> si | None \<Rightarrow> []))"
    using assms(2) str_index_ok_complete [OF keys] by (auto simp: linear_wf_def split: option.splits)
  from rebuild_hash_wf [OF keys this r] assms(1) show ?thesis
    by (simp add: promote_linear_hash_def Let_def r)
qed

lemma promote_small_hash_other:
  "(\<And>slots. storage a \<noteq> SmallHash slots) \<Longrightarrow> promote_small_hash a = a"
  by (auto simp: promote_small_hash_def split: array_storage.splits)

lemma promote_linear_hash_other:
  "(\<And>l. storage a \<noteq> LinearHash l) \<Longrightarrow> promote_linear_hash a = a"
  by (auto simp: promote_linear_hash_def split: array_storage.splits)

subsection \<open>Keyed writes\<close>

text \<open>What a write at \<open>k\<close> achieves on explicit-key storage.\<close>

definition next_after :: "array_key \<Rightarrow> 'v entries \<Rightarrow> int \<Rightarrow> int" where
  "next_after k es nxt =
     (case k of Key_Int n \<Rightarrow> if find_key k es = None then bump_next n nxt else nxt
      | Key_String _ \<Rightarrow> nxt)"

definition wrote :: "array_key \<Rightarrow> php_value \<Rightarrow> parray \<Rightarrow> parray \<Rightarrow> bool" where
  "wrote k v a a' \<longleftrightarrow> iter a' = upsert k v (iter a) \<and> storage_wf (storage a') \<and> \<not> is_packed a' \<and>
     cursor a' = cursor a \<and> next_int_key a' = next_after k (iter a) (next_int_key a)"

lemma set_int_indexed_wrote:
  assumes st: "storage a = Hash es si ii p" and wf: "hash_wf es si ii p" and room: "has_room a"
    and key: "in_i64 key" and safe: "stride_safe es ii p key"
  shows "wrote (Key_Int key) v a (set_int_indexed key v a)"
proof -
  from room st have "Suc (length es) < 2 ^ 56" by (simp add: has_room_def iter_def)
  from set_indexed_int_spec [OF wf this key safe, of "next_int_key a" v]
  obtain ii' p' where "set_indexed_int es ii p (next_int_key a) key v =
      (upsert (Key_Int key) v es, ii', p',
       if find_key (Key_Int key) es = None then bump_next key (next_int_key a) else next_int_key a)"
    "hash_wf (upsert (Key_Int key) v es) si ii' p'"
    by auto
  with st show ?thesis
    by (simp add: set_int_indexed_def wrote_def next_after_def iter_def is_packed_def)
qed

lemma keys_ok_snoc:
  assumes "keys_ok es" "find_key k es = None" "Suc (length es) < 2 ^ 56"
    "\<And>n. k = Key_Int n \<Longrightarrow> in_i64 n"
  shows "keys_ok (es @ [(k, v)])"
  using keys_ok_upsert [OF assms(1,3), of k v] assms(2,4) by (simp add: upsert_absent)

lemma linear_append_wf:
  assumes "linear_wf l" "find_key k (lin_entries l) = None"
    "length (lin_entries l) < LINEAR_HASH_CAPACITY" "\<And>n. k = Key_Int n \<Longrightarrow> in_i64 n"
  shows "linear_wf (linear_with_entries (linear_invalidate_index l) (lin_entries l @ [(k, v)]))"
  using assms keys_ok_snoc [of "lin_entries l" k v]
  by (auto simp: linear_wf_def linear_with_entries_def linear_invalidate_index_def
      LINEAR_HASH_CAPACITY_def)

lemma linear_overwrite_wf:
  assumes "linear_wf l" "find_key k (lin_entries l) = Some i"
  shows "linear_wf (linear_with_entries l (set_entry_value (lin_entries l) i v))"
  using assms by (intro linear_wf_overwrite)
    (simp_all add: set_entry_value_upsert upsert_overwrite_keys)

lemma lin_entries_with [simp]: "lin_entries (linear_with_entries l es) = es"
  by (simp add: linear_with_entries_def)

lemma set_int_linear_wrote:
  assumes wf: "storage_wf (storage a)" and room: "has_room a" and key: "set_int_safe a key"
    and st: "(\<exists>l. storage a = LinearHash l) \<or> (\<exists>es si ii p. storage a = Hash es si ii p)"
  shows "wrote (Key_Int key) v a (set_int_linear key v a)"
proof (cases "\<exists>l. storage a = LinearHash l")
  case True
  then obtain l where l: "storage a = LinearHash l" by blast
  with wf have lwf: "linear_wf l" by simp
  have k: "in_i64 key" using key by (simp add: set_int_safe_def)
  show ?thesis
  proof (cases "find_key (Key_Int key) (lin_entries l)")
    case (Some i)
    with l linear_overwrite_wf [OF lwf Some, of v] show ?thesis
      by (simp add: set_int_linear_def linear_find wrote_def iter_def is_packed_def next_after_def
          set_entry_value_upsert)
  next
    case None
    show ?thesis
    proof (cases "length (lin_entries l) < LINEAR_HASH_CAPACITY")
      case True
      with l None linear_append_wf [OF lwf None True, of v] k show ?thesis
        by (simp add: set_int_linear_def linear_find wrote_def iter_def is_packed_def next_after_def
            upsert_absent)
    next
      case False
      from promote_linear_hash_ok [OF l lwf] obtain si ii p where
        pr: "storage (promote_linear_hash a) = Hash (lin_entries l) si ii p"
        "hash_wf (lin_entries l) si ii p" by blast
      have "stride_safe (lin_entries l) ii p key"
        using False by (simp add: stride_safe_def LINEAR_HASH_CAPACITY_def)
      with pr room k l have "wrote (Key_Int key) v (promote_linear_hash a)
          (set_int_indexed key v (promote_linear_hash a))"
        by (intro set_int_indexed_wrote) (auto simp: has_room_def iter_def)
      with l None False pr show ?thesis
        by (simp add: set_int_linear_def linear_find wrote_def iter_def)
    qed
  qed
next
  case False
  with st obtain es si ii p where h: "storage a = Hash es si ii p" by blast
  with wf key room show ?thesis
    using set_int_indexed_wrote [OF h, of key v]
    by (simp add: set_int_linear_def promote_linear_hash_other set_int_safe_def)
qed

lemma wrote_via:
  assumes "wrote k v b a'" "iter b = iter a" "cursor b = cursor a" "next_int_key b = next_int_key a"
  shows "wrote k v a a'"
  using assms by (simp add: wrote_def)

lemma set_entry_value_length [simp]: "length (set_entry_value es i v) = length es"
  by (simp add: set_entry_value_def)

text \<open>Overwriting and appending in the inline table.\<close>

lemma small_overwrite_wrote:
  assumes "storage a = SmallHash (small_slots es)" "length es \<le> 3" "keys_ok es"
    "find_key k es = Some i"
  shows "wrote k v a (set_storage (SmallHash (small_set_value (small_slots es) i v)) a)"
proof -
  have "map fst (set_entry_value es i v) = map fst es"
    using assms(4) by (simp add: set_entry_value_upsert upsert_overwrite_keys)
  then have "keys_ok (set_entry_value es i v)"
    using assms(3) unfolding keys_ok_def by (metis length_map image_set)
  moreover have "i < length es" using assms(4) by (simp add: find_key_SomeD)
  ultimately show ?thesis
    using assms(1,2,4)
    by (auto simp: wrote_def iter_def is_packed_def next_after_def
        set_entry_value_upsert [OF assms(4), symmetric] split: array_key.splits
        simp del: storage_entries.simps(2) intro!: exI [of _ "set_entry_value es i v"])
qed

lemma small_append_wrote:
  assumes "storage a = SmallHash (small_slots es)" "length es < 3" "keys_ok es"
    "find_key k es = None" "\<And>n. k = Key_Int n \<Longrightarrow> in_i64 n"
    "nxt = next_after k es (next_int_key a)"
  shows "wrote k v a (set_next nxt (set_storage (SmallHash (fst (small_push k v (small_slots es)))) a))"
proof -
  have "keys_ok (es @ [(k, v)])" using assms keys_ok_snoc [of es k v] by simp
  with assms show ?thesis
    by (auto simp: wrote_def iter_def is_packed_def upsert_absent
        simp del: storage_entries.simps(2) intro!: exI [of _ "es @ [(k, v)]"])
qed

lemma set_int_small_wrote:
  assumes wf: "storage_wf (storage a)" and room: "has_room a" and key: "set_int_safe a key"
    and st: "\<not> is_packed a"
  shows "wrote (Key_Int key) v a (set_int_small key v a)"
proof (cases "\<exists>slots. storage a = SmallHash slots")
  case True
  with wf obtain es where es: "storage a = SmallHash (small_slots es)" "length es \<le> 3" "keys_ok es"
    by auto
  have k: "in_i64 key" using key by (simp add: set_int_safe_def)
  show ?thesis
  proof (cases "find_key (Key_Int key) es")
    case (Some i)
    with small_overwrite_wrote [OF es Some] es show ?thesis
      by (simp add: set_int_small_def linear_find)
  next
    case None
    show ?thesis
    proof (cases "length es < 3")
      case True
      from small_append_wrote [OF es(1) True es(3) None _ refl] k es None True show ?thesis
        by (simp add: set_int_small_def linear_find SMALL_HASH_CAPACITY_def next_after_def)
    next
      case False
      from promote_small_hash_ok [OF es] obtain si ii p where
        pr: "storage (promote_small_hash a) = Hash es si ii p" "hash_wf es si ii p" by blast
      have "stride_safe es ii p key" using False by (simp add: stride_safe_def)
      with pr room k es have "wrote (Key_Int key) v (promote_small_hash a)
          (set_int_linear key v (promote_small_hash a))"
        by (intro set_int_linear_wrote) (auto simp: has_room_def iter_def set_int_safe_def
            simp del: storage_entries.simps(2))
      then have "wrote (Key_Int key) v a (set_int_linear key v (promote_small_hash a))"
        by (rule wrote_via) (use es pr in \<open>simp_all add: iter_def del: storage_entries.simps(2)\<close>)
      with es None False show ?thesis
        by (simp add: set_int_small_def linear_find SMALL_HASH_CAPACITY_def)
    qed
  qed
next
  case False
  then have "promote_small_hash a = a" by (simp add: promote_small_hash_other)
  moreover have "(\<exists>l. storage a = LinearHash l) \<or> (\<exists>es si ii p. storage a = Hash es si ii p)"
    using st False by (cases "storage a") (auto simp: is_packed_def)
  ultimately show ?thesis
    using set_int_linear_wrote [OF wf room key] False
    by (auto simp: set_int_small_def split: array_storage.splits)
qed

text \<open>The invariant after a write.\<close>

lemma keys_upsert_image: "fst ` set (upsert k v es) = insert k (fst ` set es)"
proof -
  have "fst ` set (upsert k v es) = set (map fst (upsert k v es))" by simp
  also have "\<dots> = insert k (fst ` set es)"
    unfolding upsert_keys by (auto simp: find_key_None)
  finally show ?thesis .
qed

lemma next_ok_int:
  assumes "next_ok es nxt True" "in_i64 key"
  shows "next_ok (upsert (Key_Int key) v es) (next_after (Key_Int key) es nxt) True"
proof -
  have old: "n < nxt \<or> n = i64_MAX" if "Key_Int n \<in> fst ` set es" for n
    using assms(1) that by (auto simp: next_ok_def)
  have nxt: "in_i64 nxt" using assms(1) by (simp add: next_ok_def)
  have ge: "nxt \<le> next_after (Key_Int key) es nxt"
    using assms(2) saturating_succ_le [of key]
    by (auto simp: next_after_def bump_next_def in_i64_def)
  have new: "key < next_after (Key_Int key) es nxt \<or> key = i64_MAX"
    using saturating_succ_gt [OF assms(2)] old [of key] find_key_None [of "Key_Int key" es]
    by (auto simp: next_after_def bump_next_def)
  have "in_i64 (next_after (Key_Int key) es nxt)"
    using nxt in_i64_saturating_succ [OF assms(2)] by (simp add: next_after_def bump_next_def)
  then show ?thesis
    unfolding next_ok_def keys_upsert_image using old ge new by fastforce
qed

lemma next_ok_str:
  "next_ok es nxt init \<Longrightarrow> next_ok (upsert (Key_String s) v es) nxt init"
  unfolding next_ok_def keys_upsert_image by auto

lemma array_wf_wrote:
  assumes w: "wrote k v a a'" and nx: "next_ok (iter a) (next_int_key a)
      (has_flag ARRAY_INT_KEY_INITIALIZED a)"
    and k: "\<And>n. k = Key_Int n \<Longrightarrow> in_i64 n \<and> has_flag ARRAY_INT_KEY_INITIALIZED a"
  shows "array_wf a'"
proof -
  from w have f: "has_flag ARRAY_INT_KEY_INITIALIZED a' = has_flag ARRAY_INT_KEY_INITIALIZED a"
    by (simp add: wrote_def has_flag_def)
  have "next_ok (iter a') (next_int_key a') (has_flag ARRAY_INT_KEY_INITIALIZED a')"
  proof (cases k)
    case (Key_Int n)
    with nx k [OF this] w f next_ok_int [of "iter a" "next_int_key a" n v] show ?thesis
      by (simp add: wrote_def)
  next
    case (Key_String s)
    with nx w f next_ok_str show ?thesis by (simp add: wrote_def next_after_def)
  qed
  with w show ?thesis by (simp add: array_wf_def wrote_def)
qed

text \<open>The prologue of \<open>set_int\<close> starts the integer sequence.\<close>

lemma prepare_set_int_ok:
  assumes wf: "array_wf a" and key: "in_i64 key" and b_def: "b = prepare_set_int key v a"
  shows "storage b = storage a" "has_flag ARRAY_INT_KEY_INITIALIZED b"
    "next_ok (iter b) (next_int_key b) True"
    "next_int_key b = next_int_key a \<or> (key < 0 \<and> next_int_key a = 0 \<and>
       next_int_key b = saturating_add_i64 key 1 \<and> (\<forall>n. Key_Int n \<notin> fst ` set (iter a)))"
proof -
  have D: "\<not> has_flag ARRAY_INT_KEY_INITIALIZED a \<Longrightarrow> next_int_key a = 0"
    "\<And>n. \<not> has_flag ARRAY_INT_KEY_INITIALIZED a \<Longrightarrow> Key_Int n \<notin> fst ` set (iter a)"
    using array_wfD(6,7) [OF wf] by auto
  have fl: "has_flag ARRAY_INT_KEY_INITIALIZED (reserve_accounted_entries n h a) =
      has_flag ARRAY_INT_KEY_INITIALIZED a" for n h
    by (simp add: has_flag_def)
  have tr: "has_flag ARRAY_INT_KEY_INITIALIZED a \<Longrightarrow>
      has_flag ARRAY_INT_KEY_INITIALIZED (track_nested_release_value v a)" for a
    by (rule track_flag)
  show st: "storage b = storage a"
    by (simp add: b_def prepare_set_int_def Let_def)
  have sn: "has_flag f (set_next k c) = has_flag f c" for f k and c :: parray
    by (simp add: has_flag_def)
  show "has_flag ARRAY_INT_KEY_INITIALIZED b"
    using D(1) tr fl by (auto simp: b_def prepare_set_int_def Let_def sn)
  show nb: "next_int_key b = next_int_key a \<or> (key < 0 \<and> next_int_key a = 0 \<and>
       next_int_key b = saturating_add_i64 key 1 \<and> (\<forall>n. Key_Int n \<notin> fst ` set (iter a)))"
    using D tr fl by (auto simp: b_def prepare_set_int_def Let_def)
  have "next_ok (iter a) (next_int_key a) (has_flag ARRAY_INT_KEY_INITIALIZED a)"
    using wf by (simp add: array_wf_def)
  moreover have "iter b = iter a" by (simp add: iter_def st)
  ultimately show "next_ok (iter b) (next_int_key b) True"
    using nb in_i64_saturating_succ [OF key] by (auto simp: next_ok_def)
qed

lemma set_int_explicit:
  assumes wf: "storage_wf (storage a)" and np: "\<not> is_packed a"
    and nx: "next_ok (iter a) (next_int_key a) True" "has_flag ARRAY_INT_KEY_INITIALIZED a"
    and room: "has_room a" and safe: "set_int_safe a key"
  shows "array_wf (set_int_small key v a)"
    and "iter (set_int_small key v a) = upsert (Key_Int key) v (iter a)"
proof -
  from set_int_small_wrote [OF wf room safe np] have w: "wrote (Key_Int key) v a (set_int_small key v a)" .
  then show "iter (set_int_small key v a) = upsert (Key_Int key) v (iter a)" by (simp add: wrote_def)
  show "array_wf (set_int_small key v a)"
    using array_wf_wrote [OF w] nx safe by (simp add: set_int_safe_def)
qed

lemma set_int_packed_append:
  assumes st: "storage a = Packed vs" and nx: "next_int_key a = int (length vs)"
    and init: "has_flag ARRAY_INT_KEY_INITIALIZED a" and room: "has_room a"
    and b_def: "b = set_storage (Packed (vs @ [v])) (set_next (saturating_add_i64 (int (length vs)) 1) a)"
  shows "array_wf b" "iter b = upsert (Key_Int (int (length vs))) v (iter a)"
proof -
  have len: "Suc (length vs) < 2 ^ 56" using room st by (simp add: has_room_def iter_def)
  then have sat: "saturating_add_i64 (int (length vs)) 1 = int (length vs) + 1"
    by (simp add: saturating_add_i64_def i64_simps)
  have "has_flag ARRAY_INT_KEY_INITIALIZED b" using init by (simp add: b_def has_flag_def)
  then show "array_wf b"
    using len by (auto simp: array_wf_def b_def iter_def is_packed_def array_len_def sat next_ok_def
        key_in_packed_entries i64_simps)
  show "iter b = upsert (Key_Int (int (length vs))) v (iter a)"
    by (simp add: b_def iter_def st upsert_absent find_packed_int packed_entries_append)
qed

lemma set_int_packed_overwrite:
  assumes wf: "array_wf a" and st: "storage a = Packed vs" and k: "nat key < length vs" "0 \<le> key"
  shows "array_wf (set_storage (Packed (vs[nat key := v])) a)"
    "iter (set_storage (Packed (vs[nat key := v])) a) = upsert (Key_Int key) v (iter a)"
proof -
  have "packed_entries (vs[nat key := v]) = (packed_entries vs)[nat key := (Key_Int key, v)]"
    using k by (intro nth_equalityI) (auto simp: nth_list_update)
  then show eq: "iter (set_storage (Packed (vs[nat key := v])) a) = upsert (Key_Int key) v (iter a)"
    using k by (simp add: iter_def st upsert_def find_packed_int)
  show "array_wf (set_storage (Packed (vs[nat key := v])) a)"
    using wf st by (auto simp: array_wf_def iter_def is_packed_def array_len_def next_ok_def
        key_in_packed_entries has_flag_def)
qed

lemma set_int_transition:
  assumes wf: "storage_wf (storage b)" and st: "storage b = Packed vs"
    and nx: "next_ok (iter b) (next_int_key b) True" "has_flag ARRAY_INT_KEY_INITIALIZED b"
    and room: "has_room b" and key: "in_i64 key"
  shows "array_wf (set_int_small key v (transition_to_hash b)) \<and>
    iter (set_int_small key v (transition_to_hash b)) = upsert (Key_Int key) v (iter b)"
proof -
  let ?t = "transition_to_hash b"
  note T = transition_to_hash_ok [OF wf]
  have "next_ok (iter ?t) (next_int_key ?t) True" using nx(1) T(2) by simp
  moreover have "has_flag ARRAY_INT_KEY_INITIALIZED ?t" using nx(2) by (simp add: has_flag_def)
  moreover have "has_room ?t" using room T(2) by (simp add: has_room_def)
  moreover have "set_int_safe ?t key"
    using key st by (auto simp: set_int_safe_def transition_to_hash_def stride_safe_def
        SMALL_HASH_CAPACITY_def)
  ultimately show ?thesis using set_int_explicit [OF T(1,3), of key v] T(2) by simp
qed

lemma set_int_by_storage:
  assumes "b = prepare_set_int key v a"
  shows "storage b = Packed vs \<Longrightarrow> key = next_int_key b \<Longrightarrow> set_int key v a =
      set_storage (Packed (vs @ [v])) (set_next (saturating_add_i64 key 1) b)"
    "storage b = Packed vs \<Longrightarrow> key \<noteq> next_int_key b \<Longrightarrow> 0 \<le> key \<and> nat key < length vs \<Longrightarrow>
      set_int key v a = set_storage (Packed (vs[nat key := v])) b"
    "storage b = Packed vs \<Longrightarrow> key \<noteq> next_int_key b \<Longrightarrow> \<not> (0 \<le> key \<and> nat key < length vs) \<Longrightarrow>
      set_int key v a = set_int_small key v (transition_to_hash b)"
    "storage b = Hash es si ii p \<Longrightarrow> set_int key v a = set_int_indexed key v b"
    "storage b = SmallHash sl \<Longrightarrow> set_int key v a = set_int_small key v b"
    "storage b = LinearHash l \<Longrightarrow> set_int key v a = set_int_small key v b"
  unfolding set_int_def assms [symmetric] Let_def by auto

lemma set_int_packed:
  assumes wf: "array_wf a" and room: "has_room a" and key: "in_i64 key"
    and b: "b = prepare_set_int key v a" and st: "storage b = Packed vs"
  shows "array_wf (set_int key v a) \<and> iter (set_int key v a) = upsert (Key_Int key) v (iter a)"
proof -
  note P = prepare_set_int_ok [OF wf key b] and S = set_int_by_storage [OF b]
  have it: "iter b = iter a" and room': "has_room b"
    using P(1) room by (simp_all add: iter_def has_room_def)
  have wfb: "storage_wf (storage b)" using array_wfD(1) [OF wf] P(1) by simp
  have sa: "storage a = Packed vs" using P(1) st by simp
  then have na: "next_int_key a = int (length vs)"
    using array_wfD(5) [OF wf] by (simp add: is_packed_def array_len_def)
  have kept: "next_int_key b = int (length vs)" if "0 \<le> key" using P(4) na that by auto
  have neg: "key \<noteq> next_int_key b" if "key < 0"
    using P(4) na that saturating_succ_gt [OF key] by (auto simp: i64_simps)
  consider "key = int (length vs)" "next_int_key b = int (length vs)"
    | "key \<noteq> next_int_key b" "0 \<le> key" "nat key < length vs"
    | "key \<noteq> next_int_key b" "\<not> (0 \<le> key \<and> nat key < length vs)"
    using kept neg by force
  then show ?thesis
  proof cases
    case 1
    with set_int_packed_append [OF st 1(2) P(2) room' refl, of v] S(1) [OF st] it show ?thesis by simp
  next
    case 2
    have "array_wf b"
      using P(2,3) wfb kept 2 st by (simp add: array_wf_def is_packed_def array_len_def)
    from set_int_packed_overwrite [OF this st 2(3,2), of v] S(2) [OF st] 2 it show ?thesis by simp
  next
    case 3
    from set_int_transition [OF wfb st P(3,2) room' key, of v] S(3) [OF st 3] it show ?thesis by simp
  qed
qed

lemma set_int_ok:
  assumes wf: "array_wf a" and room: "has_room a" and safe: "set_int_safe a key"
  shows "array_wf (set_int key v a) \<and> iter (set_int key v a) = upsert (Key_Int key) v (iter a)"
proof -
  have key: "in_i64 key" using safe by (simp add: set_int_safe_def)
  obtain b where b: "b = prepare_set_int key v a" by blast
  note P = prepare_set_int_ok [OF wf key b] and S = set_int_by_storage [OF b]
  have it: "iter b = iter a" and room': "has_room b" and safe': "set_int_safe b key"
    using P(1) room safe by (simp_all add: iter_def has_room_def set_int_safe_def)
  have wfb: "storage_wf (storage b)" using array_wfD(1) [OF wf] P(1) by simp
  show ?thesis
  proof (cases "storage b")
    case (Packed vs)
    then show ?thesis by (rule set_int_packed [OF wf room key b])
  next
    case (Hash es si ii p)
    with wfb safe' room' key have "wrote (Key_Int key) v b (set_int_indexed key v b)"
      by (intro set_int_indexed_wrote) (auto simp: set_int_safe_def)
    with array_wf_wrote [OF this] P(2,3) key it S(4) [OF Hash] show ?thesis
      by (simp add: wrote_def)
  next
    case (SmallHash sl)
    then have "\<not> is_packed b" by (simp add: is_packed_def)
    from set_int_explicit [OF wfb this P(3,2) room' safe'] it S(5) [OF SmallHash] show ?thesis by simp
  next
    case (LinearHash l)
    then have "\<not> is_packed b" by (simp add: is_packed_def)
    from set_int_explicit [OF wfb this P(3,2) room' safe'] it S(6) [OF LinearHash] show ?thesis by simp
  qed
qed

subsection \<open>String keys\<close>

lemma hash_wf_append_str:
  assumes wf: "hash_wf es si ii p" and f: "find_key (Key_String s) es = None"
    and room: "Suc (length es) < 2 ^ 56"
  shows "hash_wf (es @ [(Key_String s, v)]) (AList.update s (length es) si) ii p"
proof -
  let ?es = "upsert (Key_String s) v es"
  have es: "?es = es @ [(Key_String s, v)]" using f by (rule upsert_absent)
  have "keys_ok ?es" by (rule keys_ok_upsert [OF hash_wfD(1) [OF wf] room]) simp
  moreover have "str_index_ok ?es (AList.update s (length es) si)"
    using hash_wfD(2) [OF wf] f
    by (auto simp: str_index_ok_def linear_find find_key_upsert)
  moreover have "int_index_ok ?es ii" if "p = 0"
    using hash_wfD(3) [OF wf that] by (simp add: int_index_ok_def linear_find find_key_upsert)
  moreover have "int_prefix ?es p \<and> list_all (\<lambda>e. is_string_key (fst e)) (drop p ?es)" if "p \<noteq> 0"
  proof -
    from hash_wfD(5) [OF wf that] have p: "int_prefix es p" .
    then have "p \<le> length es" by (simp add: int_prefix_def)
    with p have "int_prefix (es @ [(Key_String s, v)]) p"
      by (auto simp: int_prefix_def nth_append)
    with \<open>p \<le> length es\<close> hash_wfD(6) [OF wf that] show ?thesis by (simp add: es)
  qed
  ultimately show ?thesis using hash_wfD(4) [OF wf] by (simp add: hash_wf_def es)
qed

lemma set_str_indexed_wrote:
  assumes st: "storage a = Hash es si ii p" and wf: "hash_wf es si ii p" and room: "has_room a"
  shows "wrote (Key_String key) v a (set_str_indexed key v a)"
proof -
  have idx: "map_of si key = find_key (Key_String key) es"
    using hash_wfD(2) [OF wf] by (simp add: str_index_ok_def linear_find)
  have len: "Suc (length es) < 2 ^ 56" using room st by (simp add: has_room_def iter_def)
  show ?thesis
  proof (cases "find_key (Key_String key) es")
    case None
    with hash_wf_append_str [OF wf None len] st idx show ?thesis
      by (simp add: set_str_indexed_def wrote_def iter_def is_packed_def next_after_def upsert_absent)
  next
    case (Some i)
    with hash_wf_overwrite [OF wf upsert_overwrite_keys [OF Some]] st idx show ?thesis
      by (simp add: set_str_indexed_def wrote_def iter_def is_packed_def next_after_def
          set_entry_value_upsert)
  qed
qed

lemma set_str_linear_wrote:
  assumes wf: "storage_wf (storage a)" and room: "has_room a"
    and st: "(\<exists>l. storage a = LinearHash l) \<or> (\<exists>es si ii p. storage a = Hash es si ii p)"
  shows "wrote (Key_String key) v a (set_str_linear key v a)"
proof (cases "\<exists>l. storage a = LinearHash l")
  case True
  then obtain l where l: "storage a = LinearHash l" by blast
  with wf have lwf: "linear_wf l" by simp
  have find: "linear_find_str_for_update l key = find_key (Key_String key) (lin_entries l)"
    using linear_find_str_for_update_ok [OF lwf] by (simp add: linear_find)
  show ?thesis
  proof (cases "find_key (Key_String key) (lin_entries l)")
    case (Some i)
    with l find linear_overwrite_wf [OF lwf Some, of v] show ?thesis
      by (simp add: set_str_linear_def wrote_def iter_def is_packed_def next_after_def
          set_entry_value_upsert)
  next
    case None
    show ?thesis
    proof (cases "length (lin_entries l) < LINEAR_HASH_CAPACITY")
      case True
      with l None find linear_append_wf [OF lwf None True, of v] show ?thesis
        by (simp add: set_str_linear_def wrote_def iter_def is_packed_def next_after_def
            upsert_absent)
    next
      case False
      from promote_linear_hash_ok [OF l lwf] obtain si ii p where
        pr: "storage (promote_linear_hash a) = Hash (lin_entries l) si ii p"
        "hash_wf (lin_entries l) si ii p" by blast
      with room l have "wrote (Key_String key) v (promote_linear_hash a)
          (set_str_indexed key v (promote_linear_hash a))"
        by (intro set_str_indexed_wrote) (auto simp: has_room_def iter_def)
      with l None find False pr show ?thesis
        by (simp add: set_str_linear_def wrote_def iter_def)
    qed
  qed
next
  case False
  with st obtain es si ii p where h: "storage a = Hash es si ii p" by blast
  with wf room show ?thesis
    using set_str_indexed_wrote [OF h, of key v]
    by (simp add: set_str_linear_def promote_linear_hash_other)
qed

lemma set_str_small_wrote:
  assumes wf: "storage_wf (storage a)" and room: "has_room a" and st: "\<not> is_packed a"
  shows "wrote (Key_String key) v a (set_str_small key v a)"
proof (cases "\<exists>slots. storage a = SmallHash slots")
  case True
  with wf obtain es where es: "storage a = SmallHash (small_slots es)" "length es \<le> 3" "keys_ok es"
    by auto
  show ?thesis
  proof (cases "find_key (Key_String key) es")
    case (Some i)
    with small_overwrite_wrote [OF es Some] es show ?thesis
      by (simp add: set_str_small_def linear_find)
  next
    case None
    have sn: "set_next (next_int_key a) (set_storage s a) = set_storage s a" for s
      by (cases a) (simp add: set_next_def set_storage_def)
    show ?thesis
    proof (cases "length es < 3")
      case True
      from small_append_wrote [OF es(1) True es(3) None _ refl] es None True show ?thesis
        by (simp add: set_str_small_def linear_find SMALL_HASH_CAPACITY_def next_after_def sn)
    next
      case False
      from promote_small_hash_ok [OF es] obtain si ii p where
        pr: "storage (promote_small_hash a) = Hash es si ii p" "hash_wf es si ii p" by blast
      with room es have "wrote (Key_String key) v (promote_small_hash a)
          (set_str_linear key v (promote_small_hash a))"
        by (intro set_str_linear_wrote) (auto simp: has_room_def iter_def
            simp del: storage_entries.simps(2))
      then have "wrote (Key_String key) v a (set_str_linear key v (promote_small_hash a))"
        by (rule wrote_via) (use es pr in \<open>simp_all add: iter_def del: storage_entries.simps(2)\<close>)
      with es None False show ?thesis
        by (simp add: set_str_small_def linear_find SMALL_HASH_CAPACITY_def)
    qed
  qed
next
  case False
  then have "promote_small_hash a = a" by (simp add: promote_small_hash_other)
  moreover have "(\<exists>l. storage a = LinearHash l) \<or> (\<exists>es si ii p. storage a = Hash es si ii p)"
    using st False by (cases "storage a") (auto simp: is_packed_def)
  ultimately show ?thesis
    using set_str_linear_wrote [OF wf room] False
    by (auto simp: set_str_small_def split: array_storage.splits)
qed

lemma set_str_ok:
  assumes wf: "array_wf a" and room: "has_room a"
  shows "array_wf (set_str key v a) \<and> iter (set_str key v a) = upsert (Key_String key) v (iter a)"
proof -
  obtain r found where g: "get_str a key = (r, found)" by fastforce
  note G = get_str_lookup [OF wf, of key, unfolded g fst_conv snd_conv]
  obtain c where c: "c = track_nested_release_value v (if found = None
      then reserve_accounted_entries (saturating_add_usize (array_len r) 1) True r else r)" by blast
  have cw: "array_wf c" "iter c = iter a" "next_int_key c = next_int_key a"
    using G by (simp_all add: c)
  obtain d where d: "d = (case storage c of Packed _ \<Rightarrow> transition_to_hash c | _ \<Rightarrow> c)" by blast
  have cur: "cursor d = cursor c" "next_int_key d = next_int_key c"
    by (simp_all add: d split: array_storage.splits)
  have D: "storage_wf (storage d)" "iter d = iter c" "\<not> is_packed d"
    using transition_to_hash_ok [OF array_wfD(1) [OF cw(1)]] array_wfD(1) [OF cw(1)]
    by (auto simp: d is_packed_def split: array_storage.splits)
  have "has_room d" using room cw(2) D(2) by (simp add: has_room_def)
  from set_str_small_wrote [OF D(1) this D(3)]
  have w: "wrote (Key_String key) v d (set_str_small key v d)" .
  have "next_ok (iter d) (next_int_key d) (has_flag ARRAY_INT_KEY_INITIALIZED d)"
    using cw(1) D(2) cur by (simp add: array_wf_def has_flag_def)
  from array_wf_wrote [OF w this] have "array_wf (set_str_small key v d)" by simp
  moreover have "set_str key v a = set_str_small key v d"
    unfolding set_str_def g Let_def prod.case c [symmetric] d [symmetric] ..
  ultimately show ?thesis using w D(2) cw(2) by (simp add: wrote_def)
qed

end
