(* ===== verification/Php_Array_Append.thy ===== *)
theory Php_Array_Append
  imports Php_Array_Refine
begin

text \<open>
  Appending: \<open>try_push\<close> places its value behind every entry under \<open>next_int_key\<close> and fails,
  leaving the array alone, exactly when that key is exhausted; \<open>push_packed_long_chunk\<close>
  appends a block of longs to packed storage.
\<close>

lemma can_push_fresh:
  assumes "array_wf a" "can_push a"
  shows "find_key (Key_Int (next_int_key a)) (iter a) = None"
proof -
  have "next_int_key a = i64_MAX" if "Key_Int (next_int_key a) \<in> fst ` set (iter a)"
    using array_wfD(4) [OF assms(1) that] by simp
  with assms(2) show ?thesis
    unfolding can_push_def get_int_lookup [OF assms(1)] lookup_key_def find_key_None
    by (metis find_key_None option.map_disc_iff)
qed

lemma cannot_push_present:
  assumes "array_wf a" "\<not> can_push a"
  shows "next_int_key a = i64_MAX" "Key_Int i64_MAX \<in> fst ` set (iter a)"
  using assms by (auto simp: can_push_def get_int_lookup lookup_key_def find_key_None)

text \<open>What the last step of an append to explicit-key storage achieves.\<close>

definition pushed :: "int \<Rightarrow> php_value \<Rightarrow> parray \<Rightarrow> parray \<Rightarrow> bool" where
  "pushed key v a a' \<longleftrightarrow> iter a' = iter a @ [(Key_Int key, v)] \<and> storage_wf (storage a') \<and>
     \<not> is_packed a' \<and> cursor a' = cursor a \<and> next_int_key a' = next_int_key a"

lemma push_explicit_indexed:
  assumes st: "storage a = Hash es si ii p" and wf: "hash_wf es si ii p" and room: "has_room a"
    and fresh: "find_key (Key_Int key) es = None" and key: "in_i64 key"
    and safe: "stride_safe es ii p key" and nxt: "next_int_key a = saturating_add_i64 key 1"
  shows "pushed key v a (push_explicit key v a)"
proof -
  have "wrote (Key_Int key) v a (set_int_indexed key v a)"
    by (rule set_int_indexed_wrote [OF st wf room key safe])
  moreover have "push_explicit key v a = set_int_indexed key v a"
    using st by (simp add: push_explicit_def set_int_indexed_def)
  moreover have "bump_next key (saturating_add_i64 key 1) = saturating_add_i64 key 1"
    by (simp add: bump_next_def)
  ultimately show ?thesis
    using st fresh nxt by (simp add: wrote_def pushed_def iter_def next_after_def upsert_absent)
qed

lemma push_explicit_linear:
  assumes st: "storage a = LinearHash l" and wf: "linear_wf l"
    and len: "length (lin_entries l) < LINEAR_HASH_CAPACITY"
    and fresh: "find_key (Key_Int key) (lin_entries l) = None" and key: "in_i64 key"
  shows "pushed key v a (push_explicit key v a)"
  using linear_append_wf [OF wf fresh len, of v] st key
  by (simp add: push_explicit_def pushed_def iter_def is_packed_def)

lemma push_explicit_small:
  assumes st: "storage a = SmallHash (small_slots es)" and len: "length es < 3"
    and keys: "keys_ok es" and fresh: "find_key (Key_Int key) es = None" and key: "in_i64 key"
  shows "pushed key v a (push_explicit key v a)"
proof -
  have "keys_ok (es @ [(Key_Int key, v)])" using keys_ok_snoc [OF keys fresh] key len by simp
  with assms show ?thesis
    by (auto simp: push_explicit_def pushed_def iter_def is_packed_def
        simp del: storage_entries.simps(2) intro!: exI [of _ "es @ [(Key_Int key, v)]"])
qed

lemma pushed_via:
  "pushed key v b a' \<Longrightarrow> iter b = iter a \<Longrightarrow> cursor b = cursor a \<Longrightarrow>
     next_int_key b = next_int_key a \<Longrightarrow> pushed key v a a'"
  by (simp add: pushed_def)

lemma array_wf_pushed:
  assumes "pushed key v a a'" "has_flag ARRAY_INT_KEY_INITIALIZED a" "in_i64 key"
    "next_int_key a = saturating_add_i64 key 1"
    "\<And>n. Key_Int n \<in> fst ` set (iter a) \<Longrightarrow> n < key \<or> n = i64_MAX"
  shows "array_wf a'"
proof -
  have "has_flag ARRAY_INT_KEY_INITIALIZED a'" using assms(1,2) by (simp add: pushed_def has_flag_def)
  moreover have "n < saturating_add_i64 key 1 \<or> n = i64_MAX"
    if "n = key \<or> n < key \<or> n = i64_MAX" for n
    using that saturating_succ_gt [OF assms(3)] saturating_succ_le [of key] assms(3)
    by (auto simp: in_i64_def)
  ultimately have "next_ok (iter a') (next_int_key a') (has_flag ARRAY_INT_KEY_INITIALIZED a')"
    using assms(1,4,5) in_i64_saturating_succ [OF assms(3)]
    by (auto simp: next_ok_def pushed_def image_iff)
  with assms(1) show ?thesis by (simp add: array_wf_def pushed_def)
qed

lemma try_push_steps:
  "try_push v a = (if can_push a then (push_prepared (next_int_key a) v (prepare_push v a), True)
                   else (a, False))"
  by (simp add: try_push_def)

lemma prepare_push_ok:
  assumes wf: "array_wf a"
  shows "storage (prepare_push v a) = storage a"
    "next_int_key (prepare_push v a) = saturating_add_i64 (next_int_key a) 1"
    "has_flag ARRAY_INT_KEY_INITIALIZED (prepare_push v a)"
proof -
  show "storage (prepare_push v a) = storage a"
    "next_int_key (prepare_push v a) = saturating_add_i64 (next_int_key a) 1"
    by (simp_all add: prepare_push_def Let_def)
  have sn: "has_flag f (set_next k c) = has_flag f c" for f k and c :: parray
    by (simp add: has_flag_def)
  have "has_flag ARRAY_INT_KEY_INITIALIZED (reserve_accounted_entries n h a) =
      has_flag ARRAY_INT_KEY_INITIALIZED a" for n h
    by (simp add: has_flag_def)
  then have "has_flag ARRAY_INT_KEY_INITIALIZED a \<Longrightarrow>
      has_flag ARRAY_INT_KEY_INITIALIZED (track_nested_release_value v (reserve_accounted_entries n h a))"
    for n h by (simp add: track_flag)
  with array_wfD(6) [OF wf] show "has_flag ARRAY_INT_KEY_INITIALIZED (prepare_push v a)"
    by (auto simp: prepare_push_def Let_def sn)
qed

lemma push_prepared_pushed:
  assumes wf: "storage_wf (storage b)" and np: "\<not> is_packed b" and room: "has_room b"
    and fresh: "find_key (Key_Int key) (iter b) = None" and safe: "set_int_safe b key"
    and nxt: "next_int_key b = saturating_add_i64 key 1"
  shows "pushed key v b (push_prepared key v b)"
proof -
  have key: "in_i64 key" using safe by (simp add: set_int_safe_def)
  have indexed: "pushed key v b (push_explicit key v c)"
    if "storage c = Hash es si ii p" "hash_wf es si ii p" "es = iter b" "stride_safe es ii p key"
      "cursor c = cursor b" "next_int_key c = next_int_key b" for c es si ii p
  proof -
    have "has_room c" using room that(1,3) by (simp add: has_room_def iter_def)
    have "pushed key v c (push_explicit key v c)"
      by (rule push_explicit_indexed [OF that(1,2) \<open>has_room c\<close> _ key that(4)])
        (simp_all add: that(3,6) fresh nxt)
    then show ?thesis by (rule pushed_via) (simp_all add: iter_def [of c] that)
  qed
  show ?thesis
  proof (cases "storage b")
    case (Hash es si ii p)
    have "pushed key v b (push_explicit key v b)"
      by (rule indexed [OF Hash]) (use Hash wf safe in \<open>simp_all add: iter_def set_int_safe_def\<close>)
    with Hash show ?thesis by (simp add: push_prepared_def)
  next
    case (LinearHash l)
    with wf have lwf: "linear_wf l" by simp
    from promote_linear_hash_ok [OF LinearHash lwf] obtain si ii p where
      pr: "storage (promote_linear_hash b) = Hash (lin_entries l) si ii p"
      "hash_wf (lin_entries l) si ii p" by blast
    have "stride_safe (lin_entries l) ii p key" if "length (lin_entries l) = LINEAR_HASH_CAPACITY"
      using that by (simp add: stride_safe_def LINEAR_HASH_CAPACITY_def)
    note big = indexed [OF pr _ this]
    show ?thesis
    proof (cases "length (lin_entries l) = LINEAR_HASH_CAPACITY")
      case True
      with big LinearHash show ?thesis by (simp add: push_prepared_def iter_def)
    next
      case False
      with push_explicit_linear [OF LinearHash lwf _ _ key, of v] fresh LinearHash lwf show ?thesis
        by (simp add: push_prepared_def iter_def linear_wf_def)
    qed
  next
    case (SmallHash slots)
    with wf obtain es where es: "storage b = SmallHash (small_slots es)" "length es \<le> 3" "keys_ok es"
      by auto
    have it: "iter b = es" using es by (simp add: iter_def del: storage_entries.simps(2))
    from promote_small_hash_ok [OF es] obtain si ii p where
      pr: "storage (promote_small_hash b) = Hash es si ii p" "hash_wf es si ii p" by blast
    have "stride_safe es ii p key" if "length es = 3"
      using that by (simp add: stride_safe_def)
    note big = indexed [OF pr _ this]
    show ?thesis
    proof (cases "length es = 3")
      case True
      with big es it show ?thesis by (simp add: push_prepared_def SMALL_HASH_CAPACITY_def)
    next
      case False
      with push_explicit_small [OF es(1) _ es(3) _ key, of v] fresh es it show ?thesis
        by (simp add: push_prepared_def SMALL_HASH_CAPACITY_def)
    qed
  qed (use np in \<open>simp add: is_packed_def\<close>)
qed

lemma push_packed:
  assumes wf: "array_wf a" and st: "storage a = Packed vs" and room: "has_room a" and can: "can_push a"
  shows "array_wf (push v a)" "iter (push v a) = iter a @ [(Key_Int (next_int_key a), v)]"
proof -
  define b where "b = set_next (next_int_key a) (prepare_push v a)"
  note P = prepare_push_ok [OF wf, of v]
  have k: "next_int_key a = int (length vs)"
    using array_wfD(5) [OF wf] st by (simp add: is_packed_def array_len_def)
  have b: "storage b = Packed vs" "next_int_key b = int (length vs)" "iter b = iter a"
    "has_flag ARRAY_INT_KEY_INITIALIZED b" "has_room b"
    using P st k room by (simp_all add: b_def has_flag_def has_room_def iter_def)
  have "push v a = set_storage (Packed (vs @ [v])) (set_next (saturating_add_i64 (int (length vs)) 1) b)"
    using can P st k
    by (simp add: push_def try_push_steps push_prepared_def b_def set_next_def set_storage_def)
  from set_int_packed_append [OF b(1,2,4,5) this] can_push_fresh [OF wf can] b(3) k
  show "array_wf (push v a)" "iter (push v a) = iter a @ [(Key_Int (next_int_key a), v)]"
    by (simp_all add: upsert_absent)
qed

lemma push_ok:
  assumes wf: "array_wf a" and room: "has_room a" and safe: "set_int_safe a (next_int_key a)"
    and can: "can_push a"
  shows "array_wf (push v a)" "iter (push v a) = iter a @ [(Key_Int (next_int_key a), v)]"
proof -
  have "array_wf (push v a) \<and> iter (push v a) = iter a @ [(Key_Int (next_int_key a), v)]"
  proof (cases "is_packed a")
    case True
    then obtain vs where "storage a = Packed vs" by (auto simp: is_packed_def split: array_storage.splits)
    from push_packed [OF wf this room can] show ?thesis by simp
  next
    case False
    define b where "b = prepare_push v a"
    note P = prepare_push_ok [OF wf, of v, folded b_def]
    have b: "iter b = iter a" "storage_wf (storage b)" "\<not> is_packed b" "has_room b"
        "set_int_safe b (next_int_key a)"
      using P(1) False room safe array_wfD(1) [OF wf]
      by (simp_all add: iter_def is_packed_def has_room_def set_int_safe_def)
    have "find_key (Key_Int (next_int_key a)) (iter b) = None"
      using can_push_fresh [OF wf can] b(1) by simp
    from push_prepared_pushed [OF b(2-4) this b(5) P(2)]
    have p: "pushed (next_int_key a) v b (push_prepared (next_int_key a) v b)" .
    have "array_wf (push_prepared (next_int_key a) v b)"
      using array_wf_pushed [OF p P(3) _ P(2)] array_wfD(3,4) [OF wf] b(1) by simp
    moreover have "push v a = push_prepared (next_int_key a) v b"
      using can by (simp add: push_def try_push_steps b_def)
    ultimately show ?thesis using p b(1) by (simp add: pushed_def)
  qed
  then show "array_wf (push v a)" "iter (push v a) = iter a @ [(Key_Int (next_int_key a), v)]"
    by simp_all
qed

lemma try_push_full: "\<not> can_push a \<Longrightarrow> try_push v a = (a, False)"
  by (simp add: try_push_def)

lemma try_push_result: "try_push v a = (push v a, can_push a)"
  by (simp add: push_def try_push_steps)

text \<open>
  A block of longs: the same entries as pushing them one by one. The marker of the integer
  sequence is not set, so the invariant holds when it was set before.
\<close>

lemma packed_entries_append_list:
  "packed_entries (vs @ ws) =
     packed_entries vs @ map (\<lambda>(i, v). (Key_Int (int i), v)) (List.enumerate (length vs) ws)"
  by (simp add: packed_entries_def enumerate_append_eq)

lemma push_packed_long_chunk_ok:
  assumes wf: "array_wf a" and st: "storage a = Packed vs" and room: "length vs + length longs < 2 ^ 56"
  defines "r \<equiv> push_packed_long_chunk longs a"
  shows "snd r" "iter (fst r) = packed_entries (vs @ map VLong longs)"
    "next_int_key (fst r) = int (length vs + length longs)"
    "has_flag ARRAY_INT_KEY_INITIALIZED a \<or> longs = [] \<Longrightarrow> array_wf (fst r)"
proof -
  have k: "next_int_key a = int (length vs)"
    using array_wfD(5) [OF wf] st by (simp add: is_packed_def array_len_def)
  have i64: "i64_try_from (length vs) = Some (int (length vs))"
    "i64_try_from (length longs) = Some (int (length longs))"
    "checked_add (int (length vs)) (int (length longs)) = Some (int (length vs) + int (length longs))"
    using room by (auto simp: i64_try_from_def i64_simps)
  have r: "r = (set_next (int (length vs) + int (length longs))
      (set_storage (Packed (vs @ map VLong longs)) (grow_to (storage_bytes
        (case checked_next_power_of_two
           (max (saturating_add_usize (length vs) (length longs)) 4) of
           Some c \<Rightarrow> c | None \<Rightarrow> usize_MAX) False) a)), True)"
    unfolding r_def push_packed_long_chunk_def st array_storage.case k i64
    by (simp add: Let_def i64 option.case_eq_if)
  show "snd r" "iter (fst r) = packed_entries (vs @ map VLong longs)"
    "next_int_key (fst r) = int (length vs + length longs)"
    by (simp_all add: r)
  assume init: "has_flag ARRAY_INT_KEY_INITIALIZED a \<or> longs = []"
  show "array_wf (fst r)"
    using room init wf
    by (auto simp: r array_wf_def next_ok_def is_packed_def array_len_def has_flag_def
        key_in_packed_entries i64_simps iter_def st)
qed

end
