(* ===== verification/Php_Array_Pointer.thy ===== *)
theory Php_Array_Pointer
  imports Php_Array_Refine
begin

text \<open>
  The internal array pointer shares its word with eight metadata flags: the position is the low
  56 bits. Moving the pointer keeps every flag, setting a flag keeps the position, and the
  cursor operations walk the entries in the order of iteration.
\<close>

subsection \<open>The packed word\<close>

lemma metadata_mask: "ARRAY_CURSOR_METADATA = NOT (mask 56)"
proof -
  have "ARRAY_CURSOR_METADATA = 0xFF00000000000000"
    by (simp add: ARRAY_CURSOR_METADATA_def ARRAY_CURSOR_PRISTINE_def ARRAY_INT_KEY_INITIALIZED_def
        ARRAY_EXTERNAL_BYTE_KEYS_def ARRAY_UTF8_TEXT_KEYS_def
        ARRAY_DEFERRED_OBJECT_HANDLES_PUBLISHED_def ARRAY_NESTED_RELEASE_CANDIDATE_def
        ARRAY_DEEP_DROP_STACK_CHECKPOINT_def ARRAY_REFERENCE_FOREACH_def push_bit_eq_mult)
  moreover have "NOT (mask 56 :: 64 word) = 0xFF00000000000000"
    by (simp add: mask_eq_exp_minus_1)
  ultimately show ?thesis by simp
qed

lemma pointer_position_mask: "pointer_position a = unat (take_bit 56 (cursor a))"
  by (simp add: pointer_position_def metadata_mask take_bit_eq_mask)

lemma pointer_bound: "pointer_position a < 2 ^ 56"
  unfolding pointer_position_mask unsigned_take_bit_eq by (rule take_bit_nat_less_exp)

lemma of_nat_low: "pos < 2 ^ 56 \<Longrightarrow> take_bit 56 (of_nat pos :: 64 word) = of_nat pos"
  by (simp add: take_bit_of_nat take_bit_nat_eq_self)

lemma pointer_set_pointer [simp]:
  assumes "pos < 2 ^ 56" shows "pointer_position (set_pointer pos a) = pos"
proof -
  have "take_bit 56 ((cursor a AND NOT (mask 56)) OR of_nat pos) = (of_nat pos :: 64 word)"
    using of_nat_low [OF assms] by (simp add: take_bit_eq_mask and.assoc bit.conj_disj_distrib2)
  moreover have "unat (of_nat pos :: 64 word) = pos"
    using assms by (simp add: unat_of_nat take_bit_nat_eq_self)
  ultimately show ?thesis
    by (simp add: pointer_position_mask set_pointer_def metadata_mask)
qed

definition metadata_flag :: "64 word \<Rightarrow> bool" where
  "metadata_flag f \<longleftrightarrow> f AND mask 56 = 0"

lemma metadata_flags [simp]:
  "metadata_flag ARRAY_CURSOR_PRISTINE" "metadata_flag ARRAY_INT_KEY_INITIALIZED"
  "metadata_flag ARRAY_EXTERNAL_BYTE_KEYS" "metadata_flag ARRAY_UTF8_TEXT_KEYS"
  "metadata_flag ARRAY_DEFERRED_OBJECT_HANDLES_PUBLISHED"
  "metadata_flag ARRAY_NESTED_RELEASE_CANDIDATE" "metadata_flag ARRAY_DEEP_DROP_STACK_CHECKPOINT"
  "metadata_flag ARRAY_REFERENCE_FOREACH"
  by (simp_all add: metadata_flag_def ARRAY_CURSOR_PRISTINE_def ARRAY_INT_KEY_INITIALIZED_def
      ARRAY_EXTERNAL_BYTE_KEYS_def ARRAY_UTF8_TEXT_KEYS_def
      ARRAY_DEFERRED_OBJECT_HANDLES_PUBLISHED_def ARRAY_NESTED_RELEASE_CANDIDATE_def
      ARRAY_DEEP_DROP_STACK_CHECKPOINT_def ARRAY_REFERENCE_FOREACH_def push_bit_eq_mult
      mask_eq_exp_minus_1)

lemma flag_and_low:
  assumes "metadata_flag f" "pos < 2 ^ 56" shows "of_nat pos AND f = 0"
proof -
  have "of_nat pos AND f = of_nat pos AND (mask 56 AND f)"
    using of_nat_low [OF assms(2)] by (metis and.assoc take_bit_eq_mask)
  with assms(1) show ?thesis by (simp add: metadata_flag_def and.commute)
qed

lemma flag_and_metadata:
  assumes "metadata_flag f" shows "(c AND NOT (mask 56)) AND f = c AND f"
proof (rule bit_eqI)
  fix n
  have "\<not> bit (f AND mask 56) n" using assms by (simp add: metadata_flag_def)
  then show "bit ((c AND NOT (mask 56)) AND f) n = bit (c AND f) n"
    by (auto simp: bit_and_iff bit_not_iff possible_bit_def bit_mask_iff dest: bit_imp_le_length)
qed

lemma flag_set_pointer [simp]:
  assumes "metadata_flag f" "pos < 2 ^ 56" shows "has_flag f (set_pointer pos a) = has_flag f a"
  using flag_and_low [OF assms] flag_and_metadata [OF assms(1), of "cursor a"]
  by (simp add: has_flag_def set_pointer_def metadata_mask bit.conj_disj_distrib2)

lemma pointer_mark [simp]: "metadata_flag f \<Longrightarrow> pointer_position (mark_flag f a) = pointer_position a"
  by (simp add: pointer_position_mask mark_flag_def take_bit_eq_mask bit.conj_disj_distrib2
      metadata_flag_def)

lemma set_pointer_frame [simp]:
  "storage (set_pointer n a) = storage a" "next_int_key (set_pointer n a) = next_int_key a"
  "iter (set_pointer n a) = iter a" "array_len (set_pointer n a) = array_len a"
  by (simp_all add: set_pointer_def array_len_def)

lemma array_wf_set_pointer [simp]:
  "array_wf a \<Longrightarrow> n < 2 ^ 56 \<Longrightarrow> array_wf (set_pointer n a)"
  by (erule array_wf_frame) simp_all

subsection \<open>Cursor operations\<close>

lemma pointer_rewind [simp]: "pointer_position (cursor_rewind a) = 0"
  by (simp add: pointer_position_def cursor_rewind_def and.assoc)

lemma flag_rewind: "metadata_flag f \<Longrightarrow> has_flag f (cursor_rewind a) = has_flag f a"
  by (simp add: has_flag_def cursor_rewind_def metadata_mask flag_and_metadata)

lemma vec_get_take_slots:
  assumes "length es \<le> 3"
  shows "Option.bind (vec_get (take (length es) (small_slots es)) pos) id = vec_get es pos"
  using assms by (simp add: take_small_slots vec_get_def)

text \<open>The entry under the pointer, on every storage tier.\<close>

lemma cursor_current_iter:
  assumes "array_wf a"
  shows "cursor_current a = map_option snd (vec_get (iter a) (pointer_position a))"
proof (cases "storage a")
  case (Packed vs)
  then show ?thesis by (simp add: cursor_current_def iter_def vec_get_def Let_def)
next
  case (SmallHash slots)
  with array_wfD(1) [OF assms] obtain es where "length es \<le> 3" "slots = small_slots es" by auto
  with SmallHash show ?thesis
    by (simp add: cursor_current_def iter_def vec_get_take_slots Let_def del: storage_entries.simps(2))
qed (simp_all add: cursor_current_def iter_def Let_def)

lemma cursor_key_iter:
  assumes "array_wf a"
  shows "cursor_key a = map_option fst (vec_get (iter a) (pointer_position a))"
proof (cases "storage a")
  case (Packed vs)
  then show ?thesis by (simp add: cursor_key_def iter_def vec_get_def Let_def)
next
  case (SmallHash slots)
  with array_wfD(1) [OF assms] obtain es where "length es \<le> 3" "slots = small_slots es" by auto
  with SmallHash show ?thesis
    by (simp add: cursor_key_def iter_def vec_get_take_slots Let_def del: storage_entries.simps(2))
qed (simp_all add: cursor_key_def iter_def Let_def)

lemma len_bound: "array_wf a \<Longrightarrow> array_len a < 2 ^ 56"
  using array_len_iter [of a] array_wfD(1,2) [of a] keys_okD(3) [of "iter a"] by simp

lemma saturating_pointer:
  "pointer_position a < array_len a \<Longrightarrow> array_wf a \<Longrightarrow>
     saturating_add_usize (pointer_position a) 1 = Suc (pointer_position a)"
  using len_bound [of a] by (simp add: saturating_add_usize_def usize_MAX_def)

lemma cursor_next_step:
  assumes wf: "array_wf a" and pos: "pointer_position a < array_len a"
  shows "pointer_position (fst (cursor_next a)) = Suc (pointer_position a)"
    "snd (cursor_next a) = map_option snd (vec_get (iter a) (Suc (pointer_position a)))"
    "array_wf (fst (cursor_next a))" "iter (fst (cursor_next a)) = iter a"
proof -
  have lt: "Suc (pointer_position a) < 2 ^ 56" using pos len_bound [OF wf] by simp
  have sat: "cursor_next a = (let a = set_pointer (Suc (pointer_position a)) a in (a, cursor_current a))"
    by (simp add: cursor_next_def saturating_pointer [OF pos wf, simplified])
  show "pointer_position (fst (cursor_next a)) = Suc (pointer_position a)"
    "iter (fst (cursor_next a)) = iter a" "array_wf (fst (cursor_next a))"
    using lt wf by (simp_all add: sat Let_def)
  show "snd (cursor_next a) = map_option snd (vec_get (iter a) (Suc (pointer_position a)))"
    using lt cursor_current_iter [OF array_wf_set_pointer [OF wf lt]]
    by (simp add: sat Let_def)
qed

text \<open>Walking: \<open>reset\<close> and then \<open>next\<close> until the end yields every value in order.\<close>

fun walk :: "nat \<Rightarrow> 'v php_array \<Rightarrow> 'v option \<Rightarrow> 'v list" where
  "walk 0 a current = []"
| "walk (Suc fuel) a None = []"
| "walk (Suc fuel) a (Some v) = v # (let (a, current) = cursor_next a in walk fuel a current)"

lemma walk_suffix:
  assumes "array_wf a" "pointer_position a \<le> array_len a" "array_len a - pointer_position a < fuel"
  shows "walk fuel a (map_option snd (vec_get (iter a) (pointer_position a))) =
           map snd (drop (pointer_position a) (iter a))"
  using assms
proof (induction fuel arbitrary: a)
  case (Suc fuel)
  have len: "array_len a = length (iter a)" by (rule array_len_iter [OF array_wfD(1) [OF Suc.prems(1)]])
  show ?case
  proof (cases "pointer_position a < array_len a")
    case False
    with Suc.prems(2) len show ?thesis by (simp add: vec_get_def)
  next
    case True
    note N = cursor_next_step [OF Suc.prems(1) True]
    have "array_len (fst (cursor_next a)) = array_len a"
      using N(3,4) len array_len_iter [OF array_wfD(1) [OF N(3)]] by simp
    from Suc.IH [OF N(3), unfolded N(1,4) this] Suc.prems(3) True N(2) len show ?thesis
      by (cases "cursor_next a") (simp add: vec_get_def Cons_nth_drop_Suc [symmetric])
  qed
qed simp

lemma cursor_reset_walk:
  assumes wf: "array_wf a"
  shows "(let (b, v) = cursor_reset a in walk (Suc (array_len a)) b v) = map snd (iter a)"
proof -
  let ?b = "cursor_rewind a"
  have st: "storage ?b = storage a" "next_int_key ?b = next_int_key a"
    by (simp_all add: cursor_rewind_def)
  have b: "array_wf ?b" by (rule array_wf_frame [OF wf st]) (simp add: flag_rewind)
  have "iter ?b = iter a" "array_len ?b = array_len a" using st by (simp_all add: iter_def array_len_def)
  with walk_suffix [OF b, of "Suc (array_len a)"] show ?thesis by (simp add: cursor_reset_def Let_def)
qed

text \<open>\<open>prev\<close> undoes \<open>next\<close>, and stepping before the first entry leaves the pointer past the end.\<close>

lemma cursor_prev_next:
  assumes wf: "array_wf a" and pos: "pointer_position a < array_len a"
  shows "pointer_position (fst (cursor_prev (fst (cursor_next a)))) = pointer_position a"
    "snd (cursor_prev (fst (cursor_next a))) = cursor_current a"
proof -
  note N = cursor_next_step [OF wf pos]
  have lt: "pointer_position a < 2 ^ 56" by (rule pointer_bound)
  then show "pointer_position (fst (cursor_prev (fst (cursor_next a)))) = pointer_position a"
    using N(1) by (simp add: cursor_prev_def Let_def)
  show "snd (cursor_prev (fst (cursor_next a))) = cursor_current a"
    using N lt cursor_current_iter [OF array_wf_set_pointer [OF N(3) lt]] cursor_current_iter [OF wf]
    by (simp add: cursor_prev_def Let_def)
qed

lemma cursor_prev_start:
  assumes wf: "array_wf a" and "pointer_position a = 0"
  shows "snd (cursor_prev a) = None" "cursor_current (fst (cursor_prev a)) = None"
    "pointer_position (fst (cursor_prev a)) = array_len a"
  using assms len_bound [OF wf] cursor_current_iter [OF array_wf_set_pointer [OF wf len_bound [OF wf]]]
    array_len_iter [OF array_wfD(1) [OF wf]]
  by (simp_all add: cursor_prev_def vec_get_def)

lemma cursor_end_last:
  assumes wf: "array_wf a" and ne: "iter a \<noteq> []"
  shows "snd (cursor_end a) = Some (snd (last (iter a)))"
    "cursor_key (fst (cursor_end a)) = Some (fst (last (iter a)))"
proof -
  have len: "array_len a = length (iter a)" by (rule array_len_iter [OF array_wfD(1) [OF wf]])
  have lt: "array_len a - 1 < 2 ^ 56" using len_bound [OF wf] by simp
  show "snd (cursor_end a) = Some (snd (last (iter a)))"
    using ne len by (simp add: cursor_end_def Let_def vec_get_def last_conv_nth)
  show "cursor_key (fst (cursor_end a)) = Some (fst (last (iter a)))"
    using cursor_key_iter [OF array_wf_set_pointer [OF wf lt]] ne len lt
    by (simp add: cursor_end_def Let_def vec_get_def last_conv_nth)
qed

end
