(* ===== verification/Php_Array_Remove.thy ===== *)
theory Php_Array_Remove
  imports Php_Array_Pointer
begin

text \<open>
  Removal: \<open>take_with_position\<close> (behind \<open>remove\<close> and \<open>unset\<close>) deletes one entry of the ordered
  map, moves the internal pointer and every by-reference foreach cursor behind it down by one,
  and keeps the invariant on every storage tier; \<open>pop\<close> and \<open>shift\<close> take the last and the
  first entry.
\<close>

subsection \<open>Indexes after a removal\<close>

lemma find_key_append:
  "find_key k (xs @ ys) = (case find_key k xs of Some i \<Rightarrow> Some i
     | None \<Rightarrow> map_option (\<lambda>i. i + length xs) (find_key k ys))"
  unfolding find_key_def position_append ..

lemma keys_ok_vec_remove: "keys_ok es \<Longrightarrow> keys_ok (vec_remove i es)"
  using set_vec_remove_subset [of i es]
  by (auto simp: keys_ok_def vec_remove_keys distinct_vec_remove)
     (auto simp: vec_remove_def)

lemma str_index_ok_remove:
  assumes keys: "keys_ok es" and si: "str_index_ok es si" and i: "i < length es"
  shows "str_index_ok (vec_remove i es) (reindex_string_entries (vec_remove i es)
     (case fst (es ! i) of Key_String s \<Rightarrow> AList.delete s si | Key_Int _ \<Rightarrow> si) i)"
proof -
  let ?si = "case fst (es ! i) of Key_String s \<Rightarrow> AList.delete s si | Key_Int _ \<Rightarrow> si"
  define xs e ys where "xs = take i es" and "e = es ! i" and "ys = drop (Suc i) es"
  have es: "es = xs @ e # ys" unfolding xs_def e_def ys_def by (rule id_take_nth_drop [OF i])
  have len: "length xs = i" using i by (simp add: xs_def)
  have rm: "vec_remove i es = xs @ ys" by (simp add: vec_remove_def xs_def ys_def)
  have d: "distinct (map fst (xs @ e # ys))" using keys_okD(1) [OF keys] es by simp
  have si': "map_of ?si s = (if fst e = Key_String s then None else find_key (Key_String s) es)" for s
    using si by (auto simp: str_index_ok_def linear_find e_def [symmetric] split: array_key.splits)
  have "map_of (index_strings i ys ?si) s = find_key (Key_String s) (xs @ ys)" for s
  proof (cases "find_key (Key_String s) ys")
    case None
    then have "find_key (Key_String s) (e # ys) = (if fst e = Key_String s then Some 0 else None)"
      by (simp add: find_key_Cons)
    moreover have "find_key (Key_String s) xs = None" if "fst e = Key_String s"
      using d that by (auto simp: find_key_None)
    ultimately show ?thesis
      using None d unfolding es
      by (auto simp: map_of_index_strings linear_find si' [unfolded es] find_key_append
          split: option.splits)
  next
    case (Some j)
    then have "Key_String s \<in> fst ` set ys" by (metis find_key_None option.distinct(1))
    then have "find_key (Key_String s) xs = None" using d by (auto simp: find_key_None)
    with Some d len show ?thesis
      by (simp add: map_of_index_strings linear_find find_key_append add.commute)
  qed
  then show ?thesis
    unfolding rm by (simp add: str_index_ok_def reindex_string_entries_def linear_find len [symmetric])
qed

lemma hash_wf_remove:
  assumes wf: "hash_wf es si ii p" and i: "i < length es"
    and r: "rebuild_int_index (vec_remove i es) = (ii', p')"
  shows "hash_wf (vec_remove i es) (reindex_string_entries (vec_remove i es)
     (case fst (es ! i) of Key_String s \<Rightarrow> AList.delete s si | Key_Int _ \<Rightarrow> si) i) ii' p'"
  by (rule rebuild_hash_wf [OF keys_ok_vec_remove [OF hash_wfD(1) [OF wf]] _ r])
     (rule str_index_ok_remove [OF hash_wfD(1,2) [OF wf] i])

lemma linear_wf_remove:
  "linear_wf l \<Longrightarrow> linear_wf (linear_with_entries (linear_invalidate_index l) (vec_remove i (lin_entries l)))"
  using keys_ok_vec_remove [of "lin_entries l" i]
  by (auto simp: linear_wf_def linear_with_entries_def linear_invalidate_index_def vec_remove_def)

subsection \<open>\<open>take_with_position\<close>\<close>

lemma adjust_cursor_after_remove_frame:
  assumes "adjust_cursor_after_remove addr pos a reg = (a', reg')"
  shows "storage a' = storage a" "next_int_key a' = next_int_key a"
    "metadata_flag f \<Longrightarrow> has_flag f a' = has_flag f a"
    "pointer_position a' = (if pos < pointer_position a then pointer_position a - 1
                            else pointer_position a)"
    "reg' = (if has_flag ARRAY_REFERENCE_FOREACH a then splice addr pos 1 0 reg else reg)"
proof -
  have lt: "pointer_position a - 1 < 2 ^ 56" using pointer_bound [of a] by simp
  show "storage a' = storage a" "next_int_key a' = next_int_key a"
    "reg' = (if has_flag ARRAY_REFERENCE_FOREACH a then splice addr pos 1 0 reg else reg)"
    using assms by (auto simp: adjust_cursor_after_remove_def adjust_reference_foreach_positions_def
        Let_def)
  show "pointer_position a' = (if pos < pointer_position a then pointer_position a - 1
                            else pointer_position a)"
    using assms lt by (auto simp: adjust_cursor_after_remove_def Let_def)
  show "metadata_flag f \<Longrightarrow> has_flag f a' = has_flag f a"
    using assms lt by (auto simp: adjust_cursor_after_remove_def Let_def split: if_splits)
qed

text \<open>The explicit-key storage the removal works on, and the storage it leaves.\<close>

definition taken :: "nat \<Rightarrow> nat \<Rightarrow> parray \<Rightarrow> registry \<Rightarrow> (parray \<times> registry) \<Rightarrow> bool" where
  "taken addr pos a reg r \<longleftrightarrow>
     (\<exists>s'. storage_wf s' \<and> storage_entries s' = vec_remove pos (iter a) \<and>
        (\<forall>vs. s' \<noteq> Packed vs) \<and>
        r = adjust_cursor_after_remove addr pos (set_storage s' a) reg)"

lemma taken_wf:
  assumes t: "taken addr pos a reg (a', reg')" and nx: "next_ok (iter a) (next_int_key a)
      (has_flag ARRAY_INT_KEY_INITIALIZED a)"
  shows "array_wf a'" "iter a' = vec_remove pos (iter a)"
    "pointer_position a' = (if pos < pointer_position a then pointer_position a - 1
                            else pointer_position a)"
    "reg' = (if has_flag ARRAY_REFERENCE_FOREACH a then splice addr pos 1 0 reg else reg)"
    "next_int_key a' = next_int_key a"
    "metadata_flag f \<Longrightarrow> has_flag f a' = has_flag f a"
proof -
  from t obtain s' where s': "storage_wf s'" "storage_entries s' = vec_remove pos (iter a)"
    "\<forall>vs. s' \<noteq> Packed vs"
    and r: "adjust_cursor_after_remove addr pos (set_storage s' a) reg = (a', reg')"
    by (auto simp: taken_def)
  note F = adjust_cursor_after_remove_frame [OF r]
  show it: "iter a' = vec_remove pos (iter a)" using F(1) s' by (simp add: iter_def)
  show "pointer_position a' = (if pos < pointer_position a then pointer_position a - 1
                            else pointer_position a)"
    "reg' = (if has_flag ARRAY_REFERENCE_FOREACH a then splice addr pos 1 0 reg else reg)"
    using F(4,5) by (simp_all add: pointer_position_def has_flag_def)
  show next': "next_int_key a' = next_int_key a" using F(2) by simp
  show flag: "metadata_flag f \<Longrightarrow> has_flag f a' = has_flag f a" for f
    using F(3) by (simp add: has_flag_def)
  have "fst ` set (vec_remove pos (iter a)) \<subseteq> fst ` set (iter a)"
    using set_vec_remove_subset by (rule image_mono)
  then have "next_ok (iter a') (next_int_key a') (has_flag ARRAY_INT_KEY_INITIALIZED a')"
    using nx it next' flag [of ARRAY_INT_KEY_INITIALIZED] unfolding next_ok_def by auto
  then show "array_wf a'"
    using s' F(1) by (simp add: array_wf_def is_packed_def split: array_storage.splits)
qed

lemma take_explicit:
  assumes wf: "storage_wf (storage a)" and np: "\<not> is_packed a" and f: "find_key key (iter a) = Some pos"
  shows "snd (take_with_position addr key a reg) = Some (pos, snd (iter a ! pos))"
    "taken addr pos a reg (fst (take_with_position addr key a reg))"
proof -
  have pos: "pos < length (iter a)" using find_key_SomeD [OF f] by simp
  have "snd (take_with_position addr key a reg) = Some (pos, snd (iter a ! pos)) \<and>
    taken addr pos a reg (fst (take_with_position addr key a reg))"
  proof (cases "storage a")
    case (SmallHash slots)
    with wf obtain es where es: "storage a = SmallHash (small_slots es)" "length es \<le> 3" "keys_ok es"
      by auto
    have it: "iter a = es" using es by (simp add: iter_def del: storage_entries.simps(2))
    have len: "length (vec_remove pos es) \<le> 3" using es(2) by (simp add: vec_remove_def)
    have fnd: "(case key of Key_Int k \<Rightarrow> small_find_int (small_slots es) k
        | Key_String k \<Rightarrow> small_find_str (small_slots es) k) = Some pos"
      using f it es by (cases key) (simp_all add: linear_find)
    have "taken addr pos a reg (adjust_cursor_after_remove addr pos
        (set_storage (SmallHash (small_slots (vec_remove pos es))) a) reg)"
      unfolding taken_def
      using it es keys_ok_vec_remove [OF es(3), of pos] len
      by (intro exI [of _ "SmallHash (small_slots (vec_remove pos es))"])
        (auto simp del: storage_entries.simps(2))
    with es it pos fnd show ?thesis
      by (simp add: take_with_position_def split: prod.splits)
  next
    case (LinearHash l)
    with wf have lwf: "linear_wf l" by simp
    have it: "iter a = lin_entries l" using LinearHash by (simp add: iter_def)
    have fnd: "(case key of Key_Int k \<Rightarrow> linear_find_int (lin_entries l) k
        | Key_String k \<Rightarrow> linear_find_str_for_update l k) = Some pos"
      using f it linear_find_str_for_update_ok [OF lwf] by (cases key) (simp_all add: linear_find)
    have "taken addr pos a reg (adjust_cursor_after_remove addr pos
        (set_storage (LinearHash (linear_with_entries (linear_invalidate_index l)
          (vec_remove pos (lin_entries l)))) a) reg)"
      unfolding taken_def using it linear_wf_remove [OF lwf, of pos]
      by (intro exI [of _ "LinearHash (linear_with_entries (linear_invalidate_index l)
          (vec_remove pos (lin_entries l)))"]) auto
    with LinearHash it fnd show ?thesis by (simp add: take_with_position_def)
  next
    case (Hash es si ii p)
    with wf have hwf: "hash_wf es si ii p" by simp
    have it: "iter a = es" using Hash by (simp add: iter_def)
    have fnd: "(case key of Key_Int k \<Rightarrow> indexed_int_position es ii p k
        | Key_String k \<Rightarrow> map_of si k) = Some pos"
      using f it indexed_int_position_ok [OF hwf] hash_wfD(2) [OF hwf]
      by (cases key) (simp_all add: linear_find str_index_ok_def)
    obtain ii' p' where r: "rebuild_int_index (vec_remove pos es) = (ii', p')" by fastforce
    let ?si = "case fst (es ! pos) of Key_String s \<Rightarrow> AList.delete s si | Key_Int _ \<Rightarrow> si"
    let ?st = "Hash (vec_remove pos es) (reindex_string_entries (vec_remove pos es) ?si pos) ii' p'"
    have "taken addr pos a reg (adjust_cursor_after_remove addr pos (set_storage ?st a) reg)"
      unfolding taken_def using it hash_wf_remove [OF hwf _ r] pos by (intro exI [of _ ?st]) auto
    moreover have "take_with_position addr key a reg =
        (adjust_cursor_after_remove addr pos (set_storage ?st a) reg, Some (pos, snd (es ! pos)))"
      unfolding take_with_position_def by (simp only: Hash array_storage.case Let_def fnd option.case r prod.case)
    ultimately show ?thesis using it by simp
  qed (use np in \<open>simp add: is_packed_def\<close>)
  then show "snd (take_with_position addr key a reg) = Some (pos, snd (iter a ! pos))"
    "taken addr pos a reg (fst (take_with_position addr key a reg))" by simp_all
qed

lemma take_explicit_absent:
  assumes wf: "storage_wf (storage a)" and np: "\<not> is_packed a" and f: "find_key key (iter a) = None"
  shows "take_with_position addr key a reg = ((a, reg), None)"
proof (cases "storage a")
  case (SmallHash slots)
  with wf obtain es where es: "storage a = SmallHash (small_slots es)" "length es \<le> 3" by auto
  then have "iter a = es" by (simp add: iter_def del: storage_entries.simps(2))
  with es f show ?thesis
    by (cases key) (simp_all add: take_with_position_def linear_find)
next
  case (LinearHash l)
  with wf f linear_find_str_for_update_ok [of l] show ?thesis
    by (cases key) (simp_all add: take_with_position_def linear_find iter_def)
next
  case (Hash es si ii p)
  with wf have hwf: "hash_wf es si ii p" by simp
  with Hash f indexed_int_position_ok [OF hwf] hash_wfD(2) [OF hwf] show ?thesis
    by (cases key) (simp_all add: take_with_position_def linear_find iter_def str_index_ok_def)
qed (use np in \<open>simp add: is_packed_def\<close>)

lemma take_after_transition:
  "storage_wf (storage a) \<Longrightarrow>
     take_with_position addr key a reg = take_with_position addr key (transition_to_hash a) reg"
proof (cases "storage a")
  case (Packed vs)
  assume "storage_wf (storage a)"
  then have "\<not> is_packed (transition_to_hash a)" by (rule transition_to_hash_ok)
  then have "(case storage (transition_to_hash a) of
      Packed _ \<Rightarrow> transition_to_hash (transition_to_hash a) | _ \<Rightarrow> transition_to_hash a) = transition_to_hash a"
    by (simp add: is_packed_def split: array_storage.splits)
  with Packed show ?thesis unfolding take_with_position_def by simp
qed (simp_all add: transition_to_hash_def)

lemma take_with_position_ok:
  assumes wf: "array_wf a" and r: "take_with_position addr key a reg = ((a', reg'), res)"
  shows "array_wf a'" "iter a' = remove_key key (iter a)" "next_int_key a' = next_int_key a"
    "res = map_option (\<lambda>pos. (pos, snd (iter a ! pos))) (find_key key (iter a))"
    "reg' = (case find_key key (iter a) of None \<Rightarrow> reg
       | Some pos \<Rightarrow> if has_flag ARRAY_REFERENCE_FOREACH a then splice addr pos 1 0 reg else reg)"
    "pointer_position a' = (case find_key key (iter a) of None \<Rightarrow> pointer_position a
       | Some pos \<Rightarrow> if pos < pointer_position a then pointer_position a - 1 else pointer_position a)"
    "metadata_flag f \<Longrightarrow> has_flag f a' = has_flag f a"
proof -
  let ?t = "transition_to_hash a"
  note T = transition_to_hash_ok [OF array_wfD(1) [OF wf]]
  have same: "has_flag f ?t = has_flag f a" "pointer_position ?t = pointer_position a" for f
    by (simp_all add: has_flag_def pointer_position_def)
  have nx: "next_ok (iter ?t) (next_int_key ?t) (has_flag ARRAY_INT_KEY_INITIALIZED ?t)"
    using wf T(2) same by (simp add: array_wf_def)
  have r': "take_with_position addr key ?t reg = ((a', reg'), res)"
    using r take_after_transition [OF array_wfD(1) [OF wf]] by simp
  have "array_wf a' \<and> iter a' = remove_key key (iter a) \<and> next_int_key a' = next_int_key a \<and>
    res = map_option (\<lambda>pos. (pos, snd (iter a ! pos))) (find_key key (iter a)) \<and>
    reg' = (case find_key key (iter a) of None \<Rightarrow> reg
       | Some pos \<Rightarrow> if has_flag ARRAY_REFERENCE_FOREACH a then splice addr pos 1 0 reg else reg) \<and>
    pointer_position a' = (case find_key key (iter a) of None \<Rightarrow> pointer_position a
       | Some pos \<Rightarrow> if pos < pointer_position a then pointer_position a - 1 else pointer_position a) \<and>
    (metadata_flag f \<longrightarrow> has_flag f a' = has_flag f a)"
  proof (cases "find_key key (iter a)")
    case None
    with take_explicit_absent [OF T(1,3), of key addr reg] T r' nx same show ?thesis
      by (simp add: remove_key_def array_wf_def)
  next
    case (Some pos)
    with T(2) have "find_key key (iter ?t) = Some pos" by simp
    note E = take_explicit [OF T(1,3) this, of addr reg, unfolded r' fst_conv snd_conv]
    note W = taken_wf [OF E(2) nx]
    from E(1) W Some T(2) same show ?thesis by (simp add: remove_key_def)
  qed
  then show "array_wf a'" "iter a' = remove_key key (iter a)" "next_int_key a' = next_int_key a"
    "res = map_option (\<lambda>pos. (pos, snd (iter a ! pos))) (find_key key (iter a))"
    "reg' = (case find_key key (iter a) of None \<Rightarrow> reg
       | Some pos \<Rightarrow> if has_flag ARRAY_REFERENCE_FOREACH a then splice addr pos 1 0 reg else reg)"
    "pointer_position a' = (case find_key key (iter a) of None \<Rightarrow> pointer_position a
       | Some pos \<Rightarrow> if pos < pointer_position a then pointer_position a - 1 else pointer_position a)"
    "metadata_flag f \<Longrightarrow> has_flag f a' = has_flag f a"
    by simp_all
qed

subsection \<open>\<open>pop\<close>\<close>

lemma keys_ok_butlast: "keys_ok es \<Longrightarrow> keys_ok (butlast es)"
  using keys_ok_vec_remove [of es "length es - 1"]
  by (cases "es = []") (simp_all add: vec_remove_def butlast_conv_take)

lemma find_key_butlast:
  assumes "distinct (map fst es)" "es \<noteq> []"
  shows "find_key k (butlast es) = (if k = fst (last es) then None else find_key k es)"
proof -
  have es: "es = butlast es @ [last es]" using assms(2) by simp
  have "fst (last es) \<notin> fst ` set (butlast es)"
    using assms(1) by (subst (asm) es) (auto simp: map_append)
  then have "find_key (fst (last es)) (butlast es) = None" by (simp add: find_key_None)
  moreover have "find_key k es = (case find_key k (butlast es) of Some i \<Rightarrow> Some i
      | None \<Rightarrow> map_option (\<lambda>i. i + length (butlast es)) (find_key k [last es]))"
    using find_key_append [of k "butlast es" "[last es]"] es by simp
  ultimately show ?thesis by (auto simp: find_key_Cons find_key_def [of k "[]"] split: option.splits)
qed

lemma int_prefix_butlast:
  assumes "int_prefix es p" "q \<le> p" "q \<le> length es - 1" shows "int_prefix (butlast es) q"
proof -
  from assms(1) obtain first stride where
    "\<forall>i < p. fst (es ! i) = Key_Int (first + stride * int i) \<and> in_i64 (stride * int i)"
    "2 \<le> p \<longrightarrow> stride \<noteq> 0" by (auto simp: int_prefix_def)
  with assms(2,3) show ?thesis
    by (intro int_prefixI [where first = first and stride = stride]) (auto simp: nth_butlast)
qed

lemma last_in_drop: "p < length es \<Longrightarrow> last es \<in> set (drop p es)"
  by (metis last_drop drop_eq_Nil last_in_set linorder_not_less)

lemma drop_butlast_all: "list_all P (drop p es) \<Longrightarrow> list_all P (drop p (butlast es))"
  by (metis drop_butlast list_all_iff in_set_butlastD)

lemma hash_wf_pop_str:
  assumes wf: "hash_wf es si ii p" and ne: "es \<noteq> []" and l: "fst (last es) = Key_String s"
  shows "hash_wf (butlast es) (AList.delete s si) ii p"
proof -
  note F = find_key_butlast [OF keys_okD(1) [OF hash_wfD(1) [OF wf]] ne]
  have "str_index_ok (butlast es) (AList.delete s si)"
    using hash_wfD(2) [OF wf] F l by (auto simp: str_index_ok_def linear_find)
  moreover have "int_index_ok (butlast es) ii" if "p = 0"
    using hash_wfD(3) [OF wf that] F l by (simp add: int_index_ok_def linear_find)
  moreover have "int_prefix (butlast es) p" if p: "p \<noteq> 0"
  proof -
    have "p \<noteq> length es"
    proof
      assume eq: "p = length es"
      from hash_wfD(5) [OF wf p] obtain first stride where
        "\<forall>i < p. fst (es ! i) = Key_Int (first + stride * int i)" by (auto simp: int_prefix_def)
      with eq ne have "fst (last es) = Key_Int (first + stride * int (length es - 1))"
        by (simp add: last_conv_nth)
      with l show False by simp
    qed
    with hash_wfD(5) [OF wf p] show ?thesis
      by (intro int_prefix_butlast [of es p p]) (auto simp: int_prefix_def)
  qed
  ultimately show ?thesis
    using keys_ok_butlast [OF hash_wfD(1) [OF wf]] hash_wfD(4,6) [OF wf]
    by (auto simp: hash_wf_def drop_butlast_all)
qed

lemma hash_wf_pop_int:
  assumes wf: "hash_wf es si ii p" and ne: "es \<noteq> []" and l: "fst (last es) = Key_Int n"
  shows "p = length es \<Longrightarrow> hash_wf (butlast es) si ii (length es - 1)"
    and "p \<noteq> length es \<Longrightarrow> hash_wf (butlast es) si (AList.delete n ii) p"
proof -
  note F = find_key_butlast [OF keys_okD(1) [OF hash_wfD(1) [OF wf]] ne]
  note keys = keys_ok_butlast [OF hash_wfD(1) [OF wf]]
  have str: "str_index_ok (butlast es) si"
    using hash_wfD(2) [OF wf] F l by (simp add: str_index_ok_def linear_find)
  show "hash_wf (butlast es) si ii (length es - 1)" if p: "p = length es"
  proof -
    have p0: "p \<noteq> 0" using p ne by simp
    have "int_prefix (butlast es) (length es - 1)"
      using int_prefix_butlast [OF hash_wfD(5) [OF wf p0], of "length es - 1"] p by simp
    moreover have "int_index_ok (butlast es) []" if "length es - 1 = 0"
      using that ne by (cases es) (auto simp: int_index_ok_def linear_find find_key_def)
    ultimately show ?thesis
      using keys str hash_wfD(4) [OF wf p0] by (auto simp: hash_wf_def)
  qed
  show "hash_wf (butlast es) si (AList.delete n ii) p" if p: "p \<noteq> length es"
  proof -
    have "p = 0"
    proof (rule ccontr)
      assume p0: "p \<noteq> 0"
      with hash_wfD(5) [OF wf] p have "p < length es" by (auto simp: int_prefix_def)
      from last_in_drop [OF this] hash_wfD(6) [OF wf p0] have "is_string_key (fst (last es))"
        by (auto simp: list_all_iff)
      with l show False by simp
    qed
    with hash_wfD(3) [OF wf] F l keys str show ?thesis
      by (auto simp: hash_wf_def int_index_ok_def linear_find)
  qed
qed

text \<open>The next key after a pop.\<close>

lemma in_i64_wrapping: "in_i64 (wrapping_i64 x)"
  by (simp add: wrapping_i64_def i64_simps)

lemma next_ok_retract:
  assumes nx: "next_ok es nxt init" and d: "distinct (map fst es)" and ne: "es \<noteq> []"
  shows "next_ok (butlast es) (retract_next (fst (last es)) nxt) init"
proof -
  have sub: "Key_Int m \<in> fst ` set es \<and> Key_Int m \<noteq> fst (last es)"
    if "Key_Int m \<in> fst ` set (butlast es)" for m
    using that find_key_butlast [OF d ne, of "Key_Int m"] find_key_None [of "Key_Int m"]
    by (metis (no_types, lifting))
  have old: "m < nxt \<or> m = i64_MAX" if "Key_Int m \<in> fst ` set es" for m
    using nx that by (auto simp: next_ok_def)
  have i: "in_i64 nxt" using nx by (simp add: next_ok_def)
  have last_in: "fst (last es) \<in> fst ` set es" using ne by simp
  show ?thesis
  proof (cases "\<exists>n. fst (last es) = Key_Int n \<and> n = wrapping_i64 (nxt - 1)")
    case True
    then obtain n where n: "fst (last es) = Key_Int n" "n = wrapping_i64 (nxt - 1)" by blast
    then have r: "retract_next (fst (last es)) nxt = n" by (simp add: retract_next_def)
    have init: "init" using nx n(1) last_in by (auto simp: next_ok_def)
    have "m < n \<or> m = i64_MAX" if "Key_Int m \<in> fst ` set (butlast es)" for m
    proof (cases "nxt = i64_MIN")
      case True
      with old [of m] sub [OF that] nx n(2) show ?thesis
        using array_key.inject
        by (auto simp: i64_simps wrapping_i64_def n(1))
    next
      case False
      then have "n = nxt - 1" using n(2) i by (auto simp: wrapping_i64_id i64_simps)
      with old [of m] sub [OF that] n(1) show ?thesis by auto
    qed
    then show ?thesis using r init in_i64_wrapping n(2) by (auto simp: next_ok_def)
  next
    case False
    then have r: "retract_next (fst (last es)) nxt = nxt"
      by (auto simp: retract_next_def split: array_key.splits)
    show ?thesis unfolding r using nx sub by (auto simp: next_ok_def)
  qed
qed

lemma pop_frame [simp]: "cursor (fst (pop a)) = cursor a"
  by (auto simp: pop_def Let_def split: array_storage.splits prod.splits option.splits array_key.splits)

lemma pop_explicit:
  assumes wf: "storage_wf (storage a)" and np: "\<not> is_packed a" and ne: "iter a \<noteq> []"
  shows "storage_wf (storage (fst (pop a))) \<and> \<not> is_packed (fst (pop a)) \<and>
    iter (fst (pop a)) = butlast (iter a) \<and> snd (pop a) = Some (snd (last (iter a))) \<and>
    next_int_key (fst (pop a)) = retract_next (fst (last (iter a))) (next_int_key a)"
proof (cases "storage a")
  case (SmallHash slots)
  with wf obtain es where es: "storage a = SmallHash (small_slots es)" "length es \<le> 3" "keys_ok es"
    by auto
  have it: "iter a = es" using es by (simp add: iter_def del: storage_entries.simps(2))
  have rm: "vec_remove (length es - 1) es = butlast es" using ne it
    by (simp add: vec_remove_def butlast_conv_take)
  have "pop a = (set_next (retract_next (fst (last es)) (next_int_key a))
      (set_storage (SmallHash (small_slots (butlast es))) a), Some (snd (last es)))"
    using es it ne rm by (simp add: pop_def last_conv_nth split: prod.splits)
  with it es keys_ok_butlast [OF es(3)] show ?thesis
    by (auto simp: is_packed_def iter_def simp del: storage_entries.simps(2)
        intro!: exI [of _ "butlast es"])
next
  case (LinearHash l)
  with wf have "linear_wf (linear_with_entries (linear_invalidate_index l) (butlast (lin_entries l)))"
    using linear_wf_remove [of l "length (lin_entries l) - 1"] ne
    by (simp add: iter_def vec_remove_def butlast_conv_take)
  with LinearHash ne show ?thesis
    by (simp add: pop_def iter_def is_packed_def split: prod.splits)
next
  case (Hash es si ii p)
  with wf ne have hwf: "hash_wf es si ii p" and es: "es \<noteq> []" by (simp_all add: iter_def)
  show ?thesis
  proof (cases "fst (last es)")
    case (Key_Int n)
    with hash_wf_pop_int [OF hwf es Key_Int] Hash es show ?thesis
      by (cases "last es") (simp add: pop_def iter_def is_packed_def Let_def)
  next
    case (Key_String s)
    with hash_wf_pop_str [OF hwf es Key_String] Hash es show ?thesis
      by (cases "last es") (simp add: pop_def iter_def is_packed_def Let_def retract_next_def)
  qed
qed (use np in \<open>simp add: is_packed_def\<close>)

lemma packed_entries_butlast: "packed_entries (butlast vs) = butlast (packed_entries vs)"
  by (rule nth_equalityI) (auto simp: nth_butlast)

lemma pop_ok:
  assumes wf: "array_wf a" and ne: "iter a \<noteq> []"
  shows "array_wf (fst (pop a))" "iter (fst (pop a)) = butlast (iter a)"
    "snd (pop a) = Some (snd (last (iter a)))"
proof -
  have "array_wf (fst (pop a)) \<and> iter (fst (pop a)) = butlast (iter a) \<and>
    snd (pop a) = Some (snd (last (iter a)))"
  proof (cases "is_packed a")
    case True
    then obtain vs where vs: "storage a = Packed vs"
      by (auto simp: is_packed_def split: array_storage.splits)
    with ne have "vs \<noteq> []" by (simp add: iter_def)
    with vs have p: "pop a = (set_next (int (length vs) - 1) (set_storage (Packed (butlast vs)) a),
        Some (last vs))" by (simp add: pop_def)
    have nx: "next_int_key a = int (length vs)" "length vs < 2 ^ 56"
      using array_wfD(1,5) [OF wf] vs True by (simp_all add: array_len_def)
    have "has_flag ARRAY_INT_KEY_INITIALIZED a" using array_wfD(6) [OF wf] nx \<open>vs \<noteq> []\<close> by auto
    moreover have "int (length vs - Suc 0) = int (length vs) - 1" using \<open>vs \<noteq> []\<close> by (cases vs) auto
    ultimately have "array_wf (fst (pop a))"
      using nx \<open>vs \<noteq> []\<close>
      by (auto simp: p array_wf_def next_ok_def is_packed_def array_len_def iter_def has_flag_def
          key_in_packed_entries i64_simps)
    with vs p \<open>vs \<noteq> []\<close> show ?thesis
      by (simp add: iter_def packed_entries_butlast last_conv_nth)
  next
    case False
    note E = pop_explicit [OF array_wfD(1) [OF wf] False ne]
    have "next_ok (iter a) (next_int_key a) (has_flag ARRAY_INT_KEY_INITIALIZED a)"
      using wf by (simp add: array_wf_def)
    from next_ok_retract [OF this keys_okD(1) [OF array_wfD(2) [OF wf]] ne] E show ?thesis
      by (simp add: array_wf_def has_flag_def)
  qed
  then show "array_wf (fst (pop a))" "iter (fst (pop a)) = butlast (iter a)"
    "snd (pop a) = Some (snd (last (iter a)))" by simp_all
qed

lemma pop_empty:
  assumes wf: "array_wf a" and e: "iter a = []" shows "pop a = (a, None)"
  using array_wfD(1) [OF wf] e
  by (cases "storage a")
     (auto simp: pop_def iter_def split: prod.splits simp del: storage_entries.simps(2))

subsection \<open>\<open>shift\<close>\<close>

lemma renumber_length: "length (fst (renumber n es)) = length es"
  by (induction n es rule: renumber.induct) (auto simp: Let_def split: prod.splits)

lemma renumber_next_ge: "n \<le> snd (renumber n es)" "snd (renumber n es) \<le> n + int (length es)"
  by (induction n es rule: renumber.induct) (auto simp: Let_def split: prod.splits)

lemma renumber_int_keys:
  "Key_Int m \<in> fst ` set (fst (renumber n es)) \<longleftrightarrow> n \<le> m \<and> m < snd (renumber n es)"
proof (induction n es rule: renumber.induct)
  case (2 n k v es)
  from renumber_next_ge(1) [of "n + 1" es] 2 show ?case
    by (auto simp: Let_def image_iff split: prod.splits)
qed (auto simp: Let_def image_iff split: prod.splits)

lemma renumber_str_keys:
  "Key_String s \<in> fst ` set (fst (renumber n es)) \<longleftrightarrow> Key_String s \<in> fst ` set es"
  by (induction n es rule: renumber.induct) (auto simp: Let_def image_iff split: prod.splits)

lemma renumber_values: "map snd (fst (renumber n es)) = map snd es"
  by (induction n es rule: renumber.induct) (auto simp: Let_def split: prod.splits)

lemma renumber_distinct:
  "distinct (map fst es) \<Longrightarrow> distinct (map fst (fst (renumber n es)))"
proof (induction n es rule: renumber.induct)
  case (2 n k v es)
  then show ?case using renumber_int_keys [of n "n + 1" es]
    by (auto simp: Let_def split: prod.splits)
next
  case (3 n s v es)
  then show ?case using renumber_str_keys [of s n es]
    by (auto simp: Let_def split: prod.splits)
qed simp

lemma keys_ok_renumber: "keys_ok es \<Longrightarrow> keys_ok (fst (renumber 0 es))"
  using renumber_next_ge [of 0 es]
  by (auto simp: keys_ok_def renumber_distinct renumber_length renumber_int_keys i64_simps)

lemma renumber_slots_map: "renumber_slots n (map Some es) =
    (map Some (fst (renumber n es)), snd (renumber n es))"
  by (induction n es rule: renumber.induct) (auto simp: Let_def split: prod.splits)

lemma drop_small_slots:
  "length es \<le> 3 \<Longrightarrow> length fs = length es \<Longrightarrow>
     map Some fs @ drop (length es) (small_slots es) = small_slots fs"
  by (simp add: small_slots_def)

definition shifted :: "'v entries \<Rightarrow> 'v entries \<times> int" where
  "shifted es = renumber 0 (tl es)"

lemma vec_remove_0: "vec_remove 0 es = tl es"
  by (simp add: vec_remove_def drop_Suc)

lemma renumber_no_ints:
  "\<forall>n. Key_Int n \<notin> fst ` set es \<Longrightarrow> snd (renumber m es) = m"
  by (induction m es rule: renumber.induct) (auto simp: Let_def image_iff split: prod.splits)

lemma next_ok_shifted:
  assumes "keys_ok es" "next_ok es nxt init"
  shows "next_ok (fst (shifted es)) (snd (shifted es)) init"
proof -
  have len: "int (length (tl es)) < 2 ^ 56" using keys_okD(3) [OF assms(1)] by simp
  have sub: "fst ` set (tl es) \<subseteq> fst ` set es" by (cases es) auto
  have "snd (shifted es) = 0" if "\<not> init"
    using assms(2) that sub unfolding shifted_def by (intro renumber_no_ints) (auto simp: next_ok_def)
  then show ?thesis
    using renumber_next_ge [of 0 "tl es"] len renumber_int_keys [of _ 0 "tl es"]
    by (auto simp: next_ok_def shifted_def i64_simps)
qed

lemma keys_ok_shifted: "keys_ok es \<Longrightarrow> keys_ok (fst (shifted es))"
  using keys_ok_renumber [OF keys_ok_vec_remove [of es 0]] by (simp add: shifted_def vec_remove_0)

definition shift_result :: "nat \<Rightarrow> parray \<Rightarrow> registry \<Rightarrow> (parray \<times> registry) \<Rightarrow> bool" where
  "shift_result addr a reg r \<longleftrightarrow>
     (\<exists>s'. storage_wf s' \<and> storage_entries s' = fst (shifted (iter a)) \<and> (\<forall>vs. s' \<noteq> Packed vs) \<and>
        r = (set_next (snd (shifted (iter a))) (set_storage s' a),
             if has_flag ARRAY_REFERENCE_FOREACH a then splice addr 0 1 0 reg else reg))"

lemma shift_explicit:
  assumes wf: "storage_wf (storage a)" and np: "\<not> is_packed a" and ne: "iter a \<noteq> []"
  shows "snd (shift addr a reg) = Some (snd (hd (iter a))) \<and>
    shift_result addr a reg (fst (shift addr a reg))"
proof (cases "storage a")
  case (SmallHash slots)
  with wf obtain es where es: "storage a = SmallHash (small_slots es)" "length es \<le> 3" "keys_ok es"
    by auto
  have it: "iter a = es" using es by (simp add: iter_def del: storage_entries.simps(2))
  let ?es = "fst (shifted es)"
  have len: "length ?es = length es - 1" by (simp add: shifted_def renumber_length)
  have tr: "transition_to_hash a = a" using es by (simp add: transition_to_hash_def)
  have "shift addr a reg = ((set_next (snd (shifted es)) (set_storage (SmallHash (small_slots ?es)) a),
      if has_flag ARRAY_REFERENCE_FOREACH a then splice addr 0 1 0 reg else reg), Some (snd (hd es)))"
    using es it ne len drop_small_slots [of "tl es" ?es] take_small_slots [of "tl es"]
    by (simp add: shift_def tr vec_remove_0 renumber_slots_map shifted_def Let_def
        adjust_reference_foreach_positions_def has_flag_def hd_conv_nth split: prod.splits)
  with it es(2) len keys_ok_shifted [OF es(3)] show ?thesis
    unfolding shift_result_def
    by (auto simp del: storage_entries.simps(2)
        intro!: exI [of _ "SmallHash (small_slots ?es)"] exI [of _ ?es])
next
  case (LinearHash l)
  let ?l = "linear_with_entries (linear_invalidate_index l) (fst (shifted (lin_entries l)))"
  have "linear_wf ?l"
    using LinearHash wf keys_ok_shifted [of "lin_entries l"] renumber_length [of 0 "tl (lin_entries l)"]
    by (auto simp: linear_wf_def linear_with_entries_def linear_invalidate_index_def shifted_def)
  with LinearHash ne show ?thesis
    unfolding shift_result_def
    by (auto simp: shift_def transition_to_hash_def vec_remove_0 shifted_def Let_def iter_def
        adjust_reference_foreach_positions_def has_flag_def hd_conv_nth split: prod.splits
        intro!: exI [of _ "LinearHash ?l"])
next
  case (Hash es si ii p)
  with wf ne have hwf: "hash_wf es si ii p" and es: "es \<noteq> []" by (simp_all add: iter_def)
  let ?es = "fst (shifted es)"
  have keys: "keys_ok ?es" by (rule keys_ok_shifted [OF hash_wfD(1) [OF hwf]])
  obtain ii' p' where r: "rebuild_int_index ?es = (ii', p')" by fastforce
  have "hash_wf ?es (index_strings 0 ?es []) ii' p'"
    by (rule rebuild_hash_wf [OF keys str_index_ok_rebuild [OF keys] r])
  with Hash es r show ?thesis
    unfolding shift_result_def
    by (auto simp: shift_def transition_to_hash_def vec_remove_0 shifted_def Let_def iter_def
        adjust_reference_foreach_positions_def has_flag_def hd_conv_nth split: prod.splits
        intro!: exI [of _ "Hash ?es (index_strings 0 ?es []) ii' p'"])
qed (use np in \<open>simp add: is_packed_def\<close>)

lemma shift_after_transition: 
  assumes "storage_wf (storage a)"
  shows "shift addr a reg = shift addr (transition_to_hash a) reg"
proof -
  have "transition_to_hash (transition_to_hash a) = transition_to_hash a"
    using transition_to_hash_ok(3) [OF assms]
    by (simp add: transition_to_hash_def [of "transition_to_hash a"] is_packed_def
        split: array_storage.splits)
  then show ?thesis by (simp add: shift_def)
qed

lemma shift_ok:
  assumes wf: "array_wf a" and ne: "iter a \<noteq> []" and r: "shift addr a reg = ((a', reg'), res)"
  shows "array_wf a'" "iter a' = fst (shifted (iter a))" "next_int_key a' = snd (shifted (iter a))"
    "res = Some (snd (hd (iter a)))"
    "reg' = (if has_flag ARRAY_REFERENCE_FOREACH a then splice addr 0 1 0 reg else reg)"
proof -
  let ?t = "transition_to_hash a"
  note T = transition_to_hash_ok [OF array_wfD(1) [OF wf]]
  have same: "has_flag f ?t = has_flag f a" for f by (simp add: has_flag_def)
  have "snd (shift addr ?t reg) = Some (snd (hd (iter ?t))) \<and>
      shift_result addr ?t reg (fst (shift addr ?t reg))"
    using shift_explicit [OF T(1,3)] ne T(2) by simp
  then have R: "res = Some (snd (hd (iter a)))" "shift_result addr ?t reg (a', reg')"
    using r shift_after_transition [OF array_wfD(1) [OF wf], of addr reg] T(2) by simp_all
  then obtain s' where s': "storage_wf s'" "storage_entries s' = fst (shifted (iter a))"
      "\<forall>vs. s' \<noteq> Packed vs" and a': "a' = set_next (snd (shifted (iter a))) (set_storage s' ?t)"
      and reg': "reg' = (if has_flag ARRAY_REFERENCE_FOREACH a then splice addr 0 1 0 reg else reg)"
    using T(2) same by (auto simp: shift_result_def)
  show "res = Some (snd (hd (iter a)))" by (rule R(1))
  show "reg' = (if has_flag ARRAY_REFERENCE_FOREACH a then splice addr 0 1 0 reg else reg)" by (rule reg')
  show it: "iter a' = fst (shifted (iter a))" and nx: "next_int_key a' = snd (shifted (iter a))"
    using s'(2) by (simp_all add: a')
  have "next_ok (iter a) (next_int_key a) (has_flag ARRAY_INT_KEY_INITIALIZED a)"
    using wf by (simp add: array_wf_def)
  from next_ok_shifted [OF array_wfD(2) [OF wf] this]
  have "next_ok (iter a') (next_int_key a') (has_flag ARRAY_INT_KEY_INITIALIZED a')"
    by (simp add: it nx) (simp add: a' has_flag_def)
  with s'(1,3) show "array_wf a'" by (simp add: array_wf_def a' is_packed_def split: array_storage.splits)
qed

end
