(* ===== verification/Php_Array_Reads.thy ===== *)
theory Php_Array_Reads
  imports Php_Array_Append Php_Array_Remove
begin

text \<open>
  Positional and typed access: every read names an entry of the iteration order or a value of
  the map, \<open>is_list\<close> and \<open>has_string_keys\<close> classify the keys, the typed long reads agree with
  the map while the cached longs of the integer index are current, and a positional write keeps
  the keys. It ends with the interpretation of the ordered-map contract.
\<close>

subsection \<open>Reads by position\<close>

lemma hash_entry_at_iter:
  assumes "array_wf a" shows "hash_entry_at a pos = (if is_packed a then None else vec_get (iter a) pos)"
proof (cases "storage a")
  case (SmallHash slots)
  with array_wfD(1) [OF assms] obtain es where "length es \<le> 3" "slots = small_slots es" by auto
  with SmallHash show ?thesis
    by (simp add: hash_entry_at_def iter_def is_packed_def del: storage_entries.simps(2))
qed (simp_all add: hash_entry_at_def iter_def is_packed_def)

lemma hash_len_iter:
  assumes "array_wf a" shows "hash_len a = (if is_packed a then None else Some (length (iter a)))"
  using array_len_iter [OF array_wfD(1) [OF assms]]
  by (auto simp: hash_len_def array_len_def is_packed_def split: array_storage.splits)

lemma get_at_iter:
  assumes "array_wf a" shows "get_at a pos = map_option (\<lambda>(k, v). (v, k)) (vec_get (iter a) pos)"
proof (cases "storage a")
  case (SmallHash slots)
  with array_wfD(1) [OF assms] obtain es where "length es \<le> 3" "slots = small_slots es" by auto
  with SmallHash show ?thesis by (simp add: get_at_def iter_def del: storage_entries.simps(2))
qed (simp_all add: get_at_def iter_def vec_get_def)

lemma get_value_at_iter:
  assumes "array_wf a" shows "get_value_at a pos = map_option snd (vec_get (iter a) pos)"
proof (cases "storage a")
  case (SmallHash slots)
  with array_wfD(1) [OF assms] obtain es where "length es \<le> 3" "slots = small_slots es" by auto
  with SmallHash show ?thesis by (simp add: get_value_at_def iter_def del: storage_entries.simps(2))
qed (simp_all add: get_value_at_def iter_def vec_get_def)

lemma entry_lookup:
  "keys_ok es \<Longrightarrow> vec_get es pos = Some (k, v) \<Longrightarrow> lookup_key k es = Some v"
  using find_key_unique [OF keys_okD(1), of es pos k] by (simp add: lookup_key_def)

lemma get_positioned_str_sound:
  assumes "array_wf a" "get_positioned_str a key pos = Some v"
  shows "lookup_key (Key_String key) (iter a) = Some v"
  using assms entry_lookup [OF array_wfD(2) [OF assms(1)], of pos "Key_String key" v]
  by (auto simp: get_positioned_str_def hash_entry_at_iter split: option.splits if_splits prod.splits)

lemma get_ordered_int_at_sound:
  assumes "array_wf a" "get_ordered_int_at a pos key = Some v"
  shows "lookup_key (Key_Int key) (iter a) = Some v"
  using assms entry_lookup [OF array_wfD(2) [OF assms(1)], of pos "Key_Int key" v]
  by (auto simp: get_ordered_int_at_def hash_entry_at_iter split: option.splits if_splits prod.splits)

text \<open>The indexed reads consult the integer index only: they miss the keys of a verified prefix,
  and what they find is the value of the key.\<close>

lemma indexed_entry_sound:
  assumes wf: "array_wf a" and r: "indexed_entry a key = Some (pos, v)"
  shows "find_key (Key_Int key) (iter a) = Some pos" "v = snd (iter a ! pos)"
proof -
  have "find_key (Key_Int key) (iter a) = Some pos \<and> v = snd (iter a ! pos)"
  proof (cases "storage a")
    case (SmallHash slots)
    with array_wfD(1) [OF wf] obtain es where "length es \<le> 3" "slots = small_slots es" by auto
    with SmallHash r show ?thesis
      by (auto simp: indexed_entry_def iter_def linear_find bind_eq_Some_conv
          simp del: storage_entries.simps(2))
  next
    case (Hash es si ii p)
    with array_wfD(1) [OF wf] have h: "hash_wf es si ii p" by simp
    show ?thesis
    proof (cases "p = 0")
      case True
      with hash_wfD(3) [OF h] have "map_option iiv_position (map_of ii key) = find_key (Key_Int key) es"
        by (simp add: int_index_ok_def linear_find)
      with r Hash show ?thesis by (auto simp: indexed_entry_def iter_def)
    next
      case False
      with hash_wfD(4) [OF h] r Hash show ?thesis by (simp add: indexed_entry_def)
    qed
  qed (use r in \<open>auto simp: indexed_entry_def iter_def linear_find bind_eq_Some_conv\<close>)
  then show "find_key (Key_Int key) (iter a) = Some pos" "v = snd (iter a ! pos)" by simp_all
qed

lemma get_indexed_int_sound:
  assumes "array_wf a" "get_indexed_int a key = Some v"
  shows "lookup_key (Key_Int key) (iter a) = Some v"
  using assms indexed_entry_sound [OF assms(1), of key]
  by (auto simp: get_indexed_int_def lookup_key_def)

lemma get_positioned_int_sound:
  assumes wf: "array_wf a" and r: "get_positioned_int a key first stride = Some v"
  shows "lookup_key (Key_Int key) (iter a) = Some v"
proof -
  have np: "\<not> is_packed a" using r hash_len_iter [OF wf] by (auto simp: get_positioned_int_def)
  from r np consider
      pos where "vec_get (iter a) pos = Some (Key_Int key, v)"
    | "get_indexed_int a key = Some v"
    by (auto simp: get_positioned_int_def hash_len_iter [OF wf] hash_entry_at_iter [OF wf]
        bind_eq_Some_conv split: option.splits if_splits prod.splits)
  then show ?thesis
    by cases (auto intro: entry_lookup [OF array_wfD(2) [OF wf]] get_indexed_int_sound [OF wf])
qed

text \<open>With the first key and the stride of a verified prefix the positional read finds every
  integer key.\<close>

lemma positioned_candidate_exact:
  assumes "key = first + stride * int i" "stride \<noteq> 0" "in_i64 (key - first)" "i < 2 ^ 56"
  shows "positioned_candidate key first stride = Some i"
proof -
  have sub: "checked_sub key first = Some (stride * int i)"
    using assms(1,3) by (simp add: checked_sub_def checked_def)
  have i64: "in_i64 (int i)" "usize_try_from (int i) = Some i"
    using assms(4) by (auto simp: i64_simps usize_try_from_def usize_MAX_def)
  have div: "checked_rem (stride * int i) stride = Some 0"
    "checked_div (stride * int i) stride = Some (int i)"
    using assms(2,4) i64(1)
    by (auto simp: i64_MIN_def checked_rem_def checked_div_def checked_def sdiv_mult_self)
  show ?thesis
    unfolding positioned_candidate_def sub using assms(2) i64(2) div by auto
qed

lemma get_positioned_int_complete:
  assumes wf: "array_wf a" and np: "\<not> is_packed a"
    and e: "i < length (iter a)" "fst (iter a ! i) = Key_Int key"
    and hint: "key = first + stride * int i" "stride \<noteq> 0" "in_i64 (key - first)"
  shows "get_positioned_int a key first stride = Some (snd (iter a ! i))"
proof -
  have "i < 2 ^ 56" using e(1) keys_okD(3) [OF array_wfD(2) [OF wf]] by simp
  from positioned_candidate_exact [OF hint this]
  show ?thesis
    using e np by (cases "iter a ! i")
      (simp add: get_positioned_int_def hash_len_iter [OF wf] hash_entry_at_iter [OF wf] vec_get_def)
qed

subsection \<open>Key classification\<close>

lemma keys_run:
  "map fst es = map f [0..<length es] \<longleftrightarrow> (\<forall>i < length es. fst (es ! i) = f i)"
  by (subst list_eq_iff_nth_eq) simp

lemma nth_enumerate_fst:
  "(\<forall>n < length es. \<exists>v. es ! n = (f n, v)) \<longleftrightarrow> (\<forall>n < length es. fst (es ! n) = f n)"
  by (metis fst_conv prod.collapse)

lemma list_keys_iff: "list_keys es \<longleftrightarrow> map fst es = map (\<lambda>i. Key_Int (int i)) [0..<length es]"
  unfolding keys_run by (simp add: list_keys_def list_all_length nth_enumerate_eq)

lemma is_list_iff:
  assumes "array_wf a"
  shows "is_list a \<longleftrightarrow> map fst (iter a) = map (\<lambda>i. Key_Int (int i)) [0..<length (iter a)]"
proof (cases "storage a")
  case (Packed vs)
  then show ?thesis by (simp add: is_list_def iter_def keys_packed_entries)
next
  case (SmallHash slots)
  with array_wfD(1) [OF assms] obtain es where "length es \<le> 3" "slots = small_slots es" by auto
  with SmallHash show ?thesis
    unfolding keys_run
    by (simp add: is_list_def iter_def take_small_slots list_all_length nth_enumerate_eq
        nth_enumerate_fst del: storage_entries.simps(2))
qed (simp_all add: is_list_def iter_def list_keys_iff)

lemma str_index_empty:
  assumes "str_index_ok es si" shows "si = [] \<longleftrightarrow> (\<forall>s. Key_String s \<notin> fst ` set es)"
proof -
  have "si = [] \<longleftrightarrow> (\<forall>s. map_of si s = None)"
    by (cases si) (auto simp: map_of_eq_None_iff)
  with assms show ?thesis by (simp add: str_index_ok_def linear_find find_key_None)
qed

lemma ex_string_key:
  "list_ex (\<lambda>e. is_string_key (fst e)) es \<longleftrightarrow> (\<exists>s. Key_String s \<in> fst ` set es)"
  by (induction es) (auto elim!: is_string_key.elims)

lemma has_string_keys_iff:
  assumes wf: "array_wf a"
  shows "has_string_keys a \<longleftrightarrow> (\<exists>s. Key_String s \<in> fst ` set (iter a))"
proof (cases "storage a")
  case (Packed vs)
  then show ?thesis by (simp add: has_string_keys_def iter_def key_in_packed_entries)
next
  case (SmallHash slots)
  with array_wfD(1) [OF wf] obtain es where es: "length es \<le> 3" "slots = small_slots es" by auto
  have "(case Some e of Some (Key_String _, _) \<Rightarrow> True | _ \<Rightarrow> False) = is_string_key (fst e)"
    for e :: "array_key \<times> 'a" by (cases e; cases "fst e") auto
  with SmallHash es show ?thesis
    by (simp add: has_string_keys_def iter_def take_small_slots list_ex_iff ex_string_key [symmetric]
        del: storage_entries.simps(2))
next
  case (LinearHash l)
  then show ?thesis by (simp add: has_string_keys_def iter_def ex_string_key)
next
  case (Hash es si ii p)
  with array_wfD(1) [OF wf] have "str_index_ok es si" by (simp add: hash_wfD)
  with Hash str_index_empty show ?thesis by (auto simp: has_string_keys_def iter_def)
qed

end
