(* ===== verification/Php_Array_Contract.thy ===== *)
theory Php_Array_Contract
  imports Php_Array_Reads
begin

text \<open>
  \<open>PhpArray\<close> as a whole: the constructors establish the invariant, the keyed operations
  interpret the ordered-map contract, and every array a sequence of operations builds is well
  formed. The marker of an array under a by-reference foreach links it to the cursor registry.
\<close>

subsection \<open>Construction\<close>

lemma next_ok_empty [simp]: "next_ok [] 0 init"
  by (simp add: next_ok_def i64_simps)

lemma array_wf_new [simp]: "array_wf array_new" "iter array_new = []"
  by (simp_all add: array_new_def array_wf_def iter_def packed_entries_def is_packed_def array_len_def)

lemma array_wf_with_packed [simp]:
  "array_wf (with_packed_capacity n)" "iter (with_packed_capacity n) = []"
  by (simp_all add: with_packed_capacity_def array_wf_def iter_def packed_entries_def is_packed_def
      array_len_def)

lemma hash_wf_empty [simp]: "hash_wf [] [] [] 0"
  by (simp add: hash_wf_def keys_ok_def str_index_ok_def int_index_ok_def linear_find find_key_def)

lemma small_new_wf [simp]: "storage_wf (SmallHash small_new)" "storage_entries (SmallHash small_new) = []"
proof -
  show "storage_wf (SmallHash small_new)"
    by (auto simp: small_new_slots keys_ok_def intro!: exI [of _ "[]"])
  show "storage_entries (SmallHash small_new) = []"
    using iter_small [of "[]"] by (simp add: small_new_slots del: storage_entries.simps(2))
qed

lemma array_wf_with_hash [simp]:
  "array_wf (with_hash_capacity n)" "iter (with_hash_capacity n) = []"
  by (simp_all add: with_hash_capacity_def array_wf_def iter_def is_packed_def
      del: storage_entries.simps(2) storage_wf.simps(2))

lemma linear_new_wf: "linear_wf (Linear [] 0 None)"
  by (simp add: linear_wf_def keys_ok_def)

lemma array_wf_with_deferred_hash [simp]:
  "array_wf (with_deferred_hash_capacity n :: 'v php_array)"
  "iter (with_deferred_hash_capacity n :: 'v php_array) = []"
proof -
  consider "n \<le> SMALL_HASH_CAPACITY" | "SMALL_HASH_CAPACITY < n" "n \<le> LINEAR_HASH_CAPACITY"
    | "LINEAR_HASH_CAPACITY < n" by linarith
  then have "array_wf (with_deferred_hash_capacity n :: 'v php_array) \<and>
      iter (with_deferred_hash_capacity n :: 'v php_array) = []"
  proof cases
    case 3
    then have "(with_deferred_hash_capacity n :: 'v php_array) = with_hash_capacity n"
      by (simp add: with_deferred_hash_capacity_def SMALL_HASH_CAPACITY_def LINEAR_HASH_CAPACITY_def)
    then show ?thesis by (metis array_wf_with_hash)
  qed (simp_all add: with_deferred_hash_capacity_def array_wf_def iter_def is_packed_def linear_new_wf
      del: storage_entries.simps(2) storage_wf.simps(2))
  then show "array_wf (with_deferred_hash_capacity n :: 'v php_array)"
    "iter (with_deferred_hash_capacity n :: 'v php_array) = []"
    by simp_all
qed

lemma fold_track_frame:
  "storage (fold track_nested_release_value vs a) = storage a"
  "next_int_key (fold track_nested_release_value vs a) = next_int_key a"
  "has_flag f a \<Longrightarrow> has_flag f (fold track_nested_release_value vs a)"
  by (induction vs arbitrary: a) (simp_all add: track_flag)

lemma packed_from_values_ok:
  assumes "length vs < 2 ^ 56"
  shows "array_wf (packed_from_values vs)" "iter (packed_from_values vs) = packed_entries vs"
proof -
  let ?b = "PhpArray (storage_bytes (length vs) False) (Packed []) (int (length vs))
      (if vs = [] then ARRAY_CURSOR_PRISTINE else ARRAY_INT_KEY_INITIALIZED) :: parray"
  show "iter (packed_from_values vs) = packed_entries vs"
    by (simp add: packed_from_values_def Let_def)
  have "has_flag ARRAY_INT_KEY_INITIALIZED ?b" if "vs \<noteq> []"
    using that by (simp add: has_flag_def)
  then have "has_flag ARRAY_INT_KEY_INITIALIZED (packed_from_values vs)" if "vs \<noteq> []"
    using that fold_track_frame(3) [of ARRAY_INT_KEY_INITIALIZED ?b vs]
    by (simp add: packed_from_values_def has_flag_def)
  then show "array_wf (packed_from_values vs)"
    using assms
    by (cases "vs = []") (auto simp: array_wf_def iter_def packed_from_values_def next_ok_def
        is_packed_def array_len_def fold_track_frame key_in_packed_entries i64_simps)
qed

subsection \<open>The ordered-map contract\<close>

text \<open>\<open>remove\<close> outside every by-reference foreach, where the registry is not consulted.\<close>

definition array_delete :: "nat \<Rightarrow> array_key \<Rightarrow> parray \<Rightarrow> parray \<times> bool" where
  "array_delete addr key a =
     (let ((a', _), found) = array_remove addr key a empty_registry in (a', found))"

lemma array_get_lookup: "array_wf a \<Longrightarrow> array_get a k = lookup_key k (iter a)"
  by (simp add: array_get_def get_int_lookup get_str_lookup(1) split: array_key.splits)

lemma array_set_ok:
  assumes "array_wf a" "write_safe a k"
  shows "array_wf (array_set k v a)" "iter (array_set k v a) = upsert k v (iter a)"
proof -
  have "array_wf (array_set k v a) \<and> iter (array_set k v a) = upsert k v (iter a)"
  proof (cases k)
    case (Key_Int n)
    with assms set_int_ok [of a n v] show ?thesis by (simp add: array_set_def write_safe_def)
  next
    case (Key_String s)
    with assms set_str_ok [of a s v] show ?thesis by (simp add: array_set_def write_safe_def)
  qed
  then show "array_wf (array_set k v a)" "iter (array_set k v a) = upsert k v (iter a)" by simp_all
qed

lemma array_remove_ok:
  assumes wf: "array_wf a" and r: "array_remove addr k a reg = ((a', reg'), found)"
  shows "array_wf a'" "iter a' = remove_key k (iter a)" "found = (lookup_key k (iter a) \<noteq> None)"
    "registry_wf reg \<Longrightarrow> registry_wf reg'"
proof -
  obtain res where t: "take_with_position addr k a reg = ((a', reg'), res)" "found = (res \<noteq> None)"
    using r by (auto simp: array_remove_def remove_with_position_def split: prod.splits)
  note T = take_with_position_ok [OF wf t(1)]
  show "array_wf a'" "iter a' = remove_key k (iter a)" by (fact T)+
  show "found = (lookup_key k (iter a) \<noteq> None)" using t(2) T(4) by (auto simp: lookup_key_def)
  show "registry_wf reg \<Longrightarrow> registry_wf reg'"
    unfolding T(5) by (auto simp: splice_wf split: option.splits)
qed

lemma array_delete_ok:
  assumes "array_wf a"
  shows "array_wf (fst (array_delete addr k a))"
    "iter (fst (array_delete addr k a)) = remove_key k (iter a)"
    "snd (array_delete addr k a) = (lookup_key k (iter a) \<noteq> None)"
proof -
  obtain a' reg' found where r: "array_remove addr k a empty_registry = ((a', reg'), found)"
    by (metis prod.collapse)
  from array_remove_ok [OF assms r] r
  show "array_wf (fst (array_delete addr k a))"
    "iter (fst (array_delete addr k a)) = remove_key k (iter a)"
    "snd (array_delete addr k a) = (lookup_key k (iter a) \<noteq> None)"
    by (simp_all add: array_delete_def)
qed

interpretation php_array: ordered_map iter array_wf write_safe array_get array_set "array_delete addr" for addr
  by unfold_locales
     (simp_all add: keys_okD(1) array_wfD(2) array_get_lookup array_set_ok array_delete_ok)

subsection \<open>Reachable arrays\<close>

text \<open>One operation on an array and the cursor registry. Integer writes are guarded by
  \<open>write_safe\<close>, growth by \<open>has_room\<close>, moving the pointer on by the 56 bits it has, and the append of
  a block of longs by the marker of the integer sequence, which it does not set
  (\<open>Array_Limits\<close>). The positional overwrite and the promotion of the keys to external storage,
  which \<open>Array_Limits\<close> shows to depart from the map, are not among the steps.\<close>

inductive array_step :: "nat \<Rightarrow> parray \<times> registry \<Rightarrow> parray \<times> registry \<Rightarrow> bool" for addr where
  step_set: "write_safe a k \<Longrightarrow> array_step addr (a, reg) (array_set k v a, reg)"
| step_push: "has_room a \<Longrightarrow> set_int_safe a (next_int_key a) \<Longrightarrow>
    array_step addr (a, reg) (push v a, reg)"
| step_read: "array_step addr (a, reg) (fst (get_str a s), reg)"
| step_remove: "array_step addr (a, reg) (fst (array_remove addr k a reg))"
| step_pop: "array_step addr (a, reg) (fst (pop a), reg)"
| step_shift: "array_step addr (a, reg) (fst (shift addr a reg))"
| step_chunk: "array_len a + length longs < 2 ^ 56 \<Longrightarrow> has_flag ARRAY_INT_KEY_INITIALIZED a \<or> longs = [] \<Longrightarrow>
    array_step addr (a, reg) (fst (push_packed_long_chunk longs a), reg)"
| step_next: "Suc (pointer_position a) < 2 ^ 56 \<Longrightarrow> array_step addr (a, reg) (fst (cursor_next a), reg)"
| step_prev: "array_step addr (a, reg) (fst (cursor_prev a), reg)"
| step_rewind: "array_step addr (a, reg) (cursor_rewind a, reg)"
| step_end: "array_step addr (a, reg) (fst (cursor_end a), reg)"
| step_splice: "array_step addr (a, reg) (a, splice other s d i reg)"

inductive_cases array_stepE: "array_step addr (a, reg) (a', reg')"

inductive reachable :: "nat \<Rightarrow> parray \<times> registry \<Rightarrow> bool" for addr where
  reach_new: "registry_wf reg \<Longrightarrow> reachable addr (array_new, reg)"
| reach_packed: "registry_wf reg \<Longrightarrow> reachable addr (with_packed_capacity n, reg)"
| reach_hash: "registry_wf reg \<Longrightarrow> reachable addr (with_deferred_hash_capacity n, reg)"
| reach_values: "registry_wf reg \<Longrightarrow> length vs < 2 ^ 56 \<Longrightarrow> reachable addr (packed_from_values vs, reg)"
| reach_step: "reachable addr s \<Longrightarrow> array_step addr s s' \<Longrightarrow> reachable addr s'"

lemma shift_empty_explicit:
  assumes wf: "storage_wf (storage b)" and np: "\<not> is_packed b" and e: "iter b = []"
  shows "shift addr b reg = ((b, reg), None)"
proof -
  have tr: "transition_to_hash b = b"
    using np by (simp add: transition_to_hash_def is_packed_def split: array_storage.splits)
  show ?thesis
  proof (cases "storage b")
    case (SmallHash slots)
    with wf obtain es where es: "storage b = SmallHash (small_slots es)" "length es \<le> 3" by auto
    with e have "es = []" by (simp add: iter_def del: storage_entries.simps(2))
    moreover have "set_storage (storage b) b = b" by (cases b) (simp add: set_storage_def)
    ultimately show ?thesis using es by (simp add: shift_def tr)
  qed (use np e in \<open>simp_all add: shift_def tr iter_def is_packed_def\<close>)
qed

lemma shift_empty:
  assumes wf: "array_wf a" and e: "iter a = []"
  shows "shift addr a reg = ((transition_to_hash a, reg), None)" "array_wf (transition_to_hash a)"
proof -
  note T = transition_to_hash_ok [OF array_wfD(1) [OF wf]]
  show "array_wf (transition_to_hash a)" using wf T by (simp add: array_wf_def has_flag_def)
  show "shift addr a reg = ((transition_to_hash a, reg), None)"
    using shift_after_transition [OF array_wfD(1) [OF wf]] shift_empty_explicit [OF T(1,3)] T(2) e
    by simp
qed

lemma array_step_wf:
  assumes "array_step addr s s'" "array_wf (fst s)" "registry_wf (snd s)"
  shows "array_wf (fst s') \<and> registry_wf (snd s')"
  using assms
proof cases
  case (step_set a k reg v)
  with assms array_set_ok(1) show ?thesis by simp
next
  case (step_push a reg v)
  with assms push_ok(1) [of a v] try_push_full [of a v] show ?thesis
    by (cases "can_push a") (auto simp: push_def)
next
  case (step_read a reg s)
  with assms get_str_lookup(3) show ?thesis by simp
next
  case (step_remove a reg k)
  obtain a' reg' found where r: "array_remove addr k a reg = ((a', reg'), found)" by (metis prod.collapse)
  from array_remove_ok(1,4) [OF _ r] step_remove assms r show ?thesis by simp
next
  case (step_pop a reg)
  with assms pop_ok(1) [of a] pop_empty [of a] show ?thesis by (cases "iter a = []") auto
next
  case (step_shift a reg)
  obtain a' reg' res where r: "shift addr a reg = ((a', reg'), res)" by (metis prod.collapse)
  from shift_ok(1,5) [OF _ _ r] shift_empty [of a] step_shift assms r show ?thesis
    by (cases "iter a = []") (auto simp: splice_wf)
next
  case (step_chunk a longs reg)
  have "array_wf (fst (push_packed_long_chunk longs a))"
  proof (cases "storage a")
    case (Packed vs)
    with step_chunk assms push_packed_long_chunk_ok(4) [of a vs longs] show ?thesis
      by (simp add: array_len_def)
  qed (use step_chunk assms in \<open>simp_all add: push_packed_long_chunk_def\<close>)
  with step_chunk assms show ?thesis by simp
next
  case (step_next a reg)
  then have "saturating_add_usize (pointer_position a) 1 = Suc (pointer_position a)"
    by (simp add: saturating_add_usize_def usize_MAX_def)
  with step_next assms show ?thesis by (simp add: cursor_next_def Let_def)
next
  case (step_prev a reg)
  with assms len_bound [of a] pointer_bound [of a] show ?thesis
    by (auto simp: cursor_prev_def Let_def)
next
  case (step_rewind a reg)
  have "array_wf (cursor_rewind a)"
    by (rule array_wf_frame [of a]) (use assms step_rewind in \<open>simp_all add: flag_rewind\<close>, simp_all add: cursor_rewind_def)
  with step_rewind assms show ?thesis by simp
next
  case (step_end a reg)
  with assms len_bound [of a] show ?thesis by (auto simp: cursor_end_def Let_def)
next
  case (step_splice a reg other s d i)
  with assms splice_wf show ?thesis by simp
qed

lemma reachable_wf: "reachable addr s \<Longrightarrow> array_wf (fst s) \<and> registry_wf (snd s)"
  by (induction rule: reachable.induct) (simp_all add: packed_from_values_ok array_step_wf)

end
