(* ===== verification/Array_Limits.thy ===== *)
theory Array_Limits
  imports Php_Array_Contract
begin

text \<open>
  Where the code departs from the ordered map: four concrete runs, each showing why a theorem
  about \<open>PhpArray\<close> carries a side condition. They are evaluated storage by storage, since the
  accounting of a write does not influence the stored entries.
\<close>

lemma storage_prepare [simp]: "storage (prepare_set_int key v a) = storage a"
  by (simp add: prepare_set_int_def Let_def)

lemma next_prepare_nonneg: "0 \<le> key \<Longrightarrow> next_int_key (prepare_set_int key v a) = next_int_key a"
  by (auto simp: prepare_set_int_def Let_def)

lemma storage_set_int_hash:
  assumes "storage a = Hash es si ii p"
    and "\<And>n. \<exists>n'. set_indexed_int es ii p n key v = (es', ii', p', n')"
  shows "storage (set_int key v a) = Hash es' si ii' p'"
proof -
  obtain n' where "set_indexed_int es ii p (next_int_key (prepare_set_int key v a)) key v = (es', ii', p', n')"
    using assms(2) by blast
  with assms(1) show ?thesis by (simp add: set_int_def set_int_indexed_def)
qed

lemma storage_set_int_append:
  "storage a = Packed vs \<Longrightarrow> 0 \<le> key \<Longrightarrow> next_int_key a = key \<Longrightarrow>
     storage (set_int key v a) = Packed (vs @ [v])"
  by (simp add: set_int_def Let_def next_prepare_nonneg)

lemmas indexed_eval = set_indexed_int_def extends_verified_prefix_def verified_int_position_def
  predicted_position_def entry_int_def vec_get_def checked_sub_def checked_mul_def checked_add_def
  checked_div_def checked_rem_def checked_def in_i64_def i64_MIN_def i64_MAX_def progression_key_def
  materialize_int_index_def set_entry_value_def i64_try_from_def usize_try_from_def usize_MAX_def

subsection \<open>A stride that overflows\<close>

text \<open>
  Extending a verified prefix of one key does not check that the stride is an \<open>i64\<close>: the key
  \<open>i64::MAX\<close> stored behind \<open>i64::MIN\<close> is an entry that no lookup finds.
\<close>

lemma stride_overflow_hides_key:
  fixes v w :: php_value
  defines "a \<equiv> set_int i64_MAX w (set_int i64_MIN v (with_hash_capacity 4))"
  shows "iter a = [(Key_Int i64_MIN, v), (Key_Int i64_MAX, w)]" "get_int a i64_MAX = None"
proof -
  have "storage (with_hash_capacity 4 :: parray) = Hash [] [] [] 0"
    by (simp add: with_hash_capacity_def SMALL_HASH_CAPACITY_def)
  then have "storage (set_int i64_MIN v (with_hash_capacity 4)) = Hash [(Key_Int i64_MIN, v)] [] [] 1"
    by (rule storage_set_int_hash) (simp add: indexed_eval)
  then have st: "storage a = Hash [(Key_Int i64_MIN, v), (Key_Int i64_MAX, w)] [] [] 2"
    unfolding a_def by (rule storage_set_int_hash) (simp add: indexed_eval)
  then show "iter a = [(Key_Int i64_MIN, v), (Key_Int i64_MAX, w)]" by (simp add: iter_def)
  show "get_int a i64_MAX = None"
    by (simp add: get_int_def st positional_probe_def indexed_int_position_def indexed_eval)
qed

subsection \<open>A stale cached long\<close>

lemma iiv_cached_long_small:
  "pos < 2 ^ 24 \<Longrightarrow> - (2 ^ 38) \<le> n \<Longrightarrow> n < 2 ^ 38 \<Longrightarrow> iiv_cached_long (iiv_new pos (VLong n)) = Some n"
  using iiv_packed(2) [of pos n]
  by (simp add: iiv_new_def LONG_MIN_def LONG_MAX_def POSITION_MASK_def)

text \<open>A write by position leaves the cached long of the integer index behind.\<close>

lemma positional_write_leaves_cached_long:
  defines "a \<equiv> set_int 7 (VLong 3) (set_int 5 (VLong 2) (set_int 9 (VLong 1) (with_hash_capacity 4)))"
  defines "b \<equiv> fst (replace_value_at 0 (VLong 42) a)"
  shows "get_int b 9 = Some (VLong 42)" "get_indexed_long b 9 = Some 1"
proof -
  have "storage (with_hash_capacity 4 :: parray) = Hash [] [] [] 0"
    by (simp add: with_hash_capacity_def SMALL_HASH_CAPACITY_def)
  then have "storage (set_int 9 (VLong 1) (with_hash_capacity 4)) = Hash [(Key_Int 9, VLong 1)] [] [] 1"
    by (rule storage_set_int_hash) (simp add: indexed_eval)
  then have "storage (set_int 5 (VLong 2) (set_int 9 (VLong 1) (with_hash_capacity 4))) =
      Hash [(Key_Int 9, VLong 1), (Key_Int 5, VLong 2)] [] [] 2"
    by (rule storage_set_int_hash) (simp add: indexed_eval)
  then have st: "storage a = Hash [(Key_Int 9, VLong 1), (Key_Int 5, VLong 2), (Key_Int 7, VLong 3)] []
      [(9, iiv_new 0 (VLong 1)), (5, iiv_new 1 (VLong 2)), (7, iiv_new 2 (VLong 3))] 0"
    unfolding a_def by (rule storage_set_int_hash) (simp add: indexed_eval numeral_2_eq_2)
  have "storage b = Hash [(Key_Int 9, VLong 42), (Key_Int 5, VLong 2), (Key_Int 7, VLong 3)] []
      [(9, iiv_new 0 (VLong 1)), (5, iiv_new 1 (VLong 2)), (7, iiv_new 2 (VLong 3))] 0"
    by (simp add: b_def replace_value_at_def Let_def get_value_at_def st vec_get_def set_entry_value_def)
  then show "get_int b 9 = Some (VLong 42)" "get_indexed_long b 9 = Some 1"
    by (simp_all add: get_int_def positional_probe_def get_indexed_long_def iiv_cached_long_small
        indexed_eval)
qed

subsection \<open>Promotion of a sparse array\<close>

lemma storage_set_int_first: "storage (set_int 0 v (with_packed_capacity n)) = Packed [v]"
  by (simp add: storage_set_int_append with_packed_capacity_def)

text \<open>
  Promoting the keys of an array that has lost its last element to external storage repacks the
  values but keeps \<open>next_int_key\<close>: the next explicit write goes to another key.
\<close>

lemma promotion_repacks_sparse_array:
  assumes a: "array_wf a" "iter a = [(Key_Int 0, v)]" "next_int_key a = 2" "has_room a"
    "set_int_safe a 2" and ext: "\<not> has_flag ARRAY_EXTERNAL_BYTE_KEYS a"
  shows "map fst (iter (set_int 2 w a)) = [Key_Int 0, Key_Int 2]"
    "map fst (iter (set_int 2 w (promote_keys_to_external_storage a))) = [Key_Int 0, Key_Int 1]"
proof -
  show "map fst (iter (set_int 2 w a)) = [Key_Int 0, Key_Int 2]"
    using set_int_ok [OF a(1,4,5)] a(2) by (simp add: upsert_keys find_key_def)
  let ?b = "promote_keys_to_external_storage a"
  have "\<not> has_string_keys a" using has_string_keys_iff [OF a(1)] a(2) by auto
  with ext have "storage ?b = storage (fold (\<lambda>(key, v) r.
        array_set (normalize_array_key_for_external_storage key False) v r)
      (iter a) (with_packed_capacity (array_len a)))" "next_int_key ?b = next_int_key a"
    by (simp_all only: promote_keys_to_external_storage_def Let_def if_False set_fields)
  then have "storage ?b = Packed [v]" "next_int_key ?b = 2"
    using a(2,3)
    by (simp_all add: array_set_def normalize_array_key_for_external_storage_def
        storage_set_int_first)
  then have "storage (set_int 2 w ?b) = Packed [v, w]"
    using storage_set_int_append [of ?b "[v]" 2 w] by simp
  then show "map fst (iter (set_int 2 w ?b)) = [Key_Int 0, Key_Int 1]"
    by (simp add: iter_def packed_entries_def)
qed

subsection \<open>A sequence that is not marked as started\<close>

lemma next_prepare_neg:
  assumes "key < 0" "next_int_key a = 0"
  shows "next_int_key (prepare_set_int key v a) =
    (if has_flag ARRAY_INT_KEY_INITIALIZED a then 0 else saturating_add_i64 key 1)"
proof -
  have keep: "has_flag ARRAY_INT_KEY_INITIALIZED (track_nested_release_value v
      (reserve_accounted_entries n h a)) = has_flag ARRAY_INT_KEY_INITIALIZED a"
    "has_flag ARRAY_INT_KEY_INITIALIZED (track_nested_release_value v a) =
      has_flag ARRAY_INT_KEY_INITIALIZED a" for n h
    by (simp_all add: track_nested_release_value_def has_flag_def mark_flag_def
        bit.conj_disj_distrib2 ARRAY_INT_KEY_INITIALIZED_def ARRAY_NESTED_RELEASE_CANDIDATE_def
        push_bit_eq_mult)
  show ?thesis using assms by (auto simp: prepare_set_int_def Let_def keep)
qed

text \<open>
  The key the next append takes, in an empty packed array, after a first negative key: that of
  a fresh array when the sequence has not been marked as started.
\<close>

lemma set_negative_key_next:
  assumes a: "array_wf a" "storage a = Packed []" and k: "in_i64 key" "key < 0"
  shows "next_int_key (set_int key v a) =
    (if has_flag ARRAY_INT_KEY_INITIALIZED a then 0 else key + 1)"
proof -
  have nx: "next_int_key a = 0" using array_wfD(5) [OF a(1)] a(2) by (simp add: is_packed_def array_len_def)
  obtain b where b: "b = prepare_set_int key v a" by blast
  have st: "storage b = Packed []" using a(2) b by simp
  let ?t = "transition_to_hash b"
  have T: "storage ?t = SmallHash (small_slots [])"
    using st by (simp add: transition_to_hash_def SMALL_HASH_CAPACITY_def small_new_slots)
  have "next_int_key b \<noteq> key"
    using next_prepare_neg [OF k(2) nx, of v] b k by (auto simp: saturating_add_i64_def i64_simps)
  with st have "set_int key v a = set_int_small key v ?t"
    using set_int_by_storage(3) [OF b st] by simp
  then have "next_int_key (set_int key v a) = bump_next key (next_int_key b)"
    using T by (simp add: set_int_small_def linear_find find_key_def SMALL_HASH_CAPACITY_def)
  then show ?thesis
    using next_prepare_neg [OF k(2) nx, of v] b k
    by (auto simp: bump_next_def saturating_add_i64_def i64_simps)
qed

text \<open>
  A block append does not mark the integer sequence as started, so an array emptied again takes
  the first negative key as the start of the sequence; one filled by single appends does not.
\<close>

lemma chunk_append_forgets_sequence:
  fixes v :: php_value
  defines "a \<equiv> fst (pop (fst (push_packed_long_chunk [1] array_new)))"
  defines "b \<equiv> fst (pop (push (VLong 1) array_new))"
  shows "iter a = []" "iter b = []"
    "next_int_key (set_int (-5) v a) = -4" "next_int_key (set_int (-5) v b) = 0"
proof -
  have a: "storage a = Packed []" "next_int_key a = 0" "cursor a = ARRAY_CURSOR_PRISTINE"
    by (simp_all add: a_def push_packed_long_chunk_def array_new_def i64_try_from_def i64_simps
        checked_add_def checked_def pop_def Let_def)
  have b: "storage b = Packed []" "next_int_key b = 0"
    by (simp_all add: b_def push_def try_push_steps can_push_def array_new_def get_int_def
        push_prepared_def prepare_push_def Let_def pop_def i64_MAX_def)
  have room: "has_room (array_new :: parray)" and safe: "set_int_safe (array_new :: parray) 0"
    by (simp_all add: has_room_def set_int_safe_def array_new_def iter_def i64_simps)
  have fa: "\<not> has_flag ARRAY_INT_KEY_INITIALIZED a"
    using a(3) by (simp add: has_flag_def ARRAY_CURSOR_PRISTINE_def ARRAY_INT_KEY_INITIALIZED_def
        push_bit_eq_mult)
  have "has_flag ARRAY_INT_KEY_INITIALIZED (push (VLong 1) array_new)"
    by (simp add: push_def try_push_steps can_push_def array_new_def get_int_def i64_MAX_def
        push_prepared_def prepare_push_def Let_def has_flag_def mark_flag_def
        track_nested_release_value_def ARRAY_CURSOR_PRISTINE_def ARRAY_INT_KEY_INITIALIZED_def
        push_bit_eq_mult)
  then have fb: "has_flag ARRAY_INT_KEY_INITIALIZED b" by (simp add: b_def has_flag_def)
  show "iter a = []" "iter b = []" using a(1) b(1) by (simp_all add: iter_def)
  have "array_wf a" "array_wf b"
    using a b by (simp_all add: array_wf_def iter_def is_packed_def array_len_def packed_entries_def)
  then show "next_int_key (set_int (-5) v a) = -4" "next_int_key (set_int (-5) v b) = 0"
    using set_negative_key_next [of a "-5" v] set_negative_key_next [of b "-5" v] a b fa fb
    by (simp_all add: i64_simps)
qed

end
