(* ===== verification/Array_Keys.thy ===== *)
theory Array_Keys
  imports Php_Array
begin

text \<open>
  Key normalisation: the canonical decimal strings are exactly the printed \<open>i64\<close> numbers, and
  the byte bridge embeds every byte string losslessly into UTF-8 text.
\<close>

subsection \<open>Decimal keys\<close>

text \<open>The decimal rendering of an integer, the reference the recogniser is compared with.\<close>

definition digit :: "nat \<Rightarrow> char" where
  "digit d = char_of (48 + d)"

fun show_nat :: "nat \<Rightarrow> byte_string" where
  "show_nat n = (if n < 10 then [digit n] else show_nat (n div 10) @ [digit (n mod 10)])"

declare show_nat.simps [simp del]

definition show_int :: "int \<Rightarrow> byte_string" where
  "show_int n = (if n < 0 then CHR ''-'' # show_nat (nat (- n)) else show_nat (nat n))"

lemma of_char_digit_nat [simp]: "d < 10 \<Longrightarrow> of_char (digit d) = (48 + d :: nat)"
  by (simp add: digit_def)

lemma of_char_int: "(of_char c :: int) = int (of_char c)"
  by (simp add: of_char_def horner_sum_bit_eq_take_bit)

lemma of_char_digit [simp]: "d < 10 \<Longrightarrow> of_char (digit d) = (48 + int d)"
  unfolding of_char_int by (simp del: of_nat_of_char)

lemma char_le_iff: "(c \<le> d) \<longleftrightarrow> (of_char c :: nat) \<le> of_char d"
  by (simp add: less_eq_char_def)

lemma is_digit_iff: "is_digit c \<longleftrightarrow> (\<exists>d < 10. c = digit d)"
proof
  assume "is_digit c"
  then have "48 \<le> (of_char c :: nat) \<and> (of_char c :: nat) \<le> 57"
    by (simp add: is_digit_def char_le_iff)
  then show "\<exists>d < 10. c = digit d"
    by (intro exI [of _ "of_char c - 48"]) (auto simp: digit_def)
next
  assume "\<exists>d < 10. c = digit d"
  then show "is_digit c" by (auto simp: is_digit_def digit_def char_le_iff)
qed

lemma digits_value_snoc: "digits_value (s @ [c]) = digits_value s * 10 + (of_char c - 48)"
  by (simp add: digits_value_def)

lemma digits_value_show_nat: "digits_value (show_nat n) = int n"
proof (induction n rule: show_nat.induct)
  case (1 n)
  show ?case
  proof (cases "n < 10")
    case True
    then show ?thesis by (simp add: show_nat.simps [of n] digits_value_def)
  next
    case False
    with 1 show ?thesis
      by (simp add: show_nat.simps [of n] digits_value_snoc zdiv_int zmod_int)
  qed
qed

text \<open>Digit strings without a leading zero.\<close>

definition canonical_digits :: "byte_string \<Rightarrow> bool" where
  "canonical_digits s \<longleftrightarrow> s \<noteq> [] \<and> list_all is_digit s \<and> hd s \<noteq> CHR ''0''"

lemma show_nat_not_Nil [simp]: "show_nat n \<noteq> []"
  by (simp add: show_nat.simps [of n])

lemma canonical_show_nat: "0 < n \<Longrightarrow> canonical_digits (show_nat n)"
proof (induction n rule: show_nat.induct)
  case (1 n)
  have d: "digit m \<noteq> CHR ''0''" if "0 < m" "m < 10" for m
  proof
    assume "digit m = CHR ''0''"
    then have "of_char (digit m) = (48 :: int)" by simp
    with that show False by simp
  qed
  show ?case
  proof (cases "n < 10")
    case True
    with 1 d show ?thesis by (auto simp: canonical_digits_def show_nat.simps [of n] is_digit_iff)
  next
    case False
    with 1 have "canonical_digits (show_nat (n div 10))" by simp
    moreover have "is_digit (digit (n mod 10))" unfolding is_digit_iff by (metis mod_less_divisor zero_less_numeral)
    ultimately show ?thesis
      using False by (simp add: canonical_digits_def show_nat.simps [of n])
  qed
qed

lemma digits_value_nonneg: "list_all is_digit s \<Longrightarrow> 0 \<le> digits_value s"
  by (induction s rule: rev_induct) (auto simp: digits_value_def is_digit_iff)

lemma digits_value_pos: "canonical_digits s \<Longrightarrow> 0 < digits_value s"
proof (induction s rule: rev_induct)
  case (snoc c s)
  then obtain d where d: "d < 10" "c = digit d" by (auto simp: canonical_digits_def is_digit_iff)
  show ?case
  proof (cases "s = []")
    case True
    have "of_char (digit 0) = (of_char (CHR ''0'') :: nat)" by simp
    then have "digit 0 = CHR ''0''" by (metis char_of_char)
    with True snoc.prems d have "d \<noteq> 0" by (metis append_Nil canonical_digits_def list.sel(1))
    with True d show ?thesis by (simp add: digits_value_def)
  next
    case False
    with snoc have "0 < digits_value s" by (auto simp: canonical_digits_def)
    with d show ?thesis by (simp add: digits_value_snoc)
  qed
qed (simp add: canonical_digits_def)

lemma show_nat_digits_value: "canonical_digits s \<Longrightarrow> show_nat (nat (digits_value s)) = s"
proof (induction s rule: rev_induct)
  case (snoc c s)
  then obtain d where d: "d < 10" "c = digit d" by (auto simp: canonical_digits_def is_digit_iff)
  show ?case
  proof (cases "s = []")
    case True
    with d show ?thesis by (simp add: digits_value_def show_nat.simps)
  next
    case False
    with snoc have s: "canonical_digits s" by (auto simp: canonical_digits_def)
    obtain m where m: "digits_value s = int m" "0 < m"
      using digits_value_pos [OF s] by (metis pos_int_cases)
    have v: "nat (digits_value (s @ [c])) = 10 * m + d"
      using m d by (simp add: digits_value_snoc)
    have "show_nat (10 * m + d) = show_nat m @ [digit d]"
      using d m by (subst show_nat.simps) auto
    with snoc.IH [OF s] v m d show ?thesis by simp
  qed
qed (simp add: canonical_digits_def)

lemma first_digit_iff: "CHR ''1'' \<le> c \<and> c \<le> CHR ''9'' \<longleftrightarrow> is_digit c \<and> c \<noteq> CHR ''0''"
proof -
  have "c = CHR ''0'' \<longleftrightarrow> (of_char c :: nat) = of_char (CHR ''0'')" by (metis char_of_char)
  then have "c = CHR ''0'' \<longleftrightarrow> (of_char c :: nat) = 48" by simp
  then show ?thesis by (auto simp: is_digit_def char_le_iff)
qed

lemma canonical_digits_Cons:
  "canonical_digits (c # rest) \<longleftrightarrow> CHR ''1'' \<le> c \<and> c \<le> CHR ''9'' \<and> list_all is_digit rest"
  using first_digit_iff [of c] by (auto simp: canonical_digits_def)

lemma show_nat_0: "show_nat 0 = [CHR ''0'']"
proof -
  have "of_char (digit 0) = (of_char (CHR ''0'') :: nat)" by simp
  then have "digit 0 = CHR ''0''" by (metis char_of_char)
  then show ?thesis by (simp add: show_nat.simps)
qed

lemma minus_not_digit: "\<not> (CHR ''1'' \<le> CHR ''-'')" "CHR ''-'' \<noteq> CHR ''0''"
  by (simp_all add: char_le_iff)

lemma canonical_decimal_cases:
  "canonical_decimal_array_key s =
     (if s = show_nat 0 then Some 0
      else if canonical_digits s then checked (digits_value s)
      else if s \<noteq> [] \<and> hd s = CHR ''-'' \<and> canonical_digits (tl s) then checked (- digits_value (tl s))
      else None)"
proof (cases s)
  case Nil
  then show ?thesis
    by (simp add: canonical_decimal_array_key_def canonical_digits_def show_nat_0)
next
  case (Cons c rest)
  have zero: "c # rest = show_nat 0 \<longleftrightarrow> c = CHR ''0'' \<and> rest = []" by (auto simp: show_nat_0)
  show ?thesis
  proof (cases "c = CHR ''-''")
    case True
    then have "c \<noteq> CHR ''0''" "\<not> CHR ''1'' \<le> c" using minus_not_digit by auto
    with True Cons show ?thesis unfolding Cons zero
      by (cases rest) (auto simp: canonical_decimal_array_key_def canonical_digits_Cons
          canonical_digits_def [of "[]"])
  next
    case False
    with Cons show ?thesis unfolding Cons zero
      by (auto simp: canonical_decimal_array_key_def canonical_digits_Cons)
  qed
qed

lemma show_int_pos: "0 < n \<Longrightarrow> canonical_digits (show_int n) \<and> digits_value (show_int n) = n"
  by (simp add: show_int_def canonical_show_nat digits_value_show_nat)

lemma canonical_digits_not_minus: "canonical_digits s \<Longrightarrow> hd s \<noteq> CHR ''-''"
  by (cases s) (auto simp: canonical_digits_Cons canonical_digits_def [of "[]"] minus_not_digit)

lemma show_int_neg:
  "n < 0 \<Longrightarrow> hd (show_int n) = CHR ''-'' \<and> show_int n \<noteq> [] \<and> canonical_digits (tl (show_int n)) \<and>
     digits_value (tl (show_int n)) = - n"
  by (simp add: show_int_def canonical_show_nat digits_value_show_nat)

lemma canonical_decimal_show_int:
  assumes "in_i64 n" shows "canonical_decimal_array_key (show_int n) = Some n"
proof -
  have z: "\<not> canonical_digits (show_nat 0)" by (simp add: show_nat_0 canonical_digits_def)
  consider "n = 0" | "0 < n" | "n < 0" by linarith
  then show ?thesis
  proof cases
    case 1
    then show ?thesis by (simp add: canonical_decimal_cases show_int_def)
  next
    case 2
    with show_int_pos [OF 2] z assms show ?thesis
      unfolding canonical_decimal_cases by (auto simp: checked_def)
  next
    case 3
    note N = show_int_neg [OF 3]
    have "\<not> canonical_digits (show_int n)" using N canonical_digits_not_minus by auto
    moreover have "show_int n \<noteq> show_nat 0" using N minus_not_digit(2) by (auto simp: show_nat_0)
    ultimately show ?thesis
      using N assms unfolding canonical_decimal_cases by (simp add: checked_def)
  qed
qed

lemma canonical_decimal_sound:
  assumes "canonical_decimal_array_key s = Some n"
  shows "in_i64 n \<and> s = show_int n"
proof -
  from assms consider
      "s = show_nat 0" "n = 0"
    | "canonical_digits s" "checked (digits_value s) = Some n"
    | "s \<noteq> []" "hd s = CHR ''-''" "canonical_digits (tl s)" "checked (- digits_value (tl s)) = Some n"
    unfolding canonical_decimal_cases by (auto split: if_splits)
  then show ?thesis
  proof cases
    case 1
    then show ?thesis by (simp add: show_int_def i64_simps)
  next
    case 2
    with digits_value_pos [OF 2(1)] show_nat_digits_value [OF 2(1)] show ?thesis
      by (auto simp: checked_def show_int_def split: if_splits)
  next
    case 3
    with digits_value_pos [OF 3(3)] show_nat_digits_value [OF 3(3)] show ?thesis
      by (auto simp: checked_def show_int_def split: if_splits) (metis list.collapse)
  qed
qed

subsection \<open>The byte bridge\<close>

lemma of_char_lt: "(of_char c :: nat) < 256"
  by (metis of_char_mod_256 mod_less_divisor zero_less_numeral)

lemma utf8_chars_of_byte: "utf8_chars (utf8_of_byte c @ s) = of_char c # utf8_chars s"
proof (cases "(of_char c :: nat) < 128")
  case True
  then show ?thesis by (simp add: utf8_of_byte_def)
next
  case False
  define n where "n = (of_char c :: nat)"
  have n: "128 \<le> n" "n < 256" using False of_char_lt [of c] by (simp_all add: n_def)
  then have q: "n div 64 = 2 \<or> n div 64 = 3" by auto
  then have "(192 + n div 64) mod 256 = 192 + n div 64" "(128 + n mod 64) mod 256 = 128 + n mod 64"
    by auto
  moreover have "(192 + n div 64) mod 32 = n div 64" using q by auto
  moreover have "(128 + n mod 64) mod 64 = n mod 64"
    using mod_mult_self2 [of "n mod 64" 64 2] by (simp add: add.commute)
  moreover have "n div 64 * 64 + n mod 64 = n" by (rule div_mult_mod_eq)
  ultimately show ?thesis
    using False q by (auto simp: utf8_of_byte_def Let_def n_def [symmetric])
qed

lemma utf8_chars_bridge: "utf8_chars (php_byte_string_from_bytes bs) = map of_char bs"
  by (induction bs) (simp_all add: php_byte_string_from_bytes_def utf8_chars_of_byte)

lemma byte_bridge_roundtrip: "php_byte_string_bytes (php_byte_string_from_bytes bs) = bs"
  by (simp add: php_byte_string_bytes_def utf8_chars_bridge comp_def)

lemma byte_bridge_inj: "php_byte_string_from_bytes bs = php_byte_string_from_bytes cs \<longleftrightarrow> bs = cs"
  by (metis byte_bridge_roundtrip)

lemma byte_bridge_ascii:
  "list_all (\<lambda>c. (of_char c :: nat) < 128) bs \<Longrightarrow> php_byte_string_from_bytes bs = bs"
  by (induction bs) (simp_all add: php_byte_string_from_bytes_def utf8_of_byte_def)

text \<open>Normalising the keys of an array for external storage never merges two of them.\<close>

lemma normalize_external_inj:
  "normalize_array_key_for_external_storage k False = normalize_array_key_for_external_storage k' False
     \<longleftrightarrow> k = k'"
  by (cases k; cases k') (simp_all add: normalize_array_key_for_external_storage_def byte_bridge_inj)

end
