(* ===== verification/Array_Properties.thy ===== *)
theory Array_Properties
  imports Array_Limits Array_Keys
begin

text \<open>
  The properties of \<open>PhpArray\<close> as a component: refinement to the ordered map, the behaviour of
  every operation on each branch, and the bounds under which they hold. The sample array of the
  instances is \<open>sample\<close>, the packed list of two longs.
\<close>

subsection \<open>A sample array\<close>

definition sample :: parray where
  "sample = packed_from_values [VLong 10, VLong 20]"

lemma sample_wf [simp]: "array_wf sample"
  unfolding sample_def by (rule packed_from_values_ok) simp

lemma iter_sample [simp]: "iter sample = [(Key_Int 0, VLong 10), (Key_Int 1, VLong 20)]"
  by (simp add: sample_def packed_from_values_ok packed_entries_def)

lemma storage_sample [simp]: "storage sample = Packed [VLong 10, VLong 20]"
  by (simp add: sample_def packed_from_values_def)

lemma next_sample [simp]: "next_int_key sample = 2"
  by (simp add: sample_def packed_from_values_def fold_track_frame)

lemma cursor_sample [simp]: "cursor sample = ARRAY_INT_KEY_INITIALIZED"
  by (simp add: sample_def packed_from_values_def track_nested_release_value_def)

lemma pointer_sample [simp]: "pointer_position sample = 0"
  by (simp add: pointer_position_mask ARRAY_INT_KEY_INITIALIZED_def take_bit_push_bit)

lemma room_sample [simp]: "has_room sample" "set_int_safe sample 2" "array_len sample = 2"
  by (simp_all add: has_room_def set_int_safe_def i64_simps array_len_def)

lemma safe_sample [simp]: "in_i64 n \<Longrightarrow> write_safe sample (Key_Int n)" "write_safe sample (Key_String s)"
  by (simp_all add: write_safe_def set_int_safe_def)

lemma can_push_sample [simp]: "can_push sample"
  by (simp add: can_push_def i64_simps)

subsection \<open>Refinement to the ordered map\<close>

text \<open>C1. Writing a value under an integer or string key, on whichever of the four storage tiers
  the array is in and through whatever promotion the write triggers, keeps the invariant and
  changes the entries exactly as an insertion into the ordered map does: an existing key keeps its
  place and a new one goes last. The write has to satisfy \<open>write_safe\<close>: the array holds fewer
  than \<open>2 ^ 56\<close> entries, the integer key is an \<open>i64\<close>, and where it would extend a verified prefix
  of one entry its distance from that entry's key is an \<open>i64\<close> too. Without the last condition the
  code loses the key (\<open>stride_overflow_hides_key\<close> of \<open>Array_Limits\<close>).\<close>

theorem array_set_refines:
  assumes "array_wf a" and "write_safe a k"
  shows "array_wf (array_set k v a) \<and> iter (array_set k v a) = upsert k v (iter a)"
  using array_set_ok [OF assms] by simp

theorem array_set_refines_witness:
  "iter (array_set (Key_String ''x'') VNull sample) =
     [(Key_Int 0, VLong 10), (Key_Int 1, VLong 20), (Key_String ''x'', VNull)]"
  using array_set_refines [of sample "Key_String ''x''" VNull] by (simp add: upsert_def find_key_def)

text \<open>A lookup after a write finds the written value under its key and the previous answer
  under every other key; the read may build the lazy string index but never changes the content.\<close>

theorem array_get_after_set:
  assumes "array_wf a" and "write_safe a k"
  shows "array_get (array_set k v a) k' = (if k' = k then Some v else array_get a k')"
  using assms by (rule php_array.lookup_update)

theorem array_get_after_set_witness:
  "array_get (array_set (Key_Int (-7)) VNull sample) (Key_Int 1) = Some (VLong 20)"
  using array_get_after_set [of sample "Key_Int (-7)" VNull "Key_Int 1"]
  by (simp add: array_get_def get_int_def i64_simps vec_get_def)

text \<open>C2. Removing a key deletes exactly its entry, keeps the order of the others and the
  invariant, leaves the next integer key alone, answers the position and value it took, and
  adjusts the foreach registry only when the array is marked as iterated by reference.\<close>

theorem take_with_position_refines:
  assumes "array_wf a" and "take_with_position addr key a reg = ((a', reg'), res)"
  shows "array_wf a' \<and> iter a' = remove_key key (iter a) \<and> next_int_key a' = next_int_key a \<and>
    res = map_option (\<lambda>pos. (pos, snd (iter a ! pos))) (find_key key (iter a)) \<and>
    reg' = (case find_key key (iter a) of None \<Rightarrow> reg
       | Some pos \<Rightarrow> if has_flag ARRAY_REFERENCE_FOREACH a then splice addr pos 1 0 reg else reg)"
  using take_with_position_ok [OF assms] by blast

theorem take_with_position_refines_witness:
  "\<exists>s. take_with_position 0 (Key_Int 0) sample empty_registry = (s, Some (0, VLong 10)) \<and>
     iter (fst s) = [(Key_Int 1, VLong 20)]"
proof -
  obtain a' reg' res where r: "take_with_position 0 (Key_Int 0) sample empty_registry = ((a', reg'), res)"
    by (metis prod.collapse)
  from take_with_position_refines [OF sample_wf r] r show ?thesis
    by (simp add: find_key_def remove_key_def vec_remove_def)
qed

text \<open>After a removal the key is absent and every other key keeps its value.\<close>

theorem array_get_after_delete:
  assumes "array_wf a"
  shows "array_get (fst (array_delete addr k a)) k' = (if k' = k then None else array_get a k')"
  using assms by (rule php_array.lookup_delete)

theorem array_get_after_delete_witness:
  "array_get (fst (array_delete 0 (Key_Int 0) sample)) (Key_Int 1) = Some (VLong 20)"
  using array_get_after_delete [OF sample_wf, of 0 "Key_Int 0" "Key_Int 1"]
  by (simp add: array_get_def get_int_def vec_get_def)

text \<open>Removing a key that a write has just added restores the entries and their order.\<close>

theorem array_delete_undoes_set:
  assumes "array_wf a" and "write_safe a k" and "array_get a k = None"
  shows "iter (fst (array_delete addr k (array_set k v a))) = iter a"
  using assms by (rule php_array.delete_update)

theorem array_delete_undoes_set_witness:
  "iter (fst (array_delete 0 (Key_String ''k'') (array_set (Key_String ''k'') VNull sample))) = iter sample"
  using array_delete_undoes_set [of sample "Key_String ''k''" 0 VNull]
  by (simp add: array_get_def get_str_def)

subsection \<open>Appending, popping and shifting\<close>

text \<open>C13. An append stores its value last, under the next integer key, and keeps the invariant; it
  is refused, and the array untouched, exactly when the next key is the last \<open>i64\<close> and taken.\<close>

theorem try_push_appends:
  assumes "array_wf a" and "has_room a" and "set_int_safe a (next_int_key a)"
  shows "if next_int_key a = i64_MAX \<and> lookup_key (Key_Int i64_MAX) (iter a) \<noteq> None
     then try_push v a = (a, False)
     else \<exists>a'. try_push v a = (a', True) \<and> array_wf a' \<and>
            iter a' = iter a @ [(Key_Int (next_int_key a), v)]"
proof -
  have "can_push a \<longleftrightarrow> \<not> (next_int_key a = i64_MAX \<and> lookup_key (Key_Int i64_MAX) (iter a) \<noteq> None)"
    by (auto simp: can_push_def get_int_lookup [OF assms(1)])
  then show ?thesis
    using push_ok [OF assms, of v] try_push_full [of a v] try_push_result [of v a] by auto
qed

theorem try_push_appends_witness:
  "\<exists>a'. try_push VNull sample = (a', True) \<and>
     iter a' = [(Key_Int 0, VLong 10), (Key_Int 1, VLong 20), (Key_Int 2, VNull)]"
  using try_push_appends [of sample VNull] by (auto simp: i64_simps)

text \<open>\<open>pop\<close> takes the last entry on every storage tier and keeps the invariant, in particular
  that the next integer key stays above every integer key left; on an empty array it answers
  nothing and changes nothing.\<close>

theorem pop_takes_last:
  assumes "array_wf a"
  shows "if iter a = [] then pop a = (a, None)
     else array_wf (fst (pop a)) \<and> iter (fst (pop a)) = butlast (iter a) \<and>
       snd (pop a) = Some (snd (last (iter a)))"
  using pop_ok [OF assms] pop_empty [OF assms] by auto

theorem pop_takes_last_witness:
  "snd (pop sample) = Some (VLong 20) \<and> iter (fst (pop sample)) = [(Key_Int 0, VLong 10)]"
  using pop_takes_last [of sample] by simp

text \<open>\<open>shift\<close> takes the first entry, renumbers the integer keys of the rest from zero in order,
  keeps the string keys and every value, restarts the next key behind the last number, keeps the
  invariant and moves the by-reference foreach cursors of the array by one.\<close>

theorem shift_takes_first:
  assumes "array_wf a" and "iter a \<noteq> []" and "shift addr a reg = ((a', reg'), res)"
  shows "array_wf a' \<and> res = Some (snd (hd (iter a))) \<and> map snd (iter a') = map snd (tl (iter a)) \<and>
    (\<forall>n. Key_Int n \<in> fst ` set (iter a') \<longleftrightarrow> 0 \<le> n \<and> n < next_int_key a') \<and>
    (\<forall>s. Key_String s \<in> fst ` set (iter a') \<longleftrightarrow> Key_String s \<in> fst ` set (tl (iter a))) \<and>
    reg' = (if has_flag ARRAY_REFERENCE_FOREACH a then splice addr 0 1 0 reg else reg)"
  using shift_ok [OF assms]
  by (simp add: shifted_def renumber_values renumber_int_keys renumber_str_keys)

theorem shift_takes_first_witness:
  "snd (shift 0 sample empty_registry) = Some (VLong 10)"
proof -
  obtain a' reg' res where r: "shift 0 sample empty_registry = ((a', reg'), res)" by (metis prod.collapse)
  from shift_takes_first [OF sample_wf _ r] r show ?thesis by simp
qed

subsection \<open>Invariants\<close>

text \<open>C4. Every array that the constructors and any sequence of writes, appends, reads, removals,
  pops, shifts and pointer moves can build, interleaved with splices of other arrays in the
  registry, is well formed, and so is the registry. Every write of the sequence satisfies
  \<open>write_safe\<close> and every append leaves fewer than \<open>2 ^ 56\<close> entries and a stride that is an \<open>i64\<close>;
  blocks of longs are appended once the integer sequence has begun. The positional
  overwrite and the promotion of keys to external storage, of which
  \<open>Array_Limits\<close> shows how they depart from the map, are not steps of the sequence.\<close>

theorem reachable_arrays_wf:
  assumes "reachable addr (a, reg)"
  shows "array_wf a \<and> registry_wf reg"
  using reachable_wf [OF assms] by simp

theorem reachable_arrays_wf_witness:
  "array_wf (fst (pop (push VNull array_new)))"
proof -
  have 1: "reachable 0 (array_new, empty_registry)" by (rule reach_new [OF registry_wf_empty])
  have 2: "array_step 0 (array_new, empty_registry) (push VNull array_new, empty_registry)"
    by (rule step_push) (simp_all add: has_room_def set_int_safe_def array_new_def iter_def i64_simps)
  have 3: "array_step 0 (push VNull array_new, empty_registry)
      (fst (pop (push VNull array_new)), empty_registry)" by (rule step_pop)
  from reachable_arrays_wf [OF reach_step [OF reach_step [OF 1 2] 3]] show ?thesis by simp
qed

text \<open>The transition from packed to explicit-key storage and the promotions of the inline and
  linear tables to the indexed table keep the entries, their order and a well-formed storage.\<close>

theorem promotions_keep_entries:
  assumes "storage_wf (storage a)"
  shows "f \<in> {transition_to_hash, promote_small_hash, promote_linear_hash} \<Longrightarrow>
    iter (f a) = iter a \<and> storage_wf (storage (f a))"
proof -
  have s: "iter (promote_small_hash a) = iter a \<and> storage_wf (storage (promote_small_hash a))"
  proof (cases "\<exists>slots. storage a = SmallHash slots")
    case True
    with assms obtain es where es: "storage a = SmallHash (small_slots es)" "length es \<le> 3" "keys_ok es"
      by auto
    have "iter a = es" using es by (simp add: iter_def del: storage_entries.simps(2))
    with promote_small_hash_ok [OF es] show ?thesis by (auto simp: iter_def)
  qed (use assms promote_small_hash_other [of a] in auto)
  have l: "iter (promote_linear_hash a) = iter a \<and> storage_wf (storage (promote_linear_hash a))"
  proof (cases "\<exists>l. storage a = LinearHash l")
    case True
    with assms promote_linear_hash_ok [of a] show ?thesis by (auto simp: iter_def)
  qed (use assms promote_linear_hash_other [of a] in auto)
  show "f \<in> {transition_to_hash, promote_small_hash, promote_linear_hash} \<Longrightarrow>
    iter (f a) = iter a \<and> storage_wf (storage (f a))"
    using s l transition_to_hash_ok [OF assms] by auto
qed

theorem promotions_keep_entries_witness: "iter (transition_to_hash sample) = iter sample"
  using promotions_keep_entries [of sample transition_to_hash] by simp

text \<open>C14. On the indexed table the position of an integer key, computed from the verified
  arithmetic prefix by a subtraction and a division or read from the integer index, is the
  position a linear scan of the entries finds.\<close>

theorem indexed_int_position_is_scan:
  assumes "hash_wf es si ii p"
  shows "indexed_int_position es ii p key = linear_find_int es key"
  using assms by (rule indexed_int_position_ok)

theorem indexed_int_position_is_scan_witness:
  "indexed_int_position (packed_entries [VLong 1, VLong 2, VLong 3, VLong 4]) []
     (length [VLong 1, VLong 2, VLong 3, VLong 4]) 2 = Some 2"
  using indexed_int_position_is_scan [OF packed_hash_wf [of "[VLong 1, VLong 2, VLong 3, VLong 4]"], of 2]
  by (simp add: linear_find find_packed_int)

text \<open>Inserting under an integer key into the indexed table keeps all three indexes right,
  through prefix extension, materialisation of the index and plain insertion, and keeps every
  cached long equal to the entry it stands for.\<close>

theorem set_indexed_int_keeps_indexes:
  assumes "hash_wf es si ii p" and "Suc (length es) < 2 ^ 56" and "in_i64 key"
    and "stride_safe es ii p key" and "cache_ok es ii"
    and "set_indexed_int es ii p nxt key v = (es', ii', p', nxt')"
  shows "es' = upsert (Key_Int key) v es \<and> hash_wf es' si ii' p' \<and> cache_ok es' ii'"
  using set_indexed_int_spec [OF assms(1-4), of nxt v] assms(5,6) by auto

theorem set_indexed_int_keeps_indexes_witness:
  "\<exists>ii' p' n'. set_indexed_int [] [] 0 0 9 VNull = ([(Key_Int 9, VNull)], ii', p', n') \<and>
     hash_wf [(Key_Int 9, VNull)] [] ii' p'"
proof -
  obtain es' ii' p' n' where r: "set_indexed_int [] [] 0 0 9 VNull = (es', ii', p', n')"
    by (metis prod.collapse)
  have "stride_safe [] [] 0 (9 :: int)" "cache_ok [] []" "in_i64 9"
    by (simp_all add: stride_safe_def cache_ok_def i64_simps)
  from set_indexed_int_keeps_indexes [OF hash_wf_empty _ this(3,1,2) r] r show ?thesis
    by (auto simp: upsert_def find_key_def)
qed

subsection \<open>Bounds\<close>

text \<open>The one-word integer index value gives back its position for every position an array can
  have, and a long it claims to have cached is the long it was built from, whatever its sign.\<close>

theorem int_index_value_roundtrip:
  assumes "pos < 2 ^ 63"
  shows "iiv_position (iiv_new pos v) = pos \<and>
    (\<forall>n. iiv_cached_long (iiv_new pos v) = Some n \<longrightarrow> as_long v = Some n) \<and>
    iiv_position (iiv_clear_cached_long (iiv_new pos v)) = pos \<and>
    iiv_cached_long (iiv_clear_cached_long (iiv_new pos v)) = None"
  using assms iiv_cached_long_new [OF assms] by simp

theorem int_index_value_roundtrip_witness:
  "iiv_position (iiv_new 5 (VLong (-3))) = 5"
  using int_index_value_roundtrip [of 5 "VLong (-3)"] by simp

text \<open>Moving the internal pointer keeps each of the eight metadata flags, raising a flag keeps
  the position, and a position below \<open>2 ^ 56\<close> is read back exactly.\<close>

theorem pointer_and_flags_independent:
  assumes "metadata_flag f" and "pos < 2 ^ 56"
  shows "pointer_position (set_pointer pos a) = pos \<and> has_flag f (set_pointer pos a) = has_flag f a \<and>
    pointer_position (mark_flag f a) = pointer_position a"
  using assms by simp

theorem pointer_and_flags_independent_witness:
  "pointer_position (set_pointer 7 sample) = 7 \<and> has_flag ARRAY_INT_KEY_INITIALIZED (set_pointer 7 sample)"
  using pointer_and_flags_independent [of ARRAY_INT_KEY_INITIALIZED 7 sample]
  by (simp add: has_flag_def)

subsection \<open>The internal pointer and positional access\<close>

text \<open>C23. \<open>reset\<close> followed by \<open>next\<close> until the pointer is past the end yields every value once, in
  the order of the entries, and ends: one step more than the length is enough.\<close>

theorem cursor_walk_yields_values:
  assumes "array_wf a"
  shows "(let (b, v) = cursor_reset a in walk (Suc (array_len a)) b v) = map snd (iter a)"
  using assms by (rule cursor_reset_walk)

theorem cursor_walk_yields_values_witness:
  "(let (b, v) = cursor_reset sample in walk 3 b v) = [VLong 10, VLong 20]"
  using cursor_walk_yields_values [of sample] by (simp add: numeral_3_eq_3)

text \<open>\<open>prev\<close> after \<open>next\<close> returns the pointer to where it was and the value there.\<close>

theorem cursor_prev_undoes_next:
  assumes "array_wf a" and "pointer_position a < array_len a"
  shows "pointer_position (fst (cursor_prev (fst (cursor_next a)))) = pointer_position a \<and>
    snd (cursor_prev (fst (cursor_next a))) = cursor_current a"
  using cursor_prev_next [OF assms] by simp

theorem cursor_prev_undoes_next_witness:
  "snd (cursor_prev (fst (cursor_next sample))) = Some (VLong 10)"
  using cursor_prev_undoes_next [of sample]
  by (simp add: cursor_current_def vec_get_def)

text \<open>A removal leaves the internal pointer on the entry it was on, unless that is the entry
  removed.\<close>

theorem pointer_follows_entry:
  assumes "array_wf a" and "take_with_position addr key a reg = ((a', reg'), Some (pos, v))"
    and "pointer_position a < length (iter a)" and "pos \<noteq> pointer_position a"
  shows "iter a' ! pointer_position a' = iter a ! pointer_position a"
proof -
  note T = take_with_position_ok [OF assms(1,2)]
  from T(4) have f: "find_key key (iter a) = Some pos" by (cases "find_key key (iter a)") auto
  then have "pos < length (iter a)" by (simp add: find_key_SomeD)
  with T(2,6) f assms(3,4) show ?thesis
    by (auto simp: remove_key_def vec_remove_def nth_append min_def)
qed

theorem pointer_follows_entry_witness:
  "\<exists>a' reg'. take_with_position 0 (Key_Int 1) sample empty_registry = ((a', reg'), Some (1, VLong 20)) \<and>
     iter a' ! pointer_position a' = (Key_Int 0, VLong 10)"
proof -
  obtain a' reg' res where r: "take_with_position 0 (Key_Int 1) sample empty_registry = ((a', reg'), res)"
    by (metis prod.collapse)
  have res: "res = Some (1, VLong 20)"
    using take_with_position_ok(4) [OF sample_wf r] by (simp add: find_key_def)
  from pointer_follows_entry [OF sample_wf r [unfolded res]] r res show ?thesis by simp
qed

text \<open>A positioned integer read never answers a wrong value, whatever hint it is given, and
  finds an entry whenever the hint is the progression the entry lies on.\<close>

theorem get_positioned_int_correct:
  assumes "array_wf a"
  shows "(get_positioned_int a key first stride = Some v \<longrightarrow> array_get a (Key_Int key) = Some v) \<and>
    (\<not> is_packed a \<and> i < length (iter a) \<and> fst (iter a ! i) = Key_Int key \<and>
     key = first + stride * int i \<and> stride \<noteq> 0 \<and> in_i64 (key - first) \<longrightarrow>
     get_positioned_int a key first stride = Some (snd (iter a ! i)))"
  using get_positioned_int_sound [OF assms] get_positioned_int_complete [OF assms]
    array_get_lookup [OF assms] by auto

theorem get_positioned_int_correct_witness:
  "get_positioned_int (transition_to_hash sample) 1 0 1 = Some (VLong 20)"
proof -
  note T = transition_to_hash_ok [OF array_wfD(1) [OF sample_wf]]
  have "array_wf (transition_to_hash sample)"
    using T sample_wf by (simp add: array_wf_def has_flag_def del: sample_wf)
  from get_positioned_int_correct [OF this, of 1 0 1 _ 1] T show ?thesis by (simp add: i64_simps)
qed

text \<open>\<open>is_list\<close> holds exactly of the arrays whose keys are \<open>0, 1, 2, ...\<close> in order, and
  \<open>has_string_keys\<close> exactly of those with a string key.\<close>

theorem key_classification:
  assumes "array_wf a"
  shows "(is_list a \<longleftrightarrow> map fst (iter a) = map (\<lambda>i. Key_Int (int i)) [0..<length (iter a)]) \<and>
    (has_string_keys a \<longleftrightarrow> (\<exists>s. Key_String s \<in> fst ` set (iter a)))"
  using is_list_iff [OF assms] has_string_keys_iff [OF assms] by simp

theorem key_classification_witness: "is_list sample \<and> \<not> has_string_keys sample"
  using key_classification [of sample] by auto

subsection \<open>Keys\<close>

text \<open>C24. A string is taken as an integer key exactly when it is the decimal rendering of an
  \<open>i64\<close>: no sign but a leading minus, no leading zero, no negative zero and no overflow.\<close>

theorem canonical_decimal_array_key_iff:
  "canonical_decimal_array_key s = Some n \<longleftrightarrow> in_i64 n \<and> s = show_int n"
  using canonical_decimal_show_int canonical_decimal_sound by blast

text \<open>C25. The byte bridge is lossless: decoding the text form of any byte string gives the bytes
  back, and normalising array keys for external storage never merges two keys.\<close>

theorem byte_bridge_lossless:
  "php_byte_string_bytes (php_byte_string_from_bytes bs) = bs \<and>
   (normalize_array_key_for_external_storage k False = normalize_array_key_for_external_storage k' False
     \<longleftrightarrow> k = k')"
  using byte_bridge_roundtrip normalize_external_inj by blast

end
