(* ===== verification/Request_Memory.thy ===== *)
theory Request_Memory
  imports Prelude
begin

text \<open>
  Request-owned storage accounting (\<open>src/src/request_memory.rs\<close>): a budget counts the bytes its
  request has reserved, refuses a reservation that would pass its limit by unwinding with
  \<open>Exhausted\<close>, and is debited by whoever releases the storage, in whatever request that happens.

  Budgets are shared cells, so the model keeps them in a store: \<open>mw_budgets\<close> maps the identity of
  a budget to its state and \<open>mw_active\<close> is the thread-local active budget. What the code reads
  from its surroundings is the record \<open>env\<close>: the collector bytes sampled by the cycle collector,
  whether a string owner is still alive (\<open>Weak::strong_count\<close>), and whether the thread is already
  unwinding. An operation that may unwind returns \<open>Inl\<close> of the payload, with the state as the
  unwinding leaves it.
\<close>

subsection \<open>State\<close>

definition FINALIZATION_RESERVE :: nat where "FINALIZATION_RESERVE = 4 * 1024 * 1024"
definition EMERGENCY_RESERVE :: nat where "EMERGENCY_RESERVE = 64 * 1024"
definition STRING_SWEEP_FLOOR :: nat where "STRING_SWEEP_FLOOR = 4096"

record budget =
  used :: nat
  collector_bytes :: nat
  peak :: nat
  limit :: "nat option"
  exhausted :: bool
  exhausted_limit :: nat
  final_limit :: nat
  reporting :: bool
  strings :: "(nat \<times> (nat \<times> nat)) list"
  string_sweep_at :: nat
  emergency :: "nat option"

record exhausted_error =
  err_limit :: nat
  err_attempted :: nat

record env =
  env_active :: bool
  env_collector :: "nat option"
  env_alive :: "nat \<Rightarrow> bool"
  env_panicking :: bool

definition budget_default :: budget where
  "budget_default = \<lparr>used = 0, collector_bytes = 0, peak = 0, limit = None, exhausted = False,
     exhausted_limit = 0, final_limit = 0, reporting = False, strings = [], string_sweep_at = 0,
     emergency = None\<rparr>"

subsection \<open>Budget\<close>

text \<open>\<open>usage\<close> samples the collector storage of the active request and raises the peak.\<close>

definition sample_collector :: "env \<Rightarrow> budget \<Rightarrow> budget" where
  "sample_collector e b =
     (case env_collector e of
        Some bytes \<Rightarrow> if env_active e then b\<lparr>collector_bytes := bytes\<rparr> else b
      | None \<Rightarrow> b)"

definition total :: "budget \<Rightarrow> nat" where
  "total b = saturating_add_usize (used b) (collector_bytes b)"

definition usage :: "env \<Rightarrow> budget \<Rightarrow> budget \<times> nat" where
  "usage e b = (let b = sample_collector e b in (b\<lparr>peak := max (peak b) (total b)\<rparr>, total b))"

definition release :: "nat \<Rightarrow> budget \<Rightarrow> budget" where
  "release bytes b = b\<lparr>used := used b - bytes\<rparr>"

definition collect_strings :: "env \<Rightarrow> budget \<Rightarrow> budget" where
  "collect_strings e b =
     (let dead = filter (\<lambda>(_, owner, _). \<not> env_alive e owner) (strings b);
          live = filter (\<lambda>(_, owner, _). env_alive e owner) (strings b);
          released = foldl saturating_add_usize 0 (map (\<lambda>(_, _, bytes). bytes) dead)
      in release released
           (b\<lparr>strings := live,
              string_sweep_at := max (saturating_mul_usize (length live) 2) STRING_SWEEP_FLOOR\<rparr>))"

definition reset_peak :: "env \<Rightarrow> budget \<Rightarrow> budget" where
  "reset_peak e b = (let (b, u) = usage e b in b\<lparr>peak := u\<rparr>)"

definition is_limited :: "budget \<Rightarrow> bool" where
  "is_limited b \<longleftrightarrow> limit b \<noteq> None \<or> (exhausted b \<and> reporting b)"

definition set_limit :: "env \<Rightarrow> int \<Rightarrow> budget \<Rightarrow> budget \<times> bool" where
  "set_limit e lim b =
     (let b = collect_strings e b
      in if 0 \<le> lim
         then (let (b, u) = usage e b
               in if nat lim < u then (b, False) else (b\<lparr>limit := Some (nat lim)\<rparr>, True))
         else (b\<lparr>limit := None\<rparr>, True))"

text \<open>The limit reported on failure and the ceiling tested, or none when unlimited.\<close>

definition ceiling_of :: "budget \<Rightarrow> (nat \<times> nat) option" where
  "ceiling_of b =
     (if exhausted b \<and> reporting b then Some (exhausted_limit b, final_limit b)
      else map_option (\<lambda>l. (l, l)) (limit b))"

text \<open>\<open>checked_add\<close> and the comparison with the ceiling.\<close>

definition fits :: "nat \<Rightarrow> nat \<Rightarrow> nat \<Rightarrow> bool" where
  "fits u attempted ceiling \<longleftrightarrow> u + attempted \<le> usize_MAX \<and> u + attempted \<le> ceiling"

text \<open>The first failure publishes the exhausted state and frees the emergency reserve.\<close>

definition free_emergency :: "budget \<Rightarrow> budget" where
  "free_emergency b =
     (case emergency b of Some reserve \<Rightarrow> release reserve (b\<lparr>emergency := None\<rparr>) | None \<Rightarrow> b)"

definition publish_exhausted :: "env \<Rightarrow> nat \<Rightarrow> budget \<Rightarrow> budget" where
  "publish_exhausted e lim b =
     (if exhausted b then b
      else
        (let b = b\<lparr>exhausted := True, exhausted_limit := lim\<rparr>;
             (b, u) = usage e (free_emergency b)
         in b\<lparr>final_limit := saturating_add_usize u FINALIZATION_RESERVE\<rparr>))"

definition budget_check :: "env \<Rightarrow> nat \<Rightarrow> budget \<Rightarrow> budget \<times> exhausted_error option" where
  "budget_check e attempted b =
     (case ceiling_of b of
        None \<Rightarrow> (b, None)
      | Some (lim, ceiling) \<Rightarrow>
          (let (b, u) = usage e b
           in if fits u attempted ceiling then (b, None)
              else
                (let b = collect_strings e b; (b, u) = usage e b
                 in if fits u attempted ceiling then (b, None)
                    else if env_panicking e then (b, None)
                    else (publish_exhausted e lim b,
                          Some \<lparr>err_limit = lim, err_attempted = max attempted 1\<rparr>))))"

definition enforce :: "env \<Rightarrow> budget \<Rightarrow> budget \<times> exhausted_error option" where
  "enforce e b = budget_check e 0 b"

definition charge :: "env \<Rightarrow> nat \<Rightarrow> budget \<Rightarrow> budget \<times> exhausted_error option" where
  "charge e bytes b =
     (case budget_check e bytes b of
        (b, Some err) \<Rightarrow> (b, Some err)
      | (b, None) \<Rightarrow>
          (let b = b\<lparr>used := saturating_add_usize (used b) bytes\<rparr>;
               (b', u) = usage e b
           in (b'\<lparr>peak := max (peak b) u\<rparr>, None)))"

definition prepare_request :: "env \<Rightarrow> budget \<Rightarrow> budget \<times> exhausted_error option" where
  "prepare_request e b =
     (let b = b\<lparr>exhausted := False, reporting := False\<rparr>
      in case emergency b of
           Some _ \<Rightarrow> (b, None)
         | None \<Rightarrow>
             (case charge e EMERGENCY_RESERVE b of
                (b, Some err) \<Rightarrow> (b, Some err)
              | (b, None) \<Rightarrow> (b\<lparr>emergency := Some EMERGENCY_RESERVE\<rparr>, None)))"

text \<open>\<open>diagnostic_scope\<close> and the drop of its guard, which restores the previous flag.\<close>

definition diagnostic_scope :: "budget \<Rightarrow> budget \<times> bool" where
  "diagnostic_scope b = (b\<lparr>reporting := True\<rparr>, reporting b)"

definition drop_diagnostic_scope :: "bool \<Rightarrow> budget \<Rightarrow> budget" where
  "drop_diagnostic_scope previous b = b\<lparr>reporting := previous\<rparr>"

subsection \<open>The store of budgets and the allocations\<close>

record memory_world =
  mw_budgets :: "nat \<Rightarrow> budget"
  mw_active :: "nat option"

record allocation_record =
  alloc_budget :: "nat option"
  alloc_bytes :: nat

text \<open>Entering a budget returns the guard that restores the previous one.\<close>

definition enter :: "nat \<Rightarrow> memory_world \<Rightarrow> memory_world \<times> nat option" where
  "enter i w = (w\<lparr>mw_active := Some i\<rparr>, mw_active w)"

definition drop_scope :: "nat option \<Rightarrow> memory_world \<Rightarrow> memory_world" where
  "drop_scope previous w = w\<lparr>mw_active := previous\<rparr>"

definition at_budget :: "nat \<Rightarrow> env \<Rightarrow> memory_world \<Rightarrow> env" where
  "at_budget i e w = e\<lparr>env_active := (mw_active w = Some i)\<rparr>"

definition put_budget :: "nat \<Rightarrow> budget \<Rightarrow> memory_world \<Rightarrow> memory_world" where
  "put_budget i b w = w\<lparr>mw_budgets := (mw_budgets w)(i := b)\<rparr>"

definition charge_at :: "env \<Rightarrow> nat \<Rightarrow> nat \<Rightarrow> memory_world \<Rightarrow> memory_world \<times> exhausted_error option" where
  "charge_at e i bytes w =
     (let (b, err) = charge (at_budget i e w) bytes (mw_budgets w i) in (put_budget i b w, err))"

definition allocation_new ::
  "env \<Rightarrow> nat \<Rightarrow> memory_world \<Rightarrow> memory_world \<times> (exhausted_error + allocation_record)" where
  "allocation_new e bytes w =
     (case mw_active w of
        None \<Rightarrow> (w, Inr \<lparr>alloc_budget = None, alloc_bytes = bytes\<rparr>)
      | Some i \<Rightarrow>
          (case charge_at e i bytes w of
             (w, Some err) \<Rightarrow> (w, Inl err)
           | (w, None) \<Rightarrow> (w, Inr \<lparr>alloc_budget = Some i, alloc_bytes = bytes\<rparr>)))"

definition allocation_grow_to ::
  "env \<Rightarrow> nat \<Rightarrow> allocation_record \<Rightarrow> memory_world
     \<Rightarrow> memory_world \<times> (exhausted_error + allocation_record)" where
  "allocation_grow_to e bytes a w =
     (case alloc_budget a of
        None \<Rightarrow> allocation_new e (max bytes (alloc_bytes a)) w
      | Some i \<Rightarrow>
          if alloc_bytes a < bytes
          then (case charge_at e i (bytes - alloc_bytes a) w of
                  (w, Some err) \<Rightarrow> (w, Inl err)
                | (w, None) \<Rightarrow> (w, Inr (a\<lparr>alloc_bytes := bytes\<rparr>)))
          else (w, Inr a))"

definition allocation_release_bytes ::
  "nat \<Rightarrow> allocation_record \<Rightarrow> memory_world \<Rightarrow> memory_world \<times> allocation_record" where
  "allocation_release_bytes bytes a w =
     (let bytes = min bytes (alloc_bytes a);
          w = (case alloc_budget a of
                 None \<Rightarrow> w | Some i \<Rightarrow> put_budget i (release bytes (mw_budgets w i)) w)
      in (w, a\<lparr>alloc_bytes := alloc_bytes a - bytes\<rparr>))"

definition allocation_clone ::
  "env \<Rightarrow> allocation_record \<Rightarrow> memory_world \<Rightarrow> memory_world \<times> (exhausted_error + allocation_record)" where
  "allocation_clone e a w = allocation_new e (alloc_bytes a) w"

definition allocation_drop :: "allocation_record \<Rightarrow> memory_world \<Rightarrow> memory_world" where
  "allocation_drop a w =
     (case alloc_budget a of
        None \<Rightarrow> w | Some i \<Rightarrow> put_budget i (release (alloc_bytes a) (mw_budgets w i)) w)"

text \<open>The module-level check and the reservation of a string, keyed by the address of its owner.
  \<open>size_of::<String>\<close> is 24.\<close>

definition memory_check :: "env \<Rightarrow> nat \<Rightarrow> memory_world \<Rightarrow> memory_world \<times> exhausted_error option" where
  "memory_check e bytes w =
     (case mw_active w of
        None \<Rightarrow> (w, None)
      | Some i \<Rightarrow>
          (let (b, err) = budget_check (at_budget i e w) bytes (mw_budgets w i)
           in (put_budget i b w, err)))"

definition memory_is_limited :: "memory_world \<Rightarrow> bool" where
  "memory_is_limited w = (case mw_active w of None \<Rightarrow> False | Some i \<Rightarrow> is_limited (mw_budgets w i))"

definition reserve_string_budget ::
  "env \<Rightarrow> nat \<Rightarrow> nat \<Rightarrow> nat \<Rightarrow> budget \<Rightarrow> budget \<times> exhausted_error option" where
  "reserve_string_budget e owner identity capacity b =
     (let bytes = saturating_add_usize capacity (24 + 16);
          previous = (case map_of (strings b) identity of None \<Rightarrow> 0 | Some (_, n) \<Rightarrow> n)
      in if bytes \<le> previous then (b, None)
         else
           (let sweep = (previous = 0 \<and>
                   max (string_sweep_at b) STRING_SWEEP_FLOOR \<le> length (strings b));
                b = (if sweep then collect_strings e b else b)
            in case charge e (bytes - previous) b of
                 (b, Some err) \<Rightarrow> (b, Some err)
               | (b, None) \<Rightarrow> (b\<lparr>strings := AList.update identity (owner, bytes) (strings b)\<rparr>, None)))"

definition reserve_string ::
  "env \<Rightarrow> nat \<Rightarrow> nat \<Rightarrow> nat \<Rightarrow> memory_world \<Rightarrow> memory_world \<times> exhausted_error option" where
  "reserve_string e owner identity capacity w =
     (case mw_active w of
        None \<Rightarrow> (w, None)
      | Some i \<Rightarrow>
          (let (b, err) = reserve_string_budget (at_budget i e w) owner identity capacity (mw_budgets w i)
           in (put_budget i b w, err)))"

end
