(* ===== verification/Memory_Accounting.thy ===== *)
theory Memory_Accounting
  imports Request_Memory
begin

text \<open>
  What the accounting promises: a reservation that succeeds keeps the request within its limit, a
  refused one fails only when even a sweep of dead strings does not help and books nothing, the
  peak bounds the usage, and the bytes booked in every budget are exactly those of the live
  allocations it owns, its string records and its emergency reserve.
\<close>

subsection \<open>Frames\<close>

lemma sample_frame [simp]:
  "used (sample_collector e b) = used b" "peak (sample_collector e b) = peak b"
  "limit (sample_collector e b) = limit b" "exhausted (sample_collector e b) = exhausted b"
  "exhausted_limit (sample_collector e b) = exhausted_limit b"
  "final_limit (sample_collector e b) = final_limit b" "reporting (sample_collector e b) = reporting b"
  "strings (sample_collector e b) = strings b" "emergency (sample_collector e b) = emergency b"
  by (simp_all add: sample_collector_def split: option.splits)

lemma sample_idem [simp]: "sample_collector e (sample_collector e b) = sample_collector e b"
  by (simp add: sample_collector_def split: option.splits)

text \<open>What \<open>usage\<close> answers, and that it changes only the sample and the peak.\<close>

definition sampled_total :: "env \<Rightarrow> budget \<Rightarrow> nat" where
  "sampled_total e b = total (sample_collector e b)"

lemma usage_simps [simp]:
  "snd (usage e b) = sampled_total e b" "total (fst (usage e b)) = sampled_total e b"
  "used (fst (usage e b)) = used b" "limit (fst (usage e b)) = limit b"
  "exhausted (fst (usage e b)) = exhausted b" "exhausted_limit (fst (usage e b)) = exhausted_limit b"
  "final_limit (fst (usage e b)) = final_limit b" "reporting (fst (usage e b)) = reporting b"
  "strings (fst (usage e b)) = strings b" "emergency (fst (usage e b)) = emergency b"
  "peak (fst (usage e b)) = max (peak b) (sampled_total e b)"
  by (simp_all add: usage_def sampled_total_def total_def Let_def)

lemma sampled_total_usage [simp]: "sampled_total e (fst (usage e b)) = sampled_total e b"
  by (simp add: usage_def sampled_total_def total_def Let_def sample_collector_def split: option.splits)

lemma usage_pair: "usage e b = (fst (usage e b), sampled_total e b)"
  by (metis prod.collapse usage_simps(1))

lemma saturating_mono: "a \<le> a' \<Longrightarrow> saturating_add_usize a c \<le> saturating_add_usize a' c"
  by (simp add: saturating_add_usize_def)

lemma release_simps [simp]:
  "used (release n b) = used b - n" "limit (release n b) = limit b" "peak (release n b) = peak b"
  "exhausted (release n b) = exhausted b" "reporting (release n b) = reporting b"
  "exhausted_limit (release n b) = exhausted_limit b" "final_limit (release n b) = final_limit b"
  "strings (release n b) = strings b" "emergency (release n b) = emergency b"
  "collector_bytes (release n b) = collector_bytes b"
  by (simp_all add: release_def)

lemma total_release: "total (release n b) \<le> total b"
  by (simp add: total_def saturating_mono)

lemma collect_frame [simp]:
  "limit (collect_strings e b) = limit b" "exhausted (collect_strings e b) = exhausted b"
  "reporting (collect_strings e b) = reporting b" "peak (collect_strings e b) = peak b"
  "exhausted_limit (collect_strings e b) = exhausted_limit b"
  "final_limit (collect_strings e b) = final_limit b" "emergency (collect_strings e b) = emergency b"
  "collector_bytes (collect_strings e b) = collector_bytes b"
  "strings (collect_strings e b) = filter (\<lambda>(_, owner, _). env_alive e owner) (strings b)"
  by (simp_all add: collect_strings_def Let_def)

lemma used_collect: "used (collect_strings e b) \<le> used b"
  by (simp add: collect_strings_def Let_def)

lemma sampled_total_collect: "sampled_total e (collect_strings e b) \<le> sampled_total e b"
  using used_collect [of e b]
  by (auto simp: sampled_total_def total_def sample_collector_def saturating_mono split: option.splits)

subsection \<open>The limit\<close>

text \<open>The outcome of a check in terms of the usage before and after a sweep.\<close>

definition refused :: "env \<Rightarrow> nat \<Rightarrow> budget \<Rightarrow> bool" where
  "refused e n b \<longleftrightarrow> \<not> env_panicking e \<and>
     (case ceiling_of b of None \<Rightarrow> False
      | Some (_, ceiling) \<Rightarrow> \<not> fits (sampled_total e (collect_strings e b)) n ceiling)"

lemma fits_antimono: "fits u n c \<Longrightarrow> u' \<le> u \<Longrightarrow> fits u' n c"
  by (simp add: fits_def)

lemma collect_usage: "sampled_total e (collect_strings e (fst (usage e b))) =
    sampled_total e (collect_strings e b)"
  by (simp add: sampled_total_def total_def collect_strings_def usage_def Let_def release_def
      sample_collector_def split: option.splits)

lemma budget_check_err:
  "snd (budget_check e n b) = (if refused e n b
     then Some \<lparr>err_limit = fst (the (ceiling_of b)), err_attempted = max n 1\<rparr> else None)"
proof (cases "ceiling_of b")
  case None
  then show ?thesis by (simp add: budget_check_def refused_def)
next
  case (Some p)
  obtain lim c where p: "p = (lim, c)" by fastforce
  let ?u = "fst (usage e b)"
  have "fits (sampled_total e (collect_strings e b)) n c" if "fits (sampled_total e b) n c"
    using that sampled_total_collect [of e b] by (rule fits_antimono)
  then show ?thesis
    using Some p usage_pair [of e b] usage_pair [of e "collect_strings e ?u"]
    by (auto simp: budget_check_def refused_def Let_def collect_usage split: prod.splits)
qed

text \<open>What a check may take off the count: the bytes of the records of dead strings and, when it publishes the
  exhausted state, the emergency reserve.\<close>

definition dead_string_bytes :: "env \<Rightarrow> budget \<Rightarrow> nat" where
  "dead_string_bytes e b =
     foldl saturating_add_usize 0 (map (\<lambda>(_, _, bytes). bytes) (filter (\<lambda>(_, owner, _). \<not> env_alive e owner) (strings b)))"

definition freed_reserve :: "budget \<Rightarrow> nat" where
  "freed_reserve b = (if exhausted b then 0 else case emergency b of None \<Rightarrow> 0 | Some reserve \<Rightarrow> reserve)"

definition fits_at_once :: "env \<Rightarrow> nat \<Rightarrow> budget \<Rightarrow> bool" where
  "fits_at_once e n b \<longleftrightarrow> (case ceiling_of b of None \<Rightarrow> True | Some (_, ceiling) \<Rightarrow> fits (sampled_total e b) n ceiling)"

lemma used_swept: "used (collect_strings e (fst (usage e b))) = used b - dead_string_bytes e b"
  by (simp add: collect_strings_def dead_string_bytes_def Let_def)

lemma used_published: "used (publish_exhausted e lim b) = used b - freed_reserve b"
  by (simp add: publish_exhausted_def free_emergency_def freed_reserve_def Let_def split_beta split: option.splits)

lemma check_refused:
  assumes "refused e n b"
  shows "used (fst (budget_check e n b)) = used b - dead_string_bytes e b - freed_reserve b"
    and "strings (fst (budget_check e n b)) = filter (\<lambda>(_, owner, _). env_alive e owner) (strings b)"
    and "exhausted (fst (budget_check e n b))" "limit (fst (budget_check e n b)) = limit b"
proof -
  obtain lim c where c: "ceiling_of b = Some (lim, c)" using assms by (auto simp: refused_def split: option.splits)
  let ?v = "fst (usage e (collect_strings e (fst (usage e b))))"
  have "\<not> fits (sampled_total e b) n c"
    using assms c fits_antimono [OF _ sampled_total_collect [of e b]] by (auto simp: refused_def)
  then have eq: "fst (budget_check e n b) = publish_exhausted e lim ?v"
    using assms c by (simp add: budget_check_def refused_def Let_def collect_usage split_beta)
  have "freed_reserve ?v = freed_reserve b" by (simp add: freed_reserve_def)
  then show "used (fst (budget_check e n b)) = used b - dead_string_bytes e b - freed_reserve b"
    by (simp add: eq used_published used_swept)
  show "strings (fst (budget_check e n b)) = filter (\<lambda>(_, owner, _). env_alive e owner) (strings b)"
    "exhausted (fst (budget_check e n b))" "limit (fst (budget_check e n b)) = limit b"
    by (simp_all add: eq publish_exhausted_def free_emergency_def Let_def split_beta split: option.splits)
qed

lemma check_granted:
  assumes "\<not> refused e n b"
  shows "used (fst (budget_check e n b)) = (if fits_at_once e n b then used b else used b - dead_string_bytes e b)"
proof (cases "ceiling_of b")
  case None
  then show ?thesis by (simp add: budget_check_def fits_at_once_def)
next
  case (Some p)
  obtain lim c where p: "p = (lim, c)" by fastforce
  then show ?thesis
    using assms Some by (auto simp: budget_check_def fits_at_once_def refused_def Let_def collect_usage used_swept split_beta)
qed

lemma budget_check_ok_fits:
  assumes "budget_check e n b = (b', None)" "ceiling_of b = Some (lim, c)" "\<not> env_panicking e"
  shows "fits (total b') n c" "sampled_total e b' = total b'" "used b' \<le> used b"
    "ceiling_of b' = ceiling_of b"
proof -
  let ?u = "fst (usage e b)" and ?v = "fst (usage e (collect_strings e (fst (usage e b))))"
  have "(b' = ?u \<and> fits (sampled_total e b) n c) \<or>
      (b' = ?v \<and> fits (sampled_total e (collect_strings e b)) n c)"
    using assms usage_pair [of e b] usage_pair [of e "collect_strings e ?u"]
    by (auto simp: budget_check_def Let_def collect_usage split: prod.splits if_splits)
  moreover have "used (collect_strings e ?u) \<le> used b" using used_collect [of e ?u] by simp
  ultimately show "fits (total b') n c" "sampled_total e b' = total b'" "used b' \<le> used b"
    "ceiling_of b' = ceiling_of b"
    by (auto simp: collect_usage ceiling_of_def)
qed

lemma saturating_add_exact: "a + b \<le> usize_MAX \<Longrightarrow> saturating_add_usize a b = a + b"
  by (simp add: saturating_add_usize_def)

lemma charge_steps:
  assumes "budget_check e n b = (b1, None)"
  defines "b2 \<equiv> b1\<lparr>used := saturating_add_usize (used b1) n\<rparr>"
  shows "charge e n b = ((fst (usage e b2))\<lparr>peak := max (peak b1) (sampled_total e b2)\<rparr>, None)"
  using assms(1) usage_pair [of e b2] by (auto simp: charge_def Let_def b2_def split: prod.splits)

lemma charge_refused:
  "budget_check e n b = (b1, Some err) \<Longrightarrow> charge e n b = (b1, Some err)"
  by (simp add: charge_def)

lemma charge_cases:
  obtains (refused) b1 err where "budget_check e n b = (b1, Some err)" "charge e n b = (b1, Some err)"
  | (booked) b1 where "budget_check e n b = (b1, None)" "snd (charge e n b) = None"
proof (cases "budget_check e n b")
  case (Pair b1 r)
  with charge_steps [of e n b b1] charge_refused [of e n b b1] that show thesis
    by (cases r) auto
qed

lemma charge_err: "snd (charge e n b) = snd (budget_check e n b)"
  by (cases rule: charge_cases [of e n b]) auto

lemma total_peak_irrelevant [simp]: "total (b\<lparr>peak := p\<rparr>) = total b"
  by (simp add: total_def)

lemma sampled_total_booked:
  "sampled_total e (b\<lparr>used := saturating_add_usize (used b) n\<rparr>) \<le> sampled_total e b + n"
  by (auto simp: sampled_total_def total_def sample_collector_def saturating_add_usize_def
      split: option.splits)

lemma charge_within_ceiling:
  assumes "charge e n b = (b', None)" "ceiling_of b = Some (lim, c)" "\<not> env_panicking e"
  shows "total b' \<le> c"
proof -
  obtain b1 where b1: "budget_check e n b = (b1, None)"
    using assms(1) charge_err [of e n b] by (cases "budget_check e n b") auto
  note C = budget_check_ok_fits [OF b1 assms(2,3)]
  have "total b' = sampled_total e (b1\<lparr>used := saturating_add_usize (used b1) n\<rparr>)"
    using assms(1) charge_steps [OF b1] by auto
  also have "\<dots> \<le> sampled_total e b1 + n" by (rule sampled_total_booked)
  also have "\<dots> \<le> c" using C(1,2) by (simp add: fits_def)
  finally show ?thesis .
qed

subsection \<open>The peak\<close>

definition peak_ok :: "budget \<Rightarrow> bool" where
  "peak_ok b \<longleftrightarrow> total b \<le> peak b"

lemma peak_ok_usage [simp]: "peak_ok (fst (usage e b))"
  by (simp add: peak_ok_def)

lemma peak_ok_release: "peak_ok b \<Longrightarrow> peak_ok (release n b)"
  using total_release [of n b] by (simp add: peak_ok_def)

lemma peak_ok_collect: "peak_ok b \<Longrightarrow> peak_ok (collect_strings e b)"
  using saturating_mono [OF used_collect [of e b], of "collector_bytes b"]
  by (simp add: peak_ok_def total_def)

lemma publish_form:
  fixes b :: budget and lim :: nat
  assumes "\<not> exhausted b"
  defines "c \<equiv> free_emergency (b\<lparr>exhausted := True, exhausted_limit := lim\<rparr>)"
  shows "publish_exhausted e lim b = (fst (usage e c))\<lparr>final_limit :=
      saturating_add_usize (sampled_total e c) FINALIZATION_RESERVE\<rparr>"
  using assms(1) usage_pair [of e c]
  by (auto simp: publish_exhausted_def Let_def c_def split: prod.splits)

text \<open>A property that sampling, sweeping and publishing keep is kept by a check.\<close>

lemma budget_check_induct:
  assumes "P b" "\<And>b. P b \<Longrightarrow> P (fst (usage e b))" "\<And>b. P b \<Longrightarrow> P (collect_strings e b)"
    "\<And>b lim. P b \<Longrightarrow> P (publish_exhausted e lim b)"
  shows "P (fst (budget_check e n b))"
proof (cases "ceiling_of b")
  case None
  with assms(1) show ?thesis by (simp add: budget_check_def)
next
  case (Some p)
  obtain lim c where p: "p = (lim, c)" by fastforce
  let ?u = "fst (usage e b)"
  let ?v = "fst (usage e (collect_strings e ?u))"
  have "fst (budget_check e n b) \<in> {?u, ?v, publish_exhausted e lim ?v}"
    using Some p usage_pair [of e b] usage_pair [of e "collect_strings e ?u"]
    by (auto simp: budget_check_def Let_def split: prod.splits)
  moreover have "P ?u" "P ?v" "P (publish_exhausted e lim ?v)" using assms by simp_all
  ultimately show ?thesis by auto
qed

lemma free_emergency_frame [simp]:
  "peak (free_emergency b) = peak b" "collector_bytes (free_emergency b) = collector_bytes b"
  "strings (free_emergency b) = strings b" "emergency (free_emergency b) = None"
  "used (free_emergency b) = used b - (case emergency b of Some r \<Rightarrow> r | None \<Rightarrow> 0)"
  by (simp_all add: free_emergency_def split: option.splits)

lemma total_final_irrelevant [simp]: "total (b\<lparr>final_limit := p\<rparr>) = total b"
  by (simp add: total_def)

lemma peak_ok_publish: "peak_ok b \<Longrightarrow> peak_ok (publish_exhausted e lim b)"
  by (cases "exhausted b") (simp_all add: publish_form peak_ok_def, simp add: publish_exhausted_def)

lemma peak_publish: "peak b \<le> peak (publish_exhausted e lim b)"
  by (cases "exhausted b") (simp_all add: publish_form, simp add: publish_exhausted_def)

lemma peak_ok_check: "peak_ok b \<Longrightarrow> peak_ok (fst (budget_check e n b))"
  by (rule budget_check_induct) (simp_all add: peak_ok_collect peak_ok_publish)

lemma peak_check: "peak b \<le> peak (fst (budget_check e n b))"
  by (rule budget_check_induct [where P = "\<lambda>x. peak b \<le> peak x"])
     (auto intro: order_trans [OF _ peak_publish])

lemma peak_ok_charge:
  assumes "peak_ok b" shows "peak_ok (fst (charge e n b))" "peak b \<le> peak (fst (charge e n b))"
proof -
  have "peak_ok (fst (charge e n b)) \<and> peak b \<le> peak (fst (charge e n b))"
  proof (cases rule: charge_cases [of e n b])
    case (refused b1 err)
    with peak_ok_check [OF assms, of e n] peak_check [of b e n] show ?thesis by simp
  next
    case (booked b1)
    with charge_steps [OF booked(1)] peak_check [of b e n] show ?thesis
      by (simp add: peak_ok_def)
  qed
  then show "peak_ok (fst (charge e n b))" "peak b \<le> peak (fst (charge e n b))" by simp_all
qed

subsection \<open>The ledger\<close>

definition record_bytes :: "(nat \<times> (nat \<times> nat)) list \<Rightarrow> nat" where
  "record_bytes rs = sum_list (map (\<lambda>(_, _, bytes). bytes) rs)"

definition booked :: "budget \<Rightarrow> nat" where
  "booked b = record_bytes (strings b) + (case emergency b of Some r \<Rightarrow> r | None \<Rightarrow> 0)"

text \<open>\<open>n\<close> is the number of bytes of the live allocations the budget owns.\<close>

definition balanced :: "budget \<Rightarrow> nat \<Rightarrow> bool" where
  "balanced b n \<longleftrightarrow> used b = booked b + n \<and> used b \<le> usize_MAX \<and> distinct (map fst (strings b))"

lemma record_bytes_filter:
  "record_bytes rs = record_bytes (filter P rs) + record_bytes (filter (\<lambda>r. \<not> P r) rs)"
  by (induction rs) (auto simp: record_bytes_def)

lemma foldl_saturating: "foldl saturating_add_usize a xs = (if xs = [] then a else min usize_MAX (a + sum_list xs))"
proof (induction xs arbitrary: a)
  case (Cons x xs)
  then show ?case by (cases xs) (auto simp: saturating_add_usize_def min_def)
qed simp

lemma balanced_usage [simp]: "balanced (fst (usage e b)) n = balanced b n"
  by (simp add: balanced_def booked_def)

lemma balanced_collect: "balanced b n \<Longrightarrow> balanced (collect_strings e b) n"
proof -
  assume b: "balanced b n"
  let ?P = "\<lambda>(_, owner, _). env_alive e owner"
  let ?dead = "filter (\<lambda>(_, owner, _). \<not> env_alive e owner) (strings b)"
  have dead: "?dead = filter (\<lambda>r. \<not> ?P r) (strings b)" by (rule filter_cong) auto
  have sum: "record_bytes (strings b) = record_bytes (filter ?P (strings b)) + record_bytes ?dead"
    unfolding dead by (rule record_bytes_filter)
  then have "record_bytes ?dead \<le> usize_MAX" using b by (simp add: balanced_def booked_def)
  then have rel: "foldl saturating_add_usize 0 (map (\<lambda>(_, _, bytes). bytes) ?dead) = record_bytes ?dead"
    by (auto simp: foldl_saturating record_bytes_def)
  have "used (collect_strings e b) = used b - record_bytes ?dead"
    using rel by (simp add: collect_strings_def Let_def)
  with b sum show "balanced (collect_strings e b) n"
    by (auto simp: balanced_def booked_def distinct_map_filter split_def)
qed

lemma balanced_publish: "balanced b n \<Longrightarrow> balanced (publish_exhausted e lim b) n"
proof (cases "exhausted b")
  case False
  assume b: "balanced b n"
  let ?c = "free_emergency (b\<lparr>exhausted := True, exhausted_limit := lim\<rparr>)"
  have "balanced ?c n" using b by (auto simp: balanced_def booked_def split: option.splits)
  then have "balanced (fst (usage e ?c)) n" by simp
  then show ?thesis unfolding publish_form [OF False] by (simp add: balanced_def booked_def)
qed (simp add: publish_exhausted_def)

lemma balanced_check: "balanced b n \<Longrightarrow> balanced (fst (budget_check e k b)) n"
  by (rule budget_check_induct) (simp_all add: balanced_collect balanced_publish)

lemma used_publish: "used (publish_exhausted e lim b) \<le> used b"
  by (cases "exhausted b") (simp_all add: publish_form, simp_all add: publish_exhausted_def)

lemma used_check: "used (fst (budget_check e k b)) \<le> used b"
  by (rule budget_check_induct [where P = "\<lambda>x. used x \<le> used b"])
     (auto intro: order_trans [OF used_collect] order_trans [OF used_publish])

lemma balanced_charge:
  assumes b: "balanced b n" and room: "used b + k \<le> usize_MAX"
  shows "balanced (fst (charge e k b)) (case snd (charge e k b) of None \<Rightarrow> n + k | Some _ \<Rightarrow> n)"
proof (cases rule: charge_cases [of e k b])
  case (refused b1 err)
  with balanced_check [OF b, of e k] show ?thesis by simp
next
  case (booked b1)
  have b1: "balanced b1 n" "used b1 \<le> used b"
    using balanced_check [OF b, of e k] used_check [of e k b] booked(1) by simp_all
  let ?b2 = "b1\<lparr>used := saturating_add_usize (used b1) k\<rparr>"
  have "balanced ?b2 (n + k)"
    using b1 room by (simp add: balanced_def booked_def saturating_add_exact)
  then have "balanced (fst (usage e ?b2)) (n + k)" by simp
  with charge_steps [OF booked(1)] show ?thesis by (simp add: balanced_def booked_def)
qed

lemma balanced_updates [simp]:
  "balanced (b\<lparr>limit := l\<rparr>) n = balanced b n" "balanced (b\<lparr>peak := p\<rparr>) n = balanced b n"
  "balanced (b\<lparr>reporting := r\<rparr>) n = balanced b n"
  "balanced (b\<lparr>exhausted := x\<rparr>) n = balanced b n"
  by (simp_all add: balanced_def booked_def)

lemma balanced_release: "balanced b n \<Longrightarrow> k \<le> n \<Longrightarrow> balanced (release k b) (n - k)"
  by (auto simp: balanced_def booked_def)

lemma set_limit_form:
  fixes e :: env and b :: budget
  defines "c \<equiv> collect_strings e b"
  shows "set_limit e lim b =
    (if lim < 0 then (c\<lparr>limit := None\<rparr>, True)
     else if nat lim < sampled_total e c then (fst (usage e c), False)
     else ((fst (usage e c))\<lparr>limit := Some (nat lim)\<rparr>, True))"
  by (simp add: set_limit_def Let_def case_prod_beta c_def)

lemma balanced_set_limit: "balanced b n \<Longrightarrow> balanced (fst (set_limit e lim b)) n"
  using balanced_collect [of b n e] by (simp add: set_limit_form)

lemma balanced_reset_peak: "balanced b n \<Longrightarrow> balanced (reset_peak e b) n"
  by (simp add: reset_peak_def Let_def case_prod_beta)

lemma emergency_publish: "emergency b = None \<Longrightarrow> emergency (publish_exhausted e lim b) = None"
  by (cases "exhausted b") (simp_all add: publish_form, simp add: publish_exhausted_def)

lemma emergency_charge: "emergency b = None \<Longrightarrow> emergency (fst (charge e k b)) = None"
proof -
  assume "emergency b = None"
  then have c: "emergency (fst (budget_check e k b)) = None"
    by (rule budget_check_induct [where P = "\<lambda>x. emergency x = None"])
       (simp_all add: emergency_publish)
  show ?thesis
  proof (cases rule: charge_cases [of e k b])
    case (refused b1 err)
    with c show ?thesis by simp
  next
    case (booked b1)
    with c charge_steps [OF booked(1)] show ?thesis by simp
  qed
qed

lemma balanced_prepare:
  assumes b: "balanced b n" and room: "used b + EMERGENCY_RESERVE \<le> usize_MAX"
  shows "balanced (fst (prepare_request e b)) n"
proof -
  let ?b = "b\<lparr>exhausted := False, reporting := False\<rparr>"
  have b': "balanced ?b n" using b by simp
  obtain c r where c: "charge e EMERGENCY_RESERVE ?b = (c, r)" by fastforce
  have bal: "balanced c (case r of None \<Rightarrow> n + EMERGENCY_RESERVE | Some _ \<Rightarrow> n)"
    using balanced_charge [OF b', of EMERGENCY_RESERVE e] room c by simp
  have none: "emergency c = None" if "emergency b = None"
    using emergency_charge [of ?b e EMERGENCY_RESERVE] that c by simp
  show ?thesis
  proof (cases "emergency b")
    case None
    show ?thesis
    proof (cases r)
      case None
      with \<open>emergency b = None\<close> bal none c show ?thesis
        by (simp add: prepare_request_def balanced_def booked_def)
    next
      case (Some err)
      with \<open>emergency b = None\<close> bal c show ?thesis by (simp add: prepare_request_def)
    qed
  next
    case (Some m)
    with b show ?thesis by (simp add: prepare_request_def)
  qed
qed

text \<open>String records. The record of an address belongs to the string that asks: the record holds a
  weak pointer, which keeps the address from being given to another string while it exists, and
  the string that asks is alive.\<close>

definition own_record :: "env \<Rightarrow> nat \<Rightarrow> nat \<Rightarrow> budget \<Rightarrow> bool" where
  "own_record e owner identity b \<longleftrightarrow>
     (case map_of (strings b) identity of None \<Rightarrow> True
      | Some (o', _) \<Rightarrow> o' = owner \<and> env_alive e owner)"

definition previous_bytes :: "nat \<Rightarrow> budget \<Rightarrow> nat" where
  "previous_bytes identity b = (case map_of (strings b) identity of None \<Rightarrow> 0 | Some (_, n) \<Rightarrow> n)"

lemma record_bytes_update:
  assumes "distinct (map fst rs)"
  shows "record_bytes (AList.update k (w, n) rs) +
    (case map_of rs k of None \<Rightarrow> 0 | Some (_, m) \<Rightarrow> m) = record_bytes rs + n"
  using assms
proof (induction rs)
  case (Cons r rs)
  obtain k' w' m' where r: "r = (k', w', m')" by (cases r) auto
  have "map_of rs k = None" if "k' = k" using Cons.prems that r by (simp add: map_of_eq_None_iff)
  with Cons r show ?case by (auto simp: record_bytes_def)
qed (simp add: record_bytes_def)

text \<open>A live record survives sweeps.\<close>

definition same_record :: "env \<Rightarrow> nat \<Rightarrow> (nat \<times> nat) option \<Rightarrow> budget \<Rightarrow> bool" where
  "same_record e identity r b \<longleftrightarrow> map_of (strings b) identity = r \<and>
     (case r of None \<Rightarrow> True | Some (w, _) \<Rightarrow> env_alive e w)"

lemma map_of_filter_alive:
  "distinct (map fst rs) \<Longrightarrow> map_of (filter (\<lambda>(_, w, _). P w) rs) k =
     (case map_of rs k of None \<Rightarrow> None | Some (w, n) \<Rightarrow> if P w then Some (w, n) else None)"
proof (induction rs)
  case (Cons r rs)
  obtain k' w n where r: "r = (k', w, n)" by (cases r) auto
  show ?case
  proof (cases "k' = k")
    case True
    then have none: "map_of rs k = None" using Cons.prems r by (simp add: map_of_eq_None_iff)
    with True r Cons show ?thesis by simp
  next
    case False
    with r Cons show ?thesis by simp
  qed
qed simp

lemma same_record_collect:
  "distinct (map fst (strings b)) \<Longrightarrow> same_record e i r b \<Longrightarrow> same_record e i r (collect_strings e b)"
  by (auto simp: same_record_def map_of_filter_alive split: option.splits)

lemma same_record_check:
  assumes "balanced b n" "same_record e i r b"
  shows "same_record e i r (fst (budget_check e k b))"
proof -
  have "balanced (fst (budget_check e k b)) n \<and> same_record e i r (fst (budget_check e k b))"
  proof (rule budget_check_induct [where P = "\<lambda>x. balanced x n \<and> same_record e i r x"])
    show "balanced x n \<and> same_record e i r x \<Longrightarrow> balanced (publish_exhausted e lim x) n \<and>
        same_record e i r (publish_exhausted e lim x)" for x lim
      using balanced_publish [of x n e lim]
      by (cases "exhausted x") (simp_all add: publish_form same_record_def,
          simp add: publish_exhausted_def)
    show "balanced x n \<and> same_record e i r x \<Longrightarrow> balanced (collect_strings e x) n \<and>
        same_record e i r (collect_strings e x)" for x
      using balanced_collect [of x n e] same_record_collect [of x e i r] by (simp add: balanced_def)
    show "balanced x n \<and> same_record e i r x \<Longrightarrow> balanced (fst (usage e x)) n \<and>
        same_record e i r (fst (usage e x))" for x by (simp add: same_record_def)
    show "balanced b n \<and> same_record e i r b" using assms by simp
  qed
  then show ?thesis by simp
qed

lemma same_record_charge:
  assumes "balanced b n" "same_record e i r b"
  shows "same_record e i r (fst (charge e k b))"
proof (cases rule: charge_cases [of e k b])
  case (refused b1 err)
  with same_record_check [OF assms, of k] show ?thesis by simp
next
  case (booked b1)
  with same_record_check [OF assms, of k] charge_steps [OF booked(1)] show ?thesis
    by (simp add: same_record_def)
qed

lemma own_record_same:
  "own_record e owner identity b \<Longrightarrow> same_record e identity (map_of (strings b) identity) b"
  by (auto simp: own_record_def same_record_def split: option.splits)

lemma balanced_reserve_string:
  assumes b: "balanced b n" and own: "own_record e owner identity b"
    and room: "used b + saturating_add_usize capacity 40 \<le> usize_MAX"
  shows "balanced (fst (reserve_string_budget e owner identity capacity b)) n"
proof -
  define bytes where "bytes = saturating_add_usize capacity (24 + 16)"
  define previous where "previous = previous_bytes identity b"
  define s where "s = (if previous = 0 \<and> max (string_sweep_at b) STRING_SWEEP_FLOOR \<le> length (strings b)
      then collect_strings e b else b)"
  obtain c r where c: "charge e (bytes - previous) s = (c, r)" by fastforce
  have eq: "reserve_string_budget e owner identity capacity b =
      (if bytes \<le> previous then (b, None)
       else case r of Some err \<Rightarrow> (c, Some err)
            | None \<Rightarrow> (c\<lparr>strings := AList.update identity (owner, bytes) (strings c)\<rparr>, None))"
    unfolding reserve_string_budget_def Let_def bytes_def [symmetric]
      previous_bytes_def [symmetric] previous_def [symmetric] s_def [symmetric] c by simp
  have sr: "same_record e identity (map_of (strings b) identity) s"
    using own_record_same [OF own] b by (auto simp: s_def balanced_def intro: same_record_collect)
  have bs: "balanced s n" "used s \<le> used b"
    using b balanced_collect [OF b, of e] used_collect [of e b] by (simp_all add: s_def)
  have "used s + (bytes - previous) \<le> usize_MAX" using bs(2) room by (simp add: bytes_def)
  from balanced_charge [OF bs(1) this, of e] c
  have bc: "balanced c (case r of None \<Rightarrow> n + (bytes - previous) | Some _ \<Rightarrow> n)" by simp
  have "map_of (strings c) identity = map_of (strings b) identity"
    using same_record_charge [OF bs(1) sr, of "bytes - previous"] c by (simp add: same_record_def)
  then have rec: "record_bytes (AList.update identity (owner, bytes) (strings c)) + previous =
      record_bytes (strings c) + bytes"
    using record_bytes_update [of "strings c" identity owner bytes] bc
    by (simp add: previous_def previous_bytes_def balanced_def)
  show ?thesis
  proof (cases "bytes \<le> previous \<or> r \<noteq> None")
    case True
    with eq b bc show ?thesis by (auto split: option.splits)
  next
    case False
    with eq bc rec show ?thesis by (auto simp: balanced_def booked_def distinct_update)
  qed
qed

subsection \<open>Live allocations of several requests\<close>

definition owned :: "allocation_record list \<Rightarrow> nat \<Rightarrow> nat" where
  "owned live i = sum_list (map alloc_bytes (filter (\<lambda>a. alloc_budget a = Some i) live))"

definition world_balanced :: "memory_world \<Rightarrow> allocation_record list \<Rightarrow> bool" where
  "world_balanced w live \<longleftrightarrow> (\<forall>i. balanced (mw_budgets w i) (owned live i))"

definition room_for :: "memory_world \<Rightarrow> nat \<Rightarrow> bool" where
  "room_for w n \<longleftrightarrow> (\<forall>i. used (mw_budgets w i) + n \<le> usize_MAX)"

lemma owned_simps [simp]:
  "owned [] i = 0"
  "owned (a # live) i = (if alloc_budget a = Some i then alloc_bytes a else 0) + owned live i"
  "owned (xs @ ys) i = owned xs i + owned ys i"
  by (simp_all add: owned_def)

lemma world_balancedI:
  "(\<And>i. balanced (mw_budgets w i) (f i)) \<Longrightarrow> (\<And>i. f i = owned live i) \<Longrightarrow> world_balanced w live"
  by (simp add: world_balanced_def)

lemma world_balancedD: "world_balanced w live \<Longrightarrow> balanced (mw_budgets w i) (owned live i)"
  by (simp add: world_balanced_def)

lemma world_balanced_cong:
  "world_balanced w live \<Longrightarrow> (\<And>i. owned live i = owned live' i) \<Longrightarrow> world_balanced w live'"
  by (simp add: world_balanced_def)

lemma put_budget_same [simp]: "mw_budgets (put_budget i b w) j = (if j = i then b else mw_budgets w j)"
  "mw_active (put_budget i b w) = mw_active w"
  by (simp_all add: put_budget_def)

text \<open>One budget changes together with the bytes it owns; the others see no difference.\<close>

lemma world_put_owned:
  assumes "world_balanced w live" "balanced b (owned live' i)" "\<And>j. j \<noteq> i \<Longrightarrow> owned live j = owned live' j"
  shows "world_balanced (put_budget i b w) live'"
  unfolding world_balanced_def
proof
  fix j
  show "balanced (mw_budgets (put_budget i b w) j) (owned live' j)"
    using assms(2) world_balancedD [OF assms(1), of j] assms(3) [of j] by (cases "j = i") simp_all
qed

lemma charge_at_world:
  assumes w: "world_balanced w live" and room: "room_for w k" and r: "charge_at e i k w = (w', err)"
  shows "balanced (mw_budgets w' j) (owned live j + (if j = i \<and> err = None then k else 0))"
proof -
  obtain b where c: "charge (at_budget i e w) k (mw_budgets w i) = (b, err)" and w': "w' = put_budget i b w"
    using r by (auto simp: charge_at_def split: prod.splits)
  have "balanced (mw_budgets w i) (owned live i)" "used (mw_budgets w i) + k \<le> usize_MAX"
    using w room by (simp_all add: world_balanced_def room_for_def)
  from balanced_charge [OF this, of "at_budget i e w"] c
  have "balanced b (case err of None \<Rightarrow> owned live i + k | Some _ \<Rightarrow> owned live i)" by simp
  moreover have "balanced (mw_budgets w j) (owned live j)" using w by (simp add: world_balanced_def)
  ultimately show ?thesis unfolding w' by (auto split: option.splits)
qed

lemma allocation_new_world:
  assumes w: "world_balanced w live" and room: "room_for w k" and r: "allocation_new e k w = (w', res)"
  shows "world_balanced w' (case res of Inl _ \<Rightarrow> live | Inr a \<Rightarrow> a # live)"
proof (cases "mw_active w")
  case None
  with w r show ?thesis by (auto simp: allocation_new_def world_balanced_def)
next
  case (Some i)
  obtain w1 err where c: "charge_at e i k w = (w1, err)" by fastforce
  note C = charge_at_world [OF w room c]
  show ?thesis
  proof (cases err)
    case None
    with Some r c have "w' = w1" "res = Inr \<lparr>alloc_budget = Some i, alloc_bytes = k\<rparr>"
      by (simp_all add: allocation_new_def)
    with C None show ?thesis by (auto intro: world_balancedI [OF C])
  next
    case (Some x)
    with \<open>mw_active w = Some i\<close> r c have "w' = w1" "res = Inl x" by (simp_all add: allocation_new_def)
    with C Some show ?thesis by (simp add: world_balanced_def)
  qed
qed

lemma grow_to_world:
  assumes w: "world_balanced w (xs @ a # ys)" and room: "room_for w (max k (alloc_bytes a))"
    and r: "allocation_grow_to e k a w = (w', res)"
  shows "world_balanced w' (xs @ (case res of Inl _ \<Rightarrow> a | Inr a' \<Rightarrow> a') # ys)"
proof (cases "alloc_budget a")
  case None
  have "owned (xs @ a # ys) = owned (xs @ ys)" using None by (simp add: fun_eq_iff)
  then have "world_balanced w (xs @ ys)" using w by (simp add: world_balanced_def)
  moreover have "allocation_new e (max k (alloc_bytes a)) w = (w', res)"
    using r None by (simp add: allocation_grow_to_def)
  ultimately have "world_balanced w' (case res of Inl _ \<Rightarrow> xs @ ys | Inr a' \<Rightarrow> a' # xs @ ys)"
    using allocation_new_world [OF _ room] by blast
  then show ?thesis
    using None by (cases res) (auto elim!: world_balanced_cong)
next
  case (Some i)
  show ?thesis
  proof (cases "alloc_bytes a < k")
    case False
    with Some r w show ?thesis by (auto simp: allocation_grow_to_def)
  next
    case True
    obtain w1 err where c: "charge_at e i (k - alloc_bytes a) w = (w1, err)" by fastforce
    have "room_for w (k - alloc_bytes a)"
      unfolding room_for_def
    proof
      fix i
      have "used (mw_budgets w i) + max k (alloc_bytes a) \<le> usize_MAX" using room by (simp add: room_for_def)
      then show "used (mw_budgets w i) + (k - alloc_bytes a) \<le> usize_MAX" by linarith
    qed
    note C = charge_at_world [OF w this c]
    have "w' = w1 \<and> res = (case err of Some x \<Rightarrow> Inl x | None \<Rightarrow> Inr (a\<lparr>alloc_bytes := k\<rparr>))"
      using r Some True c by (auto simp: allocation_grow_to_def split: option.splits)
    with C Some True show ?thesis by (cases err) (auto intro!: world_balancedI [OF C])
  qed
qed

lemma release_bytes_world:
  assumes w: "world_balanced w (xs @ a # ys)"
    and r: "allocation_release_bytes k a w = (w', a')"
  shows "world_balanced w' (xs @ a' # ys)"
proof (cases "alloc_budget a")
  case None
  with r w show ?thesis by (auto simp: allocation_release_bytes_def world_balanced_def)
next
  case (Some i)
  let ?k = "min k (alloc_bytes a)"
  have "balanced (release ?k (mw_budgets w i)) (owned (xs @ a # ys) i - ?k)"
    using Some by (intro balanced_release world_balancedD [OF w]) simp
  moreover have "owned (xs @ a # ys) i - ?k = owned (xs @ (a\<lparr>alloc_bytes := alloc_bytes a - ?k\<rparr>) # ys) i"
    using Some by simp
  ultimately have "world_balanced (put_budget i (release ?k (mw_budgets w i)) w)
      (xs @ (a\<lparr>alloc_bytes := alloc_bytes a - ?k\<rparr>) # ys)"
    using Some by (intro world_put_owned [OF w]) simp_all
  then show ?thesis using r Some by (simp add: allocation_release_bytes_def Let_def)
qed

lemma drop_world:
  assumes w: "world_balanced w (xs @ a # ys)"
  shows "world_balanced (allocation_drop a w) (xs @ ys)"
proof (cases "alloc_budget a")
  case None
  with w show ?thesis by (auto simp: allocation_drop_def world_balanced_def)
next
  case (Some i)
  have "balanced (release (alloc_bytes a) (mw_budgets w i)) (owned (xs @ a # ys) i - alloc_bytes a)"
    using Some by (intro balanced_release world_balancedD [OF w]) simp
  then have "world_balanced (put_budget i (release (alloc_bytes a) (mw_budgets w i)) w) (xs @ ys)"
    using Some by (intro world_put_owned [OF w]) simp_all
  then show ?thesis using Some by (simp add: allocation_drop_def)
qed

text \<open>The operations as steps on the store and the list of live allocations, over whatever the
  environment answers at each of them.\<close>

inductive memory_step ::
  "memory_world \<times> allocation_record list \<Rightarrow> memory_world \<times> allocation_record list \<Rightarrow> bool" where
  mem_new: "room_for w k \<Longrightarrow> allocation_new e k w = (w', res) \<Longrightarrow>
    memory_step (w, live) (w', case res of Inl _ \<Rightarrow> live | Inr a \<Rightarrow> a # live)"
| mem_clone: "room_for w (alloc_bytes a) \<Longrightarrow> allocation_clone e a w = (w', res) \<Longrightarrow>
    memory_step (w, live) (w', case res of Inl _ \<Rightarrow> live | Inr a \<Rightarrow> a # live)"
| mem_grow: "room_for w (max k (alloc_bytes a)) \<Longrightarrow> allocation_grow_to e k a w = (w', res) \<Longrightarrow>
    memory_step (w, xs @ a # ys) (w', xs @ (case res of Inl _ \<Rightarrow> a | Inr a' \<Rightarrow> a') # ys)"
| mem_release: "allocation_release_bytes k a w = (w', a') \<Longrightarrow>
    memory_step (w, xs @ a # ys) (w', xs @ a' # ys)"
| mem_drop: "memory_step (w, xs @ a # ys) (allocation_drop a w, xs @ ys)"
| mem_check: "memory_step (w, live) (fst (memory_check e k w), live)"
| mem_string: "room_for w (saturating_add_usize capacity 40) \<Longrightarrow>
    (\<And>i. mw_active w = Some i \<Longrightarrow> own_record e owner identity (mw_budgets w i)) \<Longrightarrow>
    memory_step (w, live) (fst (reserve_string e owner identity capacity w), live)"
| mem_limit: "memory_step (w, live) (put_budget i (fst (set_limit e lim (mw_budgets w i))) w, live)"
| mem_prepare: "room_for w EMERGENCY_RESERVE \<Longrightarrow>
    memory_step (w, live) (put_budget i (fst (prepare_request e (mw_budgets w i))) w, live)"
| mem_reset_peak: "memory_step (w, live) (put_budget i (reset_peak e (mw_budgets w i)) w, live)"
| mem_diagnostic: "memory_step (w, live)
    (put_budget i (fst (diagnostic_scope (mw_budgets w i))) w, live)"
| mem_drop_diagnostic: "memory_step (w, live)
    (put_budget i (drop_diagnostic_scope r (mw_budgets w i)) w, live)"
| mem_enter: "memory_step (w, live) (fst (enter i w), live)"
| mem_leave: "memory_step (w, live) (drop_scope previous w, live)"

lemma world_put:
  "world_balanced w live \<Longrightarrow> (balanced (mw_budgets w i) (owned live i) \<Longrightarrow> balanced b (owned live i)) \<Longrightarrow>
     world_balanced (put_budget i b w) live"
  by (simp add: world_balanced_def)

lemma memory_step_balanced:
  "memory_step s s' \<Longrightarrow> world_balanced (fst s) (snd s) \<Longrightarrow> world_balanced (fst s') (snd s')"
proof (induction rule: memory_step.induct)
  case (mem_new w k e w' res live)
  then show ?case by (simp add: allocation_new_world)
next
  case (mem_clone w a e w' res live)
  then show ?case by (simp add: allocation_clone_def allocation_new_world)
next
  case (mem_grow w k a e w' res xs ys)
  then show ?case by (simp add: grow_to_world)
next
  case (mem_release k a w w' a' xs ys)
  then show ?case by (simp add: release_bytes_world)
next
  case (mem_drop w xs a ys)
  then show ?case by (simp add: drop_world)
next
  case (mem_check w live e k)
  then show ?case
    by (cases "mw_active w")
       (auto simp: memory_check_def case_prod_beta intro!: world_put balanced_check)
next
  case (mem_string w capacity e owner identity live)
  show ?case
  proof (cases "mw_active w")
    case None
    with mem_string show ?thesis by (simp add: reserve_string_def)
  next
    case (Some i)
    have own: "own_record (at_budget i e w) owner identity (mw_budgets w i)"
      using mem_string.hyps(2) [OF Some] by (auto simp: own_record_def at_budget_def split: option.splits)
    have "balanced (mw_budgets w i) (owned live i)" using mem_string.prems by (simp add: world_balanced_def)
    from balanced_reserve_string [OF this own, of capacity] mem_string.hyps(1) mem_string.prems
    show ?thesis
      using Some by (auto simp: reserve_string_def case_prod_beta room_for_def intro!: world_put)
  qed
next
  case (mem_prepare w e live i)
  then show ?case by (auto intro!: world_put balanced_prepare simp: room_for_def)
qed (auto simp: world_balanced_def enter_def drop_scope_def diagnostic_scope_def
    drop_diagnostic_scope_def balanced_set_limit balanced_reset_peak)

lemma memory_steps_balanced:
  "memory_step\<^sup>*\<^sup>* s s' \<Longrightarrow> world_balanced (fst s) (snd s) \<Longrightarrow> world_balanced (fst s') (snd s')"
  by (induction rule: rtranclp_induct) (auto intro: memory_step_balanced)

lemma balanced_default: "balanced budget_default 0"
  by (simp add: balanced_def booked_def budget_default_def record_bytes_def)

subsection \<open>Properties\<close>

text \<open>C16. Whatever requests run, nest and end, and in whatever order their storage is reserved, grown,
  cloned, released and dropped: the bytes used in each budget are those of the live allocations it
  owns plus its string records plus its emergency reserve. An allocation dropped inside another
  request is debited to its owner.\<close>

theorem used_is_ledger:
  assumes "memory_step\<^sup>*\<^sup>* (\<lparr>mw_budgets = \<lambda>_. budget_default, mw_active = None\<rparr>, []) (w, live)"
  shows "used (mw_budgets w i) = owned live i + record_bytes (strings (mw_budgets w i)) +
     (case emergency (mw_budgets w i) of Some r \<Rightarrow> r | None \<Rightarrow> 0)"
proof -
  have "world_balanced w live"
    using memory_steps_balanced [OF assms] by (simp add: world_balanced_def balanced_default)
  then show ?thesis using world_balancedD [of w live i] by (simp add: balanced_def booked_def)
qed

theorem used_is_ledger_witness:
  "\<exists>w live. memory_step\<^sup>*\<^sup>* (\<lparr>mw_budgets = \<lambda>_. budget_default, mw_active = None\<rparr>, []) (w, live) \<and>
     live \<noteq> [] \<and> used (mw_budgets w 3) = 96"
proof -
  define e where "e = \<lparr>env_active = False, env_collector = None, env_alive = \<lambda>_. True, env_panicking = False\<rparr>"
  define w1 where "w1 = \<lparr>mw_budgets = \<lambda>_. budget_default, mw_active = Some 3\<rparr>"
  obtain w2 res where r: "allocation_new e 96 w1 = (w2, res)" by fastforce
  have 1: "memory_step (\<lparr>mw_budgets = \<lambda>_. budget_default, mw_active = None\<rparr>, []) (w1, [])"
    using mem_enter [of "\<lparr>mw_budgets = \<lambda>_. budget_default, mw_active = None\<rparr>" "[]" 3]
    by (simp add: enter_def w1_def)
  have "room_for w1 96" by (simp add: room_for_def w1_def budget_default_def usize_MAX_def)
  from mem_new [OF this r, of "[]"]
  have 2: "memory_step (w1, []) (w2, case res of Inl _ \<Rightarrow> [] | Inr a \<Rightarrow> [a])" .
  have res: "res = Inr \<lparr>alloc_budget = Some 3, alloc_bytes = 96\<rparr>"
    "strings (mw_budgets w2 3) = []" "emergency (mw_budgets w2 3) = None"
    using r by (auto simp: allocation_new_def w1_def charge_at_def charge_def budget_check_def
        ceiling_of_def budget_default_def usage_def sample_collector_def Let_def e_def at_budget_def
        split: prod.splits)
  from 2 res(1) have "memory_step (w1, []) (w2, [\<lparr>alloc_budget = Some 3, alloc_bytes = 96\<rparr>])" by simp
  with 1 have s: "memory_step\<^sup>*\<^sup>* (\<lparr>mw_budgets = \<lambda>_. budget_default, mw_active = None\<rparr>, [])
      (w2, [\<lparr>alloc_budget = Some 3, alloc_bytes = 96\<rparr>])"
    by (meson rtranclp.rtrancl_into_rtrancl rtranclp.rtrancl_refl)
  from used_is_ledger [OF s, of 3] s res show ?thesis by (auto simp: record_bytes_def)
qed

text \<open>C21. Outside an unwinding thread, a reservation that returns leaves the usage, collector storage included,
  within the ceiling in force: the limit of the request or, while the engine reports an exhausted request,
  the reserve granted for that, which no change of the limit lifts. While a thread unwinds the check lets every
  reservation pass, so nothing is claimed then.\<close>

theorem charge_respects_ceiling:
  assumes "charge e n b = (b', None)" and "\<not> env_panicking e"
  shows "(exhausted b \<and> reporting b \<longrightarrow> total b' \<le> final_limit b) \<and>
    (\<forall>l. limit b = Some l \<and> \<not> (exhausted b \<and> reporting b) \<longrightarrow> total b' \<le> l)"
  using charge_within_ceiling [OF assms(1) _ assms(2)] by (auto simp: ceiling_of_def)

theorem charge_respects_ceiling_witness:
  "\<exists>b'. charge \<lparr>env_active = True, env_collector = Some 8, env_alive = \<lambda>_. True, env_panicking = False\<rparr>
     100 (budget_default\<lparr>limit := Some 128\<rparr>) = (b', None) \<and> total b' \<le> 128"
proof -
  let ?e = "\<lparr>env_active = True, env_collector = Some 8, env_alive = \<lambda>_. True, env_panicking = False\<rparr>"
  let ?b = "budget_default\<lparr>limit := Some 128\<rparr>"
  obtain b' r where c: "charge ?e 100 ?b = (b', r)" by fastforce
  have "r = None"
    using c by (auto simp: charge_def budget_check_def ceiling_of_def budget_default_def usage_def
        sample_collector_def total_def fits_def saturating_add_usize_def usize_MAX_def Let_def
        split: prod.splits)
  with charge_respects_ceiling [of ?e 100 ?b b'] c show ?thesis by (simp add: budget_default_def)
qed

text \<open>C22. Outside an unwinding thread a reservation is refused exactly when it does not fit under
  the ceiling even after every dead string has been swept; in an unwinding thread it never is. The error
  carries the limit and the size asked for, and nothing is booked: the count goes down by the bytes of the swept
  strings and, at the first refusal, by the emergency reserve, and by nothing else. A reservation that is
  granted books exactly its size, on the count as it was or, if it did not fit at first, on the swept count.\<close>

theorem charge_refused_iff:
  "snd (charge e n b) = (if refused e n b
     then Some \<lparr>err_limit = fst (the (ceiling_of b)), err_attempted = max n 1\<rparr> else None) \<and>
   used (fst (charge e n b)) =
     (if refused e n b then used b - dead_string_bytes e b - freed_reserve b
      else if fits_at_once e n b then saturating_add_usize (used b) n
      else saturating_add_usize (used b - dead_string_bytes e b) n) \<and>
   (refused e n b \<longrightarrow> strings (fst (charge e n b)) = filter (\<lambda>(_, owner, _). env_alive e owner) (strings b)
      \<and> exhausted (fst (charge e n b)) \<and> limit (fst (charge e n b)) = limit b)"
proof (cases rule: charge_cases [of e n b])
  case (refused b1 err)
  then have r: "refused e n b" using budget_check_err [of e n b] by (auto split: if_splits)
  have "charge e n b = budget_check e n b" using refused by simp
  then show ?thesis using budget_check_err [of e n b] check_refused [OF r] r by simp
next
  case (booked b1)
  then have r: "\<not> refused e n b" using budget_check_err [of e n b] by (auto split: if_splits)
  have "used (fst (charge e n b)) = saturating_add_usize (used b1) n"
    using charge_steps [OF booked(1)] by simp
  then show ?thesis using booked r check_granted [OF r] by simp
qed

theorem charge_refused_iff_witness:
  "snd (charge \<lparr>env_active = True, env_collector = None, env_alive = \<lambda>_. True, env_panicking = False\<rparr>
     200 (budget_default\<lparr>limit := Some 128, used := 100\<rparr>)) = Some \<lparr>err_limit = 128, err_attempted = 200\<rparr> \<and>
   used (fst (charge \<lparr>env_active = True, env_collector = None, env_alive = \<lambda>_. True, env_panicking = False\<rparr>
     200 (budget_default\<lparr>limit := Some 128, used := 100\<rparr>))) = 100"
proof -
  let ?e = "\<lparr>env_active = True, env_collector = None, env_alive = \<lambda>_. True, env_panicking = False\<rparr>"
  let ?b = "budget_default\<lparr>limit := Some 128, used := 100\<rparr>"
  have "refused ?e 200 ?b"
    by (simp add: refused_def ceiling_of_def budget_default_def fits_def)
  with charge_refused_iff [of ?e 200 ?b] show ?thesis
    by (simp add: ceiling_of_def budget_default_def dead_string_bytes_def freed_reserve_def)
qed

text \<open>The peak is never below the usage and never falls through a reservation.\<close>

theorem peak_bounds_usage:
  assumes "total b \<le> peak b"
  shows "total (fst (charge e n b)) \<le> peak (fst (charge e n b)) \<and> peak b \<le> peak (fst (charge e n b))"
  using peak_ok_charge [of b e n] assms by (simp add: peak_ok_def)

theorem peak_bounds_usage_witness:
  "total (fst (charge \<lparr>env_active = True, env_collector = None, env_alive = \<lambda>_. True, env_panicking = False\<rparr>
       7 budget_default)) \<le>
   peak (fst (charge \<lparr>env_active = True, env_collector = None, env_alive = \<lambda>_. True, env_panicking = False\<rparr>
       7 budget_default))"
  using peak_bounds_usage [of budget_default _ 7]
  by (simp add: budget_default_def total_def saturating_add_usize_def)

end
