(* ===== verification/Base64.thy ===== *)
theory Base64
  imports Prelude
begin

text \<open>
  \<open>src/src/base64.rs\<close>: the encoder works on chunks of three bytes in a \<open>u32\<close>, the decoders shift
  six bits at a time into a \<open>u32\<close> accumulator and emit a byte when eight are available. Bytes are
  \<open>8 word\<close>, the accumulator is \<open>32 word\<close>. Decoding inverts encoding in both modes, and the strict
  mode only ever rejects: what it accepts is what the loose mode answers.
\<close>

type_synonym byte = "8 word"

subsection \<open>Chunks\<close>

text \<open>\<open>slice::chunks\<close>: blocks of \<open>n\<close> elements, the last one possibly shorter.\<close>

function chunks :: "nat \<Rightarrow> 'a list \<Rightarrow> 'a list list" where
  "chunks n xs = (if xs = [] \<or> n = 0 then [] else take n xs # chunks n (drop n xs))"
  by pat_completeness auto
termination by (relation "measure (\<lambda>(n, xs). length xs)") auto

declare chunks.simps [simp del]

lemma chunks_Nil [simp]: "chunks n [] = []"
  by (simp add: chunks.simps)

lemma chunks_step: "xs \<noteq> [] \<Longrightarrow> 0 < n \<Longrightarrow> chunks n xs = take n xs # chunks n (drop n xs)"
  by (subst chunks.simps) simp

subsection \<open>The code\<close>

definition TABLE :: "byte list" where
  "TABLE = map of_char
     ''ABCDEFGHIJKLMNOPQRSTUVWXYZabcdefghijklmnopqrstuvwxyz0123456789+/''"

definition DECODE_TABLE :: "byte list" where
  "DECODE_TABLE =
     foldl (\<lambda>values index. values[unat (TABLE ! index) := of_nat index]) (replicate 256 255)
       [0..<length TABLE]"

definition sextet :: "nat \<Rightarrow> 32 word \<Rightarrow> byte" where
  "sextet shift triple = TABLE ! unat (drop_bit shift triple AND 0x3F)"

definition PAD :: byte where
  "PAD = of_char CHR ''=''"

definition encode_chunk :: "byte list \<Rightarrow> byte list" where
  "encode_chunk chunk =
     (let b0 = ucast (chunk ! 0) :: 32 word;
          b1 = (if 1 < length chunk then ucast (chunk ! 1) else 0);
          b2 = (if 2 < length chunk then ucast (chunk ! 2) else 0);
          triple = push_bit 16 b0 OR push_bit 8 b1 OR b2
      in [sextet 18 triple, sextet 12 triple,
          if 1 < length chunk then sextet 6 triple else PAD,
          if 2 < length chunk then sextet 0 triple else PAD])"

definition base64_encode :: "byte list \<Rightarrow> byte list" where
  "base64_encode data = concat (map encode_chunk (chunks 3 data))"

text \<open>One alphabet symbol of either decoder: the accumulator, its bits and the output.\<close>

definition absorb :: "byte \<Rightarrow> byte list \<times> 32 word \<times> nat \<Rightarrow> byte list \<times> 32 word \<times> nat" where
  "absorb val st =
     (case st of (out, buf, bits) \<Rightarrow>
        (let buf = push_bit 6 buf OR ucast val; bits = bits + 6
         in if 8 \<le> bits
            then (let bits = bits - 8
                  in (out @ [ucast (drop_bit bits buf)], buf AND (push_bit bits 1 - 1), bits))
            else (out, buf, bits)))"

definition loose_step :: "byte \<Rightarrow> byte list \<times> 32 word \<times> nat \<Rightarrow> byte list \<times> 32 word \<times> nat" where
  "loose_step b st =
     (let val = DECODE_TABLE ! unat b in if val = 255 then st else absorb val st)"

definition decode_loose :: "byte list \<Rightarrow> byte list" where
  "decode_loose input = fst (fold loose_step input ([], 0, 0))"

record strict_state =
  st_acc :: "byte list \<times> 32 word \<times> nat"
  st_digits :: nat
  st_padding :: nat
  st_saw_padding :: bool

definition is_base64_space :: "byte \<Rightarrow> bool" where
  "is_base64_space b \<longleftrightarrow> b = 10 \<or> b = 13 \<or> b = 32 \<or> b = 9"

fun strict_loop :: "byte list \<Rightarrow> strict_state \<Rightarrow> strict_state option" where
  "strict_loop [] st = Some st"
| "strict_loop (b # input) st =
     (let val = DECODE_TABLE ! unat b
      in if val = 255 then
           (if is_base64_space b then strict_loop input st
            else if b = PAD then
              strict_loop input (st\<lparr>st_saw_padding := True, st_padding := st_padding st + 1\<rparr>)
            else None)
         else if st_saw_padding st then None
         else strict_loop input (st\<lparr>st_digits := st_digits st + 1, st_acc := absorb val (st_acc st)\<rparr>))"

definition decode_strict :: "byte list \<Rightarrow> byte list option" where
  "decode_strict input =
     (case strict_loop input
             \<lparr>st_acc = ([], 0, 0), st_digits = 0, st_padding = 0, st_saw_padding = False\<rparr> of
        None \<Rightarrow> None
      | Some st \<Rightarrow>
          (let remainder = st_digits st mod 4
           in if remainder = 1 then None
              else if st_padding st \<noteq> 0 then
                (case (if remainder = 2 then Some 2 else if remainder = 3 then Some 1 else None) of
                   None \<Rightarrow> None
                 | Some expected \<Rightarrow>
                     if st_padding st \<noteq> expected then None else Some (fst (st_acc st)))
              else Some (fst (st_acc st))))"

definition base64_decode :: "byte list \<Rightarrow> bool \<Rightarrow> byte list option" where
  "base64_decode input strict = (if \<not> strict then Some (decode_loose input) else decode_strict input)"

subsection \<open>The tables invert each other\<close>

lemma length_TABLE [simp]: "length TABLE = 64"
  by (simp add: TABLE_def)

lemma distinct_alphabet:
  "distinct ''ABCDEFGHIJKLMNOPQRSTUVWXYZabcdefghijklmnopqrstuvwxyz0123456789+/''"
  by code_simp

lemma of_char_byte_inj: "(of_char c :: byte) = of_char d \<longleftrightarrow> c = d"
proof
  assume "(of_char c :: byte) = of_char d"
  then have "unat (of_nat (of_char c) :: byte) = unat (of_nat (of_char d) :: byte)"
    by (simp add: of_nat_of_char)
  moreover have "of_char x < (256 :: nat)" for x
    by (metis of_char_mod_256 mod_less_divisor zero_less_numeral)
  ultimately show "c = d" by (simp add: unat_of_nat take_bit_eq_mod)
qed simp

lemma distinct_TABLE: "distinct TABLE"
  unfolding TABLE_def using distinct_alphabet by (simp only: distinct_map inj_on_def of_char_byte_inj) simp

lemma foldl_update_nth:
  assumes "distinct (map f xs)" "\<And>x. x \<in> set xs \<Longrightarrow> f x < length ys" "x \<in> set xs"
  shows "foldl (\<lambda>vs i. vs[f i := g i]) ys xs ! f x = g x"
  using assms
proof (induction xs arbitrary: ys)
  case (Cons a xs)
  have keep: "foldl (\<lambda>vs i. vs[f i := g i]) zs xs ! p = zs ! p" if "p \<notin> f ` set xs" for zs p
    using that by (induction xs arbitrary: zs) auto
  show ?case
  proof (cases "x \<in> set xs")
    case True
    with Cons show ?thesis by simp
  next
    case False
    with Cons.prems have "x = a" "f a \<notin> f ` set xs" by auto
    with keep Cons.prems(2) show ?thesis by simp
  qed
qed simp

lemma decode_TABLE: "i < 64 \<Longrightarrow> DECODE_TABLE ! unat (TABLE ! i) = of_nat i"
proof -
  assume i: "i < 64"
  have "inj_on (\<lambda>j. unat (TABLE ! j)) {..<64}"
    using distinct_TABLE by (auto simp: inj_on_def nth_eq_iff_index_eq word_unat_eq_iff [symmetric])
  then have "distinct (map (\<lambda>j. unat (TABLE ! j)) [0..<64])"
    by (simp add: distinct_map atLeast0LessThan)
  moreover have "unat (TABLE ! j) < 256" for j using unsigned_less [of "TABLE ! j"] by simp
  ultimately show ?thesis
    unfolding DECODE_TABLE_def length_TABLE using i by (intro foldl_update_nth) auto
qed

subsection \<open>Decoding inverts encoding\<close>

lemma masks: "(0x3F :: 32 word) = mask 6" "push_bit n 1 - 1 = (mask n :: 32 word)"
  by (simp_all add: mask_eq_exp_minus_1 push_bit_eq_mult)

lemma sextet_decodes: "DECODE_TABLE ! unat (sextet k t) = ucast (drop_bit k t AND mask 6)"
proof -
  have "unat (drop_bit k t AND mask 6) < 2 ^ 6"
    unfolding take_bit_eq_mask [symmetric] unsigned_take_bit_eq by (rule take_bit_nat_less_exp)
  then show ?thesis
    by (simp add: sextet_def masks(1) decode_TABLE)
qed

lemma sextet_valid: "ucast (drop_bit k t AND mask 6 :: 32 word) \<noteq> (255 :: byte)"
proof
  assume "ucast (drop_bit k t AND mask 6 :: 32 word) = (255 :: byte)"
  then have "bit (ucast (drop_bit k t AND mask 6 :: 32 word) :: byte) 7 = bit (255 :: byte) 7" by simp
  then show False by (simp add: bit_simps)
qed

lemma bit_byte_high: "8 \<le> n \<Longrightarrow> \<not> bit (w :: byte) n"
  using bit_imp_le_length [of w n] by auto

lemma Suc_Suc_diff: "2 \<le> n \<Longrightarrow> Suc (Suc (n - 2)) = n"
  by simp

lemma absorb_four:
  fixes b0 b1 b2 :: byte and out
  defines "t \<equiv> push_bit 16 (ucast b0) OR push_bit 8 (ucast b1) OR ucast b2 :: 32 word"
  defines "v \<equiv> (\<lambda>k. ucast (drop_bit k t AND mask 6) :: byte)"
  shows "absorb (v 0) (absorb (v 6) (absorb (v 12) (absorb (v 18) (out, 0, 0)))) =
     (out @ [b0, b1, b2], 0, 0)"
  unfolding absorb_def Let_def masks
  apply (simp add: v_def)
  apply (intro conjI bit_word_eqI)
  apply (auto simp: t_def bit_simps bit_byte_high Suc_Suc_diff)
  done

text \<open>The tails of one and two bytes leave bits in the accumulator that are zero.\<close>

lemma absorb_two:
  fixes b0 :: byte and out
  defines "t \<equiv> push_bit 16 (ucast b0) :: 32 word"
  defines "v \<equiv> (\<lambda>k. ucast (drop_bit k t AND mask 6) :: byte)"
  shows "fst (absorb (v 12) (absorb (v 18) (out, 0, 0))) = out @ [b0]"
  unfolding absorb_def Let_def masks
  apply (simp add: v_def)
  apply (intro bit_word_eqI)
  apply (auto simp: t_def bit_simps bit_byte_high Suc_Suc_diff)
  done

lemma absorb_three:
  fixes b0 b1 :: byte and out
  defines "t \<equiv> push_bit 16 (ucast b0) OR push_bit 8 (ucast b1) :: 32 word"
  defines "v \<equiv> (\<lambda>k. ucast (drop_bit k t AND mask 6) :: byte)"
  shows "fst (absorb (v 6) (absorb (v 12) (absorb (v 18) (out, 0, 0)))) = out @ [b0, b1]"
  unfolding absorb_def Let_def masks
  apply (simp add: v_def)
  apply (intro conjI bit_word_eqI)
  apply (auto simp: t_def bit_simps bit_byte_high Suc_Suc_diff)
  done

lemma foldl_update_keep:
  "p \<notin> f ` set xs \<Longrightarrow> foldl (\<lambda>vs i. vs[f i := g i]) ys xs ! p = ys ! p"
  by (induction xs arbitrary: ys) auto

lemma decode_other:
  assumes "b \<notin> set TABLE" shows "DECODE_TABLE ! unat b = 255"
proof -
  have "unat b \<notin> (\<lambda>j. unat (TABLE ! j)) ` set [0..<64]"
    using assms nth_mem [of _ TABLE] by (auto simp: word_unat_eq_iff [symmetric])
  moreover have "unat b < 256" using unsigned_less [of b] by simp
  ultimately show ?thesis
    unfolding DECODE_TABLE_def length_TABLE by (simp add: foldl_update_keep)
qed

lemma pad_not_in_TABLE: "PAD \<notin> set TABLE"
  unfolding PAD_def TABLE_def set_map image_iff of_char_byte_inj by simp

lemma decode_pad: "DECODE_TABLE ! unat PAD = 255"
  by (rule decode_other [OF pad_not_in_TABLE])

lemma loose_sextet: "loose_step (sextet k t) st = absorb (ucast (drop_bit k t AND mask 6)) st"
  by (simp add: loose_step_def sextet_decodes sextet_valid Let_def)

lemma loose_pad [simp]: "loose_step (PAD) st = st"
  unfolding loose_step_def decode_pad by simp

text \<open>Induction over a list three elements at a time.\<close>

lemma triples_induct [case_names nil one two more]:
  assumes "P []" "\<And>a. P [a]" "\<And>a b. P [a, b]" "\<And>a b c xs. P xs \<Longrightarrow> P (a # b # c # xs)"
  shows "P xs"
proof (induction xs rule: length_induct)
  case (1 xs)
  then show ?case
  proof (cases xs rule: remdups_adj.cases)
    case (3 a b ys)
    with 1 assms show ?thesis by (cases ys) auto
  qed (use assms in auto)
qed

lemma encode_more: "base64_encode (a # b # c # xs) = encode_chunk [a, b, c] @ base64_encode xs"
  by (simp add: base64_encode_def chunks_step)

lemma encode_short:
  "base64_encode [] = []" "base64_encode [a] = encode_chunk [a]"
  "base64_encode [a, b] = encode_chunk [a, b]"
  by (simp_all add: base64_encode_def chunks_step)

lemma loose_chunk: "fold loose_step (encode_chunk [a, b, c]) (out, 0, 0) = (out @ [a, b, c], 0, 0)"
  using absorb_four [of a b c out] by (simp add: encode_chunk_def Let_def loose_sextet)

lemma decode_loose_fold: "fst (fold loose_step (base64_encode xs) (out, 0, 0)) = out @ xs"
proof (induction xs arbitrary: out rule: triples_induct)
  case (one a)
  then show ?case
    using absorb_two [of a out] by (simp add: encode_short encode_chunk_def Let_def loose_sextet)
next
  case (two a b)
  then show ?case
    using absorb_three [of a b out] by (simp add: encode_short encode_chunk_def Let_def loose_sextet)
next
  case (more a b c xs)
  then show ?case by (simp add: encode_more loose_chunk)
qed (simp add: encode_short)

subsection \<open>The strict mode\<close>

text \<open>The strict loop accumulates what the loose one does.\<close>

lemma strict_is_loose: "strict_loop input st = Some st' \<Longrightarrow> st_acc st' = fold loose_step input (st_acc st)"
  by (induction input arbitrary: st)
     (auto simp: Let_def loose_step_def split: if_splits)

lemma decode_strict_loose: "decode_strict input = Some out \<Longrightarrow> decode_loose input = out"
  by (auto simp: decode_strict_def decode_loose_def Let_def strict_is_loose
      split: option.splits if_splits)

lemma strict_sextet:
  "\<not> st_saw_padding st \<Longrightarrow> strict_loop (sextet k t # input) st =
     strict_loop input (st\<lparr>st_digits := st_digits st + 1,
       st_acc := absorb (ucast (drop_bit k t AND mask 6)) (st_acc st)\<rparr>)"
  by (simp add: sextet_decodes sextet_valid Let_def)

lemma pad_not_space: "\<not> is_base64_space (PAD)"
  by (simp add: is_base64_space_def PAD_def)

lemma strict_pad:
  "strict_loop (PAD # input) st =
     strict_loop input (st\<lparr>st_saw_padding := True, st_padding := st_padding st + 1\<rparr>)"
  unfolding strict_loop.simps decode_pad Let_def using pad_not_space by simp

lemma strict_accepts:
  assumes "\<not> st_saw_padding st" "st_padding st = 0" "st_digits st mod 4 = 0"
  shows "\<exists>st'. strict_loop (base64_encode xs) st = Some st' \<and>
    st_digits st' mod 4 = [0, 2, 3] ! (length xs mod 3) \<and>
    st_padding st' = [0, 2, 1] ! (length xs mod 3)"
  using assms
proof (induction xs arbitrary: st rule: triples_induct)
  case (one a)
  then show ?case
    by (simp add: encode_short encode_chunk_def Let_def strict_sextet strict_pad mod_Suc del: strict_loop.simps(2))
next
  case (two a b)
  then show ?case
    by (simp add: encode_short encode_chunk_def Let_def strict_sextet strict_pad mod_Suc del: strict_loop.simps(2))
next
  case (more a b c xs)
  let ?st = "st\<lparr>st_digits := Suc (Suc (Suc (Suc (st_digits st)))),
      st_acc := fold loose_step (encode_chunk [a, b, c]) (st_acc st)\<rparr>"
  have "strict_loop (base64_encode (a # b # c # xs)) st = strict_loop (base64_encode xs) ?st"
    using more.prems(1)
    by (simp add: encode_more encode_chunk_def Let_def strict_sextet loose_sextet
        del: strict_loop.simps(2))
  moreover have "length (a # b # c # xs) mod 3 = length xs mod 3"
    unfolding list.size(4) by presburger
  moreover have "Suc (Suc (Suc (Suc (st_digits st)))) mod 4 = 0" using more.prems(3) by (simp add: mod_Suc)
  ultimately show ?case using more.IH [of ?st] more.prems by simp
qed (simp add: encode_short)

lemma decode_strict_encode: "decode_strict (base64_encode xs) = Some xs"
proof -
  let ?st = "\<lparr>st_acc = ([], 0, 0), st_digits = 0, st_padding = 0, st_saw_padding = False\<rparr>"
  obtain st' where st': "strict_loop (base64_encode xs) ?st = Some st'"
    "st_digits st' mod 4 = [0, 2, 3] ! (length xs mod 3)" "st_padding st' = [0, 2, 1] ! (length xs mod 3)"
    using strict_accepts [of ?st xs] by auto
  have "fst (st_acc st') = xs" using strict_is_loose [OF st'(1)] decode_loose_fold [of xs "[]"] by simp
  moreover have "length xs mod 3 = 0 \<or> length xs mod 3 = 1 \<or> length xs mod 3 = 2" by linarith
  ultimately show ?thesis using st' by (auto simp: decode_strict_def Let_def)
qed

subsection \<open>Properties\<close>

text \<open>C26. Decoding an encoded byte string gives it back, in the strict and in the loose mode, for
  every length and every padding.\<close>

theorem base64_roundtrip: "base64_decode (base64_encode data) strict = Some data"
  using decode_loose_fold [of data "[]"] decode_strict_encode [of data]
  by (simp add: base64_decode_def decode_loose_def)

text \<open>The strict decoder only rejects more: whatever it accepts, the loose decoder answers the
  same bytes.\<close>

theorem base64_strict_refines_loose:
  assumes "base64_decode input True = Some out"
  shows "base64_decode input False = Some out"
  using assms decode_strict_loose by (simp add: base64_decode_def)

theorem base64_strict_refines_loose_witness: "base64_decode (base64_encode [97, 98]) False = Some [97, 98]"
  by (rule base64_strict_refines_loose) (simp add: base64_decode_def decode_strict_encode)

end
