(* ===== verification/Uuencode.thy ===== *)
theory Uuencode
  imports Base64
begin

text \<open>
  \<open>src/src/uuencode.rs\<close>: lines of at most 45 bytes behind a length character, three bytes to four
  characters in \<open>u8\<close> arithmetic. The decoder walks the input by position; the model walks the
  suffix that starts there, so indexing is \<open>hd\<close> and a slice is \<open>take\<close>. Decoding inverts encoding
  for every byte string.
\<close>

subsection \<open>The code\<close>

definition INPUT_BYTES_PER_LINE :: nat where
  "INPUT_BYTES_PER_LINE = 45"

definition six_bit_character :: "byte \<Rightarrow> byte" where
  "six_bit_character v = (let v = v AND 0x3f in if v = 0 then 96 else v + 32)"

definition encode_group :: "byte list \<Rightarrow> byte list" where
  "encode_group g =
     (let first = g ! 0;
          second = (if 1 < length g then g ! 1 else 0);
          third = (if 2 < length g then g ! 2 else 0)
      in [six_bit_character (drop_bit 2 first),
          six_bit_character ((push_bit 4 first OR drop_bit 4 second) AND 0x3f),
          six_bit_character ((push_bit 2 second OR drop_bit 6 third) AND 0x3f),
          six_bit_character (third AND 0x3f)])"

definition encode_line :: "byte list \<Rightarrow> byte list" where
  "encode_line line =
     six_bit_character (of_nat (length line)) # concat (map encode_group (chunks 3 line)) @ [10]"

definition uu_encode :: "byte list \<Rightarrow> byte list" where
  "uu_encode input = concat (map encode_line (chunks INPUT_BYTES_PER_LINE input)) @ [96, 10]"

definition six_bit_value :: "byte \<Rightarrow> byte" where
  "six_bit_value c = (c - 32) AND 0x3f"

text \<open>The groups of a line (\<open>chunks_exact(4)\<close>) with the bytes of the line still to come.\<close>

fun decode_groups :: "nat \<Rightarrow> byte list \<Rightarrow> byte list" where
  "decode_groups remaining (a # b # c # d # rest) =
     (let first = six_bit_value a; second = six_bit_value b;
          third = six_bit_value c; fourth = six_bit_value d
      in [push_bit 2 first OR drop_bit 4 second]
         @ (if 1 < remaining then [push_bit 4 second OR drop_bit 2 third] else [])
         @ (if 2 < remaining then [push_bit 6 third OR fourth] else [])
         @ decode_groups (remaining - 3) rest)"
| "decode_groups remaining _ = []"

text \<open>The loop body runs only while input is left.\<close>

function decode_lines :: "byte list \<Rightarrow> byte list \<Rightarrow> byte list option" where
  "decode_lines output [] = None"
| "decode_lines output (c # input) =
     (let line_length = unat (six_bit_value c)
      in if line_length = 0 then Some output
         else
           (let encoded_length = (line_length + 2) div 3 * 4
            in if length input < encoded_length then None
               else
                 (let output = output @ decode_groups line_length (take encoded_length input);
                      input = drop encoded_length input
                  in if line_length < INPUT_BYTES_PER_LINE \<or> input = [] then Some output
                     else if tl input = [] then Some output
                     else decode_lines output (tl input))))"
  by pat_completeness auto
termination by (relation "measure (\<lambda>(output, input). length input)") auto

definition uu_decode :: "byte list \<Rightarrow> byte list option" where
  "uu_decode input = (if input = [] then None else decode_lines [] input)"

subsection \<open>Groups\<close>

lemma mask6: "(0x3f :: byte) = mask 6"
  by (simp add: mask_eq_exp_minus_1)

lemma six_bit_roundtrip: "six_bit_value (six_bit_character v) = v AND mask 6"
  by (auto simp: six_bit_value_def six_bit_character_def mask6 Let_def and.assoc)
     (simp add: mask_eq_exp_minus_1)

lemma group_bits:
  fixes a b c :: byte
  shows group_first: "push_bit 2 (drop_bit 2 a AND mask 6) OR
      drop_bit 4 ((push_bit 4 a OR drop_bit 4 b) AND mask 6 AND mask 6) = a"
    and group_second: "push_bit 4 ((push_bit 4 a OR drop_bit 4 b) AND mask 6 AND mask 6) OR
      drop_bit 2 ((push_bit 2 b OR drop_bit 6 c) AND mask 6 AND mask 6) = b"
    and group_third: "push_bit 6 ((push_bit 2 b OR drop_bit 6 c) AND mask 6 AND mask 6) OR
      (c AND mask 6 AND mask 6) = c"
  subgoal by (rule bit_word_eqI, rename_tac n, case_tac "2 \<le> n")
      (auto simp: bit_simps bit_byte_high Suc_Suc_diff)
  subgoal by (rule bit_word_eqI, rename_tac n, case_tac "4 \<le> n")
      (auto simp: bit_simps bit_byte_high Suc_Suc_diff)
  subgoal by (rule bit_word_eqI, rename_tac n, case_tac "6 \<le> n")
      (auto simp: bit_simps bit_byte_high Suc_Suc_diff)
  done

lemma decode_group_full:
  "2 < n \<Longrightarrow> decode_groups n (encode_group [a, b, c] @ rest) = a # b # c # decode_groups (n - 3) rest"
  using group_first [of a b] group_second [of a b c] group_third [of b c]
  by (simp add: encode_group_def Let_def six_bit_roundtrip mask6)

lemma encode_group_length [simp]: "length (encode_group g) = 4"
  by (simp add: encode_group_def Let_def)

lemma decode_groups_line: "decode_groups (length xs) (concat (map encode_group (chunks 3 xs))) = xs"
proof (induction xs rule: triples_induct)
  case (one a)
  then show ?case
    using group_first [of a 0]
    by (simp add: chunks_step encode_group_def Let_def six_bit_roundtrip mask6)
next
  case (two a b)
  then show ?case
    using group_first [of a b] group_second [of a b 0]
    by (simp add: chunks_step encode_group_def Let_def six_bit_roundtrip mask6)
next
  case (more a b c xs)
  have "concat (map encode_group (chunks 3 (a # b # c # xs))) =
      encode_group [a, b, c] @ concat (map encode_group (chunks 3 xs))"
    by (simp add: chunks_step)
  with more show ?case using decode_group_full [of "length (a # b # c # xs)" a b c] by simp
qed simp

lemma groups_length: "length (concat (map encode_group (chunks 3 xs))) = (length xs + 2) div 3 * 4"
proof (induction xs rule: triples_induct)
  case (more a b c xs)
  have "(length (a # b # c # xs) + 2) div 3 = (length xs + 2) div 3 + 1" by simp
  with more show ?case by (simp add: chunks_step)
qed (simp_all add: chunks_step)

subsection \<open>Lines\<close>

lemma line_length_char: "n \<le> 45 \<Longrightarrow> unat (six_bit_value (six_bit_character (of_nat n))) = n"
proof -
  assume n: "n \<le> 45"
  have "take_bit 6 (of_nat n :: byte) = of_nat n"
    using n by (simp add: take_bit_of_nat take_bit_nat_eq_self)
  then show ?thesis
    using n by (simp add: six_bit_roundtrip take_bit_eq_mask [symmetric] unat_of_nat take_bit_nat_eq_self)
qed

lemma decode_line:
  assumes "0 < length l" "length l \<le> 45"
  shows "decode_lines out (encode_line l @ rest) =
    (if length l < 45 \<or> rest = [] then Some (out @ l) else decode_lines (out @ l) rest)"
  using assms groups_length [of l] decode_groups_line [of l]
  by (auto simp: encode_line_def line_length_char Let_def INPUT_BYTES_PER_LINE_def)

lemma decode_lines_encode:
  "decode_lines out (concat (map encode_line (chunks 45 xs)) @ [96, 10]) = Some (out @ xs)"
proof (induction xs arbitrary: out rule: length_induct)
  case (1 xs)
  show ?case
  proof (cases "xs = []")
    case True
    then show ?thesis by (simp add: six_bit_value_def)
  next
    case False
    let ?rest = "concat (map encode_line (chunks 45 (drop 45 xs))) @ [96, 10]"
    have "concat (map encode_line (chunks 45 xs)) @ [96, 10] = encode_line (take 45 xs) @ ?rest"
      using False by (simp add: chunks_step)
    moreover have "decode_lines out (encode_line (take 45 xs) @ ?rest) =
        (if length xs < 45 then Some (out @ xs) else decode_lines (out @ take 45 xs) ?rest)"
      using decode_line [of "take 45 xs" out ?rest] False by auto
    moreover have "decode_lines (out @ take 45 xs) ?rest = Some ((out @ take 45 xs) @ drop 45 xs)"
      using 1 False by simp
    ultimately show ?thesis by simp
  qed
qed

text \<open>C27. Decoding an encoded byte string gives it back, whatever its length and bytes.\<close>

theorem uuencode_roundtrip: "uu_decode (uu_encode input) = Some input"
  using decode_lines_encode [of "[]" input]
  by (simp add: uu_decode_def uu_encode_def INPUT_BYTES_PER_LINE_def)

end
