(* ===== verification/Quoted_Printable.thy ===== *)
theory Quoted_Printable
  imports Base64
begin

text \<open>
  \<open>src/src/quoted_printable.rs\<close>. Both loops walk the input by position and look at most two bytes
  ahead; the model walks the suffix at the position. Decoding inverts encoding for every byte
  string, through soft line breaks, escapes and kept line endings, and no line of the encoding of
  text without bytes above \<open>0xf4\<close> is longer than 76 columns.
\<close>

subsection \<open>The code\<close>

definition HEX :: "byte list" where
  "HEX = map of_char ''0123456789ABCDEF''"

definition MAX_CONTENT_COLUMNS :: nat where
  "MAX_CONTENT_COLUMNS = 75"

text \<open>\<open>must_encode(input, position)\<close> on the suffix at the position.\<close>

definition must_encode :: "byte list \<Rightarrow> bool" where
  "must_encode input =
     (let b = input ! 0
      in if b = 32 then vec_get input 1 = Some 13
         else \<not> ((33 \<le> b \<and> b \<le> 60) \<or> (62 \<le> b \<and> b \<le> 126)))"

definition projected_character_width :: "byte \<Rightarrow> bool \<Rightarrow> nat" where
  "projected_character_width b encoded =
     (if b < 0x80 then (if encoded then 3 else 1)
      else if b \<le> 0xdf then 6
      else if b \<le> 0xef then 9
      else if b \<le> 0xf4 then 12
      else 0)"

definition soft_break :: "byte \<Rightarrow> bool \<Rightarrow> nat \<Rightarrow> bool" where
  "soft_break b encoded line_columns \<longleftrightarrow>
     projected_character_width b encoded \<noteq> 0 \<and>
     MAX_CONTENT_COLUMNS < saturating_add_usize line_columns (projected_character_width b encoded)"

function qp_encode_loop :: "nat \<Rightarrow> byte list \<Rightarrow> byte list" where
  "qp_encode_loop line_columns [] = []"
| "qp_encode_loop line_columns (b # rest) =
     (if b = 13 \<and> vec_get rest 0 = Some 10 then [13, 10] @ qp_encode_loop 0 (tl rest)
      else
        (let encoded = must_encode (b # rest);
             break = soft_break b encoded line_columns;
             line_columns = (if break then 0 else line_columns)
         in (if break then [61, 13, 10] else [])
            @ (if encoded
               then [61, HEX ! unat (drop_bit 4 b), HEX ! unat (b AND 0x0f)]
                      @ qp_encode_loop (saturating_add_usize line_columns 3) rest
               else b # qp_encode_loop (saturating_add_usize line_columns 1) rest)))"
  by pat_completeness auto
termination by (relation "measure (\<lambda>(line_columns, input). length input)") auto

definition qp_encode :: "byte list \<Rightarrow> byte list" where
  "qp_encode input = qp_encode_loop 0 input"

definition hex_value :: "byte \<Rightarrow> byte option" where
  "hex_value b =
     (if 48 \<le> b \<and> b \<le> 57 then Some (b - 48)
      else if 97 \<le> b \<and> b \<le> 102 then Some (b - 97 + 10)
      else if 65 \<le> b \<and> b \<le> 70 then Some (b - 65 + 10)
      else None)"

text \<open>The two digits behind an equals sign, when both are there.\<close>

definition escape_value :: "byte list \<Rightarrow> byte option" where
  "escape_value rest =
     (case (vec_get rest 0, vec_get rest 1) of
        (Some high, Some low) \<Rightarrow>
          (case (hex_value high, hex_value low) of
             (Some high, Some low) \<Rightarrow> Some (push_bit 4 high OR low)
           | _ \<Rightarrow> None)
      | _ \<Rightarrow> None)"

lemma dropWhile_shorter: "dropWhile P xs = c # ys \<Longrightarrow> length ys < length xs"
  using length_dropWhile_le [of P xs] by simp

function qp_decode :: "byte list \<Rightarrow> byte list" where
  "qp_decode [] = []"
| "qp_decode (b # rest) =
     (if b = 0 then []
      else if b \<noteq> 61 then b # qp_decode rest
      else
        (case escape_value rest of
           Some v \<Rightarrow> v # qp_decode (drop 2 rest)
         | None \<Rightarrow>
             (case dropWhile (\<lambda>c. c = 32 \<or> c = 9) rest of
                [] \<Rightarrow> []
              | c # after \<Rightarrow>
                  if c = 0 then []
                  else if c = 13 then qp_decode (if vec_get after 0 = Some 10 then tl after else after)
                  else if c = 10 then qp_decode after
                  else 61 # qp_decode rest)))"
  by pat_completeness auto
termination
  by (relation "measure length") (auto dest: dropWhile_shorter split: if_splits)

subsection \<open>Decoding inverts encoding\<close>

lemma hex_digit: "n < 16 \<Longrightarrow> hex_value (HEX ! n) = Some (of_nat n)"
proof -
  assume "n < 16"
  then have "n \<in> set [0..<16]" by simp
  then show ?thesis by (auto simp: HEX_def hex_value_def upt_rec)
qed

lemma nibbles: "push_bit 4 (drop_bit 4 b) OR (b AND 0x0f) = (b :: byte)"
proof -
  have m: "(0x0f :: byte) = mask 4" by (simp add: mask_eq_exp_minus_1)
  show ?thesis unfolding m
    by (rule bit_word_eqI, rename_tac n, case_tac "4 \<le> n") (auto simp: bit_simps)
qed

lemma nibble_bounds: "unat (drop_bit 4 b) < 16" "unat (b AND 0x0f) < 16" for b :: byte
proof -
  have m: "(0x0f :: byte) = mask 4" by (simp add: mask_eq_exp_minus_1)
  have "unat (b AND mask 4) < 2 ^ 4"
    unfolding take_bit_eq_mask [symmetric] unsigned_take_bit_eq by (rule take_bit_nat_less_exp)
  then show "unat (b AND 0x0f) < 16" by (simp add: m)
  have "unat (drop_bit 4 b) = take_bit 8 (unat b) div 16"
    unfolding unsigned_drop_bit_eq by (simp add: drop_bit_eq_div)
  also have "\<dots> < 16" using take_bit_nat_less_exp [of 8 "unat b"] by simp
  finally show "unat (drop_bit 4 b) < 16" .
qed

lemma escape_encoded:
  "escape_value (HEX ! unat (drop_bit 4 b) # HEX ! unat (b AND 0x0f) # rest) = Some b"
  using hex_digit [OF nibble_bounds(1) [of b]] hex_digit [OF nibble_bounds(2) [of b]] nibbles [of b]
  by (simp add: escape_value_def vec_get_def)

lemma decode_escape:
  "qp_decode (61 # HEX ! unat (drop_bit 4 b) # HEX ! unat (b AND 0x0f) # rest) = b # qp_decode rest"
  using escape_encoded [of b rest] by simp

lemma decode_soft_break: "qp_decode (61 # 13 # 10 # rest) = qp_decode rest"
  by (simp add: escape_value_def vec_get_def hex_value_def)

lemma decode_plain: "b \<noteq> 0 \<Longrightarrow> b \<noteq> 61 \<Longrightarrow> qp_decode (b # rest) = b # qp_decode rest"
  by simp

lemma plain_byte: "\<not> must_encode (b # rest) \<Longrightarrow> b \<noteq> 0 \<and> b \<noteq> 61"
  by (auto simp: must_encode_def Let_def split: if_splits)

lemma qp_encode_step:
  assumes "\<not> (b = 13 \<and> vec_get rest 0 = Some 10)"
  shows "qp_encode_loop cols (b # rest) =
    (if soft_break b (must_encode (b # rest)) cols then [61, 13, 10] else [])
    @ (if must_encode (b # rest)
       then 61 # HEX ! unat (drop_bit 4 b) # HEX ! unat (b AND 0x0f) # qp_encode_loop
              (saturating_add_usize (if soft_break b (must_encode (b # rest)) cols then 0 else cols) 3) rest
       else b # qp_encode_loop
              (saturating_add_usize (if soft_break b (must_encode (b # rest)) cols then 0 else cols) 1) rest)"
  by (simp only: qp_encode_loop.simps(2) [of cols] assms if_False Let_def append_Cons append_Nil)

lemma qp_roundtrip_loop: "qp_decode (qp_encode_loop cols input) = input"
proof (induction cols input rule: qp_encode_loop.induct)
  case (2 cols b rest)
  show ?case
  proof (cases "b = 13 \<and> vec_get rest 0 = Some 10")
    case True
    then obtain ys where ys: "rest = 10 # ys" by (cases rest) (auto simp: vec_get_def)
    with 2(1) [OF True] True show ?thesis by (simp add: vec_get_def)
  next
    case False
    note IH = 2(2,3) [OF False refl refl refl]
    show ?thesis
    proof (cases "must_encode (b # rest)")
      case True
      have "qp_encode_loop cols (b # rest) =
          (if soft_break b True cols then [61, 13, 10] else [])
          @ 61 # HEX ! unat (drop_bit 4 b) # HEX ! unat (b AND 0x0f) # qp_encode_loop
              (saturating_add_usize (if soft_break b True cols then 0 else cols) 3) rest"
        unfolding qp_encode_step [OF False] using True by (simp del: qp_encode_loop.simps(2))
      with IH(1) True show ?thesis
        by (cases "soft_break b True cols")
           (simp_all add: decode_soft_break decode_escape del: qp_decode.simps(2) qp_encode_loop.simps(2))
    next
      case no: False
      have "qp_encode_loop cols (b # rest) =
          (if soft_break b False cols then [61, 13, 10] else [])
          @ b # qp_encode_loop (saturating_add_usize (if soft_break b False cols then 0 else cols) 1) rest"
        unfolding qp_encode_step [OF False] using no by (simp del: qp_encode_loop.simps(2))
      with IH(2) no plain_byte [OF no] show ?thesis
        by (cases "soft_break b False cols")
           (simp_all add: decode_soft_break decode_plain del: qp_decode.simps(2) qp_encode_loop.simps(2))
    qed
  qed
qed simp

subsection \<open>Line length\<close>

text \<open>Every line of a text, up to its CRLF, has at most 76 columns; \<open>n\<close> columns are already
  taken.\<close>

function lines_fit :: "nat \<Rightarrow> byte list \<Rightarrow> bool" where
  "lines_fit n [] = (n \<le> 76)"
| "lines_fit n (b # rest) =
     (if b = 13 \<and> vec_get rest 0 = Some 10 then n \<le> 76 \<and> lines_fit 0 (tl rest)
      else lines_fit (Suc n) rest)"
  by pat_completeness auto
termination by (relation "measure (\<lambda>(n, text). length text)") auto

lemma HEX_not_CR: "n < 16 \<Longrightarrow> HEX ! n \<noteq> 13"
  using hex_digit [of n] by (auto simp: hex_value_def)

lemma fit_escape:
  fixes b :: byte
  shows "lines_fit n (61 # HEX ! unat (drop_bit 4 b) # HEX ! unat (b AND 0x0f) # rest) = lines_fit (n + 3) rest"
  using HEX_not_CR [OF nibble_bounds(1) [of b]] HEX_not_CR [OF nibble_bounds(2) [of b]]
  by (simp add: numeral_3_eq_3)

lemma fit_soft_break: "lines_fit n (61 # 13 # 10 # rest) = (n < 76 \<and> lines_fit 0 rest)"
  by (simp add: vec_get_def Suc_le_eq)

lemma plain_not_CR: "\<not> must_encode (b # rest) \<Longrightarrow> b \<noteq> 13"
  by (auto simp: must_encode_def Let_def split: if_splits)

lemma width_bounds:
  assumes "b \<le> 0xf4"
  shows "encoded \<or> b < 0x80 \<Longrightarrow> (if encoded then 3 else 1) \<le> projected_character_width b encoded"
    "projected_character_width b encoded \<noteq> 0"
  using assms by (auto simp: projected_character_width_def)

lemma plain_ascii: "\<not> must_encode (b # rest) \<Longrightarrow> b < 0x80"
  by (auto simp: must_encode_def Let_def word_le_nat_alt word_less_nat_alt split: if_splits)

lemma no_break_fits:
  assumes "\<not> soft_break b encoded cols" "b \<le> 0xf4" "encoded \<or> b < 0x80" "cols \<le> 75"
  shows "cols + (if encoded then 3 else 1) \<le> 75"
proof -
  have w: "projected_character_width b encoded \<le> 12" by (simp add: projected_character_width_def)
  have "cols + projected_character_width b encoded \<le> 75"
    using assms(1,4) width_bounds(2) [OF assms(2), of encoded] w
    by (auto simp: soft_break_def MAX_CONTENT_COLUMNS_def saturating_add_usize_def usize_MAX_def)
  with width_bounds(1) [OF assms(2,3)] show ?thesis by linarith
qed

lemma saturating_small: "n \<le> 100 \<Longrightarrow> k \<le> 100 \<Longrightarrow> saturating_add_usize n k = n + k"
  by (simp add: saturating_add_usize_def usize_MAX_def)

lemma qp_lines_fit:
  assumes "list_all (\<lambda>b. b \<le> 0xf4) input" "cols \<le> 75"
  shows "lines_fit cols (qp_encode_loop cols input)"
  using assms
proof (induction cols input rule: qp_encode_loop.induct)
  case (2 cols b rest)
  show ?case
  proof (cases "b = 13 \<and> vec_get rest 0 = Some 10")
    case True
    then obtain ys where ys: "rest = 10 # ys" by (cases rest) (auto simp: vec_get_def)
    with 2(1) [OF True] 2(4,5) True show ?thesis by (simp add: vec_get_def)
  next
    case False
    note IH = 2(2,3) [OF False refl refl refl]
    let ?enc = "must_encode (b # rest)"
    let ?cols = "if soft_break b ?enc cols then 0 else cols"
    have enc: "?enc \<or> b < 0x80" using plain_ascii by blast
    have cols: "?cols + (if ?enc then 3 else 1) \<le> 75"
      using no_break_fits [OF _ _ enc] 2(4,5) by auto
    have eq: "qp_encode_loop cols (b # rest) = (if soft_break b ?enc cols then [61, 13, 10] else []) @
        (if ?enc then 61 # HEX ! unat (drop_bit 4 b) # HEX ! unat (b AND 0x0f) #
                      qp_encode_loop (?cols + 3) rest
         else b # qp_encode_loop (?cols + 1) rest)"
      unfolding qp_encode_step [OF False] using cols 2(5)
      by (simp add: saturating_small del: qp_encode_loop.simps(2) One_nat_def)
    have tail: "lines_fit (?cols + (if ?enc then 3 else 1)) (qp_encode_loop (?cols + (if ?enc then 3 else 1)) rest)"
      using IH 2(4) cols 2(5) by (simp add: saturating_small split: if_splits)
    show ?thesis
      unfolding eq using tail 2(5) plain_not_CR [of b rest]
      by (auto simp: fit_escape fit_soft_break simp del: qp_encode_loop.simps(2) lines_fit.simps(2) split: if_splits)
         (auto simp del: qp_encode_loop.simps(2))
  qed
qed simp

text \<open>C28. Decoding an encoded byte string gives it back, for every sequence of bytes.\<close>

theorem quoted_printable_roundtrip: "qp_decode (qp_encode input) = input"
  by (simp add: qp_encode_def qp_roundtrip_loop)

text \<open>No line of an encoding is longer than 76 columns, soft breaks included, when the input has
  no byte above \<open>0xf4\<close>; a run of such bytes is never broken.\<close>

theorem quoted_printable_line_length:
  assumes "list_all (\<lambda>b. b \<le> 0xf4) input"
  shows "lines_fit 0 (qp_encode input)"
  using qp_lines_fit [OF assms, of 0] by (simp add: qp_encode_def)

theorem quoted_printable_line_length_witness: "lines_fit 0 (qp_encode (replicate 200 65))"
  by (rule quoted_printable_line_length) (simp add: list_all_iff)

end
