(* ===== verification/Byte_Strings.thy ===== *)
theory Byte_Strings
  imports Base64
begin

text \<open>
  \<open>src/src/string_byte_utilities.rs\<close>: the byte-wise string functions. Loops that walk a cursor are
  recursion on the suffix at the cursor where the code only looks ahead, and steps on a record of
  the loop variables where it looks back (\<open>wordwrap\<close>). A loop that could run on or panic is run
  with fuel and answers an error, and is then proved to return.
\<close>

subsection \<open>Byte maps\<close>

definition count_chars :: "byte list \<Rightarrow> nat list" where
  "count_chars input =
     fold (\<lambda>b counts. counts[unat b := counts ! unat b + 1]) input (replicate 256 0)"

definition is_meta :: "byte \<Rightarrow> bool" where
  "is_meta b \<longleftrightarrow> b \<in> {46, 92, 43, 42, 63, 91, 94, 93, 40, 36, 41}"

definition quotemeta :: "byte list \<Rightarrow> byte list" where
  "quotemeta input = concat (map (\<lambda>b. if is_meta b then [92, b] else [b]) input)"

definition rot13_byte :: "byte \<Rightarrow> byte" where
  "rot13_byte b =
     (if (97 \<le> b \<and> b \<le> 109) \<or> (65 \<le> b \<and> b \<le> 77) then b + 13
      else if (110 \<le> b \<and> b \<le> 122) \<or> (78 \<le> b \<and> b \<le> 90) then b - 13
      else b)"

definition str_rot13 :: "byte list \<Rightarrow> byte list" where
  "str_rot13 input = map rot13_byte input"

subsection \<open>Latin-1 and UTF-8\<close>

definition utf8_encode_byte :: "byte \<Rightarrow> byte list" where
  "utf8_encode_byte b = (if b < 0x80 then [b] else [0xc0 OR drop_bit 6 b, 0x80 OR (b AND 0x3f)])"

definition utf8_encode_latin1 :: "byte list \<Rightarrow> byte list" where
  "utf8_encode_latin1 input = concat (map utf8_encode_byte input)"

definition utf8_restart_byte :: "byte \<Rightarrow> bool" where
  "utf8_restart_byte b \<longleftrightarrow> b < 0x80 \<or> (0xc2 \<le> b \<and> b \<le> 0xf4)"

definition utf8_expected :: "byte \<Rightarrow> nat option" where
  "utf8_expected lead =
     (if 0xc2 \<le> lead \<and> lead \<le> 0xdf then Some 2
      else if 0xe0 \<le> lead \<and> lead \<le> 0xef then Some 3
      else if 0xf0 \<le> lead \<and> lead \<le> 0xf4 then Some 4
      else None)"

text \<open>The scan of the bytes behind the lead: whether the sequence is structurally valid, and how
  many of them it has consumed.\<close>

fun utf8_scan :: "nat \<Rightarrow> byte list \<Rightarrow> bool \<times> nat" where
  "utf8_scan 0 input = (True, 0)"
| "utf8_scan (Suc n) [] = (False, 0)"
| "utf8_scan (Suc n) (b # input) =
     (if 0x80 \<le> b \<and> b \<le> 0xbf then (let (valid, k) = utf8_scan n input in (valid, Suc k))
      else if utf8_restart_byte b then (False, 0)
      else (let (valid, k) = utf8_scan n input in (False, Suc k)))"

definition scalar_boundary_valid :: "byte \<Rightarrow> byte \<Rightarrow> bool" where
  "scalar_boundary_valid lead second =
     (if lead = 0xe0 then 0xa0 \<le> second
      else if lead = 0xed then second \<le> 0x9f
      else if lead = 0xf0 then 0x90 \<le> second
      else if lead = 0xf4 then second \<le> 0x8f
      else True)"

definition codepoint :: "nat \<Rightarrow> byte \<Rightarrow> byte list \<Rightarrow> 32 word" where
  "codepoint expected lead rest =
     (if expected = 2 then
        push_bit 6 (ucast (lead AND 0x1f)) OR ucast (rest ! 0 AND 0x3f)
      else if expected = 3 then
        push_bit 12 (ucast (lead AND 0x0f)) OR push_bit 6 (ucast (rest ! 0 AND 0x3f))
          OR ucast (rest ! 1 AND 0x3f)
      else
        push_bit 18 (ucast (lead AND 0x07)) OR push_bit 12 (ucast (rest ! 0 AND 0x3f))
          OR push_bit 6 (ucast (rest ! 1 AND 0x3f)) OR ucast (rest ! 2 AND 0x3f))"

function utf8_decode_latin1 :: "byte list \<Rightarrow> byte list" where
  "utf8_decode_latin1 [] = []"
| "utf8_decode_latin1 (lead # rest) =
     (if lead < 0x80 then lead # utf8_decode_latin1 rest
      else
        (case utf8_expected lead of
           None \<Rightarrow> 63 # utf8_decode_latin1 rest
         | Some expected \<Rightarrow>
             (case utf8_scan (expected - 1) rest of (valid, k) \<Rightarrow>
                if \<not> valid \<or> k + 1 \<noteq> expected then 63 # utf8_decode_latin1 (drop k rest)
                else
                  (let point = codepoint expected lead rest
                   in (if scalar_boundary_valid lead (rest ! 0) \<and> point < 256 then ucast point else 63)
                      # utf8_decode_latin1 (drop (expected - 1) rest)))))"
  by pat_completeness auto
termination by (relation "measure length") auto

subsection \<open>Words\<close>

definition is_ascii_alphabetic :: "byte \<Rightarrow> bool" where
  "is_ascii_alphabetic b \<longleftrightarrow> (65 \<le> b \<and> b \<le> 90) \<or> (97 \<le> b \<and> b \<le> 122)"

definition is_str_word_byte :: "byte list \<Rightarrow> nat \<Rightarrow> (byte \<Rightarrow> bool) \<Rightarrow> bool" where
  "is_str_word_byte input pos additional =
     (let b = input ! pos
      in is_ascii_alphabetic b \<or> additional b \<or> (b = 39 \<and> pos \<noteq> 0)
         \<or> (b = 45 \<and> pos \<noteq> 0 \<and> pos + 1 < length input))"

text \<open>The inner loop: the first pos at or behind \<open>pos\<close> that is not a word byte.\<close>

function word_end :: "byte list \<Rightarrow> (byte \<Rightarrow> bool) \<Rightarrow> nat \<Rightarrow> nat" where
  "word_end input additional pos =
     (if pos < length input \<and> is_str_word_byte input pos additional
      then word_end input additional (Suc pos) else pos)"
  by pat_completeness auto
termination by (relation "measure (\<lambda>(input, additional, pos). length input - pos)") auto

declare word_end.simps [simp del]

lemma word_end_ge: "pos \<le> word_end input additional pos"
  by (induction input additional pos rule: word_end.induct)
     (subst word_end.simps, auto dest: Suc_leD)

lemma word_end_gt: "pos < word_end input additional (Suc pos)"
  by (rule Suc_le_lessD [OF word_end_ge])

function word_ranges_from :: "byte list \<Rightarrow> (byte \<Rightarrow> bool) \<Rightarrow> nat \<Rightarrow> (nat \<times> nat) list" where
  "word_ranges_from input additional pos =
     (if length input \<le> pos then []
      else
        (let stop = word_end input additional pos
         in if stop \<noteq> pos then (pos, stop) # word_ranges_from input additional stop
            else word_ranges_from input additional (Suc pos)))"
  by pat_completeness auto
termination
  by (relation "measure (\<lambda>(input, additional, pos). length input - pos)")
     (auto simp: Let_def intro!: diff_less_mono2 dest: le_neq_implies_less [OF word_end_ge, OF not_sym])

declare word_ranges_from.simps [simp del]

definition str_word_ranges :: "byte list \<Rightarrow> (byte \<Rightarrow> bool) \<Rightarrow> (nat \<times> nat) list" where
  "str_word_ranges input additional = word_ranges_from input additional 0"

function word_count_from :: "byte list \<Rightarrow> (byte \<Rightarrow> bool) \<Rightarrow> nat \<Rightarrow> nat \<Rightarrow> nat" where
  "word_count_from input additional pos count =
     (if length input \<le> pos then count
      else if is_str_word_byte input pos additional
      then word_count_from input additional (word_end input additional (Suc pos)) (count + 1)
      else word_count_from input additional (Suc pos) count)"
  by pat_completeness auto
termination
  by (relation "measure (\<lambda>(input, additional, pos, count). length input - pos)")
     (auto intro!: diff_less_mono2 word_end_gt)

declare word_count_from.simps [simp del]

definition str_word_count :: "byte list \<Rightarrow> (byte \<Rightarrow> bool) \<Rightarrow> nat" where
  "str_word_count input additional = word_count_from input additional 0 0"

subsection \<open>Soundex\<close>

definition ascii_upper :: "byte \<Rightarrow> byte" where
  "ascii_upper b = (if 97 \<le> b \<and> b \<le> 122 then b - 32 else b)"

definition soundex_code :: "byte \<Rightarrow> byte option" where
  "soundex_code b =
     (let u = ascii_upper b
      in if u \<in> {66, 70, 80, 86} then Some 49
         else if u \<in> {67, 71, 74, 75, 81, 83, 88, 90} then Some 50
         else if u \<in> {68, 84} then Some 51
         else if u = 76 then Some 52
         else if u \<in> {77, 78} then Some 53
         else if u = 82 then Some 54
         else None)"

text \<open>The loop over the bytes behind the first letter. It stops when the four places are taken.\<close>

fun soundex_loop :: "byte list \<Rightarrow> byte list \<Rightarrow> byte option \<Rightarrow> byte list" where
  "soundex_loop [] output previous = output"
| "soundex_loop (b # input) output previous =
     (let upper = ascii_upper b
      in case soundex_code upper of
           Some code \<Rightarrow>
             if previous \<noteq> Some code
             then (if length output + 1 = 4 then output @ [code]
                   else soundex_loop input (output @ [code]) (Some code))
             else soundex_loop input output (Some code)
         | None \<Rightarrow>
             if is_ascii_alphabetic upper then soundex_loop input output None
             else soundex_loop input output previous)"

text \<open>The unfilled places of the array keep the \<open>0\<close> they were initialised with.\<close>

definition soundex :: "byte list \<Rightarrow> byte list" where
  "soundex input =
     (case dropWhile (\<lambda>b. \<not> is_ascii_alphabetic b) input of
        [] \<Rightarrow> [48, 48, 48, 48]
      | first # rest \<Rightarrow>
          (let written = soundex_loop rest [ascii_upper first] (soundex_code first)
           in written @ replicate (4 - length written) 48))"

subsection \<open>Lemmas\<close>

lemma rot13_involution: "rot13_byte (rot13_byte b) = b"
proof -
  have "unat (b - 13) = unat b - 13" if "13 \<le> unat b"
    using that by (simp add: unat_sub word_le_nat_alt)
  then show ?thesis
    by (auto simp: rot13_byte_def word_le_nat_alt word_less_nat_alt unat_word_ariths)
qed

lemma word_end_word:
  "pos < length input \<Longrightarrow> is_str_word_byte input pos additional \<Longrightarrow>
     word_end input additional pos = word_end input additional (Suc pos)"
  by (subst word_end.simps) (rule if_P, simp)

lemma word_end_other:
  "\<not> (pos < length input \<and> is_str_word_byte input pos additional) \<Longrightarrow> word_end input additional pos = pos"
  by (subst word_end.simps) (rule if_not_P)

lemma word_ranges_done: "length input \<le> pos \<Longrightarrow> word_ranges_from input additional pos = []"
  by (subst word_ranges_from.simps) simp

lemma word_ranges_word:
  assumes "pos < length input" "is_str_word_byte input pos additional"
  shows "word_ranges_from input additional pos = (pos, word_end input additional pos) #
    word_ranges_from input additional (word_end input additional pos)"
  using assms word_end_word [OF assms] word_end_gt [of pos input additional]
  by (subst word_ranges_from.simps) (simp add: Let_def)

lemma word_ranges_skip:
  assumes "pos < length input" "\<not> is_str_word_byte input pos additional"
  shows "word_ranges_from input additional pos = word_ranges_from input additional (Suc pos)"
  using assms word_end_other [of pos input additional]
  by (subst word_ranges_from.simps) (simp add: Let_def)

text \<open>Induction along the scan.\<close>

lemma word_scan_induct [case_names over word skip]:
  assumes "\<And>pos. length input \<le> pos \<Longrightarrow> P pos"
    "\<And>pos. pos < length input \<Longrightarrow> is_str_word_byte input pos additional \<Longrightarrow>
       P (word_end input additional pos) \<Longrightarrow> P pos"
    "\<And>pos. pos < length input \<Longrightarrow> \<not> is_str_word_byte input pos additional \<Longrightarrow> P (Suc pos) \<Longrightarrow> P pos"
  shows "P pos"
proof (induction "length input - pos" arbitrary: pos rule: less_induct)
  case less
  show ?case
  proof (cases "length input \<le> pos")
    case False
    then have lt: "pos < length input" by simp
    show ?thesis
    proof (cases "is_str_word_byte input pos additional")
      case True
      have "pos < word_end input additional pos"
        using word_end_word [OF lt True] word_end_gt [of pos input additional] by simp
      with less lt show ?thesis by (intro assms(2) [OF lt True]) (simp add: diff_less_mono2)
    next
      case no: False
      with less lt show ?thesis by (intro assms(3) [OF lt no]) simp
    qed
  qed (rule assms(1))
qed

lemma word_count_ranges:
  "word_count_from input additional pos count = count + length (word_ranges_from input additional pos)"
proof (induction pos arbitrary: count rule: word_scan_induct [of input _ additional])
  case (over pos)
  then show ?case by (simp add: word_ranges_done word_count_from.simps [of input additional pos])
next
  case (word pos)
  then show ?case
    by (simp add: word_ranges_word word_end_word [symmetric] word_count_from.simps [of input additional pos])
next
  case (skip pos)
  then show ?case by (simp add: word_ranges_skip word_count_from.simps [of input additional pos])
qed

lemma word_end_bytes:
  "pos \<le> q \<Longrightarrow> q < word_end input additional pos \<Longrightarrow> q < length input \<and> is_str_word_byte input q additional"
proof (induction input additional pos rule: word_end.induct)
  case (1 input additional pos)
  show ?case
  proof (cases "pos < length input \<and> is_str_word_byte input pos additional")
    case True
    with 1 word_end_word [of pos input additional] show ?thesis by (cases "q = pos") auto
  next
    case False
    with 1 word_end_other [OF False] show ?thesis by simp
  qed
qed

lemma word_end_stop:
  "word_end input additional pos < length input \<Longrightarrow>
     \<not> is_str_word_byte input (word_end input additional pos) additional"
proof (induction input additional pos rule: word_end.induct)
  case (1 input additional pos)
  show ?case
  proof (cases "pos < length input \<and> is_str_word_byte input pos additional")
    case True
    with 1 word_end_word [of pos input additional] show ?thesis by auto
  next
    case False
    with 1 word_end_other [OF False] show ?thesis by auto
  qed
qed

text \<open>The ranges are exactly the maximal runs of word bytes.\<close>

lemma word_ranges_start: "(s, t) \<in> set (word_ranges_from input additional pos) \<Longrightarrow> pos \<le> s"
proof (induction pos rule: word_scan_induct [of input _ additional])
  case (word pos)
  then show ?case using word_end_ge [of pos input additional] by (auto simp: word_ranges_word)
qed (auto simp: word_ranges_done word_ranges_skip)

lemma word_ranges_cover:
  assumes "pos \<le> q" "q < length input"
  shows "is_str_word_byte input q additional \<longleftrightarrow>
    (\<exists>(s, t) \<in> set (word_ranges_from input additional pos). s \<le> q \<and> q < t)"
  using assms
proof (induction pos rule: word_scan_induct [of input _ additional])
  case (word pos)
  let ?e = "word_end input additional pos"
  show ?case
  proof (cases "q < ?e")
    case True
    with word word_end_bytes [of pos q input additional] show ?thesis
      by (auto simp: word_ranges_word)
  next
    case False
    with word show ?thesis by (simp add: word_ranges_word)
  qed
next
  case (skip pos)
  show ?case
  proof (cases "q = pos")
    case True
    have "\<not> s \<le> pos" if "(s, t) \<in> set (word_ranges_from input additional (Suc pos))" for s t
      using word_ranges_start [OF that] by simp
    with skip True show ?thesis by (auto simp: word_ranges_skip)
  next
    case False
    with skip show ?thesis by (simp add: word_ranges_skip)
  qed
qed simp

lemma word_ranges_runs:
  "(s, t) \<in> set (word_ranges_from input additional pos) \<Longrightarrow>
     s < t \<and> t \<le> length input \<and> (t < length input \<longrightarrow> \<not> is_str_word_byte input t additional)"
proof (induction pos rule: word_scan_induct [of input _ additional])
  case (word pos)
  let ?e = "word_end input additional pos"
  have gt: "pos < ?e" using word_end_word [OF word(1,2)] word_end_gt [of pos input additional] by simp
  have "?e - 1 < length input"
    using word_end_bytes [of pos "?e - 1" input additional] gt by simp
  with gt word word_end_stop [of input additional pos] show ?case by (auto simp: word_ranges_word)
qed (auto simp: word_ranges_done word_ranges_skip)


text \<open>A byte is below 256, so a table of all bytes decides what holds of each.\<close>

lemma unat_byte: "unat (b :: byte) < 256"
  using unsigned_less [of b, where 'a = nat] by simp

definition latin1_pair :: "byte \<Rightarrow> byte \<Rightarrow> byte \<Rightarrow> bool" where
  "latin1_pair b lead cont \<longleftrightarrow> \<not> lead < 0x80 \<and> utf8_expected lead = Some 2 \<and> 0x80 \<le> cont \<and> cont \<le> 0xbf \<and>
     scalar_boundary_valid lead cont \<and> codepoint 2 lead [cont] < 256 \<and> ucast (codepoint 2 lead [cont]) = b"

lemma latin1_pairs:
  "list_all (\<lambda>n. latin1_pair (word_of_nat n) (0xc0 OR drop_bit 6 (word_of_nat n)) (0x80 OR (word_of_nat n AND 0x3f)))
     [128..<256]"
  by code_simp

lemma latin1_pair_high:
  assumes "\<not> b < (0x80 :: byte)"
  shows "latin1_pair b (0xc0 OR drop_bit 6 b) (0x80 OR (b AND 0x3f))"
proof -
  have "unat b \<in> {128..<256}" using assms unat_byte [of b] by (simp add: word_less_nat_alt)
  from bspec [OF latin1_pairs [unfolded list_all_iff set_upt] this] show ?thesis by simp
qed

lemma decode_latin1_high:
  assumes "latin1_pair b lead cont"
  shows "utf8_decode_latin1 (lead # cont # rest) = b # utf8_decode_latin1 rest"
proof -
  have "codepoint 2 lead (cont # rest) = codepoint 2 lead [cont]" by (simp add: codepoint_def)
  with assms show ?thesis by (simp add: latin1_pair_def Let_def numeral_2_eq_2)
qed

lemma decode_encode_byte: "utf8_decode_latin1 (utf8_encode_byte b @ rest) = b # utf8_decode_latin1 rest"
proof (cases "b < 0x80")
  case False
  with decode_latin1_high [OF latin1_pair_high [OF False], of rest] show ?thesis
    by (simp add: utf8_encode_byte_def del: utf8_decode_latin1.simps)
qed (simp add: utf8_encode_byte_def)

text \<open>The shape of a Soundex code: no digit but those of the table, and zeros only as filling.\<close>

lemma soundex_code_digit: "soundex_code b = Some d \<Longrightarrow> d \<in> {49..54}"
  by (auto simp: soundex_code_def Let_def split: if_splits)

lemma soundex_loop_shape:
  "length written < 4 \<Longrightarrow> \<exists>digits. soundex_loop input written previous = written @ digits \<and>
     length (written @ digits) \<le> 4 \<and> set digits \<subseteq> {49..54}"
proof (induction input written previous rule: soundex_loop.induct)
  case (2 b input written previous)
  show ?case
  proof (cases "soundex_code (ascii_upper b)")
    case None
    with 2 show ?thesis by (auto simp: Let_def)
  next
    case (Some code)
    note d = soundex_code_digit [OF Some]
    show ?thesis
    proof (cases "previous \<noteq> Some code \<and> length written + 1 \<noteq> 4")
      case True
      with 2(3) [OF refl Some] 2(5) obtain digits where
        "soundex_loop input (written @ [code]) (Some code) = (written @ [code]) @ digits"
        "length ((written @ [code]) @ digits) \<le> 4" "set digits \<subseteq> {49..54}" by auto
      with True Some d show ?thesis by (intro exI [of _ "code # digits"]) (auto simp: Let_def)
    next
      case False
      with 2(4) [OF refl Some] 2(5) Some d show ?thesis by (auto simp: Let_def)
    qed
  qed
qed simp

lemma count_chars_count:
  "length (count_chars input) = 256 \<and> (\<forall>b. count_chars input ! unat b = count_list input b)"
proof (induction input rule: rev_induct)
  case Nil
  then show ?case by (simp add: count_chars_def unat_byte)
next
  case (snoc x xs)
  then show ?case by (auto simp: count_chars_def nth_list_update unat_byte word_unat_eq_iff [symmetric])
qed

subsection \<open>Properties\<close>

text \<open>Transcoding Latin-1 to UTF-8 and back gives every byte string back, and \<open>str_rot13\<close> undoes
  itself.\<close>

theorem byte_maps_roundtrip:
  "utf8_decode_latin1 (utf8_encode_latin1 input) = input \<and> str_rot13 (str_rot13 input) = input"
proof
  show "utf8_decode_latin1 (utf8_encode_latin1 input) = input"
    by (induction input)
      (simp_all add: utf8_encode_latin1_def decode_encode_byte del: utf8_decode_latin1.simps(2))
  show "str_rot13 (str_rot13 input) = input"
    by (simp add: str_rot13_def rot13_involution comp_def)
qed

text \<open>The word ranges are the maximal runs of word bytes: a byte is a word byte exactly when one
  of the ranges holds it, and a range stops at the end or in front of another byte. The counting
  loop counts exactly these ranges.\<close>

theorem word_ranges_are_words:
  "(\<forall>q < length input. is_str_word_byte input q additional \<longleftrightarrow>
      (\<exists>(s, t) \<in> set (str_word_ranges input additional). s \<le> q \<and> q < t)) \<and>
   (\<forall>(s, t) \<in> set (str_word_ranges input additional). s < t \<and> t \<le> length input \<and>
      (t < length input \<longrightarrow> \<not> is_str_word_byte input t additional)) \<and>
   str_word_count input additional = length (str_word_ranges input additional)"
  unfolding str_word_ranges_def str_word_count_def word_count_ranges
proof (intro conjI allI impI)
  show "is_str_word_byte input q additional \<longleftrightarrow>
      (\<exists>(s, t) \<in> set (word_ranges_from input additional 0). s \<le> q \<and> q < t)" if "q < length input" for q
    using that by (rule word_ranges_cover [OF le0])
  show "\<forall>(s, t) \<in> set (word_ranges_from input additional 0). s < t \<and> t \<le> length input \<and>
      (t < length input \<longrightarrow> \<not> is_str_word_byte input t additional)"
    using word_ranges_runs [of _ _ input additional 0] by blast
qed simp

theorem word_ranges_are_words_witness:
  "str_word_count [72, 105, 32, 89, 111] (\<lambda>_. False) = length (str_word_ranges [72, 105, 32, 89, 111] (\<lambda>_. False))"
  using word_ranges_are_words [of "[72, 105, 32, 89, 111]" "\<lambda>_. False"] by simp

text \<open>A Soundex key has four places. Without a letter it is \<open>0000\<close>, otherwise the first letter in
  upper case, digits from 1 to 6, and zeros to fill.\<close>

theorem soundex_shape:
  "if \<exists>b \<in> set input. is_ascii_alphabetic b
   then \<exists>first digits zeros. soundex input = ascii_upper first # digits @ replicate zeros 48 \<and>
     find is_ascii_alphabetic input = Some first \<and> length digits + zeros = 3 \<and> set digits \<subseteq> {49..54}
   else soundex input = [48, 48, 48, 48]"
proof (cases "dropWhile (\<lambda>b. \<not> is_ascii_alphabetic b) input")
  case Nil
  have "soundex input = [48, 48, 48, 48]" unfolding soundex_def Nil by simp
  with Nil show ?thesis by (simp add: dropWhile_eq_Nil_conv)
next
  case (Cons first rest)
  then have ex: "\<exists>b \<in> set input. is_ascii_alphabetic b"
    by (metis dropWhile_eq_Nil_conv list.distinct(1))
  have f: "find is_ascii_alphabetic input = Some first"
    using Cons by (simp add: find_dropWhile comp_def)
  obtain digits where "soundex_loop rest [ascii_upper first] (soundex_code first) = [ascii_upper first] @ digits"
    "length ([ascii_upper first] @ digits) \<le> 4" "set digits \<subseteq> {49..54}"
    using soundex_loop_shape [of "[ascii_upper first]" rest "soundex_code first"] by auto
  with Cons f ex show ?thesis
    by (auto simp: soundex_def Let_def intro!: exI [of _ first] exI [of _ digits])
qed

end
