(* ===== verification/Word_Wrap.thy ===== *)
theory Word_Wrap
  imports Byte_Strings Request_Memory
begin

text \<open>
  \<open>wordwrap\<close> of \<open>src/src/string_byte_utilities.rs\<close>. The variables of its loop are the record
  \<open>wrap_state\<close>, one pass of the loop body is \<open>wrap_step\<close>, which answers a panic where the body would
  panic, and the loop is a partial function into \<open>option\<close>: a loop that runs forever is \<open>None\<close>. The
  storage check in front of it is that of the active request budget.
\<close>

subsection \<open>The loop\<close>

record wrap_state =
  ww_output :: "byte list"
  ww_current :: nat
  line_length :: int
  last_start :: nat
  last_space :: nat
  last_space_output :: "nat option"
  inserted_break :: bool

datatype wrap_failure =
  Storage_exhausted exhausted_error
| No_output_position
| Subtraction_overflow
| Index_out_of_bounds

fun break_matches :: "byte list \<Rightarrow> nat \<Rightarrow> byte list \<Rightarrow> bool" where
  "break_matches input pos [] = True"
| "break_matches input pos (expected # line_break) =
     (let actual = (if pos < length input then input ! pos else 0)
      in if actual \<noteq> expected then False
         else if actual = 0 then True
         else break_matches input (Suc pos) line_break)"

definition wordwrap_has_existing_break :: "byte list \<Rightarrow> nat \<Rightarrow> byte list \<Rightarrow> bool" where
  "wordwrap_has_existing_break input pos line_break = break_matches input pos line_break"

text \<open>The bodies of the branches. Each starts a line, or continues one.\<close>

definition fresh_line :: "nat \<Rightarrow> int \<Rightarrow> wrap_state \<Rightarrow> wrap_state" where
  "fresh_line start len s =
     s\<lparr>line_length := len, last_start := start, last_space := start, last_space_output := None\<rparr>"

definition copy_break :: "byte list \<Rightarrow> byte list \<Rightarrow> wrap_state \<Rightarrow> wrap_state" where
  "copy_break input line_break s =
     (let stop = min (saturating_add_usize (ww_current s) (length line_break)) (length input)
      in fresh_line stop 0
           (s\<lparr>ww_output := ww_output s @ take (stop - ww_current s) (drop (ww_current s) input),
              ww_current := stop\<rparr>))"

definition push_current :: "byte list \<Rightarrow> wrap_state \<Rightarrow> wrap_state" where
  "push_current input s =
     s\<lparr>ww_output := ww_output s @ [input ! ww_current s], ww_current := ww_current s + 1,
       line_length := line_length s + 1\<rparr>"

definition wrap_space :: "int \<Rightarrow> byte list \<Rightarrow> wrap_state \<Rightarrow> wrap_failure + wrap_state" where
  "wrap_space width line_break s =
     (if ww_current s < last_start s then Inl Subtraction_overflow
      else if width \<le> int (ww_current s - last_start s)
      then Inr (fresh_line (ww_current s + 1) 0
                  (s\<lparr>ww_output := ww_output s @ line_break, inserted_break := True,
                     ww_current := ww_current s + 1\<rparr>))
      else Inr (s\<lparr>last_space := ww_current s, last_space_output := Some (length (ww_output s)),
                  ww_output := ww_output s @ [32], ww_current := ww_current s + 1,
                  line_length := line_length s + 1\<rparr>))"

definition wrap_at_space :: "byte list \<Rightarrow> byte list \<Rightarrow> wrap_state \<Rightarrow> wrap_failure + wrap_state" where
  "wrap_at_space input line_break s =
     (case last_space_output s of
        None \<Rightarrow> Inl No_output_position
      | Some p \<Rightarrow>
          if length (ww_output s) \<le> p then Inl Index_out_of_bounds
          else if ww_current s < last_space s then Inl Subtraction_overflow
          else
            (let output = (if length line_break = 1 then (ww_output s)[p := line_break ! 0]
                           else take p (ww_output s) @ line_break @ drop (Suc p) (ww_output s))
             in Inr (fresh_line (last_space s + 1) (int (ww_current s - last_space s))
                       (s\<lparr>ww_output := output @ [input ! ww_current s], inserted_break := True,
                          ww_current := ww_current s + 1\<rparr>))))"

definition wrap_cut :: "byte list \<Rightarrow> byte list \<Rightarrow> wrap_state \<Rightarrow> wrap_state" where
  "wrap_cut input line_break s =
     (fresh_line (ww_current s) 1
        (s\<lparr>ww_output := ww_output s @ line_break @ [input ! ww_current s], inserted_break := True\<rparr>))
       \<lparr>ww_current := ww_current s + 1\<rparr>"

definition wrap_step ::
  "byte list \<Rightarrow> int \<Rightarrow> byte list \<Rightarrow> bool \<Rightarrow> wrap_state \<Rightarrow> wrap_failure + wrap_state" where
  "wrap_step input width line_break cut_words s =
     (let i = ww_current s
      in if saturating_add_usize i (length line_break) < length input
            \<and> wordwrap_has_existing_break input i line_break
         then Inr (copy_break input line_break s)
         else if \<not> cut_words \<and> length line_break = 1 \<and> i + 1 = length input \<and> input ! i = line_break ! 0
         then Inr (push_current input s)
         else if input ! i = 32 then wrap_space width line_break s
         else if width \<le> line_length s \<and> last_start s \<noteq> last_space s
         then wrap_at_space input line_break s
         else if cut_words \<and> width \<le> line_length s then Inr (wrap_cut input line_break s)
         else Inr (push_current input s))"

partial_function (option) wrap_loop ::
  "byte list \<Rightarrow> int \<Rightarrow> byte list \<Rightarrow> bool \<Rightarrow> wrap_state \<Rightarrow> (wrap_failure + wrap_state) option" where
  "wrap_loop input width line_break cut_words s =
     (if ww_current s < length input
      then (case wrap_step input width line_break cut_words s of
              Inl failure \<Rightarrow> Some (Inl failure)
            | Inr s' \<Rightarrow> wrap_loop input width line_break cut_words s')
      else Some (Inr s))"

subsection \<open>The function\<close>

definition wordwrap_maximum :: "byte list \<Rightarrow> int \<Rightarrow> byte list \<Rightarrow> nat" where
  "wordwrap_maximum input width line_break =
     (let breaks = length input div nat (max width 1)
      in saturating_add_usize (length input) (saturating_mul_usize breaks (length line_break)))"

definition wrap_start :: wrap_state where
  "wrap_start = \<lparr>ww_output = [], ww_current = 0, line_length = 0, last_start = 0, last_space = 0,
     last_space_output = None, inserted_break = False\<rparr>"

definition wordwrap ::
  "env \<Rightarrow> byte list \<Rightarrow> int \<Rightarrow> byte list \<Rightarrow> bool \<Rightarrow> memory_world
     \<Rightarrow> memory_world \<times> (wrap_failure + byte list \<times> bool) option" where
  "wordwrap e input width line_break cut_words w =
     (case memory_check e (wordwrap_maximum input width line_break) w of
        (w, Some err) \<Rightarrow> (w, Some (Inl (Storage_exhausted err)))
      | (w, None) \<Rightarrow>
          (w, case wrap_loop input width line_break cut_words wrap_start of
                None \<Rightarrow> None
              | Some (Inl failure) \<Rightarrow> Some (Inl failure)
              | Some (Inr s) \<Rightarrow> Some (Inr (ww_output s, inserted_break s))))"

subsection \<open>What wrapping may do\<close>

text \<open>The specification: bytes are kept in order, a space may become a break, and a break may be
  inserted anywhere if long words are cut.\<close>

inductive wraps :: "byte list \<Rightarrow> bool \<Rightarrow> byte list \<Rightarrow> byte list \<Rightarrow> bool"
  for line_break :: "byte list" and cut_words :: bool where
  wraps_empty: "wraps line_break cut_words [] []"
| wraps_keep: "wraps line_break cut_words xs ys \<Longrightarrow> wraps line_break cut_words (xs @ [x]) (ys @ [x])"
| wraps_space: "wraps line_break cut_words xs ys \<Longrightarrow> wraps line_break cut_words (xs @ [32]) (ys @ line_break)"
| wraps_cut: "cut_words \<Longrightarrow> wraps line_break cut_words xs ys \<Longrightarrow> wraps line_break cut_words xs (ys @ line_break)"

lemma wraps_append:
  assumes "wraps lb c xs ys" "wraps lb c us vs"
  shows "wraps lb c (xs @ us) (ys @ vs)"
  using assms(2)
proof induction
  case (wraps_keep us vs x)
  then show ?case using wraps.wraps_keep [of lb c "xs @ us" "ys @ vs" x] by simp
next
  case (wraps_space us vs)
  then show ?case using wraps.wraps_space [of lb c "xs @ us" "ys @ vs"] by simp
next
  case (wraps_cut us vs)
  then show ?case using wraps.wraps_cut [of c lb "xs @ us" "ys @ vs"] by simp
qed (use assms(1) in simp)

lemma wraps_refl: "wraps lb c xs xs"
  by (induction xs rule: rev_induct) (auto intro: wraps.intros)

text \<open>The output stands for the input read so far, and the remembered space is one of both.\<close>

inductive covered :: "byte list \<Rightarrow> bool \<Rightarrow> byte list \<Rightarrow> byte list \<Rightarrow> nat option \<Rightarrow> bool"
  for lb :: "byte list" and c :: bool where
  covered_whole: "wraps lb c xs ys \<Longrightarrow> covered lb c xs ys None"
| covered_split: "wraps lb c xs1 ys1 \<Longrightarrow> wraps lb c xs2 ys2 \<Longrightarrow>
    covered lb c (xs1 @ 32 # xs2) (ys1 @ 32 # ys2) (Some (length ys1))"

inductive_cases covered_SomeE: "covered lb c xs ys (Some p)"

lemma covered_keep:
  assumes "covered lb c xs ys p"
  shows "covered lb c (xs @ zs) (ys @ zs) p"
  using assms
proof cases
  case covered_whole
  then show ?thesis using covered.covered_whole [OF wraps_append [OF _ wraps_refl]] by simp
next
  case (covered_split xs1 ys1 xs2 ys2)
  then show ?thesis
    using covered.covered_split [OF _ wraps_append [OF _ wraps_refl], of lb c xs1 ys1 xs2 ys2 zs] by simp
qed

lemma covered_wraps:
  assumes "covered lb c xs ys p"
  shows "wraps lb c xs ys"
  using assms
proof cases
  case (covered_split xs1 ys1 xs2 ys2)
  then show ?thesis using wraps_append [OF wraps_keep [of lb c xs1 ys1 32]] by simp
qed

lemma covered_space: "wraps lb c xs ys \<Longrightarrow> covered lb c (xs @ [32]) (ys @ [32]) (Some (length ys))"
  using covered_split [OF _ wraps_empty] by simp

lemma covered_replace:
  assumes "covered lb c xs ys (Some p)"
  shows "p < length ys" "wraps lb c xs (take p ys @ lb @ drop (Suc p) ys)"
proof -
  from assms obtain xs1 xs2 ys1 ys2 where
    *: "xs = xs1 @ 32 # xs2" "ys = ys1 @ 32 # ys2" "length ys1 = p" "wraps lb c xs1 ys1" "wraps lb c xs2 ys2"
    by (auto elim: covered_SomeE)
  then show "p < length ys" by auto
  from wraps_append [OF wraps_space [OF *(4)] *(5)] *(1,2,3)
  show "wraps lb c xs (take p ys @ lb @ drop (Suc p) ys)" by auto
qed

definition wrap_inv :: "byte list \<Rightarrow> byte list \<Rightarrow> bool \<Rightarrow> wrap_state \<Rightarrow> bool" where
  "wrap_inv input lb c s \<longleftrightarrow>
     ww_current s \<le> length input \<and> last_start s \<le> ww_current s \<and> last_space s \<le> ww_current s \<and>
     (last_start s \<noteq> last_space s \<longrightarrow> last_space_output s \<noteq> None) \<and>
     covered lb c (take (ww_current s) input) (ww_output s) (last_space_output s) \<and>
     (\<not> inserted_break s \<longrightarrow> ww_output s = take (ww_current s) input)"

lemma wrap_invD:
  assumes "wrap_inv input lb c s"
  shows "ww_current s \<le> length input" "last_start s \<le> ww_current s" "last_space s \<le> ww_current s"
    "last_start s \<noteq> last_space s \<Longrightarrow> \<exists>p. last_space_output s = Some p"
    "covered lb c (take (ww_current s) input) (ww_output s) (last_space_output s)"
    "wraps lb c (take (ww_current s) input) (ww_output s)"
    "\<not> inserted_break s \<Longrightarrow> ww_output s = take (ww_current s) input"
  using assms covered_wraps [of lb c "take (ww_current s) input" "ww_output s" "last_space_output s"]
  by (simp_all add: wrap_inv_def)

subsection \<open>Every pass keeps the invariant and moves on\<close>

lemma inv_fresh_line:
  assumes "wraps lb c (take (ww_current s) input) (ww_output s)" "start \<le> ww_current s"
    "ww_current s \<le> length input"
    "\<not> inserted_break s \<Longrightarrow> ww_output s = take (ww_current s) input"
  shows "wrap_inv input lb c (fresh_line start len s)"
  using assms by (simp add: wrap_inv_def fresh_line_def covered_whole)

lemma inv_push_current:
  assumes "wrap_inv input lb c s" "ww_current s < length input"
  shows "wrap_inv input lb c (push_current input s)"
  using wrap_invD [OF assms(1)] assms(2) covered_keep [OF wrap_invD(5) [OF assms(1)], of "[input ! ww_current s]"]
  by (auto simp: wrap_inv_def push_current_def take_Suc_conv_app_nth)

lemma inv_copy_break:
  assumes "wrap_inv input lb c s" "ww_current s < length input" "length input \<le> usize_MAX" "lb \<noteq> []"
  shows "wrap_inv input lb c (copy_break input lb s)" "ww_current s < ww_current (copy_break input lb s)"
proof -
  let ?i = "ww_current s" and ?j = "min (saturating_add_usize (ww_current s) (length lb)) (length input)"
  note I = wrap_invD [OF assms(1)]
  have j: "?i < ?j" using assms(2,3,4) by (auto simp: saturating_add_usize_def)
  then show "?i < ww_current (copy_break input lb s)" by (simp add: copy_break_def fresh_line_def Let_def)
  have "take ?j input = take ?i input @ take (?j - ?i) (drop ?i input)"
    using take_add [of ?i "?j - ?i" input] j by simp
  with I wraps_append [OF I(6) wraps_refl, of "take (?j - ?i) (drop ?i input)"] j
  show "wrap_inv input lb c (copy_break input lb s)"
    unfolding copy_break_def Let_def by (intro inv_fresh_line) auto
qed

lemma inv_wrap_space:
  assumes "wrap_inv input lb c s" "ww_current s < length input" "input ! ww_current s = 32"
  shows "\<exists>s'. wrap_space width lb s = Inr s' \<and> wrap_inv input lb c s' \<and> ww_current s < ww_current s'"
proof -
  note I = wrap_invD [OF assms(1)]
  have t: "take (Suc (ww_current s)) input = take (ww_current s) input @ [32]"
    using assms(2,3) by (simp add: take_Suc_conv_app_nth)
  show ?thesis
  proof (cases "width \<le> int (ww_current s - last_start s)")
    case True
    with I(2) assms(2) t wraps_space [OF I(6)] show ?thesis
      by (auto simp: wrap_space_def intro!: inv_fresh_line) (simp add: fresh_line_def)
  next
    case False
    with I assms(2) t covered_space [OF I(6)] show ?thesis
      by (auto simp: wrap_space_def wrap_inv_def)
  qed
qed

lemma replaced_output:
  "p < length ys \<Longrightarrow> (if length lb = 1 then ys[p := lb ! 0] else take p ys @ lb @ drop (Suc p) ys) =
     take p ys @ lb @ drop (Suc p) ys"
  by (cases lb) (auto simp: upd_conv_take_nth_drop)

lemma inv_wrap_at_space:
  assumes "wrap_inv input lb c s" "ww_current s < length input" "last_start s \<noteq> last_space s"
  shows "\<exists>s'. wrap_at_space input lb s = Inr s' \<and> wrap_inv input lb c s' \<and> ww_current s < ww_current s'"
proof -
  note I = wrap_invD [OF assms(1)]
  from I(4) assms(3) obtain p where p: "last_space_output s = Some p" by auto
  note C = covered_replace [OF I(5) [unfolded p]]
  have t: "take (Suc (ww_current s)) input = take (ww_current s) input @ [input ! ww_current s]"
    using assms(2) by (simp add: take_Suc_conv_app_nth)
  have "wrap_inv input lb c (fresh_line (last_space s + 1) (int (ww_current s - last_space s))
          (s\<lparr>ww_output := (take p (ww_output s) @ lb @ drop (Suc p) (ww_output s)) @ [input ! ww_current s],
             inserted_break := True, ww_current := ww_current s + 1\<rparr>))"
    using assms(2) I(3) t wraps_keep [OF C(2)] by (intro inv_fresh_line) auto
  moreover have "wrap_at_space input lb s =
      Inr (fresh_line (last_space s + 1) (int (ww_current s - last_space s))
          (s\<lparr>ww_output := (take p (ww_output s) @ lb @ drop (Suc p) (ww_output s)) @ [input ! ww_current s],
             inserted_break := True, ww_current := ww_current s + 1\<rparr>))"
    using p C(1) I(3) by (simp add: wrap_at_space_def Let_def replaced_output [OF C(1)] del: One_nat_def)
  ultimately show ?thesis by (simp add: fresh_line_def)
qed

lemma inv_wrap_cut:
  assumes "wrap_inv input lb c s" "ww_current s < length input" c
  shows "wrap_inv input lb c (wrap_cut input lb s)" "ww_current s < ww_current (wrap_cut input lb s)"
proof -
  note I = wrap_invD [OF assms(1)]
  show "ww_current s < ww_current (wrap_cut input lb s)" by (simp add: wrap_cut_def fresh_line_def)
  have "wraps lb c (take (Suc (ww_current s)) input) (ww_output s @ lb @ [input ! ww_current s])"
    using wraps_keep [OF wraps_cut [OF assms(3) I(6)], of "input ! ww_current s"] assms(2)
    by (simp add: take_Suc_conv_app_nth)
  with assms(2) show "wrap_inv input lb c (wrap_cut input lb s)"
    by (simp add: wrap_inv_def wrap_cut_def fresh_line_def covered_whole)
qed

lemma wrap_step_ok:
  assumes "wrap_inv input lb c s" "ww_current s < length input" "length input \<le> usize_MAX" "lb \<noteq> []"
  shows "\<exists>s'. wrap_step input width lb c s = Inr s' \<and> wrap_inv input lb c s' \<and> ww_current s < ww_current s'"
proof -
  have "ww_current s < ww_current (push_current input s)" by (simp add: push_current_def)
  then show ?thesis
    using inv_copy_break [OF assms] inv_push_current [OF assms(1,2)] inv_wrap_space [OF assms(1,2)]
      inv_wrap_at_space [OF assms(1,2)] inv_wrap_cut [OF assms(1,2)]
    by (cases c) (auto simp: wrap_step_def Let_def)
qed

lemma wrap_loop_ok:
  assumes "wrap_inv input lb c s" "length input \<le> usize_MAX" "lb \<noteq> []"
  shows "\<exists>s'. wrap_loop input width lb c s = Some (Inr s') \<and> wrap_inv input lb c s' \<and> length input \<le> ww_current s'"
  using assms(1)
proof (induction "length input - ww_current s" arbitrary: s rule: less_induct)
  case less
  show ?case
  proof (cases "ww_current s < length input")
    case True
    from wrap_step_ok [OF less.prems True assms(2,3)] obtain s1
      where s1: "wrap_step input width lb c s = Inr s1" "wrap_inv input lb c s1" "ww_current s < ww_current s1"
      by blast
    with True less.hyps [of s1] show ?thesis by (subst wrap_loop.simps) (auto intro: diff_less_mono2)
  next
    case False
    with less.prems show ?thesis by (subst wrap_loop.simps) auto
  qed
qed

subsection \<open>Properties\<close>

text \<open>C34. With a break that is not empty, which its caller has checked, \<open>wordwrap\<close> either unwinds
  because the storage it may need does not fit under the memory limit, before it builds anything,
  or it returns: the loop ends and neither its subtractions, nor its index, nor its \<open>expect\<close> fail.
  The output is the input with some spaces replaced by the break and, only if words may be cut,
  with breaks inserted; when it reports that no break was inserted it is the input itself.\<close>

theorem wordwrap_wraps:
  assumes "line_break \<noteq> []" and "length input \<le> usize_MAX"
  shows "case memory_check e (wordwrap_maximum input width line_break) w of
     (w', Some err) \<Rightarrow> wordwrap e input width line_break cut_words w = (w', Some (Inl (Storage_exhausted err)))
   | (w', None) \<Rightarrow> \<exists>output inserted. wordwrap e input width line_break cut_words w = (w', Some (Inr (output, inserted)))
       \<and> wraps line_break cut_words input output \<and> (\<not> inserted \<longrightarrow> output = input)"
proof -
  have "wrap_inv input line_break cut_words wrap_start"
    by (simp add: wrap_inv_def wrap_start_def covered_whole wraps_empty)
  from wrap_loop_ok [OF this assms(2,1)] obtain s
    where s: "wrap_loop input width line_break cut_words wrap_start = Some (Inr s)"
      "wrap_inv input line_break cut_words s" "length input \<le> ww_current s" by blast
  with wrap_invD(1,6,7) [OF s(2)] show ?thesis by (auto simp: wordwrap_def split: prod.split option.split)
qed

theorem wordwrap_wraps_witness:
  "\<exists>output inserted. wordwrap \<lparr>env_active = True, env_collector = None, env_alive = \<lambda>_. True, env_panicking = False\<rparr>
      [97, 98, 32, 99] 2 [10] False \<lparr>mw_budgets = \<lambda>_. budget_default, mw_active = None\<rparr> =
      (\<lparr>mw_budgets = \<lambda>_. budget_default, mw_active = None\<rparr>, Some (Inr (output, inserted))) \<and>
    wraps [10] False [97, 98, 32, 99] output"
  using wordwrap_wraps [where line_break = "[10]" and input = "[97, 98, 32, 99]" and width = 2
      and e = "\<lparr>env_active = True, env_collector = None, env_alive = \<lambda>_. True, env_panicking = False\<rparr>"
      and w = "\<lparr>mw_budgets = \<lambda>_. budget_default, mw_active = None\<rparr>" and cut_words = False]
  by (auto simp: memory_check_def usize_MAX_def)

end
