(* ===== verification/Metaphone.thy ===== *)
theory Metaphone
  imports Byte_Strings
begin

text \<open>
  \<open>metaphone\<close> of \<open>src/src/string_byte_utilities.rs\<close>. A pair holds the output and the number of
  phonemes written; the rules of a letter answer it together with the extra positions they skip.
\<close>

subsection \<open>Letters\<close>

definition is_vowel :: "byte \<Rightarrow> bool" where
  "is_vowel b \<longleftrightarrow> b \<in> {65, 69, 73, 79, 85}"

definition is_front_vowel :: "byte \<Rightarrow> bool" where
  "is_front_vowel b \<longleftrightarrow> b \<in> {69, 73, 89}"

definition is_letter :: "byte \<Rightarrow> bool" where
  "is_letter b \<longleftrightarrow> 65 \<le> b \<and> b \<le> 90"

type_synonym phonemes = "byte list \<times> nat"

definition metaphone_push :: "nat \<Rightarrow> byte \<Rightarrow> phonemes \<Rightarrow> phonemes" where
  "metaphone_push limit b = (\<lambda>(out, n). if n < limit then (out @ [b], n + 1) else (out, n))"

text \<open>\<open>letters.get(index).copied().unwrap_or(0)\<close>.\<close>

definition letter_at :: "byte list \<Rightarrow> nat \<Rightarrow> byte" where
  "letter_at letters i = (if i < length letters then letters ! i else 0)"

definition letter_before :: "byte list \<Rightarrow> nat \<Rightarrow> byte" where
  "letter_before letters i = (if i = 0 then 0 else letter_at letters (i - 1))"

subsection \<open>Rules\<close>

text \<open>The pair at the beginning of the word.\<close>

definition initial_rule :: "nat \<Rightarrow> byte list \<Rightarrow> nat \<Rightarrow> phonemes \<Rightarrow> phonemes \<times> nat" where
  "initial_rule limit letters pos st =
     (let current = letters ! pos; follow = letter_at letters (pos + 1)
      in if current = 65 \<and> follow = 69 then (metaphone_push limit 69 st, pos + 2)
         else if current \<in> {71, 75, 80} \<and> follow = 78 then (metaphone_push limit 78 st, pos + 2)
         else if current = 87 \<and> follow = 82 then (metaphone_push limit 82 st, pos + 2)
         else if current = 87 \<and> follow = 72 then (metaphone_push limit 87 st, pos + 2)
         else if current = 88 then (metaphone_push limit 83 st, pos + 1)
         else if is_vowel current then (metaphone_push limit current st, pos + 1)
         else (st, pos))"

definition rule_C :: "nat \<Rightarrow> byte \<Rightarrow> byte \<Rightarrow> byte \<Rightarrow> phonemes \<Rightarrow> phonemes \<times> nat" where
  "rule_C limit previous follow after st =
     (if follow = 73 \<and> after = 65 then (metaphone_push limit 88 st, 2)
      else if previous = 83 \<and> is_front_vowel follow then (st, 0)
      else if is_front_vowel follow then (metaphone_push limit 83 st, 0)
      else if follow = 72 then (metaphone_push limit 88 st, 1)
      else (metaphone_push limit 75 st, 0))"

definition rule_G :: "nat \<Rightarrow> byte list \<Rightarrow> nat \<Rightarrow> byte \<Rightarrow> byte \<Rightarrow> byte \<Rightarrow> phonemes \<Rightarrow> phonemes \<times> nat" where
  "rule_G limit letters pos previous follow after st =
     (if follow = 72 then (metaphone_push limit 70 st, 1)
      else if follow = 78
        \<and> (pos + 2 = length letters
           \<or> (after = 69 \<and> pos + 3 < length letters \<and> letters ! (pos + 3) = 68 \<and> pos + 4 = length letters))
      then (st, 0)
      else if previous = 68 \<and> is_front_vowel follow then (st, 0)
      else if is_front_vowel follow then (metaphone_push limit 74 st, 0)
      else (metaphone_push limit 75 st, 0))"

definition rule_T :: "nat \<Rightarrow> byte \<Rightarrow> byte \<Rightarrow> phonemes \<Rightarrow> phonemes \<times> nat" where
  "rule_T limit follow after st =
     (if follow = 73 \<and> after \<in> {79, 65} then (metaphone_push limit 88 st, 0)
      else if follow = 72 then (metaphone_push limit 48 st, 1)
      else if \<not> (follow = 67 \<and> after = 72) then (metaphone_push limit 84 st, 0)
      else (st, 0))"

definition letter_rule :: "nat \<Rightarrow> byte list \<Rightarrow> nat \<Rightarrow> phonemes \<Rightarrow> phonemes \<times> nat" where
  "letter_rule limit letters pos st =
     (let current = letters ! pos; previous = letter_before letters pos;
          follow = letter_at letters (pos + 1); after = letter_at letters (pos + 2)
      in if current = 66 then (if previous \<noteq> 77 then (metaphone_push limit 66 st, 0) else (st, 0))
         else if current = 67 then rule_C limit previous follow after st
         else if current = 68 then
           (if follow = 71 \<and> is_front_vowel after then (metaphone_push limit 74 st, 0)
            else (metaphone_push limit 84 st, 0))
         else if current \<in> {70, 74, 76, 77, 78, 82} then (metaphone_push limit current st, 0)
         else if current = 71 then rule_G limit letters pos previous follow after st
         else if current = 72 then
           (if previous \<notin> {67, 83, 80, 84, 71} \<and> is_vowel follow then (metaphone_push limit 72 st, 0)
            else (st, 0))
         else if current = 75 then (if previous \<noteq> 67 then (metaphone_push limit 75 st, 0) else (st, 0))
         else if current = 80 then (metaphone_push limit (if follow = 72 then 70 else 80) st, 0)
         else if current = 81 then (metaphone_push limit 75 st, 0)
         else if current = 83 then
           (if follow = 72 \<or> (follow = 73 \<and> after \<in> {79, 65}) then (metaphone_push limit 88 st, 0)
            else (metaphone_push limit 83 st, 0))
         else if current = 84 then rule_T limit follow after st
         else if current = 86 then (metaphone_push limit 70 st, 0)
         else if current \<in> {87, 89} then
           (if is_vowel follow then (metaphone_push limit current st, 0) else (st, 0))
         else if current = 88 then
           (case st of (out, n) \<Rightarrow> if n < limit then ((out @ [75, 83], n + 2), 0) else (st, 0))
         else if current = 90 then (metaphone_push limit 83 st, 0)
         else (st, 0))"

definition doubled :: "byte list \<Rightarrow> nat \<Rightarrow> bool" where
  "doubled letters pos =
     (let current = letters ! pos; follow = letter_at letters (pos + 1); after = letter_at letters (pos + 2)
      in current = letter_before letters pos \<and> current \<noteq> 67 \<and>
         \<not> (current = 68 \<and> follow = 71 \<and> is_front_vowel after))"

function metaphone_loop :: "nat \<Rightarrow> byte list \<Rightarrow> nat \<Rightarrow> phonemes \<Rightarrow> phonemes" where
  "metaphone_loop limit letters pos st =
     (if pos < length letters \<and> snd st < limit
      then (if \<not> is_letter (letters ! pos) \<or> doubled letters pos
            then metaphone_loop limit letters (pos + 1) st
            else (case letter_rule limit letters pos st of
                    (st', skip) \<Rightarrow> metaphone_loop limit letters (pos + skip + 1) st'))
      else st)"
  by pat_completeness auto
termination by (relation "measure (\<lambda>(limit, letters, pos, st). length letters - pos)") auto

declare metaphone_loop.simps [simp del]

definition metaphone :: "byte list \<Rightarrow> nat \<Rightarrow> byte list" where
  "metaphone input max_phonemes =
     (let letters = map ascii_upper (takeWhile (\<lambda>b. b \<noteq> 0) input);
          limit = (if max_phonemes = 0 then usize_MAX else max_phonemes)
      in case find (\<lambda>i. is_letter (letters ! i)) [0..<length letters] of
           None \<Rightarrow> []
         | Some pos \<Rightarrow>
             (case initial_rule limit letters pos ([], 0) of
                (st, pos) \<Rightarrow> fst (metaphone_loop limit letters pos st)))"

subsection \<open>Lemmas\<close>

definition PHONEMES :: "byte set" where
  "PHONEMES = {66, 88, 83, 75, 74, 84, 70, 76, 77, 78, 82, 72, 80, 48, 87, 89, 65, 69, 73, 79, 85}"

text \<open>What the rules keep: the count is the length of the output, which is made of phonemes and
  passes the limit by at most the second half of an \<open>X\<close>.\<close>

definition phonemes_ok :: "nat \<Rightarrow> phonemes \<Rightarrow> bool" where
  "phonemes_ok limit st \<longleftrightarrow> snd st = length (fst st) \<and> snd st \<le> limit + 1 \<and> set (fst st) \<subseteq> PHONEMES"

lemma metaphone_push_ok: "phonemes_ok limit st \<Longrightarrow> b \<in> PHONEMES \<Longrightarrow> phonemes_ok limit (metaphone_push limit b st)"
  by (cases st) (auto simp: phonemes_ok_def metaphone_push_def)

definition rule_ok :: "nat \<Rightarrow> phonemes \<times> nat \<Rightarrow> bool" where
  "rule_ok limit r \<longleftrightarrow> phonemes_ok limit (fst r)"

lemma rule_ok_if: "(b \<Longrightarrow> rule_ok limit r) \<Longrightarrow> (\<not> b \<Longrightarrow> rule_ok limit r') \<Longrightarrow> rule_ok limit (if b then r else r')"
  by simp

lemma rule_ok_same: "phonemes_ok limit st \<Longrightarrow> rule_ok limit (st, k)"
  by (simp add: rule_ok_def)

lemma rule_ok_X:
  "phonemes_ok limit st \<Longrightarrow>
     rule_ok limit (case st of (out, n) \<Rightarrow> if n < limit then ((out @ [75, 83], n + 2), 0) else (st, 0))"
  by (cases st) (auto simp: rule_ok_def phonemes_ok_def PHONEMES_def)

lemma phoneme_intros:
  "66 \<in> PHONEMES" "88 \<in> PHONEMES" "83 \<in> PHONEMES" "75 \<in> PHONEMES" "74 \<in> PHONEMES" "84 \<in> PHONEMES"
  "70 \<in> PHONEMES" "72 \<in> PHONEMES" "48 \<in> PHONEMES" "69 \<in> PHONEMES" "78 \<in> PHONEMES" "82 \<in> PHONEMES"
  "87 \<in> PHONEMES" "(if b then 70 else 80) \<in> PHONEMES"
  "c \<in> {70, 74, 76, 77, 78, 82} \<Longrightarrow> c \<in> PHONEMES" "c \<in> {87, 89} \<Longrightarrow> c \<in> PHONEMES"
  "is_vowel c \<Longrightarrow> c \<in> PHONEMES"
  by (auto simp: PHONEMES_def is_vowel_def)

lemmas rule_ok_intros = rule_ok_if rule_ok_same rule_ok_X metaphone_push_ok

lemma initial_rule_ok: "phonemes_ok limit st \<Longrightarrow> rule_ok limit (initial_rule limit letters pos st)"
  unfolding initial_rule_def Let_def by (intro rule_ok_intros) (assumption | erule phoneme_intros | rule phoneme_intros)+

lemma special_rules_ok:
  assumes "phonemes_ok limit st"
  shows "rule_ok limit (rule_C limit previous follow after st)"
    "rule_ok limit (rule_G limit letters pos previous follow after st)"
    "rule_ok limit (rule_T limit follow after st)"
  unfolding rule_C_def rule_G_def rule_T_def
  by (intro rule_ok_intros; (rule assms | rule phoneme_intros))+

lemma letter_rule_ok: "phonemes_ok limit st \<Longrightarrow> rule_ok limit (letter_rule limit letters pos st)"
  unfolding letter_rule_def Let_def
  by (intro rule_ok_intros special_rules_ok) (assumption | erule phoneme_intros | rule phoneme_intros)+

lemma metaphone_loop_ok: "phonemes_ok limit st \<Longrightarrow> phonemes_ok limit (metaphone_loop limit letters pos st)"
proof (induction limit letters pos st rule: metaphone_loop.induct)
  case (1 limit letters pos st)
  show ?case
  proof (cases "pos < length letters \<and> snd st < limit \<and> is_letter (letters ! pos) \<and> \<not> doubled letters pos")
    case True
    obtain st' skip where r: "letter_rule limit letters pos st = (st', skip)" by fastforce
    with letter_rule_ok [OF 1(3), of letters pos] have "phonemes_ok limit st'" by (simp add: rule_ok_def)
    with 1(2) True r show ?thesis by (subst metaphone_loop.simps) auto
  next
    case False
    with 1 show ?thesis by (subst metaphone_loop.simps) auto
  qed
qed

lemma ascii_upper_idem: "ascii_upper (ascii_upper b) = ascii_upper b"
  by (auto simp: ascii_upper_def word_le_nat_alt unat_sub)

lemma ascii_upper_zero: "ascii_upper b = 0 \<longleftrightarrow> b = 0"
  by (auto simp: ascii_upper_def word_le_nat_alt unat_sub unat_eq_0 [symmetric])

lemma upper_prefix:
  "map ascii_upper (takeWhile (\<lambda>b. b \<noteq> 0) (map ascii_upper input)) = map ascii_upper (takeWhile (\<lambda>b. b \<noteq> 0) input)"
  by (induction input) (simp_all add: ascii_upper_idem ascii_upper_zero)

subsection \<open>Property\<close>

text \<open>A Metaphone key is made of the sixteen consonant symbols and the vowels, has at most one
  symbol more than the limit asks for (an \<open>X\<close> is written as two), does not depend on the case of
  the input nor on anything behind a zero byte, and its loop ends on every input.\<close>

theorem metaphone_key:
  "set (metaphone input n) \<subseteq> PHONEMES \<and> (n \<noteq> 0 \<longrightarrow> length (metaphone input n) \<le> n + 1) \<and>
   metaphone (map ascii_upper input) n = metaphone input n \<and>
   metaphone (takeWhile (\<lambda>b. b \<noteq> 0) input) n = metaphone input n"
proof -
  define limit where "limit = (if n = 0 then usize_MAX else n)"
  define letters where "letters = map ascii_upper (takeWhile (\<lambda>b. b \<noteq> 0) input)"
  have "\<exists>st. phonemes_ok limit st \<and> metaphone input n = fst st"
  proof (cases "find (\<lambda>i. is_letter (letters ! i)) [0..<length letters]")
    case None
    then have "metaphone input n = fst ([] :: byte list, 0 :: nat)"
      by (simp add: metaphone_def Let_def letters_def)
    then show ?thesis by (force simp: phonemes_ok_def)
  next
    case (Some pos)
    obtain st pos' where r: "initial_rule limit letters pos ([], 0) = (st, pos')" by fastforce
    have "phonemes_ok limit ([], 0)" by (simp add: phonemes_ok_def)
    from initial_rule_ok [OF this, of letters pos] r have "phonemes_ok limit st" by (simp add: rule_ok_def)
    moreover have "metaphone input n = fst (metaphone_loop limit letters pos' st)"
      unfolding metaphone_def Let_def letters_def [symmetric] limit_def [symmetric] Some option.case r by simp
    ultimately show ?thesis using metaphone_loop_ok [of limit st letters pos'] by blast
  qed
  then have "set (metaphone input n) \<subseteq> PHONEMES" "length (metaphone input n) \<le> limit + 1"
    by (auto simp: phonemes_ok_def)
  moreover have "metaphone (map ascii_upper input) n = metaphone input n"
    unfolding metaphone_def upper_prefix ..
  moreover have "metaphone (takeWhile (\<lambda>b. b \<noteq> 0) input) n = metaphone input n"
    by (simp add: metaphone_def)
  ultimately show ?thesis by (auto simp: limit_def)
qed

theorem metaphone_key_witness:
  "length (metaphone [84, 104, 111, 109, 112, 115, 111, 110] 2) \<le> 3"
  using metaphone_key [of "[84, 104, 111, 109, 112, 115, 111, 110]" 2] by simp

end
