(* ===== verification/Heap_Layout.thy ===== *)
theory Heap_Layout
  imports Prelude
begin

text \<open>
  The size classes of the process heap (\<open>src/src/heap/layout.rs\<close>): the table of block sizes, the
  class tables built from it at compile time, and \<open>class_for\<close>, which computes the class of a
  request from the table or, above 1 KiB, from the position of the highest bit of its size.
\<close>

subsection \<open>Constants\<close>

definition SMALL_PAGE_SIZE :: nat where "SMALL_PAGE_SIZE = 2 ^ 16"
definition MEDIUM_PAGE_SIZE :: nat where "MEDIUM_PAGE_SIZE = 2 ^ 20"
definition PAGE_HEADER :: nat where "PAGE_HEADER = 128"
definition STACK_UNIT_SHIFT :: nat where "STACK_UNIT_SHIFT = 16"
definition STACK_LINK :: nat where "STACK_LINK = PAGE_HEADER - 8"
definition HEADER_SHIFT :: nat where "HEADER_SHIFT = 7"
definition HEADER_SIZE :: nat where "HEADER_SIZE = 2 ^ HEADER_SHIFT"
definition HEADER_LINK :: nat where "HEADER_LINK = HEADER_SIZE - 8"
definition COLOR_STEP :: nat where "COLOR_STEP = 64"
definition COLORS :: nat where "COLORS = 16"
definition MAX_SMALL :: nat where "MAX_SMALL = 1024"
definition MAX_POOL :: nat where "MAX_POOL = 32 * 1024"
definition LARGE_UNIT :: nat where "LARGE_UNIT = 2 ^ STACK_UNIT_SHIFT"
definition LARGE_BUCKETS :: nat where "LARGE_BUCKETS = 64"
definition LARGE_MAX :: nat where "LARGE_MAX = LARGE_BUCKETS * LARGE_UNIT - PAGE_HEADER"
definition MAX_ALIGN :: nat where "MAX_ALIGN = 16"
definition NUM_SMALL_CLASSES :: nat where "NUM_SMALL_CLASSES = 20"
definition NUM_CLASSES :: nat where "NUM_CLASSES = 40"

lemmas heap_constants = SMALL_PAGE_SIZE_def MEDIUM_PAGE_SIZE_def PAGE_HEADER_def STACK_UNIT_SHIFT_def
  STACK_LINK_def HEADER_SHIFT_def HEADER_SIZE_def HEADER_LINK_def COLOR_STEP_def COLORS_def MAX_SMALL_def
  MAX_POOL_def LARGE_UNIT_def LARGE_BUCKETS_def LARGE_MAX_def MAX_ALIGN_def NUM_SMALL_CLASSES_def
  NUM_CLASSES_def

definition CLASS_SIZES :: "nat list" where
  "CLASS_SIZES =
     [8, 16, 24, 32, 40, 48, 56, 64, 80, 96, 112, 128, 152, 168, 192, 256, 384, 512, 768, 1024, 1280,
      1536, 1792, 2048, 2560, 3072, 3584, 4096, 5120, 6144, 7168, 8192, 10240, 12288, 14336, 16384,
      20480, 24576, 28672, 32768]"

subsection \<open>Classes\<close>

text \<open>The inner loop of \<open>build_class_table\<close>. It is evaluated at compile time, where running off the
  end of the table would stop the compilation.\<close>

function class_search :: "nat \<Rightarrow> nat \<Rightarrow> nat \<Rightarrow> nat" where
  "class_search align sz cls =
     (if cls < length CLASS_SIZES \<and> (CLASS_SIZES ! cls < sz \<or> CLASS_SIZES ! cls mod align \<noteq> 0)
      then class_search align sz (cls + 1) else cls)"
  by pat_completeness auto
termination by (relation "measure (\<lambda>(_, _, cls). length CLASS_SIZES - cls)") auto

declare class_search.simps [simp del]

definition build_class_table :: "nat \<Rightarrow> nat list" where
  "build_class_table align = map (\<lambda>sz. class_search align sz 0) [0..<MAX_SMALL + 1]"

definition CLASS_BY_SIZE :: "nat list" where "CLASS_BY_SIZE = build_class_table 8"
definition CLASS_BY_SIZE_16 :: "nat list" where "CLASS_BY_SIZE_16 = build_class_table 16"

text \<open>\<open>usize::BITS - 1 - n.leading_zeros()\<close>: the position of the highest bit.\<close>

fun highest_bit :: "nat \<Rightarrow> nat" where
  "highest_bit n = (if n < 2 then 0 else Suc (highest_bit (n div 2)))"

declare highest_bit.simps [simp del]

definition class_for :: "nat \<Rightarrow> nat \<Rightarrow> nat option" where
  "class_for sz align =
     (if MAX_ALIGN < align then None
      else if sz \<le> MAX_SMALL
      then Some ((if 8 < align then CLASS_BY_SIZE_16 else CLASS_BY_SIZE) ! sz)
      else if MAX_POOL < sz then None
      else
        (let n = sz - 1; log = highest_bit n
         in Some (NUM_SMALL_CLASSES + (log - 10) * 4 + (n div 2 ^ (log - 2)) mod 4)))"

subsection \<open>The reference\<close>

text \<open>A class serves a request when its blocks are large enough and its size keeps the alignment.\<close>

definition required_align :: "nat \<Rightarrow> nat" where
  "required_align align = (if 8 < align then 16 else 8)"

definition serves :: "nat \<Rightarrow> nat \<Rightarrow> nat \<Rightarrow> bool" where
  "serves align sz cls \<longleftrightarrow> cls < NUM_CLASSES \<and> sz \<le> CLASS_SIZES ! cls \<and> CLASS_SIZES ! cls mod align = 0"

definition best_class :: "nat \<Rightarrow> nat \<Rightarrow> nat option" where
  "best_class align sz = find (serves align sz) [0..<NUM_CLASSES]"

lemma best_classI:
  assumes "serves align sz cls" "\<And>c. c < cls \<Longrightarrow> \<not> serves align sz c"
  shows "best_class align sz = Some cls"
  unfolding best_class_def find_Some_iff using assms by (intro exI [of _ cls]) (auto simp: serves_def)

lemma length_CLASS_SIZES: "length CLASS_SIZES = NUM_CLASSES"
  by (simp add: CLASS_SIZES_def NUM_CLASSES_def)

lemma class_search_best:
  assumes "serves align sz c" "cls \<le> c" "\<And>d. d < cls \<Longrightarrow> \<not> serves align sz d"
  shows "best_class align sz = Some (class_search align sz cls)"
  using assms
proof (induction align sz cls rule: class_search.induct)
  case (1 align sz cls)
  show ?case
  proof (cases "serves align sz cls")
    case True
    then have "class_search align sz cls = cls"
      by (subst class_search.simps) (simp add: serves_def)
    with best_classI [OF True 1(4)] show ?thesis by simp
  next
    case False
    with 1(2,3) have lt: "cls < c" by (cases "cls = c") auto
    with False 1(2) have step: "cls < length CLASS_SIZES \<and> (CLASS_SIZES ! cls < sz \<or> CLASS_SIZES ! cls mod align \<noteq> 0)"
      by (auto simp: serves_def length_CLASS_SIZES)
    then have "class_search align sz cls = class_search align sz (cls + 1)"
      by (subst class_search.simps) simp
    with 1(1) [OF step 1(2)] 1(4) lt False show ?thesis by (auto simp: less_Suc_eq)
  qed
qed

lemma table_best:
  assumes "sz \<le> MAX_SMALL" "align = 8 \<or> align = 16"
  shows "best_class align sz = Some (build_class_table align ! sz)"
proof -
  have "serves align sz 19"
    using assms by (auto simp: serves_def heap_constants CLASS_SIZES_def)
  from class_search_best [OF this, of 0] assms(1) show ?thesis
    by (simp add: build_class_table_def nth_map_upt heap_constants del: upt_Suc)
qed

subsection \<open>Medium classes\<close>

lemma highest_bit_bounds: "0 < n \<Longrightarrow> 2 ^ highest_bit n \<le> n \<and> n < 2 ^ Suc (highest_bit n)"
proof (induction n rule: highest_bit.induct)
  case (1 n)
  show ?case
  proof (cases "n < 2")
    case True
    with 1 show ?thesis by (subst (1 2) highest_bit.simps) simp
  next
    case False
    with 1 have "2 ^ highest_bit (n div 2) \<le> n div 2 \<and> n div 2 < 2 ^ Suc (highest_bit (n div 2))" by simp
    with False show ?thesis by (subst (1 2) highest_bit.simps) (simp, linarith)
  qed
qed

lemma highest_bit_eqI:
  assumes "2 ^ k \<le> n" "n < 2 ^ Suc k"
  shows "highest_bit n = k"
proof -
  have "0 < n" using assms(1) by (cases n) auto
  from highest_bit_bounds [OF this] have b: "2 ^ highest_bit n \<le> n" "n < 2 ^ Suc (highest_bit n)" by auto
  have "2 ^ k < (2::nat) ^ Suc (highest_bit n)" "2 ^ highest_bit n < (2::nat) ^ Suc k"
    using b assms by linarith+
  then have "k < Suc (highest_bit n)" "highest_bit n < Suc k"
    using power_less_imp_less_exp [of "2::nat" k "Suc (highest_bit n)"]
      power_less_imp_less_exp [of "2::nat" "highest_bit n" "Suc k"] by auto
  then show ?thesis by simp
qed

text \<open>Four classes per power of two: the class found is the quarter that holds the size.\<close>

lemma medium_size:
  assumes "e < 5" "q < 4"
  shows "CLASS_SIZES ! (20 + e * 4 + q) = (q + 5) * 2 ^ (e + 8) \<and> CLASS_SIZES ! (20 + e * 4 + q) mod 16 = 0"
proof -
  have "e = 0 \<or> e = 1 \<or> e = 2 \<or> e = 3 \<or> e = 4" "q = 0 \<or> q = 1 \<or> q = 2 \<or> q = 3" using assms by linarith+
  then show ?thesis by (elim disjE) (simp_all add: CLASS_SIZES_def)
qed

lemma CLASS_SIZES_mono: "c < d \<Longrightarrow> d < NUM_CLASSES \<Longrightarrow> CLASS_SIZES ! c < CLASS_SIZES ! d"
proof -
  have "sorted_wrt (<) CLASS_SIZES" by (simp add: CLASS_SIZES_def)
  then show "c < d \<Longrightarrow> d < NUM_CLASSES \<Longrightarrow> CLASS_SIZES ! c < CLASS_SIZES ! d"
    by (simp add: sorted_wrt_iff_nth_less length_CLASS_SIZES)
qed


lemma medium_class:
  assumes "MAX_SMALL < sz" "sz \<le> MAX_POOL"
  defines "n \<equiv> sz - 1"
  defines "cls \<equiv> NUM_SMALL_CLASSES + (highest_bit n - 10) * 4 + (n div 2 ^ (highest_bit n - 2)) mod 4"
  shows "cls < NUM_CLASSES" "NUM_SMALL_CLASSES \<le> cls" "sz \<le> CLASS_SIZES ! cls"
    "CLASS_SIZES ! (cls - 1) < sz" "CLASS_SIZES ! cls mod 16 = 0"
proof -
  define h where "h = highest_bit n"
  have n: "1024 \<le> n" "n < 32768" "sz = Suc n" using assms by (auto simp: n_def heap_constants)
  then have hb: "2 ^ h \<le> n" "n < 2 ^ Suc h" using highest_bit_bounds [of n] by (auto simp: h_def)
  have h: "10 \<le> h" "h < 15"
    using n hb power_increasing [of "Suc h" 10 "2::nat"] power_increasing [of 15 h "2::nat"]
    by (force simp: not_less_eq_eq [symmetric])+
  define e q where "e = h - 10" and "q = n div 2 ^ (h - 2) - 4"
  have he: "h = e + 10" "h - 2 = e + 8" "e < 5" using h by (auto simp: e_def)
  let ?u = "2 ^ (e + 8) :: nat"
  have p: "2 ^ h = 4 * ?u" "2 ^ Suc h = 8 * ?u" unfolding he(1) by (simp_all add: power_add)
  have "4 \<le> n div ?u" "n div ?u < 8"
    using hb p by (simp_all add: less_eq_div_iff_mult_less_eq div_less_iff_less_mult)
  then have q: "n div ?u = q + 4" "q < 4" unfolding q_def he(2) by simp_all
  then have "n div ?u mod 4 = q" by simp
  then have cls: "cls = 20 + e * 4 + q"
    unfolding cls_def h_def [symmetric] he(2) NUM_SMALL_CLASSES_def by (simp add: he(1))
  have nq: "(q + 4) * ?u \<le> n" "n < (q + 5) * ?u"
    using q(1) div_times_less_eq_dividend [of n ?u] dividend_less_div_times [of ?u n] by (simp_all add: algebra_simps)
  show "cls < NUM_CLASSES" "NUM_SMALL_CLASSES \<le> cls" using cls he q by (simp_all add: heap_constants)
  show "sz \<le> CLASS_SIZES ! cls" "CLASS_SIZES ! cls mod 16 = 0"
    using medium_size [OF he(3) q(2)] nq(2) n(3) unfolding cls by (linarith, blast)
  show "CLASS_SIZES ! (cls - 1) < sz"
  proof (cases "q = 0 \<and> e = 0")
    case True
    then show ?thesis using n by (simp add: cls CLASS_SIZES_def)
  next
    case False
    then have "CLASS_SIZES ! (cls - 1) = (q + 4) * ?u"
      using medium_size [of e "q - 1"] medium_size [of "e - 1" 3] he(3) q(2)
      by (cases "q = 0"; cases e) (auto simp: cls algebra_simps power_add)
    then show ?thesis using nq(1) n(3) by simp
  qed
qed

lemma class_for_best:
  "class_for sz align =
     (if align \<le> MAX_ALIGN \<and> sz \<le> MAX_POOL then best_class (required_align align) sz else None)"
proof -
  consider (big_align) "MAX_ALIGN < align" | (small) "align \<le> MAX_ALIGN" "sz \<le> MAX_SMALL"
    | (medium) "align \<le> MAX_ALIGN" "MAX_SMALL < sz" "sz \<le> MAX_POOL" | (large) "MAX_POOL < sz"
    by linarith
  then show ?thesis
  proof cases
    case small
    then show ?thesis using table_best [of sz "required_align align"]
      by (auto simp: class_for_def required_align_def CLASS_BY_SIZE_def CLASS_BY_SIZE_16_def heap_constants)
  next
    case medium
    define cls where "cls = NUM_SMALL_CLASSES + (highest_bit (sz - 1) - 10) * 4 +
        ((sz - 1) div 2 ^ (highest_bit (sz - 1) - 2)) mod 4"
    note M = medium_class [OF medium(2,3), folded cls_def]
    have c: "class_for sz align = Some cls"
      using medium by (simp add: class_for_def cls_def Let_def)
    have "CLASS_SIZES ! cls mod 8 = 0" using M(5) by presburger
    with M have "serves (required_align align) sz cls" by (simp add: serves_def required_align_def)
    moreover have "\<not> serves (required_align align) sz c" if "c < cls" for c
    proof -
      have "CLASS_SIZES ! c \<le> CLASS_SIZES ! (cls - 1)"
        using CLASS_SIZES_mono [of c "cls - 1"] that M(1)
        by (cases "c = cls - 1") (simp_all add: less_imp_le)
      with M(4) show ?thesis by (simp add: serves_def)
    qed
    ultimately have "best_class (required_align align) sz = Some cls" by (rule best_classI)
    with c medium show ?thesis by simp
  qed (auto simp: class_for_def heap_constants)
qed

text \<open>C30. \<open>class_for\<close> finds the smallest class that serves the request, for every size up to 32 KiB
  and every alignment up to 16, and refuses all others: the tables and the bit computation are
  both the search through the classes.\<close>

theorem class_for_is_best_class:
  "class_for sz align =
     (if align \<le> MAX_ALIGN \<and> sz \<le> MAX_POOL then best_class (required_align align) sz else None)"
  by (rule class_for_best)

end
