(* ===== verification/Heap_Region.thy ===== *)
theory Heap_Region
  imports Heap_Layout
begin

text \<open>
  The reserved address range of the heap (\<open>src/src/heap/region.rs\<close>): how \<open>reserve_range\<close> divides it
  into the header array, the small pages, the medium pages and the large blocks, how \<open>carve\<close> claims
  fresh address space from a region, and the arithmetic that leads from a block to its page and
  from the page to its header entry. Addresses are natural numbers; the mappings the kernel hands
  out lie far below \<open>2 ^ 64\<close>, and the theorems say so where it matters. The kernel's \<open>mmap\<close> is a
  parameter: the address it maps a size at, or nothing.
\<close>

subsection \<open>The range\<close>

record region =
  rg_base :: nat
  rg_half :: nat
  rg_reserve :: nat
  rg_large_start :: nat
  rg_small_start :: nat
  SMALL_CURSOR :: nat
  MEDIUM_CURSOR :: nat
  LARGE_CURSOR :: nat

definition no_region :: region where
  "no_region = \<lparr>rg_base = 0, rg_half = 0, rg_reserve = 0, rg_large_start = 0, rg_small_start = 0,
     SMALL_CURSOR = 0, MEDIUM_CURSOR = 0, LARGE_CURSOR = 0\<rparr>"

text \<open>\<open>x & !(unit - 1)\<close> for a power of two, and \<open>next_multiple_of\<close>.\<close>

definition align_down :: "nat \<Rightarrow> nat \<Rightarrow> nat" where
  "align_down x unit = x - x mod unit"

definition next_multiple_of :: "nat \<Rightarrow> nat \<Rightarrow> nat" where
  "next_multiple_of x unit = (if x mod unit = 0 then x else x + (unit - x mod unit))"

definition publish_range :: "nat \<Rightarrow> nat \<Rightarrow> region \<Rightarrow> region" where
  "publish_range raw sz s =
     (let base = align_down (raw + LARGE_UNIT - 1) LARGE_UNIT;
          reserve = align_down (raw + sz - base) LARGE_UNIT;
          half = align_down (reserve div 2) MEDIUM_PAGE_SIZE;
          large_start = half + align_down (reserve div 4) LARGE_UNIT;
          small_start = next_multiple_of (large_start div 2 ^ STACK_UNIT_SHIFT * 2 ^ HEADER_SHIFT) SMALL_PAGE_SIZE
      in s\<lparr>rg_base := base, rg_half := half, rg_large_start := large_start, rg_small_start := small_start,
           SMALL_CURSOR := base + small_start,
           MEDIUM_CURSOR := align_down (base + half + MEDIUM_PAGE_SIZE - 1) MEDIUM_PAGE_SIZE,
           LARGE_CURSOR := base + large_start, rg_reserve := reserve\<rparr>)"

text \<open>The loop of \<open>reserve_range\<close>: it halves the size until a mapping succeeds. When another thread has
  published a range in the meantime the mapping is given back.\<close>

function reserve_from :: "(nat \<Rightarrow> nat option) \<Rightarrow> nat \<Rightarrow> region \<Rightarrow> region \<times> bool" where
  "reserve_from mmap sz s =
     (if sz < 256 * 2 ^ 20 then (s, False)
      else case mmap sz of
             None \<Rightarrow> reserve_from mmap (sz div 2) s
           | Some raw \<Rightarrow> if rg_base s = 0 then (publish_range raw sz s, True) else (s, True))"
  by pat_completeness auto
termination by (relation "measure (\<lambda>(_, sz, _). sz)") auto

declare reserve_from.simps [simp del]

definition reserve_range :: "(nat \<Rightarrow> nat option) \<Rightarrow> region \<Rightarrow> region \<times> bool" where
  "reserve_range mmap s = reserve_from mmap (64 * 2 ^ 30) s"

definition ensure_reserved :: "(nat \<Rightarrow> nat option) \<Rightarrow> region \<Rightarrow> region \<times> bool" where
  "ensure_reserved mmap s = (if rg_reserve s \<noteq> 0 then (s, True) else reserve_range mmap s)"

text \<open>One uninterrupted run of \<open>carve\<close>: the new cursor, and the address claimed or 0.\<close>

definition carve :: "nat \<Rightarrow> nat \<Rightarrow> nat \<Rightarrow> nat \<times> nat" where
  "carve cursor bytes limit = (if limit < cursor + bytes then (cursor, 0) else (cursor + bytes, cursor))"

subsection \<open>Addresses\<close>

definition pool_offset :: "region \<Rightarrow> nat \<Rightarrow> nat" where
  "pool_offset s ptr = (ptr + 2 ^ 64 - rg_base s) mod 2 ^ 64"

definition in_pool :: "region \<Rightarrow> nat \<Rightarrow> bool" where
  "in_pool s ptr \<longleftrightarrow> pool_offset s ptr < rg_reserve s"

definition header_of :: "region \<Rightarrow> nat \<Rightarrow> nat" where
  "header_of s page = rg_base s + (page - rg_base s) div 2 ^ STACK_UNIT_SHIFT * 2 ^ HEADER_SHIFT"

definition small_header :: "nat \<Rightarrow> nat \<Rightarrow> nat" where
  "small_header base offset = base + offset div 2 ^ STACK_UNIT_SHIFT * 2 ^ HEADER_SHIFT"

definition page_start_at :: "region \<Rightarrow> nat \<Rightarrow> nat \<Rightarrow> nat" where
  "page_start_at s ptr offset =
     align_down ptr (if offset < rg_half s then SMALL_PAGE_SIZE else MEDIUM_PAGE_SIZE)"

definition page_header_at :: "region \<Rightarrow> nat \<Rightarrow> nat \<Rightarrow> nat" where
  "page_header_at s ptr offset = header_of s (page_start_at s ptr offset)"

definition page_color :: "nat \<Rightarrow> nat \<Rightarrow> nat" where
  "page_color page page_size = page div page_size mod COLORS * COLOR_STEP"

definition is_small_page :: "region \<Rightarrow> nat \<Rightarrow> bool" where
  "is_small_page s page \<longleftrightarrow> pool_offset s page < rg_half s"

definition is_large_offset :: "region \<Rightarrow> nat \<Rightarrow> bool" where
  "is_large_offset s offset \<longleftrightarrow> rg_large_start s \<le> offset"

subsection \<open>The layout\<close>

definition region_ok :: "region \<Rightarrow> bool" where
  "region_ok s \<longleftrightarrow>
     0 < rg_base s \<and> rg_base s mod LARGE_UNIT = 0 \<and> rg_base s + rg_reserve s < 2 ^ 63 \<and>
     rg_reserve s \<le> 64 * 2 ^ 30 \<and>
     rg_large_start s div 2 ^ STACK_UNIT_SHIFT * 2 ^ HEADER_SHIFT \<le> rg_small_start s \<and>
     rg_small_start s \<le> rg_half s \<and> rg_half s \<le> rg_large_start s \<and> rg_large_start s \<le> rg_reserve s \<and>
     rg_small_start s mod SMALL_PAGE_SIZE = 0 \<and> rg_half s mod MEDIUM_PAGE_SIZE = 0 \<and>
     rg_large_start s mod LARGE_UNIT = 0 \<and>
     rg_base s + rg_small_start s \<le> SMALL_CURSOR s \<and> SMALL_CURSOR s \<le> rg_base s + rg_half s \<and>
     SMALL_CURSOR s mod SMALL_PAGE_SIZE = 0 \<and>
     rg_base s + rg_half s \<le> MEDIUM_CURSOR s \<and> MEDIUM_CURSOR s \<le> rg_base s + rg_large_start s \<and>
     MEDIUM_CURSOR s mod MEDIUM_PAGE_SIZE = 0 \<and>
     rg_base s + rg_large_start s \<le> LARGE_CURSOR s \<and> LARGE_CURSOR s \<le> rg_base s + rg_reserve s \<and>
     LARGE_CURSOR s mod LARGE_UNIT = 0"

lemma region_okD:
  assumes "region_ok s"
  shows "0 < rg_base s" "rg_base s mod LARGE_UNIT = 0" "rg_base s + rg_reserve s < 2 ^ 63"
    "rg_reserve s \<le> 64 * 2 ^ 30"
    "rg_large_start s div 2 ^ STACK_UNIT_SHIFT * 2 ^ HEADER_SHIFT \<le> rg_small_start s"
    "rg_small_start s \<le> rg_half s" "rg_half s \<le> rg_large_start s" "rg_large_start s \<le> rg_reserve s"
    "rg_small_start s mod SMALL_PAGE_SIZE = 0" "rg_half s mod MEDIUM_PAGE_SIZE = 0"
    "rg_large_start s mod LARGE_UNIT = 0"
    "rg_base s + rg_small_start s \<le> SMALL_CURSOR s" "SMALL_CURSOR s \<le> rg_base s + rg_half s"
    "SMALL_CURSOR s mod SMALL_PAGE_SIZE = 0"
    "rg_base s + rg_half s \<le> MEDIUM_CURSOR s" "MEDIUM_CURSOR s \<le> rg_base s + rg_large_start s"
    "MEDIUM_CURSOR s mod MEDIUM_PAGE_SIZE = 0"
    "rg_base s + rg_large_start s \<le> LARGE_CURSOR s" "LARGE_CURSOR s \<le> rg_base s + rg_reserve s"
    "LARGE_CURSOR s mod LARGE_UNIT = 0"
  using assms by (simp_all add: region_ok_def)

lemma align_down_bounds: "0 < unit \<Longrightarrow> align_down x unit \<le> x \<and> x < align_down x unit + unit"
  using mod_less_divisor [of unit x] mod_less_eq_dividend [of x unit] unfolding align_down_def by linarith

lemma align_down_mod [simp]: "align_down x unit mod unit = 0"
  by (simp add: align_down_def minus_mod_eq_mult_div)

lemma align_down_same: "x mod unit = 0 \<Longrightarrow> align_down x unit = x"
  by (simp add: align_down_def)

lemma align_down_range:
  assumes "p mod unit = 0" "p \<le> x" "x < p + unit"
  shows "align_down x unit = p"
proof -
  have "x mod unit = (x - p) mod unit"
    using assms(1,2) by (metis add_diff_cancel_left' le_add_diff_inverse mod_add_left_eq add_0)
  also have "\<dots> = x - p" using assms by (simp add: less_diff_conv2)
  finally show ?thesis using assms by (simp add: align_down_def)
qed

lemma next_multiple_bounds:
  "0 < unit \<Longrightarrow> x \<le> next_multiple_of x unit \<and> next_multiple_of x unit < x + unit \<and> next_multiple_of x unit mod unit = 0"
proof -
  assume u: "0 < unit"
  then have lt: "x mod unit < unit" by simp
  have "(x + (unit - x mod unit)) mod unit = 0" if "x mod unit \<noteq> 0"
  proof -
    have "x + (unit - x mod unit) = unit * (x div unit) + unit"
      using lt by (metis add.assoc le_add_diff_inverse less_imp_le mult_div_mod_eq)
    then show ?thesis by simp
  qed
  moreover have "x \<le> x + (unit - x mod unit)" "x mod unit \<noteq> 0 \<Longrightarrow> x + (unit - x mod unit) < x + unit"
    using lt by linarith+
  ultimately show ?thesis using u by (cases "x mod unit = 0") (simp_all only: next_multiple_of_def if_True if_False, simp_all)
qed


lemma mod_coarser: "x mod (2 ^ 20) = 0 \<Longrightarrow> x mod 2 ^ 16 = (0::nat)"
  by (metis dvd_trans le_imp_power_dvd mod_eq_0_iff_dvd numeral_le_iff semiring_norm(68,69,71,72))

lemma publish_range_ok:
  assumes "0 < raw" "raw + sz + LARGE_UNIT < 2 ^ 63" "256 * 2 ^ 20 \<le> sz" "sz \<le> 64 * 2 ^ 30"
  shows "region_ok (publish_range raw sz s)"
    "raw \<le> rg_base (publish_range raw sz s)"
    "rg_base (publish_range raw sz s) + rg_reserve (publish_range raw sz s) \<le> raw + sz"
proof -
  define base where "base = align_down (raw + LARGE_UNIT - 1) LARGE_UNIT"
  define reserve where "reserve = align_down (raw + sz - base) LARGE_UNIT"
  define half where "half = align_down (reserve div 2) MEDIUM_PAGE_SIZE"
  define quarter where "quarter = align_down (reserve div 4) LARGE_UNIT"
  define headers where "headers = (half + quarter) div 2 ^ 16 * 2 ^ 7"
  define small_start where "small_start = next_multiple_of headers SMALL_PAGE_SIZE"
  define medium where "medium = align_down (base + half + MEDIUM_PAGE_SIZE - 1) MEDIUM_PAGE_SIZE"
  let ?s = "\<lparr>rg_base = base, rg_half = half, rg_reserve = reserve, rg_large_start = half + quarter,
      rg_small_start = small_start, SMALL_CURSOR = base + small_start, MEDIUM_CURSOR = medium,
      LARGE_CURSOR = base + (half + quarter)\<rparr>"
  have s: "publish_range raw sz s = ?s"
    by (cases s) (simp add: publish_range_def base_def reserve_def half_def quarter_def headers_def small_start_def
        medium_def Let_def STACK_UNIT_SHIFT_def HEADER_SHIFT_def)
  have units: "LARGE_UNIT = 65536" "SMALL_PAGE_SIZE = 65536" "MEDIUM_PAGE_SIZE = 1048576"
    by (simp_all add: heap_constants)
  have b: "raw \<le> base" "base < raw + 65536" "base mod 65536 = 0"
    using align_down_bounds [of LARGE_UNIT "raw + LARGE_UNIT - 1"] align_down_mod [of "raw + LARGE_UNIT - 1" LARGE_UNIT]
    by (simp_all add: base_def units)
  have r0: "reserve \<le> raw + sz - base" "raw + sz - base < reserve + 65536" "reserve mod 65536 = 0"
    using align_down_bounds [of LARGE_UNIT "raw + sz - base"] by (simp_all add: reserve_def units)
  have "base \<le> raw + sz" using b(2) assms(3) by simp
  with r0 have r: "base + reserve \<le> raw + sz" "raw + sz < base + reserve + 65536" by linarith+
  have h: "half \<le> reserve div 2" "reserve div 2 < half + 1048576" "half mod 1048576 = 0"
    using align_down_bounds [of MEDIUM_PAGE_SIZE "reserve div 2"] by (simp_all add: half_def units)
  have q: "quarter \<le> reserve div 4" "reserve div 4 < quarter + 65536" "quarter mod 65536 = 0"
    using align_down_bounds [of LARGE_UNIT "reserve div 4"] by (simp_all add: quarter_def units)
  have ss: "headers \<le> small_start" "small_start < headers + 65536" "small_start mod 65536 = 0"
    using next_multiple_bounds [of SMALL_PAGE_SIZE headers] by (simp_all add: small_start_def units)
  have m: "base + half \<le> medium" "medium < base + half + 1048576" "medium mod 1048576 = 0"
    using align_down_bounds [of MEDIUM_PAGE_SIZE "base + half + MEDIUM_PAGE_SIZE - 1"]
    by (simp_all add: medium_def units)
  have half16: "half mod 65536 = 0" using mod_coarser [of half] h(3) by simp
  have hd: "512 * headers \<le> half + quarter" by (simp add: headers_def)
  have "region_ok ?s"
    unfolding region_ok_def region.select_convs units STACK_UNIT_SHIFT_def HEADER_SHIFT_def headers_def [symmetric]
  proof (intro conjI)
    show "(half + quarter) mod 65536 = 0" "(base + small_start) mod 65536 = 0"
      "(base + (half + quarter)) mod 65536 = 0"
      using half16 q(3) b(3) ss(3) by (simp_all only: mod_eq_0_iff_dvd dvd_add)
    show "headers \<le> small_start" "half mod 1048576 = 0" "medium mod 1048576 = 0"
      "base mod 65536 = 0" "small_start mod 65536 = 0" by fact+
  qed (use b r h q ss m hd assms(1-4) in \<open>simp_all add: units\<close>)
  then show "region_ok (publish_range raw sz s)" by (simp only: s)
  show "raw \<le> rg_base (publish_range raw sz s)"
    "rg_base (publish_range raw sz s) + rg_reserve (publish_range raw sz s) \<le> raw + sz"
    using b r by (simp_all add: s)
qed


lemma reserve_from_granted:
  assumes "reserve_from mmap (2 ^ n) s = (s', True)" "rg_base s = 0"
  shows "\<exists>m raw. 28 \<le> m \<and> m \<le> n \<and> mmap (2 ^ m) = Some raw \<and> (\<forall>k. m < k \<and> k \<le> n \<longrightarrow> mmap (2 ^ k) = None)
    \<and> s' = publish_range raw (2 ^ m) s"
  using assms
proof (induction n)
  case 0
  then show ?case by (subst (asm) reserve_from.simps) simp
next
  case (Suc n)
  have big: "\<not> (2::nat) ^ Suc n < 256 * 2 ^ 20"
    using Suc.prems(1) by (subst (asm) reserve_from.simps) (auto split: if_splits)
  have le: "28 \<le> Suc n"
  proof (rule ccontr)
    assume "\<not> 28 \<le> Suc n"
    then have "(2::nat) ^ Suc n < 2 ^ 28" by (intro power_strict_increasing) auto
    with big show False by simp
  qed
  show ?case
  proof (cases "mmap (2 ^ Suc n)")
    case None
    with Suc.prems(1) big have "reserve_from mmap (2 ^ n) s = (s', True)"
      by (subst (asm) reserve_from.simps) simp
    from Suc.IH [OF this Suc.prems(2)] None show ?thesis by (metis le_Suc_eq)
  next
    case (Some raw)
    with Suc.prems big have "s' = publish_range raw (2 ^ Suc n) s"
      by (subst (asm) reserve_from.simps) simp
    with Some le show ?thesis by (intro exI [of _ "Suc n"] exI [of _ raw]) auto
  qed
qed

lemma reserve_from_refused:
  assumes "reserve_from mmap (2 ^ n) s = (s', False)"
  shows "s' = s \<and> (\<forall>m. 28 \<le> m \<and> m \<le> n \<longrightarrow> mmap (2 ^ m) = None)"
  using assms
proof (induction n)
  case (Suc n)
  show ?case
  proof (cases "Suc n < 28")
    case True
    then have "(2::nat) ^ Suc n < 2 ^ 28" by (rule power_strict_increasing) simp
    then have "(2::nat) ^ Suc n < 256 * 2 ^ 20" by simp
    with Suc.prems have "s' = s" by (subst (asm) reserve_from.simps) simp
    with True show ?thesis by auto
  next
    case False
    then have "(2::nat) ^ 28 \<le> 2 ^ Suc n" by (intro power_increasing) auto
    then have big: "\<not> (2::nat) ^ Suc n < 256 * 2 ^ 20" by simp
    have none: "mmap (2 ^ Suc n) = None"
      using Suc.prems big by (subst (asm) reserve_from.simps) (auto split: option.splits if_splits)
    with Suc.prems big have "reserve_from mmap (2 ^ n) s = (s', False)"
      by (subst (asm) reserve_from.simps) simp
    with Suc.IH none show ?thesis by (auto simp: le_Suc_eq)
  qed
qed (subst (asm) reserve_from.simps, simp)

subsection \<open>Pages and their headers\<close>

definition page_size_of :: "nat \<Rightarrow> nat" where
  "page_size_of cls = (if cls < NUM_SMALL_CLASSES then SMALL_PAGE_SIZE else MEDIUM_PAGE_SIZE)"

text \<open>The places a page can have.\<close>

definition small_page :: "region \<Rightarrow> nat \<Rightarrow> bool" where
  "small_page s p \<longleftrightarrow> p mod SMALL_PAGE_SIZE = 0 \<and> rg_base s + rg_small_start s \<le> p \<and>
     p + SMALL_PAGE_SIZE \<le> rg_base s + rg_half s"

definition medium_page :: "region \<Rightarrow> nat \<Rightarrow> bool" where
  "medium_page s p \<longleftrightarrow> p mod MEDIUM_PAGE_SIZE = 0 \<and> rg_base s + rg_half s \<le> p \<and>
     p + MEDIUM_PAGE_SIZE \<le> rg_base s + rg_large_start s"

definition page_span :: "region \<Rightarrow> nat \<Rightarrow> nat set" where
  "page_span s p = {p ..< p + (if p < rg_base s + rg_half s then SMALL_PAGE_SIZE else MEDIUM_PAGE_SIZE)}"

lemma pool_offset_inside:
  assumes "region_ok s" "rg_base s \<le> ptr" "ptr < 2 ^ 64"
  shows "pool_offset s ptr = ptr - rg_base s"
proof -
  have "ptr + 2 ^ 64 - rg_base s = (ptr - rg_base s) + 2 ^ 64" using assms(2) by (rule add_diff_assoc2 [symmetric])
  moreover have "ptr - rg_base s < 2 ^ 64" using assms(3) by (rule less_imp_diff_less)
  ultimately show ?thesis by (simp only: pool_offset_def mod_add_self2 mod_less)
qed

lemma page_bounds:
  assumes "region_ok s" "small_page s p \<or> medium_page s p"
  shows "rg_base s \<le> p" "ptr \<in> page_span s p \<Longrightarrow> p \<le> ptr \<and> ptr < rg_base s + rg_large_start s \<and> ptr < 2 ^ 64"
    "p mod 2 ^ 16 = 0"
proof -
  note R = region_okD [OF assms(1)]
  show "rg_base s \<le> p" using assms(2) R by (auto simp: small_page_def medium_page_def)
  show "p mod 2 ^ 16 = 0"
    using assms(2) mod_coarser [of p] by (auto simp: small_page_def medium_page_def heap_constants)
  have "rg_base s + rg_reserve s < 2 ^ 64" using R(3) by simp
  then show "ptr \<in> page_span s p \<Longrightarrow> p \<le> ptr \<and> ptr < rg_base s + rg_large_start s \<and> ptr < 2 ^ 64"
    using assms(2) R(7,8) by (auto simp: small_page_def medium_page_def page_span_def heap_constants split: if_splits)
qed

lemma page_start_span:
  assumes "region_ok s" "small_page s p \<or> medium_page s p" "ptr \<in> page_span s p"
  shows "page_start_at s ptr (pool_offset s ptr) = p"
proof -
  note B = page_bounds [OF assms(1,2)]
  have off: "pool_offset s ptr = ptr - rg_base s"
    using pool_offset_inside [OF assms(1)] B(1) B(2) [OF assms(3)] by simp
  show ?thesis
  proof (cases "small_page s p")
    case True
    then have "p < rg_base s + rg_half s" by (auto simp: small_page_def heap_constants)
    with True assms(3) off B(1) show ?thesis
      by (auto simp: page_start_at_def page_span_def small_page_def intro!: align_down_range)
  next
    case False
    with assms(2) have m: "medium_page s p" by simp
    then have "\<not> p < rg_base s + rg_half s" by (simp add: medium_page_def)
    with m assms(3) off B(1) show ?thesis
      by (auto simp: page_start_at_def page_span_def medium_page_def intro!: align_down_range)
  qed
qed

lemma header_entry:
  assumes "region_ok s" "small_page s p \<or> medium_page s p"
  shows "rg_base s \<le> header_of s p" "header_of s p + HEADER_SIZE \<le> rg_base s + rg_small_start s"
proof -
  note R = region_okD [OF assms(1)] and B = page_bounds [OF assms]
  have "p \<in> page_span s p" by (simp add: page_span_def heap_constants)
  with B(1) B(2) [of p] have "p - rg_base s < rg_large_start s" by auto
  then have "(p - rg_base s) div 2 ^ 16 < rg_large_start s div 2 ^ 16"
    using R(11) by (auto simp: heap_constants div_less_iff_less_mult elim!: dvdE)
  then show "header_of s p + HEADER_SIZE \<le> rg_base s + rg_small_start s"
    using R(5) unfolding header_of_def HEADER_SIZE_def STACK_UNIT_SHIFT_def HEADER_SHIFT_def by simp
qed (simp add: header_of_def)

lemma header_of_inj:
  assumes "region_ok s" "small_page s p \<or> medium_page s p" "small_page s q \<or> medium_page s q" "p < q"
  shows "header_of s p + HEADER_SIZE \<le> header_of s q"
proof -
  note R = region_okD [OF assms(1)]
  note B = page_bounds [OF assms(1,2)] and C = page_bounds [OF assms(1,3)]
  obtain b where b: "rg_base s = 65536 * b" using R(2) by (auto simp: heap_constants elim!: dvdE)
  obtain i where i: "p = 65536 * i" using B(3) by (auto elim!: dvdE)
  obtain j where j: "q = 65536 * j" using C(3) by (auto elim!: dvdE)
  have "(p - rg_base s) div 65536 = i - b" "(q - rg_base s) div 65536 = j - b"
    by (simp_all add: b i j flip: diff_mult_distrib2)
  moreover have "b \<le> i" "i < j" using B(1) assms(4) by (simp_all add: b i j)
  ultimately show ?thesis by (simp add: header_of_def heap_constants)
qed


subsection \<open>Claims by several threads\<close>

text \<open>
  \<open>carve\<close> as its threads interleave: a thread loads the cursor, then retries its compare-exchange
  until it succeeds or the region is used up. \<open>cv_loaded\<close> holds what a thread has loaded and how
  many bytes it wants, \<open>cv_claims\<close> is the history of the ranges handed out. The exchange may fail
  although the cursor has not moved, as a weak one does.
\<close>

record carve_world =
  cv_cursor :: nat
  cv_loaded :: "nat \<Rightarrow> (nat \<times> nat) option"
  cv_claims :: "(nat \<times> nat) list"

inductive carve_step :: "nat \<Rightarrow> carve_world \<Rightarrow> carve_world \<Rightarrow> bool" for limit :: nat where
  carve_load: "cv_loaded w t = None \<Longrightarrow>
    carve_step limit w (w\<lparr>cv_loaded := (cv_loaded w)(t \<mapsto> (cv_cursor w, bytes))\<rparr>)"
| carve_exhausted: "cv_loaded w t = Some (current, bytes) \<Longrightarrow> limit < current + bytes \<Longrightarrow>
    carve_step limit w (w\<lparr>cv_loaded := (cv_loaded w)(t := None)\<rparr>)"
| carve_success: "cv_loaded w t = Some (current, bytes) \<Longrightarrow> \<not> limit < current + bytes \<Longrightarrow> cv_cursor w = current \<Longrightarrow>
    carve_step limit w (w\<lparr>cv_cursor := current + bytes, cv_loaded := (cv_loaded w)(t := None),
      cv_claims := (current, bytes) # cv_claims w\<rparr>)"
| carve_retry: "cv_loaded w t = Some (current, bytes) \<Longrightarrow> \<not> limit < current + bytes \<Longrightarrow>
    carve_step limit w (w\<lparr>cv_loaded := (cv_loaded w)(t \<mapsto> (cv_cursor w, bytes))\<rparr>)"

text \<open>The claims tile the space between the start and the cursor, newest first.\<close>

fun tiles :: "nat \<Rightarrow> nat \<Rightarrow> (nat \<times> nat) list \<Rightarrow> bool" where
  "tiles start cursor [] \<longleftrightarrow> cursor = start"
| "tiles start cursor ((a, n) # claims) \<longleftrightarrow> cursor = a + n \<and> tiles start a claims"

lemma tiles_start: "tiles start cursor claims \<Longrightarrow> start \<le> cursor"
  by (induction start cursor claims rule: tiles.induct) auto

lemma tiles_below: "tiles start cursor claims \<Longrightarrow> (a, n) \<in> set claims \<Longrightarrow> start \<le> a \<and> a + n \<le> cursor"
proof (induction start cursor claims rule: tiles.induct)
  case (2 start cursor b m claims)
  with tiles_start [of start b claims] show ?case by fastforce
qed simp

lemma carve_step_tiles:
  "carve_step limit w w' \<Longrightarrow> tiles start (cv_cursor w) (cv_claims w) \<and> cv_cursor w \<le> limit \<Longrightarrow>
     tiles start (cv_cursor w') (cv_claims w') \<and> cv_cursor w' \<le> limit"
  by (induction rule: carve_step.induct) auto

lemma carve_steps_tiles:
  "(carve_step limit)\<^sup>*\<^sup>* w w' \<Longrightarrow> tiles start (cv_cursor w) (cv_claims w) \<and> cv_cursor w \<le> limit \<Longrightarrow>
     tiles start (cv_cursor w') (cv_claims w') \<and> cv_cursor w' \<le> limit"
  by (induction rule: rtranclp_induct) (auto dest: carve_step_tiles)

lemma tiles_disjoint:
  "tiles start cursor claims \<Longrightarrow> i < j \<Longrightarrow> j < length claims \<Longrightarrow>
     fst (claims ! j) + snd (claims ! j) \<le> fst (claims ! i)"
proof (induction start cursor claims arbitrary: i j rule: tiles.induct)
  case (2 start cursor a n claims)
  then show ?case
    using tiles_below [of start a claims "fst (claims ! (j - 1))" "snd (claims ! (j - 1))"]
    by (cases i; cases j) auto
qed simp

text \<open>An uninterrupted run is a load followed by the exchange.\<close>

lemma carve_is_run:
  assumes "cv_loaded w t = None" "carve (cv_cursor w) bytes limit = (cursor', claimed)" "0 < bytes" "0 < cv_cursor w"
  shows "\<exists>w'. (carve_step limit)\<^sup>*\<^sup>* w w' \<and> cv_cursor w' = cursor' \<and>
    cv_claims w' = (if claimed = 0 then cv_claims w else (claimed, bytes) # cv_claims w)"
proof -
  let ?w = "w\<lparr>cv_loaded := (cv_loaded w)(t \<mapsto> (cv_cursor w, bytes))\<rparr>"
  have "carve_step limit w ?w" using assms(1) by (rule carve_load)
  moreover obtain w' where w': "carve_step limit ?w w'" "cv_cursor w' = cursor'"
    "cv_claims w' = (if claimed = 0 then cv_claims w else (claimed, bytes) # cv_claims w)"
  proof (cases "limit < cv_cursor w + bytes")
    case True
    with carve_exhausted [of ?w t "cv_cursor w" bytes limit] that assms(2) show ?thesis by (auto simp: carve_def)
  next
    case False
    with carve_success [of ?w t "cv_cursor w" bytes limit] that assms(2,4) show ?thesis by (auto simp: carve_def)
  qed
  ultimately have "(carve_step limit)\<^sup>*\<^sup>* w w'" by simp
  with w' show ?thesis by blast
qed

subsection \<open>Properties\<close>

text \<open>C31. \<open>reserve_range\<close> ends, and reports success exactly when the kernel grants one of the sizes it
  tries, the powers of two from 64 GiB down to 256 MiB. On success the range is the one published from the mapping
  the kernel returned for the largest size it grants, and lies inside that mapping; it is divided in order
  into the header array, the small pages, the medium pages and the large blocks, every part aligned for what it
  holds, the array with an entry for every page, and the cursors at the start of their parts. On failure
  nothing is published and every size was refused. The kernel is assumed to map
  above address zero and below \<open>2 ^ 63\<close>.\<close>

theorem reserve_range_layout:
  assumes "\<And>sz raw. mmap sz = Some raw \<Longrightarrow> 0 < raw \<and> raw + sz + LARGE_UNIT < 2 ^ 63"
    and "reserve_range mmap no_region = (s, ok)"
  shows "(ok \<longleftrightarrow> (\<exists>m raw. 28 \<le> m \<and> m \<le> 36 \<and> mmap (2 ^ m) = Some raw)) \<and>
    (ok \<longrightarrow> region_ok s \<and> (\<exists>m raw. 28 \<le> m \<and> m \<le> 36 \<and> mmap (2 ^ m) = Some raw
        \<and> (\<forall>k. m < k \<and> k \<le> 36 \<longrightarrow> mmap (2 ^ k) = None)
        \<and> s = publish_range raw (2 ^ m) no_region
        \<and> raw \<le> rg_base s \<and> rg_base s + rg_reserve s \<le> raw + 2 ^ m)) \<and>
    (\<not> ok \<longrightarrow> s = no_region)"
proof -
  have "64 * 2 ^ 30 = (2::nat) ^ 36" by simp
  then have r: "reserve_from mmap (2 ^ 36) no_region = (s, ok)" using assms(2) by (simp only: reserve_range_def)
  show ?thesis
  proof (cases ok)
    case True
    obtain m raw where m: "28 \<le> m" "m \<le> 36" "mmap (2 ^ m) = Some raw" "\<forall>k. m < k \<and> k \<le> 36 \<longrightarrow> mmap (2 ^ k) = None"
      and s: "s = publish_range raw (2 ^ m) no_region"
      using reserve_from_granted [of mmap 36 no_region s] r True by (auto simp: no_region_def)
    have "(2::nat) ^ 28 \<le> 2 ^ m" "(2::nat) ^ m \<le> 2 ^ 36" using m(1,2) by (simp_all only: power_increasing one_le_numeral)
    then have "256 * 2 ^ 20 \<le> (2::nat) ^ m" "(2::nat) ^ m \<le> 64 * 2 ^ 30" by simp_all
    from publish_range_ok [OF _ _ this, of raw no_region] assms(1) [OF m(3)]
    have "region_ok s \<and> raw \<le> rg_base s \<and> rg_base s + rg_reserve s \<le> raw + 2 ^ m" by (simp only: s)
    with m s True show ?thesis by blast
  next
    case False
    with r reserve_from_refused [of mmap 36 no_region s] show ?thesis by fastforce
  qed
qed

text \<open>A kernel that grants 64 GiB at address 4096.\<close>

definition sample_kernel :: "nat \<Rightarrow> nat option" where
  "sample_kernel sz = (if sz \<le> 64 * 2 ^ 30 then Some 4096 else None)"

definition sample_region :: region where
  "sample_region = publish_range 4096 (64 * 2 ^ 30) no_region"

lemma sample_reserve: "reserve_range sample_kernel no_region = (sample_region, True)"
  unfolding reserve_range_def
  by (subst reserve_from.simps) (simp add: sample_kernel_def sample_region_def no_region_def)

lemma sample_kernel_maps: "sample_kernel sz = Some raw \<Longrightarrow> 0 < raw \<and> raw + sz + LARGE_UNIT < 2 ^ 63"
  by (simp add: sample_kernel_def heap_constants split: if_splits)

theorem reserve_range_layout_witness: "region_ok (fst (reserve_range sample_kernel no_region))"
  using reserve_range_layout [OF sample_kernel_maps sample_reserve] sample_reserve by simp

text \<open>C32. From any address inside a page the header arithmetic of the free path, and for small
  pages that of its fast path, finds the header entry of that page; the entry lies in the header
  array, in front of every page, and overlaps the entry of no other page.\<close>

theorem block_finds_its_header:
  assumes "region_ok s" and "small_page s p \<or> medium_page s p" and "ptr \<in> page_span s p"
  shows "page_header_at s ptr (pool_offset s ptr) = header_of s p \<and>
    (small_page s p \<longrightarrow> small_header (rg_base s) (pool_offset s ptr) = header_of s p) \<and>
    rg_base s \<le> header_of s p \<and> header_of s p + HEADER_SIZE \<le> rg_base s + rg_small_start s \<and>
    (\<forall>q. (small_page s q \<or> medium_page s q) \<and> q \<noteq> p \<longrightarrow>
       header_of s q + HEADER_SIZE \<le> header_of s p \<or> header_of s p + HEADER_SIZE \<le> header_of s q)"
proof (intro conjI allI impI)
  show "page_header_at s ptr (pool_offset s ptr) = header_of s p"
    by (simp add: page_header_at_def page_start_span [OF assms])
  show "rg_base s \<le> header_of s p" "header_of s p + HEADER_SIZE \<le> rg_base s + rg_small_start s"
    using header_entry [OF assms(1,2)] by simp_all
  show "header_of s q + HEADER_SIZE \<le> header_of s p \<or> header_of s p + HEADER_SIZE \<le> header_of s q"
    if "(small_page s q \<or> medium_page s q) \<and> q \<noteq> p" for q
    using that header_of_inj [OF assms(1,2)] header_of_inj [OF assms(1) _ assms(2)] by (metis linorder_neqE_nat)
  show "small_header (rg_base s) (pool_offset s ptr) = header_of s p" if "small_page s p"
  proof -
    note B = page_bounds [OF assms(1,2)]
    have off: "pool_offset s ptr = ptr - rg_base s"
      using pool_offset_inside [OF assms(1)] B(1) B(2) [OF assms(3)] by simp
    obtain b where b: "rg_base s = 65536 * b"
      using region_okD(2) [OF assms(1)] by (auto simp: heap_constants elim!: dvdE)
    obtain i where i: "p = 65536 * i" using B(3) by (auto elim!: dvdE)
    have "p < rg_base s + rg_half s" using that by (auto simp: small_page_def heap_constants)
    with assms(3) obtain d where d: "ptr = p + d" "d < 65536"
      using B(2) [OF assms(3)] le_Suc_ex [of p ptr] by (auto simp: page_span_def heap_constants)
    have k: "p - rg_base s = 65536 * (i - b)" "b \<le> i"
      using B(1) by (simp_all add: b i flip: diff_mult_distrib2)
    then have "ptr - rg_base s = 65536 * (i - b) + d" using d(1) B(1) by simp
    then show ?thesis using d(2) k by (simp add: small_header_def header_of_def off heap_constants)
  qed
qed

theorem block_finds_its_header_witness:
  "page_header_at sample_region 134283264 (pool_offset sample_region 134283264) =
   header_of sample_region 134283264"
proof -
  have ok: "region_ok sample_region"
    using publish_range_ok(1) [of 4096 "64 * 2 ^ 30" no_region]
    by (simp add: sample_region_def heap_constants)
  have "small_page sample_region 134283264"
    by (simp add: small_page_def sample_region_def publish_range_def Let_def align_down_def
        next_multiple_of_def heap_constants)
  moreover have "134283264 \<in> page_span sample_region 134283264"
    by (simp add: page_span_def heap_constants)
  ultimately show ?thesis using block_finds_its_header [OF ok] by blast
qed

text \<open>C33. However the threads that carve a region interleave, and however often their exchanges
  fail, the ranges they get do not overlap, and all of them lie between the start of the region
  and the cursor, which never passes the limit.\<close>

theorem carve_claims_disjoint:
  assumes "(carve_step limit)\<^sup>*\<^sup>* \<lparr>cv_cursor = start, cv_loaded = \<lambda>_. None, cv_claims = []\<rparr> w"
    and "start \<le> limit"
  shows "(\<forall>i j. i < j \<and> j < length (cv_claims w) \<longrightarrow>
      fst (cv_claims w ! j) + snd (cv_claims w ! j) \<le> fst (cv_claims w ! i)) \<and>
    (\<forall>(a, n) \<in> set (cv_claims w). start \<le> a \<and> a + n \<le> cv_cursor w) \<and> cv_cursor w \<le> limit"
proof -
  have t: "tiles start (cv_cursor w) (cv_claims w)" "cv_cursor w \<le> limit"
    using carve_steps_tiles [OF assms(1), of start] assms(2) by auto
  then show ?thesis using tiles_disjoint [OF t(1)] tiles_below [OF t(1)] by blast
qed

theorem carve_claims_disjoint_witness:
  "\<exists>w. (carve_step 100)\<^sup>*\<^sup>* \<lparr>cv_cursor = 10, cv_loaded = \<lambda>_. None, cv_claims = []\<rparr> w \<and>
     cv_claims w = [(10, 64)] \<and> cv_cursor w \<le> 100"
proof -
  let ?w = "\<lparr>cv_cursor = 10, cv_loaded = \<lambda>_. None, cv_claims = []\<rparr>"
  obtain w where w: "(carve_step 100)\<^sup>*\<^sup>* ?w w" "cv_claims w = [(10, 64)]"
    using carve_is_run [of ?w 0 64 100 74 10] by (auto simp: carve_def)
  with carve_claims_disjoint [OF w(1)] show ?thesis by auto
qed

end
