(* ===== verification/Page_Stack.thy ===== *)
theory Page_Stack
  imports Heap_Region "HOL-Library.Word"
begin

unbundle bit_operations_syntax

text \<open>
  The lock-free stacks of free pages and large blocks (\<open>PageStack\<close> of \<open>src/src/heap/region.rs\<close>), as
  their threads interleave. Every atomic access is a step: the load of the head, the load or store
  of a link word, the compare-exchange. The head is the machine word the code has, 24 bits of index
  below 40 bits of version. Two ghost fields record what no thread sees: the number of updates the
  head has had, and in each operation the number at the time it loaded the head. An exchange
  compares words; the only assumption, a guard of the two success steps, is that no operation
  sleeps between its load and its exchange while \<open>2 ^ 40\<close> updates happen, when the version would
  come round again.
\<close>

subsection \<open>The head word\<close>

definition STACK_INDEX_BITS :: nat where "STACK_INDEX_BITS = 24"
definition STACK_INDEX_MASK :: "64 word" where "STACK_INDEX_MASK = push_bit STACK_INDEX_BITS 1 - 1"
definition STACK_VERSION :: "64 word" where "STACK_VERSION = push_bit STACK_INDEX_BITS 1"

definition successor :: "64 word \<Rightarrow> 64 word \<Rightarrow> 64 word" where
  "successor head index =
     ((head AND NOT STACK_INDEX_MASK) + STACK_VERSION) OR (index AND STACK_INDEX_MASK)"

definition index_of :: "64 word \<Rightarrow> nat" where
  "index_of head = unat (head AND STACK_INDEX_MASK)"

definition version_of :: "64 word \<Rightarrow> nat" where
  "version_of head = unat (drop_bit STACK_INDEX_BITS head)"

lemma STACK_INDEX_MASK_mask: "STACK_INDEX_MASK = mask 24"
  by (simp add: STACK_INDEX_MASK_def STACK_INDEX_BITS_def mask_eq_exp_minus_1 push_bit_eq_mult)

lemma index_of_take: "index_of head = unat (take_bit 24 head)"
  by (simp add: index_of_def STACK_INDEX_MASK_mask take_bit_eq_mask)

lemma index_of_less: "index_of head < 2 ^ 24"
  unfolding index_of_take unsigned_take_bit_eq by (rule take_bit_nat_less_exp)

lemma head_parts_inj: "index_of h = index_of k \<Longrightarrow> version_of h = version_of k \<Longrightarrow> h = k"
  unfolding index_of_take version_of_def STACK_INDEX_BITS_def
  by (metis bits_ident word_unat_eq_iff)

lemma successor_split:
  "successor head index = push_bit 24 (drop_bit 24 head + 1) OR take_bit 24 index"
proof -
  have "head AND NOT (mask 24) = push_bit 24 (drop_bit 24 head)"
    by (rule bit_word_eqI) (auto simp: bit_simps)
  then show ?thesis
    unfolding successor_def STACK_INDEX_MASK_mask take_bit_eq_mask STACK_VERSION_def STACK_INDEX_BITS_def
    by (simp add: push_bit_add)
qed

lemma index_of_successor: "index_of (successor head index) = unat index mod 2 ^ 24"
proof -
  have "take_bit 24 (push_bit 24 (drop_bit 24 head + 1) OR take_bit 24 index) = take_bit 24 index"
    by (rule bit_word_eqI) (auto simp: bit_simps)
  then have "index_of (successor head index) = unat (take_bit 24 index)"
    by (simp only: index_of_take successor_split)
  then show ?thesis by (simp only: unsigned_take_bit_eq take_bit_eq_mod [where 'a = nat])
qed

lemma version_of_successor: "version_of (successor head index) = (version_of head + 1) mod 2 ^ 40"
proof -
  have "drop_bit 24 (push_bit 24 x OR take_bit 24 index) = take_bit 40 x" for x :: "64 word"
    by (rule bit_word_eqI) (auto simp: bit_simps)
  then have v: "version_of (successor head index) = unat (take_bit 40 (drop_bit 24 head + 1))"
    by (simp only: version_of_def successor_split STACK_INDEX_BITS_def)
  have "unat (drop_bit 24 head) < 2 ^ 40"
    using unsigned_less [of head, where 'a = nat]
    by (simp add: unat_drop_bit_eq drop_bit_eq_div [where 'a = nat] div_less_iff_less_mult)
  then have "unat (drop_bit 24 head + 1) = unat (drop_bit 24 head) + 1"
    by (simp add: unat_word_ariths)
  then show ?thesis
    unfolding v unsigned_take_bit_eq take_bit_eq_mod [where 'a = nat] by (simp only: version_of_def STACK_INDEX_BITS_def)
qed


subsection \<open>Entries\<close>

definition entry_index :: "region \<Rightarrow> nat \<Rightarrow> nat" where
  "entry_index s entry = (entry - rg_base s) div 2 ^ STACK_UNIT_SHIFT + 1"

definition entry_at :: "region \<Rightarrow> nat \<Rightarrow> nat" where
  "entry_at s index = rg_base s + (index - 1) * 2 ^ STACK_UNIT_SHIFT"

lemma entry_roundtrip:
  assumes "region_ok s" "rg_base s \<le> entry" "entry < rg_base s + rg_reserve s" "entry mod LARGE_UNIT = 0"
  shows "entry_at s (entry_index s entry) = entry" "0 < entry_index s entry" "entry_index s entry < 2 ^ 24"
proof -
  note R = region_okD [OF assms(1)]
  obtain b where b: "rg_base s = 65536 * b" using R(2) by (auto simp: heap_constants elim!: dvdE)
  obtain i where i: "entry = 65536 * i" using assms(4) by (auto simp: heap_constants elim!: dvdE)
  have "(entry - rg_base s) div 65536 = i - b" "b \<le> i"
    using assms(2) by (simp_all add: b i flip: diff_mult_distrib2)
  then show "entry_at s (entry_index s entry) = entry"
    by (simp add: entry_at_def entry_index_def heap_constants b i diff_mult_distrib)
  have "entry - rg_base s < 64 * 2 ^ 30" using assms(2,3) R(4) by linarith
  then show "entry_index s entry < 2 ^ 24"
    by (simp add: entry_index_def heap_constants)
qed (simp add: entry_index_def)

subsection \<open>The threads\<close>

datatype stack_op =
  Idle
| Push_counted nat
| Push_loaded nat "64 word" nat
| Push_linked nat "64 word" nat
| Pop_loaded "64 word" nat
| Pop_read "64 word" nat nat
| Pop_taken nat

record stack_world =
  st_head :: "64 word"
  st_count :: nat
  st_link :: "nat \<Rightarrow> nat"
  st_ops :: "nat \<Rightarrow> stack_op"
  st_outside :: "nat set"
  st_updates :: nat

definition set_op :: "nat \<Rightarrow> stack_op \<Rightarrow> stack_world \<Rightarrow> stack_world" where
  "set_op t q w = w\<lparr>st_ops := (st_ops w)(t := q)\<rparr>"

text \<open>What the callers see: an operation is called, and returns, a pop with the entry it took or nothing.\<close>

datatype stack_event =
  Call_push nat nat
| Return_push nat
| Call_pop nat
| Return_pop nat "nat option"

text \<open>
  A step is labelled with the calls and returns it makes.
  \<open>push\<close>: the count goes up, the head is loaded, the link of the entry is stored, the head exchanged;
  a failed exchange gives the current head and the loop stores the link again. \<open>pop\<close>: the head is
  loaded and tested, the link of the top entry loaded, the head exchanged; on success the count
  goes down and the entry is the caller's. Entries outside the stack belong to the callers.
\<close>

inductive stack_step :: "stack_world \<Rightarrow> stack_event list \<Rightarrow> stack_world \<Rightarrow> bool" where
  push_count: "st_ops w t = Idle \<Longrightarrow> i \<in> st_outside w \<Longrightarrow>
    stack_step w [Call_push t i] (set_op t (Push_counted i)
      (w\<lparr>st_count := st_count w + 1, st_outside := st_outside w - {i}\<rparr>))"
| push_load: "st_ops w t = Push_counted i \<Longrightarrow>
    stack_step w [] (set_op t (Push_loaded i (st_head w) (st_updates w)) w)"
| push_link: "st_ops w t = Push_loaded i h seen \<Longrightarrow>
    stack_step w [] (set_op t (Push_linked i h seen) (w\<lparr>st_link := (st_link w)(i := index_of h)\<rparr>))"
| push_exchange: "st_ops w t = Push_linked i h seen \<Longrightarrow> st_head w = h \<Longrightarrow> st_updates w - seen < 2 ^ 40 \<Longrightarrow>
    stack_step w [Return_push t] (set_op t Idle
      (w\<lparr>st_head := successor h (word_of_nat i), st_updates := st_updates w + 1\<rparr>))"
| push_retry: "st_ops w t = Push_linked i h seen \<Longrightarrow>
    stack_step w [] (set_op t (Push_loaded i (st_head w) (st_updates w)) w)"
| pop_load: "st_ops w t = Idle \<Longrightarrow>
    stack_step w [Call_pop t] (set_op t (Pop_loaded (st_head w) (st_updates w)) w)"
| pop_empty: "st_ops w t = Pop_loaded h seen \<Longrightarrow> index_of h = 0 \<Longrightarrow> stack_step w [Return_pop t None] (set_op t Idle w)"
| pop_link: "st_ops w t = Pop_loaded h seen \<Longrightarrow> index_of h \<noteq> 0 \<Longrightarrow>
    stack_step w [] (set_op t (Pop_read h (st_link w (index_of h)) seen) w)"
| pop_exchange: "st_ops w t = Pop_read h n seen \<Longrightarrow> st_head w = h \<Longrightarrow> st_updates w - seen < 2 ^ 40 \<Longrightarrow>
    stack_step w [] (set_op t (Pop_taken (index_of h))
      (w\<lparr>st_head := successor h (word_of_nat n), st_updates := st_updates w + 1\<rparr>))"
| pop_retry: "st_ops w t = Pop_read h n seen \<Longrightarrow>
    stack_step w [] (set_op t (Pop_loaded (st_head w) (st_updates w)) w)"
| pop_return: "st_ops w t = Pop_taken i \<Longrightarrow>
    stack_step w [Return_pop t (Some i)] (set_op t Idle (w\<lparr>st_count := st_count w - 1, st_outside := insert i (st_outside w)\<rparr>))"

subsection \<open>The invariant\<close>

text \<open>The entries of the stack from the top, through the links.\<close>

fun chained :: "(nat \<Rightarrow> nat) \<Rightarrow> nat \<Rightarrow> nat list \<Rightarrow> bool" where
  "chained link i [] \<longleftrightarrow> i = 0"
| "chained link i (e # es) \<longleftrightarrow> i = e \<and> e \<noteq> 0 \<and> chained link (link e) es"

lemma chained_zero: "chained link i es \<Longrightarrow> i = 0 \<longleftrightarrow> es = []"
  by (cases es) auto

lemma chained_upd: "chained link i es \<Longrightarrow> j \<notin> set es \<Longrightarrow> chained (link(j := n)) i es"
  by (induction link i es rule: chained.induct) auto

text \<open>The entry an operation holds for itself, and what it knows of the head it loaded: if the head
  has not been updated since, it is still that word and the link read is still the link.\<close>

fun held :: "stack_op \<Rightarrow> nat option" where
  "held (Push_counted i) = Some i"
| "held (Push_loaded i h seen) = Some i"
| "held (Push_linked i h seen) = Some i"
| "held (Pop_taken i) = Some i"
| "held _ = None"

definition loaded_ok :: "stack_world \<Rightarrow> 64 word \<Rightarrow> nat \<Rightarrow> bool" where
  "loaded_ok w h seen \<longleftrightarrow> seen \<le> st_updates w \<and> version_of h = seen mod 2 ^ 40 \<and>
     (seen = st_updates w \<longrightarrow> h = st_head w)"

fun op_ok :: "stack_world \<Rightarrow> stack_op \<Rightarrow> bool" where
  "op_ok w (Push_loaded i h seen) \<longleftrightarrow> loaded_ok w h seen"
| "op_ok w (Push_linked i h seen) \<longleftrightarrow> loaded_ok w h seen \<and> st_link w i = index_of h"
| "op_ok w (Pop_loaded h seen) \<longleftrightarrow> loaded_ok w h seen"
| "op_ok w (Pop_read h n seen) \<longleftrightarrow> loaded_ok w h seen \<and> index_of h \<noteq> 0 \<and>
     (seen = st_updates w \<longrightarrow> n = st_link w (index_of h))"
| "op_ok w _ \<longleftrightarrow> True"

definition holding :: "stack_world \<Rightarrow> nat \<Rightarrow> nat option" where
  "holding w t = held (st_ops w t)"

text \<open>Every entry is in one place: in the stack, outside, or held by one operation; the count is that
  of the entries in the stack and held.\<close>

definition partitioned :: "nat set \<Rightarrow> nat list \<Rightarrow> nat set \<Rightarrow> (nat \<Rightarrow> nat option) \<Rightarrow> nat \<Rightarrow> bool" where
  "partitioned E es outside hs count \<longleftrightarrow>
     distinct es \<and> set es \<union> outside \<union> ran hs = E \<and> set es \<inter> outside = {} \<and>
     ran hs \<inter> (set es \<union> outside) = {} \<and> inj_on hs (dom hs) \<and> finite (dom hs) \<and>
     count = length es + card (dom hs)"

lemma assigned:
  assumes "inj_on hs (dom hs)" "finite (dom hs)" "hs t = None" "i \<notin> ran hs"
  shows "ran (hs(t \<mapsto> i)) = insert i (ran hs)" "finite (dom (hs(t \<mapsto> i)))"
    "card (dom (hs(t \<mapsto> i))) = Suc (card (dom hs))" "inj_on (hs(t \<mapsto> i)) (dom (hs(t \<mapsto> i)))"
proof -
  show "card (dom (hs(t \<mapsto> i))) = Suc (card (dom hs))" using assms(2,3) by (simp add: domIff)
  have "i \<noteq> j" if "hs u = Some j" for u j using assms(4) that by (auto intro: ranI)
  then show "inj_on (hs(t \<mapsto> i)) (dom (hs(t \<mapsto> i)))"
    using assms(1) unfolding inj_on_def dom_def by (auto split: if_splits)
qed (use assms in \<open>simp_all add: ran_map_upd\<close>)

lemma released:
  assumes "inj_on hs (dom hs)" "finite (dom hs)" "hs t = Some i"
  shows "ran (hs(t := None)) = ran hs - {i}" "finite (dom (hs(t := None)))"
    "card (dom hs) = Suc (card (dom (hs(t := None))))" "inj_on (hs(t := None)) (dom (hs(t := None)))"
proof -
  have other: "u = t" if "hs u = Some i" for u
    using assms(1,3) that by (auto simp: inj_on_def dom_def)
  show "ran (hs(t := None)) = ran hs - {i}"
  proof (intro equalityI subsetI)
    fix j assume "j \<in> ran hs - {i}"
    then obtain u where u: "hs u = Some j" "j \<noteq> i" by (auto simp: ran_def)
    with assms(3) have "u \<noteq> t" by auto
    with u show "j \<in> ran (hs(t := None))" by (auto intro!: ranI [of _ u])
  qed (use other in \<open>auto simp: ran_def split: if_splits\<close>)
  have "t \<in> dom hs" using assms(3) by auto
  then show "card (dom hs) = Suc (card (dom (hs(t := None))))"
    using card.remove [OF assms(2)] by simp
  show "inj_on (hs(t := None)) (dom (hs(t := None)))"
    using assms(1) by (auto simp: inj_on_def)
qed (use assms in simp)

lemma partitioned_take:
  assumes "partitioned E es outside hs count" "hs t = None" "i \<in> outside"
  shows "partitioned E es (outside - {i}) (hs(t \<mapsto> i)) (count + 1)"
proof -
  from assms have "inj_on hs (dom hs)" "finite (dom hs)" "i \<notin> ran hs" by (auto simp: partitioned_def)
  note A = assigned [OF this(1,2) assms(2) this(3)]
  with assms show ?thesis unfolding partitioned_def A(1,3) by auto
qed

lemma partitioned_push:
  assumes "partitioned E es outside hs count" "hs t = Some i"
  shows "partitioned E (i # es) outside (hs(t := None)) count"
proof -
  from assms have "inj_on hs (dom hs)" "finite (dom hs)" "i \<in> ran hs" by (auto simp: partitioned_def intro: ranI)
  note A = released [OF this(1,2) assms(2)] and this(3)
  with assms show ?thesis unfolding partitioned_def A(1,3) by auto
qed

lemma partitioned_pop:
  assumes "partitioned E (i # es) outside hs count" "hs t = None"
  shows "partitioned E es outside (hs(t \<mapsto> i)) count"
proof -
  from assms have "inj_on hs (dom hs)" "finite (dom hs)" "i \<notin> ran hs" by (auto simp: partitioned_def)
  note A = assigned [OF this(1,2) assms(2) this(3)]
  with assms show ?thesis unfolding partitioned_def A(1,3) by auto
qed

lemma partitioned_return:
  assumes "partitioned E es outside hs count" "hs t = Some i"
  shows "partitioned E es (insert i outside) (hs(t := None)) (count - 1)" "0 < count"
proof -
  from assms have "inj_on hs (dom hs)" "finite (dom hs)" "i \<in> ran hs" by (auto simp: partitioned_def intro: ranI)
  note A = released [OF this(1,2) assms(2)] and i = this(3)
  with assms show "partitioned E es (insert i outside) (hs(t := None)) (count - 1)"
    unfolding partitioned_def A(1,3) by auto
  show "0 < count" using assms(1) A(3) by (simp add: partitioned_def)
qed

definition stack_inv :: "nat set \<Rightarrow> stack_world \<Rightarrow> nat list \<Rightarrow> bool" where
  "stack_inv E w es \<longleftrightarrow>
     chained (st_link w) (index_of (st_head w)) es \<and>
     version_of (st_head w) = st_updates w mod 2 ^ 40 \<and>
     (\<forall>t. op_ok w (st_ops w t)) \<and>
     partitioned E es (st_outside w) (holding w) (st_count w)"


lemma holding_set_op: "holding (set_op t q w) = (holding w)(t := held q)"
  by (auto simp: holding_def set_op_def)

lemma set_op_fields [simp]:
  "st_head (set_op t q w) = st_head w" "st_count (set_op t q w) = st_count w" "st_link (set_op t q w) = st_link w"
  "st_outside (set_op t q w) = st_outside w" "st_updates (set_op t q w) = st_updates w"
  "st_ops (set_op t q w) = (st_ops w)(t := q)"
  by (simp_all add: set_op_def)

lemma op_ok_cong:
  assumes "st_head w' = st_head w" "st_link w' = st_link w" "st_updates w' = st_updates w"
  shows "op_ok w' q \<longleftrightarrow> op_ok w q"
  using assms by (cases q) (auto simp: loaded_ok_def)

text \<open>An update of the head makes every loaded word stale.\<close>

lemma op_ok_updated:
  assumes "op_ok w q" "st_link w' = st_link w" "st_updates w' = Suc (st_updates w)"
  shows "op_ok w' q"
  using assms by (cases q) (auto simp: loaded_ok_def)

text \<open>A word that compares equal within the window has not been updated since it was loaded.\<close>

lemma exchange_fresh:
  assumes "stack_inv E w es" "loaded_ok w (st_head w) seen" "st_updates w - seen < 2 ^ 40"
  shows "seen = st_updates w"
proof -
  have eq: "seen mod 2 ^ 40 = st_updates w mod 2 ^ 40" and le: "seen \<le> st_updates w"
    using assms by (auto simp: stack_inv_def loaded_ok_def)
  from eq le have "2 ^ 40 dvd st_updates w - seen" by (metis mod_eq_dvd_iff_nat)
  with assms(3) le show ?thesis by (auto dest: dvd_imp_le)
qed

lemma stack_invD:
  assumes "stack_inv E w es"
  shows "chained (st_link w) (index_of (st_head w)) es" "version_of (st_head w) = st_updates w mod 2 ^ 40"
    "op_ok w (st_ops w t)" "partitioned E es (st_outside w) (holding w) (st_count w)"
  using assms by (auto simp: stack_inv_def)


text \<open>Steps that change only what one operation knows.\<close>

lemma inv_private:
  assumes "stack_inv E w es" "held q = held (st_ops w t)" "op_ok w q"
  shows "stack_inv E (set_op t q w) es"
proof -
  have "holding (set_op t q w) = holding w"
    using assms(2) by (simp add: holding_set_op holding_def fun_eq_iff)
  with assms show ?thesis
    by (auto simp: stack_inv_def op_ok_cong [of "set_op t q w" w])
qed

lemma loaded_now: "stack_inv E w es \<Longrightarrow> loaded_ok w (st_head w) (st_updates w)"
  by (simp add: stack_inv_def loaded_ok_def)

lemma inv_push_link:
  assumes inv: "stack_inv E w es" and op: "st_ops w t = Push_loaded i h seen"
  defines "w' \<equiv> set_op t (Push_linked i h seen) (w\<lparr>st_link := (st_link w)(i := index_of h)\<rparr>)"
  shows "stack_inv E w' es"
proof -
  note I = stack_invD [OF inv]
  have held: "holding w t = Some i" using op by (simp add: holding_def)
  then have i: "i \<notin> set es" "\<And>u. holding w u = Some i \<Longrightarrow> u = t"
    using I(4) by (auto simp: partitioned_def inj_on_def dom_def intro: ranI)
  have "holding w' = holding w"
    using held by (simp add: w'_def holding_set_op fun_eq_iff) (simp add: holding_def)
  moreover have "op_ok w' (st_ops w' u)" for u
  proof (cases "u = t")
    case True
    with I(3) [of t] op show ?thesis by (simp add: w'_def loaded_ok_def)
  next
    case False
    have top: "index_of (st_head w) \<noteq> i" if "index_of (st_head w) \<noteq> 0"
      using I(1) that i(1) by (cases es) auto
    from False have "holding w u \<noteq> Some i" using i(2) by auto
    with I(3) [of u] False top show ?thesis
      by (cases "st_ops w u") (auto simp: w'_def loaded_ok_def holding_def)
  qed
  ultimately show ?thesis
    using I chained_upd [OF I(1) i(1)] by (simp add: stack_inv_def) (simp add: w'_def)
qed

lemma inv_push_exchange:
  assumes inv: "stack_inv E w es" and op: "st_ops w t = Push_linked i h seen"
    and h: "st_head w = h" and E: "E \<subseteq> {0<..<2 ^ 24}"
  shows "stack_inv E (set_op t Idle
      (w\<lparr>st_head := successor h (word_of_nat i), st_updates := st_updates w + 1\<rparr>)) (i # es)"
    (is "stack_inv E ?w _")
proof -
  note I = stack_invD [OF inv]
  have held: "holding w t = Some i" using op by (simp add: holding_def)
  then have "i \<in> E" using I(4) by (auto simp: partitioned_def intro: ranI)
  with E have i: "i \<noteq> 0" "i < 2 ^ 24" by auto
  then have idx: "index_of (successor h (word_of_nat i)) = i"
    by (simp add: index_of_successor unat_of_nat take_bit_eq_mod)
  have ver: "version_of (successor h (word_of_nat i)) = Suc (st_updates w) mod 2 ^ 40"
    using I(2) h by (simp add: version_of_successor mod_Suc_eq)
  have link: "st_link w i = index_of h" using I(3) [of t] op by simp
  have ops: "op_ok ?w (st_ops ?w u)" for u
    using I(3) [of u] op_ok_updated [of w "st_ops w u" ?w] by simp
  have "holding ?w = (holding w)(t := None)" by (simp add: holding_set_op) (simp add: holding_def fun_eq_iff)
  with partitioned_push [OF I(4) held] I(1) idx ver link ops h i show ?thesis
    by (simp add: stack_inv_def)
qed

lemma inv_pop_exchange:
  assumes inv: "stack_inv E w es" and op: "st_ops w t = Pop_read h n seen"
    and h: "st_head w = h" and window: "st_updates w - seen < 2 ^ 40" and E: "E \<subseteq> {0<..<2 ^ 24}"
  shows "\<exists>es'. es = index_of h # es' \<and> stack_inv E (set_op t (Pop_taken (index_of h))
      (w\<lparr>st_head := successor h (word_of_nat n), st_updates := st_updates w + 1\<rparr>)) es'"
    (is "\<exists>es'. _ \<and> stack_inv E ?w es'")
proof -
  note I = stack_invD [OF inv]
  have "loaded_ok w (st_head w) seen" "index_of h \<noteq> 0" using I(3) [of t] op h by simp_all
  with exchange_fresh [OF inv _ window] I(3) [of t] op have n: "n = st_link w (index_of h)" by simp
  from I(1) h \<open>index_of h \<noteq> 0\<close> obtain es' where es: "es = index_of h # es'" "chained (st_link w) n es'"
    by (cases es) (auto simp: n)
  have "n = 0 \<or> n \<in> set es'" using es(2) by (cases es') auto
  moreover have "set es' \<subseteq> E" using I(4) es(1) by (auto simp: partitioned_def)
  ultimately have "n < 2 ^ 24" using E by auto
  then have idx: "index_of (successor h (word_of_nat n)) = n"
    by (simp add: index_of_successor unat_of_nat take_bit_eq_mod)
  have ver: "version_of (successor h (word_of_nat n)) = Suc (st_updates w) mod 2 ^ 40"
    using I(2) h by (simp add: version_of_successor mod_Suc_eq)
  have held: "holding w t = None" using op by (simp add: holding_def)
  have ops: "op_ok ?w (st_ops ?w u)" for u
    using I(3) [of u] op_ok_updated [of w "st_ops w u" ?w] by simp
  have "holding ?w = (holding w)(t \<mapsto> index_of h)" by (simp add: holding_set_op) (simp add: holding_def fun_eq_iff)
  with partitioned_pop [OF I(4) [unfolded es(1)] held] es idx ver ops show ?thesis
    by (simp add: stack_inv_def)
qed


lemma inv_push_count:
  assumes inv: "stack_inv E w es" and op: "st_ops w t = Idle" and i: "i \<in> st_outside w"
  shows "stack_inv E (set_op t (Push_counted i)
      (w\<lparr>st_count := st_count w + 1, st_outside := st_outside w - {i}\<rparr>)) es" (is "stack_inv E ?w _")
proof -
  note I = stack_invD [OF inv]
  have held: "holding w t = None" using op by (simp add: holding_def)
  have "holding ?w = (holding w)(t \<mapsto> i)" by (simp add: holding_set_op) (simp add: holding_def fun_eq_iff)
  moreover have "op_ok ?w (st_ops ?w u)" for u using I(3) [of u] op_ok_cong [of ?w w] by simp
  ultimately show ?thesis using partitioned_take [OF I(4) held i] I by (simp add: stack_inv_def)
qed

lemma inv_pop_return:
  assumes inv: "stack_inv E w es" and op: "st_ops w t = Pop_taken i"
  shows "stack_inv E (set_op t Idle (w\<lparr>st_count := st_count w - 1, st_outside := insert i (st_outside w)\<rparr>)) es"
      (is "stack_inv E ?w _")
proof -
  note I = stack_invD [OF inv]
  have held: "holding w t = Some i" using op by (simp add: holding_def)
  have "holding ?w = (holding w)(t := None)" by (simp add: holding_set_op) (simp add: holding_def fun_eq_iff)
  moreover have "op_ok ?w (st_ops ?w u)" for u using I(3) [of u] op_ok_cong [of ?w w] by simp
  ultimately show ?thesis using partitioned_return(1) [OF I(4) held] I by (simp add: stack_inv_def)
qed

subsection \<open>The atomic stack\<close>

text \<open>The specification: a sequential stack whose operations take effect in one step, at some moment
  between the call and the return of the thread. A thread is ready, waits for its operation
  to take effect, or has its result.\<close>

datatype caller =
  Ready
| Push_pending nat
| Push_done
| Pop_pending
| Pop_done "nat option"

inductive atomic_step ::
  "nat list \<times> (nat \<Rightarrow> caller) \<Rightarrow> stack_event list \<Rightarrow> nat list \<times> (nat \<Rightarrow> caller) \<Rightarrow> bool"
where
  call_push: "c t = Ready \<Longrightarrow> atomic_step (es, c) [Call_push t i] (es, c(t := Push_pending i))"
| do_push: "c t = Push_pending i \<Longrightarrow> atomic_step (es, c) [] (i # es, c(t := Push_done))"
| return_push: "c t = Push_done \<Longrightarrow> atomic_step (es, c) [Return_push t] (es, c(t := Ready))"
| call_pop: "c t = Ready \<Longrightarrow> atomic_step (es, c) [Call_pop t] (es, c(t := Pop_pending))"
| do_pop_empty: "c t = Pop_pending \<Longrightarrow> atomic_step ([], c) [] ([], c(t := Pop_done None))"
| do_pop: "c t = Pop_pending \<Longrightarrow> atomic_step (i # es, c) [] (es, c(t := Pop_done (Some i)))"
| return_pop: "c t = Pop_done r \<Longrightarrow> atomic_step (es, c) [Return_pop t r] (es, c(t := Ready))"

text \<open>Runs of a labelled step relation, with the events in order.\<close>

inductive runs :: "('s \<Rightarrow> 'e list \<Rightarrow> 's \<Rightarrow> bool) \<Rightarrow> 's \<Rightarrow> 'e list \<Rightarrow> 's \<Rightarrow> bool" for step where
  runs_none: "runs step s [] s"
| runs_more: "runs step s evs s' \<Longrightarrow> step s' evs' s'' \<Longrightarrow> runs step s (evs @ evs') s''"

lemma runs_one: "step s evs s' \<Longrightarrow> runs step s evs s'"
  using runs_more [OF runs_none, of step s evs s'] by simp

lemma runs_trans: "runs step s' evs' s'' \<Longrightarrow> runs step s evs s' \<Longrightarrow> runs step s (evs @ evs') s''"
proof (induction rule: runs.induct)
  case (runs_more s' evs' t evs'' u)
  then show ?case using runs.runs_more [of step s "evs @ evs'" t evs'' u] by simp
qed simp

lemma runs_two: "step s evs s' \<Longrightarrow> step s' evs' s'' \<Longrightarrow> runs step s (evs @ evs') s''"
  by (rule runs_more [OF runs_one])

text \<open>Where a thread of the lock-free stack stands: a push takes effect at its exchange; a pop at its
  exchange too, or, when it finds the stack empty, at the load of the head.\<close>

fun caller_of :: "stack_op \<Rightarrow> caller" where
  "caller_of Idle = Ready"
| "caller_of (Push_counted i) = Push_pending i"
| "caller_of (Push_loaded i h seen) = Push_pending i"
| "caller_of (Push_linked i h seen) = Push_pending i"
| "caller_of (Pop_loaded h seen) = (if index_of h = 0 then Pop_done None else Pop_pending)"
| "caller_of (Pop_read h n seen) = Pop_pending"
| "caller_of (Pop_taken i) = Pop_done (Some i)"

definition callers :: "stack_world \<Rightarrow> nat \<Rightarrow> caller" where
  "callers w = (\<lambda>t. caller_of (st_ops w t))"

lemma callers_set_op: "callers (set_op t q w) = (callers w)(t := caller_of q)"
  by (auto simp: callers_def)

lemma callers_update [simp]:
  "callers (w\<lparr>st_count := k\<rparr>) = callers w" "callers (w\<lparr>st_outside := A\<rparr>) = callers w"
  "callers (w\<lparr>st_link := f\<rparr>) = callers w" "callers (w\<lparr>st_head := h\<rparr>) = callers w"
  "callers (w\<lparr>st_updates := n\<rparr>) = callers w"
  by (simp_all add: callers_def)

lemma callers_same: "caller_of q = caller_of (st_ops w t) \<Longrightarrow> callers (set_op t q w) = callers w"
  by (auto simp: callers_def)

lemma inv_empty: "stack_inv E w es \<Longrightarrow> index_of (st_head w) = 0 \<longleftrightarrow> es = []"
  using stack_invD(1) chained_zero by blast

text \<open>A pop that loads the head has its answer at once when the stack is empty.\<close>

lemma pop_loads:
  assumes "stack_inv E w es" and "c t = Pop_pending"
  shows "runs atomic_step (es, c) [] (es, c(t := caller_of (Pop_loaded (st_head w) seen)))"
proof (cases "es = []")
  case True
  then have "index_of (st_head w) = 0" using inv_empty [OF assms(1)] by simp
  with True show ?thesis using runs_one [of atomic_step, OF do_pop_empty [of c t, OF assms(2)]] by simp
next
  case False
  then have "index_of (st_head w) \<noteq> 0" using inv_empty [OF assms(1)] by simp
  then have "c(t := caller_of (Pop_loaded (st_head w) seen)) = c" using assms(2) by (simp add: fun_upd_idem)
  then show ?thesis by (simp add: runs_none)
qed

lemma stack_step_simulates:
  assumes "stack_step w evs w'" "stack_inv E w es" "E \<subseteq> {0<..<2 ^ 24}"
  shows "\<exists>es'. runs atomic_step (es, callers w) evs (es', callers w') \<and> stack_inv E w' es'"
  using assms(1)
proof cases
  case (push_count t i)
  have "callers w t = Ready" using push_count by (simp add: callers_def)
  from runs_one [of atomic_step, OF call_push [of "callers w" t, OF this]] push_count inv_push_count [OF assms(2)]
  show ?thesis by (intro exI [of _ es]) (simp add: callers_set_op)
next
  case (push_load t i)
  then have "callers w' = callers w" by (auto simp: callers_same)
  moreover have "stack_inv E w' es"
    using push_load inv_private [OF assms(2), of _ t] loaded_now [OF assms(2)] by fastforce
  ultimately show ?thesis using push_load runs_none by metis
next
  case (push_link t i h seen)
  then have "callers w' = callers w" by (simp add: callers_def fun_eq_iff set_op_def)
  then show ?thesis using push_link inv_push_link [OF assms(2)] runs_none by metis
next
  case (push_exchange t i h seen)
  have c: "callers w t = Push_pending i" using push_exchange by (simp add: callers_def)
  have "runs atomic_step (es, callers w) ([] @ [Return_push t]) (i # es, ((callers w)(t := Push_done))(t := Ready))"
    by (rule runs_two [of atomic_step, OF do_push [of "callers w" t, OF c]
          return_push [of "(callers w)(t := Push_done)" t]]) simp
  then show ?thesis
    using inv_push_exchange [OF assms(2) push_exchange(3,4) assms(3)] push_exchange(1,2)
    by (auto simp: callers_set_op)
next
  case (push_retry t i h seen)
  then have "callers w' = callers w" by (auto simp: callers_same)
  moreover have "stack_inv E w' es"
    using push_retry inv_private [OF assms(2), of _ t] loaded_now [OF assms(2)] by fastforce
  ultimately show ?thesis using push_retry runs_none by metis
next
  case (pop_load t)
  have c: "callers w t = Ready" using pop_load by (simp add: callers_def)
  have "runs atomic_step (es, callers w) ([Call_pop t] @ [])
      (es, ((callers w)(t := Pop_pending))(t := caller_of (Pop_loaded (st_head w) (st_updates w))))"
    by (rule runs_trans [OF pop_loads [OF assms(2), of "(callers w)(t := Pop_pending)" t] runs_one [of atomic_step, OF call_pop [of "callers w" t, OF c]]]) simp
  moreover have "stack_inv E w' es"
    using pop_load inv_private [OF assms(2), of _ t] loaded_now [OF assms(2)] by fastforce
  ultimately show ?thesis using pop_load by (auto simp: callers_set_op simp del: caller_of.simps)
next
  case (pop_empty t h seen)
  have c: "callers w t = Pop_done None" using pop_empty by (simp add: callers_def)
  from runs_one [of atomic_step, OF return_pop [of "callers w" t, OF c]] show ?thesis
    using pop_empty inv_private [OF assms(2), of Idle t] by (auto simp: callers_set_op)
next
  case (pop_link t h seen)
  then have "callers w' = callers w" by (auto simp: callers_same)
  moreover have "stack_inv E w' es"
    using pop_link inv_private [OF assms(2), of _ t] stack_invD(3) [OF assms(2), of t] by fastforce
  ultimately show ?thesis using pop_link runs_none by metis
next
  case (pop_exchange t h n seen)
  have c: "callers w t = Pop_pending" using pop_exchange by (simp add: callers_def)
  obtain es' where es': "es = index_of h # es'" "stack_inv E w' es'"
    using inv_pop_exchange [OF assms(2) pop_exchange(3-5) assms(3)] pop_exchange(2) by metis
  from runs_one [of atomic_step, OF do_pop [of "callers w" t, OF c]] es' pop_exchange(1,2) show ?thesis
    by (auto simp: callers_set_op)
next
  case (pop_retry t h n seen)
  have c: "callers w t = Pop_pending" using pop_retry by (simp add: callers_def)
  have "stack_inv E w' es"
    using pop_retry inv_private [OF assms(2), of _ t] loaded_now [OF assms(2)] by fastforce
  then show ?thesis using pop_loads [OF assms(2), of "callers w" t] c pop_retry
    by (auto simp: callers_set_op simp del: caller_of.simps)
next
  case (pop_return t i)
  have c: "callers w t = Pop_done (Some i)" using pop_return by (simp add: callers_def)
  from runs_one [of atomic_step, OF return_pop [of "callers w" t, OF c]] show ?thesis
    using pop_return inv_pop_return [OF assms(2)] by (auto simp: callers_set_op)
qed

subsection \<open>Reachable states\<close>

definition empty_stack :: "nat set \<Rightarrow> (nat \<Rightarrow> nat) \<Rightarrow> stack_world" where
  "empty_stack E link = \<lparr>st_head = 0, st_count = 0, st_link = link, st_ops = \<lambda>_. Idle, st_outside = E, st_updates = 0\<rparr>"

lemma empty_stack_inv: "stack_inv E (empty_stack E link) []"
proof -
  have "holding (empty_stack E link) = Map.empty" by (simp add: holding_def empty_stack_def fun_eq_iff)
  then have "partitioned E [] E (holding (empty_stack E link)) 0" by (simp add: partitioned_def)
  then show ?thesis by (simp add: stack_inv_def empty_stack_def index_of_def version_of_def)
qed

lemma stack_runs_simulates:
  assumes "runs stack_step w evs w'" "stack_inv E w es" "E \<subseteq> {0<..<2 ^ 24}"
  shows "\<exists>es'. runs atomic_step (es, callers w) evs (es', callers w') \<and> stack_inv E w' es'"
  using assms(1,2)
proof (induction rule: runs.induct)
  case (runs_none s)
  then show ?case using runs.runs_none [of atomic_step] by blast
next
  case (runs_more s evs s' evs' s'')
  then show ?case using stack_step_simulates [OF _ _ assms(3)] runs_trans by metis
qed

text \<open>C11. The lock-free stacks are linearisable. Take any interleaving of the pushes and pops of any number of threads, in
  which no operation sleeps between its load of the head and its exchange while \<open>2 ^ 40\<close> other updates
  happen. Its calls and returns, with the entries the pops return, are also those of a run of the atomic stack,
  where every operation takes effect in one step between its call and its return, a pop returns the top entry, and
  returns nothing only when the stack is empty. At the end the entries chained from the head are those of the atomic stack,
  and every thread stands where it stands there. In particular a pop that read a link
  before others popped and pushed the same entry again (the ABA case) never installs it.\<close>

theorem page_stack_linearises:
  assumes "runs stack_step (empty_stack E link) evs w" and "E \<subseteq> {0<..<2 ^ 24}"
  shows "\<exists>es. runs atomic_step ([], \<lambda>_. Ready) evs (es, callers w)
    \<and> chained (st_link w) (index_of (st_head w)) es \<and> distinct es \<and> set es \<subseteq> E"
proof -
  have "callers (empty_stack E link) = (\<lambda>_. Ready)" by (simp add: callers_def empty_stack_def)
  then obtain es where "runs atomic_step ([], \<lambda>_. Ready) evs (es, callers w)" "stack_inv E w es"
    using stack_runs_simulates [OF assms(1) empty_stack_inv assms(2)] by metis
  then show ?thesis using stack_invD(1,4) [of E w es] by (auto simp: partitioned_def)
qed

theorem page_stack_linearises_witness:
  "\<exists>w es. runs stack_step (empty_stack {1} (\<lambda>_. 0)) [Call_push 0 1, Return_push 0, Call_pop 5, Return_pop 5 (Some 1)] w
     \<and> runs atomic_step ([], \<lambda>_. Ready) [Call_push 0 1, Return_push 0, Call_pop 5, Return_pop 5 (Some 1)] (es, callers w)"
proof -
  define w0 where "w0 = empty_stack {1} (\<lambda>_. 0)"
  define w1 where "w1 = set_op 0 (Push_counted 1) (w0\<lparr>st_count := st_count w0 + 1, st_outside := st_outside w0 - {1}\<rparr>)"
  define w2 where "w2 = set_op 0 (Push_loaded 1 (st_head w1) (st_updates w1)) w1"
  define w3 where "w3 = set_op 0 (Push_linked 1 0 0) (w2\<lparr>st_link := (st_link w2)(1 := index_of 0)\<rparr>)"
  define w4 where "w4 = set_op 0 Idle (w3\<lparr>st_head := successor 0 (word_of_nat 1), st_updates := st_updates w3 + 1\<rparr>)"
  define w5 where "w5 = set_op 5 (Pop_loaded (st_head w4) (st_updates w4)) w4"
  define w6 where "w6 = set_op 5 (Pop_read (st_head w4) (st_link w5 (index_of (st_head w4))) (st_updates w4)) w5"
  define w7 where "w7 = set_op 5 (Pop_taken (index_of (st_head w4)))
    (w6\<lparr>st_head := successor (st_head w4) (word_of_nat (st_link w5 (index_of (st_head w4)))), st_updates := st_updates w6 + 1\<rparr>)"
  define w8 where "w8 = set_op 5 Idle (w7\<lparr>st_count := st_count w7 - 1, st_outside := insert 1 (st_outside w7)\<rparr>)"
  note ws = w8_def w7_def w6_def w5_def w4_def w3_def w2_def w1_def w0_def empty_stack_def
  have top: "index_of (successor 0 (word_of_nat 1)) = 1" by (simp add: index_of_successor)
  have "runs stack_step w0 [] w0" by (rule runs_none)
  from runs_more [OF this push_count [of w0 0 1]] have "runs stack_step w0 [Call_push 0 1] w1" by (simp add: ws)
  from runs_more [OF this push_load [of w1 0 1]] have "runs stack_step w0 [Call_push 0 1] w2" by (simp add: ws)
  from runs_more [OF this push_link [of w2 0 1 0 0]] have "runs stack_step w0 [Call_push 0 1] w3" by (simp add: ws)
  from runs_more [OF this push_exchange [of w3 0 1 0 0]] have "runs stack_step w0 [Call_push 0 1, Return_push 0] w4" by (simp add: ws)
  from runs_more [OF this pop_load [of w4 5]] have "runs stack_step w0 [Call_push 0 1, Return_push 0, Call_pop 5] w5" by (simp add: ws)
  from runs_more [OF this pop_link [of w5 5 "st_head w4" "st_updates w4"]]
  have "runs stack_step w0 [Call_push 0 1, Return_push 0, Call_pop 5] w6" using top by (simp add: ws)
  from runs_more [OF this pop_exchange [of w6 5 "st_head w4" "st_link w5 (index_of (st_head w4))" "st_updates w4"]]
  have "runs stack_step w0 [Call_push 0 1, Return_push 0, Call_pop 5] w7" by (simp add: ws)
  from runs_more [OF this pop_return [of w7 5 1]]
  have "runs stack_step w0 [Call_push 0 1, Return_push 0, Call_pop 5, Return_pop 5 (Some 1)] w8" using top by (simp add: ws)
  with page_stack_linearises [of "{1}" "\<lambda>_. 0" _ w8] show ?thesis unfolding w0_def by fastforce
qed

end
