(* ===== verification/Heap_Pages.thy ===== *)
theory Heap_Pages
  imports Page_Stack
begin

text \<open>
  Pages and blocks (\<open>src/src/heap/pages.rs\<close>, \<open>remote.rs\<close>, \<open>slow.rs\<close>): the header of a page, the
  initialisation of a page, taking a block from it, the owner's and the remote free of a block, and
  the owner's collection of the remote frees. A free block keeps the link to the next one in its
  first word, so the model has an explicit memory, from addresses to the words at them. Headers are
  found by their address. Every operation is one step: a page has one owner, and the accesses that
  other threads make to it are single atomic updates.
\<close>

subsection \<open>State\<close>

record page_header =
  local_free :: nat
  bump :: nat
  page_end :: nat
  page_used :: nat
  block_size :: nat
  page_owner :: nat
  page_class :: nat
  listing :: nat
  next_avail :: nat
  prev_avail :: nat
  owner_state :: nat
  remote_head :: nat
  next_queued :: nat
  next_page :: nat
  prev_page :: nat
  page_start :: nat

record heap_store =
  hp_region :: region
  hp_headers :: "nat \<Rightarrow> page_header"
  hp_memory :: "nat \<Rightarrow> nat"
  hp_queues :: "nat \<Rightarrow> nat"

definition LISTING_NONE :: nat where "LISTING_NONE = 0"
definition LISTING_AVAIL :: nat where "LISTING_AVAIL = 1"
definition LISTING_CURRENT :: nat where "LISTING_CURRENT = 2"
definition RETIRED :: nat where "RETIRED = 2 ^ 31"
definition CURRENT_BIAS :: nat where "CURRENT_BIAS = 1"
definition QUEUED :: nat where "QUEUED = 1"
definition PUSHER_UNIT :: nat where "PUSHER_UNIT = 2"
definition STATE_FLAGS :: nat where "STATE_FLAGS = 0x3F"

text \<open>Arithmetic on the \<open>u32\<close> count.\<close>

definition wrapping_sub_u32 :: "nat \<Rightarrow> nat \<Rightarrow> nat" where
  "wrapping_sub_u32 a b = (a + 2 ^ 32 - b mod 2 ^ 32) mod 2 ^ 32"

definition put_header :: "nat \<Rightarrow> page_header \<Rightarrow> heap_store \<Rightarrow> heap_store" where
  "put_header h p s = s\<lparr>hp_headers := (hp_headers s)(h := p)\<rparr>"

definition write_word :: "nat \<Rightarrow> nat \<Rightarrow> heap_store \<Rightarrow> heap_store" where
  "write_word a x s = s\<lparr>hp_memory := (hp_memory s)(a := x)\<rparr>"

subsection \<open>Operations\<close>

definition fresh_header :: "nat \<Rightarrow> nat \<Rightarrow> page_header" where
  "fresh_header page cls =
     (let page_size = (if cls < NUM_SMALL_CLASSES then SMALL_PAGE_SIZE else MEDIUM_PAGE_SIZE)
      in \<lparr>local_free = 0, bump = page + page_color page page_size, page_end = page + page_size,
          page_used = 0, block_size = CLASS_SIZES ! cls, page_owner = 0, page_class = cls,
          listing = LISTING_NONE, next_avail = 0, prev_avail = 0, owner_state = 0, remote_head = 0,
          next_queued = 0, next_page = 0, prev_page = 0, page_start = page\<rparr>)"

definition init_page :: "nat \<Rightarrow> nat \<Rightarrow> heap_store \<Rightarrow> heap_store \<times> nat" where
  "init_page page cls s =
     (let h = header_of (hp_region s) page in (put_header h (fresh_header page cls) s, h))"

text \<open>Pop the local list, or bump.\<close>

definition page_alloc :: "nat \<Rightarrow> heap_store \<Rightarrow> heap_store \<times> nat option" where
  "page_alloc h s =
     (let p = hp_headers s h; head = local_free p
      in if head \<noteq> 0
         then (put_header h (p\<lparr>local_free := hp_memory s head, page_used := page_used p + 1\<rparr>) s, Some head)
         else
           (let next = bump p + block_size p
            in if next \<le> page_end p
               then (put_header h (p\<lparr>bump := next, page_used := page_used p + 1\<rparr>) s, Some (bump p))
               else (s, None)))"

text \<open>The owner's branch of \<open>pool_free_page\<close>; the answer is the signed test that sends the page to
  the cold path.\<close>

definition local_free_block :: "nat \<Rightarrow> nat \<Rightarrow> heap_store \<Rightarrow> heap_store \<times> bool" where
  "local_free_block block h s =
     (let p = hp_headers s h;
          s = write_word block (local_free p) s;
          used = wrapping_sub_u32 (page_used p) 1
      in (put_header h (p\<lparr>local_free := block, page_used := used\<rparr>) s, used = 0 \<or> 2 ^ 31 \<le> used))"

text \<open>\<open>remote_free\<close>: the block goes to the remote list; a page that has an owner and is not queued yet
  is queued at its owner. The low six bits of the owner state are the flags.\<close>

definition remote_free :: "nat \<Rightarrow> nat \<Rightarrow> heap_store \<Rightarrow> heap_store" where
  "remote_free block h s =
     (let p = hp_headers s h;
          s = put_header h (p\<lparr>remote_head := block\<rparr>) (write_word block (remote_head p) s);
          state = owner_state p
      in if odd state \<or> state div (STATE_FLAGS + 1) = 0 then s
         else
           (let owner = state - state mod (STATE_FLAGS + 1);
                p = hp_headers s h
            in (put_header h (p\<lparr>owner_state := state + QUEUED, next_queued := hp_queues s owner\<rparr>) s)
                 \<lparr>hp_queues := (hp_queues s)(owner := h)\<rparr>))"

text \<open>The walk to the end of a chain: the last block and the number of blocks.\<close>

partial_function (option) chain_end :: "(nat \<Rightarrow> nat) \<Rightarrow> nat \<Rightarrow> nat \<Rightarrow> (nat \<times> nat) option" where
  "chain_end memory tail count =
     (if memory tail \<noteq> 0 then chain_end memory (memory tail) (count + 1) else Some (tail, count))"

definition absorb_remote :: "nat \<Rightarrow> heap_store \<Rightarrow> (heap_store \<times> nat) option" where
  "absorb_remote h s =
     (let p = hp_headers s h; remote = remote_head p;
          p0 = p\<lparr>remote_head := 0\<rparr>
      in if remote = 0 then Some (put_header h p0 s, 0)
         else
           (case chain_end (hp_memory s) remote 1 of
              None \<Rightarrow> None
            | Some (tail, count) \<Rightarrow>
                Some (put_header h (p0\<lparr>local_free := remote, page_used := wrapping_sub_u32 (page_used p) count\<rparr>)
                        (write_word tail (local_free p) s), count)))"

subsection \<open>The blocks of a page\<close>

definition page_bytes :: "page_header \<Rightarrow> nat" where
  "page_bytes p = (if page_class p < NUM_SMALL_CLASSES then SMALL_PAGE_SIZE else MEDIUM_PAGE_SIZE)"

definition first_block :: "page_header \<Rightarrow> nat" where
  "first_block p = page_start p + page_color (page_start p) (page_bytes p)"

definition bumped :: "page_header \<Rightarrow> nat" where
  "bumped p = (bump p - first_block p) div block_size p"

definition block_at :: "page_header \<Rightarrow> nat \<Rightarrow> nat" where
  "block_at p k = first_block p + k * block_size p"

definition blocks :: "page_header \<Rightarrow> nat set" where
  "blocks p = block_at p ` {..<bumped p}"

definition header_geometry :: "page_header \<Rightarrow> bool" where
  "header_geometry p \<longleftrightarrow> page_class p < NUM_CLASSES \<and> block_size p = CLASS_SIZES ! page_class p \<and>
     0 < page_start p \<and> page_start p mod page_bytes p = 0 \<and> page_end p = page_start p + page_bytes p \<and>
     bump p = block_at p (bumped p) \<and> bump p \<le> page_end p"

text \<open>The extra units of the count: the bias of the current page and the flag of a retired one.\<close>

definition used_extra :: "page_header \<Rightarrow> nat" where
  "used_extra p = (if listing p = LISTING_CURRENT then CURRENT_BIAS else 0) + (if RETIRED \<le> page_used p then RETIRED else 0)"

definition page_wf :: "(nat \<Rightarrow> nat) \<Rightarrow> page_header \<Rightarrow> nat set \<Rightarrow> nat list \<Rightarrow> nat list \<Rightarrow> bool" where
  "page_wf m p live ls rs \<longleftrightarrow>
     header_geometry p \<and> chained m (local_free p) ls \<and> chained m (remote_head p) rs \<and>
     distinct (ls @ rs) \<and> live \<inter> set (ls @ rs) = {} \<and> live \<union> set (ls @ rs) = blocks p \<and>
     page_used p = card live + length rs + used_extra p"


subsection \<open>Geometry\<close>

lemma CLASS_SIZES_bounds:
  assumes "c < NUM_CLASSES"
  shows "8 \<le> CLASS_SIZES ! c" "CLASS_SIZES ! c \<le> 32768" "CLASS_SIZES ! c mod 8 = 0"
proof -
  have "\<forall>x \<in> set CLASS_SIZES. 8 \<le> x \<and> x \<le> 32768 \<and> x mod 8 = 0" by (simp add: CLASS_SIZES_def)
  moreover have "CLASS_SIZES ! c \<in> set CLASS_SIZES" using assms by (simp add: length_CLASS_SIZES)
  ultimately show "8 \<le> CLASS_SIZES ! c" "CLASS_SIZES ! c \<le> 32768" "CLASS_SIZES ! c mod 8 = 0" by blast+
qed

lemma same_geometry:
  assumes "page_class p' = page_class p" "block_size p' = block_size p" "page_start p' = page_start p"
    "page_end p' = page_end p" "bump p' = bump p"
  shows "header_geometry p' \<longleftrightarrow> header_geometry p" "blocks p' = blocks p" "block_at p' = block_at p"
    "bumped p' = bumped p"
proof -
  have f: "first_block p' = first_block p" using assms by (simp add: first_block_def page_bytes_def)
  then show b: "bumped p' = bumped p" and a: "block_at p' = block_at p"
    using assms by (simp_all add: bumped_def block_at_def fun_eq_iff)
  then show "blocks p' = blocks p" by (simp add: blocks_def)
  show "header_geometry p' \<longleftrightarrow> header_geometry p"
    using assms a b by (simp add: header_geometry_def page_bytes_def)
qed

lemma geometryD:
  assumes "header_geometry p"
  shows "8 \<le> block_size p" "block_size p mod 8 = 0" "bump p = block_at p (bumped p)" "bump p \<le> page_end p"
    "page_end p = page_start p + page_bytes p" "page_bytes p \<le> 2 ^ 20" "0 < page_start p"
proof -
  from assms have c: "page_class p < NUM_CLASSES" "block_size p = CLASS_SIZES ! page_class p"
    unfolding header_geometry_def by blast+
  show "8 \<le> block_size p" "block_size p mod 8 = 0" unfolding c(2) by (rule CLASS_SIZES_bounds [OF c(1)])+
  show "page_bytes p \<le> 2 ^ 20" by (simp add: page_bytes_def heap_constants)
qed (use assms in \<open>unfold header_geometry_def, blast+\<close>)

lemma block_at_less: "header_geometry p \<Longrightarrow> j < k \<Longrightarrow> block_at p j + block_size p \<le> block_at p k"
proof -
  assume "j < k"
  then have "Suc j * block_size p \<le> k * block_size p" by (intro mult_le_mono1) simp
  then show ?thesis by (simp add: block_at_def)
qed

lemma block_at_inj: "header_geometry p \<Longrightarrow> block_at p j = block_at p k \<longleftrightarrow> j = k"
  using geometryD(1) [of p] by (auto simp: block_at_def)

lemma blocks_apart:
  assumes "header_geometry p" "x \<in> blocks p" "y \<in> blocks p" "x \<noteq> y"
  shows "x + block_size p \<le> y \<or> y + block_size p \<le> x"
proof -
  obtain j k where "x = block_at p j" "y = block_at p k" using assms(2,3) by (auto simp: blocks_def)
  with assms(4) block_at_less [OF assms(1), of j k] block_at_less [OF assms(1), of k j] show ?thesis
    by (cases j k rule: linorder_cases) auto
qed

lemma block_in_page:
  assumes "header_geometry p" "x \<in> blocks p"
  shows "page_start p \<le> x" "x + block_size p \<le> page_end p" "0 < x" "x < bump p"
proof -
  note G = geometryD [OF assms(1)]
  obtain k where k: "k < bumped p" "x = block_at p k" using assms(2) by (auto simp: blocks_def)
  have "x + block_size p \<le> bump p" using block_at_less [OF assms(1) k(1)] by (simp add: k(2) G(3))
  then show "x + block_size p \<le> page_end p" "x < bump p" using G(1,4) by linarith+
  show "page_start p \<le> x" by (simp add: k(2) block_at_def first_block_def)
  with G(7) show "0 < x" by simp
qed

lemma card_blocks: "header_geometry p \<Longrightarrow> finite (blocks p) \<and> card (blocks p) = bumped p"
  by (auto simp: blocks_def card_image inj_on_def block_at_inj)

lemma bumped_bound: "header_geometry p \<Longrightarrow> bumped p \<le> 2 ^ 17"
proof -
  assume g: "header_geometry p"
  note G = geometryD [OF g]
  have "bumped p * 8 \<le> bumped p * block_size p" using G(1) by simp
  also have "\<dots> \<le> page_bytes p"
    using G(3,4,5) by (simp add: block_at_def first_block_def)
  finally show ?thesis using G(6) by simp
qed

lemma chained_cong: "(\<And>x. x \<in> set xs \<Longrightarrow> m' x = m x) \<Longrightarrow> chained m' a xs \<longleftrightarrow> chained m a xs"
  by (induction m a xs rule: chained.induct) auto

subsection \<open>The operations keep the page\<close>

lemma page_wfD:
  assumes "page_wf m p live ls rs"
  shows "header_geometry p" "chained m (local_free p) ls" "chained m (remote_head p) rs" "distinct (ls @ rs)"
    "live \<inter> set (ls @ rs) = {}" "live \<union> set (ls @ rs) = blocks p"
    "page_used p = card live + length rs + used_extra p"
  using assms by (auto simp: page_wf_def)

lemma page_wf_counts:
  assumes "page_wf m p live ls rs"
  shows "finite live" "card live + length ls + length rs = bumped p" "card live + length rs \<le> 2 ^ 17"
proof -
  note W = page_wfD [OF assms]
  note C = card_blocks [OF W(1)]
  have f: "finite live" using C W(6) by (metis finite_Un)
  then show "finite live" .
  have "card (live \<union> set (ls @ rs)) = card live + length (ls @ rs)"
    using f W(4,5) by (simp add: card_Un_disjoint distinct_card)
  then show n: "card live + length ls + length rs = bumped p" using C W(6) by simp
  then show "card live + length rs \<le> 2 ^ 17" using bumped_bound [OF W(1)] by linarith
qed

lemma card_parts:
  assumes "finite live" "live \<inter> set (ls @ rs) = {}" "distinct (ls @ rs)"
  shows "card (live \<union> set (ls @ rs)) = card live + length ls + length rs"
  using card_Un_disjoint [OF assms(1) finite_set assms(2)] distinct_card [OF assms(3)] by (simp del: set_append)

text \<open>The flag of the count survives a change of the number of blocks it counts.\<close>

lemma used_extra_same:
  assumes "page_used p = n + used_extra p" "page_used p' = n' + used_extra p" "listing p' = listing p"
    "n \<le> 2 ^ 20" "n' \<le> 2 ^ 20"
  shows "used_extra p' = used_extra p"
  using assms by (auto simp: used_extra_def RETIRED_def CURRENT_BIAS_def split: if_splits)


lemma page_wf_header:
  assumes "page_wf m p live ls rs" "page_class p' = page_class p" "block_size p' = block_size p"
    "page_start p' = page_start p" "page_end p' = page_end p" "bump p' = bump p" "listing p' = listing p"
    "chained m' (local_free p') ls'" "chained m' (remote_head p') rs'" "distinct (ls' @ rs')"
    "live' \<inter> set (ls' @ rs') = {}" "live' \<union> set (ls' @ rs') = blocks p"
    "page_used p' = card live' + length rs' + used_extra p"
  shows "page_wf m' p' live' ls' rs'"
proof -
  note W = page_wfD [OF assms(1)] and C = page_wf_counts [OF assms(1)]
  note S = same_geometry [OF assms(2,3,4,5,6)]
  have f: "finite live'" using card_blocks [OF W(1)] assms(12) by (metis finite_Un)
  have "card live' + length ls' + length rs' = bumped p"
    using card_parts [OF f assms(11,10)] card_blocks [OF W(1)] assms(12) by simp
  then have "card live' + length rs' \<le> 2 ^ 17" using bumped_bound [OF W(1)] by linarith
  then have "used_extra p' = used_extra p"
    using used_extra_same [OF W(7) assms(13,7)] C(3) by simp
  then show ?thesis using assms(8-13) W(1) S by (simp add: page_wf_def)
qed

lemma page_alloc_pop:
  assumes "page_wf m p live ls rs" "local_free p \<noteq> 0"
  shows "local_free p \<in> blocks p" "local_free p \<notin> live"
    "page_wf m (p\<lparr>local_free := m (local_free p), page_used := page_used p + 1\<rparr>) (insert (local_free p) live) (tl ls) rs"
proof -
  note W = page_wfD [OF assms(1)]
  obtain ls' where ls: "ls = local_free p # ls'" "chained m (m (local_free p)) ls'"
    using W(2) assms(2) by (cases ls) auto
  show b: "local_free p \<in> blocks p" "local_free p \<notin> live" using W(5,6) ls(1) by auto
  have "card (insert (local_free p) live) = Suc (card live)" using b page_wf_counts(1) [OF assms(1)] by simp
  then show "page_wf m (p\<lparr>local_free := m (local_free p), page_used := page_used p + 1\<rparr>)
      (insert (local_free p) live) (tl ls) rs"
    using W ls by (intro page_wf_header [OF assms(1)]) auto
qed

lemma page_alloc_bump:
  assumes "page_wf m p live ls rs" "local_free p = 0" "bump p + block_size p \<le> page_end p"
  defines "p' \<equiv> p\<lparr>bump := bump p + block_size p, page_used := page_used p + 1\<rparr>"
  shows "bump p \<notin> blocks p" "blocks p' = insert (bump p) (blocks p)" "page_wf m p' (insert (bump p) live) ls rs"
proof -
  note W = page_wfD [OF assms(1)] and C = page_wf_counts [OF assms(1)]
  note G = geometryD [OF W(1)]
  have f: "first_block p' = first_block p" "block_size p' = block_size p" "block_at p' = block_at p"
    by (simp_all add: p'_def first_block_def page_bytes_def block_at_def fun_eq_iff)
  have "bump p + block_size p = first_block p + Suc (bumped p) * block_size p"
    using G(3) by (simp add: block_at_def)
  moreover have "bump p' = bump p + block_size p" by (simp add: p'_def)
  ultimately have "bump p' - first_block p' = Suc (bumped p) * block_size p" by (simp only: f diff_add_inverse)
  then have n: "bumped p' = Suc (bumped p)"
    using G(1) unfolding bumped_def [of p'] f(2) by (simp only: nonzero_mult_div_cancel_right)
  show new: "bump p \<notin> blocks p" using block_in_page(4) [OF W(1), of "bump p"] by auto
  show b: "blocks p' = insert (bump p) (blocks p)"
    unfolding blocks_def n f lessThan_Suc image_insert G(3) [symmetric] ..
  have g: "header_geometry p'"
    unfolding header_geometry_def n f
    using W(1) assms(3) by (auto simp: header_geometry_def p'_def page_bytes_def block_at_def)
  have l: "card (insert (bump p) live) = Suc (card live)" using new C(1) W(6) by (subst card_insert_disjoint) auto
  have "page_used p' = Suc (card live) + length rs + used_extra p" using W(7) by (simp add: p'_def)
  then have "used_extra p' = used_extra p"
    using used_extra_same [OF W(7), of p' "Suc (card live) + length rs"] C(3) by (simp add: p'_def)
  then show "page_wf m p' (insert (bump p) live) ls rs"
    using W g b l new unfolding page_wf_def by (auto simp: p'_def)
qed


lemma wrapping_sub_less: "n \<le> a \<Longrightarrow> a < 2 ^ 32 \<Longrightarrow> wrapping_sub_u32 a n = a - n"
proof -
  assume *: "n \<le> a" "a < 2 ^ 32"
  then have "a + 2 ^ 32 - n mod 2 ^ 32 = (a - n) + 2 ^ 32" by simp
  moreover have "a - n < 2 ^ 32" using *(2) by simp
  ultimately show ?thesis by (simp only: wrapping_sub_u32_def mod_add_self2 mod_less)
qed

lemma used_small:
  assumes "page_wf m p live ls rs"
  shows "page_used p < 2 ^ 32" "card live + length rs \<le> page_used p"
proof -
  have "used_extra p \<le> 2 ^ 31 + 1" by (simp add: used_extra_def RETIRED_def CURRENT_BIAS_def)
  with page_wfD(7) [OF assms] page_wf_counts(3) [OF assms]
  show "page_used p < 2 ^ 32" "card live + length rs \<le> page_used p" by simp_all
qed

lemma chained_push: "chained m a xs \<Longrightarrow> b \<notin> set xs \<Longrightarrow> 0 < b \<Longrightarrow> chained (m(b := a)) b (b # xs)"
  by (simp add: chained_upd)

lemma local_free_ok:
  assumes "page_wf m p live ls rs" "block \<in> live"
  shows "page_wf (m(block := local_free p)) (p\<lparr>local_free := block, page_used := wrapping_sub_u32 (page_used p) 1\<rparr>)
    (live - {block}) (block # ls) rs"
proof -
  note W = page_wfD [OF assms(1)] and C = page_wf_counts [OF assms(1)] and U = used_small [OF assms(1)]
  have b: "block \<notin> set (ls @ rs)" "block \<in> blocks p" using W(5,6) assms(2) by auto
  have pos: "0 < block" using block_in_page(3) [OF W(1) b(2)] .
  have c: "card live = Suc (card (live - {block}))" using card.remove [OF C(1) assms(2)] .
  then have u: "wrapping_sub_u32 (page_used p) 1 = page_used p - 1" using U by (intro wrapping_sub_less) auto
  show ?thesis
  proof (rule page_wf_header [OF assms(1)])
    show "chained (m(block := local_free p)) (local_free (p\<lparr>local_free := block, page_used := wrapping_sub_u32 (page_used p) 1\<rparr>)) (block # ls)"
      using chained_push [OF W(2), of block] b pos by simp
    show "chained (m(block := local_free p)) (remote_head (p\<lparr>local_free := block, page_used := wrapping_sub_u32 (page_used p) 1\<rparr>)) rs"
      using chained_upd [OF W(3), of block] b by simp
    show "distinct ((block # ls) @ rs)" "(live - {block}) \<inter> set ((block # ls) @ rs) = {}"
      "live - {block} \<union> set ((block # ls) @ rs) = blocks p"
      using W(4,5) W(6) [symmetric] b assms(2) by auto
  qed (use W(7) c u in simp_all)
qed

lemma remote_push_ok:
  assumes "page_wf m p live ls rs" "block \<in> live"
  shows "page_wf (m(block := remote_head p)) (p\<lparr>remote_head := block\<rparr>) (live - {block}) ls (block # rs)"
proof -
  note W = page_wfD [OF assms(1)] and C = page_wf_counts [OF assms(1)]
  have b: "block \<notin> set (ls @ rs)" "block \<in> blocks p" using W(5,6) assms(2) by auto
  have pos: "0 < block" using block_in_page(3) [OF W(1) b(2)] .
  have c: "card live = Suc (card (live - {block}))" using card.remove [OF C(1) assms(2)] .
  show ?thesis
  proof (rule page_wf_header [OF assms(1)])
    show "chained (m(block := remote_head p)) (remote_head (p\<lparr>remote_head := block\<rparr>)) (block # rs)"
      using chained_push [OF W(3), of block] b pos by simp
    show "chained (m(block := remote_head p)) (local_free (p\<lparr>remote_head := block\<rparr>)) ls"
      using chained_upd [OF W(2), of block] b by simp
    show "distinct (ls @ block # rs)" "(live - {block}) \<inter> set (ls @ block # rs) = {}"
      "live - {block} \<union> set (ls @ block # rs) = blocks p"
      using W(4,5) W(6) [symmetric] b assms(2) by auto
  qed (use W(7) c in simp_all)
qed

lemma page_wf_queue:
  "page_wf m (p\<lparr>owner_state := x, next_queued := y\<rparr>) live ls rs \<longleftrightarrow> page_wf m p live ls rs"
proof -
  have "used_extra (p\<lparr>owner_state := x, next_queued := y\<rparr>) = used_extra p" by (simp add: used_extra_def)
  then show ?thesis by (simp add: page_wf_def same_geometry [of "p\<lparr>owner_state := x, next_queued := y\<rparr>" p])
qed

text \<open>The walk ends at the last block of the chain.\<close>

lemma chain_end_walk:
  "chained m a xs \<Longrightarrow> xs \<noteq> [] \<Longrightarrow> chain_end m a count = Some (last xs, count + length xs - 1)"
proof (induction m a xs arbitrary: count rule: chained.induct)
  case (2 m a x xs)
  then show ?case
    by (subst chain_end.simps) (cases xs, auto)
qed simp

lemma chained_splice:
  assumes "chained m a xs" "xs \<noteq> []" "chained m b ys" "distinct (xs @ ys)"
  shows "chained (m(last xs := b)) a (xs @ ys)"
  using assms
proof (induction m a xs rule: chained.induct)
  case (2 m a x xs)
  show ?case
  proof (cases "xs = []")
    case True
    with 2 chained_upd [of m b ys x b] show ?thesis by (simp add: fun_upd_def)
  next
    case False
    with 2 have "x \<noteq> last xs" by auto
    with 2 False show ?thesis by simp
  qed
qed simp

lemma absorb_ok:
  assumes "page_wf m p live ls rs" "rs \<noteq> []"
  shows "page_wf (m(last rs := local_free p))
    (p\<lparr>remote_head := 0, local_free := remote_head p, page_used := wrapping_sub_u32 (page_used p) (length rs)\<rparr>)
    live (rs @ ls) []"
proof -
  note W = page_wfD [OF assms(1)] and U = used_small [OF assms(1)]
  have u: "wrapping_sub_u32 (page_used p) (length rs) = page_used p - length rs"
    using U by (intro wrapping_sub_less) auto
  have d: "distinct (rs @ ls)" using W(4) by auto
  show ?thesis
    using chained_splice [OF W(3) assms(2) W(2) d] W u d
    by (intro page_wf_header [OF assms(1)]) auto
qed

end
