(* ===== verification/Heap_Pool.thy ===== *)
theory Heap_Pool
  imports Heap_Pages
begin

text \<open>
  The pages of the pool together: any sequence of page initialisations, allocations, frees by the
  owner or by other threads, collections of remote frees, returns of empty pages to the pools and
  writes of the program into its own blocks. The ghost state is the set of headers in use and the
  set of blocks the program holds.
\<close>

subsection \<open>Steps\<close>

type_synonym pool_state = "heap_store \<times> nat set \<times> nat set"

definition placed :: "region \<Rightarrow> nat \<Rightarrow> nat \<Rightarrow> bool" where
  "placed r page cls \<longleftrightarrow> (if cls < NUM_SMALL_CLASSES then small_page r page else medium_page r page)"

text \<open>The header \<open>dealloc\<close> finds for a block.\<close>

definition header_of_block :: "heap_store \<Rightarrow> nat \<Rightarrow> nat" where
  "header_of_block s block = page_header_at (hp_region s) block (pool_offset (hp_region s) block)"

definition block_len :: "heap_store \<Rightarrow> nat \<Rightarrow> nat" where
  "block_len s block = block_size (hp_headers s (header_of_block s block))"

inductive pool_step :: "pool_state \<Rightarrow> pool_state \<Rightarrow> bool" where
  pool_init: "cls < NUM_CLASSES \<Longrightarrow> placed (hp_region s) page cls \<Longrightarrow> init_page page cls s = (s', h) \<Longrightarrow> h \<notin> pages \<Longrightarrow>
    pool_step (s, pages, live) (s', insert h pages, live)"
| pool_alloc: "h \<in> pages \<Longrightarrow> page_alloc h s = (s', Some block) \<Longrightarrow>
    pool_step (s, pages, live) (s', pages, insert block live)"
| pool_free: "block \<in> live \<Longrightarrow> local_free_block block (header_of_block s block) s = (s', cold) \<Longrightarrow>
    pool_step (s, pages, live) (s', pages, live - {block})"
| pool_remote_free: "block \<in> live \<Longrightarrow>
    pool_step (s, pages, live) (remote_free block (header_of_block s block) s, pages, live - {block})"
| pool_absorb: "h \<in> pages \<Longrightarrow> absorb_remote h s = Some (s', count) \<Longrightarrow> pool_step (s, pages, live) (s', pages, live)"
| pool_release: "h \<in> pages \<Longrightarrow> (\<forall>block \<in> live. header_of_block s block \<noteq> h) \<Longrightarrow>
    pool_step (s, pages, live) (s, pages - {h}, live)"
| pool_write: "block \<in> live \<Longrightarrow> block \<le> a \<Longrightarrow> a < block + block_len s block \<Longrightarrow>
    pool_step (s, pages, live) (write_word a x s, pages, live)"

subsection \<open>Invariant\<close>

definition span :: "page_header \<Rightarrow> nat set" where
  "span p = {page_start p ..< page_end p}"

definition page_inv :: "heap_store \<Rightarrow> nat set \<Rightarrow> nat \<Rightarrow> bool" where
  "page_inv s live h \<longleftrightarrow>
     (let p = hp_headers s h
      in placed (hp_region s) (page_start p) (page_class p) \<and> header_of (hp_region s) (page_start p) = h \<and>
         (\<exists>ls rs. page_wf (hp_memory s) p (live \<inter> span p) ls rs))"

definition pool_inv :: "pool_state \<Rightarrow> bool" where
  "pool_inv = (\<lambda>(s, pages, live). region_ok (hp_region s) \<and> (\<forall>h \<in> pages. page_inv s live h) \<and>
     (\<forall>block \<in> live. \<exists>h \<in> pages. block \<in> blocks (hp_headers s h)))"

lemma placed_page: "placed r page cls \<Longrightarrow> small_page r page \<or> medium_page r page"
  by (auto simp: placed_def split: if_splits)

lemma page_invE:
  assumes "page_inv s live h"
  obtains ls rs where "placed (hp_region s) (page_start (hp_headers s h)) (page_class (hp_headers s h))"
    "header_of (hp_region s) (page_start (hp_headers s h)) = h"
    "page_wf (hp_memory s) (hp_headers s h) (live \<inter> span (hp_headers s h)) ls rs"
    "header_geometry (hp_headers s h)"
  using assms page_wfD(1) by (auto simp: page_inv_def Let_def)

text \<open>A page covers the span the region arithmetic gives it.\<close>

lemma span_page_span:
  assumes "header_geometry p" "placed r (page_start p) (page_class p)"
  shows "span p = page_span r (page_start p)"
proof (cases "page_class p < NUM_SMALL_CLASSES")
  case True
  with assms show ?thesis
    by (auto simp: span_def page_span_def geometryD(5) page_bytes_def placed_def small_page_def heap_constants)
next
  case False
  with assms show ?thesis
    by (auto simp: span_def page_span_def geometryD(5) page_bytes_def placed_def medium_page_def heap_constants)
qed

lemma blocks_span: "header_geometry p \<Longrightarrow> x \<in> blocks p \<Longrightarrow> {x ..< x + block_size p} \<subseteq> span p"
  using block_in_page(1,2) [of p x] by (auto simp: span_def)

lemma block_span: "header_geometry p \<Longrightarrow> x \<in> blocks p \<Longrightarrow> x \<in> span p"
  using blocks_span [of p x] geometryD(1) [of p] by auto

lemma header_of_span:
  assumes "region_ok (hp_region s)" "page_inv s live h" "x \<in> span (hp_headers s h)"
  shows "header_of_block s x = h"
proof -
  obtain ls rs where P: "placed (hp_region s) (page_start (hp_headers s h)) (page_class (hp_headers s h))"
    "header_of (hp_region s) (page_start (hp_headers s h)) = h" "header_geometry (hp_headers s h)"
    using assms(2) by (rule page_invE) blast
  have "x \<in> page_span (hp_region s) (page_start (hp_headers s h))"
    using assms(3) span_page_span [OF P(3,1)] by simp
  from page_start_span [OF assms(1) placed_page [OF P(1)] this] P(2) show ?thesis
    by (simp add: header_of_block_def page_header_at_def)
qed

lemma spans_disjoint:
  assumes "region_ok (hp_region s)" "page_inv s live h" "page_inv s live h'" "h \<noteq> h'"
  shows "span (hp_headers s h) \<inter> span (hp_headers s h') = {}"
  using header_of_span [OF assms(1,2)] header_of_span [OF assms(1,3)] assms(4) by blast

text \<open>A change that leaves the words of a page's blocks, its header and its share of the held blocks
  alone leaves the page alone.\<close>

lemma page_inv_frame:
  assumes "page_inv s live h" "hp_region s' = hp_region s" "hp_headers s' h = hp_headers s h"
    "\<And>x. x \<in> span (hp_headers s h) \<Longrightarrow> hp_memory s' x = hp_memory s x"
    "live' \<inter> span (hp_headers s h) = live \<inter> span (hp_headers s h)"
  shows "page_inv s' live' h"
proof -
  obtain ls rs where P: "placed (hp_region s) (page_start (hp_headers s h)) (page_class (hp_headers s h))"
    "header_of (hp_region s) (page_start (hp_headers s h)) = h"
    "page_wf (hp_memory s) (hp_headers s h) (live \<inter> span (hp_headers s h)) ls rs"
    "header_geometry (hp_headers s h)"
    using assms(1) by (rule page_invE)
  have "x \<in> span (hp_headers s h)" if "x \<in> set (ls @ rs)" for x
    using page_wfD(6) [OF P(3)] that block_span [OF P(4), of x] by blast
  then have "chained (hp_memory s') a xs \<longleftrightarrow> chained (hp_memory s) a xs" if "set xs \<subseteq> set (ls @ rs)" for a xs
    using that assms(4) by (intro chained_cong) blast
  then have "page_wf (hp_memory s') (hp_headers s h) (live \<inter> span (hp_headers s h)) ls rs"
    using P(3) by (simp add: page_wf_def)
  with P(1,2) assms(2,3,5) show ?thesis by (auto simp: page_inv_def Let_def)
qed


lemma pool_invD:
  assumes "pool_inv (s, pages, live)"
  shows "region_ok (hp_region s)" "h \<in> pages \<Longrightarrow> page_inv s live h"
    "block \<in> live \<Longrightarrow> \<exists>h \<in> pages. block \<in> blocks (hp_headers s h)"
  using assms by (auto simp: pool_inv_def)

text \<open>An operation on one page.\<close>

lemma pool_inv_page:
  assumes inv: "pool_inv (s, pages, live)" and h: "h \<in> pages"
    and s': "hp_region s' = hp_region s" "\<And>g. g \<noteq> h \<Longrightarrow> hp_headers s' g = hp_headers s g"
      "\<And>x. x \<notin> span (hp_headers s h) \<Longrightarrow> hp_memory s' x = hp_memory s x"
    and span: "span (hp_headers s' h) = span (hp_headers s h)"
    and page: "page_inv s' live' h" and live': "live' - span (hp_headers s h) = live - span (hp_headers s h)"
  shows "pool_inv (s', pages, live')"
proof -
  note I = pool_invD [OF inv]
  have others: "page_inv s' live' g" if "g \<in> pages" "g \<noteq> h" for g
  proof (rule page_inv_frame [OF I(2) [OF that(1)] s'(1) s'(2) [OF that(2)]])
    have d: "span (hp_headers s g) \<inter> span (hp_headers s h) = {}"
      using spans_disjoint [OF I(1) I(2) [OF that(1)] I(2) [OF h] that(2)] .
    then show "hp_memory s' x = hp_memory s x" if "x \<in> span (hp_headers s g)" for x using s'(3) that by blast
    from d live' show "live' \<inter> span (hp_headers s g) = live \<inter> span (hp_headers s g)" by blast
  qed
  have "\<exists>g \<in> pages. block \<in> blocks (hp_headers s' g)" if b: "block \<in> live'" for block
  proof (cases "block \<in> span (hp_headers s h)")
    case True
    from page obtain ls rs where "page_wf (hp_memory s') (hp_headers s' h) (live' \<inter> span (hp_headers s' h)) ls rs"
      by (rule page_invE) blast
    from page_wfD(6) [OF this] True b span have "block \<in> blocks (hp_headers s' h)" by blast
    with h show ?thesis by blast
  next
    case False
    with b live' have "block \<in> live" by blast
    from I(3) [OF this] obtain g where g: "g \<in> pages" "block \<in> blocks (hp_headers s g)" by blast
    have "g \<noteq> h" using False g(2) block_span page_invE [OF I(2) [OF h]] by metis
    with g s'(2) [of g] have "block \<in> blocks (hp_headers s' g)" by simp
    with g(1) show ?thesis by blast
  qed
  with others page h I(1) s'(1) show ?thesis by (auto simp: pool_inv_def)
qed

text \<open>The page of a held block.\<close>

lemma held_block:
  assumes "pool_inv (s, pages, live)" "block \<in> live"
  shows "header_of_block s block \<in> pages" "block \<in> blocks (hp_headers s (header_of_block s block))"
    "page_inv s live (header_of_block s block)"
proof -
  note I = pool_invD [OF assms(1)]
  obtain h where h: "h \<in> pages" "block \<in> blocks (hp_headers s h)" using I(3) [OF assms(2)] by blast
  have "block \<in> span (hp_headers s h)" using page_invE [OF I(2) [OF h(1)]] block_span h(2) by metis
  then have "header_of_block s block = h" using header_of_span [OF I(1) I(2) [OF h(1)]] by simp
  with h I(2) show "header_of_block s block \<in> pages" "block \<in> blocks (hp_headers s (header_of_block s block))"
    "page_inv s live (header_of_block s block)" by auto
qed

text \<open>A page invariant from that of its header.\<close>

lemma page_invI:
  assumes "page_inv s live h" "hp_region s' = hp_region s"
    "page_start (hp_headers s' h) = page_start (hp_headers s h)"
    "page_class (hp_headers s' h) = page_class (hp_headers s h)"
    "page_wf (hp_memory s') (hp_headers s' h) (live' \<inter> span (hp_headers s' h)) ls rs"
  shows "page_inv s' live' h"
  using assms by (auto simp: page_inv_def Let_def)

lemma store_fields [simp]:
  "hp_region (put_header h p s) = hp_region s" "hp_memory (put_header h p s) = hp_memory s"
  "hp_headers (put_header h p s) = (hp_headers s)(h := p)"
  "hp_region (write_word a x s) = hp_region s" "hp_memory (write_word a x s) = (hp_memory s)(a := x)"
  "hp_headers (write_word a x s) = hp_headers s" "hp_queues (put_header h p s) = hp_queues s"
  "hp_queues (write_word a x s) = hp_queues s"
  by (simp_all add: put_header_def write_word_def)

subsection \<open>Every step keeps the invariant\<close>

lemma inv_alloc:
  assumes inv: "pool_inv (s, pages, live)" and h: "h \<in> pages" and r: "page_alloc h s = (s', Some block)"
  shows "pool_inv (s', pages, insert block live) \<and> block \<notin> live \<and> block \<in> blocks (hp_headers s' h) \<and>
    header_geometry (hp_headers s' h) \<and> block_size (hp_headers s' h) = block_size (hp_headers s h) \<and>
    page_class (hp_headers s' h) = page_class (hp_headers s h)"
proof -
  note I = pool_invD [OF inv]
  let ?p = "hp_headers s h" and ?p' = "hp_headers s' h"
  obtain ls rs where W: "page_wf (hp_memory s) ?p (live \<inter> span ?p) ls rs"
    using I(2) [OF h] by (rule page_invE) blast
  have f: "page_start ?p' = page_start ?p" "page_end ?p' = page_end ?p" "page_class ?p' = page_class ?p"
    "block_size ?p' = block_size ?p" "hp_region s' = hp_region s" "hp_memory s' = hp_memory s"
    "\<And>g. g \<noteq> h \<Longrightarrow> hp_headers s' g = hp_headers s g"
    using r by (auto simp: page_alloc_def Let_def split: if_splits)
  have span: "span ?p' = span ?p" by (simp add: span_def f)
  have "block \<notin> live \<inter> span ?p \<and> block \<in> blocks ?p' \<and>
    (\<exists>ls rs. page_wf (hp_memory s) ?p' (insert block (live \<inter> span ?p)) ls rs)"
  proof (cases "local_free ?p = 0")
    case True
    then have "bump ?p + block_size ?p \<le> page_end ?p" "block = bump ?p"
      "?p' = ?p\<lparr>bump := bump ?p + block_size ?p, page_used := page_used ?p + 1\<rparr>"
      using r by (auto simp: page_alloc_def Let_def split: if_splits)
    with page_alloc_bump [OF W True] page_wfD(6) [OF W] show ?thesis by auto
  next
    case False
    then have "block = local_free ?p"
      "?p' = ?p\<lparr>local_free := hp_memory s (local_free ?p), page_used := page_used ?p + 1\<rparr>"
      using r by (auto simp: page_alloc_def Let_def split: if_splits)
    with page_alloc_pop [OF W False] same_geometry(2) [of ?p' ?p] show ?thesis by auto
  qed
  then obtain ls' rs' where b: "block \<notin> live \<inter> span ?p" "block \<in> blocks ?p'"
    and W': "page_wf (hp_memory s) ?p' (insert block (live \<inter> span ?p)) ls' rs'" by blast
  note g = page_wfD(1) [OF W']
  have bs: "block \<in> span ?p" using block_span [OF g b(2)] span by simp
  then have "insert block live \<inter> span ?p' = insert block (live \<inter> span ?p)" using span by auto
  with W' f(6) have "page_inv s' (insert block live) h"
    by (intro page_invI [OF I(2) [OF h] f(5,1,3)]) simp
  moreover have "insert block live - span ?p = live - span ?p" using bs by auto
  ultimately have "pool_inv (s', pages, insert block live)"
    using f(6,7) by (intro pool_inv_page [OF inv h f(5) _ _ span]) auto
  with b bs g f(3,4) show ?thesis by auto
qed


lemma inv_free:
  assumes inv: "pool_inv (s, pages, live)" and b: "block \<in> live"
    and r: "local_free_block block (header_of_block s block) s = (s', cold)"
  shows "pool_inv (s', pages, live - {block})"
proof -
  define h where "h = header_of_block s block"
  note I = pool_invD [OF inv] and H = held_block [OF inv b, folded h_def]
  let ?p = "hp_headers s h" and ?p' = "hp_headers s' h"
  obtain ls rs where W: "page_wf (hp_memory s) ?p (live \<inter> span ?p) ls rs"
    using H(3) by (rule page_invE) blast
  have bs: "block \<in> span ?p" using block_span [OF page_wfD(1) [OF W] H(2)] .
  have p': "?p' = ?p\<lparr>local_free := block, page_used := wrapping_sub_u32 (page_used ?p) 1\<rparr>"
    and s': "hp_region s' = hp_region s" "hp_memory s' = (hp_memory s)(block := local_free ?p)"
      "\<And>g. g \<noteq> h \<Longrightarrow> hp_headers s' g = hp_headers s g"
    using r by (auto simp: local_free_block_def Let_def h_def [symmetric])
  have span: "span ?p' = span ?p" by (simp add: span_def p')
  have "page_wf (hp_memory s') ?p' ((live - {block}) \<inter> span ?p') (block # ls) rs"
    using local_free_ok [OF W, of block] b bs unfolding s'(2) p' [symmetric] span by (simp add: Int_Diff Diff_Int_distrib2)
  then have "page_inv s' (live - {block}) h"
    by (intro page_invI [OF H(3) s'(1)]) (auto simp: p')
  moreover have "live - {block} - span ?p = live - span ?p" using bs by auto
  ultimately show ?thesis
    using s' bs by (intro pool_inv_page [OF inv H(1) s'(1) _ _ span]) auto
qed

lemma inv_remote_free:
  assumes inv: "pool_inv (s, pages, live)" and b: "block \<in> live"
  shows "pool_inv (remote_free block (header_of_block s block) s, pages, live - {block})"
proof -
  define h where "h = header_of_block s block"
  define s' where "s' = remote_free block h s"
  note I = pool_invD [OF inv] and H = held_block [OF inv b, folded h_def]
  let ?p = "hp_headers s h" and ?p' = "hp_headers s' h"
  obtain ls rs where W: "page_wf (hp_memory s) ?p (live \<inter> span ?p) ls rs"
    using H(3) by (rule page_invE) blast
  have bs: "block \<in> span ?p" using block_span [OF page_wfD(1) [OF W] H(2)] .
  have p': "?p' = ?p\<lparr>remote_head := block\<rparr> \<or> (\<exists>x y. ?p' = ?p\<lparr>remote_head := block\<rparr>\<lparr>owner_state := x, next_queued := y\<rparr>)"
    and s': "hp_region s' = hp_region s" "hp_memory s' = (hp_memory s)(block := remote_head ?p)"
      "\<And>g. g \<noteq> h \<Longrightarrow> hp_headers s' g = hp_headers s g"
    by (auto simp: s'_def remote_free_def Let_def)
  have f: "page_start ?p' = page_start ?p" "page_end ?p' = page_end ?p" "page_class ?p' = page_class ?p"
    using p' by auto
  have span: "span ?p' = span ?p" by (simp add: span_def f)
  have "page_wf (hp_memory s') (?p\<lparr>remote_head := block\<rparr>) ((live - {block}) \<inter> span ?p') ls (block # rs)"
    using remote_push_ok [OF W, of block] b bs unfolding s'(2) span by (simp add: Int_Diff Diff_Int_distrib2)
  then have "page_wf (hp_memory s') ?p' ((live - {block}) \<inter> span ?p') ls (block # rs)"
    using p' page_wf_queue by auto
  then have "page_inv s' (live - {block}) h" by (rule page_invI [OF H(3) s'(1) f(1,3)])
  moreover have "live - {block} - span ?p = live - span ?p" using bs by auto
  ultimately have "pool_inv (s', pages, live - {block})"
    using s' bs by (intro pool_inv_page [OF inv H(1) s'(1) _ _ span]) auto
  then show ?thesis by (simp add: s'_def h_def)
qed

lemma inv_absorb:
  assumes inv: "pool_inv (s, pages, live)" and h: "h \<in> pages"
  shows "\<exists>s' n. absorb_remote h s = Some (s', n) \<and> pool_inv (s', pages, live) \<and> remote_head (hp_headers s' h) = 0 \<and>
    (remote_head (hp_headers s h) \<noteq> 0 \<longrightarrow> 0 < n)"
proof -
  note I = pool_invD [OF inv]
  let ?p = "hp_headers s h"
  obtain ls rs where W: "page_wf (hp_memory s) ?p (live \<inter> span ?p) ls rs"
    using I(2) [OF h] by (rule page_invE) blast
  note D = page_wfD [OF W]
  show ?thesis
  proof (cases "rs = []")
    case True
    with D(3) have r: "remote_head ?p = 0" by simp
    then have "hp_headers (put_header h (?p\<lparr>remote_head := 0\<rparr>) s) = hp_headers s" by auto
    then have "pool_inv (put_header h (?p\<lparr>remote_head := 0\<rparr>) s, pages, live)"
      using inv I(2) [OF h] h by (intro pool_inv_page [OF inv h]) (auto intro: page_inv_frame)
    with r show ?thesis by (auto simp: absorb_remote_def Let_def)
  next
    case False
    define s' where "s' = put_header h (?p\<lparr>remote_head := 0, local_free := remote_head ?p,
        page_used := wrapping_sub_u32 (page_used ?p) (length rs)\<rparr>) (write_word (last rs) (local_free ?p) s)"
    let ?p' = "hp_headers s' h"
    have r: "remote_head ?p \<noteq> 0" using D(3) False by (cases rs) auto
    have a: "absorb_remote h s = Some (s', length rs)"
      using r chain_end_walk [OF D(3) False, of 1] by (simp add: absorb_remote_def Let_def s'_def)
    have p': "?p' = ?p\<lparr>remote_head := 0, local_free := remote_head ?p,
        page_used := wrapping_sub_u32 (page_used ?p) (length rs)\<rparr>" by (simp add: s'_def)
    have m: "hp_memory s' = (hp_memory s)(last rs := local_free ?p)" "hp_region s' = hp_region s"
      by (simp_all add: s'_def)
    have f: "page_start ?p' = page_start ?p" "page_end ?p' = page_end ?p" "page_class ?p' = page_class ?p"
      by (simp_all add: p')
    have span: "span ?p' = span ?p" by (simp add: span_def f)
    have "last rs \<in> set (ls @ rs)" using False by simp
    with D(6) have "last rs \<in> blocks ?p" by blast
    then have l: "last rs \<in> span ?p" by (rule block_span [OF D(1)])
    have "page_wf (hp_memory s') ?p' (live \<inter> span ?p') (rs @ ls) []"
      using absorb_ok [OF W False] unfolding m p' [symmetric] span .
    then have "page_inv s' live h" by (rule page_invI [OF I(2) [OF h] m(2) f(1,3)])
    then have "pool_inv (s', pages, live)"
      using l m by (intro pool_inv_page [OF inv h m(2) _ _ span]) (auto simp: s'_def)
    with a p' False show ?thesis by simp
  qed
qed

lemma inv_write:
  assumes inv: "pool_inv (s, pages, live)" and b: "block \<in> live" and a: "block \<le> a" "a < block + block_len s block"
  shows "pool_inv (write_word a x s, pages, live)"
proof -
  define h where "h = header_of_block s block"
  note I = pool_invD [OF inv] and H = held_block [OF inv b, folded h_def]
  let ?p = "hp_headers s h" and ?s = "write_word a x s"
  obtain ls rs where W: "page_wf (hp_memory s) ?p (live \<inter> span ?p) ls rs"
    using H(3) by (rule page_invE) blast
  note D = page_wfD [OF W]
  have len: "block_len s block = block_size ?p" by (simp add: block_len_def h_def)
  have as: "a \<in> span ?p" using blocks_span [OF D(1) H(2)] a len by auto
  have "block \<in> live \<inter> span ?p" using b block_span [OF D(1) H(2)] by simp
  then have free: "y \<noteq> a" if "y \<in> set (ls @ rs)" for y
  proof -
    have "y \<in> blocks ?p" "block \<noteq> y" using D(5,6) that \<open>block \<in> live \<inter> span ?p\<close> by blast+
    from blocks_apart [OF D(1) H(2) this] a len show ?thesis by auto
  qed
  have "chained (hp_memory ?s) c ys \<longleftrightarrow> chained (hp_memory s) c ys" if "set ys \<subseteq> set (ls @ rs)" for c ys
    using that free by (intro chained_cong) auto
  then have "page_wf (hp_memory ?s) (hp_headers ?s h) (live \<inter> span (hp_headers ?s h)) ls rs"
    using W by (simp add: page_wf_def)
  then have "page_inv ?s live h" using page_invI [OF H(3), of ?s live ls rs] by simp
  then show ?thesis using as by (intro pool_inv_page [OF inv H(1)]) auto
qed


lemma fresh_header_geometry:
  assumes "region_ok r" "placed r page cls" "cls < NUM_CLASSES"
  shows "header_geometry (fresh_header page cls)" "blocks (fresh_header page cls) = {}"
    "page_wf m (fresh_header page cls) {} [] []"
proof -
  let ?p = "fresh_header page cls"
  have bytes: "page_bytes ?p = (if cls < NUM_SMALL_CLASSES then SMALL_PAGE_SIZE else MEDIUM_PAGE_SIZE)"
    by (simp add: page_bytes_def fresh_header_def Let_def)
  have f: "page_start ?p = page" "page_class ?p = cls" "block_size ?p = CLASS_SIZES ! cls"
    "page_end ?p = page + page_bytes ?p" "bump ?p = first_block ?p"
    by (simp_all add: first_block_def bytes) (simp_all add: fresh_header_def Let_def)
  then have n: "bumped ?p = 0" by (simp add: bumped_def)
  then show e: "blocks ?p = {}" by (simp add: blocks_def)
  have "0 < page" "page mod page_bytes ?p = 0"
    using assms(1,2) page_bounds(1) [OF assms(1) placed_page [OF assms(2)]] region_okD(1) [OF assms(1)]
    by (auto simp: placed_def small_page_def medium_page_def bytes split: if_splits)
  moreover have "page_color page n \<le> page_bytes ?p" for n
  proof -
    have "page div n mod COLORS \<le> 15" using mod_less_divisor [of COLORS "page div n"] by (simp add: COLORS_def)
    then have "page_color page n \<le> 15 * 64" unfolding page_color_def COLOR_STEP_def by (rule mult_le_mono1)
    then show ?thesis by (simp add: bytes heap_constants)
  qed
  ultimately show "header_geometry ?p"
    unfolding header_geometry_def n f using assms(3) by (simp add: block_at_def first_block_def f)
  then show "page_wf m ?p {} [] []"
    using e by (simp add: page_wf_def used_extra_def) (simp add: fresh_header_def Let_def heap_constants
        LISTING_NONE_def LISTING_CURRENT_def RETIRED_def)
qed

lemma inv_init:
  assumes inv: "pool_inv (s, pages, live)" and cls: "cls < NUM_CLASSES" "placed (hp_region s) page cls"
    and r: "init_page page cls s = (s', h)" "h \<notin> pages"
  shows "pool_inv (s', insert h pages, live)"
proof -
  note I = pool_invD [OF inv]
  let ?p = "fresh_header page cls"
  have s': "s' = put_header h ?p s" "h = header_of (hp_region s) page" using r(1) by (auto simp: init_page_def Let_def)
  note F = fresh_header_geometry [OF I(1) cls(2,1)]
  have st: "page_start ?p = page" "page_class ?p = cls" by (simp_all add: fresh_header_def Let_def)
  have "header_of_block s x = h" if "x \<in> span ?p" for x
    using that page_start_span [OF I(1) placed_page [OF cls(2)], of x] span_page_span [OF F(1)] cls(2) st
    by (simp add: header_of_block_def page_header_at_def s'(2))
  then have none: "live \<inter> span ?p = {}" using held_block(1) [OF inv] r(2) by blast
  have "page_inv s' live h" using cls(2) F(3) none st by (auto simp: page_inv_def Let_def s')
  moreover have "page_inv s' live g" if "g \<in> pages" for g
    using that r(2) by (intro page_inv_frame [OF I(2) [OF that]]) (auto simp: s'(1))
  moreover have "\<exists>g \<in> pages. block \<in> blocks (hp_headers s' g)" if "block \<in> live" for block
    using I(3) [OF that] r(2) by (auto simp: s'(1))
  ultimately show ?thesis using I(1) by (auto simp: pool_inv_def s'(1))
qed

lemma inv_release:
  assumes inv: "pool_inv (s, pages, live)" and free: "\<forall>block \<in> live. header_of_block s block \<noteq> h"
  shows "pool_inv (s, pages - {h}, live)"
proof -
  have "\<exists>g \<in> pages - {h}. block \<in> blocks (hp_headers s g)" if "block \<in> live" for block
    using held_block(1,2) [OF inv that] free that by blast
  then show ?thesis using inv by (simp add: pool_inv_def)
qed

lemma pool_step_inv: "pool_step c c' \<Longrightarrow> pool_inv c \<Longrightarrow> pool_inv c'"
proof (induction rule: pool_step.induct)
  case (pool_absorb h pages s s' count live)
  then show ?case using inv_absorb [of s pages live h] by auto
qed (auto intro: inv_init inv_alloc [THEN conjunct1] inv_free inv_remote_free inv_release inv_write)

lemma pool_steps_inv: "pool_step\<^sup>*\<^sup>* c c' \<Longrightarrow> pool_inv c \<Longrightarrow> pool_inv c'"
  by (induction rule: rtranclp_induct) (auto intro: pool_step_inv)

lemma pool_inv_empty: "region_ok (hp_region s) \<Longrightarrow> pool_inv (s, {}, {})"
  by (simp add: pool_inv_def)


subsection \<open>Blocks\<close>

definition block_bytes :: "heap_store \<Rightarrow> nat \<Rightarrow> nat set" where
  "block_bytes s block = {block ..< block + block_len s block}"

lemma held_blocks_disjoint:
  assumes inv: "pool_inv (s, pages, live)" and b: "b \<in> live" "c \<in> live" "b \<noteq> c"
  shows "block_bytes s b \<inter> block_bytes s c = {}"
proof -
  note I = pool_invD [OF inv] and B = held_block [OF inv b(1)] and C = held_block [OF inv b(2)]
  obtain gb: "header_geometry (hp_headers s (header_of_block s b))" using B(3) by (rule page_invE) blast
  obtain gc: "header_geometry (hp_headers s (header_of_block s c))" using C(3) by (rule page_invE) blast
  have sb: "block_bytes s b \<subseteq> span (hp_headers s (header_of_block s b))"
    using blocks_span [OF gb B(2)] by (simp add: block_bytes_def block_len_def)
  have sc: "block_bytes s c \<subseteq> span (hp_headers s (header_of_block s c))"
    using blocks_span [OF gc C(2)] by (simp add: block_bytes_def block_len_def)
  show ?thesis
  proof (cases "header_of_block s b = header_of_block s c")
    case True
    with blocks_apart [OF gb B(2) _ b(3)] C(2) show ?thesis
      by (auto simp: block_bytes_def block_len_def)
  next
    case False
    from spans_disjoint [OF I(1) B(3) C(3) this] sb sc show ?thesis by blast
  qed
qed

lemma held_block_inside:
  assumes inv: "pool_inv (s, pages, live)" and b: "b \<in> live"
  shows "block_bytes s b \<subseteq> {rg_base (hp_region s) ..< rg_base (hp_region s) + rg_large_start (hp_region s)}"
proof -
  note I = pool_invD [OF inv] and B = held_block [OF inv b]
  obtain P: "placed (hp_region s) (page_start (hp_headers s (header_of_block s b))) (page_class (hp_headers s (header_of_block s b)))"
    and g: "header_geometry (hp_headers s (header_of_block s b))" using B(3) by (rule page_invE) blast
  note Q = page_bounds [OF I(1) placed_page [OF P]]
  have "block_bytes s b \<subseteq> page_span (hp_region s) (page_start (hp_headers s (header_of_block s b)))"
    using blocks_span [OF g B(2)] span_page_span [OF g P] by (simp add: block_bytes_def block_len_def)
  with Q(1,2) show ?thesis by fastforce
qed

lemma block_aligned:
  assumes "header_geometry p" "x \<in> blocks p" "class_for sz align = Some (page_class p)" "align \<in> {1, 2, 4, 8, 16}"
  shows "sz \<le> block_size p" "x mod align = 0"
proof -
  have best: "best_class (required_align align) sz = Some (page_class p)"
    using assms(3) unfolding class_for_best by (simp split: if_splits)
  then have serves: "serves (required_align align) sz (page_class p)"
    unfolding best_class_def by (auto simp: find_Some_iff)
  have bs: "block_size p = CLASS_SIZES ! page_class p" using assms(1) unfolding header_geometry_def by blast
  then show "sz \<le> block_size p" using serves by (simp add: serves_def)
  have dv: "align dvd required_align align" "required_align align dvd 16"
    using assms(4) by (auto simp: required_align_def)
  have "required_align align dvd block_size p" using serves bs by (simp add: serves_def mod_eq_0_iff_dvd)
  then have a1: "align dvd block_size p" using dv(1) by (rule dvd_trans [rotated])
  have "page_start p mod 16 = 0"
  proof -
    have "page_bytes p dvd page_start p" using assms(1) unfolding header_geometry_def by auto
    moreover have "16 dvd page_bytes p" by (simp add: page_bytes_def heap_constants)
    ultimately show ?thesis using dvd_trans by auto
  qed
  then have a2: "align dvd page_start p" using dv by (meson dvd_trans mod_eq_0_iff_dvd)
  have "16 dvd page_color (page_start p) (page_bytes p)" by (simp add: page_color_def COLOR_STEP_def dvd_mult)
  then have a3: "align dvd page_color (page_start p) (page_bytes p)" using dv by (meson dvd_trans)
  obtain k where "x = block_at p k" using assms(2) by (auto simp: blocks_def)
  then show "x mod align = 0"
    using a1 a2 a3 by (auto simp: block_at_def first_block_def mod_eq_0_iff_dvd intro!: dvd_add dvd_mult)
qed


subsection \<open>Properties\<close>

text \<open>C10. Whatever pages are initialised, allocated from, freed to by owners and other threads,
  drained, emptied and used again, and whatever the program writes into its blocks: two blocks the
  program holds never share a byte, and all of them lie in the page part of the reservation.\<close>

theorem heap_blocks_disjoint:
  assumes "pool_step\<^sup>*\<^sup>* (s0, {}, {}) (s, pages, live)" and "region_ok (hp_region s0)"
  shows "(\<forall>b c. b \<in> live \<and> c \<in> live \<and> b \<noteq> c \<longrightarrow> block_bytes s b \<inter> block_bytes s c = {}) \<and>
    (\<forall>b. b \<in> live \<longrightarrow>
      block_bytes s b \<subseteq> {rg_base (hp_region s) ..< rg_base (hp_region s) + rg_large_start (hp_region s)})"
  using held_blocks_disjoint held_block_inside pool_steps_inv [OF assms(1) pool_inv_empty [OF assms(2)]] by blast

text \<open>A page of the class of 32-byte blocks in the sample region.\<close>

definition sample_store :: heap_store where
  "sample_store = \<lparr>hp_region = sample_region, hp_headers = \<lambda>_. fresh_header 0 0, hp_memory = \<lambda>_. 0, hp_queues = \<lambda>_. 0\<rparr>"

definition sample_page :: nat where "sample_page = 134283264"

lemma sample_region_ok: "region_ok sample_region"
  using publish_range_ok(1) [of 4096 "64 * 2 ^ 30" no_region]
  by (simp add: sample_region_def heap_constants)

lemma sample_placed: "placed sample_region sample_page 3"
  by (simp add: placed_def small_page_def sample_region_def publish_range_def Let_def align_down_def
      next_multiple_of_def heap_constants sample_page_def)

definition sample_header :: nat where "sample_header = header_of sample_region sample_page"

definition one_page :: heap_store where
  "one_page = put_header sample_header (fresh_header sample_page 3) sample_store"

lemma one_page_step: "pool_step (sample_store, {}, {}) (one_page, {sample_header}, {})"
  using pool_init [of 3 sample_store sample_page one_page sample_header "{}" "{}"] sample_placed
  by (simp add: sample_store_def init_page_def Let_def one_page_def sample_header_def heap_constants)

definition one_block :: heap_store where
  "one_block = fst (page_alloc sample_header one_page)"

lemma one_block_alloc: "page_alloc sample_header one_page = (one_block, Some (sample_page + 64))"
  by (simp add: one_block_def page_alloc_def Let_def one_page_def sample_store_def put_header_def fresh_header_def
      sample_page_def page_color_def heap_constants CLASS_SIZES_def)

lemma one_block_steps: "pool_step\<^sup>*\<^sup>* (sample_store, {}, {}) (one_block, {sample_header}, {sample_page + 64})"
  using one_page_step pool_alloc [OF _ one_block_alloc, of "{sample_header}" "{}"]
  by (meson insertI1 rtranclp.rtrancl_into_rtrancl rtranclp.rtrancl_refl)

theorem heap_blocks_disjoint_witness:
  "block_bytes one_block (sample_page + 64) \<subseteq> {rg_base (hp_region one_block) ..<
     rg_base (hp_region one_block) + rg_large_start (hp_region one_block)}"
  using heap_blocks_disjoint [OF one_block_steps] sample_region_ok by (simp add: sample_store_def)

text \<open>C12. A block taken from a page of the class computed for a request is large enough for it and
  aligned for it, was not held, shares no byte with a held block, and leaves the pool in order.\<close>

theorem page_alloc_serves_request:
  assumes "pool_step\<^sup>*\<^sup>* (s0, {}, {}) (s, pages, live)" and "region_ok (hp_region s0)"
    and "h \<in> pages" and "class_for sz align = Some (page_class (hp_headers s h))" and "align \<in> {1, 2, 4, 8, 16}"
    and "page_alloc h s = (s', Some block)"
  shows "sz \<le> block_len s' block \<and> block mod align = 0 \<and> block \<notin> live \<and>
    (\<forall>b \<in> live. block_bytes s' block \<inter> block_bytes s' b = {}) \<and> pool_inv (s', pages, insert block live)"
proof -
  have inv: "pool_inv (s, pages, live)" using pool_steps_inv [OF assms(1) pool_inv_empty [OF assms(2)]] .
  note A = inv_alloc [OF inv assms(3,6)]
  then have inv': "pool_inv (s', pages, insert block live)" and g: "header_geometry (hp_headers s' h)"
    and b: "block \<in> blocks (hp_headers s' h)" by blast+
  have "header_of_block s' block = h"
    using header_of_span [OF pool_invD(1) [OF inv'] pool_invD(2) [OF inv' assms(3)] block_span [OF g b]] .
  then have len: "block_len s' block = block_size (hp_headers s' h)" by (simp add: block_len_def)
  have "class_for sz align = Some (page_class (hp_headers s' h))" using A assms(4) by simp
  note al = block_aligned [OF g b this assms(5)]
  have "block_bytes s' block \<inter> block_bytes s' c = {}" if "c \<in> live" for c
    using held_blocks_disjoint [OF inv', of block c] that A by auto
  with al len A show ?thesis by simp
qed

theorem page_alloc_serves_request_witness:
  "30 \<le> block_len one_block (sample_page + 64) \<and> (sample_page + 64) mod 16 = 0"
proof -
  have s: "pool_step\<^sup>*\<^sup>* (sample_store, {}, {}) (one_page, {sample_header}, {})" using one_page_step by simp
  have "best_class 16 30 = Some 3"
    by (rule best_classI) (auto simp: serves_def CLASS_SIZES_def heap_constants less_Suc_eq numeral_3_eq_3)
  then have "class_for 30 16 = Some 3" by (simp add: class_for_best required_align_def heap_constants)
  then have "class_for 30 16 = Some (page_class (hp_headers one_page sample_header))"
    by (simp add: one_page_def fresh_header_def Let_def)
  from page_alloc_serves_request [OF s _ _ this _ one_block_alloc] sample_region_ok show ?thesis
    by (simp add: sample_store_def)
qed


text \<open>C29. A block comes back: right after the owner frees it the page hands it out again, and a block
  freed by another thread comes back once the owner has collected the remote frees, which always
  ends and leaves no remote block behind.\<close>

theorem freed_block_returns:
  assumes "pool_step\<^sup>*\<^sup>* (s0, {}, {}) (s, pages, live)" and "region_ok (hp_region s0)" and "block \<in> live"
  defines "h \<equiv> header_of_block s block"
  shows "snd (page_alloc h (fst (local_free_block block h s))) = Some block \<and>
    (\<exists>s' n. absorb_remote h (remote_free block h s) = Some (s', n) \<and> 0 < n \<and> remote_head (hp_headers s' h) = 0 \<and>
       snd (page_alloc h s') = Some block)"
proof
  have inv: "pool_inv (s, pages, live)" using pool_steps_inv [OF assms(1) pool_inv_empty [OF assms(2)]] .
  note H = held_block [OF inv assms(3), folded h_def]
  obtain g: "header_geometry (hp_headers s h)" using H(3) by (rule page_invE) blast
  have pos: "block \<noteq> 0" using block_in_page(3) [OF g H(2)] by simp
  then show "snd (page_alloc h (fst (local_free_block block h s))) = Some block"
    by (simp add: local_free_block_def page_alloc_def Let_def)
  have inv': "pool_inv (remote_free block h s, pages, live - {block})"
    using inv_remote_free [OF inv assms(3)] by (simp add: h_def)
  have head: "remote_head (hp_headers (remote_free block h s) h) = block"
    by (simp add: remote_free_def Let_def)
  obtain s' n where a: "absorb_remote h (remote_free block h s) = Some (s', n)" "remote_head (hp_headers s' h) = 0"
    and n: "0 < n"
    using inv_absorb [OF inv' H(1)] head pos by auto
  have l: "local_free (hp_headers s' h) = block"
    using a(1) head pos by (auto simp: absorb_remote_def Let_def split: option.splits if_splits)
  from l pos have "snd (page_alloc h s') = Some block" by (simp add: page_alloc_def Let_def)
  with a n show "\<exists>s' n. absorb_remote h (remote_free block h s) = Some (s', n) \<and> 0 < n \<and>
      remote_head (hp_headers s' h) = 0 \<and> snd (page_alloc h s') = Some block" by blast
qed

theorem freed_block_returns_witness:
  "snd (page_alloc (header_of_block one_block (sample_page + 64))
     (fst (local_free_block (sample_page + 64) (header_of_block one_block (sample_page + 64)) one_block))) =
   Some (sample_page + 64)"
  using freed_block_returns [OF one_block_steps, of "sample_page + 64"] sample_region_ok by (simp add: sample_store_def)

text \<open>A page refuses an allocation only when it has nothing left: every block it was divided
  into is held by the program or waits among the remote frees, and no further block fits behind
  them. The refusal changes nothing.\<close>

theorem page_alloc_refuses_full_page:
  assumes "pool_step\<^sup>*\<^sup>* (s0, {}, {}) (s, pages, live)" and "region_ok (hp_region s0)"
    and "h \<in> pages" and "page_alloc h s = (s', None)"
  shows "s' = s \<and> page_end (hp_headers s h) < bump (hp_headers s h) + block_size (hp_headers s h) \<and>
    (\<exists>waiting. chained (hp_memory s) (remote_head (hp_headers s h)) waiting \<and>
       blocks (hp_headers s h) = (live \<inter> span (hp_headers s h)) \<union> set waiting)"
proof -
  have inv: "pool_inv (s, pages, live)" using pool_steps_inv [OF assms(1) pool_inv_empty [OF assms(2)]] .
  obtain ls rs where W: "page_wf (hp_memory s) (hp_headers s h) (live \<inter> span (hp_headers s h)) ls rs"
    using pool_invD(2) [OF inv assms(3)] by (rule page_invE) blast
  have *: "s' = s" "local_free (hp_headers s h) = 0"
    "page_end (hp_headers s h) < bump (hp_headers s h) + block_size (hp_headers s h)"
    using assms(4) by (auto simp: page_alloc_def Let_def split: if_splits)
  then have "ls = []" using page_wfD(2) [OF W] by (cases ls) auto
  with * page_wfD(3,6) [OF W] show ?thesis by auto
qed

text \<open>The sample page after \<open>n\<close> allocations, up to the 2046 it has room for.\<close>

definition filled_header :: "nat \<Rightarrow> page_header" where
  "filled_header n = (fresh_header sample_page 3)\<lparr>bump := sample_page + 64 + n * 32, page_used := n\<rparr>"

lemma sample_fresh:
  "fresh_header sample_page 3 = filled_header 0" "local_free (filled_header n) = 0" "block_size (filled_header n) = 32"
  "page_end (filled_header n) = sample_page + 65536" "bump (filled_header n) = sample_page + 64 + n * 32"
  by (simp_all add: filled_header_def fresh_header_def Let_def page_color_def sample_page_def heap_constants CLASS_SIZES_def)

lemma sample_fills:
  assumes "n \<le> 2046"
  shows "\<exists>s live. pool_step\<^sup>*\<^sup>* (sample_store, {}, {}) (s, {sample_header}, live) \<and> hp_headers s sample_header = filled_header n"
  using assms
proof (induction n)
  case 0
  have "hp_headers one_page sample_header = filled_header 0" by (simp add: one_page_def sample_fresh(1))
  with one_page_step show ?case by blast
next
  case (Suc n)
  then obtain s live where s: "pool_step\<^sup>*\<^sup>* (sample_store, {}, {}) (s, {sample_header}, live)"
    "hp_headers s sample_header = filled_header n" by auto
  let ?s = "put_header sample_header (filled_header (Suc n)) s"
  have "page_alloc sample_header s = (?s, Some (sample_page + 64 + n * 32))"
    using Suc.prems by (simp add: page_alloc_def Let_def s(2) sample_fresh) (simp add: filled_header_def)
  from pool_alloc [OF _ this, of "{sample_header}" live]
  have "pool_step (s, {sample_header}, live) (?s, {sample_header}, insert (sample_page + 64 + n * 32) live)" by simp
  with s(1) have "pool_step\<^sup>*\<^sup>* (sample_store, {}, {}) (?s, {sample_header}, insert (sample_page + 64 + n * 32) live)" by simp
  moreover have "hp_headers ?s sample_header = filled_header (Suc n)" by simp
  ultimately show ?case by blast
qed

theorem page_alloc_refuses_full_page_witness:
  "\<exists>s live waiting. page_alloc sample_header s = (s, None) \<and>
     blocks (hp_headers s sample_header) = (live \<inter> span (hp_headers s sample_header)) \<union> set waiting"
proof -
  obtain s live where s: "pool_step\<^sup>*\<^sup>* (sample_store, {}, {}) (s, {sample_header}, live)"
    "hp_headers s sample_header = filled_header 2046" using sample_fills [of 2046] by auto
  have r: "page_alloc sample_header s = (s, None)" by (simp add: page_alloc_def Let_def s(2) sample_fresh)
  have "region_ok (hp_region sample_store)" using sample_region_ok by (simp add: sample_store_def)
  from page_alloc_refuses_full_page [OF s(1) this _ r] r show ?thesis by blast
qed

text \<open>One signed test after the decrement of the count tells the free path all it has to know: it
  fires exactly when the page is retired, or is not current and has just lost its last block,
  remote blocks included.\<close>

theorem free_detects_empty_page:
  assumes "pool_step\<^sup>*\<^sup>* (s0, {}, {}) (s, pages, live)" and "region_ok (hp_region s0)" and "block \<in> live"
    and "local_free_block block (header_of_block s block) s = (s', cold)"
  defines "p \<equiv> hp_headers s (header_of_block s block)"
  shows "cold \<longleftrightarrow> RETIRED \<le> page_used p \<or>
    (listing p \<noteq> LISTING_CURRENT \<and> live \<inter> span p = {block} \<and> remote_head p = 0)"
proof -
  have inv: "pool_inv (s, pages, live)" using pool_steps_inv [OF assms(1) pool_inv_empty [OF assms(2)]] .
  note H = held_block [OF inv assms(3)]
  obtain ls rs where W: "page_wf (hp_memory s) p (live \<inter> span p) ls rs"
    using H(3) unfolding p_def by (rule page_invE) blast
  note D = page_wfD [OF W] and U = used_small [OF W] and C = page_wf_counts [OF W]
  have b: "block \<in> live \<inter> span p" using assms(3) block_span [OF D(1)] H(2) by (auto simp: p_def)
  then have pos: "0 < card (live \<inter> span p)" using C(1) by (auto simp: card_gt_0_iff)
  have u: "wrapping_sub_u32 (page_used p) 1 = page_used p - 1" using U pos by (intro wrapping_sub_less) auto
  have cold: "cold \<longleftrightarrow> page_used p - 1 = 0 \<or> 2 ^ 31 \<le> page_used p - 1"
    using assms(4) u by (auto simp: local_free_block_def Let_def p_def [symmetric])
  obtain n where n: "length rs = n" by simp
  then have rs: "remote_head p = 0 \<longleftrightarrow> n = 0" using chained_zero [OF D(3)] by auto
  have one: "live \<inter> span p = {block} \<longleftrightarrow> card (live \<inter> span p) = 1"
    using b card_1_singletonE by (metis card.empty card_insert_disjoint empty_iff finite.emptyI One_nat_def singletonD)
  show ?thesis
  proof (cases "RETIRED \<le> page_used p")
    case True
    then have "RETIRED \<le> used_extra p" by (simp add: used_extra_def)
    with D(7) pos have "2 ^ 31 \<le> page_used p - 1" by (simp add: RETIRED_def)
    with True cold show ?thesis by simp
  next
    case False
    then have "used_extra p = (if listing p = LISTING_CURRENT then 1 else 0)" "page_used p < 2 ^ 31"
      by (simp_all add: used_extra_def CURRENT_BIAS_def RETIRED_def)
    with D(7) pos cold False show ?thesis unfolding rs one n by auto
  qed
qed

theorem free_detects_empty_page_witness:
  "\<exists>s' cold. local_free_block (sample_page + 64) (header_of_block one_block (sample_page + 64)) one_block = (s', cold) \<and>
     (cold \<longleftrightarrow> RETIRED \<le> page_used (hp_headers one_block (header_of_block one_block (sample_page + 64))) \<or>
       (listing (hp_headers one_block (header_of_block one_block (sample_page + 64))) \<noteq> LISTING_CURRENT \<and>
        {sample_page + 64} \<inter> span (hp_headers one_block (header_of_block one_block (sample_page + 64))) = {sample_page + 64} \<and>
        remote_head (hp_headers one_block (header_of_block one_block (sample_page + 64))) = 0))"
proof -
  obtain s' cold where r: "local_free_block (sample_page + 64) (header_of_block one_block (sample_page + 64)) one_block = (s', cold)"
    by fastforce
  have "region_ok (hp_region sample_store)" using sample_region_ok by (simp add: sample_store_def)
  from r free_detects_empty_page [OF one_block_steps this _ r] show ?thesis by blast
qed

end
