(* ===== verification/Calendar.thy ===== *)
theory Calendar
  imports Array_Keys
begin

text \<open>
  The calendar extension (\<open>src/src/stdlib/calendar.rs\<close>): conversions between Julian day numbers
  and the Gregorian, Julian, Hebrew and French Republican calendars, the date of Easter, and the
  PHP functions over them. The conversions compute in \<open>i128\<close> or on values far inside \<open>i64\<close>, so
  they are functions on \<open>int\<close> with Rust's truncating division written \<open>sdiv\<close> and its
  \<open>rem_euclid\<close> by a positive number \<open>mod\<close>; every narrowing (\<open>as i32\<close>, \<open>try_from\<close>) is written out.
\<close>

subsection \<open>Constants\<close>

definition CAL_GREGORIAN :: int where "CAL_GREGORIAN = 0"
definition CAL_JULIAN :: int where "CAL_JULIAN = 1"
definition CAL_JEWISH :: int where "CAL_JEWISH = 2"
definition CAL_FRENCH :: int where "CAL_FRENCH = 3"
definition CAL_NUM_CALS :: int where "CAL_NUM_CALS = 4"

definition UNIX_EPOCH_JD :: int where "UNIX_EPOCH_JD = 2440588"
definition MAX_UNIX_JD :: int where "MAX_UNIX_JD = 106751993607888"
definition FRENCH_EPOCH_JD :: int where "FRENCH_EPOCH_JD = 2375840"
definition FRENCH_LAST_JD :: int where "FRENCH_LAST_JD = 2380952"
definition HEBREW_EPOCH_JD :: int where "HEBREW_EPOCH_JD = 347998"
definition HEBREW_LAST_JD :: int where "HEBREW_LAST_JD = 324542846"
definition HEBREW_LAST_YEAR :: int where "HEBREW_LAST_YEAR = 887605"
definition MAX_EASTER_DAYS_YEAR :: int where "MAX_EASTER_DAYS_YEAR = 7378697629483820644"

lemmas calendar_ids [simp] =
  CAL_GREGORIAN_def CAL_JULIAN_def CAL_JEWISH_def CAL_FRENCH_def CAL_NUM_CALS_def

lemmas calendar_bounds =
  UNIX_EPOCH_JD_def MAX_UNIX_JD_def FRENCH_EPOCH_JD_def FRENCH_LAST_JD_def HEBREW_EPOCH_JD_def
  HEBREW_LAST_JD_def HEBREW_LAST_YEAR_def MAX_EASTER_DAYS_YEAR_def

definition MONTHS_LONG :: "byte_string list" where
  "MONTHS_LONG = [''January'', ''February'', ''March'', ''April'', ''May'', ''June'', ''July'',
     ''August'', ''September'', ''October'', ''November'', ''December'']"

definition MONTHS_SHORT :: "byte_string list" where
  "MONTHS_SHORT = [''Jan'', ''Feb'', ''Mar'', ''Apr'', ''May'', ''Jun'', ''Jul'', ''Aug'', ''Sep'',
     ''Oct'', ''Nov'', ''Dec'']"

definition MONTHS_JEWISH :: "byte_string list" where
  "MONTHS_JEWISH = [''Tishri'', ''Heshvan'', ''Kislev'', ''Tevet'', ''Shevat'', ''Adar I'',
     ''Adar II'', ''Nisan'', ''Iyyar'', ''Sivan'', ''Tammuz'', ''Av'', ''Elul'']"

definition MONTHS_JEWISH_COMMON :: "byte_string list" where
  "MONTHS_JEWISH_COMMON = [''Tishri'', ''Heshvan'', ''Kislev'', ''Tevet'', ''Shevat'', '''',
     ''Adar'', ''Nisan'', ''Iyyar'', ''Sivan'', ''Tammuz'', ''Av'', ''Elul'']"

definition MONTHS_FRENCH :: "byte_string list" where
  "MONTHS_FRENCH = [''Vendemiaire'', ''Brumaire'', ''Frimaire'', ''Nivose'', ''Pluviose'',
     ''Ventose'', ''Germinal'', ''Floreal'', ''Prairial'', ''Messidor'', ''Thermidor'',
     ''Fructidor'', ''Extra'']"

definition WEEKDAYS_LONG :: "byte_string list" where
  "WEEKDAYS_LONG = [''Sunday'', ''Monday'', ''Tuesday'', ''Wednesday'', ''Thursday'', ''Friday'',
     ''Saturday'']"

definition WEEKDAYS_SHORT :: "byte_string list" where
  "WEEKDAYS_SHORT = [''Sun'', ''Mon'', ''Tue'', ''Wed'', ''Thu'', ''Fri'', ''Sat'']"

subsection \<open>Civil dates\<close>

record civil_date =
  cd_month :: int
  cd_day :: int
  cd_year :: int

definition civil :: "int \<Rightarrow> int \<Rightarrow> int \<Rightarrow> civil_date" where
  "civil m d y = \<lparr>cd_month = m, cd_day = d, cd_year = y\<rparr>"

definition INVALID :: civil_date where
  "INVALID = \<lparr>cd_month = 0, cd_day = 0, cd_year = 0\<rparr>"

definition display :: "civil_date \<Rightarrow> byte_string" where
  "display d = show_int (cd_month d) @ ''/'' @ show_int (cd_day d) @ ''/'' @ show_int (cd_year d)"

definition is_valid :: "civil_date \<Rightarrow> bool" where
  "is_valid d \<longleftrightarrow> cd_month d \<noteq> 0"

lemma civil_sel [simp]: "cd_month (civil m d y) = m" "cd_day (civil m d y) = d" "cd_year (civil m d y) = y"
  by (simp_all add: civil_def)

lemma civil_inject [simp]: "civil m d y = civil m' d' y' \<longleftrightarrow> m = m' \<and> d = d' \<and> y = y'"
  by (simp add: civil_def)

lemma civil_surj: "date = civil (cd_month date) (cd_day date) (cd_year date)"
  by (simp add: civil_def)

definition i32_MAX :: int where
  "i32_MAX = 2147483647"

definition in_i32 :: "int \<Rightarrow> bool" where
  "in_i32 x \<longleftrightarrow> - 2147483648 \<le> x \<and> x \<le> i32_MAX"

text \<open>\<open>i64::from(value as i32)\<close>.\<close>

definition direct_calendar_int :: "int \<Rightarrow> int" where
  "direct_calendar_int v = (v + 2147483648) mod 4294967296 - 2147483648"

definition php_year_to_astronomical :: "int \<Rightarrow> int" where
  "php_year_to_astronomical y = (if y < 0 then y + 1 else y)"

definition astronomical_year_to_php :: "int \<Rightarrow> int option" where
  "astronomical_year_to_php y = checked (if y \<le> 0 then y - 1 else y)"

subsection \<open>Gregorian and Julian dates\<close>

definition positive_i64_or_zero :: "int \<Rightarrow> int" where
  "positive_i64_or_zero jd = (if in_i64 jd \<and> 0 < jd then jd else 0)"

definition gregorian_to_jd :: "int \<Rightarrow> int \<Rightarrow> int \<Rightarrow> int" where
  "gregorian_to_jd month day year =
     (if year = 0 \<or> \<not> (1 \<le> month \<and> month \<le> 12) \<or> \<not> (1 \<le> day \<and> day \<le> 31) then 0
      else
        (let astronomical = php_year_to_astronomical year;
             adjustment = (14 - month) sdiv 12;
             y = astronomical + 4800 - adjustment;
             m = month + 12 * adjustment - 3;
             jd = day + (153 * m + 2) sdiv 5 + 365 * y + y sdiv 4 - y sdiv 100 + y sdiv 400 - 32045
         in positive_i64_or_zero jd))"

definition julian_to_jd :: "int \<Rightarrow> int \<Rightarrow> int \<Rightarrow> int" where
  "julian_to_jd month day year =
     (if year = 0 \<or> \<not> (1 \<le> month \<and> month \<le> 12) \<or> \<not> (1 \<le> day \<and> day \<le> 31) then 0
      else
        (let astronomical = php_year_to_astronomical year;
             adjustment = (14 - month) sdiv 12;
             y = astronomical + 4800 - adjustment;
             m = month + 12 * adjustment - 3;
             jd = day + (153 * m + 2) sdiv 5 + 365 * y + y sdiv 4 - 32083
         in positive_i64_or_zero jd))"

text \<open>The common end of both inverse conversions: the year is put into PHP's numbering and must be
  an \<open>i32\<close>.\<close>

definition civil_checked :: "int \<Rightarrow> int \<Rightarrow> int \<Rightarrow> civil_date" where
  "civil_checked month day year =
     (case astronomical_year_to_php year of
        None \<Rightarrow> INVALID
      | Some year \<Rightarrow> if in_i32 year then civil month day year else INVALID)"

definition gregorian_from_jd :: "int \<Rightarrow> civil_date" where
  "gregorian_from_jd jd =
     (if jd \<le> 0 \<or> (i64_MAX - 128179) sdiv 4 < jd then INVALID
      else
        (let a = jd + 32044;
             b = (4 * a + 3) sdiv 146097;
             c = a - (146097 * b) sdiv 4;
             d = (4 * c + 3) sdiv 1461;
             e = c - (1461 * d) sdiv 4;
             m = (5 * e + 2) sdiv 153;
             day = e - (153 * m + 2) sdiv 5 + 1;
             month = m + 3 - 12 * (m sdiv 10);
             year = 100 * b + d - 4800 + m sdiv 10
         in civil_checked month day year))"

definition julian_from_jd :: "int \<Rightarrow> civil_date" where
  "julian_from_jd jd =
     (if jd \<le> 0 \<or> (i64_MAX - 128331) sdiv 4 < jd then INVALID
      else
        (let c = jd + 32082;
             d = (4 * c + 3) sdiv 1461;
             e = c - (1461 * d) sdiv 4;
             m = (5 * e + 2) sdiv 153;
             day = e - (153 * m + 2) sdiv 5 + 1;
             month = m + 3 - 12 * (m sdiv 10);
             year = d - 4800 + m sdiv 10
         in civil_checked month day year))"

subsection \<open>French Republican dates\<close>

definition french_leap_year :: "int \<Rightarrow> bool" where
  "french_leap_year year \<longleftrightarrow> year = 3 \<or> year = 7 \<or> year = 11"

definition french_to_jd :: "int \<Rightarrow> int \<Rightarrow> int \<Rightarrow> int" where
  "french_to_jd month day year =
     (if \<not> (1 \<le> year \<and> year \<le> 14) \<or> \<not> (1 \<le> month \<and> month \<le> 13) \<or> \<not> (1 \<le> day \<and> day \<le> 30) then 0
      else
        (let completed_years = year - 1;
             leap_days = (completed_years + 1) sdiv 4
         in FRENCH_EPOCH_JD + completed_years * 365 + leap_days + (month - 1) * 30 + day - 1))"

text \<open>The loop over the years \<open>1..=14\<close>, with the days left.\<close>

fun french_scan :: "int list \<Rightarrow> int \<Rightarrow> civil_date" where
  "french_scan [] offset = INVALID"
| "french_scan (year # years) offset =
     (let year_days = 365 + (if french_leap_year year then 1 else 0)
      in if offset < year_days then civil (offset sdiv 30 + 1) (offset smod 30 + 1) year
         else french_scan years (offset - year_days))"

definition french_from_jd :: "int \<Rightarrow> civil_date" where
  "french_from_jd jd =
     (if \<not> (FRENCH_EPOCH_JD \<le> jd \<and> jd \<le> FRENCH_LAST_JD) then INVALID
      else french_scan [1..14] (jd - FRENCH_EPOCH_JD))"

subsection \<open>Hebrew dates\<close>

definition hebrew_is_leap_year :: "int \<Rightarrow> bool" where
  "hebrew_is_leap_year year \<longleftrightarrow> (7 * year + 1) mod 19 < 7"

definition hebrew_elapsed_days :: "int \<Rightarrow> int" where
  "hebrew_elapsed_days year =
     (let months = (235 * year - 234) sdiv 19;
          parts = 12084 + 13753 * months;
          day = 29 * months + parts sdiv 25920
      in if (3 * (day + 1)) mod 7 < 3 then day + 1 else day)"

definition hebrew_new_year_delay :: "int \<Rightarrow> int" where
  "hebrew_new_year_delay year =
     (let previous = hebrew_elapsed_days (year - 1);
          current = hebrew_elapsed_days year;
          next = hebrew_elapsed_days (year + 1)
      in if next - current = 356 then 2 else if current - previous = 382 then 1 else 0)"

definition hebrew_new_year :: "int \<Rightarrow> int" where
  "hebrew_new_year year = HEBREW_EPOCH_JD + hebrew_elapsed_days year + hebrew_new_year_delay year"

definition hebrew_year_days :: "int \<Rightarrow> int" where
  "hebrew_year_days year = hebrew_new_year (year + 1) - hebrew_new_year year"

definition hebrew_days_in_month :: "int \<Rightarrow> int \<Rightarrow> int option" where
  "hebrew_days_in_month month year =
     (if \<not> (1 \<le> year \<and> year \<le> HEBREW_LAST_YEAR) then None
      else
        (let year_days = hebrew_year_days year
         in if month = 1 then Some 30
            else if month = 2 then Some (if year_days mod 10 = 5 then 30 else 29)
            else if month = 3 then Some (if year_days mod 10 = 3 then 29 else 30)
            else if month = 4 then Some 29
            else if month = 5 then Some 30
            else if month = 6 then Some (if hebrew_is_leap_year year then 30 else 0)
            else if month = 7 then Some 29
            else if month = 8 then Some 30
            else if month = 9 then Some 29
            else if month = 10 then Some 30
            else if month = 11 then Some 29
            else if month = 12 then Some 30
            else if month = 13 then Some 29
            else None))"

text \<open>The loop of \<open>hebrew_to_jd\<close> over the months before the given one; \<open>None\<close> is its early return.\<close>

fun hebrew_add_months :: "int \<Rightarrow> int list \<Rightarrow> int \<Rightarrow> int option" where
  "hebrew_add_months year [] jd = Some jd"
| "hebrew_add_months year (current # months) jd =
     (case hebrew_days_in_month current year of
        None \<Rightarrow> None
      | Some days \<Rightarrow> hebrew_add_months year months (jd + days))"

definition hebrew_to_jd :: "int \<Rightarrow> int \<Rightarrow> int \<Rightarrow> int" where
  "hebrew_to_jd month day year =
     (if \<not> (1 \<le> year \<and> year \<le> HEBREW_LAST_YEAR) \<or> \<not> (1 \<le> month \<and> month \<le> 13) \<or> \<not> (1 \<le> day \<and> day \<le> 30)
      then 0
      else
        (case hebrew_add_months year [1..month - 1] (hebrew_new_year year) of
           None \<Rightarrow> 0
         | Some jd \<Rightarrow>
             (let jd = jd + (day - 1) in if HEBREW_LAST_JD < jd then 0 else jd)))"

text \<open>The bisection of \<open>hebrew_from_jd\<close>.\<close>

function hebrew_year_search :: "int \<Rightarrow> int \<Rightarrow> int \<Rightarrow> int" where
  "hebrew_year_search jd low high =
     (if low + 1 < high then
        (let middle = low + (high - low) sdiv 2
         in if hebrew_new_year middle \<le> jd then hebrew_year_search jd middle high
            else hebrew_year_search jd low middle)
      else low)"
  by pat_completeness auto
termination
  by (relation "measure (\<lambda>(jd, low, high). nat (high - low))") (auto simp: signed_divide_int_def)

declare hebrew_year_search.simps [simp del]

fun hebrew_month_scan :: "int \<Rightarrow> int list \<Rightarrow> int \<Rightarrow> civil_date" where
  "hebrew_month_scan year [] offset = INVALID"
| "hebrew_month_scan year (month # months) offset =
     (let days = (case hebrew_days_in_month month year of Some days \<Rightarrow> days | None \<Rightarrow> 0)
      in if days = 0 then hebrew_month_scan year months offset
         else if offset < days then civil month (offset + 1) year
         else hebrew_month_scan year months (offset - days))"

definition hebrew_from_jd :: "int \<Rightarrow> civil_date" where
  "hebrew_from_jd jd =
     (if \<not> (HEBREW_EPOCH_JD \<le> jd \<and> jd \<le> HEBREW_LAST_JD) then INVALID
      else
        (let year = hebrew_year_search jd 1 (HEBREW_LAST_YEAR + 1)
         in hebrew_month_scan year [1..13] (jd - hebrew_new_year year)))"

subsection \<open>Dispatch over the calendars\<close>

definition calendar_from_jd :: "int \<Rightarrow> int \<Rightarrow> civil_date" where
  "calendar_from_jd jd calendar =
     (if calendar = CAL_GREGORIAN then gregorian_from_jd jd
      else if calendar = CAL_JULIAN then julian_from_jd jd
      else if calendar = CAL_JEWISH then hebrew_from_jd jd
      else if calendar = CAL_FRENCH then french_from_jd jd
      else INVALID)"

definition calendar_to_jd :: "int \<Rightarrow> int \<Rightarrow> int \<Rightarrow> int \<Rightarrow> int" where
  "calendar_to_jd calendar month day year =
     (let month = direct_calendar_int month; day = direct_calendar_int day;
          year = direct_calendar_int year
      in if calendar = CAL_GREGORIAN then gregorian_to_jd month day year
         else if calendar = CAL_JULIAN then julian_to_jd month day year
         else if calendar = CAL_JEWISH then hebrew_to_jd month day year
         else if calendar = CAL_FRENCH then french_to_jd month day year
         else 0)"

definition weekday :: "int \<Rightarrow> nat" where
  "weekday jd = nat ((jd mod 7 + 1) mod 7)"

text \<open>\<open>months.get(index).copied().unwrap_or("")\<close>.\<close>

definition name_at :: "byte_string list \<Rightarrow> nat \<Rightarrow> byte_string" where
  "name_at names i = (case vec_get names i of Some n \<Rightarrow> n | None \<Rightarrow> '''')"

definition month_name :: "int \<Rightarrow> civil_date \<Rightarrow> bool \<Rightarrow> byte_string" where
  "month_name calendar date short =
     (case Option.bind (checked_sub (cd_month date) 1) usize_try_from of
        None \<Rightarrow> ''''
      | Some index \<Rightarrow>
          if calendar = CAL_GREGORIAN \<or> calendar = CAL_JULIAN then
            (if short then name_at MONTHS_SHORT index else name_at MONTHS_LONG index)
          else if calendar = CAL_JEWISH then
            (let months = (if hebrew_is_leap_year (cd_year date)
                           then MONTHS_JEWISH else MONTHS_JEWISH_COMMON)
             in name_at months index)
          else if calendar = CAL_FRENCH then name_at MONTHS_FRENCH index
          else '''')"

end
