(* ===== verification/Calendar_Civil.thy ===== *)
theory Calendar_Civil
  imports Calendar
begin

text \<open>
  The Gregorian and Julian calendars. The conversions work on years that begin in March
  (\<open>m\<close> counts the months from March, the leap day comes last) and split the days since March
  4801 BC into centuries, years, months and days; the lemmas here show each split is exact.
\<close>

lemma sdiv_nonneg [simp]: "0 \<le> (a::int) \<Longrightarrow> 0 < b \<Longrightarrow> a sdiv b = a div b"
  by (simp add: signed_divide_int_def sgn_if abs_if)

lemma smod_nonneg [simp]: "0 \<le> (a::int) \<Longrightarrow> 0 < b \<Longrightarrow> a smod b = a mod b"
  using signed_modulo_int_def [of a b] by (cases "a = 0") (simp_all add: minus_div_mult_eq_mod)

lemma div_bounds: "0 < (k::int) \<Longrightarrow> k * (n div k) \<le> n \<and> n < k * (n div k) + k"
  using pos_mod_bound [of k n] pos_mod_sign [of k n] by (simp add: minus_mult_div_eq_mod [symmetric])

subsection \<open>The splits\<close>

lemma century_split:
  assumes a: "0 \<le> (a::int)" and b: "b = (4 * a + 3) div 146097" and c: "c = a - (146097 * b) div 4"
  shows "0 \<le> b" "0 \<le> c" "c \<le> 36524" "c = 36524 \<Longrightarrow> b mod 4 = 3" "a = 36524 * b + b div 4 + c"
proof -
  have lo: "146097 * b \<le> 4 * a + 3" and hi: "4 * a + 3 < 146097 * b + 146097"
    using div_bounds [of 146097 "4 * a + 3"] unfolding b by simp_all
  define q s where "q = b div 4" and "s = b mod 4"
  have bq: "b = 4 * q + s" and s: "0 \<le> s" "s < 4" by (simp_all add: q_def s_def)
  have s4: "s = 0 \<or> s = 1 \<or> s = 2 \<or> s = 3" using s by presburger
  have e: "(146097 * b) div 4 = 146097 * q + (146097 * s) div 4"
    unfolding bq using div_mult_self4 [of 4 "146097 * q" "146097 * s"] by (simp add: algebra_simps)
  show "0 \<le> b" using a unfolding b by simp
  show "0 \<le> c" "c \<le> 36524" "c = 36524 \<Longrightarrow> b mod 4 = 3" "a = 36524 * b + b div 4 + c"
    using s4 lo hi unfolding c e q_def [symmetric] s_def [symmetric] unfolding bq by auto
qed

lemma year_split:
  assumes c: "0 \<le> (c::int)" and d: "d = (4 * c + 3) div 1461" and e: "e = c - (1461 * d) div 4"
  shows "0 \<le> d" "0 \<le> e" "e \<le> 365" "e = 365 \<Longrightarrow> d mod 4 = 3" "c = 365 * d + d div 4 + e"
    "c \<le> 36524 \<Longrightarrow> d \<le> 99" "d = 99 \<Longrightarrow> e = 365 \<Longrightarrow> c = 36524"
proof -
  have lo: "1461 * d \<le> 4 * c + 3" and hi: "4 * c + 3 < 1461 * d + 1461"
    using div_bounds [of 1461 "4 * c + 3"] unfolding d by simp_all
  define q s where "q = d div 4" and "s = d mod 4"
  have dq: "d = 4 * q + s" and s: "0 \<le> s" "s < 4" by (simp_all add: q_def s_def)
  have s4: "s = 0 \<or> s = 1 \<or> s = 2 \<or> s = 3" using s by presburger
  have x: "(1461 * d) div 4 = 1461 * q + (1461 * s) div 4"
    unfolding dq using div_mult_self4 [of 4 "1461 * q" "1461 * s"] by (simp add: algebra_simps)
  show "0 \<le> d" using c unfolding d by simp
  show "c \<le> 36524 \<Longrightarrow> d \<le> 99" using lo by linarith
  show "0 \<le> e" "e \<le> 365" "e = 365 \<Longrightarrow> d mod 4 = 3" "c = 365 * d + d div 4 + e"
    using s4 lo hi unfolding e x q_def [symmetric] s_def [symmetric] unfolding dq by auto
  then show "d = 99 \<Longrightarrow> e = 365 \<Longrightarrow> c = 36524" by simp
qed

text \<open>The days of the months of a year that begins in March.\<close>

definition march_days :: "int list" where
  "march_days = [31, 30, 31, 30, 31, 31, 30, 31, 30, 31, 31, 29]"

lemma march_cases:
  "0 \<le> (m::int) \<Longrightarrow> m \<le> 11 \<Longrightarrow> m = 0 \<or> m = 1 \<or> m = 2 \<or> m = 3 \<or> m = 4 \<or> m = 5 \<or> m = 6 \<or> m = 7 \<or>
     m = 8 \<or> m = 9 \<or> m = 10 \<or> m = 11"
  by presburger

lemma month_split:
  assumes e: "0 \<le> (e::int)" "e \<le> 365" and m: "m = (5 * e + 2) div 153"
    and day: "day = e - (153 * m + 2) div 5 + 1"
  shows "0 \<le> m" "m \<le> 11" "1 \<le> day" "day \<le> march_days ! nat m" "m = 11 \<and> day = 29 \<longleftrightarrow> e = 365"
proof -
  have lo: "153 * m \<le> 5 * e + 2" and hi: "5 * e + 2 < 153 * m + 153" 
    using div_bounds [of 153 "5 * e + 2"] unfolding m by simp_all
  show m0: "0 \<le> m" using e unfolding m by simp
  show m1: "m \<le> 11" using lo e by linarith
  show "1 \<le> day" "day \<le> march_days ! nat m" "m = 11 \<and> day = 29 \<longleftrightarrow> e = 365"
    using march_cases [OF m0 m1] lo hi e unfolding day march_days_def by auto
qed

lemma month_join:
  assumes "0 \<le> (m::int)" "m \<le> 11" "1 \<le> day" "day \<le> march_days ! nat m" "e = (153 * m + 2) div 5 + day - 1"
  shows "0 \<le> e" "e \<le> 365" "e = 365 \<longleftrightarrow> m = 11 \<and> day = 29" "(5 * e + 2) div 153 = m"
proof -
  note c = march_cases [OF assms(1,2)]
  show e0: "0 \<le> e" "e \<le> 365" "e = 365 \<longleftrightarrow> m = 11 \<and> day = 29"
    using c assms(3,4) unfolding assms(5) march_days_def by auto
  have "0 \<le> 5 * e + 2 - 153 * m" "5 * e + 2 - 153 * m < 153"
    using c assms(3,4) unfolding assms(5) march_days_def by auto
  then show "(5 * e + 2) div 153 = m" using int_div_pos_eq [of "5 * e + 2" 153 m "5 * e + 2 - 153 * m"] by simp
qed

subsection \<open>Dates of a civil calendar\<close>

text \<open>The reference: a calendar is given by the days of its months (0 for a month a year does not
  have), the number of months and the numbering of its years. \<open>next_date\<close> is the following day.\<close>

definition real_date :: "(int \<Rightarrow> int \<Rightarrow> int) \<Rightarrow> int \<Rightarrow> (int \<Rightarrow> bool) \<Rightarrow> civil_date \<Rightarrow> bool" where
  "real_date month_days months years d \<longleftrightarrow>
     1 \<le> cd_month d \<and> cd_month d \<le> months \<and> 1 \<le> cd_day d \<and>
     cd_day d \<le> month_days (cd_month d) (cd_year d) \<and> years (cd_year d)"

definition next_date :: "(int \<Rightarrow> int \<Rightarrow> int) \<Rightarrow> int \<Rightarrow> (int \<Rightarrow> int) \<Rightarrow> civil_date \<Rightarrow> civil_date" where
  "next_date month_days months next_year d =
     (if cd_day d < month_days (cd_month d) (cd_year d)
      then civil (cd_month d) (cd_day d + 1) (cd_year d)
      else if cd_month d < months
      then civil (if month_days (cd_month d + 1) (cd_year d) = 0 then cd_month d + 2 else cd_month d + 1) 1
             (cd_year d)
      else civil 1 1 (next_year (cd_year d)))"

definition jd_of :: "(int \<Rightarrow> int \<Rightarrow> int \<Rightarrow> int) \<Rightarrow> civil_date \<Rightarrow> int" where
  "jd_of to_jd d = to_jd (cd_month d) (cd_day d) (cd_year d)"

text \<open>What a pair of conversions promises between its first and its last day.\<close>

locale civil_calendar =
  fixes to_jd :: "int \<Rightarrow> int \<Rightarrow> int \<Rightarrow> int"
    and from_jd :: "int \<Rightarrow> civil_date"
    and genuine :: "civil_date \<Rightarrow> bool"
    and tomorrow :: "civil_date \<Rightarrow> civil_date"
    and first_jd last_jd :: int
  assumes real_month: "genuine d \<Longrightarrow> 1 \<le> cd_month d"
    and from_outside: "jd < first_jd \<or> last_jd < jd \<Longrightarrow> from_jd jd = INVALID"
    and from_real: "first_jd \<le> jd \<Longrightarrow> jd \<le> last_jd \<Longrightarrow> genuine (from_jd jd)"
    and to_from: "first_jd \<le> jd \<Longrightarrow> jd \<le> last_jd \<Longrightarrow> jd_of to_jd (from_jd jd) = jd"
    and from_to: "genuine d \<Longrightarrow> first_jd \<le> jd_of to_jd d \<Longrightarrow> jd_of to_jd d \<le> last_jd \<Longrightarrow>
       from_jd (jd_of to_jd d) = d"
    and tomorrow: "genuine d \<Longrightarrow> first_jd \<le> jd_of to_jd d \<Longrightarrow> jd_of to_jd d < last_jd \<Longrightarrow>
       genuine (tomorrow d) \<and> jd_of to_jd (tomorrow d) = jd_of to_jd d + 1"
begin

lemma valid_iff: "is_valid (from_jd jd) \<longleftrightarrow> first_jd \<le> jd \<and> jd \<le> last_jd"
proof (cases "first_jd \<le> jd \<and> jd \<le> last_jd")
  case True
  then show ?thesis using real_month [OF from_real, of jd] by (simp add: is_valid_def)
next
  case False
  then have "from_jd jd = INVALID" by (intro from_outside) auto
  with False show ?thesis by (auto simp: is_valid_def INVALID_def)
qed

lemma from_next: "first_jd \<le> jd \<Longrightarrow> jd < last_jd \<Longrightarrow> from_jd (jd + 1) = tomorrow (from_jd jd)"
  using tomorrow [OF from_real, of jd] from_to [of "tomorrow (from_jd jd)"] to_from [of jd] by simp

text \<open>The conversion is counting: \<open>n\<close> days on from any date are \<open>n\<close> steps to the next day.\<close>

lemma from_steps: "first_jd \<le> jd \<Longrightarrow> jd + int n \<le> last_jd \<Longrightarrow> from_jd (jd + int n) = (tomorrow ^^ n) (from_jd jd)"
proof (induction n)
  case (Suc n)
  then have "from_jd (jd + int n + 1) = tomorrow (from_jd (jd + int n))" by (intro from_next) auto
  with Suc show ?case by (simp add: algebra_simps)
qed simp

lemma from_inject:
  "first_jd \<le> j \<Longrightarrow> j \<le> last_jd \<Longrightarrow> first_jd \<le> k \<Longrightarrow> k \<le> last_jd \<Longrightarrow> from_jd j = from_jd k \<longleftrightarrow> j = k"
  using to_from by metis

end

subsection \<open>Calendars with Roman months\<close>

definition roman_month_days :: "(int \<Rightarrow> bool) \<Rightarrow> int \<Rightarrow> int \<Rightarrow> int" where
  "roman_month_days leap month year =
     (if month = 2 then (if leap (php_year_to_astronomical year) then 29 else 28)
      else if month = 4 \<or> month = 6 \<or> month = 9 \<or> month = 11 then 30 else 31)"

definition php_year :: "int \<Rightarrow> bool" where
  "php_year year \<longleftrightarrow> year \<noteq> 0 \<and> in_i32 year"

definition next_php_year :: "int \<Rightarrow> int" where
  "next_php_year year = (if year = -1 then 1 else year + 1)"

definition march_year :: "int \<Rightarrow> int \<Rightarrow> int" where
  "march_year month year = php_year_to_astronomical year + 4800 - (if month \<le> 2 then 1 else 0)"

definition march_month :: "int \<Rightarrow> int" where
  "march_month month = (if month \<le> 2 then month + 9 else month - 3)"

definition from_march :: "int \<Rightarrow> int \<Rightarrow> int \<Rightarrow> civil_date" where
  "from_march y m day =
     (let a = y - 4800 + m div 10 in civil (m + 3 - 12 * (m div 10)) day (if a \<le> 0 then a - 1 else a))"

lemma roman_month_cases:
  "1 \<le> (m::int) \<Longrightarrow> m \<le> 12 \<Longrightarrow> m = 1 \<or> m = 2 \<or> m = 3 \<or> m = 4 \<or> m = 5 \<or> m = 6 \<or> m = 7 \<or> m = 8 \<or>
     m = 9 \<or> m = 10 \<or> m = 11 \<or> m = 12"
  by presburger

lemma roman_month_days_le: "roman_month_days leap month year \<le> 31"
  by (simp add: roman_month_days_def)

lemma march_bounds: "1 \<le> month \<Longrightarrow> month \<le> 12 \<Longrightarrow> 0 \<le> march_month month \<and> march_month month \<le> 11"
  by (auto simp: march_month_def)

text \<open>Both numberings of the months and years give the same date.\<close>

lemma from_march_of:
  assumes "1 \<le> month" "month \<le> 12" "year \<noteq> 0"
  shows "from_march (march_year month year) (march_month month) day = civil month day year"
  using roman_month_cases [OF assms(1,2)] assms(3)
  by (auto simp: from_march_def march_year_def march_month_def php_year_to_astronomical_def Let_def)

lemma march_of_from:
  fixes y m day :: int
  assumes "0 \<le> m" "m \<le> 11"
  defines "d \<equiv> from_march y m day"
  shows "march_month (cd_month d) = m" "march_year (cd_month d) (cd_year d) = y" "cd_day d = day"
    "1 \<le> cd_month d" "cd_month d \<le> 12" "cd_year d \<noteq> 0"
  using march_cases [OF assms(1,2)]
  by (auto simp: d_def from_march_def march_year_def march_month_def php_year_to_astronomical_def Let_def)

lemma roman_days_march:
  assumes "1 \<le> month" "month \<le> 12" and leap: "\<And>a. leap (a + 4800) = leap a"
  shows "day \<le> roman_month_days leap month year \<longleftrightarrow>
    day \<le> march_days ! nat (march_month month) \<and>
    (march_month month = 11 \<and> day = 29 \<longrightarrow> leap (march_year month year + 1))"
  using roman_month_cases [OF assms(1,2)] leap [of "php_year_to_astronomical year"]
  by (auto simp: roman_month_days_def march_month_def march_days_def march_year_def add.commute)

text \<open>
  \<open>before y\<close> are the days before the March year \<open>y\<close>. A calendar with Roman months differs from
  another in this count, its leap years and where its day 0 lies.
\<close>

abbreviation roman_date :: "(int \<Rightarrow> bool) \<Rightarrow> civil_date \<Rightarrow> bool" where
  "roman_date leap \<equiv> real_date (roman_month_days leap) 12 php_year"

abbreviation roman_next :: "(int \<Rightarrow> bool) \<Rightarrow> civil_date \<Rightarrow> civil_date" where
  "roman_next leap \<equiv> next_date (roman_month_days leap) 12 next_php_year"

locale roman_calendar =
  fixes before :: "int \<Rightarrow> int" and leap :: "int \<Rightarrow> bool" and shift bound last_jd :: int
    and to_jd :: "int \<Rightarrow> int \<Rightarrow> int \<Rightarrow> int" and from_jd :: "int \<Rightarrow> civil_date"
  assumes before_step: "0 \<le> y \<Longrightarrow> before (y + 1) = before y + (if leap (y + 1) then 366 else 365)"
    and leap_shift: "leap (a + 4800) = leap a"
    and to_jd_march: "year \<noteq> 0 \<Longrightarrow> 1 \<le> month \<Longrightarrow> month \<le> 12 \<Longrightarrow> 1 \<le> day \<Longrightarrow> day \<le> 31 \<Longrightarrow>
       to_jd month day year =
         (if 0 \<le> march_year month year
          then positive_i64_or_zero
            (before (march_year month year) + (153 * march_month month + 2) div 5 + day - 1 - shift)
          else 0)"
    and from_jd_march: "1 \<le> jd \<Longrightarrow> jd \<le> bound \<Longrightarrow>
       \<exists>y m day. 0 \<le> y \<and> 0 \<le> m \<and> m \<le> 11 \<and> 1 \<le> day \<and> day \<le> march_days ! nat m \<and>
         (m = 11 \<and> day = 29 \<longrightarrow> leap (y + 1)) \<and>
         jd = before y + (153 * m + 2) div 5 + day - 1 - shift \<and>
         from_jd jd = (if in_i32 (cd_year (from_march y m day)) then from_march y m day else INVALID)"
    and from_jd_bound: "jd < 1 \<or> bound < jd \<Longrightarrow> from_jd jd = INVALID"
    and last: "to_jd 12 31 i32_MAX = last_jd" "1 \<le> last_jd" "last_jd \<le> bound" "bound \<le> i64_MAX"
begin

lemma before_later: "0 \<le> y \<Longrightarrow> before (y + 1) \<le> before (y + 1 + int n)"
proof (induction n)
  case (Suc n)
  have "before (y + 1 + int n) \<le> before (y + 1 + int n + 1)"
    using before_step [of "y + 1 + int n"] Suc.prems by (simp split: if_splits)
  moreover have "y + 1 + int (Suc n) = y + 1 + int n + 1" by simp
  ultimately show ?case using Suc by (metis order_trans)
qed simp

lemma before_less:
  assumes "0 \<le> y" "y < y'"
  shows "before y + (if leap (y + 1) then 366 else 365) \<le> before y'"
  using before_later [OF assms(1), of "nat (y' - y - 1)"] before_step [OF assms(1)] assms(2) by simp

lemma march_unique:
  assumes "0 \<le> y" "0 \<le> y'" "0 \<le> e" "0 \<le> e'" "before y + e = before y' + e'"
    "e < (if leap (y + 1) then 366 else 365)" "e' < (if leap (y' + 1) then 366 else 365)"
  shows "y = y' \<and> e = e'"
proof -
  have "\<not> y < y'" using before_less [of y y'] assms by linarith
  moreover have "\<not> y' < y" using before_less [of y' y] assms by linarith
  ultimately have "y = y'" by simp
  with assms(5) show ?thesis by simp
qed

lemma to_jd_positive:
  assumes "roman_date leap d" "1 \<le> jd_of to_jd d"
  shows "0 \<le> march_year (cd_month d) (cd_year d)"
    "jd_of to_jd d = before (march_year (cd_month d) (cd_year d)) + (153 * march_month (cd_month d) + 2) div 5
       + cd_day d - 1 - shift"
proof -
  have "cd_day d \<le> 31" using assms(1) roman_month_days_le [of leap "cd_month d" "cd_year d"]
    by (simp add: real_date_def)
  with assms show "0 \<le> march_year (cd_month d) (cd_year d)"
    "jd_of to_jd d = before (march_year (cd_month d) (cd_year d)) + (153 * march_month (cd_month d) + 2) div 5
       + cd_day d - 1 - shift"
    by (auto simp: jd_of_def to_jd_march real_date_def php_year_def positive_i64_or_zero_def split: if_splits)
qed

lemma last_march: "last_jd = before (i32_MAX + 4800) + 305 - shift"
  using to_jd_march [of i32_MAX 12 31] last(1,2)
  by (simp add: positive_i64_or_zero_def march_year_def march_month_def php_year_to_astronomical_def i32_MAX_def
      split: if_splits)

text \<open>The year is an \<open>i32\<close> exactly up to the last day.\<close>

lemma year_fits_iff:
  assumes y: "0 \<le> y" and m: "0 \<le> m" "m \<le> 11" and d: "1 \<le> day" "day \<le> march_days ! nat m"
    and lp: "m = 11 \<and> day = 29 \<longrightarrow> leap (y + 1)" and jd: "jd = before y + (153 * m + 2) div 5 + day - 1 - shift"
  shows "in_i32 (cd_year (from_march y m day)) \<longleftrightarrow> jd \<le> last_jd"
proof -
  define e where "e = (153 * m + 2) div 5 + day - 1"
  note E = month_join [OF m d e_def]
  have e: "e < (if leap (y + 1) then 366 else 365)" using E(2,3) lp by force
  have jd': "jd = before y + e - shift" by (simp add: jd e_def)
  have m10: "m div 10 = (if 306 \<le> e then 1 else 0)"
    using march_cases [OF m] d by (auto simp: e_def march_days_def)
  have fits: "in_i32 (cd_year (from_march y m day)) \<longleftrightarrow> y + m div 10 \<le> i32_MAX + 4800"
    using y m10 by (auto simp: from_march_def Let_def in_i32_def i32_MAX_def)
  consider "y < i32_MAX + 4800" | "y = i32_MAX + 4800" | "i32_MAX + 4800 < y" by linarith
  then show ?thesis
  proof cases
    case 1
    then show ?thesis using before_less [OF y 1] e fits m10 by (simp add: jd' last_march split: if_splits)
  next
    case 2
    then show ?thesis using fits m10 by (simp add: jd' last_march)
  next
    case 3
    have "before (i32_MAX + 4800) + 365 \<le> before y"
      using before_less [OF _ 3] by (simp add: i32_MAX_def split: if_splits)
    with 3 show ?thesis using fits m10 E(1) by (simp add: jd' last_march)
  qed
qed

lemma outside:
  assumes "jd < 1 \<or> last_jd < jd"
  shows "from_jd jd = INVALID"
proof (cases "jd < 1 \<or> bound < jd")
  case False
  then obtain y m day where y: "0 \<le> y" "0 \<le> m" "m \<le> 11" "1 \<le> day" "day \<le> march_days ! nat m"
      "m = 11 \<and> day = 29 \<longrightarrow> leap (y + 1)" "jd = before y + (153 * m + 2) div 5 + day - 1 - shift"
    and f: "from_jd jd = (if in_i32 (cd_year (from_march y m day)) then from_march y m day else INVALID)"
    using from_jd_march [of jd] by auto
  show ?thesis using f year_fits_iff [OF y] assms False by simp
qed (rule from_jd_bound)

lemma from_jd_real:
  assumes "1 \<le> jd" "jd \<le> last_jd"
  shows "roman_date leap (from_jd jd) \<and> jd_of to_jd (from_jd jd) = jd"
proof -
  have "jd \<le> bound" using assms last by simp
  then obtain y m day where y: "0 \<le> y" "0 \<le> m" "m \<le> 11" "1 \<le> day" "day \<le> march_days ! nat m"
    and lp: "m = 11 \<and> day = 29 \<longrightarrow> leap (y + 1)" and jd: "jd = before y + (153 * m + 2) div 5 + day - 1 - shift"
    and f: "from_jd jd = (if in_i32 (cd_year (from_march y m day)) then from_march y m day else INVALID)"
    using from_jd_march [OF assms(1)] by blast
  let ?d = "from_march y m day"
  have i: "in_i32 (cd_year ?d)" using year_fits_iff [OF y lp jd] assms(2) by simp
  note M = march_of_from [OF y(2,3), of y day]
  have day: "day \<le> roman_month_days leap (cd_month ?d) (cd_year ?d)"
    using roman_days_march [OF M(4,5), of leap day "cd_year ?d"] leap_shift y(5) lp unfolding M(1,2) by blast
  then have r: "roman_date leap ?d" using M y(4) i by (simp add: real_date_def php_year_def)
  have "in_i64 jd" using assms last by (simp add: in_i64_def i64_MIN_def)
  then have "jd_of to_jd ?d = jd"
    using to_jd_march [OF M(6) M(4,5) y(4)] M y(1) day roman_month_days_le [of leap "cd_month ?d" "cd_year ?d"]
      assms(1) jd by (simp add: jd_of_def positive_i64_or_zero_def)
  with r f i show ?thesis by simp
qed

lemma real_march:
  assumes "roman_date leap d"
  defines "m \<equiv> march_month (cd_month d)"
  shows "0 \<le> m" "m \<le> 11" "1 \<le> cd_day d" "cd_day d \<le> march_days ! nat m"
    "m = 11 \<and> cd_day d = 29 \<longrightarrow> leap (march_year (cd_month d) (cd_year d) + 1)"
  using assms march_bounds [of "cd_month d"] roman_days_march [of "cd_month d" leap "cd_day d" "cd_year d"] leap_shift
  by (auto simp: real_date_def)

lemma to_jd_inject:
  assumes d: "roman_date leap d" "1 \<le> jd_of to_jd d" and d': "roman_date leap d'" "jd_of to_jd d' = jd_of to_jd d"
  shows "d' = d"
proof -
  define e where "e d = (153 * march_month (cd_month d) + 2) div 5 + cd_day d - 1" for d :: civil_date
  have d1: "1 \<le> jd_of to_jd d'" using d d' by simp
  note P = to_jd_positive [OF d] and P' = to_jd_positive [OF d'(1) d1]
  note R = real_march [OF d(1)] and R' = real_march [OF d'(1)]
  note J = month_join [OF R(1-4) e_def [of d]] and J' = month_join [OF R'(1-4) e_def [of d']]
  have len: "e d < (if leap (march_year (cd_month d) (cd_year d) + 1) then 366 else 365)"
    "e d' < (if leap (march_year (cd_month d') (cd_year d') + 1) then 366 else 365)"
    using J(2,3) J'(2,3) R(5) R'(5) by force+
  have "before (march_year (cd_month d') (cd_year d')) + e d' = before (march_year (cd_month d) (cd_year d)) + e d"
    using P(2) P'(2) d'(2) by (simp add: e_def)
  with march_unique [OF P'(1) P(1) J'(1) J(1)] len
  have y: "march_year (cd_month d') (cd_year d') = march_year (cd_month d) (cd_year d)" and e: "e d' = e d" by auto
  have m: "march_month (cd_month d') = march_month (cd_month d)" using J(4) J'(4) e by simp
  then have day: "cd_day d' = cd_day d" using e by (simp add: e_def)
  have f: "from_march (march_year (cd_month x) (cd_year x)) (march_month (cd_month x)) (cd_day x) = x"
    if "roman_date leap x" for x
    using that civil_surj [of x] from_march_of [of "cd_month x" "cd_year x" "cd_day x"]
    by (simp add: real_date_def php_year_def)
  show ?thesis using f [OF d(1)] f [OF d'(1)] y m day by simp
qed

text \<open>The first day of the next month, from the day after the last one.\<close>

lemma month_end:
  assumes "1 \<le> month" "month < 12" "0 \<le> march_year month year"
  shows "before (march_year (month + 1) year) + (153 * march_month (month + 1) + 2) div 5 =
    before (march_year month year) + (153 * march_month month + 2) div 5 + roman_month_days leap month year"
proof (cases "month = 2")
  case True
  have e: "march_year 2 year + 1 = march_year 3 year" by (simp add: march_year_def)
  have "leap (march_year 3 year) = leap (php_year_to_astronomical year)"
    using leap_shift by (simp add: march_year_def)
  then have "before (march_year 3 year) = before (march_year 2 year) + (if leap (php_year_to_astronomical year) then 366 else 365)"
    using before_step [of "march_year 2 year"] assms(3) True e by simp
  with True show ?thesis by (simp add: march_month_def roman_month_days_def)
next
  case False
  have "march_year (month + 1) year = march_year month year"
    using False assms(1) by (simp add: march_year_def)
  with False roman_month_cases [of month] assms show ?thesis
    by (auto simp: march_month_def roman_month_days_def)
qed

lemma year_end:
  "march_year 1 (next_php_year year) = march_year 12 year" if "year \<noteq> 0"
  using that by (auto simp: march_year_def next_php_year_def php_year_to_astronomical_def)

lemma to_jd_at:
  assumes "year \<noteq> 0" "1 \<le> month" "month \<le> 12" "1 \<le> day" "day \<le> 31" "0 \<le> march_year month year"
    and "before (march_year month year) + (153 * march_month month + 2) div 5 + day - 1 - shift = x"
    and "positive_i64_or_zero x = x"
  shows "to_jd month day year = x"
  using to_jd_march [OF assms(1-5)] assms(6-8) by simp

lemma tomorrow_ok:
  assumes d: "roman_date leap d" "1 \<le> jd_of to_jd d" "jd_of to_jd d < last_jd"
  shows "roman_date leap (roman_next leap d) \<and> jd_of to_jd (roman_next leap d) = jd_of to_jd d + 1"
proof -
  obtain m day y where c: "d = civil m day y" using civil_surj by metis
  have r: "1 \<le> m" "m \<le> 12" "1 \<le> day" "day \<le> roman_month_days leap m y" "y \<noteq> 0" "in_i32 y"
    using d(1) by (auto simp: c real_date_def php_year_def)
  have L: "28 \<le> roman_month_days leap m' y'" "roman_month_days leap m' y' \<le> 31" for m' y'
    by (simp_all add: roman_month_days_def)
  note P = to_jd_positive [OF d(1,2), unfolded c civil_sel]
  have "in_i64 (jd_of to_jd d + 1)" using d(2,3) last by (simp add: in_i64_def i64_MIN_def)
  then have pos: "positive_i64_or_zero (jd_of to_jd d + 1) = jd_of to_jd d + 1"
    using d(2) by (simp add: positive_i64_or_zero_def)
  consider (day) "day < roman_month_days leap m y" | (month) "day = roman_month_days leap m y" "m < 12"
    | (year) "day = roman_month_days leap m y" "m = 12" using r by linarith
  then show ?thesis
  proof cases
    case day
    then have n: "roman_next leap d = civil m (day + 1) y" by (simp add: next_date_def c)
    have "day + 1 \<le> 31" using day L [of m y] by linarith
    then have "to_jd m (day + 1) y = jd_of to_jd d + 1"
      using P pos r by (intro to_jd_at) (simp_all add: c)
    with n day r show ?thesis by (simp add: real_date_def php_year_def jd_of_def)
  next
    case month
    then have n: "roman_next leap d = civil (m + 1) 1 y"
      using L [of "m + 1" y] by (auto simp: next_date_def c)
    have "0 \<le> march_year (m + 1) y" using P(1) by (auto simp: march_year_def split: if_splits)
    then have "to_jd (m + 1) 1 y = jd_of to_jd d + 1"
      using month_end [OF r(1) month(2) P(1)] P(2) pos r month by (intro to_jd_at) (simp_all add: c)
    with n month r L [of "m + 1" y] show ?thesis by (auto simp: real_date_def php_year_def jd_of_def)
  next
    case year
    then have d31: "day = 31" by (simp add: roman_month_days_def)
    have n: "roman_next leap d = civil 1 1 (next_php_year y)" using year by (simp add: next_date_def c)
    have "y \<noteq> i32_MAX" using d(3) last(1) year d31 by (auto simp: c jd_of_def)
    then have y: "next_php_year y \<noteq> 0" "in_i32 (next_php_year y)"
      using r(5,6) by (auto simp: next_php_year_def in_i32_def i32_MAX_def)
    have "to_jd 1 1 (next_php_year y) = jd_of to_jd d + 1"
      using P pos year d31 year_end [OF r(5)] y(1) by (intro to_jd_at) (simp_all add: march_month_def c)
    with n y L [of 1 "next_php_year y"] show ?thesis by (simp add: real_date_def php_year_def jd_of_def)
  qed
qed

end

sublocale roman_calendar \<subseteq> civil_calendar to_jd from_jd "roman_date leap" "roman_next leap" 1 last_jd
proof
  show "roman_date leap d \<Longrightarrow> 1 \<le> cd_month d" for d by (simp add: real_date_def)
  show "roman_date leap d \<Longrightarrow> 1 \<le> jd_of to_jd d \<Longrightarrow> jd_of to_jd d \<le> last_jd \<Longrightarrow> from_jd (jd_of to_jd d) = d" for d
    using from_jd_real [of "jd_of to_jd d"] to_jd_inject [of d] by blast
qed (simp_all add: from_jd_real outside tomorrow_ok)

subsection \<open>The Gregorian and the Julian calendar\<close>

definition gregorian_leap :: "int \<Rightarrow> bool" where
  "gregorian_leap a \<longleftrightarrow> a mod 4 = 0 \<and> (a mod 100 \<noteq> 0 \<or> a mod 400 = 0)"

definition julian_leap :: "int \<Rightarrow> bool" where
  "julian_leap a \<longleftrightarrow> a mod 4 = 0"

definition gregorian_before :: "int \<Rightarrow> int" where
  "gregorian_before y = 365 * y + y div 4 - y div 100 + y div 400"

definition julian_before :: "int \<Rightarrow> int" where
  "julian_before y = 365 * y + y div 4"

text \<open>31 December of the last year an \<open>i32\<close> holds.\<close>

definition GREGORIAN_LAST_JD :: int where
  "GREGORIAN_LAST_JD = 784354017364"

definition JULIAN_LAST_JD :: int where
  "JULIAN_LAST_JD = 784370123489"

lemma div_succ:
  assumes "0 < (k::int)"
  shows "(y + 1) div k = y div k + (if (y + 1) mod k = 0 then 1 else 0)"
proof -
  define q r where "q = y div k" and "r = y mod k"
  have y: "y = k * q + r" and r: "0 \<le> r" "r < k" using assms by (simp_all add: q_def r_def)
  show ?thesis
  proof (cases "r + 1 = k")
    case True
    then have "y + 1 = k * (q + 1)" using y by (simp add: algebra_simps)
    with assms show ?thesis by (simp add: q_def [symmetric])
  next
    case False
    then have e: "y + 1 = k * q + (r + 1)" "0 \<le> r + 1" "r + 1 < k" using y r by auto
    then have "(y + 1) div k = q" "(y + 1) mod k = r + 1" by (simp_all add: int_div_pos_eq int_mod_pos_eq)
    moreover have "r + 1 \<noteq> 0" using r by simp
    ultimately show ?thesis unfolding q_def by (simp only: if_False add_0_right)
  qed
qed

lemma mod_multiple: "(y::int) mod 400 = 0 \<Longrightarrow> y mod 100 = 0" "(y::int) mod 100 = 0 \<Longrightarrow> y mod 4 = 0"
  by presburger+

lemma gregorian_before_step:
  "gregorian_before (y + 1) = gregorian_before y + (if gregorian_leap (y + 1) then 366 else 365)"
proof -
  define p q r where "p \<longleftrightarrow> (y + 1) mod 4 = 0" and "q \<longleftrightarrow> (y + 1) mod 100 = 0" and "r \<longleftrightarrow> (y + 1) mod 400 = 0"
  have "r \<longrightarrow> q" "q \<longrightarrow> p" unfolding p_def q_def r_def by (auto dest: mod_multiple)
  moreover have "(y + 1) div 4 = y div 4 + (if p then 1 else 0)" "(y + 1) div 100 = y div 100 + (if q then 1 else 0)"
    "(y + 1) div 400 = y div 400 + (if r then 1 else 0)"
    unfolding p_def q_def r_def by (rule div_succ; simp)+
  ultimately show ?thesis
    unfolding gregorian_before_def gregorian_leap_def p_def [symmetric] q_def [symmetric] r_def [symmetric]
    by (cases p; cases q; cases r) simp_all
qed

lemma julian_before_step:
  "julian_before (y + 1) = julian_before y + (if julian_leap (y + 1) then 366 else 365)"
  using div_succ [of 4 y] unfolding julian_before_def julian_leap_def by (simp split: if_splits)

lemma leap_period: "gregorian_leap (a + 4800) = gregorian_leap a" "julian_leap (a + 4800) = julian_leap a"
proof -
  have "(a + 4800) mod 4 = a mod 4" "(a + 4800) mod 100 = a mod 100" "(a + 4800) mod 400 = a mod 400"
    using mod_mult_self1 [of a 1200 4] mod_mult_self1 [of a 48 100] mod_mult_self1 [of a 12 400] by simp_all
  then show "gregorian_leap (a + 4800) = gregorian_leap a" "julian_leap (a + 4800) = julian_leap a"
    by (simp_all add: gregorian_leap_def julian_leap_def)
qed

lemma sdiv_neg: "(a::int) < 0 \<Longrightarrow> 0 < b \<Longrightarrow> a sdiv b = - ((- a) div b)"
  by (simp add: signed_divide_int_def sgn_if abs_if)

text \<open>Dates in March years before the count begins are far before day 1.\<close>

lemma negative_march_year:
  assumes "y < (0::int)" "m \<le> 11" "day \<le> 31"
  shows "day + (153 * m + 2) div 5 + 365 * y + y sdiv 4 - y sdiv 100 + y sdiv 400 - 32045 \<le> 0"
    "day + (153 * m + 2) div 5 + 365 * y + y sdiv 4 - 32083 \<le> 0"
proof -
  have "0 \<le> (- y) div 4" "0 \<le> (- y) div 400" "(- y) div 100 \<le> - y" "(153 * m + 2) div 5 \<le> 400"
    using assms div_bounds [of 100 "- y"] by (simp_all add: pos_imp_zdiv_nonneg_iff)
  then show "day + (153 * m + 2) div 5 + 365 * y + y sdiv 4 - y sdiv 100 + y sdiv 400 - 32045 \<le> 0"
    "day + (153 * m + 2) div 5 + 365 * y + y sdiv 4 - 32083 \<le> 0"
    using assms sdiv_neg [OF assms(1), of 4] sdiv_neg [OF assms(1), of 100] sdiv_neg [OF assms(1), of 400]
    by linarith+
qed

lemma adjustment_march:
  assumes "1 \<le> month" "month \<le> 12"
  shows "(14 - month) sdiv 12 = (if month \<le> 2 then 1 else 0)"
    "month + 12 * (if month \<le> 2 then 1 else 0) - 3 = march_month month"
  using roman_month_cases [OF assms] by (auto simp: march_month_def)

lemma gregorian_to_jd_march:
  assumes "year \<noteq> 0" "1 \<le> month" "month \<le> 12" "1 \<le> day" "day \<le> 31"
  shows "gregorian_to_jd month day year =
    (if 0 \<le> march_year month year
     then positive_i64_or_zero (gregorian_before (march_year month year) + (153 * march_month month + 2) div 5 + day - 1 - 32044)
     else 0)"
proof -
  let ?y = "march_year month year"
  have m: "0 \<le> march_month month" "march_month month \<le> 11" using march_bounds assms by auto
  have y: "php_year_to_astronomical year + 4800 - (if month \<le> 2 then 1 else 0) = ?y"
    by (simp add: march_year_def)
  have e: "gregorian_to_jd month day year = positive_i64_or_zero (day + (153 * march_month month + 2) div 5
      + 365 * ?y + ?y sdiv 4 - ?y sdiv 100 + ?y sdiv 400 - 32045)"
    using assms m unfolding gregorian_to_jd_def Let_def adjustment_march [OF assms(2,3)] y by simp
  show ?thesis
  proof (cases "0 \<le> ?y")
    case True
    then show ?thesis unfolding e by (simp add: gregorian_before_def algebra_simps)
  next
    case False
    then show ?thesis unfolding e using negative_march_year(1) [of ?y "march_month month" day] m assms
      by (simp add: positive_i64_or_zero_def)
  qed
qed

lemma julian_to_jd_march:
  assumes "year \<noteq> 0" "1 \<le> month" "month \<le> 12" "1 \<le> day" "day \<le> 31"
  shows "julian_to_jd month day year =
    (if 0 \<le> march_year month year
     then positive_i64_or_zero (julian_before (march_year month year) + (153 * march_month month + 2) div 5 + day - 1 - 32082)
     else 0)"
proof -
  let ?y = "march_year month year"
  have m: "0 \<le> march_month month" "march_month month \<le> 11" using march_bounds assms by auto
  have y: "php_year_to_astronomical year + 4800 - (if month \<le> 2 then 1 else 0) = ?y"
    by (simp add: march_year_def)
  have e: "julian_to_jd month day year = positive_i64_or_zero (day + (153 * march_month month + 2) div 5
      + 365 * ?y + ?y sdiv 4 - 32083)"
    using assms m unfolding julian_to_jd_def Let_def adjustment_march [OF assms(2,3)] y by simp
  show ?thesis
  proof (cases "0 \<le> ?y")
    case True
    then show ?thesis unfolding e by (simp add: julian_before_def algebra_simps)
  next
    case False
    then show ?thesis unfolding e using negative_march_year(2) [of ?y "march_month month" day] m assms
      by (simp add: positive_i64_or_zero_def)
  qed
qed

text \<open>The inverse conversions, as a March date and a year.\<close>

lemma civil_checked_march:
  assumes "in_i64 (y - 4801)" "in_i64 (y - 4800 + m div 10)" "0 \<le> m" "m \<le> 11"
  shows "civil_checked (m + 3 - 12 * (m sdiv 10)) day (y - 4800 + m sdiv 10) =
    (if in_i32 (cd_year (from_march y m day)) then from_march y m day else INVALID)"
proof -
  have "in_i64 (if y - 4800 + m div 10 \<le> 0 then y - 4800 + m div 10 - 1 else y - 4800 + m div 10)"
    using assms by (auto simp: in_i64_def)
  then show ?thesis
    using assms(3) by (simp add: civil_checked_def astronomical_year_to_php_def checked_def from_march_def Let_def)
qed

lemma century_year_div:
  assumes "0 \<le> d" "d \<le> (99::int)"
  shows "(100 * b + d) div 100 = b" "(100 * b + d) div 400 = b div 4" "(100 * b + d) div 4 = 25 * b + d div 4"
proof -
  show x: "(100 * b + d) div 100 = b" using assms by (simp add: div_pos_pos_trivial)
  have "(100 * b + d) div 400 = (100 * b + d) div 100 div 4" by (simp add: zdiv_zmult2_eq)
  then show "(100 * b + d) div 400 = b div 4" using x by simp
  show "(100 * b + d) div 4 = 25 * b + d div 4" using div_mult_self4 [of 4 "25 * b" d] by simp
qed

text \<open>The year that follows the last day of a March year with 366 days is a leap year.\<close>

lemma gregorian_leap_last:
  assumes d: "0 \<le> d" "d \<le> 99" and d3: "d mod 4 = 3" and b3: "d = 99 \<Longrightarrow> b mod 4 = 3"
  shows "gregorian_leap (100 * b + d + 1)"
proof -
  have "(100 * b + d + 1) mod 4 = 0" using d3 by presburger
  moreover have "(100 * b + d + 1) mod 400 = 0" if "d = 99"
  proof -
    have "b mod 4 = 3" using b3 that .
    then obtain q where "b = 4 * q + 3" by (metis mult_div_mod_eq)
    then have "100 * b + d + 1 = 400 * (q + 1)" using that by simp
    then show ?thesis by simp
  qed
  moreover have "(100 * b + d + 1) mod 100 \<noteq> 0" if "d \<noteq> 99"
    using that d mod_mult_self4 [of 100 b "d + 1"] by (simp add: add.assoc)
  ultimately show ?thesis unfolding gregorian_leap_def by metis
qed

lemma gregorian_from_jd_march:
  assumes jd: "1 \<le> jd" "jd \<le> 2305843009213661907"
  shows "\<exists>y m day. 0 \<le> y \<and> 0 \<le> m \<and> m \<le> 11 \<and> 1 \<le> day \<and> day \<le> march_days ! nat m \<and>
    (m = 11 \<and> day = 29 \<longrightarrow> gregorian_leap (y + 1)) \<and>
    jd = gregorian_before y + (153 * m + 2) div 5 + day - 1 - 32044 \<and>
    gregorian_from_jd jd = (if in_i32 (cd_year (from_march y m day)) then from_march y m day else INVALID)"
proof -
  define b where "b = (4 * (jd + 32044) + 3) div 146097"
  define c where "c = jd + 32044 - (146097 * b) div 4"
  define d where "d = (4 * c + 3) div 1461"
  define e where "e = c - (1461 * d) div 4"
  define m where "m = (5 * e + 2) div 153"
  define day where "day = e - (153 * m + 2) div 5 + 1"
  have a: "0 \<le> jd + 32044" using jd by simp
  note C = century_split [OF a b_def c_def]
  note Y = year_split [OF C(2) d_def e_def]
  note M = month_split [OF Y(2,3) m_def day_def]
  have d99: "d \<le> 99" using Y(6) C(3) by simp
  have bef: "jd = gregorian_before (100 * b + d) + e - 32044"
    unfolding gregorian_before_def century_year_div [OF Y(1) d99] using C(5) Y(5) by (simp add: algebra_simps)
  have leap: "gregorian_leap (100 * b + d + 1)" if "e = 365"
    using gregorian_leap_last [OF Y(1) d99, of b] Y(4,7) C(4) that by blast
  have y: "0 \<le> 100 * b + d" "100 * b + d \<le> jd + 32044"
    using C(1,2,5) Y(1,5) Y(2) div_bounds [of 4 b] div_bounds [of 4 d] by linarith+
  have i: "in_i64 (100 * b + d - 4801)" "in_i64 (100 * b + d - 4800 + m div 10)"
  proof -
    have "0 \<le> m div 10" "m div 10 \<le> 1" using M(1,2) by linarith+
    with y jd show "in_i64 (100 * b + d - 4801)" "in_i64 (100 * b + d - 4800 + m div 10)"
      by (simp_all add: in_i64_def i64_MIN_def i64_MAX_def)
  qed
  have f: "gregorian_from_jd jd = (if in_i32 (cd_year (from_march (100 * b + d) m day))
       then from_march (100 * b + d) m day else INVALID)"
  proof -
    have sb: "(4 * (jd + 32044) + 3) sdiv 146097 = b" "(146097 * b) sdiv 4 = (146097 * b) div 4"
      using a C(1) by (simp_all add: b_def)
    have sd: "(4 * c + 3) sdiv 1461 = d" "(1461 * d) sdiv 4 = (1461 * d) div 4"
      using C(2) Y(1) by (simp_all add: d_def)
    have se: "(5 * e + 2) sdiv 153 = m" "(153 * m + 2) sdiv 5 = (153 * m + 2) div 5"
      using Y(2) M(1) by (simp_all add: m_def)
    have ng: "\<not> (jd \<le> 0 \<or> (i64_MAX - 128179) sdiv 4 < jd)" using jd by (simp add: i64_MAX_def)
    have "gregorian_from_jd jd = civil_checked (m + 3 - 12 * (m sdiv 10)) day (100 * b + d - 4800 + m sdiv 10)"
      unfolding gregorian_from_jd_def Let_def if_not_P [OF ng] sb c_def [symmetric] sd e_def [symmetric] se
        day_def [symmetric] ..
    then show ?thesis using civil_checked_march [OF i M(1,2)] by simp
  qed
  have lp: "m = 11 \<and> day = 29 \<longrightarrow> gregorian_leap (100 * b + d + 1)" using M(5) leap by simp
  have jd_eq: "jd = gregorian_before (100 * b + d) + (153 * m + 2) div 5 + day - 1 - 32044"
    using bef by (simp add: day_def)
  show ?thesis
    by (intro exI [of _ "100 * b + d"] exI [of _ m] exI [of _ day] conjI) (fact y(1) M(1-4) lp jd_eq f)+
qed

lemma julian_from_jd_march:
  assumes jd: "1 \<le> jd" "jd \<le> 2305843009213661869"
  shows "\<exists>y m day. 0 \<le> y \<and> 0 \<le> m \<and> m \<le> 11 \<and> 1 \<le> day \<and> day \<le> march_days ! nat m \<and>
    (m = 11 \<and> day = 29 \<longrightarrow> julian_leap (y + 1)) \<and>
    jd = julian_before y + (153 * m + 2) div 5 + day - 1 - 32082 \<and>
    julian_from_jd jd = (if in_i32 (cd_year (from_march y m day)) then from_march y m day else INVALID)"
proof -
  define d where "d = (4 * (jd + 32082) + 3) div 1461"
  define e where "e = jd + 32082 - (1461 * d) div 4"
  define m where "m = (5 * e + 2) div 153"
  define day where "day = e - (153 * m + 2) div 5 + 1"
  have c: "0 \<le> jd + 32082" using jd by simp
  note Y = year_split [OF c d_def e_def]
  note M = month_split [OF Y(2,3) m_def day_def]
  have jd_eq: "jd = julian_before d + (153 * m + 2) div 5 + day - 1 - 32082"
    unfolding julian_before_def day_def using Y(5) by (simp add: algebra_simps)
  have lp: "m = 11 \<and> day = 29 \<longrightarrow> julian_leap (d + 1)"
  proof
    assume "m = 11 \<and> day = 29"
    then have "d mod 4 = 3" using M(5) Y(4) by simp
    then show "julian_leap (d + 1)" unfolding julian_leap_def by presburger
  qed
  have "d \<le> jd + 32082" using Y(1,2,5) div_bounds [of 4 d] by linarith
  moreover have "0 \<le> m div 10" "m div 10 \<le> 1" using M(1,2) by linarith+
  ultimately have i: "in_i64 (d - 4801)" "in_i64 (d - 4800 + m div 10)"
    using Y(1) jd by (simp_all add: in_i64_def i64_MIN_def i64_MAX_def)
  have s: "(4 * (jd + 32082) + 3) sdiv 1461 = d" "(1461 * d) sdiv 4 = (1461 * d) div 4"
    "(5 * e + 2) sdiv 153 = m" "(153 * m + 2) sdiv 5 = (153 * m + 2) div 5"
    using c Y(1,2) M(1) by (simp_all add: d_def m_def)
  have ng: "\<not> (jd \<le> 0 \<or> (i64_MAX - 128331) sdiv 4 < jd)" using jd by (simp add: i64_MAX_def)
  have "julian_from_jd jd = civil_checked (m + 3 - 12 * (m sdiv 10)) day (d - 4800 + m sdiv 10)"
    unfolding julian_from_jd_def Let_def if_not_P [OF ng] s(1,2) e_def [symmetric] s(3,4) day_def [symmetric] ..
  then have f: "julian_from_jd jd = (if in_i32 (cd_year (from_march d m day)) then from_march d m day else INVALID)"
    using civil_checked_march [OF i M(1,2)] by simp
  show ?thesis
    by (intro exI [of _ d] exI [of _ m] exI [of _ day] conjI) (fact Y(1) M(1-4) lp jd_eq f)+
qed

interpretation gregorian: roman_calendar gregorian_before gregorian_leap 32044 2305843009213661907
  GREGORIAN_LAST_JD gregorian_to_jd gregorian_from_jd
proof
  show "gregorian_from_jd jd = INVALID" if "jd < 1 \<or> 2305843009213661907 < jd" for jd
  proof -
    have "jd \<le> 0 \<or> (i64_MAX - 128179) sdiv 4 < jd" using that by (auto simp: i64_MAX_def)
    then show ?thesis unfolding gregorian_from_jd_def by (simp only: if_True)
  qed
  show "1 \<le> jd \<Longrightarrow> jd \<le> 2305843009213661907 \<Longrightarrow> \<exists>y m day. 0 \<le> y \<and> 0 \<le> m \<and> m \<le> 11 \<and> 1 \<le> day \<and>
      day \<le> march_days ! nat m \<and> (m = 11 \<and> day = 29 \<longrightarrow> gregorian_leap (y + 1)) \<and>
      jd = gregorian_before y + (153 * m + 2) div 5 + day - 1 - 32044 \<and>
      gregorian_from_jd jd = (if in_i32 (cd_year (from_march y m day)) then from_march y m day else INVALID)" for jd
    by (rule gregorian_from_jd_march)
  show "gregorian_to_jd 12 31 i32_MAX = GREGORIAN_LAST_JD"
    by (simp add: gregorian_to_jd_march march_year_def march_month_def php_year_to_astronomical_def i32_MAX_def
        GREGORIAN_LAST_JD_def gregorian_before_def positive_i64_or_zero_def in_i64_def i64_MIN_def i64_MAX_def)
qed (simp_all add: gregorian_before_step leap_period gregorian_to_jd_march
    GREGORIAN_LAST_JD_def i64_MAX_def)

interpretation julian: roman_calendar julian_before julian_leap 32082 2305843009213661869
  JULIAN_LAST_JD julian_to_jd julian_from_jd
proof
  show "julian_from_jd jd = INVALID" if "jd < 1 \<or> 2305843009213661869 < jd" for jd
  proof -
    have "jd \<le> 0 \<or> (i64_MAX - 128331) sdiv 4 < jd" using that by (auto simp: i64_MAX_def)
    then show ?thesis unfolding julian_from_jd_def by (simp only: if_True)
  qed
  show "1 \<le> jd \<Longrightarrow> jd \<le> 2305843009213661869 \<Longrightarrow> \<exists>y m day. 0 \<le> y \<and> 0 \<le> m \<and> m \<le> 11 \<and> 1 \<le> day \<and>
      day \<le> march_days ! nat m \<and> (m = 11 \<and> day = 29 \<longrightarrow> julian_leap (y + 1)) \<and>
      jd = julian_before y + (153 * m + 2) div 5 + day - 1 - 32082 \<and>
      julian_from_jd jd = (if in_i32 (cd_year (from_march y m day)) then from_march y m day else INVALID)" for jd
    by (rule julian_from_jd_march)
  show "julian_to_jd 12 31 i32_MAX = JULIAN_LAST_JD"
    by (simp add: julian_to_jd_march march_year_def march_month_def php_year_to_astronomical_def i32_MAX_def
        JULIAN_LAST_JD_def julian_before_def positive_i64_or_zero_def in_i64_def i64_MIN_def i64_MAX_def)
qed (simp_all add: julian_before_step leap_period julian_to_jd_march
    JULIAN_LAST_JD_def i64_MAX_def)

end
