(* ===== verification/Calendar_Hebrew.thy ===== *)
theory Calendar_Hebrew
  imports Calendar_Civil
begin

text \<open>
  The Hebrew calendar. The mean new moon of Tishri is a count of parts (1080 to the hour) that grows
  by twelve or thirteen lunations a year; the day it falls on, its postponements and so the lengths of
  the years are computed from it. The case analysis below is over the weekday and the fraction of the
  day of that moon and the leap years around it.
\<close>

subsection \<open>The new moon of Tishri\<close>

definition molad_months :: "int \<Rightarrow> int" where
  "molad_months y = (235 * y - 234) div 19"

definition molad_day :: "int \<Rightarrow> int" where
  "molad_day y = (12084 + 765433 * molad_months y) div 25920"

definition molad_parts :: "int \<Rightarrow> int" where
  "molad_parts y = (12084 + 765433 * molad_months y) mod 25920"

definition postponed :: "int \<Rightarrow> int" where
  "postponed d = (if d mod 7 = 2 \<or> d mod 7 = 4 \<or> d mod 7 = 6 then 1 else 0)"

lemma residues7: "(d::int) mod 7 = 0 \<or> d mod 7 = 1 \<or> d mod 7 = 2 \<or> d mod 7 = 3 \<or> d mod 7 = 4 \<or> d mod 7 = 5 \<or> d mod 7 = 6"
  by presburger

lemma postponed_iff: "(3 * (d + 1)) mod 7 < 3 \<longleftrightarrow> postponed d = 1" for d :: int
proof -
  have "(3 * d + 3) mod 7 = (3 * (d mod 7) + 3) mod 7" by (metis mod_add_left_eq mod_mult_right_eq)
  then have "(3 * (d + 1)) mod 7 = (3 * (d mod 7) + 3) mod 7" by (simp add: distrib_left)
  then show ?thesis unfolding postponed_def using residues7 [of d] by auto
qed

lemma elapsed_molad:
  assumes "1 \<le> y"
  shows "hebrew_elapsed_days y = molad_day y + postponed (molad_day y)"
proof -
  have m: "0 \<le> molad_months y" using assms by (simp add: molad_months_def)
  have "12084 + 765433 * molad_months y = 25920 * (29 * molad_months y) + (12084 + 13753 * molad_months y)"
    by simp
  then have d: "molad_day y = 29 * molad_months y + (12084 + 13753 * molad_months y) div 25920"
    unfolding molad_day_def by (simp only: div_mult_self4)
  have "(235 * y - 234) sdiv 19 = molad_months y" using assms by (simp add: molad_months_def)
  then have "hebrew_elapsed_days y =
      (if (3 * (molad_day y + 1)) mod 7 < 3 then molad_day y + 1 else molad_day y)"
    using m unfolding hebrew_elapsed_days_def Let_def d by simp
  then show ?thesis using postponed_iff [of "molad_day y"] by (auto simp: postponed_def)
qed

lemma molad_months_step: "molad_months (y + 1) = molad_months y + (if hebrew_is_leap_year y then 13 else 12)"
proof -
  define q r where "q = (7 * y + 1) div 19" and "r = (7 * y + 1) mod 19"
  have y: "7 * y = 19 * q + r - 1" and r: "0 \<le> r" "r < 19"
    using mult_div_mod_eq [of 19 "7 * y + 1"] by (simp_all add: q_def r_def)
  have "235 * (y + 1) - 234 = 19 * (12 * y + q) + r" "235 * y - 234 = 19 * (12 * y + q - 12) + (r - 7)"
    using y by (simp_all add: algebra_simps)
  then have "molad_months (y + 1) = 12 * y + q"
    "molad_months y = (if 7 \<le> r then 12 * y + q - 12 else 12 * y + q - 13)"
    unfolding molad_months_def using r by (simp_all add: int_div_pos_eq, auto intro: int_div_neg_eq)
  then show ?thesis by (simp add: hebrew_is_leap_year_def r_def [symmetric])
qed

lemma molad_step:
  defines "c y \<equiv> if hebrew_is_leap_year y then 383 else 354" and "f y \<equiv> if hebrew_is_leap_year y then 23269 else 9516"
  shows "molad_day (y + 1) = molad_day y + c y + (if 25920 \<le> molad_parts y + f y then 1 else 0)"
    "molad_parts (y + 1) = molad_parts y + f y - (if 25920 \<le> molad_parts y + f y then 25920 else 0)"
proof -
  define t where "t = 12084 + 765433 * molad_months y"
  define k where "k = (if 25920 \<le> molad_parts y + f y then (1::int) else 0)"
  have p: "0 \<le> molad_parts y" "molad_parts y < 25920" by (simp_all add: molad_parts_def)
  have "12084 + 765433 * molad_months (y + 1) = t + 25920 * c y + f y"
    by (simp add: molad_months_step t_def c_def f_def)
  moreover have "t = 25920 * molad_day y + molad_parts y"
    by (simp add: molad_day_def molad_parts_def t_def)
  ultimately have "12084 + 765433 * molad_months (y + 1) =
      25920 * (molad_day y + c y + k) + (molad_parts y + f y - 25920 * k)" by simp
  moreover have "0 \<le> molad_parts y + f y - 25920 * k" "molad_parts y + f y - 25920 * k < 25920"
    using p by (auto simp: k_def f_def)
  ultimately have "molad_day (y + 1) = molad_day y + c y + k"
    "molad_parts (y + 1) = molad_parts y + f y - 25920 * k"
    unfolding molad_day_def [of "y + 1"] molad_parts_def [of "y + 1"] by (simp_all add: int_div_pos_eq int_mod_pos_eq)
  then show "molad_day (y + 1) = molad_day y + c y + (if 25920 \<le> molad_parts y + f y then 1 else 0)"
    "molad_parts (y + 1) = molad_parts y + f y - (if 25920 \<le> molad_parts y + f y then 25920 else 0)"
    by (simp_all add: k_def)
qed

subsection \<open>The lengths of the years\<close>

text \<open>The leap years of three years in a row.\<close>

lemma leap_patterns:
  "\<not> (hebrew_is_leap_year y \<and> hebrew_is_leap_year (y + 1))"
  "hebrew_is_leap_year y \<or> hebrew_is_leap_year (y + 1) \<or> hebrew_is_leap_year (y + 2)"
proof -
  define r where "r = (7 * y + 1) mod 19"
  have r: "0 \<le> r" "r < 19" by (simp_all add: r_def)
  have "(7 * (y + 1) + 1) mod 19 = (r + 7) mod 19" "(7 * (y + 2) + 1) mod 19 = (r + 14) mod 19"
    using mod_add_left_eq [of "7 * y + 1" 19 7] mod_add_left_eq [of "7 * y + 1" 19 14]
    by (simp_all add: r_def algebra_simps)
  moreover have "(r + 7) mod 19 = (if r < 12 then r + 7 else r - 12)" "(r + 14) mod 19 = (if r < 5 then r + 14 else r - 5)"
    using r by (simp_all add: int_mod_pos_eq [of _ _ 1] int_mod_pos_eq [of _ _ 0])
  ultimately show "\<not> (hebrew_is_leap_year y \<and> hebrew_is_leap_year (y + 1))"
    "hebrew_is_leap_year y \<or> hebrew_is_leap_year (y + 1) \<or> hebrew_is_leap_year (y + 2)"
    unfolding hebrew_is_leap_year_def r_def [symmetric] using r by auto
qed

text \<open>
  One year in numbers. \<open>molad_carry\<close> says whether the fraction of the day overflows over a year; which
  carries occur in three years in a row is a finite table over their leap years, and what they give
  for the length of the middle year is evaluated for every weekday.
\<close>

definition part_step :: "bool \<Rightarrow> int" where
  "part_step leap = (if leap then 23269 else 9516)"

definition molad_carry :: "bool \<Rightarrow> int \<Rightarrow> bool" where
  "molad_carry leap p \<longleftrightarrow> 25920 \<le> p + part_step leap"

definition molad_rest :: "bool \<Rightarrow> int \<Rightarrow> int" where
  "molad_rest leap p = p + part_step leap - (if molad_carry leap p then 25920 else 0)"

definition day_step :: "bool \<Rightarrow> bool \<Rightarrow> int" where
  "day_step leap k = (if leap then 383 else 354) + (if k then 1 else 0)"

definition year_carries :: "(bool \<times> bool \<times> bool) \<Rightarrow> (bool \<times> bool \<times> bool) list" where
  "year_carries l =
     (if l = (False, False, True)
      then [(False, False, True), (False, True, False), (False, True, True), (True, False, True)]
      else if l = (False, True, False)
      then [(False, True, False), (False, True, True), (True, False, True), (True, True, False)]
      else if l = (True, False, False)
      then [(False, True, False), (True, False, False), (True, False, True), (True, True, False)]
      else if l = (True, False, True)
      then [(False, True, True), (True, False, True), (True, True, False), (True, True, True)]
      else [])"

definition delay_of :: "int \<Rightarrow> int \<Rightarrow> int \<Rightarrow> int" where
  "delay_of previous current next =
     (if next - current = 356 then 2 else if current - previous = 382 then 1 else 0)"

definition year_ok :: "bool \<Rightarrow> int \<Rightarrow> int \<Rightarrow> int \<Rightarrow> int \<Rightarrow> bool" where
  "year_ok leap e0 e1 e2 e3 \<longleftrightarrow>
     (let n = e2 + delay_of e1 e2 e3 - (e1 + delay_of e0 e1 e2); w = (e1 + delay_of e0 e1 e2) mod 7
      in (if leap then n = 383 \<or> n = 384 \<or> n = 385 else n = 353 \<or> n = 354 \<or> n = 355) \<and>
         (w = 0 \<or> w = 1 \<or> w = 3 \<or> w = 5))"

definition year_check :: "int \<Rightarrow> (bool \<times> bool \<times> bool) \<Rightarrow> (bool \<times> bool \<times> bool) \<Rightarrow> bool" where
  "year_check r l k =
     (case (l, k) of ((l0, l1, l2), (k0, k1, k2)) \<Rightarrow>
        let d1 = r + day_step l0 k0; d2 = d1 + day_step l1 k1; d3 = d2 + day_step l2 k2
        in year_ok l1 (r + postponed r) (d1 + postponed d1) (d2 + postponed d2) (d3 + postponed d3))"

lemma year_table:
  "list_all (\<lambda>r. list_all (\<lambda>l. list_all (year_check r l) (year_carries l))
     [(False, False, True), (False, True, False), (True, False, False), (True, False, True)]) [0, 1, 2, 3, 4, 5, 6]"
  by code_simp

lemma molad_shift:
  "molad_day (y + 1) = molad_day y + day_step (hebrew_is_leap_year y) (molad_carry (hebrew_is_leap_year y) (molad_parts y))"
  "molad_parts (y + 1) = molad_rest (hebrew_is_leap_year y) (molad_parts y)"
  by (simp_all add: molad_step day_step_def molad_carry_def molad_rest_def part_step_def)

lemma carries_in_table:
  assumes "0 \<le> p" "p < 25920" "\<not> (l0 \<and> l1)" "\<not> (l1 \<and> l2)" "l0 \<or> l1 \<or> l2"
  shows "(molad_carry l0 p, molad_carry l1 (molad_rest l0 p), molad_carry l2 (molad_rest l1 (molad_rest l0 p))) \<in> set (year_carries (l0, l1, l2))"
proof -
  consider "\<not> l0" "\<not> l1" "l2" | "\<not> l0" "l1" "\<not> l2" | "l0" "\<not> l1" "\<not> l2" | "l0" "\<not> l1" "l2" using assms(3-5) by blast
  then show ?thesis
    using assms(1,2) by cases (simp_all add: year_carries_def molad_carry_def molad_rest_def part_step_def)
qed

lemma postponed_mod: "postponed (d mod 7 + n) = postponed (d + n)"
  by (simp add: postponed_def mod_add_left_eq)

lemma year_ok_shift: "year_ok leap (e0 + 7 * q) (e1 + 7 * q) (e2 + 7 * q) (e3 + 7 * q) = year_ok leap e0 e1 e2 e3"
proof -
  have d: "delay_of (a + 7 * q) (b + 7 * q) (c + 7 * q) = delay_of a b c" for a b c by (simp add: delay_of_def)
  have "(e1 + 7 * q + delay_of e0 e1 e2) mod 7 = (e1 + delay_of e0 e1 e2) mod 7"
    using mod_mult_self2 [of "e1 + delay_of e0 e1 e2" 7 q] by (simp add: algebra_simps)
  moreover have "e2 + 7 * q + x - (e1 + 7 * q + z) = e2 + x - (e1 + z)" for x z by simp
  ultimately show ?thesis unfolding year_ok_def d Let_def by (simp only:)
qed

lemma year_ok_molad:
  fixes y :: int
  defines "e z \<equiv> molad_day z + postponed (molad_day z)"
  shows "year_ok (hebrew_is_leap_year (y + 1)) (e y) (e (y + 1)) (e (y + 2)) (e (y + 3))"
proof -
  define l where "l = (hebrew_is_leap_year y, hebrew_is_leap_year (y + 1), hebrew_is_leap_year (y + 2))"
  define k where "k = (molad_carry (hebrew_is_leap_year y) (molad_parts y),
    molad_carry (hebrew_is_leap_year (y + 1)) (molad_parts (y + 1)), molad_carry (hebrew_is_leap_year (y + 2)) (molad_parts (y + 2)))"
  define r q where "r = molad_day y mod 7" and "q = molad_day y div 7"
  have r: "r \<in> set [0, 1, 2, 3, 4, 5, 6]" using residues7 [of "molad_day y"] by (auto simp: r_def)
  have rq: "molad_day y = r + 7 * q" by (simp add: r_def q_def)
  have pos: "0 \<le> molad_parts y" "molad_parts y < 25920" by (simp_all add: molad_parts_def)
  have y2: "y + 1 + 1 = y + 2" "y + 2 + 1 = y + 3" by simp_all
  have pat: "\<not> (hebrew_is_leap_year y \<and> hebrew_is_leap_year (y + 1))"
    "\<not> (hebrew_is_leap_year (y + 1) \<and> hebrew_is_leap_year (y + 2))"
    using leap_patterns(1) [of y] leap_patterns(1) [of "y + 1"] by (simp_all add: y2)
  have k: "k \<in> set (year_carries l)"
    using carries_in_table [OF pos pat leap_patterns(2)] molad_shift(2) [of y] molad_shift(2) [of "y + 1"]
    by (simp add: k_def l_def y2)
  have l: "l \<in> set [(False, False, True), (False, True, False), (True, False, False), (True, False, True)]"
    using pat leap_patterns(2) [of y] by (auto simp: l_def)
  have "year_check r l k" using year_table r k l unfolding list_all_iff by blast
  moreover have e: "e z = r + s + postponed (r + s) + 7 * q" if "molad_day z = molad_day y + s" for z s
  proof -
    have "e z = molad_day y + s + postponed (r + s)"
      unfolding e_def that r_def postponed_mod ..
    then show ?thesis using rq by simp
  qed
  define s1 where "s1 = day_step (hebrew_is_leap_year y) (molad_carry (hebrew_is_leap_year y) (molad_parts y))"
  define s2 where "s2 = s1 + day_step (hebrew_is_leap_year (y + 1)) (molad_carry (hebrew_is_leap_year (y + 1)) (molad_parts (y + 1)))"
  define s3 where "s3 = s2 + day_step (hebrew_is_leap_year (y + 2)) (molad_carry (hebrew_is_leap_year (y + 2)) (molad_parts (y + 2)))"
  have m: "molad_day (y + 1) = molad_day y + s1" "molad_day (y + 2) = molad_day y + s2" "molad_day (y + 3) = molad_day y + s3"
    using molad_shift(1) [of y] molad_shift(1) [of "y + 1"] molad_shift(1) [of "y + 2"]
    by (simp_all add: s1_def s2_def s3_def y2)
  ultimately show ?thesis
    unfolding e [of y 0, simplified] e [OF m(1)] e [OF m(2)] e [OF m(3)] year_ok_shift
    by (simp add: year_check_def l_def k_def Let_def s1_def s2_def s3_def add.assoc)
qed

text \<open>Before the first year the truncating divisions of the code round up; the delay of the first year
  does not notice.\<close>

lemma hebrew_new_year_molad:
  fixes y :: int
  defines "e z \<equiv> molad_day z + postponed (molad_day z)"
  assumes "1 \<le> y"
  shows "hebrew_new_year y = HEBREW_EPOCH_JD + e y + delay_of (e (y - 1)) (e y) (e (y + 1))"
proof (cases "y = 1")
  case True
  have "hebrew_elapsed_days 0 = - 352"
    by (simp add: hebrew_elapsed_days_def Let_def sdiv_neg)
  moreover have "e 0 = - 384" "e 1 = 0"
    by (simp_all add: e_def molad_day_def molad_months_def postponed_def)
  moreover have "hebrew_elapsed_days 1 = e 1" "hebrew_elapsed_days 2 = e 2"
    by (simp_all add: elapsed_molad e_def)
  ultimately show ?thesis
    using True by (simp add: hebrew_new_year_def hebrew_new_year_delay_def delay_of_def Let_def)
next
  case False
  then have "hebrew_elapsed_days z = e z" if "z \<in> {y - 1, y, y + 1}" for z
    using that assms(2) by (auto simp: elapsed_molad e_def)
  then show ?thesis by (simp add: hebrew_new_year_def hebrew_new_year_delay_def delay_of_def Let_def)
qed

lemma hebrew_year_ok:
  fixes y :: int
  defines "n \<equiv> hebrew_year_days y"
  assumes "1 \<le> y"
  shows "if hebrew_is_leap_year y then n = 383 \<or> n = 384 \<or> n = 385 else n = 353 \<or> n = 354 \<or> n = 355"
    "(hebrew_new_year y - HEBREW_EPOCH_JD) mod 7 \<in> {0, 1, 3, 5}"
proof -
  define e where "e z = molad_day z + postponed (molad_day z)" for z
  have y: "y - 1 + 1 = y" "y - 1 + 2 = y + 1" "y - 1 + 3 = y + 2" "y + 1 - 1 = y" "y + 1 + 1 = y + 2" by simp_all
  have ok: "year_ok (hebrew_is_leap_year y) (e (y - 1)) (e y) (e (y + 1)) (e (y + 2))"
    using year_ok_molad [of "y - 1", unfolded y, folded e_def] .
  have a: "hebrew_new_year y = HEBREW_EPOCH_JD + (e y + delay_of (e (y - 1)) (e y) (e (y + 1)))"
    using hebrew_new_year_molad [OF assms(2), folded e_def] by simp
  have b: "hebrew_new_year (y + 1) = HEBREW_EPOCH_JD + (e (y + 1) + delay_of (e y) (e (y + 1)) (e (y + 2)))"
    using hebrew_new_year_molad [of "y + 1", folded e_def, unfolded y] assms(2) by simp
  have n: "n = e (y + 1) + delay_of (e y) (e (y + 1)) (e (y + 2)) - (e y + delay_of (e (y - 1)) (e y) (e (y + 1)))"
    unfolding n_def hebrew_year_days_def a b by simp
  show "if hebrew_is_leap_year y then n = 383 \<or> n = 384 \<or> n = 385 else n = 353 \<or> n = 354 \<or> n = 355"
    using ok unfolding year_ok_def Let_def n [symmetric] by blast
  have "hebrew_new_year y - HEBREW_EPOCH_JD = e y + delay_of (e (y - 1)) (e y) (e (y + 1))" unfolding a by simp
  then show "(hebrew_new_year y - HEBREW_EPOCH_JD) mod 7 \<in> {0, 1, 3, 5}"
    using ok unfolding year_ok_def Let_def by simp
qed

lemma hebrew_new_year_weekday:
  assumes "1 \<le> y"
  shows "weekday (hebrew_new_year y) \<in> {1, 2, 4, 6}"
proof -
  have "(hebrew_new_year y - 347998) mod 7 = hebrew_new_year y mod 7"
    using mod_mult_self1 [of "hebrew_new_year y" "- 49714" 7] by simp
  with hebrew_year_ok(2) [OF assms] show ?thesis
    by (auto simp: weekday_def HEBREW_EPOCH_JD_def)
qed

lemma hebrew_year_days_pos: "1 \<le> y \<Longrightarrow> 353 \<le> hebrew_year_days y \<and> hebrew_year_days y \<le> 385"
  using hebrew_year_ok(1) [of y] by (auto split: if_splits)

lemma hebrew_new_year_less: "1 \<le> y \<Longrightarrow> hebrew_new_year y < hebrew_new_year (y + 1)"
  using hebrew_year_days_pos [of y] by (simp add: hebrew_year_days_def)

end
