(* ===== verification/Calendar_Days.thy ===== *)
theory Calendar_Days
  imports Calendar_Hebrew
begin

text \<open>
  The French Republican and the Hebrew conversions: both find the year, then the month, by walking
  a partition of the days. The laws of \<open>civil_calendar\<close> hold for both.
\<close>

subsection \<open>Partitions of the days\<close>

lemma partition_mono:
  fixes f :: "int \<Rightarrow> int"
  assumes step: "\<And>i. lo \<le> i \<Longrightarrow> i < hi \<Longrightarrow> f i \<le> f (i + 1)" and "lo \<le> i" "i \<le> j" "j \<le> hi"
  shows "f i \<le> f j"
proof -
  have "f i \<le> f (i + int n)" if "i + int n \<le> hi" for n
    using that
  proof (induction n)
    case (Suc n)
    then have "f (i + int n) \<le> f (i + int n + 1)" using assms(2) by (intro step) auto
    with Suc show ?case by (simp add: algebra_simps)
  qed simp
  from this [of "nat (j - i)"] assms(3,4) show ?thesis by simp
qed

text \<open>A day lies in one interval of a partition only.\<close>

lemma partition_unique:
  fixes f :: "int \<Rightarrow> int"
  assumes step: "\<And>i. lo \<le> i \<Longrightarrow> i < hi \<Longrightarrow> f i \<le> f (i + 1)"
    and i: "lo \<le> i" "i < hi" "f i \<le> x" "x < f (i + 1)" and j: "lo \<le> j" "j < hi" "f j \<le> x" "x < f (j + 1)"
  shows "i = j"
proof -
  have "\<not> i < j" using partition_mono [of lo hi f "i + 1" j, OF step] i j by force
  moreover have "\<not> j < i" using partition_mono [of lo hi f "j + 1" i, OF step] i j by force
  ultimately show ?thesis by simp
qed

subsection \<open>The French Republican calendar\<close>

definition french_month_days :: "int \<Rightarrow> int \<Rightarrow> int" where
  "french_month_days month year = (if month \<le> 12 then 30 else if french_leap_year year then 6 else 5)"

definition french_year :: "int \<Rightarrow> bool" where
  "french_year year \<longleftrightarrow> 1 \<le> year \<and> year \<le> 14"

definition french_start :: "int \<Rightarrow> int" where
  "french_start y = 365 * (y - 1) + y div 4"

lemma french_years:
  "1 \<le> (y::int) \<Longrightarrow> y \<le> 14 \<Longrightarrow> y = 1 \<or> y = 2 \<or> y = 3 \<or> y = 4 \<or> y = 5 \<or> y = 6 \<or> y = 7 \<or> y = 8 \<or> y = 9 \<or>
     y = 10 \<or> y = 11 \<or> y = 12 \<or> y = 13 \<or> y = 14"
  by presburger

lemma french_start_step:
  "1 \<le> y \<Longrightarrow> y \<le> 14 \<Longrightarrow> french_start (y + 1) = french_start y + (if french_leap_year y then 366 else 365)"
  using french_years [of y] by (auto simp: french_start_def french_leap_year_def)

lemma french_start_mono: "1 \<le> y \<Longrightarrow> y < 15 \<Longrightarrow> french_start y \<le> french_start (y + 1)"
  using french_start_step [of y] by (simp split: if_splits)

lemma french_to_jd_start:
  assumes "real_date french_month_days 13 french_year d"
  shows "jd_of french_to_jd d = FRENCH_EPOCH_JD + french_start (cd_year d) + 30 * (cd_month d - 1) + cd_day d - 1"
  using assms
  by (auto simp: real_date_def jd_of_def french_to_jd_def french_month_days_def french_year_def french_start_def
      Let_def split: if_splits)

lemma french_scan_ok:
  assumes "1 \<le> y" "y \<le> 14" "french_start y \<le> x" "x < 5113"
  shows "\<exists>z. y \<le> z \<and> z \<le> 14 \<and> french_start z \<le> x \<and> x < french_start (z + 1) \<and>
    french_scan [y..14] (x - french_start y) = civil ((x - french_start z) div 30 + 1) ((x - french_start z) mod 30 + 1) z"
  using assms
proof (induction "nat (14 - y)" arbitrary: y)
  case 0
  then have "y = 14" by simp
  with 0 show ?case by (intro exI [of _ 14]) (simp add: french_start_def french_leap_year_def)
next
  case (Suc n)
  have l: "[y..14] = y # [y + 1..14]" using Suc.prems by (simp add: upto_rec1)
  note st = french_start_step [OF Suc.prems(1,2)]
  show ?case
  proof (cases "x < french_start (y + 1)")
    case True
    then show ?thesis using Suc.prems st by (intro exI [of _ y]) (auto simp: l Let_def)
  next
    case False
    then have "\<exists>z. y + 1 \<le> z \<and> z \<le> 14 \<and> french_start z \<le> x \<and> x < french_start (z + 1) \<and>
      french_scan [y + 1..14] (x - french_start (y + 1)) = civil ((x - french_start z) div 30 + 1) ((x - french_start z) mod 30 + 1) z"
      using Suc.hyps Suc.prems by (intro Suc.hyps(1)) auto
    moreover have "french_scan [y..14] (x - french_start y) = french_scan [y + 1..14] (x - french_start (y + 1))"
      using False st by (auto simp: l Let_def algebra_simps)
    ultimately show ?thesis by auto
  qed
qed

lemma french_from_jd_ok:
  assumes "FRENCH_EPOCH_JD \<le> jd" "jd \<le> FRENCH_LAST_JD"
  obtains y where "1 \<le> y" "y \<le> 14" "french_start y \<le> jd - FRENCH_EPOCH_JD" "jd - FRENCH_EPOCH_JD < french_start (y + 1)"
    "french_from_jd jd = civil ((jd - FRENCH_EPOCH_JD - french_start y) div 30 + 1)
       ((jd - FRENCH_EPOCH_JD - french_start y) mod 30 + 1) y"
proof -
  have "french_start 1 = 0" by (simp add: french_start_def)
  then have "\<exists>y. 1 \<le> y \<and> y \<le> 14 \<and> french_start y \<le> jd - FRENCH_EPOCH_JD \<and> jd - FRENCH_EPOCH_JD < french_start (y + 1) \<and>
    french_scan [1..14] (jd - FRENCH_EPOCH_JD - french_start 1) = civil ((jd - FRENCH_EPOCH_JD - french_start y) div 30 + 1)
       ((jd - FRENCH_EPOCH_JD - french_start y) mod 30 + 1) y"
    using assms by (intro french_scan_ok) (simp_all add: calendar_bounds)
  with assms \<open>french_start 1 = 0\<close> show ?thesis by (auto intro: that simp: french_from_jd_def)
qed

lemma french_from_real:
  assumes "FRENCH_EPOCH_JD \<le> jd" "jd \<le> FRENCH_LAST_JD"
  shows "real_date french_month_days 13 french_year (french_from_jd jd) \<and> jd_of french_to_jd (french_from_jd jd) = jd"
proof -
  obtain y where y: "1 \<le> y" "y \<le> 14" "french_start y \<le> jd - FRENCH_EPOCH_JD" "jd - FRENCH_EPOCH_JD < french_start (y + 1)"
    "french_from_jd jd = civil ((jd - FRENCH_EPOCH_JD - french_start y) div 30 + 1)
       ((jd - FRENCH_EPOCH_JD - french_start y) mod 30 + 1) y"
    using french_from_jd_ok [OF assms] .
  define o' where "o' = jd - FRENCH_EPOCH_JD - french_start y"
  have o: "0 \<le> o'" "o' < (if french_leap_year y then 366 else 365)"
    using y(3,4) french_start_step [OF y(1,2)] by (auto simp: o'_def)
  have d: "o' div 30 \<le> 12" "o' div 30 = 12 \<Longrightarrow> o' mod 30 = o' - 360"
    using o div_bounds [of 30 o'] by (auto simp: minus_mult_div_eq_mod [symmetric] split: if_splits)
  have r: "real_date french_month_days 13 french_year (civil (o' div 30 + 1) (o' mod 30 + 1) y)"
    using o d y(1,2) by (auto simp: real_date_def french_month_days_def french_year_def split: if_splits)
  then show ?thesis
    using french_to_jd_start [OF r] div_mult_mod_eq [of o' 30]
    by (simp add: y(5) o'_def [symmetric]) (simp add: o'_def)
qed

lemma french_in_year:
  assumes "real_date french_month_days 13 french_year d"
  defines "x \<equiv> jd_of french_to_jd d - FRENCH_EPOCH_JD"
  shows "french_start (cd_year d) \<le> x" "x < french_start (cd_year d + 1)"
    "x - french_start (cd_year d) = 30 * (cd_month d - 1) + (cd_day d - 1)" "0 \<le> cd_day d - 1" "cd_day d - 1 < 30"
    "1 \<le> cd_year d" "cd_year d < 15"
  using assms(1) french_to_jd_start [OF assms(1)] french_start_step [of "cd_year d"]
  by (auto simp: x_def real_date_def french_month_days_def french_year_def split: if_splits)

lemma french_from_to:
  assumes d: "real_date french_month_days 13 french_year d"
    and r: "FRENCH_EPOCH_JD \<le> jd_of french_to_jd d" "jd_of french_to_jd d \<le> FRENCH_LAST_JD"
  shows "french_from_jd (jd_of french_to_jd d) = d"
proof -
  let ?x = "jd_of french_to_jd d - FRENCH_EPOCH_JD"
  note I = french_in_year [OF d]
  obtain y where y: "1 \<le> y" "y \<le> 14" "french_start y \<le> ?x" "?x < french_start (y + 1)"
    "french_from_jd (jd_of french_to_jd d) = civil ((?x - french_start y) div 30 + 1) ((?x - french_start y) mod 30 + 1) y"
    using french_from_jd_ok [OF r] .
  have "y = cd_year d"
    using partition_unique [of 1 15 french_start y ?x "cd_year d", OF french_start_mono] y(1-4) I by simp
  moreover have "(30 * (cd_month d - 1) + (cd_day d - 1)) div 30 = cd_month d - 1"
    "(30 * (cd_month d - 1) + (cd_day d - 1)) mod 30 = cd_day d - 1"
    using I(4,5) by (simp_all only: int_div_pos_eq [OF refl] int_mod_pos_eq [OF refl])
  ultimately show ?thesis using y(5) civil_surj [of d] unfolding I(3) by (simp only: I(3)) simp
qed

lemma french_tomorrow:
  assumes d: "real_date french_month_days 13 french_year d" and r: "jd_of french_to_jd d < FRENCH_LAST_JD"
  defines "n \<equiv> next_date french_month_days 13 (\<lambda>y. y + 1) d"
  shows "real_date french_month_days 13 french_year n \<and> jd_of french_to_jd n = jd_of french_to_jd d + 1"
proof -
  obtain m day y where c: "d = civil m day y" using civil_surj by metis
  have v: "1 \<le> m" "m \<le> 13" "1 \<le> day" "day \<le> french_month_days m y" "1 \<le> y" "y \<le> 14"
    using d by (auto simp: c real_date_def french_year_def)
  have pos: "0 < french_month_days m' y'" for m' y' by (simp add: french_month_days_def)
  have last: "french_start 15 = 5113" by (simp add: french_start_def)
  consider (day) "day < french_month_days m y" | (month) "day = french_month_days m y" "m < 13"
    | (year) "day = french_month_days m y" "m = 13" using v by linarith
  then have n: "real_date french_month_days 13 french_year n"
    "FRENCH_EPOCH_JD + french_start (cd_year n) + 30 * (cd_month n - 1) + cd_day n - 1 = jd_of french_to_jd d + 1"
  proof (atomize (full), cases)
    case day
    then show "real_date french_month_days 13 french_year n \<and>
      FRENCH_EPOCH_JD + french_start (cd_year n) + 30 * (cd_month n - 1) + cd_day n - 1 = jd_of french_to_jd d + 1"
      using v french_to_jd_start [OF d] by (simp add: n_def next_date_def c real_date_def french_year_def)
  next
    case month
    have "n = civil (m + 1) 1 y" using month pos [of "m + 1" y] by (auto simp: n_def next_date_def c)
    moreover have "day = 30" using month by (simp add: french_month_days_def)
    ultimately show "real_date french_month_days 13 french_year n \<and>
      FRENCH_EPOCH_JD + french_start (cd_year n) + 30 * (cd_month n - 1) + cd_day n - 1 = jd_of french_to_jd d + 1"
      using v month pos [of "m + 1" y] french_to_jd_start [OF d] by (simp add: c real_date_def french_year_def)
  next
    case year
    have e: "n = civil 1 1 (y + 1)" using year by (simp add: n_def next_date_def c)
    have s: "french_start (y + 1) = french_start y + 360 + day"
      using french_start_step [OF v(5,6)] year by (simp add: french_month_days_def split: if_splits)
    have j: "jd_of french_to_jd d + 1 = FRENCH_EPOCH_JD + french_start (y + 1)"
      using french_to_jd_start [OF d] s year by (simp add: c)
    then have "y \<noteq> 14" using r last by (auto simp: calendar_bounds)
    with e j v pos [of 1 "y + 1"] show "real_date french_month_days 13 french_year n \<and>
      FRENCH_EPOCH_JD + french_start (cd_year n) + 30 * (cd_month n - 1) + cd_day n - 1 = jd_of french_to_jd d + 1"
      by (simp add: real_date_def french_year_def)
  qed
  then show ?thesis using french_to_jd_start [OF n(1)] by simp
qed

interpretation french: civil_calendar french_to_jd french_from_jd
  "real_date french_month_days 13 french_year" "next_date french_month_days 13 (\<lambda>y. y + 1)"
  FRENCH_EPOCH_JD FRENCH_LAST_JD
proof
  show "jd < FRENCH_EPOCH_JD \<or> FRENCH_LAST_JD < jd \<Longrightarrow> french_from_jd jd = INVALID" for jd
    by (auto simp: french_from_jd_def)
qed (simp_all add: french_from_real french_from_to french_tomorrow, simp add: real_date_def)

subsection \<open>The Hebrew calendar\<close>

definition hebrew_month_days :: "int \<Rightarrow> int \<Rightarrow> int" where
  "hebrew_month_days month year = (case hebrew_days_in_month month year of Some days \<Rightarrow> days | None \<Rightarrow> 0)"

definition hebrew_year :: "int \<Rightarrow> bool" where
  "hebrew_year year \<longleftrightarrow> 1 \<le> year \<and> year \<le> HEBREW_LAST_YEAR"

text \<open>The days of a year before a month.\<close>

definition hebrew_before :: "int \<Rightarrow> int \<Rightarrow> int" where
  "hebrew_before year month = (\<Sum>m\<leftarrow>[1..month - 1]. hebrew_month_days m year)"

lemma hebrew_before_1 [simp]: "hebrew_before year 1 = 0"
  by (simp add: hebrew_before_def)

lemma hebrew_before_step: "1 \<le> m \<Longrightarrow> hebrew_before year (m + 1) = hebrew_before year m + hebrew_month_days m year"
  using upto_rec2 [of 1 m] by (simp add: hebrew_before_def)

lemma hebrew_month_days_bounds: "0 \<le> hebrew_month_days m year" "hebrew_month_days m year \<le> 30"
  by (auto simp: hebrew_month_days_def hebrew_days_in_month_def Let_def)

lemma hebrew_months:
  "1 \<le> (m::int) \<Longrightarrow> m \<le> 13 \<Longrightarrow> m = 1 \<or> m = 2 \<or> m = 3 \<or> m = 4 \<or> m = 5 \<or> m = 6 \<or> m = 7 \<or> m = 8 \<or> m = 9 \<or>
     m = 10 \<or> m = 11 \<or> m = 12 \<or> m = 13"
  by presburger

lemma hebrew_days_Some:
  "hebrew_year year \<Longrightarrow> 1 \<le> m \<Longrightarrow> m \<le> 13 \<Longrightarrow> hebrew_days_in_month m year = Some (hebrew_month_days m year)"
  using hebrew_months [of m] by (auto simp: hebrew_month_days_def hebrew_days_in_month_def hebrew_year_def Let_def)

text \<open>The months fill the year.\<close>

lemma hebrew_months_fill:
  assumes "hebrew_year y"
  shows "hebrew_before y 14 = hebrew_year_days y"
proof -
  have "[1..13] = [1, 2, 3, 4, 5, 6, 7, 8, 9, 10, 11, 12, 13::int]" by (simp add: upto_rec1)
  then have "hebrew_before y 14 = (\<Sum>m\<leftarrow>[1, 2, 3, 4, 5, 6, 7, 8, 9, 10, 11, 12, 13]. hebrew_month_days m y)"
    by (simp add: hebrew_before_def)
  also have "\<dots> = 324 + hebrew_month_days 2 y + hebrew_month_days 3 y + hebrew_month_days 6 y - 29"
    using assms by (simp add: hebrew_month_days_def hebrew_days_in_month_def hebrew_year_def)
  also have "\<dots> = hebrew_year_days y"
    using hebrew_year_ok(1) [of y] assms
    by (auto simp: hebrew_month_days_def hebrew_days_in_month_def hebrew_year_def Let_def split: if_splits)
  finally show ?thesis .
qed

lemma hebrew_add_months_sum:
  "hebrew_year y \<Longrightarrow> \<forall>m \<in> set ms. 1 \<le> m \<and> m \<le> 13 \<Longrightarrow>
     hebrew_add_months y ms jd = Some (jd + (\<Sum>m\<leftarrow>ms. hebrew_month_days m y))"
  by (induction ms arbitrary: jd) (simp_all add: hebrew_days_Some)

lemma hebrew_to_jd_start:
  assumes "real_date hebrew_month_days 13 hebrew_year d"
  defines "j \<equiv> hebrew_new_year (cd_year d) + hebrew_before (cd_year d) (cd_month d) + cd_day d - 1"
  shows "jd_of hebrew_to_jd d = (if HEBREW_LAST_JD < j then 0 else j)"
  using assms(1) hebrew_month_days_bounds(2) [of "cd_month d" "cd_year d"]
  by (simp add: real_date_def jd_of_def hebrew_to_jd_def hebrew_add_months_sum hebrew_year_def
      hebrew_before_def j_def Let_def)

lemma hebrew_year_search_ok:
  assumes "low < high" "hebrew_new_year low \<le> jd" "jd < hebrew_new_year high"
  defines "y \<equiv> hebrew_year_search jd low high"
  shows "low \<le> y \<and> y < high \<and> hebrew_new_year y \<le> jd \<and> jd < hebrew_new_year (y + 1)"
  using assms(1-3) unfolding y_def
proof (induction jd low high rule: hebrew_year_search.induct)
  case (1 jd low high)
  define middle where "middle = low + (high - low) div 2"
  show ?case
  proof (cases "low + 1 < high")
    case True
    then have m: "low < middle" "middle < high" by (simp_all add: middle_def)
    have sd: "low + (high - low) sdiv 2 = middle" using True by (simp add: middle_def)
    show ?thesis
    proof (cases "hebrew_new_year middle \<le> jd")
      case le: True
      then have "hebrew_year_search jd low high = hebrew_year_search jd middle high"
        using True sd by (subst hebrew_year_search.simps) (simp add: Let_def)
      with 1(1) [OF True sd [symmetric]] le m 1(5) show ?thesis by auto
    next
      case gt: False
      then have "hebrew_year_search jd low high = hebrew_year_search jd low middle"
        using True sd by (subst hebrew_year_search.simps) (simp add: Let_def)
      with 1(2) [OF True sd [symmetric]] gt m 1(4) show ?thesis by auto
    qed
  next
    case False
    then have "high = low + 1" using 1(3) by simp
    with 1 False show ?thesis by (simp add: hebrew_year_search.simps [of jd low])
  qed
qed

lemma hebrew_month_scan_ok:
  assumes "1 \<le> m" "m \<le> 14" "hebrew_before y m \<le> x" "x < hebrew_before y 14"
  shows "\<exists>k. m \<le> k \<and> k \<le> 13 \<and> hebrew_before y k \<le> x \<and> x < hebrew_before y (k + 1) \<and>
    hebrew_month_scan y [m..13] (x - hebrew_before y m) = civil k (x - hebrew_before y k + 1) y"
  using assms
proof (induction "nat (14 - m)" arbitrary: m)
  case (Suc n)
  then have m: "m \<le> 13" by simp
  have l: "[m..13] = m # [m + 1..13]" using m by (simp add: upto_rec1)
  note st = hebrew_before_step [OF Suc.prems(1), of y] and nn = hebrew_month_days_bounds(1) [of m y]
  show ?case
  proof (cases "x < hebrew_before y (m + 1)")
    case True
    then show ?thesis
      using Suc.prems m st nn by (intro exI [of _ m]) (auto simp: l Let_def hebrew_month_days_def [symmetric])
  next
    case False
    then have "\<exists>k. m + 1 \<le> k \<and> k \<le> 13 \<and> hebrew_before y k \<le> x \<and> x < hebrew_before y (k + 1) \<and>
      hebrew_month_scan y [m + 1..13] (x - hebrew_before y (m + 1)) = civil k (x - hebrew_before y k + 1) y"
      using Suc.hyps Suc.prems m by (intro Suc.hyps(1)) auto
    moreover have "hebrew_month_scan y [m..13] (x - hebrew_before y m) = hebrew_month_scan y [m + 1..13] (x - hebrew_before y (m + 1))"
      using False st by (auto simp: l Let_def hebrew_month_days_def [symmetric] algebra_simps)
    ultimately show ?thesis by auto
  qed
qed simp

lemma hebrew_ends: "hebrew_new_year 1 = HEBREW_EPOCH_JD" "HEBREW_LAST_JD < hebrew_new_year (HEBREW_LAST_YEAR + 1)"
proof -
  show "hebrew_new_year 1 = HEBREW_EPOCH_JD"
    using hebrew_new_year_molad [of 1] by (simp add: molad_day_def molad_months_def postponed_def delay_of_def)
  show "HEBREW_LAST_JD < hebrew_new_year (HEBREW_LAST_YEAR + 1)"
    by (simp add: hebrew_new_year_molad molad_day_def molad_months_def postponed_def delay_of_def calendar_bounds)
qed

lemma hebrew_from_jd_ok:
  assumes "HEBREW_EPOCH_JD \<le> jd" "jd \<le> HEBREW_LAST_JD"
  obtains y m where "hebrew_year y" "hebrew_new_year y \<le> jd" "jd < hebrew_new_year (y + 1)" "1 \<le> m" "m \<le> 13"
    "hebrew_before y m \<le> jd - hebrew_new_year y" "jd - hebrew_new_year y < hebrew_before y (m + 1)"
    "hebrew_from_jd jd = civil m (jd - hebrew_new_year y - hebrew_before y m + 1) y"
proof -
  define y where "y = hebrew_year_search jd 1 (HEBREW_LAST_YEAR + 1)"
  have y: "1 \<le> y" "y < HEBREW_LAST_YEAR + 1" "hebrew_new_year y \<le> jd" "jd < hebrew_new_year (y + 1)"
    using hebrew_year_search_ok [of 1 "HEBREW_LAST_YEAR + 1" jd] assms hebrew_ends
    by (auto simp: y_def HEBREW_LAST_YEAR_def)
  then have hy: "hebrew_year y" by (simp add: hebrew_year_def)
  have "jd - hebrew_new_year y < hebrew_before y 14"
    using y(4) by (simp add: hebrew_months_fill [OF hy] hebrew_year_days_def)
  then obtain k where k: "1 \<le> k" "k \<le> 13" "hebrew_before y k \<le> jd - hebrew_new_year y"
      "jd - hebrew_new_year y < hebrew_before y (k + 1)"
      "hebrew_month_scan y [1..13] (jd - hebrew_new_year y) = civil k (jd - hebrew_new_year y - hebrew_before y k + 1) y"
    using hebrew_month_scan_ok [of 1 y "jd - hebrew_new_year y"] y(3) by auto
  have "hebrew_from_jd jd = civil k (jd - hebrew_new_year y - hebrew_before y k + 1) y"
    using assms k(5) by (simp add: hebrew_from_jd_def Let_def y_def)
  with hy y k show ?thesis by (intro that) auto
qed

lemma hebrew_from_real:
  assumes "HEBREW_EPOCH_JD \<le> jd" "jd \<le> HEBREW_LAST_JD"
  shows "real_date hebrew_month_days 13 hebrew_year (hebrew_from_jd jd) \<and> jd_of hebrew_to_jd (hebrew_from_jd jd) = jd"
proof -
  obtain y m where y: "hebrew_year y" "1 \<le> m" "m \<le> 13"
    "hebrew_before y m \<le> jd - hebrew_new_year y" "jd - hebrew_new_year y < hebrew_before y (m + 1)"
    "hebrew_from_jd jd = civil m (jd - hebrew_new_year y - hebrew_before y m + 1) y"
    using hebrew_from_jd_ok [OF assms] by metis
  then have r: "real_date hebrew_month_days 13 hebrew_year (hebrew_from_jd jd)"
    using hebrew_before_step [of m y] by (simp add: real_date_def)
  then show ?thesis using hebrew_to_jd_start [OF r] assms(2) y(6) by simp
qed

lemma hebrew_in_year:
  assumes "real_date hebrew_month_days 13 hebrew_year d"
  defines "x \<equiv> hebrew_before (cd_year d) (cd_month d) + cd_day d - 1"
  shows "hebrew_before (cd_year d) (cd_month d) \<le> x" "x < hebrew_before (cd_year d) (cd_month d + 1)"
    "0 \<le> x" "x < hebrew_year_days (cd_year d)"
proof -
  have d: "1 \<le> cd_month d" "cd_month d \<le> 13" "1 \<le> cd_day d" "cd_day d \<le> hebrew_month_days (cd_month d) (cd_year d)"
    "hebrew_year (cd_year d)" using assms(1) by (auto simp: real_date_def)
  show 1: "hebrew_before (cd_year d) (cd_month d) \<le> x" "x < hebrew_before (cd_year d) (cd_month d + 1)"
    using d hebrew_before_step [of "cd_month d" "cd_year d"] by (simp_all add: x_def)
  have mono: "hebrew_before (cd_year d) i \<le> hebrew_before (cd_year d) j" if "1 \<le> i" "i \<le> j" "j \<le> 14" for i j
    using partition_mono [of 1 14 "hebrew_before (cd_year d)" i j] hebrew_before_step hebrew_month_days_bounds(1) that by simp
  show "0 \<le> x" using 1(1) mono [of 1 "cd_month d"] d by simp
  show "x < hebrew_year_days (cd_year d)"
    using 1(2) mono [of "cd_month d + 1" 14] d hebrew_months_fill [OF d(5)] by simp
qed

lemma hebrew_from_to:
  assumes d: "real_date hebrew_month_days 13 hebrew_year d"
    and r: "HEBREW_EPOCH_JD \<le> jd_of hebrew_to_jd d" "jd_of hebrew_to_jd d \<le> HEBREW_LAST_JD"
  shows "hebrew_from_jd (jd_of hebrew_to_jd d) = d"
proof -
  let ?j = "jd_of hebrew_to_jd d"
  have j: "?j = hebrew_new_year (cd_year d) + (hebrew_before (cd_year d) (cd_month d) + cd_day d - 1)"
    using hebrew_to_jd_start [OF d] r by (auto simp: calendar_bounds split: if_splits)
  have v: "hebrew_year (cd_year d)" "1 \<le> cd_month d" "cd_month d \<le> 13" using d by (auto simp: real_date_def)
  note I = hebrew_in_year [OF d]
  obtain y m where y: "hebrew_year y" "hebrew_new_year y \<le> ?j" "?j < hebrew_new_year (y + 1)" "1 \<le> m" "m \<le> 13"
    "hebrew_before y m \<le> ?j - hebrew_new_year y" "?j - hebrew_new_year y < hebrew_before y (m + 1)"
    "hebrew_from_jd ?j = civil m (?j - hebrew_new_year y - hebrew_before y m + 1) y"
    using hebrew_from_jd_ok [OF r] .
  have yy: "y = cd_year d"
  proof (rule partition_unique [of 1 "HEBREW_LAST_YEAR + 1" hebrew_new_year y ?j "cd_year d"])
    show "hebrew_new_year i \<le> hebrew_new_year (i + 1)" if "1 \<le> i" for i
      using hebrew_new_year_less [OF that] by simp
  qed (use y v I j in \<open>simp_all add: hebrew_year_def hebrew_year_days_def\<close>)
  have "m = cd_month d"
  proof (rule partition_unique [of 1 14 "hebrew_before y" m "?j - hebrew_new_year y" "cd_month d"])
    show "hebrew_before y i \<le> hebrew_before y (i + 1)" if "1 \<le> i" for i
      using hebrew_before_step [OF that] hebrew_month_days_bounds(1) by simp
  qed (use y v I j yy in simp_all)
  with y(8) j yy show ?thesis using civil_surj [of d] by simp
qed

text \<open>A month of a Hebrew year without days is the sixth of a common year.\<close>

lemma hebrew_next_month:
  assumes "hebrew_year y" "1 \<le> m" "m < 13"
  defines "k \<equiv> if hebrew_month_days (m + 1) y = 0 then m + 2 else m + 1"
  shows "k \<le> 13" "1 \<le> k" "1 \<le> hebrew_month_days k y"
    "hebrew_before y k = hebrew_before y m + hebrew_month_days m y"
proof -
  have z: "hebrew_month_days i y = 0 \<Longrightarrow> i = 6" if "1 \<le> i" "i \<le> 13" for i
    using assms(1) hebrew_months [OF that]
    by (auto simp: hebrew_month_days_def hebrew_days_in_month_def hebrew_year_def Let_def split: if_splits)
  have "hebrew_month_days 7 y = 29"
    using assms(1) by (simp add: hebrew_month_days_def hebrew_days_in_month_def hebrew_year_def Let_def)
  with z [of "m + 1"] hebrew_month_days_bounds(1) [of "m + 1" y] assms
  show "k \<le> 13" "1 \<le> k" "1 \<le> hebrew_month_days k y" by (auto simp: k_def)
  show "hebrew_before y k = hebrew_before y m + hebrew_month_days m y"
    using hebrew_before_step [of m y] hebrew_before_step [of "m + 1" y] assms by (simp add: k_def add.assoc)
qed

lemma hebrew_tomorrow:
  assumes d: "real_date hebrew_month_days 13 hebrew_year d"
    and r: "HEBREW_EPOCH_JD \<le> jd_of hebrew_to_jd d" "jd_of hebrew_to_jd d < HEBREW_LAST_JD"
  defines "n \<equiv> next_date hebrew_month_days 13 (\<lambda>y. y + 1) d"
  shows "real_date hebrew_month_days 13 hebrew_year n \<and> jd_of hebrew_to_jd n = jd_of hebrew_to_jd d + 1"
proof -
  obtain m day y where c: "d = civil m day y" using civil_surj by metis
  have v: "1 \<le> m" "m \<le> 13" "1 \<le> day" "day \<le> hebrew_month_days m y" "hebrew_year y"
    using d by (auto simp: c real_date_def)
  have j: "jd_of hebrew_to_jd d = hebrew_new_year y + hebrew_before y m + day - 1"
    using hebrew_to_jd_start [OF d] r by (auto simp: c calendar_bounds split: if_splits)
  have goal: ?thesis
    if "real_date hebrew_month_days 13 hebrew_year n"
      "hebrew_new_year (cd_year n) + hebrew_before (cd_year n) (cd_month n) + cd_day n - 1 = jd_of hebrew_to_jd d + 1"
    using that hebrew_to_jd_start [OF that(1)] r(2) by simp
  consider (day) "day < hebrew_month_days m y" | (month) "day = hebrew_month_days m y" "m < 13"
    | (year) "day = hebrew_month_days m y" "m = 13" using v by linarith
  then show ?thesis
  proof cases
    case day
    then show ?thesis using v j by (intro goal) (simp_all add: n_def next_date_def c real_date_def)
  next
    case month
    then show ?thesis using hebrew_next_month [OF v(5,1) month(2)] v j
      by (cases "hebrew_month_days (m + 1) y = 0"; intro goal) (simp_all add: n_def next_date_def c real_date_def)
  next
    case year
    have e: "hebrew_before y 13 + day = hebrew_year_days y"
      using hebrew_before_step [of 13 y] hebrew_months_fill [OF v(5)] year by simp
    then have s: "jd_of hebrew_to_jd d + 1 = hebrew_new_year (y + 1)" using j year by (simp add: hebrew_year_days_def)
    then have "y \<noteq> HEBREW_LAST_YEAR" using r(2) hebrew_ends(2) by auto
    then have y': "hebrew_year (y + 1)" using v(5) by (simp add: hebrew_year_def)
    moreover have "hebrew_month_days 1 (y + 1) = 30"
      using y' by (simp add: hebrew_month_days_def hebrew_days_in_month_def hebrew_year_def)
    ultimately show ?thesis using year s by (intro goal) (simp_all add: n_def next_date_def c real_date_def)
  qed
qed

interpretation hebrew: civil_calendar hebrew_to_jd hebrew_from_jd
  "real_date hebrew_month_days 13 hebrew_year" "next_date hebrew_month_days 13 (\<lambda>y. y + 1)"
  HEBREW_EPOCH_JD HEBREW_LAST_JD
proof
  show "jd < HEBREW_EPOCH_JD \<or> HEBREW_LAST_JD < jd \<Longrightarrow> hebrew_from_jd jd = INVALID" for jd
    by (auto simp: hebrew_from_jd_def)
qed (simp_all add: hebrew_from_real hebrew_from_to hebrew_tomorrow, simp add: real_date_def)

end
