(* ===== verification/Calendar_Functions.thy ===== *)
theory Calendar_Functions
  imports Calendar_Days Array_Properties
begin

text \<open>
  The PHP functions of \<open>src/src/stdlib/calendar.rs\<close>: the arrays of \<open>cal_info\<close> and \<open>cal_from_jd\<close>
  (built with the \<open>PhpArray\<close> operations), Hebrew numerals, Easter, Unix time, and the handlers. A
  handler gets what the argument conversions of the runtime answer (\<open>argument\<close>: a value, an
  exception already raised, or an error of the virtual machine) and ends in an \<open>outcome\<close>; the
  clock is an argument.
\<close>

subsection \<open>Arrays of calendar data\<close>

definition php_string :: "byte_string \<Rightarrow> php_value" where
  "php_string s = VString s False"

text \<open>The loop \<open>for (index, month) in months.iter().enumerate()\<close>.\<close>

definition month_values :: "byte_string list \<Rightarrow> parray" where
  "month_values months =
     fold (\<lambda>(index, name). array_set (Key_Int (int index + 1)) (php_string name))
       (List.enumerate 0 months) (with_hash_capacity (length months))"

definition calendar_info_fields ::
    "int \<Rightarrow> (byte_string list \<times> byte_string list \<times> int \<times> byte_string \<times> byte_string) option" where
  "calendar_info_fields calendar =
     (if calendar = CAL_GREGORIAN then
        Some (MONTHS_LONG, MONTHS_SHORT, 31, ''Gregorian'', ''CAL_GREGORIAN'')
      else if calendar = CAL_JULIAN then
        Some (MONTHS_LONG, MONTHS_SHORT, 31, ''Julian'', ''CAL_JULIAN'')
      else if calendar = CAL_JEWISH then
        Some (MONTHS_JEWISH, MONTHS_JEWISH, 30, ''Jewish'', ''CAL_JEWISH'')
      else if calendar = CAL_FRENCH then
        Some (MONTHS_FRENCH, MONTHS_FRENCH, 30, ''French'', ''CAL_FRENCH'')
      else None)"

text \<open>\<open>None\<close> is the \<open>unreachable!\<close> of the source.\<close>

definition calendar_info :: "int \<Rightarrow> parray option" where
  "calendar_info calendar =
     (case calendar_info_fields calendar of
        None \<Rightarrow> None
      | Some (months, abbreviations, maximum, name, symbol) \<Rightarrow>
          Some (set_str ''calsymbol'' (php_string symbol)
            (set_str ''calname'' (php_string name)
              (set_str ''maxdaysinmonth'' (VLong maximum)
                (set_str ''abbrevmonths'' (VArray (month_values abbreviations))
                  (set_str ''months'' (VArray (month_values months)) (with_hash_capacity 5)))))))"

definition cal_day_fields :: "int \<Rightarrow> civil_date \<Rightarrow> nat \<Rightarrow> parray \<Rightarrow> parray" where
  "cal_day_fields calendar date dow a =
     (if calendar = CAL_JEWISH \<and> \<not> is_valid date then
        set_str ''dayname'' (php_string '''')
          (set_str ''abbrevdayname'' (php_string '''') (set_str ''dow'' VNull a))
      else
        set_str ''dayname'' (php_string (WEEKDAYS_LONG ! dow))
          (set_str ''abbrevdayname'' (php_string (WEEKDAYS_SHORT ! dow))
            (set_str ''dow'' (VLong (int dow)) a)))"

definition cal_from_jd_value :: "int \<Rightarrow> int \<Rightarrow> parray" where
  "cal_from_jd_value jd calendar =
     (let date = calendar_from_jd jd calendar;
          dow = weekday jd;
          abbreviation = month_name calendar date (calendar \<le> CAL_JULIAN);
          full = month_name calendar date False;
          result = set_str ''date'' (php_string (display date)) (with_hash_capacity 9);
          result = set_str ''month'' (VLong (cd_month date)) result;
          result = set_str ''day'' (VLong (cd_day date)) result;
          result = set_str ''year'' (VLong (cd_year date)) result;
          result = cal_day_fields calendar date dow result;
          result = set_str ''abbrevmonth'' (php_string abbreviation) result
      in set_str ''monthname'' (php_string full) result)"

subsection \<open>Hebrew numerals\<close>

definition HEBREW_LETTERS :: "char list" where
  "HEBREW_LETTERS = [CHR ''0'', CHR 0xE0, CHR 0xE1, CHR 0xE2, CHR 0xE3, CHR 0xE4, CHR 0xE5,
     CHR 0xE6, CHR 0xE7, CHR 0xE8, CHR 0xE9, CHR 0xEB, CHR 0xEC, CHR 0xEE, CHR 0xF0,
     CHR 0xF1, CHR 0xF2, CHR 0xF4, CHR 0xF6, CHR 0xF7, CHR 0xF8, CHR 0xF9, CHR 0xFA]"

definition HEBREW_VALUES :: "(int \<times> char) list" where
  "HEBREW_VALUES = [(400, CHR 0xFA), (300, CHR 0xF9), (200, CHR 0xF8), (100, CHR 0xF7),
     (90, CHR 0xF6), (80, CHR 0xF4), (70, CHR 0xF2), (60, CHR 0xF1), (50, CHR 0xF0),
     (40, CHR 0xEE), (30, CHR 0xEC), (20, CHR 0xEB), (10, CHR 0xE9), (9, CHR 0xE8), (8, CHR 0xE7),
     (7, CHR 0xE6), (6, CHR 0xE5), (5, CHR 0xE4), (4, CHR 0xE3), (3, CHR 0xE2), (2, CHR 0xE1),
     (1, CHR 0xE0)]"

text \<open>\<open>while value >= 400\<close>.\<close>

function hebrew_hundreds :: "int \<Rightarrow> char list \<Rightarrow> int \<times> char list" where
  "hebrew_hundreds v out =
     (if 400 \<le> v then hebrew_hundreds (v - 400) (out @ [CHR 0xFA]) else (v, out))"
  by pat_completeness auto
termination by (relation "measure (\<lambda>(v, out). nat v)") auto

declare hebrew_hundreds.simps [simp del]

fun hebrew_greedy :: "(int \<times> char) list \<Rightarrow> int \<Rightarrow> char list \<Rightarrow> char list" where
  "hebrew_greedy [] v out = out"
| "hebrew_greedy ((amount, letter) # table) v out =
     (if amount \<le> v then hebrew_greedy table (v - amount) (out @ [letter])
      else hebrew_greedy table v out)"

definition hebrew_thousands :: "int \<Rightarrow> int \<Rightarrow> char list" where
  "hebrew_thousands thousands flags =
     [HEBREW_LETTERS ! nat thousands]
     @ (if flags AND 2 \<noteq> 0 then [CHR 39] else [])
     @ (if flags AND 4 \<noteq> 0
        then [CHR '' '', CHR 0xE0, CHR 0xEC, CHR 0xF4, CHR 0xE9, CHR 0xED, CHR '' ''] else [])"

text \<open>The letters behind the thousands.\<close>

definition hebrew_remainder :: "int \<Rightarrow> char list" where
  "hebrew_remainder v =
     (let (v, out) = hebrew_hundreds v [];
          (v, out) = (if v = 15 then (0, out @ [CHR 0xE8, CHR 0xE5])
                      else if v = 16 then (0, out @ [CHR 0xE8, CHR 0xE6]) else (v, out))
      in hebrew_greedy HEBREW_VALUES v out)"

definition hebrew_gereshayim :: "int \<Rightarrow> char list \<Rightarrow> char list" where
  "hebrew_gereshayim flags out =
     (if flags AND 8 = 0 \<or> out = [] then out
      else if length out = 1 then out @ [CHR 39]
      else butlast out @ [CHR 0x22, last out])"

definition append_hebrew_number :: "int \<Rightarrow> int \<Rightarrow> char list \<Rightarrow> char list" where
  "append_hebrew_number v flags out =
     (if \<not> (1 \<le> v \<and> v \<le> 9999) then out
      else
        (let thousands = v sdiv 1000;
             out = (if 0 < thousands then out @ hebrew_thousands thousands flags else out);
             v = (if 0 < thousands then v smod 1000 else v)
         in out @ hebrew_gereshayim flags (hebrew_remainder v)))"

definition HEBREW_MONTHS_LEAP :: "char list list" where
  "HEBREW_MONTHS_LEAP =
    [[CHR 0xFA, CHR 0xF9, CHR 0xF8, CHR 0xE9], [CHR 0xE7, CHR 0xF9, CHR 0xE5, CHR 0xEF],
     [CHR 0xEB, CHR 0xF1, CHR 0xEC, CHR 0xE5], [CHR 0xE8, CHR 0xE1, CHR 0xFA],
     [CHR 0xF9, CHR 0xE1, CHR 0xE8],
     [CHR 0xE0, CHR 0xE3, CHR 0xF8, CHR '' '', CHR 0xE0, CHR 39],
     [CHR 0xE0, CHR 0xE3, CHR 0xF8, CHR '' '', CHR 0xE1, CHR 39],
     [CHR 0xF0, CHR 0xE9, CHR 0xF1, CHR 0xEF], [CHR 0xE0, CHR 0xE9, CHR 0xE9, CHR 0xF8],
     [CHR 0xF1, CHR 0xE9, CHR 0xE5, CHR 0xEF], [CHR 0xFA, CHR 0xEE, CHR 0xE5, CHR 0xE6],
     [CHR 0xE0, CHR 0xE1], [CHR 0xE0, CHR 0xEC, CHR 0xE5, CHR 0xEC]]"

definition HEBREW_MONTHS_COMMON :: "char list list" where
  "HEBREW_MONTHS_COMMON =
    [[CHR 0xFA, CHR 0xF9, CHR 0xF8, CHR 0xE9], [CHR 0xE7, CHR 0xF9, CHR 0xE5, CHR 0xEF],
     [CHR 0xEB, CHR 0xF1, CHR 0xEC, CHR 0xE5], [CHR 0xE8, CHR 0xE1, CHR 0xFA],
     [CHR 0xF9, CHR 0xE1, CHR 0xE8], [], [CHR 0xE0, CHR 0xE3, CHR 0xF8],
     [CHR 0xF0, CHR 0xE9, CHR 0xF1, CHR 0xEF], [CHR 0xE0, CHR 0xE9, CHR 0xE9, CHR 0xF8],
     [CHR 0xF1, CHR 0xE9, CHR 0xE5, CHR 0xEF], [CHR 0xFA, CHR 0xEE, CHR 0xE5, CHR 0xE6],
     [CHR 0xE0, CHR 0xE1], [CHR 0xE0, CHR 0xEC, CHR 0xE5, CHR 0xEC]]"

text \<open>The month of a valid date is in the table, so the slice is never indexed past its end.\<close>

definition hebrew_date_bytes :: "civil_date \<Rightarrow> int \<Rightarrow> char list" where
  "hebrew_date_bytes date flags =
     (if \<not> is_valid date then ''0/0/0''
      else
        (let result = append_hebrew_number (cd_day date) flags [];
             result = result @ '' '';
             months = (if hebrew_is_leap_year (cd_year date)
                       then HEBREW_MONTHS_LEAP else HEBREW_MONTHS_COMMON);
             result = result @ months ! nat (cd_month date - 1);
             result = result @ '' ''
         in append_hebrew_number (cd_year date) flags result))"

definition binary_string :: "char list \<Rightarrow> php_value" where
  "binary_string bytes = VString (php_byte_string_from_bytes bytes) True"

subsection \<open>Easter\<close>

definition easter_gregorian_packed :: "int \<Rightarrow> int" where
  "easter_gregorian_packed year =
     (let golden = year mod 19;
          century = year sdiv 100;
          years_in_cycle = year mod 100;
          leap_centuries = century sdiv 4;
          century_remainder = century mod 4;
          solar_correction = (century + 8) sdiv 25;
          lunar_correction = (century - solar_correction + 1) sdiv 3;
          epact = (19 * golden + century - leap_centuries - lunar_correction + 15) mod 30;
          leap_quarters = years_in_cycle sdiv 4;
          year_remainder = years_in_cycle mod 4;
          wday = (32 + 2 * century_remainder + 2 * leap_quarters - epact - year_remainder) mod 7;
          adj = (golden + 11 * epact + 22 * wday) sdiv 451
      in epact + wday - 7 * adj + 114)"

definition easter_julian_packed :: "int \<Rightarrow> int" where
  "easter_julian_packed year =
     (let golden = year mod 19;
          epact = (19 * golden + 15) mod 30;
          wday = (2 * (year mod 4) + 4 * (year mod 7) - epact + 34) mod 7
      in epact + wday + 114)"

definition easter_is_gregorian :: "int \<Rightarrow> int \<Rightarrow> bool" where
  "easter_is_gregorian year mode =
     (if mode = 2 then True else if mode = 3 then False
      else if mode = 1 then 1582 < year else 1752 < year)"

definition easter_days_for :: "int \<Rightarrow> int \<Rightarrow> int" where
  "easter_days_for year mode =
     (let packed = (if easter_is_gregorian year mode
                    then easter_gregorian_packed year else easter_julian_packed year);
          month = packed sdiv 31; day = packed mod 31 + 1
      in if month = 3 then day - 21 else day + 10)"

subsection \<open>Unix time\<close>

definition unix_to_jd :: "int \<Rightarrow> int option" where
  "unix_to_jd timestamp =
     (if timestamp < 0 then None
      else
        (case checked_add UNIX_EPOCH_JD (timestamp sdiv 86400) of
           None \<Rightarrow> None
         | Some jd \<Rightarrow>
             (let date = gregorian_from_jd jd
              in if is_valid date \<and> cd_year date \<le> i32_MAX then Some jd else None)))"

text \<open>The clock (\<open>current_timestamp\<close>) is the argument \<open>now\<close>.\<close>

definition current_year :: "int \<Rightarrow> int" where
  "current_year now =
     (case map_option gregorian_from_jd (unix_to_jd now) of
        Some date \<Rightarrow> if is_valid date then cd_year date else 1970
      | None \<Rightarrow> 1970)"

definition parts_to_unix :: "int \<Rightarrow> int \<Rightarrow> int \<Rightarrow> int option" where
  "parts_to_unix year month day =
     checked ((gregorian_to_jd month day year - UNIX_EPOCH_JD) * 86400)"

subsection \<open>The handlers\<close>

datatype 'a argument = Vm_Failure | Already_Raised | Converted 'a

datatype outcome =
    Fails
  | Raised
  | Unwritten
  | Value_Error byte_string
  | Returns php_value

fun with_argument :: "'a argument \<Rightarrow> ('a \<Rightarrow> outcome) \<Rightarrow> outcome" where
  "with_argument Vm_Failure k = Fails"
| "with_argument Already_Raised k = Raised"
| "with_argument (Converted x) k = k x"

text \<open>An argument left out (\<open>Undef\<close>), with the default the handler takes for it.\<close>

fun optional_argument :: "'a argument option \<Rightarrow> 'a \<Rightarrow> ('a \<Rightarrow> outcome) \<Rightarrow> outcome" where
  "optional_argument None def k = k def"
| "optional_argument (Some arg) def k = with_argument arg k"

definition validate_calendar :: "byte_string \<Rightarrow> nat \<Rightarrow> int \<Rightarrow> outcome \<Rightarrow> outcome" where
  "validate_calendar func pos calendar k =
     (if 0 \<le> calendar \<and> calendar < CAL_NUM_CALS then k
      else Value_Error (func @ ''(): Argument #'' @ show_nat pos @
             '' ($calendar) must be a valid calendar ID''))"

definition days_in_month_of :: "int \<Rightarrow> int \<Rightarrow> int \<Rightarrow> outcome" where
  "days_in_month_of calendar month year =
     (let start = calendar_to_jd calendar month 1 year
      in if start = 0 then Value_Error ''Invalid date''
         else
           (let next = calendar_to_jd calendar (month + 1) 1 year;
                next =
                  (if next = 0 then
                     (let next_year = (if year = -1 then 1 else year + 1);
                          next = calendar_to_jd calendar 1 1 next_year
                      in if calendar = CAL_FRENCH \<and> next = 0 then FRENCH_LAST_JD + 1 else next)
                   else next)
            in Returns (VLong (next - start))))"

definition fn_cal_days_in_month :: "int argument \<Rightarrow> int argument \<Rightarrow> int argument \<Rightarrow> outcome" where
  "fn_cal_days_in_month a0 a1 a2 =
     with_argument a0 (\<lambda>calendar. with_argument a1 (\<lambda>month. with_argument a2 (\<lambda>year.
       validate_calendar ''cal_days_in_month'' 1 calendar
         (if \<not> (1 \<le> month \<and> month \<le> 2147483646) then
            Value_Error ''cal_days_in_month(): Argument #2 ($month) must be between 1 and 2147483646''
          else if 2147483646 < year then
            Value_Error ''cal_days_in_month(): Argument #3 ($year) must be less than 2147483646''
          else days_in_month_of calendar month year))))"

definition fn_cal_from_jd :: "int argument \<Rightarrow> int argument \<Rightarrow> outcome" where
  "fn_cal_from_jd a0 a1 =
     with_argument a0 (\<lambda>jd. with_argument a1 (\<lambda>calendar.
       validate_calendar ''cal_from_jd'' 2 calendar
         (Returns (VArray (cal_from_jd_value jd calendar)))))"

text \<open>\<open>calendar_info\<close> is only asked for the four calendars, so its \<open>None\<close> does not arise.\<close>

definition info_value :: "int \<Rightarrow> php_value" where
  "info_value calendar = (case calendar_info calendar of Some a \<Rightarrow> VArray a | None \<Rightarrow> VUndef)"

definition fn_cal_info :: "int argument option \<Rightarrow> outcome" where
  "fn_cal_info a0 =
     optional_argument a0 (-1) (\<lambda>calendar.
       if calendar = -1 then
         Returns (VArray (fold (\<lambda>id. array_set (Key_Int id) (info_value id)) [0..CAL_NUM_CALS - 1]
           (with_hash_capacity (nat CAL_NUM_CALS))))
       else validate_calendar ''cal_info'' 1 calendar (Returns (info_value calendar)))"

definition fn_cal_to_jd :: "int argument \<Rightarrow> int argument \<Rightarrow> int argument \<Rightarrow> int argument \<Rightarrow> outcome" where
  "fn_cal_to_jd a0 a1 a2 a3 =
     with_argument a0 (\<lambda>calendar. with_argument a1 (\<lambda>month. with_argument a2 (\<lambda>day.
     with_argument a3 (\<lambda>year.
       validate_calendar ''cal_to_jd'' 1 calendar
         (if \<not> (1 \<le> month \<and> month \<le> 2147483646) then
            Value_Error ''cal_to_jd(): Argument #2 ($month) must be between 1 and 2147483646''
          else if \<not> (- 2147483648 \<le> day \<and> day \<le> 2147483647) then
            Value_Error ''cal_to_jd(): Argument #3 ($day) must be between -2147483648 and 2147483647''
          else if 2147483646 < year then
            Value_Error ''cal_to_jd(): Argument #4 ($year) must be less than 2147483646''
          else Returns (VLong (calendar_to_jd calendar month day year)))))))"

text \<open>\<open>gregoriantojd\<close>, \<open>juliantojd\<close> and \<open>frenchtojd\<close> differ in the conversion only.\<close>

definition direct_to_jd ::
    "(int \<Rightarrow> int \<Rightarrow> int \<Rightarrow> int) \<Rightarrow> int argument \<Rightarrow> int argument \<Rightarrow> int argument \<Rightarrow> outcome" where
  "direct_to_jd to_jd a0 a1 a2 =
     with_argument a0 (\<lambda>month. with_argument a1 (\<lambda>day. with_argument a2 (\<lambda>year.
       Returns (VLong (to_jd (direct_calendar_int month) (direct_calendar_int day)
         (direct_calendar_int year))))))"

definition fn_gregorian_to_jd :: "int argument \<Rightarrow> int argument \<Rightarrow> int argument \<Rightarrow> outcome" where
  "fn_gregorian_to_jd = direct_to_jd gregorian_to_jd"

definition fn_julian_to_jd :: "int argument \<Rightarrow> int argument \<Rightarrow> int argument \<Rightarrow> outcome" where
  "fn_julian_to_jd = direct_to_jd julian_to_jd"

definition fn_french_to_jd :: "int argument \<Rightarrow> int argument \<Rightarrow> int argument \<Rightarrow> outcome" where
  "fn_french_to_jd = direct_to_jd french_to_jd"

definition jewish_range_error :: "nat \<Rightarrow> byte_string \<Rightarrow> byte_string" where
  "jewish_range_error pos name =
     ''jewishtojd(): Argument #'' @ show_nat pos @ '' ($'' @ name @
     '') must be between -2147483648 and 2147483647''"

definition fn_jewish_to_jd :: "int argument \<Rightarrow> int argument \<Rightarrow> int argument \<Rightarrow> outcome" where
  "fn_jewish_to_jd a0 a1 a2 =
     with_argument a0 (\<lambda>month. with_argument a1 (\<lambda>day. with_argument a2 (\<lambda>year.
       if \<not> in_i32 month then Value_Error (jewish_range_error 1 ''month'')
       else if \<not> in_i32 day then Value_Error (jewish_range_error 2 ''day'')
       else if \<not> in_i32 year then Value_Error (jewish_range_error 3 ''year'')
       else Returns (VLong (hebrew_to_jd month day year)))))"

definition fn_jd_to_gregorian :: "int argument \<Rightarrow> outcome" where
  "fn_jd_to_gregorian a0 =
     with_argument a0 (\<lambda>jd. Returns (php_string (display (gregorian_from_jd jd))))"

definition fn_jd_to_julian :: "int argument \<Rightarrow> outcome" where
  "fn_jd_to_julian a0 =
     with_argument a0 (\<lambda>jd. Returns (php_string (display (julian_from_jd jd))))"

definition fn_jd_to_french :: "int argument \<Rightarrow> outcome" where
  "fn_jd_to_french a0 =
     with_argument a0 (\<lambda>jd. Returns (php_string (display (french_from_jd jd))))"

definition fn_jd_to_jewish :: "int argument \<Rightarrow> bool argument option \<Rightarrow> int argument option \<Rightarrow> outcome" where
  "fn_jd_to_jewish a0 a1 a2 =
     with_argument a0 (\<lambda>jd. optional_argument a1 False (\<lambda>hebrew. optional_argument a2 0 (\<lambda>flags.
       let date = hebrew_from_jd jd
       in if hebrew \<and> \<not> (1 \<le> cd_year date \<and> cd_year date \<le> 9999)
          then Value_Error ''Year out of range (0-9999)''
          else if hebrew then Returns (binary_string (hebrew_date_bytes date flags))
          else Returns (php_string (display date)))))"

definition fn_jd_day_of_week :: "int argument \<Rightarrow> int argument option \<Rightarrow> outcome" where
  "fn_jd_day_of_week a0 a1 =
     with_argument a0 (\<lambda>jd. optional_argument a1 0 (\<lambda>mode.
       let day = weekday jd
       in Returns (if mode = 1 then php_string (WEEKDAYS_LONG ! day)
                   else if mode = 2 then php_string (WEEKDAYS_SHORT ! day)
                   else VLong (int day))))"

definition month_name_mode :: "int \<Rightarrow> int \<times> bool" where
  "month_name_mode mode =
     (if mode = 0 then (CAL_GREGORIAN, True)
      else if mode = 1 then (CAL_GREGORIAN, False)
      else if mode = 2 then (CAL_JULIAN, True)
      else if mode = 3 then (CAL_JULIAN, False)
      else if mode = 4 then (CAL_JEWISH, False)
      else if mode = 5 then (CAL_FRENCH, False)
      else (CAL_GREGORIAN, True))"

definition fn_jd_month_name :: "int argument \<Rightarrow> int argument \<Rightarrow> outcome" where
  "fn_jd_month_name a0 a1 =
     with_argument a0 (\<lambda>jd. with_argument a1 (\<lambda>mode.
       let (calendar, short) = month_name_mode mode; date = calendar_from_jd jd calendar
       in Returns (php_string (month_name calendar date short))))"

definition easter_year_error :: "byte_string \<Rightarrow> byte_string" where
  "easter_year_error func =
     func @ ''(): Argument #1 ($year) must be between 1 and '' @ show_int MAX_EASTER_DAYS_YEAR"

text \<open>A year left out or null is the current one.\<close>

definition fn_easter_days :: "int \<Rightarrow> int argument option \<Rightarrow> int argument option \<Rightarrow> outcome" where
  "fn_easter_days now a0 a1 =
     optional_argument a0 (current_year now) (\<lambda>year. optional_argument a1 0 (\<lambda>mode.
       if \<not> (1 \<le> year \<and> year \<le> MAX_EASTER_DAYS_YEAR) then Value_Error (easter_year_error ''easter_days'')
       else Returns (VLong (easter_days_for year mode))))"

definition fn_easter_date :: "int \<Rightarrow> int argument option \<Rightarrow> int argument option \<Rightarrow> outcome" where
  "fn_easter_date now a0 a1 =
     optional_argument a0 (current_year now) (\<lambda>year. optional_argument a1 0 (\<lambda>mode.
       if \<not> (1 \<le> year \<and> year \<le> MAX_EASTER_DAYS_YEAR) then Value_Error (easter_year_error ''easter_date'')
       else if year < 1970 then
         Value_Error ''easter_date(): Argument #1 ($year) must be a year after 1970 (inclusive)''
       else if 2000000000 < year then
         Value_Error ''easter_date(): Argument #1 ($year) must be a year before 2.000.000.000 (inclusive)''
       else
         (let offset = easter_days_for year mode;
              (month, day) = (if offset \<le> 10 then (3, 21 + offset) else (4, offset - 10))
          in case parts_to_unix year month day of
               None \<Rightarrow> Unwritten
             | Some timestamp \<Rightarrow> Returns (VLong timestamp))))"

definition fn_jd_to_unix :: "int argument \<Rightarrow> outcome" where
  "fn_jd_to_unix a0 =
     with_argument a0 (\<lambda>jd.
       if \<not> (UNIX_EPOCH_JD \<le> jd \<and> jd \<le> MAX_UNIX_JD) then
         Value_Error (''jday must be between '' @ show_int UNIX_EPOCH_JD @ '' and '' @ show_int MAX_UNIX_JD)
       else Returns (VLong ((jd - UNIX_EPOCH_JD) * 86400)))"

definition fn_unix_to_jd :: "int \<Rightarrow> int argument option \<Rightarrow> outcome" where
  "fn_unix_to_jd now a0 =
     optional_argument a0 now (\<lambda>timestamp.
       if timestamp < 0 then
         Value_Error ''unixtojd(): Argument #1 ($timestamp) must be greater than or equal to 0''
       else
         (case unix_to_jd timestamp of
            Some jd \<Rightarrow> Returns (VLong jd)
          | None \<Rightarrow> Returns VFalse))"

end
