(* ===== verification/Calendar_Laws.thy ===== *)
theory Calendar_Laws
  imports Calendar_Functions
begin

text \<open>
  The four calendars behind the dispatch of \<open>calendar_from_jd\<close> and \<open>calendar_to_jd\<close>, each with its
  reference (the days of its months), and what \<open>cal_days_in_month\<close> computes.
\<close>

subsection \<open>The references by calendar id\<close>

definition cal_month_days :: "int \<Rightarrow> int \<Rightarrow> int \<Rightarrow> int" where
  "cal_month_days calendar =
     (if calendar = CAL_GREGORIAN then roman_month_days gregorian_leap
      else if calendar = CAL_JULIAN then roman_month_days julian_leap
      else if calendar = CAL_JEWISH then hebrew_month_days else french_month_days)"

definition cal_months :: "int \<Rightarrow> int" where
  "cal_months calendar = (if calendar = CAL_GREGORIAN \<or> calendar = CAL_JULIAN then 12 else 13)"

definition cal_year :: "int \<Rightarrow> int \<Rightarrow> bool" where
  "cal_year calendar =
     (if calendar = CAL_GREGORIAN \<or> calendar = CAL_JULIAN then php_year
      else if calendar = CAL_JEWISH then hebrew_year else french_year)"

definition cal_next_year :: "int \<Rightarrow> int \<Rightarrow> int" where
  "cal_next_year calendar =
     (if calendar = CAL_GREGORIAN \<or> calendar = CAL_JULIAN then next_php_year else (\<lambda>y. y + 1))"

definition cal_first :: "int \<Rightarrow> int" where
  "cal_first calendar =
     (if calendar = CAL_JEWISH then HEBREW_EPOCH_JD else if calendar = CAL_FRENCH then FRENCH_EPOCH_JD else 1)"

definition cal_last :: "int \<Rightarrow> int" where
  "cal_last calendar =
     (if calendar = CAL_GREGORIAN then GREGORIAN_LAST_JD else if calendar = CAL_JULIAN then JULIAN_LAST_JD
      else if calendar = CAL_JEWISH then HEBREW_LAST_JD else FRENCH_LAST_JD)"

definition calendar_date :: "int \<Rightarrow> civil_date \<Rightarrow> bool" where
  "calendar_date calendar = real_date (cal_month_days calendar) (cal_months calendar) (cal_year calendar)"

definition calendar_next :: "int \<Rightarrow> civil_date \<Rightarrow> civil_date" where
  "calendar_next calendar = next_date (cal_month_days calendar) (cal_months calendar) (cal_next_year calendar)"

lemma direct_calendar_int_id: "in_i32 v \<Longrightarrow> direct_calendar_int v = v"
  by (simp add: direct_calendar_int_def in_i32_def i32_MAX_def)

lemma calendar_cases:
  assumes "0 \<le> calendar" "calendar < CAL_NUM_CALS"
  obtains "calendar = 0" | "calendar = 1" | "calendar = 2" | "calendar = 3"
  using assms by fastforce

lemmas cal_spec_defs = cal_month_days_def cal_months_def cal_year_def cal_next_year_def cal_first_def cal_last_def

lemma cal_month_days_le: "cal_month_days calendar m y \<le> 31"
  using hebrew_month_days_bounds(2) [of m y]
  by (auto simp: cal_month_days_def roman_month_days_def french_month_days_def)

lemma calendar_date_i32:
  assumes "calendar_date calendar d"
  shows "in_i32 (cd_month d)" "in_i32 (cd_day d)" "in_i32 (cd_year d)"
  using assms cal_month_days_le [of calendar "cd_month d" "cd_year d"]
  by (auto simp: calendar_date_def real_date_def cal_months_def cal_year_def php_year_def hebrew_year_def
      french_year_def in_i32_def i32_MAX_def calendar_bounds split: if_splits)

text \<open>A conversion may be replaced by one that agrees on the dates of the calendar.\<close>

lemma civil_calendar_cong:
  assumes "civil_calendar to_jd from_jd genuine tomorrow first_jd last_jd"
    and "\<And>d. genuine d \<Longrightarrow> jd_of to_jd' d = jd_of to_jd d"
  shows "civil_calendar to_jd' from_jd genuine tomorrow first_jd last_jd"
  using assms unfolding civil_calendar_def by simp

lemma calendar_dispatch:
  assumes "0 \<le> calendar" "calendar < CAL_NUM_CALS"
  shows "civil_calendar (calendar_to_jd calendar) (\<lambda>jd. calendar_from_jd jd calendar)
    (calendar_date calendar) (calendar_next calendar) (cal_first calendar) (cal_last calendar)"
proof -
  have agree: "jd_of (calendar_to_jd calendar) d =
      jd_of (if calendar = 0 then gregorian_to_jd else if calendar = 1 then julian_to_jd
             else if calendar = 2 then hebrew_to_jd else french_to_jd) d" if "calendar_date calendar d" for d
    using calendar_date_i32 [OF that] assms
    by (auto simp: jd_of_def calendar_to_jd_def direct_calendar_int_id Let_def)
  show ?thesis
  proof (rule civil_calendar_cong [OF _ agree])
    show "civil_calendar (if calendar = 0 then gregorian_to_jd else if calendar = 1 then julian_to_jd
        else if calendar = 2 then hebrew_to_jd else french_to_jd) (\<lambda>jd. calendar_from_jd jd calendar)
      (calendar_date calendar) (calendar_next calendar) (cal_first calendar) (cal_last calendar)"
      using assms
    proof (cases rule: calendar_cases)
      case 1
      then show ?thesis using gregorian.civil_calendar_axioms
        by (simp add: calendar_date_def calendar_next_def cal_spec_defs calendar_from_jd_def)
    next
      case 2
      then show ?thesis using julian.civil_calendar_axioms
        by (simp add: calendar_date_def calendar_next_def cal_spec_defs calendar_from_jd_def)
    next
      case 3
      then show ?thesis using hebrew.civil_calendar_axioms
        by (simp add: calendar_date_def calendar_next_def cal_spec_defs calendar_from_jd_def)
    next
      case 4
      then show ?thesis using french.civil_calendar_axioms
        by (simp add: calendar_date_def calendar_next_def cal_spec_defs calendar_from_jd_def)
    qed
  qed
qed

subsection \<open>The days of a month\<close>

locale dated_calendar =
  civil_calendar to_jd from_jd "real_date month_days months years" "next_date month_days months next_year" first_jd last_jd
  for to_jd :: "int \<Rightarrow> int \<Rightarrow> int \<Rightarrow> int" and from_jd month_days months years next_year first_jd last_jd
begin

text \<open>The days of a month follow its first one.\<close>

lemma month_day:
  assumes "real_date month_days months years (civil m 1 y)" "first_jd \<le> to_jd m 1 y"
    and "int n < month_days m y" "to_jd m 1 y + int n \<le> last_jd"
  shows "to_jd m (1 + int n) y = to_jd m 1 y + int n"
  using assms(3,4)
proof (induction n)
  case (Suc n)
  let ?d = "civil m (1 + int n) y"
  have j: "jd_of to_jd ?d = to_jd m 1 y + int n" using Suc by (simp add: jd_of_def)
  have "real_date month_days months years ?d" using assms(1) Suc.prems by (simp add: real_date_def)
  moreover have "next_date month_days months next_year ?d = civil m (1 + int (Suc n)) y"
    using Suc.prems by (simp add: next_date_def)
  ultimately show ?case using tomorrow [of ?d] j assms(2) Suc.prems by (simp add: jd_of_def)
qed simp

lemma month_end_next:
  assumes r: "real_date month_days months years (civil m 1 y)" and "first_jd \<le> to_jd m 1 y"
    and "to_jd m 1 y + month_days m y \<le> last_jd"
  shows "jd_of to_jd (if m < months then civil (if month_days (m + 1) y = 0 then m + 2 else m + 1) 1 y
      else civil 1 1 (next_year y)) = to_jd m 1 y + month_days m y"
proof -
  let ?d = "civil m (month_days m y) y"
  have md: "1 \<le> month_days m y" using r by (simp add: real_date_def)
  then have "jd_of to_jd ?d = to_jd m 1 y + month_days m y - 1"
    using month_day [OF r assms(2), of "nat (month_days m y - 1)"] assms(3) by (simp add: jd_of_def)
  moreover have "real_date month_days months years ?d" using r md by (simp add: real_date_def)
  ultimately show ?thesis
    using tomorrow [of ?d] assms(2,3) md by (simp add: next_date_def split: if_splits)
qed

end

lemma dated_dispatch:
  assumes "0 \<le> calendar" "calendar < CAL_NUM_CALS"
  shows "dated_calendar (calendar_to_jd calendar) (\<lambda>jd. calendar_from_jd jd calendar)
    (cal_month_days calendar) (cal_months calendar) (cal_year calendar) (cal_next_year calendar) (cal_first calendar) (cal_last calendar)"
  using calendar_dispatch [OF assms] by (simp add: dated_calendar_def calendar_date_def calendar_next_def)

interpretation gregorian_dates: dated_calendar "calendar_to_jd CAL_GREGORIAN" "\<lambda>jd. calendar_from_jd jd CAL_GREGORIAN"
  "cal_month_days CAL_GREGORIAN" "cal_months CAL_GREGORIAN" "cal_year CAL_GREGORIAN" "cal_next_year CAL_GREGORIAN"
  "cal_first CAL_GREGORIAN" "cal_last CAL_GREGORIAN"
  by (rule dated_dispatch) simp_all

interpretation julian_dates: dated_calendar "calendar_to_jd CAL_JULIAN" "\<lambda>jd. calendar_from_jd jd CAL_JULIAN"
  "cal_month_days CAL_JULIAN" "cal_months CAL_JULIAN" "cal_year CAL_JULIAN" "cal_next_year CAL_JULIAN"
  "cal_first CAL_JULIAN" "cal_last CAL_JULIAN"
  by (rule dated_dispatch) simp_all

interpretation hebrew_dates: dated_calendar "calendar_to_jd CAL_JEWISH" "\<lambda>jd. calendar_from_jd jd CAL_JEWISH"
  "cal_month_days CAL_JEWISH" "cal_months CAL_JEWISH" "cal_year CAL_JEWISH" "cal_next_year CAL_JEWISH"
  "cal_first CAL_JEWISH" "cal_last CAL_JEWISH"
  by (rule dated_dispatch) simp_all

interpretation french_dates: dated_calendar "calendar_to_jd CAL_FRENCH" "\<lambda>jd. calendar_from_jd jd CAL_FRENCH"
  "cal_month_days CAL_FRENCH" "cal_months CAL_FRENCH" "cal_year CAL_FRENCH" "cal_next_year CAL_FRENCH"
  "cal_first CAL_FRENCH" "cal_last CAL_FRENCH"
  by (rule dated_dispatch) simp_all

lemma small_direct: "0 \<le> v \<Longrightarrow> v \<le> i32_MAX \<Longrightarrow> direct_calendar_int v = v"
  by (simp add: direct_calendar_int_id in_i32_def)

text \<open>There is no month behind the last one, and the empty sixth month of a common Hebrew year begins
  with the seventh.\<close>

lemma no_month_behind:
  "0 \<le> calendar \<Longrightarrow> calendar < CAL_NUM_CALS \<Longrightarrow> calendar_to_jd calendar (cal_months calendar + 1) 1 y = 0"
  by (erule (1) calendar_cases)
     (simp_all add: calendar_to_jd_def cal_months_def small_direct i32_MAX_def Let_def gregorian_to_jd_def
       julian_to_jd_def hebrew_to_jd_def french_to_jd_def)

lemma empty_month_start:
  assumes "0 \<le> calendar" "calendar < CAL_NUM_CALS" "cal_year calendar y" "1 \<le> m" "m < cal_months calendar"
    "cal_month_days calendar (m + 1) y = 0"
  shows "calendar_to_jd calendar (m + 1) 1 y = calendar_to_jd calendar (m + 2) 1 y"
proof -
  have z: "roman_month_days leap k y \<noteq> 0" "french_month_days k y \<noteq> 0" for leap k
    by (simp_all add: roman_month_days_def french_month_days_def)
  have c: "calendar = 2" using assms(1,2,6) z by (auto simp: cal_month_days_def split: if_splits)
  then have h: "hebrew_year y" "1 \<le> m" "m < 13" "hebrew_month_days (m + 1) y = 0"
    using assms by (simp_all add: cal_spec_defs)
  have k: "m + 2 \<le> 13" "hebrew_before y (m + 2) = hebrew_before y (m + 1)"
    using hebrew_next_month [OF h(1-3)] hebrew_before_step [of m y] h by simp_all
  have "hebrew_to_jd k 1 y = (let j = hebrew_new_year y + hebrew_before y k in if HEBREW_LAST_JD < j then 0 else j)"
    if "1 \<le> k" "k \<le> 13" for k
    using that h(1) by (simp add: hebrew_to_jd_def hebrew_add_months_sum hebrew_before_def hebrew_year_def Let_def)
  then have "hebrew_to_jd (m + 1) 1 y = hebrew_to_jd (m + 2) 1 y" using k h by simp
  moreover have "in_i32 y" using h(1) by (simp add: hebrew_year_def in_i32_def i32_MAX_def calendar_bounds)
  ultimately show ?thesis
    using h c k by (simp add: calendar_to_jd_def small_direct direct_calendar_int_id i32_MAX_def Let_def)
qed

lemma next_year_eq:
  "0 \<le> calendar \<Longrightarrow> calendar < CAL_NUM_CALS \<Longrightarrow> cal_year calendar y \<Longrightarrow>
     (if y = -1 then 1 else y + 1) = cal_next_year calendar y"
  by (erule (1) calendar_cases)
     (simp_all add: cal_next_year_def next_php_year_def cal_year_def hebrew_year_def french_year_def)

lemma days_in_month_ok:
  assumes c: "0 \<le> calendar" "calendar < CAL_NUM_CALS" and d: "calendar_date calendar (civil m 1 y)"
    and j: "cal_first calendar \<le> calendar_to_jd calendar m 1 y"
      "calendar_to_jd calendar m 1 y + cal_month_days calendar m y \<le> cal_last calendar"
  shows "days_in_month_of calendar m y = Returns (VLong (cal_month_days calendar m y))"
proof -
  let ?start = "calendar_to_jd calendar m 1 y" and ?n = "cal_month_days calendar m y"
  have pos: "0 < ?start" using j(1) c by (auto simp: cal_first_def calendar_bounds split: if_splits)
  have r: "1 \<le> m" "m \<le> cal_months calendar" "cal_year calendar y" "1 \<le> ?n"
    using d by (auto simp: calendar_date_def real_date_def)
  note E = dated_calendar.month_end_next [OF dated_dispatch [OF c] d [unfolded calendar_date_def] j]
  show ?thesis
  proof (cases "m < cal_months calendar")
    case True
    then have "calendar_to_jd calendar (m + 1) 1 y = ?start + ?n"
      using E empty_month_start [OF c r(3,1) True] by (auto simp: jd_of_def split: if_splits)
    with pos r(4) show ?thesis by (simp add: days_in_month_of_def Let_def)
  next
    case False
    then have "calendar_to_jd calendar 1 1 (if y = -1 then 1 else y + 1) = ?start + ?n"
      unfolding next_year_eq [OF c r(3)] using E by (simp add: jd_of_def)
    moreover have "m = cal_months calendar" using False r(2) by simp
    then have "calendar_to_jd calendar (m + 1) 1 y = 0" using no_month_behind [OF c, of y] by simp
    ultimately show ?thesis using pos r(4) by (simp add: days_in_month_of_def Let_def)
  qed
qed

end
