(* ===== verification/Calendar_Easter.thy ===== *)
theory Calendar_Easter
  imports Calendar_Functions
begin

text \<open>
  Easter is the Sunday after the paschal full moon. The reference is the full moon of the
  ecclesiastical tables; the code's congruences give the first Sunday strictly after it.
\<close>

definition golden_number :: "int \<Rightarrow> int" where
  "golden_number year = year mod 19"

text \<open>Days from 21 March to the full moon, in both calendars.\<close>

definition julian_full_moon :: "int \<Rightarrow> int" where
  "julian_full_moon year = (19 * golden_number year + 15) mod 30"

definition gregorian_epact :: "int \<Rightarrow> int" where
  "gregorian_epact year =
     (let century = year div 100
      in (19 * golden_number year + century - century div 4 - (century - (century + 8) div 25 + 1) div 3 + 15) mod 30)"

definition gregorian_full_moon :: "int \<Rightarrow> int" where
  "gregorian_full_moon year =
     (let e = gregorian_epact year
      in if e = 29 \<or> (e = 28 \<and> 10 < golden_number year) then e - 1 else e)"

definition easter_date_of :: "int \<Rightarrow> int \<times> int" where
  "easter_date_of offset = (if offset \<le> 10 then (3, 21 + offset) else (4, offset - 10))"

lemma epact_bounds: "0 \<le> gregorian_epact y" "gregorian_epact y \<le> 29"
proof -
  have "0 \<le> x mod 30 \<and> x mod 30 < 30" for x :: int by simp
  then show "0 \<le> gregorian_epact y" "gregorian_epact y \<le> 29"
    unfolding gregorian_epact_def Let_def by (simp_all add: zle_diff1_eq [symmetric])
qed

lemma golden_bounds: "0 \<le> golden_number y" "golden_number y \<le> 18"
  by (simp_all add: golden_number_def zle_diff1_eq [symmetric])

text \<open>The packed month and day, as days after 21 March.\<close>

lemma unpack_days:
  assumes "114 \<le> packed" "packed \<le> (154::int)"
  shows "(let month = packed sdiv 31; day = packed mod 31 + 1 in if month = 3 then day - 21 else day + 10) = packed - 113"
proof (cases "packed \<le> 123")
  case True
  then have "packed div 31 = 3" "packed mod 31 = packed - 93"
    using assms by (simp_all add: int_div_pos_eq int_mod_pos_eq [of _ _ 3])
  then show ?thesis using assms by (simp add: Let_def)
next
  case False
  then have "packed div 31 = 4" "packed mod 31 = packed - 124"
    using assms by (simp_all add: int_div_pos_eq int_mod_pos_eq [of _ _ 4])
  then show ?thesis using assms by (simp add: Let_def)
qed

definition gregorian_weekday_gap :: "int \<Rightarrow> int" where
  "gregorian_weekday_gap year =
     (32 + 2 * (year div 100 mod 4) + 2 * (year mod 100 div 4) - gregorian_epact year - year mod 100 mod 4) mod 7"

definition julian_weekday_gap :: "int \<Rightarrow> int" where
  "julian_weekday_gap year = (2 * (year mod 4) + 4 * (year mod 7) - julian_full_moon year + 34) mod 7"

lemma gap_bounds: "0 \<le> gregorian_weekday_gap y" "gregorian_weekday_gap y \<le> 6"
  "0 \<le> julian_weekday_gap y" "julian_weekday_gap y \<le> 6"
proof -
  have "0 \<le> x mod 7 \<and> x mod 7 \<le> 6" for x :: int by (simp add: zle_diff1_eq [symmetric])
  then show "0 \<le> gregorian_weekday_gap y" "gregorian_weekday_gap y \<le> 6"
    "0 \<le> julian_weekday_gap y" "julian_weekday_gap y \<le> 6"
    unfolding gregorian_weekday_gap_def julian_weekday_gap_def by blast+
qed

lemma julian_moon_bounds: "0 \<le> julian_full_moon y" "julian_full_moon y \<le> 28"
proof -
  have "g = 0 \<or> g = 1 \<or> g = 2 \<or> g = 3 \<or> g = 4 \<or> g = 5 \<or> g = 6 \<or> g = 7 \<or> g = 8 \<or> g = 9 \<or> g = 10 \<or> g = 11 \<or>
      g = 12 \<or> g = 13 \<or> g = 14 \<or> g = 15 \<or> g = 16 \<or> g = 17 \<or> g = 18" if "0 \<le> g" "g \<le> 18" for g :: int
    using that by presburger
  from this [OF golden_bounds [of y]] show "0 \<le> julian_full_moon y" "julian_full_moon y \<le> 28"
    unfolding julian_full_moon_def by auto
qed

lemma easter_julian_days:
  "easter_julian_packed y - 113 = julian_full_moon y + julian_weekday_gap y + 1"
  "114 \<le> easter_julian_packed y" "easter_julian_packed y \<le> 154"
proof -
  show p: "easter_julian_packed y - 113 = julian_full_moon y + julian_weekday_gap y + 1"
    by (simp add: easter_julian_packed_def Let_def julian_full_moon_def julian_weekday_gap_def golden_number_def)
  show "114 \<le> easter_julian_packed y" "easter_julian_packed y \<le> 154"
    using p julian_moon_bounds [of y] gap_bounds [of y] by linarith+
qed

lemma easter_gregorian_days:
  assumes "1 \<le> y"
  shows "\<exists>n. 1 \<le> n \<and> n \<le> 7 \<and> easter_gregorian_packed y - 113 = gregorian_full_moon y + n \<and>
      (gregorian_full_moon y + n - (gregorian_epact y + gregorian_weekday_gap y + 1)) mod 7 = 0"
    "114 \<le> easter_gregorian_packed y" "easter_gregorian_packed y \<le> 154"
proof -
  define e w g where "e = gregorian_epact y" and "w = gregorian_weekday_gap y" and "g = golden_number y"
  have b: "0 \<le> e" "e \<le> 29" "0 \<le> w" "w \<le> 6" "0 \<le> g" "g \<le> 18"
    using epact_bounds [of y] gap_bounds [of y] golden_bounds [of y] by (simp_all add: e_def w_def g_def)
  have c: "0 \<le> y div 100" "0 \<le> y mod 100" using assms by simp_all
  have k: "0 \<le> y div 100 - (y div 100 + 8) div 25 + 1" using c(1) by linarith
  have s: "y sdiv 100 = y div 100" "y div 100 sdiv 4 = y div 100 div 4" "(y div 100 + 8) sdiv 25 = (y div 100 + 8) div 25"
    "(y div 100 - (y div 100 + 8) div 25 + 1) sdiv 3 = (y div 100 - (y div 100 + 8) div 25 + 1) div 3"
    "y mod 100 sdiv 4 = y mod 100 div 4" "(g + 11 * e + 22 * w) sdiv 451 = (g + 11 * e + 22 * w) div 451"
    using assms c k b by (simp_all only: sdiv_nonneg)
  have ge: "y mod 19 = g" "(19 * g + y div 100 - y div 100 div 4 - (y div 100 - (y div 100 + 8) div 25 + 1) div 3 + 15) mod 30 = e"
    by (simp_all only: g_def golden_number_def e_def gregorian_epact_def Let_def)
  have ww: "(32 + 2 * (y div 100 mod 4) + 2 * (y mod 100 div 4) - e - y mod 100 mod 4) mod 7 = w"
    by (simp only: w_def gregorian_weekday_gap_def e_def)
  have pk: "easter_gregorian_packed y = e + w - 7 * ((g + 11 * e + 22 * w) div 451) + 114"
    unfolding easter_gregorian_packed_def Let_def s(1-5) ge ww s(6) ..
  have adj: "(g + 11 * e + 22 * w) div 451 = (if w = 6 \<and> (e = 29 \<or> (e = 28 \<and> 10 < g)) then 1 else 0)"
  proof (cases "w = 6 \<and> (e = 29 \<or> (e = 28 \<and> 10 < g))")
    case True
    then have "451 \<le> g + 11 * e + 22 * w" "g + 11 * e + 22 * w < 902" using b by auto
    with True show ?thesis by (simp add: int_div_pos_eq [of _ _ 1])
  next
    case False
    then have "0 \<le> g + 11 * e + 22 * w" "g + 11 * e + 22 * w < 451" using b by auto
    with False show ?thesis by (simp add: div_pos_pos_trivial)
  qed
  define n where "n = easter_gregorian_packed y - 113 - gregorian_full_moon y"
  have moon: "gregorian_full_moon y = (if e = 29 \<or> (e = 28 \<and> 10 < g) then e - 1 else e)"
    by (simp add: gregorian_full_moon_def e_def g_def Let_def)
  have "1 \<le> n" "n \<le> 7" using b unfolding n_def pk adj moon by auto
  moreover have "(gregorian_full_moon y + n - (e + w + 1)) mod 7 = 0"
    unfolding n_def pk adj by auto
  ultimately show "\<exists>n. 1 \<le> n \<and> n \<le> 7 \<and> easter_gregorian_packed y - 113 = gregorian_full_moon y + n \<and>
      (gregorian_full_moon y + n - (gregorian_epact y + gregorian_weekday_gap y + 1)) mod 7 = 0"
    unfolding e_def [symmetric] w_def [symmetric] by (intro exI [of _ n]) (simp add: n_def)
  show "114 \<le> easter_gregorian_packed y" "easter_gregorian_packed y \<le> 154"
    using b unfolding pk adj by auto
qed

subsection \<open>Easter is a Sunday\<close>

lemma easter_date_march:
  assumes "1 \<le> n" "n \<le> 35" "1 \<le> y" "easter_date_of n = (m, d)"
  shows "y \<noteq> 0" "1 \<le> m" "m \<le> 12" "1 \<le> d" "d \<le> 31" "march_year m y = y + 4800"
    "(153 * march_month m + 2) div 5 + d - 1 = n + 20"
  using assms by (auto simp: easter_date_of_def march_year_def march_month_def php_year_to_astronomical_def split: if_splits)

lemma gregorian_sunday_sum:
  assumes "(n - (gregorian_epact y + gregorian_weekday_gap y + 1)) mod 7 = 0"
  shows "(gregorian_before (y + 4800) + n + 20 - 32044 + 1) mod 7 = 0"
proof -
  define c r where "c = y div 100" and "r = y mod 100"
  define q t where "q = c div 4" and "t = c mod 4"
  define k s where "k = r div 4" and "s = r mod 4"
  have y: "y = 100 * c + r" "c = 4 * q + t" "r = 4 * k + s" by (simp_all add: c_def r_def q_def t_def k_def s_def)
  have r: "0 \<le> r" "r \<le> 99" by (simp_all add: r_def zle_diff1_eq [symmetric])
  define g where "g = (32 + 2 * t + 2 * k - gregorian_epact y - s) div 7"
  have w: "32 + 2 * t + 2 * k - gregorian_epact y - s = 7 * g + gregorian_weekday_gap y"
    unfolding gregorian_weekday_gap_def c_def [symmetric] r_def [symmetric] t_def [symmetric] k_def [symmetric] s_def [symmetric]
      g_def by (simp only: mult_div_mod_eq)
  obtain z where z: "n - (gregorian_epact y + gregorian_weekday_gap y + 1) = 7 * z"
    using assms by (metis mod_0_imp_dvd dvdE)
  have dv: "(y + 4800) div 100 = c + 48" "(y + 4800) div 400 = q + 12" "(y + 4800) div 4 = 25 * c + k + 1200"
  proof -
    have e: "y + 4800 = 100 * (c + 48) + r" using y(1) by simp
    show "(y + 4800) div 100 = c + 48" "(y + 4800) div 400 = q + 12" "(y + 4800) div 4 = 25 * c + k + 1200"
      unfolding e century_year_div [OF r] by (simp_all add: q_def k_def)
  qed
  have "gregorian_before (y + 4800) + n + 20 - 32044 + 1 =
      7 * (20871 * q + 5218 * t + 209 * k + 52 * s + z - g + 245882)"
  proof -
    have n: "n = 33 + 2 * t + 2 * k - s - 7 * g + 7 * z" using w z by simp
    have yy: "365 * (y + 4800) + (25 * c + k + 1200) - (c + 48) + (q + 12) =
        365 * (400 * q + 100 * t + 4 * k + s + 4800) + (25 * (4 * q + t) + k + 1200) - (4 * q + t + 48) + (q + 12)"
      using y by simp
    show ?thesis unfolding gregorian_before_def dv yy n by simp
  qed
  then show ?thesis by simp
qed

lemma julian_sunday_sum:
  "(julian_before (y + 4800) + (julian_full_moon y + julian_weekday_gap y + 1) + 20 - 32082 + 1) mod 7 = 0"
proof -
  define k s where "k = y div 4" and "s = y mod 4"
  have y: "y = 4 * k + s" by (simp add: k_def s_def)
  define a where "a = y div 7"
  have m: "y mod 7 = y - 7 * a" by (simp add: a_def minus_mult_div_eq_mod)
  define g where "g = (2 * s + 4 * (y mod 7) - julian_full_moon y + 34) div 7"
  have w: "2 * s + 4 * (y mod 7) - julian_full_moon y + 34 = 7 * g + julian_weekday_gap y"
    unfolding julian_weekday_gap_def s_def [symmetric] g_def by (simp only: mult_div_mod_eq)
  have dv: "(y + 4800) div 4 = k + 1200" by (simp add: k_def)
  have "julian_before (y + 4800) + (julian_full_moon y + julian_weekday_gap y + 1) + 20 - 32082 + 1 =
      7 * (211 * k + 53 * s - 4 * a - g + 245882)"
  proof -
    have n: "julian_full_moon y + julian_weekday_gap y + 1 = 35 + 2 * s + 4 * (y - 7 * a) - 7 * g" using w unfolding m by simp
    have "365 * (y + 4800) + (k + 1200) + (35 + 2 * s + 4 * (y - 7 * a) - 7 * g) =
        365 * (4 * k + s + 4800) + (k + 1200) + (35 + 2 * s + 4 * (4 * k + s - 7 * a) - 7 * g)"
      using y by simp
    then show ?thesis unfolding julian_before_def dv n by simp
  qed
  then show ?thesis by simp
qed

lemma weekday_sunday: "(jd + 1) mod 7 = 0 \<Longrightarrow> weekday jd = 0"
  by (simp add: weekday_def mod_add_left_eq)

lemma easter_days_packed:
  assumes "1 \<le> y"
  shows "easter_days_for y mode = (if easter_is_gregorian y mode then easter_gregorian_packed y else easter_julian_packed y) - 113"
proof -
  define packed where "packed = (if easter_is_gregorian y mode then easter_gregorian_packed y else easter_julian_packed y)"
  have "114 \<le> packed" "packed \<le> 154"
    using easter_gregorian_days(2,3) [OF assms] easter_julian_days(2,3) [of y] by (simp_all add: packed_def)
  then have "easter_days_for y mode = packed - 113"
    unfolding easter_days_for_def packed_def [symmetric] by (subst Let_def) (rule unpack_days)
  then show ?thesis by (simp only: packed_def)
qed

lemma easter_days_range:
  assumes "1 \<le> y"
  shows "1 \<le> easter_days_for y mode" "easter_days_for y mode \<le> 35"
    "easter_is_gregorian y mode \<Longrightarrow> gregorian_full_moon y < easter_days_for y mode \<and> easter_days_for y mode \<le> gregorian_full_moon y + 7"
    "\<not> easter_is_gregorian y mode \<Longrightarrow> julian_full_moon y < easter_days_for y mode \<and> easter_days_for y mode \<le> julian_full_moon y + 7"
proof -
  note G = easter_gregorian_days [OF assms] and J = easter_julian_days [of y]
  note e = easter_days_packed [OF assms, of mode]
  have m: "0 \<le> gregorian_full_moon y" "gregorian_full_moon y \<le> 28"
    using epact_bounds [of y] by (auto simp: gregorian_full_moon_def Let_def)
  show "easter_is_gregorian y mode \<Longrightarrow> gregorian_full_moon y < easter_days_for y mode \<and> easter_days_for y mode \<le> gregorian_full_moon y + 7"
    using G(1) by (auto simp: e)
  show "\<not> easter_is_gregorian y mode \<Longrightarrow> julian_full_moon y < easter_days_for y mode \<and> easter_days_for y mode \<le> julian_full_moon y + 7"
    using J(1) gap_bounds [of y] by (auto simp: e)
  show "1 \<le> easter_days_for y mode" "easter_days_for y mode \<le> 35"
    using G(1) m J(1) julian_moon_bounds [of y] gap_bounds [of y] by (auto simp: e)
qed

end
