(* ===== verification/Calendar_Results.thy ===== *)
theory Calendar_Results
  imports Calendar_Laws Calendar_Easter
begin

text \<open>
  What the PHP functions answer: the arrays of \<open>cal_from_jd\<close>, Hebrew numerals, Easter as a date, and
  Unix time.
\<close>

subsection \<open>Arrays built from string keys\<close>

lemma find_key_None_iff: "find_key k es = None \<longleftrightarrow> k \<notin> fst ` set es"
  by (induction es) (auto simp: find_key_def)

text \<open>Writing fresh string keys one after the other lists them in order.\<close>

lemma fold_set_str:
  assumes "array_wf a" "distinct (map fst kvs)" "\<forall>k \<in> fst ` set kvs. Key_String k \<notin> fst ` set (iter a)"
    and "length (iter a) + length kvs < 2 ^ 56"
  shows "array_wf (fold (\<lambda>(k, v). set_str k v) kvs a) \<and>
    iter (fold (\<lambda>(k, v). set_str k v) kvs a) = iter a @ map (\<lambda>(k, v). (Key_String k, v)) kvs"
  using assms
proof (induction kvs arbitrary: a)
  case (Cons kv kvs)
  obtain k v where kv: "kv = (k, v)" by fastforce
  have "has_room a" using Cons.prems by (simp add: has_room_def)
  moreover have "find_key (Key_String k) (iter a) = None" using Cons.prems(3) by (simp add: find_key_None_iff kv)
  ultimately have s: "array_wf (set_str k v a)" "iter (set_str k v a) = iter a @ [(Key_String k, v)]"
    using set_str_ok [of a k v] Cons.prems(1) by (simp_all add: upsert_def)
  have "array_wf (fold (\<lambda>(k, v). set_str k v) kvs (set_str k v a)) \<and>
    iter (fold (\<lambda>(k, v). set_str k v) kvs (set_str k v a)) =
      iter (set_str k v a) @ map (\<lambda>(k, v). (Key_String k, v)) kvs"
    using Cons.prems s by (intro Cons.IH) (auto simp: kv)
  then show ?case by (simp add: s kv)
qed simp

definition cal_from_jd_fields :: "int \<Rightarrow> int \<Rightarrow> (byte_string \<times> php_value) list" where
  "cal_from_jd_fields jd calendar =
     (let date = calendar_from_jd jd calendar; dow = weekday jd;
          absent = calendar = CAL_JEWISH \<and> \<not> is_valid date
      in [(''date'', php_string (display date)), (''month'', VLong (cd_month date)), (''day'', VLong (cd_day date)),
          (''year'', VLong (cd_year date)), (''dow'', if absent then VNull else VLong (int dow)),
          (''abbrevdayname'', php_string (if absent then '''' else WEEKDAYS_SHORT ! dow)),
          (''dayname'', php_string (if absent then '''' else WEEKDAYS_LONG ! dow)),
          (''abbrevmonth'', php_string (month_name calendar date (calendar \<le> CAL_JULIAN))),
          (''monthname'', php_string (month_name calendar date False))])"

lemma cal_from_jd_fold:
  "cal_from_jd_value jd calendar = fold (\<lambda>(k, v). set_str k v) (cal_from_jd_fields jd calendar) (with_hash_capacity 9)"
proof (cases "calendar = CAL_JEWISH \<and> \<not> is_valid (calendar_from_jd jd calendar)")
  case True
  show ?thesis
    unfolding cal_from_jd_value_def cal_from_jd_fields_def cal_day_fields_def Let_def if_P [OF True]
    by (simp only: fold.simps comp_apply id_apply prod.case)
next
  case False
  show ?thesis
    unfolding cal_from_jd_value_def cal_from_jd_fields_def cal_day_fields_def Let_def if_not_P [OF False]
    by (simp only: fold.simps comp_apply id_apply prod.case)
qed

lemma cal_from_jd_entries:
  "array_wf (cal_from_jd_value jd calendar)"
  "iter (cal_from_jd_value jd calendar) = map (\<lambda>(k, v). (Key_String k, v)) (cal_from_jd_fields jd calendar)"
proof -
  have "distinct (map fst (cal_from_jd_fields jd calendar))" "length (cal_from_jd_fields jd calendar) = 9"
    by (simp_all add: cal_from_jd_fields_def Let_def)
  then show "array_wf (cal_from_jd_value jd calendar)"
    "iter (cal_from_jd_value jd calendar) = map (\<lambda>(k, v). (Key_String k, v)) (cal_from_jd_fields jd calendar)"
    using fold_set_str [of "with_hash_capacity 9" "cal_from_jd_fields jd calendar"]
    unfolding cal_from_jd_fold by simp_all
qed

subsection \<open>Hebrew numerals\<close>

definition letter_value :: "char \<Rightarrow> int" where
  "letter_value c = (case map_of (map prod.swap HEBREW_VALUES) c of Some v \<Rightarrow> v | None \<Rightarrow> 0)"

definition numeral_value :: "char list \<Rightarrow> int" where
  "numeral_value cs = (\<Sum>c\<leftarrow>cs. letter_value c)"

text \<open>What the greedy loop leaves over.\<close>

fun greedy_rest :: "(int \<times> char) list \<Rightarrow> int \<Rightarrow> int" where
  "greedy_rest [] v = v"
| "greedy_rest ((amount, letter) # table) v = greedy_rest table (if amount \<le> v then v - amount else v)"

lemma greedy_conserves:
  "\<forall>(amount, letter) \<in> set table. letter_value letter = amount \<Longrightarrow>
     numeral_value (hebrew_greedy table v out) + greedy_rest table v = numeral_value out + v"
  by (induction table v out rule: hebrew_greedy.induct) (auto simp: numeral_value_def)

lemma greedy_rest_append: "greedy_rest (s @ t) v = greedy_rest t (greedy_rest s v)"
  by (induction s v rule: greedy_rest.induct) simp_all

text \<open>A run of the multiples of \<open>u\<close> downwards takes the largest that fits.\<close>

lemma greedy_rest_multiples:
  "0 < u \<Longrightarrow> 0 \<le> v \<Longrightarrow> v < int (Suc k) * u \<Longrightarrow> map fst table = map (\<lambda>i. int i * u) (rev [1..<Suc k]) \<Longrightarrow> greedy_rest table v = v mod u"
proof (induction k arbitrary: table v)
  case (Suc k)
  obtain l t where t: "table = (int (Suc k) * u, l) # t" "map fst t = map (\<lambda>i. int i * u) (rev [1..<Suc k])"
    using Suc.prems(4) by (cases table) auto
  show ?case
  proof (cases "int (Suc k) * u \<le> v")
    case True
    have u: "v - int (Suc k) * u < u" using Suc.prems(3) by (simp add: algebra_simps)
    moreover have "u \<le> int (Suc k) * u" using Suc.prems(1) by (simp add: algebra_simps)
    ultimately have "greedy_rest t (v - int (Suc k) * u) = (v - int (Suc k) * u) mod u"
      using True Suc.prems(1) by (intro Suc.IH t(2)) linarith+
    also have "\<dots> = v mod u" using mod_mult_self1 [of v "- int (Suc k)" u] by (simp only: diff_conv_add_uminus mult_minus_left)
    finally show ?thesis using True by (simp add: t)
  next
    case False
    then show ?thesis using Suc by (simp add: t)
  qed
qed (simp add: mod_pos_pos_trivial)

lemma hebrew_table_rest:
  assumes "0 \<le> v" "v < 400"
  shows "greedy_rest HEBREW_VALUES v = 0"
proof -
  have s: "HEBREW_VALUES = take 4 HEBREW_VALUES @ take 9 (drop 4 HEBREW_VALUES) @ drop 13 HEBREW_VALUES"
    by (simp add: HEBREW_VALUES_def)
  have m: "map fst (take 4 HEBREW_VALUES) = map (\<lambda>i. int i * 100) (rev [1..<Suc 4])"
    "map fst (take 9 (drop 4 HEBREW_VALUES)) = map (\<lambda>i. int i * 10) (rev [1..<Suc 9])"
    "map fst (drop 13 HEBREW_VALUES) = map (\<lambda>i. int i * 1) (rev [1..<Suc 9])"
    by (simp_all add: HEBREW_VALUES_def upt_rec)
  have "greedy_rest (take 4 HEBREW_VALUES) v = v mod 100"
    using assms by (intro greedy_rest_multiples [OF _ _ _ m(1)]) simp_all
  moreover have "greedy_rest (take 9 (drop 4 HEBREW_VALUES)) (v mod 100) = v mod 100 mod 10"
    by (intro greedy_rest_multiples [OF _ _ _ m(2)]) simp_all
  moreover have "greedy_rest (drop 13 HEBREW_VALUES) (v mod 100 mod 10) = v mod 100 mod 10 mod 1"
    by (intro greedy_rest_multiples [OF _ _ _ m(3)]) simp_all
  ultimately show ?thesis by (subst s) (simp add: greedy_rest_append)
qed

lemma hebrew_hundreds_ok:
  "0 \<le> v \<Longrightarrow> hebrew_hundreds v out = (w, out') \<Longrightarrow>
     0 \<le> w \<and> w < 400 \<and> numeral_value out' + w = numeral_value out + v"
proof (induction v out rule: hebrew_hundreds.induct)
  case (1 v out)
  have "letter_value (CHR 0xFA) = 400" by (simp add: letter_value_def HEBREW_VALUES_def)
  then have "numeral_value (out @ [CHR 0xFA]) = numeral_value out + 400" by (simp add: numeral_value_def)
  with 1 show ?case by (cases "400 \<le> v") (auto simp: hebrew_hundreds.simps [of v])
qed

lemma table_letters: "\<forall>(amount, letter) \<in> set HEBREW_VALUES. letter_value letter = amount"
  by (simp add: HEBREW_VALUES_def letter_value_def)

lemma hebrew_remainder_value:
  assumes "0 \<le> v"
  shows "numeral_value (hebrew_remainder v) = v"
proof -
  obtain w out where h: "hebrew_hundreds v [] = (w, out)" by fastforce
  note H = hebrew_hundreds_ok [OF assms h]
  have l: "numeral_value (out @ [CHR 0xE8, CHR 0xE5]) = numeral_value out + 15"
    "numeral_value (out @ [CHR 0xE8, CHR 0xE6]) = numeral_value out + 16"
    by (simp_all add: numeral_value_def letter_value_def HEBREW_VALUES_def)
  have g: "numeral_value (hebrew_greedy HEBREW_VALUES u o') = numeral_value o' + u" if "0 \<le> u" "u < 400" for u o'
    using greedy_conserves [OF table_letters, of u o'] hebrew_table_rest [OF that] by simp
  have z: "numeral_value [] = 0" by (simp add: numeral_value_def)
  consider "w = 15" | "w = 16" | "w \<noteq> 15" "w \<noteq> 16" by blast
  then show ?thesis
    using H l z by cases (simp_all add: hebrew_remainder_def h g)
qed

lemma gereshayim_marks:
  "CHR 39 \<notin> set cs \<Longrightarrow> CHR 0x22 \<notin> set cs \<Longrightarrow>
     filter (\<lambda>c. c \<noteq> CHR 39 \<and> c \<noteq> CHR 0x22) (hebrew_gereshayim flags cs) = cs"
proof (induction cs rule: rev_induct)
  case (snoc c cs)
  then show ?case by (cases cs) (auto simp: hebrew_gereshayim_def filter_id_conv)
qed (simp add: hebrew_gereshayim_def)

end
