(* ===== verification/Calendar_Properties.thy ===== *)
theory Calendar_Properties
  imports Calendar_Results
begin

text \<open>The properties of the calendar extension.\<close>

subsection \<open>Conversions\<close>

lemma calendar_roundtrip_facts:
  assumes "0 \<le> calendar" "calendar < CAL_NUM_CALS"
  shows "is_valid (calendar_from_jd jd calendar) \<longleftrightarrow> cal_first calendar \<le> jd \<and> jd \<le> cal_last calendar"
    and "cal_first calendar \<le> jd \<Longrightarrow> jd \<le> cal_last calendar \<Longrightarrow>
      calendar_date calendar (calendar_from_jd jd calendar) \<and>
      jd_of (calendar_to_jd calendar) (calendar_from_jd jd calendar) = jd"
    and "calendar_date calendar d \<Longrightarrow> cal_first calendar \<le> jd_of (calendar_to_jd calendar) d \<Longrightarrow>
      jd_of (calendar_to_jd calendar) d \<le> cal_last calendar \<Longrightarrow>
      calendar_from_jd (jd_of (calendar_to_jd calendar) d) calendar = d"
proof -
  note c = calendar_dispatch [OF assms]
  show "is_valid (calendar_from_jd jd calendar) \<longleftrightarrow> cal_first calendar \<le> jd \<and> jd \<le> cal_last calendar"
    by (rule civil_calendar.valid_iff [OF c])
  show "cal_first calendar \<le> jd \<Longrightarrow> jd \<le> cal_last calendar \<Longrightarrow>
      calendar_date calendar (calendar_from_jd jd calendar) \<and>
      jd_of (calendar_to_jd calendar) (calendar_from_jd jd calendar) = jd"
    using civil_calendar.from_real [OF c] civil_calendar.to_from [OF c] by blast
  show "calendar_date calendar d \<Longrightarrow> cal_first calendar \<le> jd_of (calendar_to_jd calendar) d \<Longrightarrow>
      jd_of (calendar_to_jd calendar) d \<le> cal_last calendar \<Longrightarrow>
      calendar_from_jd (jd_of (calendar_to_jd calendar) d) calendar = d"
    by (rule civil_calendar.from_to [OF c])
qed

text \<open>C35. In each of the four calendars the conversions are inverse to each other between the first and the
  last day of the calendar: a Julian day in this range becomes a date that exists in the calendar and
  converts back to it, a date of the calendar in this range converts to its Julian day and back, and
  a Julian day outside the range gives the invalid date.\<close>

theorem calendar_roundtrip:
  assumes "0 \<le> calendar" "calendar < CAL_NUM_CALS"
  shows "(is_valid (calendar_from_jd jd calendar) \<longleftrightarrow> cal_first calendar \<le> jd \<and> jd \<le> cal_last calendar) \<and>
    (cal_first calendar \<le> jd \<and> jd \<le> cal_last calendar \<longrightarrow>
      calendar_date calendar (calendar_from_jd jd calendar) \<and>
      jd_of (calendar_to_jd calendar) (calendar_from_jd jd calendar) = jd) \<and>
    (calendar_date calendar d \<and> cal_first calendar \<le> jd_of (calendar_to_jd calendar) d \<and>
      jd_of (calendar_to_jd calendar) d \<le> cal_last calendar \<longrightarrow>
      calendar_from_jd (jd_of (calendar_to_jd calendar) d) calendar = d)"
  using calendar_roundtrip_facts [OF assms] by blast

theorem calendar_roundtrip_witness:
  "calendar_date 2 (calendar_from_jd 2460587 2) \<and> jd_of (calendar_to_jd 2) (calendar_from_jd 2460587 2) = 2460587 \<and>
   is_valid (calendar_from_jd 2460587 0) \<and> \<not> is_valid (calendar_from_jd 2460587 3)"
  using calendar_roundtrip [of 2 2460587] calendar_roundtrip [of 0 2460587] calendar_roundtrip [of 3 2460587]
  by (simp add: cal_first_def cal_last_def calendar_bounds GREGORIAN_LAST_JD_def)

text \<open>C36. The conversion from Julian days is counting on the calendar: the date \<open>n\<close> days later is
  reached by \<open>n\<close> times going to the next day of the same month, or the first day of the next month or
  year when the month is over.\<close>

theorem calendar_counts_days:
  assumes "0 \<le> calendar" "calendar < CAL_NUM_CALS" "cal_first calendar \<le> jd" "jd + int n \<le> cal_last calendar"
  shows "calendar_from_jd (jd + int n) calendar = (calendar_next calendar ^^ n) (calendar_from_jd jd calendar)"
  by (rule civil_calendar.from_steps [OF calendar_dispatch [OF assms(1,2)] assms(3,4)])

theorem calendar_counts_days_witness:
  "calendar_from_jd (FRENCH_EPOCH_JD + int 40) CAL_FRENCH =
     (calendar_next CAL_FRENCH ^^ 40) (calendar_from_jd FRENCH_EPOCH_JD CAL_FRENCH)"
  by (rule calendar_counts_days) (simp_all add: cal_first_def cal_last_def calendar_bounds)

lemma hebrew_years_facts:
  assumes "1 \<le> y" "y \<le> HEBREW_LAST_YEAR"
  shows "hebrew_year_days y \<in> (if hebrew_is_leap_year y then {383, 384, 385} else {353, 354, 355})"
    and "(\<Sum>m\<leftarrow>[1..13]. hebrew_month_days m y) = hebrew_year_days y"
    and "weekday (hebrew_new_year y) \<in> {1, 2, 4, 6}"
  using hebrew_year_ok(1) [OF assms(1)] hebrew_months_fill [of y] hebrew_new_year_weekday [OF assms(1)] assms
  by (auto simp: hebrew_before_def hebrew_year_def split: if_splits)

text \<open>C37. A Hebrew year has 353, 354 or 355 days, a leap year 383, 384 or 385; its months fill it; and it
  never begins on a Sunday, a Wednesday or a Friday.\<close>

theorem hebrew_years:
  assumes "1 \<le> y" "y \<le> HEBREW_LAST_YEAR"
  shows "hebrew_year_days y \<in> (if hebrew_is_leap_year y then {383, 384, 385} else {353, 354, 355}) \<and>
    (\<Sum>m\<leftarrow>[1..13]. hebrew_month_days m y) = hebrew_year_days y \<and> weekday (hebrew_new_year y) \<in> {1, 2, 4, 6}"
  using hebrew_years_facts [OF assms] by (intro conjI)

theorem hebrew_years_witness:
  "hebrew_year_days 5784 \<in> {383, 384, 385} \<and> weekday (hebrew_new_year 5784) \<in> {1, 2, 4, 6} \<and>
   (\<Sum>m\<leftarrow>[1..13]. hebrew_month_days m 5784) = hebrew_year_days 5784"
proof -
  have r: "(1::int) \<le> 5784" "5784 \<le> HEBREW_LAST_YEAR" by (simp_all add: HEBREW_LAST_YEAR_def)
  have "hebrew_is_leap_year 5784" by (simp add: hebrew_is_leap_year_def)
  then show ?thesis using hebrew_years [OF r] by simp
qed

subsection \<open>Days of a month\<close>

lemma cal_days_in_month_correct_facts:
  assumes "0 \<le> calendar" "calendar < CAL_NUM_CALS"
  shows "calendar_date calendar (civil m 1 y) \<Longrightarrow> y \<le> 2147483646 \<Longrightarrow>
      cal_first calendar \<le> calendar_to_jd calendar m 1 y \<Longrightarrow>
      calendar_to_jd calendar m 1 y + cal_month_days calendar m y \<le> cal_last calendar \<Longrightarrow>
      fn_cal_days_in_month (Converted calendar) (Converted m) (Converted y) =
        Returns (VLong (cal_month_days calendar m y))"
    and "fn_cal_days_in_month (Converted CAL_FRENCH) (Converted 13) (Converted 14) = Returns (VLong 5)"
    and "calendar_to_jd calendar m 1 y = 0 \<Longrightarrow>
      \<exists>e. fn_cal_days_in_month (Converted calendar) (Converted m) (Converted y) = Value_Error e"
proof -
  show "fn_cal_days_in_month (Converted calendar) (Converted m) (Converted y) = Returns (VLong (cal_month_days calendar m y))"
    if h: "calendar_date calendar (civil m 1 y)" "y \<le> 2147483646" "cal_first calendar \<le> calendar_to_jd calendar m 1 y"
      "calendar_to_jd calendar m 1 y + cal_month_days calendar m y \<le> cal_last calendar"
  proof -
    have "1 \<le> m" "m \<le> 2147483646"
      using h(1) by (auto simp: calendar_date_def real_date_def cal_months_def split: if_splits)
    then show ?thesis
      using days_in_month_ok [OF assms h(1,3,4)] h(2) assms by (simp add: fn_cal_days_in_month_def validate_calendar_def)
  qed
  show "fn_cal_days_in_month (Converted CAL_FRENCH) (Converted 13) (Converted 14) = Returns (VLong 5)"
    by (simp add: fn_cal_days_in_month_def validate_calendar_def days_in_month_of_def calendar_to_jd_def
        direct_calendar_int_def french_to_jd_def calendar_bounds Let_def)
  show "calendar_to_jd calendar m 1 y = 0 \<Longrightarrow>
      \<exists>e. fn_cal_days_in_month (Converted calendar) (Converted m) (Converted y) = Value_Error e"
    using assms by (auto simp: fn_cal_days_in_month_def validate_calendar_def days_in_month_of_def)
qed

text \<open>\<open>cal_days_in_month\<close> answers the days of the month in the calendar for every month that ends
  before the last day of the calendar (in the French calendar also for the last one), and raises an
  error for a calendar, month or year out of range or a month the calendar does not have.\<close>

theorem cal_days_in_month_correct:
  assumes "0 \<le> calendar" "calendar < CAL_NUM_CALS"
  shows "(calendar_date calendar (civil m 1 y) \<and> y \<le> 2147483646 \<and>
      cal_first calendar \<le> calendar_to_jd calendar m 1 y \<and>
      calendar_to_jd calendar m 1 y + cal_month_days calendar m y \<le> cal_last calendar \<longrightarrow>
      fn_cal_days_in_month (Converted calendar) (Converted m) (Converted y) =
        Returns (VLong (cal_month_days calendar m y))) \<and>
    fn_cal_days_in_month (Converted CAL_FRENCH) (Converted 13) (Converted 14) = Returns (VLong 5) \<and>
    (calendar_to_jd calendar m 1 y = 0 \<longrightarrow>
      (\<exists>e. fn_cal_days_in_month (Converted calendar) (Converted m) (Converted y) = Value_Error e))"
  using cal_days_in_month_correct_facts [OF assms] by (intro conjI impI) simp_all

theorem cal_days_in_month_correct_witness:
  "fn_cal_days_in_month (Converted 0) (Converted 2) (Converted 2024) = Returns (VLong 29) \<and>
   (\<exists>e. fn_cal_days_in_month (Converted 0) (Converted 13) (Converted 2024) = Value_Error e)"
proof -
  have j: "calendar_to_jd 0 2 1 2024 = 2460342" by code_simp
  have md: "cal_month_days 0 2 2024 = 29"
    by (simp add: cal_month_days_def roman_month_days_def gregorian_leap_def php_year_to_astronomical_def)
  have d: "calendar_date 0 (civil 2 1 2024)"
    using md by (simp add: calendar_date_def real_date_def cal_months_def cal_year_def php_year_def in_i32_def i32_MAX_def)
  have z: "calendar_to_jd 0 13 1 2024 = 0" by code_simp
  show ?thesis
    using cal_days_in_month_correct [of 0 2 2024] cal_days_in_month_correct [of 0 13 2024] d z
    by (simp add: j md cal_first_def cal_last_def GREGORIAN_LAST_JD_def)
qed

text \<open>The last Hebrew month but one that begins inside the range has no successor inside it, and the
  answer is the negated Julian day of its first day.\<close>

lemma last_hebrew_month_negative:
  "fn_cal_days_in_month (Converted CAL_JEWISH) (Converted 12) (Converted HEBREW_LAST_YEAR) = Returns (VLong (- 324542834))"
  by code_simp

subsection \<open>Easter\<close>

lemma roman_before_bounds:
  assumes "0 \<le> y"
  shows "365 * y \<le> gregorian_before y" "gregorian_before y \<le> 366 * y + 1" "365 * y \<le> julian_before y" "julian_before y \<le> 366 * y"
proof -
  define p q r where "p = y div 4" and "q = y div 100" and "r = y div 400"
  have "4 * p \<le> y" "y < 4 * p + 4" "100 * q \<le> y" "0 \<le> q" "400 * r \<le> y" "0 \<le> r" "0 \<le> p"
    using div_bounds [of 4 y] div_bounds [of 100 y] div_bounds [of 400 y] assms by (simp_all add: p_def q_def r_def)
  then show "365 * y \<le> gregorian_before y" "gregorian_before y \<le> 366 * y + 1" "365 * y \<le> julian_before y" "julian_before y \<le> 366 * y"
    unfolding gregorian_before_def julian_before_def p_def [symmetric] q_def [symmetric] r_def [symmetric] by linarith+
qed

lemma easter_jd:
  assumes "1 \<le> y" "y \<le> i32_MAX" "1 \<le> n" "n \<le> 35" "easter_date_of n = (m, d)"
  shows "gregorian_to_jd m d y = gregorian_before (y + 4800) + n + 20 - 32044"
    "julian_to_jd m d y = julian_before (y + 4800) + n + 20 - 32082"
proof -
  note E = easter_date_march [OF assms(3,4,1,5)]
  note B = roman_before_bounds [of "y + 4800"]
  have x: "b + (153 * march_month m + 2) div 5 + d - 1 = b + n + 20" for b using E(7) by linarith
  have "positive_i64_or_zero (gregorian_before (y + 4800) + n + 20 - 32044) = gregorian_before (y + 4800) + n + 20 - 32044"
    "positive_i64_or_zero (julian_before (y + 4800) + n + 20 - 32082) = julian_before (y + 4800) + n + 20 - 32082"
    using B assms by (simp_all add: positive_i64_or_zero_def in_i64_def i64_MIN_def i64_MAX_def i32_MAX_def)
  then show "gregorian_to_jd m d y = gregorian_before (y + 4800) + n + 20 - 32044"
    "julian_to_jd m d y = julian_before (y + 4800) + n + 20 - 32082"
    using gregorian_to_jd_march [OF E(1-5)] julian_to_jd_march [OF E(1-5)] x assms(1) unfolding E(6) by (simp_all only: if_True) simp_all
qed

lemma easter_is_sunday_after_full_moon_facts:
  assumes "1 \<le> y" "y \<le> i32_MAX" "easter_date_of (easter_days_for y mode) = (m, d)"
  defines "moon \<equiv> if easter_is_gregorian y mode then gregorian_full_moon y else julian_full_moon y"
  shows "moon < easter_days_for y mode \<and> easter_days_for y mode \<le> moon + 7"
    and "1 \<le> easter_days_for y mode \<and> easter_days_for y mode \<le> 35"
    and "weekday (if easter_is_gregorian y mode then gregorian_to_jd m d y else julian_to_jd m d y) = 0"
proof -
  note R = easter_days_range [OF assms(1), of mode]
  show "moon < easter_days_for y mode \<and> easter_days_for y mode \<le> moon + 7"
    "1 \<le> easter_days_for y mode \<and> easter_days_for y mode \<le> 35" using R by (simp_all add: moon_def)
  note J = easter_jd [OF assms(1,2) R(1,2) assms(3)]
  have p: "easter_days_for y mode = (if easter_is_gregorian y mode then easter_gregorian_packed y else easter_julian_packed y) - 113"
    by (rule easter_days_packed [OF assms(1)])
  show "weekday (if easter_is_gregorian y mode then gregorian_to_jd m d y else julian_to_jd m d y) = 0"
  proof (cases "easter_is_gregorian y mode")
    case True
    obtain n where n: "easter_gregorian_packed y - 113 = gregorian_full_moon y + n"
      "(gregorian_full_moon y + n - (gregorian_epact y + gregorian_weekday_gap y + 1)) mod 7 = 0"
      using easter_gregorian_days(1) [OF assms(1)] by (elim exE conjE) (rule that)
    have "easter_days_for y mode = gregorian_full_moon y + n" using p True n(1) by (simp only: if_True)
    then have "(easter_days_for y mode - (gregorian_epact y + gregorian_weekday_gap y + 1)) mod 7 = 0"
      by (rule ssubst) (rule n(2))
    from gregorian_sunday_sum [OF this] have "weekday (gregorian_to_jd m d y) = 0"
      unfolding J(1) by (rule weekday_sunday)
    with True show ?thesis by simp
  next
    case False
    have "easter_days_for y mode = julian_full_moon y + julian_weekday_gap y + 1"
      using p False easter_julian_days(1) [of y] by simp
    with julian_sunday_sum [of y] have "(julian_before (y + 4800) + easter_days_for y mode + 20 - 32082 + 1) mod 7 = 0"
      by (simp only:)
    then have "weekday (julian_to_jd m d y) = 0" unfolding J(2) by (rule weekday_sunday)
    with False show ?thesis by simp
  qed
qed

text \<open>C38. The days from 21 March that \<open>easter_days\<close> answers name the first Sunday after the paschal full
  moon of the calendar the mode selects, so they lie between 1 and 35.\<close>

theorem easter_is_sunday_after_full_moon:
  assumes "1 \<le> y" "y \<le> i32_MAX" "easter_date_of (easter_days_for y mode) = (m, d)"
  defines "moon \<equiv> if easter_is_gregorian y mode then gregorian_full_moon y else julian_full_moon y"
  shows "moon < easter_days_for y mode \<and> easter_days_for y mode \<le> moon + 7 \<and>
    1 \<le> easter_days_for y mode \<and> easter_days_for y mode \<le> 35 \<and>
    weekday (if easter_is_gregorian y mode then gregorian_to_jd m d y else julian_to_jd m d y) = 0"
  using easter_is_sunday_after_full_moon_facts [OF assms(1-3), folded moon_def] by (intro conjI) simp_all

theorem easter_is_sunday_after_full_moon_witness:
  "weekday (gregorian_to_jd 4 20 2025) = 0 \<and> easter_days_for 2025 2 \<le> gregorian_full_moon 2025 + 7"
proof -
  have e: "easter_days_for 2025 2 = 30" by code_simp
  have g: "easter_is_gregorian 2025 2" by (simp add: easter_is_gregorian_def)
  have "easter_date_of (easter_days_for 2025 2) = (4, 20)" by (simp add: e easter_date_of_def)
  from easter_is_sunday_after_full_moon [OF _ _ this] g show ?thesis by (simp add: i32_MAX_def)
qed

subsection \<open>Unix time\<close>

lemma unix_time_roundtrip_facts:
  shows "UNIX_EPOCH_JD \<le> jd \<Longrightarrow> jd \<le> MAX_UNIX_JD \<Longrightarrow>
      in_i64 ((jd - UNIX_EPOCH_JD) * 86400) \<and>
      fn_jd_to_unix (Converted jd) = Returns (VLong ((jd - UNIX_EPOCH_JD) * 86400))"
    and "jd < UNIX_EPOCH_JD \<or> MAX_UNIX_JD < jd \<Longrightarrow> \<exists>e. fn_jd_to_unix (Converted jd) = Value_Error e"
    and "UNIX_EPOCH_JD \<le> jd \<Longrightarrow> jd \<le> GREGORIAN_LAST_JD \<Longrightarrow> 0 \<le> s \<Longrightarrow> s < 86400 \<Longrightarrow>
      fn_unix_to_jd now (Some (Converted ((jd - UNIX_EPOCH_JD) * 86400 + s))) = Returns (VLong jd)"
    and "GREGORIAN_LAST_JD < jd \<Longrightarrow> jd \<le> MAX_UNIX_JD \<Longrightarrow> 0 \<le> s \<Longrightarrow> s < 86400 \<Longrightarrow>
      fn_unix_to_jd now (Some (Converted ((jd - UNIX_EPOCH_JD) * 86400 + s))) = Returns VFalse"
proof -
  show "UNIX_EPOCH_JD \<le> jd \<Longrightarrow> jd \<le> MAX_UNIX_JD \<Longrightarrow>
      in_i64 ((jd - UNIX_EPOCH_JD) * 86400) \<and>
      fn_jd_to_unix (Converted jd) = Returns (VLong ((jd - UNIX_EPOCH_JD) * 86400))"
    by (simp add: fn_jd_to_unix_def in_i64_def i64_MIN_def i64_MAX_def calendar_bounds)
  show "jd < UNIX_EPOCH_JD \<or> MAX_UNIX_JD < jd \<Longrightarrow> \<exists>e. fn_jd_to_unix (Converted jd) = Value_Error e"
    by (auto simp: fn_jd_to_unix_def)
  have u: "unix_to_jd ((jd - UNIX_EPOCH_JD) * 86400 + s) = (if jd \<le> GREGORIAN_LAST_JD then Some jd else None)"
    if h: "UNIX_EPOCH_JD \<le> jd" "jd \<le> MAX_UNIX_JD" "0 \<le> s" "s < 86400"
  proof -
    have n: "0 \<le> (jd - UNIX_EPOCH_JD) * 86400 + s" using h by (intro add_nonneg_nonneg mult_nonneg_nonneg) simp_all
    have "((jd - UNIX_EPOCH_JD) * 86400 + s) div 86400 = jd - UNIX_EPOCH_JD"
      using h(3,4) by (simp add: div_add1_eq div_pos_pos_trivial)
    then have c: "checked_add UNIX_EPOCH_JD (((jd - UNIX_EPOCH_JD) * 86400 + s) sdiv 86400) = Some jd"
      using n h by (simp add: in_i64_def i64_MIN_def i64_MAX_def calendar_bounds)
    have "is_valid (gregorian_from_jd jd) \<longleftrightarrow> jd \<le> GREGORIAN_LAST_JD"
      using gregorian.valid_iff [of jd] h(1) by (simp add: UNIX_EPOCH_JD_def)
    moreover have "cd_year (gregorian_from_jd jd) \<le> i32_MAX" if "jd \<le> GREGORIAN_LAST_JD"
      using gregorian.from_real [of jd] that h(1) by (simp add: real_date_def php_year_def in_i32_def UNIX_EPOCH_JD_def)
    moreover have "\<not> (jd - UNIX_EPOCH_JD) * 86400 + s < 0" using n by simp
    ultimately show ?thesis unfolding unix_to_jd_def c Let_def by simp
  qed
  have pos: "\<not> (jd - UNIX_EPOCH_JD) * 86400 + s < 0" if "UNIX_EPOCH_JD \<le> jd" "0 \<le> s"
    using that by (simp add: not_less)
  show "UNIX_EPOCH_JD \<le> jd \<Longrightarrow> jd \<le> GREGORIAN_LAST_JD \<Longrightarrow> 0 \<le> s \<Longrightarrow> s < 86400 \<Longrightarrow>
      fn_unix_to_jd now (Some (Converted ((jd - UNIX_EPOCH_JD) * 86400 + s))) = Returns (VLong jd)"
    using u pos by (simp add: fn_unix_to_jd_def GREGORIAN_LAST_JD_def MAX_UNIX_JD_def)
  show "GREGORIAN_LAST_JD < jd \<Longrightarrow> jd \<le> MAX_UNIX_JD \<Longrightarrow> 0 \<le> s \<Longrightarrow> s < 86400 \<Longrightarrow>
      fn_unix_to_jd now (Some (Converted ((jd - UNIX_EPOCH_JD) * 86400 + s))) = Returns VFalse"
    using u pos by (simp add: fn_unix_to_jd_def GREGORIAN_LAST_JD_def UNIX_EPOCH_JD_def)
qed

text \<open>C40. \<open>jdtounix\<close> answers midnight of the day without overflow, or an error outside its range; any
  second of the day leads back to the day through \<open>unixtojd\<close>, as long as the Gregorian calendar has
  the day.\<close>

theorem unix_time_roundtrip:
  "(UNIX_EPOCH_JD \<le> jd \<and> jd \<le> MAX_UNIX_JD \<longrightarrow>
      in_i64 ((jd - UNIX_EPOCH_JD) * 86400) \<and>
      fn_jd_to_unix (Converted jd) = Returns (VLong ((jd - UNIX_EPOCH_JD) * 86400))) \<and>
   (jd < UNIX_EPOCH_JD \<or> MAX_UNIX_JD < jd \<longrightarrow> (\<exists>e. fn_jd_to_unix (Converted jd) = Value_Error e)) \<and>
   (UNIX_EPOCH_JD \<le> jd \<and> jd \<le> GREGORIAN_LAST_JD \<and> 0 \<le> s \<and> s < 86400 \<longrightarrow>
      fn_unix_to_jd now (Some (Converted ((jd - UNIX_EPOCH_JD) * 86400 + s))) = Returns (VLong jd)) \<and>
   (GREGORIAN_LAST_JD < jd \<and> jd \<le> MAX_UNIX_JD \<and> 0 \<le> s \<and> s < 86400 \<longrightarrow>
      fn_unix_to_jd now (Some (Converted ((jd - UNIX_EPOCH_JD) * 86400 + s))) = Returns VFalse)"
  using unix_time_roundtrip_facts [of jd] unix_time_roundtrip_facts(3,4) [of jd s now] by blast

theorem unix_time_roundtrip_witness:
  "fn_jd_to_unix (Converted 2460000) = Returns (VLong 1677196800) \<and>
   fn_unix_to_jd 0 (Some (Converted (1677196800 + 43200))) = Returns (VLong 2460000) \<and>
   (\<exists>e. fn_jd_to_unix (Converted 5) = Value_Error e)"
  using unix_time_roundtrip [of 2460000 43200 0] unix_time_roundtrip [of 5 0 0]
  by (simp add: calendar_bounds GREGORIAN_LAST_JD_def)

subsection \<open>Numerals and arrays\<close>

lemma hebrew_letters_only:
  "set (hebrew_greedy table v out) \<subseteq> set out \<union> snd ` set table"
  "set (snd (hebrew_hundreds v out)) \<subseteq> insert (CHR 0xFA) (set out)"
proof -
  show "set (hebrew_greedy table v out) \<subseteq> set out \<union> snd ` set table"
    by (induction table v out rule: hebrew_greedy.induct) auto
  show "set (snd (hebrew_hundreds v out)) \<subseteq> insert (CHR 0xFA) (set out)"
  proof (induction v out rule: hebrew_hundreds.induct)
    case (1 v out)
    then show ?case by (cases "400 \<le> v") (auto simp: hebrew_hundreds.simps [of v])
  qed
qed

lemma hebrew_remainder_letters: "set (hebrew_remainder v) \<subseteq> snd ` set HEBREW_VALUES"
proof -
  obtain w out where h: "hebrew_hundreds v [] = (w, out)" by fastforce
  have o: "set out \<subseteq> snd ` set HEBREW_VALUES"
    using hebrew_letters_only(2) [of v "[]"] by (auto simp: h HEBREW_VALUES_def)
  have l: "{CHR 0xE8, CHR 0xE5, CHR 0xE6} \<subseteq> snd ` set HEBREW_VALUES" by (simp add: HEBREW_VALUES_def)
  have g: "set (hebrew_greedy HEBREW_VALUES u o') \<subseteq> snd ` set HEBREW_VALUES"
    if "set o' \<subseteq> snd ` set HEBREW_VALUES" for u o'
    using hebrew_letters_only(1) [of HEBREW_VALUES u o'] that by blast
  consider "w = 15" | "w = 16" | "w \<noteq> 15" "w \<noteq> 16" by blast
  then show ?thesis using o l by cases (simp_all add: hebrew_remainder_def h g)
qed

lemma hebrew_number_spells_facts:
  assumes "1 \<le> v" "v \<le> 9999"
  defines "letters \<equiv> hebrew_remainder (v mod 1000)"
  shows "append_hebrew_number v flags out =
      out @ (if 1000 \<le> v then hebrew_thousands (v div 1000) flags else []) @ hebrew_gereshayim flags letters"
    and "numeral_value letters = v mod 1000"
    and "filter (\<lambda>c. c \<noteq> CHR 39 \<and> c \<noteq> CHR 0x22) (hebrew_gereshayim flags letters) = letters"
    and "1000 \<le> v \<Longrightarrow> letter_value (hd (hebrew_thousands (v div 1000) flags)) = v div 1000"
proof -
  have t: "0 < v div 1000 \<longleftrightarrow> 1000 \<le> v" using assms by (simp add: pos_imp_zdiv_pos_iff)
  show "append_hebrew_number v flags out =
      out @ (if 1000 \<le> v then hebrew_thousands (v div 1000) flags else []) @ hebrew_gereshayim flags letters"
    using assms(1,2) t by (simp add: append_hebrew_number_def letters_def Let_def mod_pos_pos_trivial)
  show "numeral_value letters = v mod 1000" unfolding letters_def by (rule hebrew_remainder_value) simp
  have "CHR 39 \<notin> set letters" "CHR 0x22 \<notin> set letters"
    using hebrew_remainder_letters [of "v mod 1000"] by (auto simp: letters_def HEBREW_VALUES_def)
  then show "filter (\<lambda>c. c \<noteq> CHR 39 \<and> c \<noteq> CHR 0x22) (hebrew_gereshayim flags letters) = letters" by (rule gereshayim_marks)
  show "letter_value (hd (hebrew_thousands (v div 1000) flags)) = v div 1000" if "1000 \<le> v"
  proof -
    define k where "k = v div 1000"
    have "1 \<le> k" "k \<le> 9" using t that assms(2) div_bounds [of 1000 v] by (simp_all add: k_def)
    then have "k = 1 \<or> k = 2 \<or> k = 3 \<or> k = 4 \<or> k = 5 \<or> k = 6 \<or> k = 7 \<or> k = 8 \<or> k = 9" by presburger
    then show ?thesis unfolding k_def [symmetric]
      by (elim disjE) (simp_all add: hebrew_thousands_def HEBREW_LETTERS_def letter_value_def HEBREW_VALUES_def)
  qed
qed

text \<open>The Hebrew numeral of a number from 1 to 9999 spells it: the thousands are one letter of their
  value, the letters behind it add up to the rest, and the marks the flags ask for are all that is
  added to them.\<close>

theorem hebrew_number_spells:
  assumes "1 \<le> v" "v \<le> 9999"
  defines "letters \<equiv> hebrew_remainder (v mod 1000)"
  shows "append_hebrew_number v flags out =
      out @ (if 1000 \<le> v then hebrew_thousands (v div 1000) flags else []) @ hebrew_gereshayim flags letters \<and>
    numeral_value letters = v mod 1000 \<and>
    filter (\<lambda>c. c \<noteq> CHR 39 \<and> c \<noteq> CHR 0x22) (hebrew_gereshayim flags letters) = letters \<and>
    (1000 \<le> v \<longrightarrow> letter_value (hd (hebrew_thousands (v div 1000) flags)) = v div 1000)"
  using hebrew_number_spells_facts [OF assms(1,2), folded letters_def] by (intro conjI impI)

theorem hebrew_number_spells_witness:
  "numeral_value (hebrew_remainder (5785 mod 1000)) = 785 \<and>
   append_hebrew_number 5785 0 [] = hebrew_thousands 5 0 @ hebrew_gereshayim 0 (hebrew_remainder 785)"
  using hebrew_number_spells [of 5785 0 "[]"] by simp

text \<open>\<open>cal_from_jd\<close> answers an array whose entries, in this order, are the date, its month, day and
  year, the weekday with its two names and the two names of the month; every other calendar id is
  an error.\<close>

theorem cal_from_jd_array:
  "if 0 \<le> calendar \<and> calendar < CAL_NUM_CALS
   then \<exists>a. fn_cal_from_jd (Converted jd) (Converted calendar) = Returns (VArray a) \<and> array_wf a \<and>
     iter a = map (\<lambda>(k, v). (Key_String k, v)) (cal_from_jd_fields jd calendar) \<and>
     (\<forall>k. array_get a (Key_String k) = map_of (cal_from_jd_fields jd calendar) k)
   else \<exists>e. fn_cal_from_jd (Converted jd) (Converted calendar) = Value_Error e"
proof -
  let ?a = "cal_from_jd_value jd calendar"
  have "lookup_key (Key_String k) (map (\<lambda>(k, v). (Key_String k, v)) kvs) = map_of kvs k" for k and kvs :: "(byte_string \<times> php_value) list"
    by (induction kvs) (auto simp: lookup_key_def find_key_def option.map_comp comp_def)
  then have "array_get ?a (Key_String k) = map_of (cal_from_jd_fields jd calendar) k" for k
    using array_get_lookup [OF cal_from_jd_entries(1)] cal_from_jd_entries(2) by simp
  then show ?thesis
    using cal_from_jd_entries [of jd calendar] by (auto simp: fn_cal_from_jd_def validate_calendar_def)
qed

end
