(* ===== verification/Cycle_Roots.thy ===== *)
theory Cycle_Roots
  imports Prelude "HOL-Library.AList"
begin

text \<open>
  The possible-root buffer of the cycle collector (\<open>src/src/value/mod.rs\<close>, the thread local
  \<open>CYCLE_ROOTS\<close> and the guards over it). \<open>Value::drop\<close> records here, weakly, every shared
  cycle-capable allocation that loses a handle; a collection inspects the buffer and retires
  it. The record \<open>cycle_root_state\<close> is the thread-local state together with the cell
  \<open>AUTOMATIC_CYCLE_PENDING\<close>; every operation takes it and returns it, and a Rust guard is the
  value its constructor returns together with the operation its \<open>Drop\<close> performs.

  A \<open>Weak\<close> handle is the identity (address) of its allocation, and the counts a handle reads
  are a function \<open>strong\<close> from identities to the number of \<open>Rc\<close> owners at the time of the
  call. A weak handle keeps its allocation's memory, so that an identity is never reused while
  the buffer names it. Durations are nanoseconds.

  The invariant \<open>roots_wf\<close> says that the index map is exact, that no identity is buffered
  twice, that the pending cell mirrors the pending position, and that the threshold never
  falls below its first value; every operation of the step relation keeps it.
\<close>

named_theorems root_simps "operations of the possible-root buffer"

subsection \<open>Candidates and the state\<close>

datatype cycle_candidate =
    CandArray nat
  | CandObject nat
  | CandReference nat
  | CandClosure nat

fun identity :: "cycle_candidate \<Rightarrow> nat" where
  "identity (CandArray owner) = owner"
| "identity (CandObject owner) = owner"
| "identity (CandReference owner) = owner"
| "identity (CandClosure owner) = owner"

definition strong_count :: "(nat \<Rightarrow> nat) \<Rightarrow> cycle_candidate \<Rightarrow> nat" where
  "strong_count strong c = strong (identity c)"

text \<open>\<open>upgrade\<close> turns a weak handle into an owner exactly while one is left.\<close>

definition upgrade :: "(nat \<Rightarrow> nat) \<Rightarrow> cycle_candidate \<Rightarrow> cycle_candidate option" where
  "upgrade strong c = (if strong_count strong c = 0 then None else Some c)"

record cycle_admission_state =
  enabled :: bool
  initialized :: bool
  threshold :: nat
  pending_start :: "nat option"

definition default_admission :: cycle_admission_state where
  "default_admission =
     \<lparr>enabled = True, initialized = True, threshold = 10001, pending_start = None\<rparr>"

record cycle_root_state =
  active :: bool
  collecting :: bool
  recording_callback_roots :: bool
  snapshot_depth :: nat
  callback_roots :: "nat set"
  runs :: nat
  total_collected :: nat
  request_started_at :: "nat option"
  collector_time :: nat
  destructor_time :: nat
  free_time :: nat
  candidates :: "cycle_candidate list"
  indices :: "nat \<rightharpoonup> nat"
  unadmitted :: "(nat \<times> cycle_candidate) list option"
  admission :: cycle_admission_state
  automatic_pending :: bool

definition default_root_state :: cycle_root_state where
  "default_root_state =
     \<lparr>active = False, collecting = False, recording_callback_roots = False, snapshot_depth = 0,
      callback_roots = {}, runs = 0, total_collected = 0, request_started_at = None,
      collector_time = 0, destructor_time = 0, free_time = 0, candidates = [],
      indices = Map.empty, unadmitted = None, admission = default_admission,
      automatic_pending = False\<rparr>"

text \<open>\<open>Duration::MAX\<close> in nanoseconds, and the saturating sum of durations.\<close>

definition duration_MAX :: nat where
  "duration_MAX = 2 ^ 64 * 10 ^ 9 - 1"

definition saturating_add_duration :: "nat \<Rightarrow> nat \<Rightarrow> nat" where
  "saturating_add_duration a b = min duration_MAX (a + b)"

subsection \<open>The buffer\<close>

text \<open>Collecting pairs into a \<open>HashMap\<close> inserts them in order.\<close>

definition index_from :: "nat \<Rightarrow> cycle_candidate list \<Rightarrow> (nat \<rightharpoonup> nat)" where
  "index_from n cs = fold (\<lambda>(i, c) m. m(identity c \<mapsto> i)) (enumerate n cs) Map.empty"

definition reindex :: "cycle_root_state \<Rightarrow> cycle_root_state" where
  "reindex st = st\<lparr>indices := index_from 0 (candidates st)\<rparr>"

text \<open>The closure of \<open>retain\<close> counts the survivors before the pending position.\<close>

fun retain_prefix ::
  "(cycle_candidate \<Rightarrow> bool) \<Rightarrow> nat option \<Rightarrow> nat \<Rightarrow> nat \<Rightarrow> cycle_candidate list \<Rightarrow>
     cycle_candidate list \<times> nat"
where
  "retain_prefix keep boundary old_index retained_prefix [] = ([], retained_prefix)"
| "retain_prefix keep boundary old_index retained_prefix (c # cs) =
     (let retained = (if keep c \<and> (case boundary of None \<Rightarrow> False | Some e \<Rightarrow> old_index < e)
                      then retained_prefix + 1 else retained_prefix);
          (rest_kept, total) = retain_prefix keep boundary (old_index + 1) retained cs
      in (if keep c then c # rest_kept else rest_kept, total))"

definition prune_dead_candidates :: "(nat \<Rightarrow> nat) \<Rightarrow> cycle_root_state \<Rightarrow> cycle_root_state" where
  "prune_dead_candidates strong st =
     (let boundary = pending_start (admission st);
          (kept, retained) =
            retain_prefix (\<lambda>c. strong_count strong c \<noteq> 0) boundary 0 0 (candidates st);
          st = st\<lparr>candidates := kept\<rparr>;
          st = (if boundary \<noteq> None
                then st\<lparr>admission := (admission st)\<lparr>pending_start := Some retained\<rparr>\<rparr> else st)
      in reindex st)"

text \<open>The blocks of \<open>register_cycle_candidate_with_admission\<close>, in order: the guard, the
  bookkeeping of a genuine release, and the request of an automatic collection.\<close>

definition accepts :: "cycle_root_state \<Rightarrow> bool" where
  "accepts st \<longleftrightarrow>
     \<not> (\<not> active st \<or> snapshot_depth st \<noteq> 0 \<or> (collecting st \<and> \<not> recording_callback_roots st))"

definition note_release :: "nat \<Rightarrow> cycle_root_state \<Rightarrow> cycle_root_state" where
  "note_release i st =
     (let st = (case unadmitted st of
                  None \<Rightarrow> st
                | Some entries \<Rightarrow>
                    (if entries \<noteq> [] then st\<lparr>unadmitted := Some (AList.delete i entries)\<rparr> else st))
      in if collecting st then st\<lparr>callback_roots := insert i (callback_roots st)\<rparr> else st)"

definition request_automatic :: "(nat \<Rightarrow> nat) \<Rightarrow> bool \<Rightarrow> cycle_root_state \<Rightarrow> cycle_root_state" where
  "request_automatic strong allow_automatic st =
     (if allow_automatic \<and> \<not> collecting st \<and> enabled (admission st)
         \<and> pending_start (admission st) = None
         \<and> threshold (admission st) \<le> saturating_add_usize (length (candidates st)) 1
      then
        let st = prune_dead_candidates strong st
        in if threshold (admission st) \<le> saturating_add_usize (length (candidates st)) 1
           then st\<lparr>admission := (admission st)\<lparr>pending_start := Some (length (candidates st))\<rparr>,
                   automatic_pending := True\<rparr>
           else st
      else st)"

definition push_candidate :: "cycle_candidate \<Rightarrow> cycle_root_state \<Rightarrow> cycle_root_state" where
  "push_candidate c st =
     st\<lparr>indices := (indices st)(identity c \<mapsto> length (candidates st)),
        candidates := candidates st @ [c]\<rparr>"

definition register_cycle_candidate_with_admission ::
  "(nat \<Rightarrow> nat) \<Rightarrow> cycle_candidate \<Rightarrow> bool \<Rightarrow> cycle_root_state \<Rightarrow> cycle_root_state"
where
  "register_cycle_candidate_with_admission strong candidate allow_automatic st =
     (if \<not> accepts st then st
      else if \<not> initialized (admission st)
      then st\<lparr>unadmitted :=
               Some (AList.update (identity candidate) candidate
                       (case unadmitted st of None \<Rightarrow> [] | Some entries \<Rightarrow> entries))\<rparr>
      else
        let st = note_release (identity candidate) st
        in if candidates st \<noteq> [] \<and> identity (last (candidates st)) = identity candidate
           then (if strong_count strong (last (candidates st)) = 0
                 then st\<lparr>candidates := butlast (candidates st) @ [candidate]\<rparr> else st)
           else case indices st (identity candidate) of
             Some index \<Rightarrow>
               (if strong_count strong (candidates st ! index) = 0
                then st\<lparr>candidates := (candidates st)[index := candidate]\<rparr> else st)
           | None \<Rightarrow> push_candidate candidate (request_automatic strong allow_automatic st))"

definition register_cycle_candidate ::
  "(nat \<Rightarrow> nat) \<Rightarrow> cycle_candidate \<Rightarrow> cycle_root_state \<Rightarrow> cycle_root_state"
where
  "register_cycle_candidate strong candidate st =
     register_cycle_candidate_with_admission strong candidate True st"

subsection \<open>Switching automatic collection\<close>

definition automatic_cycle_collection_pending :: "cycle_root_state \<Rightarrow> bool" where
  "automatic_cycle_collection_pending st = automatic_pending st"

definition set_automatic_cycle_collection_enabled ::
  "bool \<Rightarrow> cycle_root_state \<Rightarrow> cycle_root_state"
where
  "set_automatic_cycle_collection_enabled on st =
     (let st = st\<lparr>admission := (admission st)\<lparr>enabled := on,
                    initialized := initialized (admission st) \<or> on\<rparr>\<rparr>
      in if \<not> on
         then st\<lparr>admission := (admission st)\<lparr>pending_start := None\<rparr>, automatic_pending := False\<rparr>
         else st)"

definition initialize_cycle_collection :: "bool \<Rightarrow> cycle_root_state \<Rightarrow> cycle_root_state" where
  "initialize_cycle_collection on st =
     (let st = set_automatic_cycle_collection_enabled on st
      in st\<lparr>admission := (admission st)\<lparr>initialized := on\<rparr>\<rparr>)"

subsection \<open>Automatic admission\<close>

record automatic_cycle_admission =
  adm_incoming :: "cycle_candidate list"
  adm_owners :: "cycle_candidate list"

text \<open>\<open>restore_incoming\<close> drains the incoming roots back into the buffer; \<open>strong\<close> does not change
  while it runs.\<close>

definition restore_incoming ::
  "(nat \<Rightarrow> nat) \<Rightarrow> automatic_cycle_admission \<Rightarrow> cycle_root_state \<Rightarrow>
     automatic_cycle_admission \<times> cycle_root_state"
where
  "restore_incoming strong adm st =
     (adm\<lparr>adm_incoming := []\<rparr>,
      fold (\<lambda>candidate st.
              if strong_count strong candidate \<noteq> 0
              then register_cycle_candidate_with_admission strong candidate False st else st)
           (adm_incoming adm) st)"

definition admission_complete ::
  "(nat \<Rightarrow> nat) \<Rightarrow> nat \<Rightarrow> automatic_cycle_admission \<Rightarrow> cycle_root_state \<Rightarrow>
     automatic_cycle_admission \<times> cycle_root_state"
where
  "admission_complete strong count adm st =
     (let limit = threshold (admission st);
          st = st\<lparr>admission := (admission st)\<lparr>threshold :=
                 (if count < 100 \<or> limit \<le> length (candidates st)
                  then saturating_add_usize limit 10000
                  else max (limit - 10000) 10001)\<rparr>\<rparr>
      in restore_incoming strong adm st)"

text \<open>Dropping the admission releases its owners with snapshots suppressed, which leaves the
  state as it was but for the counts: \<open>strong\<close> are the counts after the release.\<close>

definition admission_drop ::
  "(nat \<Rightarrow> nat) \<Rightarrow> automatic_cycle_admission \<Rightarrow> cycle_root_state \<Rightarrow> cycle_root_state"
where
  "admission_drop strong adm st = snd (restore_incoming strong (adm\<lparr>adm_owners := []\<rparr>) st)"

definition take_automatic_cycle_admission ::
  "(nat \<Rightarrow> nat) \<Rightarrow> cycle_root_state \<Rightarrow> automatic_cycle_admission option \<times> cycle_root_state"
where
  "take_automatic_cycle_admission strong st =
     (if collecting st \<or> \<not> active st then (None, st)
      else case pending_start (admission st) of
        None \<Rightarrow> (None, st)
      | Some first \<Rightarrow>
          (let st = st\<lparr>admission := (admission st)\<lparr>pending_start := None\<rparr>, automatic_pending := False\<rparr>;
               inc = drop first (candidates st);
               st = reindex (st\<lparr>candidates := take first (candidates st)\<rparr>)
           in (Some \<lparr>adm_incoming = inc, adm_owners = List.map_filter (upgrade strong) inc\<rparr>, st)))"

subsection \<open>The guards of a collection\<close>

type_synonym cycle_collection_guard = "(nat \<times> nat \<times> nat \<times> nat) option"

definition begin_cycle_collection ::
  "cycle_root_state \<Rightarrow> cycle_collection_guard option \<times> cycle_root_state"
where
  "begin_cycle_collection st =
     (if collecting st \<or> \<not> initialized (admission st) then (None, st)
      else (Some None,
            st\<lparr>collecting := True, admission := (admission st)\<lparr>pending_start := None\<rparr>,
               automatic_pending := False, callback_roots := {}\<rparr>))"

definition has_callback_roots :: "(nat \<Rightarrow> nat) \<Rightarrow> cycle_root_state \<Rightarrow> bool" where
  "has_callback_roots strong st \<longleftrightarrow>
     list_ex (\<lambda>c. identity c \<in> callback_roots st \<and> strong_count strong c \<noteq> 0) (candidates st)"

definition retire_visited_callback_root :: "nat \<Rightarrow> cycle_root_state \<Rightarrow> cycle_root_state" where
  "retire_visited_callback_root i st = st\<lparr>callback_roots := callback_roots st - {i}\<rparr>"

definition mark_ran :: "cycle_root_state \<Rightarrow> cycle_root_state" where
  "mark_ran st = st\<lparr>runs := saturating_add_usize (runs st) 1\<rparr>"

definition guard_complete ::
  "nat \<Rightarrow> nat \<Rightarrow> nat \<Rightarrow> nat \<Rightarrow> cycle_collection_guard \<Rightarrow> cycle_collection_guard"
where
  "guard_complete count ct dt ft guard = Some (count, ct, dt, ft)"

definition guard_drop ::
  "(nat \<Rightarrow> nat) \<Rightarrow> cycle_collection_guard \<Rightarrow> cycle_root_state \<Rightarrow> cycle_root_state"
where
  "guard_drop strong guard st =
     (let st = st\<lparr>collecting := False, recording_callback_roots := False\<rparr>
      in case guard of
           None \<Rightarrow> st
         | Some (count, ct, dt, ft) \<Rightarrow>
             (let st = st\<lparr>total_collected := saturating_add_usize (total_collected st) count,
                          collector_time := saturating_add_duration (collector_time st) ct,
                          destructor_time := saturating_add_duration (destructor_time st) dt,
                          free_time := saturating_add_duration (free_time st) ft\<rparr>;
                  kept = filter (\<lambda>c. identity c \<in> callback_roots st \<and> strong_count strong c \<noteq> 0)
                           (candidates st)
              in reindex (st\<lparr>callback_roots := {}, candidates := kept\<rparr>)))"

definition record_cycle_callback_roots :: "cycle_root_state \<Rightarrow> bool \<times> cycle_root_state" where
  "record_cycle_callback_roots st =
     (recording_callback_roots st, st\<lparr>recording_callback_roots := True\<rparr>)"

definition callback_guard_drop :: "bool \<Rightarrow> cycle_root_state \<Rightarrow> cycle_root_state" where
  "callback_guard_drop previous st = st\<lparr>recording_callback_roots := previous\<rparr>"

definition suppress_cycle_snapshot_roots :: "cycle_root_state \<Rightarrow> cycle_root_state" where
  "suppress_cycle_snapshot_roots st = st\<lparr>snapshot_depth := snapshot_depth st + 1\<rparr>"

definition snapshot_guard_drop :: "cycle_root_state \<Rightarrow> cycle_root_state" where
  "snapshot_guard_drop st = st\<lparr>snapshot_depth := (snapshot_depth st + usize_MAX) mod 2 ^ 64\<rparr>"

subsection \<open>Status and snapshots\<close>

text \<open>The times of the status are the durations whose seconds the source reports.\<close>

record cycle_collection_status =
  status_running :: bool
  status_protected :: bool
  status_runs :: nat
  status_collected :: nat
  status_roots :: nat
  status_threshold :: nat
  status_buffer_size :: nat
  status_application_time :: nat
  status_collector_time :: nat
  status_destructor_time :: nat
  status_free_time :: nat

definition cycle_collection_status_of ::
  "nat \<Rightarrow> (nat \<Rightarrow> nat) \<Rightarrow> cycle_root_state \<Rightarrow> cycle_collection_status \<times> cycle_root_state"
where
  "cycle_collection_status_of now strong st =
     (let st = prune_dead_candidates strong st;
          accounted = saturating_add_duration
                        (saturating_add_duration (collector_time st) (destructor_time st))
                        (free_time st)
      in (\<lparr>status_running = collecting st,
           status_protected = (\<not> initialized (admission st)),
           status_runs = runs st,
           status_collected = total_collected st,
           status_roots = length (candidates st),
           status_threshold = (if initialized (admission st) then threshold (admission st) else 0),
           status_buffer_size = (if initialized (admission st) then 16384 else 0),
           status_application_time =
             (case request_started_at st of None \<Rightarrow> 0 | Some started \<Rightarrow> (now - started) - accounted),
           status_collector_time = collector_time st,
           status_destructor_time = destructor_time st,
           status_free_time = free_time st\<rparr>, st))"

definition prune_dead_cycle_root_storage ::
  "(nat \<Rightarrow> nat) \<Rightarrow> cycle_root_state \<Rightarrow> cycle_root_state"
where
  "prune_dead_cycle_root_storage strong st =
     (if collecting st then st
      else
        let st = prune_dead_candidates strong st
        in if candidates st = [] then st\<lparr>indices := Map.empty\<rparr>
           else st\<lparr>indices := index_from 0 (candidates st)\<rparr>)"

definition cycle_root_snapshot ::
  "(nat \<Rightarrow> nat) \<Rightarrow> cycle_root_state \<Rightarrow> cycle_candidate list \<times> cycle_root_state"
where
  "cycle_root_snapshot strong st =
     (let st = prune_dead_candidates strong st
      in (List.map_filter (upgrade strong) (candidates st), st))"

definition retain_unadmitted :: "(nat \<Rightarrow> nat) \<Rightarrow> cycle_root_state \<Rightarrow> cycle_root_state" where
  "retain_unadmitted strong st =
     st\<lparr>unadmitted :=
          map_option (filter (\<lambda>(i, c). strong_count strong c \<noteq> 0)) (unadmitted st)\<rparr>"

definition unadmitted_cycle_root_snapshot ::
  "(nat \<Rightarrow> nat) \<Rightarrow> cycle_root_state \<Rightarrow> cycle_candidate list \<times> cycle_root_state"
where
  "unadmitted_cycle_root_snapshot strong st =
     (let st = retain_unadmitted strong st
      in (case unadmitted st of
            None \<Rightarrow> []
          | Some entries \<Rightarrow> List.map_filter (upgrade strong) (map snd entries), st))"

definition unadmitted_cycle_root_identities ::
  "(nat \<Rightarrow> nat) \<Rightarrow> cycle_root_state \<Rightarrow> nat list \<times> cycle_root_state"
where
  "unadmitted_cycle_root_identities strong st =
     (let st = retain_unadmitted strong st
      in (case unadmitted st of None \<Rightarrow> [] | Some entries \<Rightarrow> map fst entries, st))"

subsection \<open>Requests\<close>

definition begin_request_roots :: "nat \<Rightarrow> cycle_root_state \<Rightarrow> cycle_root_state" where
  "begin_request_roots now st =
     st\<lparr>active := True, admission := default_admission, automatic_pending := False,
        collecting := False, recording_callback_roots := False, snapshot_depth := 0,
        callback_roots := {}, runs := 0, total_collected := 0, request_started_at := Some now,
        collector_time := 0, destructor_time := 0, free_time := 0, candidates := [],
        indices := Map.empty, unadmitted := None\<rparr>"

definition end_request_roots :: "cycle_root_state \<Rightarrow> cycle_root_state" where
  "end_request_roots st =
     st\<lparr>active := False, admission := default_admission, automatic_pending := False,
        collecting := False, recording_callback_roots := False, snapshot_depth := 0,
        callback_roots := {}, runs := 0, total_collected := 0, request_started_at := None,
        collector_time := 0, destructor_time := 0, free_time := 0, candidates := [],
        indices := Map.empty, unadmitted := None\<rparr>"

subsection \<open>The index\<close>

lemma index_from_ids:
  "index_from n cs = fold (\<lambda>(i, x) m. m(x \<mapsto> i)) (enumerate n (map identity cs)) Map.empty"
proof -
  have "fold (\<lambda>(i, c) m. m(identity c \<mapsto> i)) (enumerate n cs) m =
        fold (\<lambda>(i, x) m. m(x \<mapsto> i)) (enumerate n (map identity cs)) m" for m
    by (induction cs arbitrary: n m) auto
  then show ?thesis by (simp add: index_from_def)
qed

lemma index_from_cong: "map identity cs = map identity ds \<Longrightarrow> index_from n cs = index_from n ds"
  by (simp add: index_from_ids)

lemma index_from_Nil [simp]: "index_from n [] = Map.empty"
  by (simp add: index_from_def)

lemma index_from_snoc:
  "index_from n (cs @ [c]) = (index_from n cs)(identity c \<mapsto> n + length cs)"
  by (simp add: index_from_def enumerate_append_eq)

lemma index_from_None_iff: "index_from n cs i = None \<longleftrightarrow> i \<notin> identity ` set cs"
  by (induction cs rule: rev_induct) (auto simp: index_from_snoc)

lemma index_from_SomeD:
  "index_from n cs i = Some k \<Longrightarrow> n \<le> k \<and> k < n + length cs \<and> identity (cs ! (k - n)) = i"
  by (induction cs rule: rev_induct) (auto simp: index_from_snoc nth_append split: if_splits)

lemma index_from_nth:
  assumes "distinct (map identity cs)" and "k < length cs"
  shows "index_from 0 cs (identity (cs ! k)) = Some k"
proof -
  from assms(2) have "index_from 0 cs (identity (cs ! k)) \<noteq> None"
    by (simp add: index_from_None_iff)
  then obtain j where j: "index_from 0 cs (identity (cs ! k)) = Some j" by blast
  from index_from_SomeD [OF this] have "j < length cs" "map identity cs ! j = map identity cs ! k"
    using assms(2) by auto
  with assms have "j = k" by (simp add: distinct_conv_nth) (metis)
  with j show ?thesis by simp
qed

subsection \<open>Pruning\<close>

lemma retain_prefix_kept: "fst (retain_prefix keep b n r cs) = filter keep cs"
  by (induction cs arbitrary: n r) (auto simp: Let_def split_beta)

lemma retain_prefix_count:
  "snd (retain_prefix keep b n r cs) =
     r + (case b of None \<Rightarrow> 0 | Some e \<Rightarrow> length (filter keep (take (e - n) cs)))"
proof (induction cs arbitrary: n r)
  case (Cons c cs)
  then show ?case
    by (cases b) (auto simp: Let_def split_beta take_Cons')
qed (auto split: option.splits)

lemma prune_dead_candidates_eq:
  "prune_dead_candidates strong st =
     st\<lparr>candidates := filter (\<lambda>c. strong_count strong c \<noteq> 0) (candidates st),
        indices := index_from 0 (filter (\<lambda>c. strong_count strong c \<noteq> 0) (candidates st)),
        admission := (admission st)\<lparr>pending_start :=
          map_option (\<lambda>e. length (filter (\<lambda>c. strong_count strong c \<noteq> 0) (take e (candidates st))))
            (pending_start (admission st))\<rparr>\<rparr>"
proof (cases "pending_start (admission st)")
  case None
  have "admission st = (admission st)\<lparr>pending_start := None\<rparr>" using None by simp
  with None show ?thesis
    by (simp add: prune_dead_candidates_def reindex_def Let_def split_beta retain_prefix_kept)
next
  case (Some e)
  then show ?thesis
    by (simp add: prune_dead_candidates_def reindex_def Let_def split_beta retain_prefix_kept
        retain_prefix_count)
qed

subsection \<open>The invariant\<close>

definition unadmitted_ok :: "(nat \<times> cycle_candidate) list \<Rightarrow> bool" where
  "unadmitted_ok entries \<longleftrightarrow>
     distinct (map fst entries) \<and> (\<forall>(i, c) \<in> set entries. identity c = i)"

lemma set_alist_delete_subset: "set (AList.delete k entries) \<subseteq> set entries"
  by (auto simp: AList.delete_eq)

lemma set_alist_update_subset: "set (AList.update k v entries) \<subseteq> insert (k, v) (set entries)"
  by (induction entries) auto

lemma unadmitted_ok_ops [simp]:
  "unadmitted_ok []"
  "unadmitted_ok [(identity d, d)]"
  "unadmitted_ok entries \<Longrightarrow> unadmitted_ok (AList.update (identity d) d entries)"
  "unadmitted_ok entries \<Longrightarrow> unadmitted_ok (AList.delete i entries)"
  "unadmitted_ok entries \<Longrightarrow> unadmitted_ok (filter P entries)"
  using set_alist_update_subset [of "identity d" d entries] set_alist_delete_subset [of i entries]
  by (auto simp: unadmitted_ok_def distinct_update distinct_delete distinct_map_filter)

definition roots_wf :: "cycle_root_state \<Rightarrow> bool" where
  "roots_wf st \<longleftrightarrow>
     distinct (map identity (candidates st))
     \<and> indices st = index_from 0 (candidates st)
     \<and> pred_option (\<lambda>p. p \<le> length (candidates st)) (pending_start (admission st))
     \<and> (automatic_pending st \<longleftrightarrow> pending_start (admission st) \<noteq> None)
     \<and> (collecting st \<longrightarrow> pending_start (admission st) = None)
     \<and> (pending_start (admission st) \<noteq> None \<longrightarrow> enabled (admission st))
     \<and> (enabled (admission st) \<longrightarrow> initialized (admission st))
     \<and> 10001 \<le> threshold (admission st)
     \<and> pred_option unadmitted_ok (unadmitted st)"

lemma roots_wf_default [simp]: "roots_wf default_root_state"
  by (simp add: roots_wf_def default_root_state_def default_admission_def)

lemma distinct_map_filter_identity:
  "distinct (map identity cs) \<Longrightarrow> distinct (map identity (filter P cs))"
  by (induction cs) auto

lemma length_filter_take_le: "length (filter P (take e cs)) \<le> length (filter P cs)"
  by (metis append_take_drop_id filter_append length_append le_add1)

lemma prune_wf: "roots_wf st \<Longrightarrow> roots_wf (prune_dead_candidates strong st)"
  by (auto simp: prune_dead_candidates_eq roots_wf_def distinct_map_filter_identity
      length_filter_take_le split: option.splits)

lemma map_identity_update:
  "k < length cs \<Longrightarrow> identity (cs ! k) = identity c \<Longrightarrow> map identity (cs[k := c]) = map identity cs"
  by (simp add: map_update list_update_same_conv)

lemma note_release_eq:
  "note_release i st =
     st\<lparr>unadmitted := map_option (AList.delete i) (unadmitted st),
        callback_roots := (if collecting st then insert i (callback_roots st) else callback_roots st)\<rparr>"
  by (cases st) (auto simp: note_release_def split: option.splits)

lemma note_release_fields [simp]:
  "candidates (note_release i st) = candidates st" "indices (note_release i st) = indices st"
  "admission (note_release i st) = admission st" "collecting (note_release i st) = collecting st"
  "automatic_pending (note_release i st) = automatic_pending st"
  by (simp_all add: note_release_eq)

lemma note_release_wf: "roots_wf st \<Longrightarrow> roots_wf (note_release i st)"
  by (cases "unadmitted st") (simp_all add: note_release_eq roots_wf_def)

text \<open>The tail test is a shortcut for the index: a candidate is found under its identity, or it
  is pushed.\<close>

lemma register_cases:
  fixes c :: cycle_candidate
  assumes wf: "roots_wf st" and acc: "accepts st" and init: "initialized (admission st)"
  defines "n \<equiv> note_release (identity c) st"
  shows "register_cycle_candidate_with_admission strong c allow st =
    (case indices st (identity c) of
       Some k \<Rightarrow> (if strong_count strong (candidates st ! k) = 0
                  then n\<lparr>candidates := (candidates st)[k := c]\<rparr> else n)
     | None \<Rightarrow> push_candidate c (request_automatic strong allow n))"
proof (cases "candidates st \<noteq> [] \<and> identity (last (candidates st)) = identity c")
  case True
  then have last: "last (candidates st) = candidates st ! (length (candidates st) - 1)"
    by (simp add: last_conv_nth)
  moreover from True wf have "indices st (identity c) = Some (length (candidates st) - 1)"
    using index_from_nth [of "candidates st" "length (candidates st) - 1"] last
    by (simp add: roots_wf_def)
  moreover from True have "butlast (candidates st) @ [c] = (candidates st)[length (candidates st) - 1 := c]"
    by (metis append_butlast_last_id length_butlast list_update_length)
  ultimately show ?thesis using True acc init
    by (simp add: register_cycle_candidate_with_admission_def n_def)
next
  case False
  with acc init show ?thesis
    by (auto simp: register_cycle_candidate_with_admission_def n_def Let_def split: option.splits)
qed

lemma replace_candidate_wf:
  assumes wf: "roots_wf st" and k: "indices st (identity c) = Some k"
  shows "roots_wf (st\<lparr>candidates := (candidates st)[k := c]\<rparr>)"
proof -
  from wf k have "index_from 0 (candidates st) (identity c) = Some k" by (simp add: roots_wf_def)
  from index_from_SomeD [OF this] have "k < length (candidates st)"
    "identity (candidates st ! k) = identity c" by auto
  then have ids: "map identity ((candidates st)[k := c]) = map identity (candidates st)"
    by (rule map_identity_update)
  with wf index_from_cong [OF ids, of 0] show ?thesis
    by (simp add: roots_wf_def cong: option.case_cong)
qed

lemma request_automatic_wf: "roots_wf st \<Longrightarrow> roots_wf (request_automatic strong allow st)"
  using prune_wf [of st strong]
  by (auto simp: request_automatic_def Let_def roots_wf_def prune_dead_candidates_eq)

lemma request_automatic_candidates:
  "candidates (request_automatic strong allow st) =
     (if allow \<and> \<not> collecting st \<and> enabled (admission st) \<and> pending_start (admission st) = None
         \<and> threshold (admission st) \<le> saturating_add_usize (length (candidates st)) 1
      then filter (\<lambda>c. strong_count strong c \<noteq> 0) (candidates st) else candidates st)"
  by (simp add: request_automatic_def Let_def prune_dead_candidates_eq)

lemma push_candidate_wf:
  "roots_wf st \<Longrightarrow> identity c \<notin> identity ` set (candidates st) \<Longrightarrow> roots_wf (push_candidate c st)"
  by (auto simp: roots_wf_def push_candidate_def index_from_snoc split: option.splits)

lemma register_roots_wf:
  assumes wf: "roots_wf st"
  shows "roots_wf (register_cycle_candidate_with_admission strong c allow st)"
proof (cases "accepts st \<and> initialized (admission st)")
  case True
  let ?n = "note_release (identity c) st"
  have n: "roots_wf ?n" using wf by (rule note_release_wf)
  show ?thesis
  proof (cases "indices st (identity c)")
    case None
    with wf have "identity c \<notin> identity ` set (candidates (request_automatic strong allow ?n))"
      by (auto simp: roots_wf_def index_from_None_iff request_automatic_candidates)
    with None True show ?thesis
      by (simp add: register_cases [OF wf] push_candidate_wf request_automatic_wf n)
  next
    case (Some k)
    with True n replace_candidate_wf [OF n, of c k] show ?thesis
      by (simp add: register_cases [OF wf])
  qed
next
  case False
  with wf show ?thesis
    by (cases "unadmitted st") (auto simp: register_cycle_candidate_with_admission_def roots_wf_def)
qed

subsection \<open>Every operation keeps the invariant\<close>

lemma restore_incoming_wf: "roots_wf st \<Longrightarrow> roots_wf (snd (restore_incoming strong adm st))"
proof -
  have "roots_wf (fold (\<lambda>candidate st.
          if strong_count strong candidate \<noteq> 0
          then register_cycle_candidate_with_admission strong candidate False st else st) cs st)"
    if "roots_wf st" for cs
    using that by (induction cs arbitrary: st) (auto simp: register_roots_wf)
  then show "roots_wf st \<Longrightarrow> ?thesis" by (simp add: restore_incoming_def)
qed

lemma admission_complete_wf:
  assumes "roots_wf st"
  shows "roots_wf (snd (admission_complete strong count adm st))"
proof -
  have "roots_wf (st\<lparr>admission := (admission st)\<lparr>threshold := t\<rparr>\<rparr>)" if "10001 \<le> t" for t
    using assms that by (simp add: roots_wf_def)
  moreover have "10001 \<le> saturating_add_usize (threshold (admission st)) 10000"
    using assms by (simp add: roots_wf_def saturating_add_usize_def usize_MAX_def)
  ultimately show ?thesis
    by (simp add: admission_complete_def Let_def restore_incoming_wf)
qed

lemma take_admission_wf:
  assumes wf: "roots_wf st"
  shows "roots_wf (snd (take_automatic_cycle_admission strong st))"
proof -
  have "distinct (map identity (take n (candidates st)))" for n
    using wf by (simp add: roots_wf_def take_map [symmetric] distinct_take)
  with wf show ?thesis
    by (auto simp: take_automatic_cycle_admission_def reindex_def Let_def roots_wf_def
        split: option.splits)
qed

lemma guard_drop_wf: "roots_wf st \<Longrightarrow> collecting st \<Longrightarrow> roots_wf (guard_drop strong guard st)"
  by (auto simp: guard_drop_def reindex_def Let_def roots_wf_def distinct_map_filter_identity
      split: option.splits)

lemma set_enabled_wf: "roots_wf st \<Longrightarrow> roots_wf (set_automatic_cycle_collection_enabled on st)"
  by (auto simp: set_automatic_cycle_collection_enabled_def Let_def roots_wf_def)

lemma initialize_wf: "roots_wf st \<Longrightarrow> roots_wf (initialize_cycle_collection on st)"
  by (auto simp: initialize_cycle_collection_def set_automatic_cycle_collection_enabled_def
      Let_def roots_wf_def)

lemma begin_collection_wf: "roots_wf st \<Longrightarrow> roots_wf (snd (begin_cycle_collection st))"
  by (auto simp: begin_cycle_collection_def roots_wf_def)

lemma retain_unadmitted_wf: "roots_wf st \<Longrightarrow> roots_wf (retain_unadmitted strong st)"
  by (cases "unadmitted st") (simp_all add: retain_unadmitted_def roots_wf_def)

lemma prune_storage_wf: "roots_wf st \<Longrightarrow> roots_wf (prune_dead_cycle_root_storage strong st)"
  using prune_wf [of st strong]
  by (auto simp: prune_dead_cycle_root_storage_def Let_def roots_wf_def prune_dead_candidates_eq)

lemmas root_wf_intros =
  register_roots_wf restore_incoming_wf admission_complete_wf take_admission_wf guard_drop_wf
  set_enabled_wf initialize_wf begin_collection_wf retain_unadmitted_wf prune_storage_wf prune_wf

text \<open>The life of the buffer: any sequence of its operations, with any counts at each. A
  collection guard exists only between the beginning of a collection and its own drop, so that
  it is dropped while the state is collecting.\<close>

inductive root_step :: "cycle_root_state \<Rightarrow> cycle_root_state \<Rightarrow> bool" where
  register: "root_step st (register_cycle_candidate strong c st)"
| register_quiet: "root_step st (register_cycle_candidate_with_admission strong c False st)"
| set_enabled: "root_step st (set_automatic_cycle_collection_enabled on st)"
| initialise: "root_step st (initialize_cycle_collection on st)"
| take_admission: "root_step st (snd (take_automatic_cycle_admission strong st))"
| complete_admission: "root_step st (snd (admission_complete strong count adm st))"
| drop_admission: "root_step st (admission_drop strong adm st)"
| begin_collection: "root_step st (snd (begin_cycle_collection st))"
| retire_visited: "root_step st (retire_visited_callback_root i st)"
| ran: "root_step st (mark_ran st)"
| drop_guard: "collecting st \<Longrightarrow> root_step st (guard_drop strong guard st)"
| record_callbacks: "root_step st (snd (record_cycle_callback_roots st))"
| drop_callback_guard: "root_step st (callback_guard_drop previous st)"
| suppress: "root_step st (suppress_cycle_snapshot_roots st)"
| drop_snapshot_guard: "root_step st (snapshot_guard_drop st)"
| read_status: "root_step st (snd (cycle_collection_status_of now strong st))"
| prune_storage: "root_step st (prune_dead_cycle_root_storage strong st)"
| snapshot: "root_step st (snd (cycle_root_snapshot strong st))"
| unadmitted_snapshot: "root_step st (snd (unadmitted_cycle_root_snapshot strong st))"
| unadmitted_identities: "root_step st (snd (unadmitted_cycle_root_identities strong st))"
| begin_request: "root_step st (begin_request_roots now st)"
| end_request: "root_step st (end_request_roots st)"

lemma root_step_wf: "root_step st st' \<Longrightarrow> roots_wf st \<Longrightarrow> roots_wf st'"
proof (induction rule: root_step.induct)
  case (retire_visited st i)
  then show ?case by (simp add: retire_visited_callback_root_def roots_wf_def)
next
  case (ran st)
  then show ?case by (simp add: mark_ran_def roots_wf_def)
next
  case (record_callbacks st)
  then show ?case by (simp add: record_cycle_callback_roots_def roots_wf_def)
next
  case (drop_callback_guard st previous)
  then show ?case by (simp add: callback_guard_drop_def roots_wf_def)
next
  case (suppress st)
  then show ?case by (simp add: suppress_cycle_snapshot_roots_def roots_wf_def)
next
  case (drop_snapshot_guard st)
  then show ?case by (simp add: snapshot_guard_drop_def roots_wf_def)
next
  case (begin_request st now)
  then show ?case by (simp add: begin_request_roots_def roots_wf_def default_admission_def)
next
  case (end_request st)
  then show ?case by (simp add: end_request_roots_def roots_wf_def default_admission_def)
qed (simp_all add: root_wf_intros register_cycle_candidate_def admission_drop_def
      cycle_collection_status_of_def cycle_root_snapshot_def unadmitted_cycle_root_snapshot_def
      unadmitted_cycle_root_identities_def Let_def)

lemma reachable_roots_wf_facts: "root_step\<^sup>*\<^sup>* default_root_state st \<Longrightarrow> roots_wf st"
  by (induction rule: rtranclp_induct) (simp_all add: root_step_wf)

subsection \<open>What the buffer holds\<close>

text \<open>The roots a collection would inspect: the identities of the live candidates, in order.\<close>

definition live_roots :: "(nat \<Rightarrow> nat) \<Rightarrow> cycle_root_state \<Rightarrow> nat list" where
  "live_roots strong st = map identity (filter (\<lambda>c. strong_count strong c \<noteq> 0) (candidates st))"

lemma live_roots_filter: "live_roots strong st = filter (\<lambda>i. strong i \<noteq> 0) (map identity (candidates st))"
  by (simp add: live_roots_def filter_map comp_def strong_count_def)

lemma live_roots_snapshot:
  "map identity (fst (cycle_root_snapshot strong st)) = live_roots strong st"
proof -
  have "List.map_filter (upgrade strong) cs = filter (\<lambda>c. strong_count strong c \<noteq> 0) cs" for cs
    by (induction cs) (auto simp: upgrade_def List.map_filter_simps)
  then show ?thesis
    by (simp add: cycle_root_snapshot_def live_roots_def prune_dead_candidates_eq Let_def)
qed

lemma push_candidate_live:
  "live_roots strong (push_candidate c st) =
     live_roots strong st @ (if strong (identity c) = 0 then [] else [identity c])"
  by (simp add: live_roots_def push_candidate_def strong_count_def)

lemma request_automatic_live [simp]: "live_roots strong (request_automatic strong allow st) = live_roots strong st"
  by (simp add: live_roots_def request_automatic_candidates)

lemma note_release_live [simp]: "live_roots strong (note_release i st) = live_roots strong st"
  by (simp add: live_roots_def)

lemma indices_None_iff: "roots_wf st \<Longrightarrow> indices st i = None \<longleftrightarrow> i \<notin> identity ` set (candidates st)"
  by (simp add: roots_wf_def index_from_None_iff)

lemma live_roots_mem:
  "strong i \<noteq> 0 \<Longrightarrow> i \<in> set (live_roots strong st) \<longleftrightarrow> i \<in> identity ` set (candidates st)"
  by (auto simp: live_roots_filter)

lemma replace_candidate_live:
  assumes wf: "roots_wf st" and k: "indices st (identity c) = Some k"
  shows "live_roots strong (st\<lparr>candidates := (candidates st)[k := c]\<rparr>) = live_roots strong st"
proof -
  from wf k have "index_from 0 (candidates st) (identity c) = Some k" by (simp add: roots_wf_def)
  from index_from_SomeD [OF this] show ?thesis
    by (simp add: live_roots_filter map_identity_update)
qed

lemma register_live:
  assumes wf: "roots_wf st" and "accepts st" and "initialized (admission st)"
    and live: "strong (identity c) \<noteq> 0"
  shows "live_roots strong (register_cycle_candidate_with_admission strong c allow st) =
     (if identity c \<in> set (live_roots strong st) then live_roots strong st
      else live_roots strong st @ [identity c])"
proof (cases "indices st (identity c)")
  case None
  with wf live have "identity c \<notin> set (live_roots strong st)"
    by (simp add: indices_None_iff live_roots_mem)
  with None live show ?thesis
    by (simp add: register_cases [OF assms(1-3)] push_candidate_live)
next
  case (Some k)
  with wf live have "identity c \<in> set (live_roots strong st)"
    using indices_None_iff [OF wf, of "identity c"] by (simp add: live_roots_mem)
  moreover have "live_roots strong ((note_release (identity c) st)
      \<lparr>candidates := (candidates st)[k := c]\<rparr>) = live_roots strong st"
    using replace_candidate_live [OF note_release_wf [OF wf], where c = c and k = k] Some by simp
  ultimately show ?thesis using Some by (simp add: register_cases [OF assms(1-3)])
qed

lemma request_automatic_pending:
  assumes "roots_wf st"
  shows "automatic_pending (request_automatic strong allow st) \<longleftrightarrow>
     automatic_pending st \<or> (allow \<and> \<not> collecting st \<and> enabled (admission st)
       \<and> threshold (admission st) \<le> saturating_add_usize (length (live_roots strong st)) 1)"
proof -
  have "saturating_add_usize (length (live_roots strong st)) 1
          \<le> saturating_add_usize (length (candidates st)) 1"
    using length_filter_le [of "\<lambda>c. strong_count strong c \<noteq> 0" "candidates st"]
    unfolding live_roots_def saturating_add_usize_def length_map by (intro min.mono) simp_all
  then show ?thesis using assms
    by (auto simp: request_automatic_def Let_def prune_dead_candidates_eq roots_wf_def live_roots_def)
qed

lemma accepts_note [simp]: "accepts (note_release i st) = accepts st"
  by (simp add: accepts_def note_release_eq)

lemma register_flags:
  assumes "roots_wf st" and "accepts st" and "initialized (admission st)"
  shows "accepts (register_cycle_candidate_with_admission strong c allow st)"
    and "initialized (admission (register_cycle_candidate_with_admission strong c allow st))"
  using assms
  by (auto simp: register_cases [OF assms] accepts_def note_release_eq push_candidate_def
      request_automatic_def prune_dead_candidates_eq Let_def split: option.splits)

lemma register_pending:
  assumes wf: "roots_wf st" and "accepts st" and "initialized (admission st)"
    and live: "strong (identity c) \<noteq> 0"
  shows "automatic_pending (register_cycle_candidate_with_admission strong c allow st) \<longleftrightarrow>
     automatic_pending st \<or>
     (identity c \<notin> set (live_roots strong st) \<and> allow \<and> \<not> collecting st \<and> enabled (admission st)
       \<and> threshold (admission st) \<le> saturating_add_usize (length (live_roots strong st)) 1)"
proof (cases "indices st (identity c)")
  case None
  with wf live have "identity c \<notin> set (live_roots strong st)"
    by (simp add: indices_None_iff live_roots_mem)
  with None request_automatic_pending [OF note_release_wf [OF wf]] show ?thesis
    by (simp add: register_cases [OF assms(1-3)] push_candidate_def)
next
  case (Some k)
  with wf live have "identity c \<in> set (live_roots strong st)"
    using indices_None_iff [OF wf, of "identity c"] by (simp add: live_roots_mem)
  with Some show ?thesis by (simp add: register_cases [OF assms(1-3)])
qed

text \<open>Putting the incoming roots back appends those that are alive and not yet buffered.\<close>

lemma restore_live:
  assumes "roots_wf st" and "accepts st" and "initialized (admission st)"
    and "distinct (map identity (adm_incoming adm))"
  shows "live_roots strong (snd (restore_incoming strong adm st)) =
     live_roots strong st
     @ filter (\<lambda>i. strong i \<noteq> 0 \<and> i \<notin> set (live_roots strong st)) (map identity (adm_incoming adm))"
proof -
  have "live_roots strong (fold (\<lambda>candidate st.
          if strong_count strong candidate \<noteq> 0
          then register_cycle_candidate_with_admission strong candidate False st else st) cs st)
        = live_roots strong st
          @ filter (\<lambda>i. strong i \<noteq> 0 \<and> i \<notin> set (live_roots strong st)) (map identity cs)"
    if "roots_wf st" "accepts st" "initialized (admission st)" "distinct (map identity cs)" for cs
    using that
  proof (induction cs arbitrary: st)
    case (Cons c cs)
    let ?st = "register_cycle_candidate_with_admission strong c False st"
    show ?case
    proof (cases "strong (identity c) = 0")
      case True
      with Cons show ?thesis by (simp add: strong_count_def)
    next
      case False
      have IH: "live_roots strong (fold (\<lambda>candidate st.
          if strong_count strong candidate \<noteq> 0
          then register_cycle_candidate_with_admission strong candidate False st else st) cs ?st)
        = live_roots strong ?st
          @ filter (\<lambda>i. strong i \<noteq> 0 \<and> i \<notin> set (live_roots strong ?st)) (map identity cs)"
        using Cons.prems by (intro Cons.IH) (simp_all add: register_roots_wf register_flags)
      have "filter (\<lambda>i. strong i \<noteq> 0 \<and> i \<noteq> identity c \<and> i \<notin> set (live_roots strong st)) (map identity cs)
          = filter (\<lambda>i. strong i \<noteq> 0 \<and> i \<notin> set (live_roots strong st)) (map identity cs)"
        using Cons.prems(4) by (intro filter_cong) (auto simp: image_iff)
      with IH False Cons.prems show ?thesis
        by (simp add: strong_count_def register_live conj_commute conj_left_commute)
    qed
  qed simp
  with assms show ?thesis by (simp add: restore_incoming_def)
qed

subsection \<open>Properties\<close>

text \<open>C7. Whatever sequence of operations the buffer goes through, no allocation is in it twice,
  the index map names exactly the buffered identities with their positions, the cell
  \<open>AUTOMATIC_CYCLE_PENDING\<close> is set exactly when an automatic collection is pending, which
  happens only while automatic collection is enabled and no collection runs, the position of
  the incoming root lies in the buffer, and the threshold stays at least \<open>10001\<close>.
\<close>
theorem reachable_roots_wf:
  assumes "root_step\<^sup>*\<^sup>* default_root_state st"
  shows "distinct (map identity (candidates st))
    \<and> (\<forall>i k. indices st i = Some k \<longleftrightarrow> k < length (candidates st) \<and> identity (candidates st ! k) = i)
    \<and> (automatic_cycle_collection_pending st \<longleftrightarrow> (\<exists>p. pending_start (admission st) = Some p))
    \<and> (\<forall>p. pending_start (admission st) = Some p \<longrightarrow>
         p \<le> length (candidates st) \<and> enabled (admission st) \<and> initialized (admission st)
         \<and> \<not> collecting st)
    \<and> 10001 \<le> threshold (admission st)"
proof -
  have wf: "roots_wf st" using assms by (rule reachable_roots_wf_facts)
  have "indices st i = Some k \<longleftrightarrow> k < length (candidates st) \<and> identity (candidates st ! k) = i" for i k
    using wf index_from_nth [of "candidates st" k] index_from_SomeD [of 0 "candidates st" i k]
    by (auto simp: roots_wf_def)
  with wf show ?thesis
    by (auto simp: roots_wf_def automatic_cycle_collection_pending_def)
qed

theorem reachable_roots_wf_witness:
  "distinct (map identity (candidates
     (register_cycle_candidate (\<lambda>_. 1) (CandObject 5) (begin_request_roots 0 default_root_state))))"
proof -
  have "root_step\<^sup>*\<^sup>* default_root_state
     (register_cycle_candidate (\<lambda>_. 1) (CandObject 5) (begin_request_roots 0 default_root_state))"
    by (meson rtranclp.rtrancl_into_rtrancl rtranclp.rtrancl_refl root_step.begin_request
        root_step.register)
  from reachable_roots_wf [OF this] show ?thesis by simp
qed

text \<open>C39. A release that the state accepts buffers its allocation exactly once: the roots a
  collection would inspect are the old ones in their order, followed by the new one if it was
  not among them; and it requests an automatic collection exactly when a new root fills the
  buffer, counted without dead entries, up to the threshold.
\<close>
theorem register_buffers_root:
  assumes "root_step\<^sup>*\<^sup>* default_root_state st" and "accepts st" and "initialized (admission st)"
    and "strong (identity c) \<noteq> 0"
  shows "let st' = register_cycle_candidate strong c st; old = live_roots strong st in
     map identity (fst (cycle_root_snapshot strong st')) =
       (if identity c \<in> set old then old else old @ [identity c])
     \<and> (automatic_cycle_collection_pending st' \<longleftrightarrow>
          automatic_cycle_collection_pending st
          \<or> (identity c \<notin> set old \<and> \<not> collecting st \<and> enabled (admission st)
             \<and> threshold (admission st) \<le> saturating_add_usize (length old) 1))"
proof -
  have wf: "roots_wf st" using assms(1) by (rule reachable_roots_wf_facts)
  show ?thesis
    using register_live [where strong = strong and c = c, OF wf assms(2-4), of True]
      register_pending [where strong = strong and c = c, OF wf assms(2-4), of True]
    by (simp add: Let_def live_roots_snapshot register_cycle_candidate_def
        automatic_cycle_collection_pending_def)
qed

theorem register_buffers_root_witness:
  "map identity (fst (cycle_root_snapshot (\<lambda>_. 1)
     (register_cycle_candidate (\<lambda>_. 1) (CandObject 5) (begin_request_roots 0 default_root_state)))) = [5]"
proof -
  have "root_step\<^sup>*\<^sup>* default_root_state (begin_request_roots 0 default_root_state)"
    by (meson r_into_rtranclp root_step.begin_request)
  from register_buffers_root [OF this, of "\<lambda>_. 1" "CandObject 5"] show ?thesis
    by (simp add: Let_def accepts_def begin_request_roots_def default_admission_def live_roots_def)
qed

text \<open>C20. An automatic collection takes the root that triggered it out of the buffer, together with
  what was buffered after it, and completing it puts the roots that are still alive back: from
  the state any collection in between leaves, the new buffer is what that state holds followed
  by the incoming roots that are alive and not in it already. Completing at once restores the
  buffer. No request is left pending by the taking, and completing consumes the incoming roots.
\<close>
theorem automatic_admission_restores_roots:
  assumes wf: "roots_wf st" and "pending_start (admission st) = Some p" and "accepts st"
    and "roots_wf st'" and "accepts st'" and "initialized (admission st')"
  shows "\<exists>adm st1. take_automatic_cycle_admission strong st = (Some adm, st1)
     \<and> map identity (candidates st1) @ map identity (adm_incoming adm) = map identity (candidates st)
     \<and> length (candidates st1) = p \<and> \<not> automatic_cycle_collection_pending st1
     \<and> (let (adm', st2) = admission_complete strong' n adm st' in
          adm_incoming adm' = []
          \<and> live_roots strong' st2 = live_roots strong' st'
             @ filter (\<lambda>i. strong' i \<noteq> 0 \<and> i \<notin> set (live_roots strong' st')) (map identity (adm_incoming adm)))
     \<and> live_roots strong (snd (admission_complete strong n adm st1)) = live_roots strong st"
proof -
  have p: "p \<le> length (candidates st)" "\<not> collecting st" "initialized (admission st)"
    using wf assms(2) by (auto simp: roots_wf_def)
  let ?adm = "\<lparr>adm_incoming = drop p (candidates st),
                adm_owners = List.map_filter (upgrade strong) (drop p (candidates st))\<rparr>"
  obtain st1 where st1: "take_automatic_cycle_admission strong st = (Some ?adm, st1)"
    and c1: "candidates st1 = take p (candidates st)" "\<not> automatic_pending st1" "accepts st1"
      "initialized (admission st1)"
    using assms(2,3) p
    by (auto simp: take_automatic_cycle_admission_def accepts_def reindex_def Let_def)
  have wf1: "roots_wf st1" using take_admission_wf [OF wf, of strong] by (simp add: st1)
  have dist: "distinct (map identity (drop p (candidates st)))"
    using wf by (simp add: roots_wf_def drop_map [symmetric])
  have complete: "fst (admission_complete s n ?adm st0) = ?adm\<lparr>adm_incoming := []\<rparr>
      \<and> live_roots s (snd (admission_complete s n ?adm st0)) = live_roots s st0
        @ filter (\<lambda>i. s i \<noteq> 0 \<and> i \<notin> set (live_roots s st0)) (map identity (drop p (candidates st)))"
    if w: "roots_wf st0" "accepts st0" "initialized (admission st0)" for s st0
  proof -
    define st0' where "st0' = st0\<lparr>admission := (admission st0)\<lparr>threshold :=
       (if n < 100 \<or> threshold (admission st0) \<le> length (candidates st0)
        then saturating_add_usize (threshold (admission st0)) 10000
        else max (threshold (admission st0) - 10000) 10001)\<rparr>\<rparr>"
    have "roots_wf st0'" "accepts st0'" "initialized (admission st0')"
      and live: "live_roots s st0' = live_roots s st0"
      using w by (auto simp: st0'_def roots_wf_def accepts_def live_roots_def
          saturating_add_usize_def usize_MAX_def)
    from restore_live [OF this(1-3), of ?adm s] dist live show ?thesis
      by (simp add: admission_complete_def Let_def st0'_def [symmetric]) (simp add: restore_incoming_def)
  qed
  have disjoint: "\<forall>i \<in> set (map identity (drop p (candidates st))).
      i \<notin> set (map identity (take p (candidates st)))"
    using wf append_take_drop_id [of p "map identity (candidates st)"]
    by (metis roots_wf_def distinct_append disjoint_iff drop_map take_map)
  have split: "live_roots strong st = live_roots strong st1
      @ filter (\<lambda>i. strong i \<noteq> 0) (map identity (drop p (candidates st)))"
    by (metis live_roots_filter c1(1) append_take_drop_id filter_append map_append)
  have "filter (\<lambda>i. strong i \<noteq> 0 \<and> i \<notin> set (live_roots strong st1)) (map identity (drop p (candidates st)))
      = filter (\<lambda>i. strong i \<noteq> 0) (map identity (drop p (candidates st)))"
    using disjoint by (intro filter_cong) (auto simp: live_roots_filter c1(1))
  then have "live_roots strong (snd (admission_complete strong n ?adm st1)) = live_roots strong st"
    using complete [OF wf1 c1(3,4), of strong] split by simp
  moreover have "map identity (candidates st1) @ map identity (adm_incoming ?adm) = map identity (candidates st)"
    by (simp add: c1(1) flip: map_append)
  ultimately show ?thesis
    using st1 c1 p complete [OF assms(4-6), of strong']
    by (intro exI [of _ ?adm] exI [of _ st1])
      (simp add: automatic_cycle_collection_pending_def split_beta)
qed

definition pending_state :: cycle_root_state where
  "pending_state =
     default_root_state\<lparr>active := True, candidates := [CandArray 4, CandObject 5],
       indices := index_from 0 [CandArray 4, CandObject 5],
       admission := default_admission\<lparr>pending_start := Some 1\<rparr>, automatic_pending := True\<rparr>"

theorem automatic_admission_restores_roots_witness:
  "\<exists>adm st1. take_automatic_cycle_admission (\<lambda>_. 1) pending_state = (Some adm, st1)
     \<and> live_roots (\<lambda>_. 1) (snd (admission_complete (\<lambda>_. 1) 7 adm st1)) = [4, 5]"
proof -
  have wf: "roots_wf pending_state" "accepts pending_state" "initialized (admission pending_state)"
    "pending_start (admission pending_state) = Some 1"
    and live: "live_roots (\<lambda>_. 1) pending_state = [4, 5]"
    by (auto simp: pending_state_def default_root_state_def default_admission_def roots_wf_def
        accepts_def live_roots_def strong_count_def)
  from automatic_admission_restores_roots
    [where n = 7 and strong = "\<lambda>_. 1" and strong' = "\<lambda>_. 1", OF wf(1,4,2) wf(1,2,3)]
  show ?thesis unfolding live by blast
qed

end
