(* ===== verification/Cycle_Values.thy ===== *)
theory Cycle_Values
  imports Cycle_Roots
begin

text \<open>
  What the cycle collector sees of PHP values (\<open>src/src/value/mod.rs\<close> and
  \<open>src/src/vm/generator.rs\<close>): which values are handles of allocations that can take part in a
  reference cycle, which handles an allocation holds, in the order the source visits them, and
  how a collected allocation gives its handles up.

  A value is a handle naming its allocation by identity, or a scalar with an opaque payload.
  The heap is an association list from identities to allocations, whose four forms are the
  payloads behind \<open>Rc<PhpArray>\<close>, \<open>Rc<RefCell<PhpObject>>\<close>, \<open>Rc<OwnedReference>\<close> and
  \<open>Rc<PhpClosure>\<close>, with the fields that own values, together with the stores of function
  statics, which a closure and its generators share behind an \<open>Rc\<close>. A flag records an active mutable borrow of
  a \<open>RefCell\<close>; visiting a borrowed cell fails. The number of \<open>Rc\<close> owners of an allocation is
  read from a function \<open>strong\<close>, as in \<open>Cycle_Roots\<close>.
\<close>

subsection \<open>Values\<close>

datatype pvalue =
    Scalar nat
  | ArrayV nat
  | ObjectV nat
  | ClosureV nat
  | OwnedRef nat
  | BorrowedRef pvalue

datatype cycle_node_kind = KArray | KObject | KReference | KClosure

fun cycle_node :: "pvalue \<Rightarrow> (nat \<times> cycle_node_kind) option" where
  "cycle_node (ArrayV i) = Some (i, KArray)"
| "cycle_node (ObjectV i) = Some (i, KObject)"
| "cycle_node (OwnedRef i) = Some (i, KReference)"
| "cycle_node (ClosureV i) = Some (i, KClosure)"
| "cycle_node _ = None"

definition clone_cycle_handle :: "pvalue \<Rightarrow> pvalue option" where
  "clone_cycle_handle v = (if cycle_node v = None then None else Some v)"

fun object_identity :: "pvalue \<Rightarrow> nat option" where
  "object_identity (ObjectV i) = Some i"
| "object_identity _ = None"

fun weak_object_identity :: "pvalue \<Rightarrow> nat option" where
  "weak_object_identity (ObjectV i) = Some i"
| "weak_object_identity (ClosureV i) = Some i"
| "weak_object_identity _ = None"

fun is_owned_reference :: "pvalue \<Rightarrow> bool" where
  "is_owned_reference (OwnedRef _) = True"
| "is_owned_reference _ = False"

text \<open>\<open>weak_cycle_handle\<close> makes a weak handle of a cycle-capable value, and upgrading gives the
  value back.\<close>

fun weak_cycle_handle :: "pvalue \<Rightarrow> cycle_candidate option" where
  "weak_cycle_handle (ArrayV i) = Some (CandArray i)"
| "weak_cycle_handle (ObjectV i) = Some (CandObject i)"
| "weak_cycle_handle (OwnedRef i) = Some (CandReference i)"
| "weak_cycle_handle (ClosureV i) = Some (CandClosure i)"
| "weak_cycle_handle _ = None"

fun candidate_value :: "cycle_candidate \<Rightarrow> pvalue" where
  "candidate_value (CandArray i) = ArrayV i"
| "candidate_value (CandObject i) = ObjectV i"
| "candidate_value (CandReference i) = OwnedRef i"
| "candidate_value (CandClosure i) = ClosureV i"

definition cycle_strong_count :: "(nat \<Rightarrow> nat) \<Rightarrow> pvalue \<Rightarrow> nat option" where
  "cycle_strong_count strong v = map_option (\<lambda>(i, _). strong i) (cycle_node v)"

subsection \<open>Allocations\<close>

text \<open>The values of a \<open>RefCell\<close> of function statics, with its borrow flag.\<close>

record static_vars =
  sv_borrowed :: bool
  sv_values :: "pvalue list"

datatype yield_from_delegate =
    DelegateGenerator
  | DelegateArray "pvalue list"
  | DelegateIterator pvalue

record generator =
  g_borrowed :: bool
  g_completed :: bool
  tmp_values :: "pvalue list"
  cv_values :: "pvalue list"
  g_value :: pvalue
  g_key :: pvalue
  last_yielded_value :: pvalue
  last_yielded_key :: pvalue
  trace_num_args :: pvalue
  extra_args :: "pvalue list"
  pending_finally_exceptions :: "pvalue list"
  fiber_resume_input :: "pvalue option"
  return_value :: pvalue
  closure_static_vars :: "nat option"
  closure_owner :: "pvalue option"
  delegate :: "yield_from_delegate option"
  iterator_continuation :: "pvalue list option"

record php_closure =
  bound_this :: "pvalue option"
  captures :: "pvalue list"
  c_static_vars :: "nat option"
  has_heap_captures :: bool

text \<open>\<open>native_object_state\<close> is the list of values the native state owns and its answer to
  \<open>retains_cycle_root\<close>.\<close>

record dynamic_property_aux =
  detached_property_table :: bool
  native_iterator_delegate :: "pvalue list option"
  native_object_state :: "(pvalue list \<times> bool) option"

record dynamic_property_map =
  dp_values :: "pvalue list"
  dp_auxiliary :: "dynamic_property_aux option"

record php_object =
  o_borrowed :: bool
  class_name :: string
  layout_keys :: nat
  iteration_slots :: "nat list"
  property_values :: "pvalue list"
  dynamic_properties :: "dynamic_property_map option"
  o_generator :: "generator option"

datatype allocation =
    ArrayAlloc "pvalue list"
  | ObjectAlloc php_object
  | ReferenceAlloc pvalue
  | ClosureAlloc php_closure

record heap =
  allocs :: "(nat \<times> allocation) list"
  statics :: "(nat \<times> static_vars) list"

text \<open>\<open>as_array\<close>, \<open>as_object_rc\<close>, \<open>as_closure\<close> and the cell of an owned reference.\<close>

definition array_at :: "heap \<Rightarrow> nat \<Rightarrow> pvalue list option" where
  "array_at h i = (case map_of (allocs h) i of Some (ArrayAlloc vs) \<Rightarrow> Some vs | _ \<Rightarrow> None)"

definition object_at :: "heap \<Rightarrow> nat \<Rightarrow> php_object option" where
  "object_at h i = (case map_of (allocs h) i of Some (ObjectAlloc obj) \<Rightarrow> Some obj | _ \<Rightarrow> None)"

definition closure_at :: "heap \<Rightarrow> nat \<Rightarrow> php_closure option" where
  "closure_at h i = (case map_of (allocs h) i of Some (ClosureAlloc c) \<Rightarrow> Some c | _ \<Rightarrow> None)"

definition cell_at :: "heap \<Rightarrow> nat \<Rightarrow> pvalue option" where
  "cell_at h i = (case map_of (allocs h) i of Some (ReferenceAlloc v) \<Rightarrow> Some v | _ \<Rightarrow> None)"

text \<open>\<open>Value::undef()\<close> and \<open>Value::null()\<close> are scalars. Every owned reference has its cell, so
  that the last case of the first equation is never taken.\<close>

definition undef_value :: pvalue where "undef_value = Scalar 0"
definition null_value :: pvalue where "null_value = Scalar 1"

fun dereferenced :: "heap \<Rightarrow> pvalue \<Rightarrow> pvalue" where
  "dereferenced h (OwnedRef i) = (case cell_at h i of Some v \<Rightarrow> v | None \<Rightarrow> undef_value)"
| "dereferenced h (BorrowedRef v) = v"
| "dereferenced h v = v"


subsection \<open>Visiting the handles an allocation holds\<close>

text \<open>A visit is the list of the values visited and whether the traversal came to its end.\<close>

definition statics_visit :: "heap \<Rightarrow> nat option \<Rightarrow> pvalue list \<times> bool" where
  "statics_visit h store =
     (case store of
        None \<Rightarrow> ([], True)
      | Some s \<Rightarrow>
          (case map_of (statics h) s of
             None \<Rightarrow> ([], True)
           | Some sv \<Rightarrow> (if sv_borrowed sv then ([], False) else (sv_values sv, True))))"

text \<open>Visiting in sequence stops at the first part that cannot be visited.\<close>

fun visit_then :: "pvalue list \<times> bool \<Rightarrow> pvalue list \<times> bool \<Rightarrow> pvalue list \<times> bool" where
  "visit_then (vs, True) (ws, ok) = (vs @ ws, ok)"
| "visit_then (vs, False) _ = (vs, False)"

definition is_cycle_value :: "pvalue \<Rightarrow> bool" where
  "is_cycle_value v \<longleftrightarrow> cycle_node v \<noteq> None"

text \<open>\<open>try_has_cycle_children\<close> of a closure.\<close>

definition closure_has_cycle_children :: "heap \<Rightarrow> nat \<Rightarrow> bool option" where
  "closure_has_cycle_children h i =
     (case closure_at h i of
        None \<Rightarrow> Some False
      | Some c \<Rightarrow>
          (if (case bound_this c of None \<Rightarrow> False | Some v \<Rightarrow> is_cycle_value v)
              \<or> list_ex is_cycle_value (captures c)
           then Some True
           else
             (case statics_visit h (c_static_vars c) of
                (_, False) \<Rightarrow> None
              | (vs, True) \<Rightarrow> Some (list_ex is_cycle_value vs))))"

text \<open>The owner a generator keeps is a closure; other values have no traversal here.\<close>

definition owner_has_cycle_children :: "heap \<Rightarrow> pvalue \<Rightarrow> bool option" where
  "owner_has_cycle_children h v =
     (case v of ClosureV i \<Rightarrow> closure_has_cycle_children h i | _ \<Rightarrow> Some False)"

definition generator_visit :: "heap \<Rightarrow> generator \<Rightarrow> pvalue list \<times> bool" where
  "generator_visit h g =
     visit_then
       (tmp_values g @ cv_values g
          @ [g_value g, g_key g, last_yielded_value g, last_yielded_key g, trace_num_args g]
          @ extra_args g @ pending_finally_exceptions g
          @ (case fiber_resume_input g of None \<Rightarrow> [] | Some v \<Rightarrow> [v]) @ [return_value g], True)
       (visit_then (statics_visit h (closure_static_vars g))
         ((case closure_owner g of
             None \<Rightarrow> []
           | Some v \<Rightarrow> (if owner_has_cycle_children h v = Some False then [] else [v]))
          @ (case delegate g of
               Some (DelegateArray vs) \<Rightarrow> vs
             | Some (DelegateIterator v) \<Rightarrow> [v]
             | _ \<Rightarrow> [])
          @ (case iterator_continuation g of None \<Rightarrow> [] | Some vs \<Rightarrow> vs), True))"

definition native_owned_values :: "dynamic_property_map \<Rightarrow> pvalue list" where
  "native_owned_values dynamic =
     (case dp_auxiliary dynamic of
        None \<Rightarrow> []
      | Some aux \<Rightarrow>
          (case native_iterator_delegate aux of None \<Rightarrow> [] | Some vs \<Rightarrow> vs)
          @ (case native_object_state aux of None \<Rightarrow> [] | Some (vs, _) \<Rightarrow> vs))"

definition declared_values :: "php_object \<Rightarrow> pvalue list" where
  "declared_values obj =
     List.map_filter (\<lambda>slot. if slot < layout_keys obj then vec_get (property_values obj) slot else None)
       (iteration_slots obj)"

definition property_visit :: "php_object \<Rightarrow> pvalue list" where
  "property_visit obj =
     declared_values obj
     @ (case dynamic_properties obj of None \<Rightarrow> [] | Some dynamic \<Rightarrow> dp_values dynamic)"

definition owned_values :: "php_object \<Rightarrow> pvalue list" where
  "owned_values obj =
     (case dynamic_properties obj of None \<Rightarrow> [] | Some dynamic \<Rightarrow> native_owned_values dynamic)
     @ property_visit obj"

definition object_visit :: "heap \<Rightarrow> php_object \<Rightarrow> pvalue list \<times> bool" where
  "object_visit h obj =
     (if o_borrowed obj then ([], False)
      else visit_then (owned_values obj, True)
        (case o_generator obj of
           None \<Rightarrow> ([], True)
         | Some g \<Rightarrow> (if g_borrowed g then ([], False) else generator_visit h g)))"

definition closure_visit :: "heap \<Rightarrow> php_closure \<Rightarrow> pvalue list \<times> bool" where
  "closure_visit h c =
     visit_then
       ((case bound_this c of None \<Rightarrow> [] | Some v \<Rightarrow> [v]) @ captures c, True)
       (statics_visit h (c_static_vars c))"

definition node_visit :: "heap \<Rightarrow> pvalue \<Rightarrow> pvalue list \<times> bool" where
  "node_visit h v =
     (case cycle_node v of
        Some (i, KArray) \<Rightarrow> (case array_at h i of None \<Rightarrow> [] | Some vs \<Rightarrow> vs, True)
      | Some (i, KObject) \<Rightarrow>
          (case object_at h i of None \<Rightarrow> ([], True) | Some obj \<Rightarrow> object_visit h obj)
      | Some (i, KReference) \<Rightarrow> ([dereferenced h v], True)
      | Some (i, KClosure) \<Rightarrow>
          (case closure_at h i of None \<Rightarrow> ([], True) | Some c \<Rightarrow> closure_visit h c)
      | None \<Rightarrow> ([], True))"

text \<open>\<open>push\<close> passes on a handle of every value that is one.\<close>

definition try_for_each_cycle_child_handle :: "heap \<Rightarrow> pvalue \<Rightarrow> pvalue list \<times> bool" where
  "try_for_each_cycle_child_handle h v =
     (let (vs, ok) = node_visit h v in (List.map_filter clone_cycle_handle vs, ok))"

definition has_detached_property_table :: "php_object \<Rightarrow> bool" where
  "has_detached_property_table obj \<longleftrightarrow>
     (case dynamic_properties obj of
        None \<Rightarrow> False
      | Some dynamic \<Rightarrow>
          (case dp_auxiliary dynamic of None \<Rightarrow> False | Some aux \<Rightarrow> detached_property_table aux))"

definition detached_visit :: "php_object \<Rightarrow> pvalue list" where
  "detached_visit obj =
     (case dynamic_properties obj of
        None \<Rightarrow> []
      | Some dynamic \<Rightarrow> native_owned_values dynamic @ dp_values dynamic)"

text \<open>The strict traversal of the collector: \<open>None\<close> is the failed assertion.\<close>

definition for_each_cycle_child_handle :: "heap \<Rightarrow> pvalue \<Rightarrow> pvalue list option" where
  "for_each_cycle_child_handle h v =
     (case (case v of ObjectV i \<Rightarrow> object_at h i | _ \<Rightarrow> None) of
        Some obj \<Rightarrow>
          (if o_borrowed obj then None
           else if has_detached_property_table obj
           then Some (List.map_filter clone_cycle_handle (detached_visit obj))
           else (let (vs, ok) = try_for_each_cycle_child_handle h v in if ok then Some vs else None))
      | None \<Rightarrow>
          (let (vs, ok) = try_for_each_cycle_child_handle h v in if ok then Some vs else None))"

definition native_state_retains_cycle_root :: "php_object \<Rightarrow> bool" where
  "native_state_retains_cycle_root obj \<longleftrightarrow>
     (case dynamic_properties obj of
        None \<Rightarrow> False
      | Some dynamic \<Rightarrow>
          (case dp_auxiliary dynamic of
             None \<Rightarrow> False
           | Some aux \<Rightarrow> (case native_object_state aux of None \<Rightarrow> False | Some (_, retains) \<Rightarrow> retains)))"

definition any_property_value :: "php_object \<Rightarrow> (pvalue \<Rightarrow> bool) \<Rightarrow> bool" where
  "any_property_value obj predicate \<longleftrightarrow>
     list_ex predicate (property_values obj)
     \<or> (case dynamic_properties obj of
          None \<Rightarrow> False
        | Some dynamic \<Rightarrow> list_ex predicate (dp_values dynamic @ native_owned_values dynamic))"

definition try_has_cycle_children :: "heap \<Rightarrow> pvalue \<Rightarrow> bool option" where
  "try_has_cycle_children h v =
     (case cycle_node v of
        Some (i, KArray) \<Rightarrow>
          Some (case array_at h i of None \<Rightarrow> False | Some vs \<Rightarrow> list_ex is_cycle_value vs)
      | Some (i, KObject) \<Rightarrow>
          (case object_at h i of
             None \<Rightarrow> Some False
           | Some obj \<Rightarrow>
               (if o_borrowed obj then None
                else if class_name obj = ''Fiber'' then Some True
                else if any_property_value obj is_cycle_value then Some True
                else (case o_generator obj of
                        None \<Rightarrow> Some False
                      | Some g \<Rightarrow>
                          (if g_borrowed g then None
                           else (case generator_visit h g of
                                   (_, False) \<Rightarrow> None
                                 | (vs, True) \<Rightarrow> Some (list_ex is_cycle_value vs))))))
      | Some (i, KReference) \<Rightarrow> Some (is_cycle_value (dereferenced h v))
      | Some (i, KClosure) \<Rightarrow> closure_has_cycle_children h i
      | None \<Rightarrow> Some False)"

subsection \<open>Giving the handles up\<close>

definition put_alloc :: "nat \<Rightarrow> allocation \<Rightarrow> heap \<Rightarrow> heap" where
  "put_alloc i a h = h\<lparr>allocs := AList.update i a (allocs h)\<rparr>"

definition clear_statics :: "nat option \<Rightarrow> heap \<Rightarrow> heap" where
  "clear_statics store h =
     (case store of
        None \<Rightarrow> h
      | Some s \<Rightarrow>
          (case map_of (statics h) s of
             None \<Rightarrow> h
           | Some sv \<Rightarrow> h\<lparr>statics := AList.update s (sv\<lparr>sv_values := []\<rparr>) (statics h)\<rparr>))"

definition clear_cycle_edges :: "pvalue \<Rightarrow> heap \<Rightarrow> heap" where
  "clear_cycle_edges v h =
     (case cycle_node v of
        Some (i, KArray) \<Rightarrow>
          (case array_at h i of None \<Rightarrow> h | Some _ \<Rightarrow> put_alloc i (ArrayAlloc []) h)
      | Some (i, KObject) \<Rightarrow>
          (case object_at h i of
             None \<Rightarrow> h
           | Some obj \<Rightarrow>
               put_alloc i
                 (ObjectAlloc (obj\<lparr>property_values := map (\<lambda>_. undef_value) (property_values obj),
                                  dynamic_properties := None, o_generator := None\<rparr>)) h)
      | Some (i, KReference) \<Rightarrow>
          (case cell_at h i of None \<Rightarrow> h | Some _ \<Rightarrow> put_alloc i (ReferenceAlloc null_value) h)
      | Some (i, KClosure) \<Rightarrow>
          (case closure_at h i of
             None \<Rightarrow> h
           | Some c \<Rightarrow>
               clear_statics (c_static_vars c)
                 (put_alloc i
                   (ClosureAlloc (c\<lparr>bound_this := None, captures := [], c_static_vars := None,
                                   has_heap_captures := False\<rparr>)) h))
      | None \<Rightarrow> h)"

end
