(* ===== verification/Cycle_Graph.thy ===== *)
theory Cycle_Graph
  imports Cycle_Values
begin

text \<open>
  The graph of a cycle collection (\<open>src/src/runtime/cycle.rs\<close>, \<open>struct CycleGraph\<close>): its nodes
  are the cycle-capable allocations found from the possible roots and from the sidecars of weak
  objects, its edges the handles they hold. This theory has the construction of the graph and
  the marking of what is live; \<open>Cycle_Components\<close> has the strongly connected components and
  the order of destructors, and \<open>Cycle_Safety\<close> what the marking means for the heap.

  A \<open>Vec\<close> is a list and an \<open>IdentitySet\<close> a list in some iteration order. A loop that would
  index a vector out of its range panics, which is the value \<open>None\<close>.
\<close>

subsection \<open>The graph\<close>

record cycle_graph_node =
  node_identity :: nat
  node_kind :: cycle_node_kind
  node_value :: pvalue

record ephemeron_edge =
  eph_map :: nat
  eph_key :: nat
  eph_value :: nat

record cycle_graph =
  nodes :: "cycle_graph_node list"
  root_count :: nat
  node_indices :: "nat \<rightharpoonup> nat"
  unadmitted_nodes :: "nat list"
  ordinary_edges :: "(nat \<times> nat) list"
  ephemerons :: "ephemeron_edge list"
  stale_weak_identities :: "nat list"

definition empty_graph :: cycle_graph where
  "empty_graph =
     \<lparr>nodes = [], root_count = 0, node_indices = Map.empty, unadmitted_nodes = [],
      ordinary_edges = [], ephemerons = [], stale_weak_identities = []\<rparr>"

definition add_node :: "pvalue \<Rightarrow> cycle_graph \<Rightarrow> cycle_graph" where
  "add_node v g =
     (case cycle_node v of
        None \<Rightarrow> g
      | Some (i, kind) \<Rightarrow>
          (if node_indices g i \<noteq> None then g
           else g\<lparr>node_indices := (node_indices g)(i \<mapsto> length (nodes g)),
                  nodes := nodes g @ [\<lparr>node_identity = i, node_kind = kind, node_value = v\<rparr>]\<rparr>))"

definition add_node_opt :: "pvalue option \<Rightarrow> cycle_graph \<Rightarrow> cycle_graph" where
  "add_node_opt v g = (case v of None \<Rightarrow> g | Some v \<Rightarrow> add_node v g)"

definition add_child :: "nat \<Rightarrow> pvalue \<Rightarrow> cycle_graph \<Rightarrow> cycle_graph" where
  "add_child source child g =
     (case cycle_node child of
        None \<Rightarrow> g
      | Some (target, _) \<Rightarrow>
          (let g = add_node child g
           in g\<lparr>ordinary_edges := ordinary_edges g @ [(source, target)]\<rparr>))"

text \<open>The handles of a fiber's native state, by the identity of its object
  (\<open>fiber_cycle_children\<close>).\<close>

type_synonym fiber_table = "(nat \<times> pvalue list) list"

definition fiber_cycle_children :: "fiber_table \<Rightarrow> nat \<Rightarrow> pvalue list" where
  "fiber_cycle_children fibers i = (case map_of fibers i of None \<Rightarrow> [] | Some vs \<Rightarrow> vs)"

definition node_children :: "heap \<Rightarrow> fiber_table \<Rightarrow> cycle_graph_node \<Rightarrow> pvalue list option" where
  "node_children h fibers n =
     map_option (\<lambda>cs. cs @ (if node_kind n = KObject
                            then fiber_cycle_children fibers (node_identity n) else []))
       (for_each_cycle_child_handle h (node_value n))"

subsection \<open>The identities a heap names\<close>

definition handle_ids :: "pvalue list \<Rightarrow> nat set" where
  "handle_ids vs = {i. \<exists>v \<in> set vs. \<exists>k. cycle_node v = Some (i, k)}"

text \<open>The values stored in an allocation, each field once: a listing of the fields, which is not the
  traversal of the collector. The values of a store of statics belong to the store.\<close>

definition option_values :: "pvalue option \<Rightarrow> pvalue list" where
  "option_values v = (case v of None \<Rightarrow> [] | Some v \<Rightarrow> [v])"

definition generator_values :: "generator \<Rightarrow> pvalue list" where
  "generator_values g =
     tmp_values g @ cv_values g
     @ [g_value g, g_key g, last_yielded_value g, last_yielded_key g, trace_num_args g]
     @ extra_args g @ pending_finally_exceptions g @ option_values (fiber_resume_input g)
     @ [return_value g] @ option_values (closure_owner g)
     @ (case delegate g of
          Some (DelegateArray vs) \<Rightarrow> vs
        | Some (DelegateIterator v) \<Rightarrow> [v]
        | _ \<Rightarrow> [])
     @ (case iterator_continuation g of None \<Rightarrow> [] | Some vs \<Rightarrow> vs)"

fun alloc_values :: "allocation \<Rightarrow> pvalue list" where
  "alloc_values (ArrayAlloc vs) = vs"
| "alloc_values (ReferenceAlloc v) = [v]"
| "alloc_values (ObjectAlloc obj) =
     property_values obj
     @ (case dynamic_properties obj of None \<Rightarrow> []
        | Some dynamic \<Rightarrow> dp_values dynamic @ native_owned_values dynamic)
     @ (case o_generator obj of None \<Rightarrow> []
        | Some g \<Rightarrow> generator_values g)"
| "alloc_values (ClosureAlloc c) = option_values (bound_this c) @ captures c"

definition heap_values :: "heap \<Rightarrow> pvalue list" where
  "heap_values h =
     concat (map (\<lambda>(i, a). alloc_values a) (allocs h))
     @ concat (map (\<lambda>(i, sv). sv_values sv) (statics h))"

definition handles_in :: "heap \<Rightarrow> fiber_table \<Rightarrow> nat set" where
  "handles_in h fibers = handle_ids (heap_values h @ concat (map snd fibers))"

lemma handle_ids_simps [simp]:
  "handle_ids [] = {}"
  "handle_ids (vs @ ws) = handle_ids vs \<union> handle_ids ws"
  by (auto simp: handle_ids_def)

lemma finite_handle_ids [simp]: "finite (handle_ids vs)"
proof -
  have "handle_ids vs \<subseteq> (\<lambda>v. fst (the (cycle_node v))) ` set vs"
    by (force simp: handle_ids_def image_iff)
  then show ?thesis by (rule finite_subset) simp
qed

lemma handle_ids_mono: "set vs \<subseteq> set ws \<Longrightarrow> handle_ids vs \<subseteq> handle_ids ws"
  by (auto simp: handle_ids_def)

lemma finite_handles_in [simp]: "finite (handles_in h fibers)"
  by (simp add: handles_in_def)

lemma map_filter_clone: "List.map_filter clone_cycle_handle vs = filter is_cycle_value vs"
  by (induction vs) (auto simp: clone_cycle_handle_def is_cycle_value_def List.map_filter_simps)

lemma alloc_values_in_heap: "map_of (allocs h) i = Some a \<Longrightarrow> set (alloc_values a) \<subseteq> set (heap_values h)"
  by (auto simp: heap_values_def dest!: map_of_SomeD)

lemma statics_values_in_heap: "set (fst (statics_visit h store)) \<subseteq> set (heap_values h)"
  by (auto simp: statics_visit_def heap_values_def split: option.splits if_splits dest!: map_of_SomeD)

lemma visit_then_fst: "set (fst (visit_then a b)) \<subseteq> set (fst a) \<union> set (fst b)"
  by (cases "(a, b)" rule: visit_then.cases) auto

lemma generator_values_in_heap:
  assumes "map_of (allocs h) i = Some (ObjectAlloc obj)" and "o_generator obj = Some g"
  shows "set (fst (generator_visit h g)) \<subseteq> set (heap_values h)"
proof -
  have "set (fst (generator_visit h g)) \<subseteq> set (generator_values g) \<union> set (fst (statics_visit h (closure_static_vars g)))"
    by (cases "statics_visit h (closure_static_vars g)"; cases "snd (statics_visit h (closure_static_vars g))")
      (auto simp: generator_visit_def generator_values_def option_values_def split: option.splits if_splits)
  also have "\<dots> \<subseteq> set (heap_values h)"
    using alloc_values_in_heap [OF assms(1)] statics_values_in_heap [of h] assms(2) by auto
  finally show ?thesis .
qed

lemma object_visit_in_heap:
  assumes "map_of (allocs h) i = Some (ObjectAlloc obj)"
  shows "set (fst (object_visit h obj)) \<subseteq> set (heap_values h)"
proof -
  have "set (declared_values obj) \<subseteq> set (property_values obj)"
    by (auto simp: declared_values_def List.map_filter_def vec_get_def split: if_splits)
  then have "set (owned_values obj) \<subseteq> set (alloc_values (ObjectAlloc obj))"
    by (auto simp: owned_values_def property_visit_def split: option.splits)
  then have owned: "set (owned_values obj) \<subseteq> set (heap_values h)"
    using alloc_values_in_heap [OF assms] by blast
  show ?thesis
  proof (cases "o_generator obj")
    case (Some g)
    from owned generator_values_in_heap [OF assms Some]
      visit_then_fst [of "(owned_values obj, True)" "generator_visit h g"]
    have "set (fst (visit_then (owned_values obj, True) (generator_visit h g))) \<subseteq> set (heap_values h)"
      by auto
    with owned Some show ?thesis by (simp add: object_visit_def)
  qed (use owned in \<open>simp add: object_visit_def\<close>)
qed

lemma node_visit_in_heap: "set (fst (node_visit h v)) \<inter> {v. is_cycle_value v} \<subseteq> set (heap_values h)"
proof (cases v)
  case (OwnedRef i)
  then show ?thesis
    using alloc_values_in_heap [of h i]
    by (auto simp: node_visit_def cell_at_def is_cycle_value_def undef_value_def
        split: option.splits allocation.splits)
next
  case (ObjectV i)
  then show ?thesis using object_visit_in_heap [of h i]
    by (auto simp: node_visit_def object_at_def split: option.splits allocation.splits)
next
  case (ClosureV i)
  have "set (fst (closure_visit h c)) \<subseteq> set (heap_values h)"
    if "map_of (allocs h) i = Some (ClosureAlloc c)" for c
  proof -
    have "set (fst (closure_visit h c)) \<subseteq>
        set (alloc_values (ClosureAlloc c)) \<union> set (fst (statics_visit h (c_static_vars c)))"
      using visit_then_fst
        [of "((case bound_this c of None \<Rightarrow> [] | Some v \<Rightarrow> [v]) @ captures c, True)" "statics_visit h (c_static_vars c)"]
      by (simp add: closure_visit_def option_values_def)
    with alloc_values_in_heap [OF that] statics_values_in_heap [of h "c_static_vars c"]
    show ?thesis by blast
  qed
  then show ?thesis using ClosureV
    by (auto simp: node_visit_def closure_at_def split: option.splits allocation.splits)
next
  case (ArrayV i)
  then show ?thesis using alloc_values_in_heap [of h i]
    by (auto simp: node_visit_def array_at_def split: option.splits allocation.splits)
qed (auto simp: node_visit_def)

lemma cycle_children_in_heap:
  assumes "for_each_cycle_child_handle h v = Some cs"
  shows "handle_ids cs \<subseteq> handle_ids (heap_values h)" and "\<forall>c \<in> set cs. is_cycle_value c"
    and "set cs \<subseteq> set (heap_values h)"
proof -
  have "set cs \<subseteq> set (heap_values h) \<and> (\<forall>c \<in> set cs. is_cycle_value c)"
  proof (cases "\<exists>i obj. v = ObjectV i \<and> object_at h i = Some obj \<and> has_detached_property_table obj")
    case True
    then obtain i obj where v: "v = ObjectV i" "object_at h i = Some obj"
      and det: "has_detached_property_table obj" by blast
    then have "map_of (allocs h) i = Some (ObjectAlloc obj)"
      by (auto simp: object_at_def split: option.splits allocation.splits)
    from alloc_values_in_heap [OF this] have "set (detached_visit obj) \<subseteq> set (heap_values h)"
      by (auto simp: detached_visit_def split: option.splits)
    with assms v det show ?thesis
      by (auto simp: for_each_cycle_child_handle_def map_filter_clone split: if_splits)
  next
    case False
    with assms have "cs = filter is_cycle_value (fst (node_visit h v))"
      by (auto simp: for_each_cycle_child_handle_def try_for_each_cycle_child_handle_def
          map_filter_clone Let_def split_beta split: option.splits if_splits pvalue.splits)
    then show ?thesis using node_visit_in_heap [of h v] by auto
  qed
  then show "handle_ids cs \<subseteq> handle_ids (heap_values h)" and "\<forall>c \<in> set cs. is_cycle_value c"
    and "set cs \<subseteq> set (heap_values h)"
    using handle_ids_mono by blast+
qed

lemma node_children_ids:
  assumes "node_children h fibers n = Some cs"
  shows "handle_ids cs \<subseteq> handles_in h fibers"
proof -
  have "set (fiber_cycle_children fibers i) \<subseteq> set (concat (map snd fibers))" for i
  proof (cases "map_of fibers i")
    case (Some vs)
    from map_of_SomeD [OF this] Some show ?thesis by (force simp: fiber_cycle_children_def)
  qed (simp add: fiber_cycle_children_def)
  then have fib: "handle_ids (fiber_cycle_children fibers i) \<subseteq> handle_ids (concat (map snd fibers))" for i
    by (rule handle_ids_mono)
  from assms obtain c where c: "for_each_cycle_child_handle h (node_value n) = Some c"
    "cs = c @ (if node_kind n = KObject then fiber_cycle_children fibers (node_identity n) else [])"
    by (auto simp: node_children_def)
  with cycle_children_in_heap(1) [OF c(1)] fib show ?thesis
    by (auto simp: handles_in_def)
qed

subsection \<open>Expanding the graph\<close>

lemma add_node_dom:
  "dom (node_indices (add_node v g)) = dom (node_indices g) \<union> handle_ids [v]"
  by (auto simp: add_node_def handle_ids_def split: option.splits)

lemma add_child_grows:
  assumes "finite U" and "handle_ids [v] \<subseteq> U"
  shows "nodes (add_child source v g) = nodes g
           \<and> dom (node_indices (add_child source v g)) = dom (node_indices g)
       \<or> card (U - dom (node_indices (add_child source v g))) < card (U - dom (node_indices g))"
proof (cases "cycle_node v")
  case None
  then show ?thesis by (simp add: add_child_def)
next
  case (Some p)
  obtain i k where p: "p = (i, k)" by force
  with Some assms(2) have i: "i \<in> U" by (auto simp: handle_ids_def)
  show ?thesis
  proof (cases "node_indices g i")
    case None
    have "U - insert i (dom (node_indices g)) \<subset> U - dom (node_indices g)" using i None by auto
    then have "card (U - insert i (dom (node_indices g))) < card (U - dom (node_indices g))"
      using assms(1) by (intro psubset_card_mono) auto
    with None Some p show ?thesis by (simp add: add_child_def add_node_def Let_def)
  qed (use Some p in \<open>simp add: add_child_def add_node_def Let_def\<close>)
qed

lemma add_children_grow:
  assumes "finite U" and "handle_ids cs \<subseteq> U"
  shows "nodes (fold (add_child source) cs g) = nodes g
           \<and> dom (node_indices (fold (add_child source) cs g)) = dom (node_indices g)
       \<or> card (U - dom (node_indices (fold (add_child source) cs g))) < card (U - dom (node_indices g))"
  using assms(2)
proof (induction cs arbitrary: g)
  case (Cons c cs)
  then have c: "handle_ids [c] \<subseteq> U" and cs: "handle_ids cs \<subseteq> U" by (auto simp: handle_ids_def)
  show ?case using Cons.IH [OF cs, of "add_child source c g"] add_child_grows [OF assms(1) c, of source g]
    by (simp only: fold_simps) (elim disjE conjE; simp)
qed simp

function expand_from :: "heap \<Rightarrow> fiber_table \<Rightarrow> nat \<Rightarrow> cycle_graph \<Rightarrow> cycle_graph option" where
  "expand_from h fibers at g =
     (if at < length (nodes g)
      then case node_children h fibers (nodes g ! at) of
             None \<Rightarrow> None
           | Some children \<Rightarrow>
               expand_from h fibers (at + 1)
                 (fold (add_child (node_identity (nodes g ! at))) children g)
      else Some g)"
  by pat_completeness auto
termination
proof (relation "measures [\<lambda>(h, fibers, at, g). card (handles_in h fibers - dom (node_indices g)),
                           \<lambda>(h, fibers, at, g). length (nodes g) - at]")
  fix h fibers at children and g :: cycle_graph
  assume pos: "at < length (nodes g)"
    and cs: "node_children h fibers (nodes g ! at) = Some children"
  from add_children_grow [OF finite_handles_in node_children_ids [OF cs],
      of "node_identity (nodes g ! at)" g] pos
  show "((h, fibers, at + 1, fold (add_child (node_identity (nodes g ! at))) children g),
      h, fibers, at, g) \<in> measures [\<lambda>(h, fibers, at, g). card (handles_in h fibers - dom (node_indices g)),
        \<lambda>(h, fibers, at, g). length (nodes g) - at]"
    by auto
qed simp

declare expand_from.simps [simp del]

definition expand_value_edges :: "heap \<Rightarrow> fiber_table \<Rightarrow> cycle_graph \<Rightarrow> cycle_graph option" where
  "expand_value_edges h fibers g = expand_from h fibers 0 g"

subsection \<open>Marking what is live\<close>

text \<open>\<open>incoming[target] = incoming[target].saturating_add(1)\<close> for the targets that are nodes.\<close>

definition bump :: "cycle_graph \<Rightarrow> nat \<Rightarrow> nat list \<Rightarrow> nat list" where
  "bump g target incoming =
     (case node_indices g target of
        None \<Rightarrow> incoming
      | Some t \<Rightarrow> incoming[t := saturating_add_usize (incoming ! t) 1])"

definition incoming_counts :: "cycle_graph \<Rightarrow> nat list" where
  "incoming_counts g =
     fold (\<lambda>e. bump g (eph_value e)) (ephemerons g)
       (fold (\<lambda>(_, target). bump g target) (ordinary_edges g) (replicate (length (nodes g)) 0))"

text \<open>Adjacency lists over positions; \<open>keep\<close> selects the edges of a subgraph.\<close>

definition push_edge :: "nat \<Rightarrow> nat \<Rightarrow> nat list list \<Rightarrow> nat list list" where
  "push_edge source target adjacency = adjacency[source := adjacency ! source @ [target]]"

definition live_adjacency :: "cycle_graph \<Rightarrow> nat list list" where
  "live_adjacency g =
     fold (\<lambda>(source, target) adjacency.
             case (node_indices g source, node_indices g target) of
               (Some s, Some t) \<Rightarrow> push_edge s t adjacency
             | _ \<Rightarrow> adjacency)
       (ordinary_edges g) (replicate (length (nodes g)) [])"

text \<open>A borrowed object counts as a native root.\<close>

definition native_root :: "heap \<Rightarrow> cycle_graph_node \<Rightarrow> bool" where
  "native_root h n \<longleftrightarrow>
     node_kind n = KObject
     \<and> (case object_at h (node_identity n) of
          None \<Rightarrow> False
        | Some obj \<Rightarrow> (if o_borrowed obj then True else native_state_retains_cycle_root obj))"

text \<open>The count of a node includes the one handle the graph itself holds: \<open>strong\<close> are the
  counts without the graph.\<close>

definition is_root :: "heap \<Rightarrow> (nat \<Rightarrow> nat) \<Rightarrow> cycle_graph \<Rightarrow> nat list \<Rightarrow> nat \<Rightarrow> bool" where
  "is_root h strong g incoming index \<longleftrightarrow>
     native_root h (nodes g ! index)
     \<or> node_identity (nodes g ! index) \<in> set (unadmitted_nodes g)
     \<or> (strong (node_identity (nodes g ! index)) + 1) - (1 + incoming ! index) \<noteq> 0"

fun mark_targets :: "nat list \<Rightarrow> bool list \<Rightarrow> nat list \<Rightarrow> (bool list \<times> nat list) option" where
  "mark_targets [] live queue = Some (live, queue)"
| "mark_targets (target # targets) live queue =
     (if length live \<le> target then None
      else if \<not> live ! target
      then mark_targets targets (live[target := True]) (queue @ [target])
      else mark_targets targets live queue)"

definition unmarked :: "bool list \<Rightarrow> nat" where
  "unmarked live = length (filter Not live)"

lemma unmarked_update:
  "t < length live \<Longrightarrow> \<not> live ! t \<Longrightarrow> Suc (unmarked (live[t := True])) = unmarked live"
proof (induction live arbitrary: t)
  case (Cons b live)
  then show ?case by (cases t) (auto simp: unmarked_def)
qed simp

lemma mark_targets_measure:
  "mark_targets targets live queue = Some (live', queue') \<Longrightarrow>
     unmarked live' + length queue' = unmarked live + length queue"
proof (induction targets live queue rule: mark_targets.induct)
  case (2 target targets live queue)
  then show ?case using unmarked_update [of target live] by (auto split: if_splits)
qed simp

function propagate :: "nat list list \<Rightarrow> bool list \<Rightarrow> nat list \<Rightarrow> bool list option" where
  "propagate adjacency live [] = Some live"
| "propagate adjacency live (source # queue) =
     (if length adjacency \<le> source then None
      else case mark_targets (adjacency ! source) live queue of
             None \<Rightarrow> None
           | Some (live', queue') \<Rightarrow> propagate adjacency live' queue')"
  by pat_completeness auto
termination
  by (relation "measure (\<lambda>(adjacency, live, queue). unmarked live + length queue)")
    (auto dest: mark_targets_measure)

text \<open>One pass over the ephemerons, and the loop of passes.\<close>

fun ephemeron_pass ::
  "cycle_graph \<Rightarrow> ephemeron_edge list \<Rightarrow> bool list \<Rightarrow> nat list \<Rightarrow> bool \<Rightarrow>
     (bool list \<times> nat list \<times> bool) option"
where
  "ephemeron_pass g [] live queue changed = Some (live, queue, changed)"
| "ephemeron_pass g (e # es) live queue changed =
     (case (node_indices g (eph_map e), node_indices g (eph_key e), node_indices g (eph_value e)) of
        (Some m, Some k, Some v) \<Rightarrow>
          (case vec_get live m of
             None \<Rightarrow> None
           | Some False \<Rightarrow> ephemeron_pass g es live queue changed
           | Some True \<Rightarrow>
               (case vec_get live k of
                  None \<Rightarrow> None
                | Some False \<Rightarrow> ephemeron_pass g es live queue changed
                | Some True \<Rightarrow>
                    (case vec_get live v of
                       None \<Rightarrow> None
                     | Some True \<Rightarrow> ephemeron_pass g es live queue changed
                     | Some False \<Rightarrow> ephemeron_pass g es (live[v := True]) (queue @ [v]) True)))
      | _ \<Rightarrow> ephemeron_pass g es live queue changed)"

lemma length_mark_targets:
  "mark_targets targets live queue = Some (live', queue') \<Longrightarrow> length live' = length live"
  by (induction targets live queue rule: mark_targets.induct) (auto split: if_splits)

lemma length_propagate: "propagate adjacency live queue = Some live' \<Longrightarrow> length live' = length live"
  by (induction adjacency live queue rule: propagate.induct)
    (auto split: if_splits option.splits dest: length_mark_targets)

lemma unmarked_mono: "length a = length b \<Longrightarrow> (\<And>i. i < length a \<Longrightarrow> a ! i \<Longrightarrow> b ! i) \<Longrightarrow> unmarked b \<le> unmarked a"
proof (induction a b rule: list_induct2)
  case (Cons x xs y ys)
  have "unmarked ys \<le> unmarked xs"
    using Cons.prems [of "Suc _"] by (intro Cons.IH) simp
  moreover have "x \<longrightarrow> y" using Cons.prems [of 0] by simp
  ultimately show ?case by (auto simp: unmarked_def)
qed simp

lemma mark_targets_keeps:
  "mark_targets targets live queue = Some (live', queue') \<Longrightarrow> live ! i \<Longrightarrow> live' ! i"
  by (induction targets live queue rule: mark_targets.induct)
    (auto split: if_splits simp: nth_list_update)

lemma propagate_keeps: "propagate adjacency live queue = Some live' \<Longrightarrow> live ! i \<Longrightarrow> live' ! i"
  by (induction adjacency live queue rule: propagate.induct)
    (auto split: if_splits option.splits dest: mark_targets_keeps)

lemma propagate_unmarked: "propagate adjacency live queue = Some live' \<Longrightarrow> unmarked live' \<le> unmarked live"
  using length_propagate propagate_keeps by (intro unmarked_mono) (metis, metis)

lemma ephemeron_pass_unmarked:
  "ephemeron_pass g es live queue changed = Some (live', queue', changed') \<Longrightarrow>
     unmarked live' \<le> unmarked live \<and> (changed' \<longrightarrow> changed \<or> unmarked live' < unmarked live)"
proof (induction es arbitrary: live queue changed)
  case (Cons e es)
  have "unmarked (live[v := True]) < unmarked live" if "vec_get live v = Some False" for v
    using that unmarked_update [of v live] by simp
  with Cons show ?case
    by (fastforce split: option.splits bool.splits)
qed simp

function ephemeron_loop :: "cycle_graph \<Rightarrow> nat list list \<Rightarrow> bool list \<Rightarrow> bool list option" where
  "ephemeron_loop g adjacency live =
     (case ephemeron_pass g (ephemerons g) live [] False of
        None \<Rightarrow> None
      | Some (live', queue, changed) \<Rightarrow>
          (case propagate adjacency live' queue of
             None \<Rightarrow> None
           | Some live'' \<Rightarrow>
               (if changed then ephemeron_loop g adjacency live'' else Some live'')))"
  by pat_completeness auto
termination
  by (relation "measure (\<lambda>(g, adjacency, live). unmarked live)")
    (auto dest!: ephemeron_pass_unmarked propagate_unmarked)

declare ephemeron_loop.simps [simp del]

definition live_flags :: "heap \<Rightarrow> (nat \<Rightarrow> nat) \<Rightarrow> cycle_graph \<Rightarrow> bool list option" where
  "live_flags h strong g =
     (let incoming = incoming_counts g;
          adjacency = live_adjacency g;
          roots = filter (is_root h strong g incoming) [0..<length (nodes g)];
          live = map (is_root h strong g incoming) [0..<length (nodes g)]
      in Option.bind (propagate adjacency live roots) (ephemeron_loop g adjacency))"

definition live_identities :: "heap \<Rightarrow> (nat \<Rightarrow> nat) \<Rightarrow> cycle_graph \<Rightarrow> nat list option" where
  "live_identities h strong g =
     map_option (\<lambda>live. map (node_identity \<circ> fst) (filter snd (zip (nodes g) live)))
       (live_flags h strong g)"

subsection \<open>What a set of nodes retains\<close>

definition retained_children :: "cycle_graph \<Rightarrow> nat \<Rightarrow> nat list" where
  "retained_children g source =
     map snd (filter (\<lambda>e. fst e = source) (ordinary_edges g))
     @ map eph_value (filter (\<lambda>e. eph_map e = source) (ephemerons g))"

text \<open>The retained set is a list without repetitions; the stack has its top first.\<close>

fun retain_targets :: "nat list \<Rightarrow> nat list \<Rightarrow> nat list \<Rightarrow> nat list \<times> nat list" where
  "retain_targets [] retained pending = (retained, pending)"
| "retain_targets (target # targets) retained pending =
     (if target \<in> set retained then retain_targets targets retained pending
      else retain_targets targets (target # retained) (target # pending))"

definition edge_targets :: "cycle_graph \<Rightarrow> nat set" where
  "edge_targets g = snd ` set (ordinary_edges g) \<union> eph_value ` set (ephemerons g)"

lemma finite_edge_targets [simp]: "finite (edge_targets g)"
  by (simp add: edge_targets_def)

lemma retained_children_targets: "set (retained_children g source) \<subseteq> edge_targets g"
  by (auto simp: retained_children_def edge_targets_def)

lemma retain_targets_measure:
  assumes "retain_targets targets retained pending = (retained', pending')"
    and "set targets \<subseteq> U" and "finite U"
  shows "card (U - set retained') + length pending' = card (U - set retained) + length pending"
  using assms(1,2)
proof (induction targets arbitrary: retained pending)
  case (Cons t ts)
  show ?case
  proof (cases "t \<in> set retained")
    case False
    with Cons.prems have "Suc (card (U - insert t (set retained))) = card (U - set retained)"
      using assms(3) card_Suc_Diff1 [of "U - set retained" t]
      by (simp add: Diff_insert [symmetric])
    with False Cons show ?thesis by auto
  qed (use Cons in auto)
qed simp

lemma retain_step_measure:
  "card (edge_targets g - set (fst (retain_targets (retained_children g source) retained pending)))
     + length (snd (retain_targets (retained_children g source) retained pending))
   = card (edge_targets g - set retained) + length pending"
  by (rule retain_targets_measure [OF _ retained_children_targets]) simp_all

function retain_loop :: "cycle_graph \<Rightarrow> nat list \<Rightarrow> nat list \<Rightarrow> nat list" where
  "retain_loop g retained [] = retained"
| "retain_loop g retained (source # pending) =
     (case retain_targets (retained_children g source) retained pending of
        (retained', pending') \<Rightarrow> retain_loop g retained' pending')"
  by pat_completeness auto
termination
  by (relation "measure (\<lambda>(g, retained, pending). card (edge_targets g - set retained) + length pending)")
    (auto simp: split_beta retain_step_measure)

definition retained_by :: "cycle_graph \<Rightarrow> nat list \<Rightarrow> nat list" where
  "retained_by g roots = retain_loop g roots (rev roots)"

end
