(* ===== verification/Cycle_Marking.thy ===== *)
theory Cycle_Marking
  imports Cycle_Graph
begin

text \<open>
  The marking of \<open>Cycle_Graph\<close> computes a least fixed point: on a well-formed graph
  \<open>live_identities\<close> never panics, its loops end, and it returns exactly the identities that
  the inductive predicate \<open>graph_live\<close> generates from the roots by ordinary edges and
  ephemerons. \<open>retained_by\<close> is reachability by edges in the same way.
\<close>

subsection \<open>Well-formed graphs\<close>

definition graph_wf :: "cycle_graph \<Rightarrow> bool" where
  "graph_wf g \<longleftrightarrow>
     distinct (map node_identity (nodes g))
     \<and> (\<forall>i k. node_indices g i = Some k \<longleftrightarrow> k < length (nodes g) \<and> node_identity (nodes g ! k) = i)
     \<and> (\<forall>n \<in> set (nodes g). cycle_node (node_value n) = Some (node_identity n, node_kind n))"

abbreviation node_ids :: "cycle_graph \<Rightarrow> nat set" where
  "node_ids g \<equiv> node_identity ` set (nodes g)"

lemma graph_wf_index:
  "graph_wf g \<Longrightarrow> node_indices g i = Some k \<longleftrightarrow> k < length (nodes g) \<and> node_identity (nodes g ! k) = i"
  by (simp add: graph_wf_def)

lemma graph_wf_dom: "graph_wf g \<Longrightarrow> node_indices g i \<noteq> None \<longleftrightarrow> i \<in> node_ids g"
  by (auto simp: graph_wf_index image_iff in_set_conv_nth) (metis nth_mem)

lemma graph_wf_nth: "graph_wf g \<Longrightarrow> k < length (nodes g) \<Longrightarrow> node_indices g (node_identity (nodes g ! k)) = Some k"
  by (simp add: graph_wf_index)

lemma graph_wf_bound: "graph_wf g \<Longrightarrow> node_indices g i = Some k \<Longrightarrow> k < length (nodes g)"
  by (simp add: graph_wf_index)

lemma empty_graph_wf [simp]: "graph_wf empty_graph"
  by (simp add: graph_wf_def empty_graph_def)

lemma add_node_wf:
  assumes "graph_wf g"
  shows "graph_wf (add_node v g)"
proof (cases "cycle_node v")
  case (Some p)
  obtain i k where p: "p = (i, k)" by force
  show ?thesis
  proof (cases "node_indices g i")
    case None
    with graph_wf_dom [OF assms, of i] have "i \<notin> node_ids g" by simp
    with assms None Some p show ?thesis
      by (auto simp: graph_wf_def add_node_def nth_append less_Suc_eq)
  qed (use assms Some p in \<open>simp add: add_node_def\<close>)
qed (use assms in \<open>simp add: add_node_def\<close>)

lemma edges_wf [simp]: "graph_wf (g\<lparr>ordinary_edges := es\<rparr>) = graph_wf g"
  by (simp add: graph_wf_def)

lemma add_child_wf: "graph_wf g \<Longrightarrow> graph_wf (add_child source v g)"
  by (auto simp: add_child_def Let_def add_node_wf split: option.splits)

lemma add_children_wf: "graph_wf g \<Longrightarrow> graph_wf (fold (add_child source) cs g)"
  by (induction cs arbitrary: g) (simp_all add: add_child_wf)

lemma expand_from_wf: "expand_from h fibers at g = Some g' \<Longrightarrow> graph_wf g \<Longrightarrow> graph_wf g'"
proof (induction h fibers at g rule: expand_from.induct)
  case (1 h fibers at g)
  then show ?case
    by (subst (asm) expand_from.simps [of h fibers at g])
      (auto split: if_splits option.splits simp: add_children_wf)
qed

subsection \<open>Propagation\<close>

definition adjacency_ok :: "nat \<Rightarrow> nat list list \<Rightarrow> bool" where
  "adjacency_ok n adjacency \<longleftrightarrow> length adjacency = n \<and> (\<forall>ts \<in> set adjacency. \<forall>t \<in> set ts. t < n)"

lemma adjacency_okD: "adjacency_ok n adjacency \<Longrightarrow> s < n \<Longrightarrow> t \<in> set (adjacency ! s) \<Longrightarrow> t < n"
  by (auto simp: adjacency_ok_def)

lemma mark_targets_spec:
  assumes "\<forall>t \<in> set ts. t < length live"
  shows "\<exists>live' added. mark_targets ts live queue = Some (live', queue @ added)
    \<and> length live' = length live
    \<and> (\<forall>i < length live. live' ! i \<longleftrightarrow> live ! i \<or> i \<in> set ts)
    \<and> set added = {t \<in> set ts. \<not> live ! t}"
  using assms
proof (induction ts arbitrary: live queue)
  case (Cons t ts)
  show ?case
  proof (cases "live ! t")
    case True
    with Cons.IH [of live queue] Cons.prems show ?thesis by auto
  next
    case False
    obtain live' added where IH: "mark_targets ts (live[t := True]) (queue @ [t]) = Some (live', (queue @ [t]) @ added)"
      "length live' = length live"
      "\<forall>i < length live. live' ! i \<longleftrightarrow> (live[t := True]) ! i \<or> i \<in> set ts"
      "set added = {u \<in> set ts. \<not> (live[t := True]) ! u}"
      using Cons.IH [of "live[t := True]" "queue @ [t]"] Cons.prems by auto
    show ?thesis
      using False Cons.prems IH
      by (intro exI [of _ live'] exI [of _ "t # added"]) (auto simp: nth_list_update)
  qed
qed simp

text \<open>Propagation ends, closes the marks under the edges and marks nothing beyond any set that is
  closed already.\<close>

lemma propagate_spec:
  assumes "adjacency_ok (length live) adjacency" and "\<forall>s \<in> set queue. s < length live \<and> live ! s"
    and "\<forall>s < length live. live ! s \<longrightarrow> s \<notin> set queue \<longrightarrow> (\<forall>t \<in> set (adjacency ! s). live ! t)"
  shows "\<exists>live'. propagate adjacency live queue = Some live'
    \<and> (\<forall>s < length live. live' ! s \<longrightarrow> (\<forall>t \<in> set (adjacency ! s). live' ! t))
    \<and> (\<forall>P. (\<forall>i < length live. live ! i \<longrightarrow> P i)
            \<longrightarrow> (\<forall>s < length live. \<forall>t \<in> set (adjacency ! s). P s \<longrightarrow> P t)
            \<longrightarrow> (\<forall>i < length live. live' ! i \<longrightarrow> P i))"
  using assms
proof (induction adjacency live queue rule: propagate.induct)
  case (1 adjacency live)
  then show ?case by auto
next
  case (2 adjacency live source queue)
  have src: "source < length live" "live ! source" using 2(3) by auto
  have targets: "\<forall>t \<in> set (adjacency ! source). t < length live"
    using adjacency_okD [OF 2(2) src(1)] by blast
  obtain l added where m: "mark_targets (adjacency ! source) live queue = Some (l, queue @ added)"
    and len: "length l = length live"
    and l: "\<forall>i < length live. l ! i \<longleftrightarrow> live ! i \<or> i \<in> set (adjacency ! source)"
    and added: "set added = {t \<in> set (adjacency ! source). \<not> live ! t}"
    using mark_targets_spec [OF targets, of queue] by blast
  have bound: "\<not> length adjacency \<le> source" using 2(2) src by (simp add: adjacency_ok_def)
  have ok: "adjacency_ok (length l) adjacency" using 2(2) len by simp
  have q: "\<forall>s \<in> set (queue @ added). s < length l \<and> l ! s"
    using 2(3) added targets l len by auto
  have closed: "\<forall>s < length l. l ! s \<longrightarrow> s \<notin> set (queue @ added) \<longrightarrow> (\<forall>t \<in> set (adjacency ! s). l ! t)"
  proof (intro allI impI ballI)
    fix s t assume s: "s < length l" "l ! s" "s \<notin> set (queue @ added)" and t: "t \<in> set (adjacency ! s)"
    have "t < length live" using adjacency_okD [OF ok s(1) t] len by simp
    moreover have "live ! s" using s l added len by auto
    ultimately show "l ! t"
    proof (cases "s = source")
      case True
      with t l \<open>t < length live\<close> show ?thesis by simp
    next
      case False
      with s have "s \<notin> set (source # queue)" by simp
      with 2(4) s t len \<open>live ! s\<close> have "live ! t" by metis
      with l \<open>t < length live\<close> show ?thesis by simp
    qed
  qed
  obtain live' where live': "propagate adjacency l (queue @ added) = Some live'"
    "\<forall>s < length l. live' ! s \<longrightarrow> (\<forall>t \<in> set (adjacency ! s). live' ! t)"
    "\<forall>P. (\<forall>i < length l. l ! i \<longrightarrow> P i)
        \<longrightarrow> (\<forall>s < length l. \<forall>t \<in> set (adjacency ! s). P s \<longrightarrow> P t) \<longrightarrow> (\<forall>i < length l. live' ! i \<longrightarrow> P i)"
    using 2(1) [OF bound m refl ok q closed] by blast
  have "\<forall>i < length live. live' ! i \<longrightarrow> P i"
    if P: "\<forall>i < length live. live ! i \<longrightarrow> P i" "\<forall>s < length live. \<forall>t \<in> set (adjacency ! s). P s \<longrightarrow> P t" for P
  proof -
    have "P source" using P(1) src by blast
    with P(2) src(1) have "\<forall>t \<in> set (adjacency ! source). P t" by blast
    with P(1) l len have "\<forall>i < length l. l ! i \<longrightarrow> P i" by metis
    with spec [OF live'(3), of P] P(2) len show ?thesis by simp
  qed
  moreover have "propagate adjacency live (source # queue) = Some live'"
    using live'(1) bound m by simp
  ultimately show ?case using live'(2) [unfolded len] by blast
qed


subsection \<open>The edges as adjacency lists\<close>

lemma push_edge_length [simp]: "length (push_edge s t adjacency) = length adjacency"
  by (simp add: push_edge_def)

lemma push_edge_nth:
  "s < length adjacency \<Longrightarrow>
   set (push_edge s t adjacency ! k) = (if k = s then insert t (set (adjacency ! k)) else set (adjacency ! k))"
  by (auto simp: push_edge_def)

lemma edge_fold:
  assumes wf: "graph_wf g" and "length adjacency = length (nodes g)"
  defines "step \<equiv> \<lambda>(source, target) adjacency.
             case (node_indices g source, node_indices g target) of
               (Some s, Some t) \<Rightarrow> push_edge s t adjacency
             | _ \<Rightarrow> adjacency"
  shows "length (fold step es adjacency) = length (nodes g)
    \<and> (\<forall>s < length (nodes g). set (fold step es adjacency ! s) =
         set (adjacency ! s) \<union> {t. \<exists>(a, b) \<in> set es. node_indices g a = Some s \<and> node_indices g b = Some t})"
  using assms(2)
proof (induction es arbitrary: adjacency)
  case (Cons e es)
  obtain a b where e: "e = (a, b)" by force
  have len: "length (step e adjacency) = length (nodes g)"
    using Cons.prems by (auto simp: step_def e split: option.splits)
  have step: "set (step e adjacency ! s) =
      set (adjacency ! s) \<union> {t. node_indices g a = Some s \<and> node_indices g b = Some t}"
    if "s < length (nodes g)" for s
    using that Cons.prems graph_wf_bound [OF wf]
    by (auto simp: step_def e push_edge_nth split: option.splits)
  show ?case using Cons.IH [OF len] step by (auto simp: e)
qed simp

lemma live_adjacency_spec:
  assumes "graph_wf g"
  shows "adjacency_ok (length (nodes g)) (live_adjacency g)"
    and "s < length (nodes g) \<Longrightarrow> set (live_adjacency g ! s) =
      {t. \<exists>(a, b) \<in> set (ordinary_edges g). node_indices g a = Some s \<and> node_indices g b = Some t}"
proof -
  have len: "length (live_adjacency g) = length (nodes g)"
    and nth: "set (live_adjacency g ! s) =
      {t. \<exists>(a, b) \<in> set (ordinary_edges g). node_indices g a = Some s \<and> node_indices g b = Some t}"
    if "s < length (nodes g)" for s
    using edge_fold [OF assms, of "replicate (length (nodes g)) []" "ordinary_edges g"] that
    by (auto simp: live_adjacency_def)
  show "s < length (nodes g) \<Longrightarrow> set (live_adjacency g ! s) =
      {t. \<exists>(a, b) \<in> set (ordinary_edges g). node_indices g a = Some s \<and> node_indices g b = Some t}"
    by (rule nth)
  have len: "length (live_adjacency g) = length (nodes g)"
    using edge_fold [OF assms, of "replicate (length (nodes g)) []" "ordinary_edges g"]
    by (simp add: live_adjacency_def)
  have "t < length (nodes g)" if "s < length (nodes g)" "t \<in> set (live_adjacency g ! s)" for s t
    using that graph_wf_bound [OF assms] by (auto simp: nth)
  with len show "adjacency_ok (length (nodes g)) (live_adjacency g)"
    by (auto simp: adjacency_ok_def in_set_conv_nth) (metis nth_mem)
qed

subsection \<open>The ephemerons\<close>

definition eph_at :: "cycle_graph \<Rightarrow> ephemeron_edge \<Rightarrow> nat \<Rightarrow> nat \<Rightarrow> nat \<Rightarrow> bool" where
  "eph_at g e m k v \<longleftrightarrow>
     node_indices g (eph_map e) = Some m \<and> node_indices g (eph_key e) = Some k
     \<and> node_indices g (eph_value e) = Some v"

lemma ephemeron_pass_spec:
  assumes "graph_wf g" and "length live = length (nodes g)"
  shows "\<exists>live' added changed'. ephemeron_pass g es live queue changed = Some (live', queue @ added, changed')
    \<and> length live' = length (nodes g)
    \<and> (changed' \<longleftrightarrow> changed \<or> added \<noteq> [])
    \<and> (\<forall>i < length (nodes g). live' ! i \<longleftrightarrow> live ! i \<or> i \<in> set added)
    \<and> (\<forall>i \<in> set added. i < length (nodes g))
    \<and> (\<forall>P. (\<forall>i < length (nodes g). live ! i \<longrightarrow> P i)
           \<longrightarrow> (\<forall>e \<in> set es. \<forall>m k v. eph_at g e m k v \<longrightarrow> P m \<longrightarrow> P k \<longrightarrow> P v)
           \<longrightarrow> (\<forall>i < length (nodes g). live' ! i \<longrightarrow> P i))
    \<and> (added = [] \<longrightarrow> live' = live \<and> (\<forall>e \<in> set es. \<forall>m k v. eph_at g e m k v \<longrightarrow> live ! m \<longrightarrow> live ! k \<longrightarrow> live ! v))"
  using assms(2)
proof (induction es arbitrary: live queue changed)
  case (Cons e es)
  show ?case
  proof (cases "\<exists>m k v. eph_at g e m k v \<and> live ! m \<and> live ! k \<and> \<not> live ! v")
    case True
    then obtain m k v where mkv: "eph_at g e m k v" "live ! m" "live ! k" "\<not> live ! v" by blast
    have b: "m < length (nodes g)" "k < length (nodes g)" "v < length (nodes g)"
      using mkv(1) graph_wf_bound [OF assms(1)] by (auto simp: eph_at_def)
    have step: "ephemeron_pass g (e # es) live queue changed =
        ephemeron_pass g es (live[v := True]) (queue @ [v]) True"
      using mkv b Cons.prems by (simp add: eph_at_def vec_get_def)
    have len': "length (live[v := True]) = length (nodes g)" using Cons.prems by simp
    obtain live' added c where IH:
      "ephemeron_pass g es (live[v := True]) (queue @ [v]) True = Some (live', (queue @ [v]) @ added, c)"
      "length live' = length (nodes g)" "c"
      "\<forall>i < length (nodes g). live' ! i \<longleftrightarrow> live[v := True] ! i \<or> i \<in> set added"
      "\<forall>i \<in> set added. i < length (nodes g)"
      "\<forall>P. (\<forall>i < length (nodes g). live[v := True] ! i \<longrightarrow> P i)
           \<longrightarrow> (\<forall>e \<in> set es. \<forall>m k v. eph_at g e m k v \<longrightarrow> P m \<longrightarrow> P k \<longrightarrow> P v)
           \<longrightarrow> (\<forall>i < length (nodes g). live' ! i \<longrightarrow> P i)"
      using Cons.IH [OF len', of "queue @ [v]" True] by (elim exE conjE) (rule that; (assumption | simp))
    have "\<forall>i < length (nodes g). live' ! i \<longrightarrow> P i"
      if P: "\<forall>i < length (nodes g). live ! i \<longrightarrow> P i"
        "\<forall>e \<in> set (e # es). \<forall>m k v. eph_at g e m k v \<longrightarrow> P m \<longrightarrow> P k \<longrightarrow> P v" for P
    proof -
      have "P v" using P mkv b by auto
      with P(1) have "\<forall>i < length (nodes g). live[v := True] ! i \<longrightarrow> P i"
        by (metis nth_list_update_neq)
      with spec [OF IH(6), of P] P(2) show ?thesis by simp
    qed
    then have "\<forall>P. (\<forall>i < length (nodes g). live ! i \<longrightarrow> P i)
           \<longrightarrow> (\<forall>e \<in> set (e # es). \<forall>m k v. eph_at g e m k v \<longrightarrow> P m \<longrightarrow> P k \<longrightarrow> P v)
           \<longrightarrow> (\<forall>i < length (nodes g). live' ! i \<longrightarrow> P i)" by blast
    moreover have "ephemeron_pass g (e # es) live queue changed = Some (live', queue @ v # added, c)"
      unfolding step using IH(1) by simp
    moreover have "\<forall>i < length (nodes g). live' ! i \<longleftrightarrow> live ! i \<or> i \<in> set (v # added)"
      using IH(4) b Cons.prems by (auto simp: nth_list_update)
    moreover have "\<forall>i \<in> set (v # added). i < length (nodes g)" using IH(5) b by simp
    ultimately show ?thesis using IH(2,3)
      by (intro exI [of _ live'] exI [of _ "v # added"] exI [of _ c]) (simp del: ephemeron_pass.simps)
  next
    case False
    then have step: "ephemeron_pass g (e # es) live queue changed = ephemeron_pass g es live queue changed"
      using Cons.prems graph_wf_bound [OF assms(1)]
      by (auto simp: eph_at_def vec_get_def split: option.splits bool.splits)
    obtain live' added c where IH: "ephemeron_pass g es live queue changed = Some (live', queue @ added, c)"
      "length live' = length (nodes g)" "c \<longleftrightarrow> changed \<or> added \<noteq> []"
      "\<forall>i < length (nodes g). live' ! i \<longleftrightarrow> live ! i \<or> i \<in> set added"
      "\<forall>i \<in> set added. i < length (nodes g)"
      "\<forall>P. (\<forall>i < length (nodes g). live ! i \<longrightarrow> P i)
           \<longrightarrow> (\<forall>e \<in> set es. \<forall>m k v. eph_at g e m k v \<longrightarrow> P m \<longrightarrow> P k \<longrightarrow> P v)
           \<longrightarrow> (\<forall>i < length (nodes g). live' ! i \<longrightarrow> P i)"
      "added = [] \<longrightarrow> live' = live
         \<and> (\<forall>e \<in> set es. \<forall>m k v. eph_at g e m k v \<longrightarrow> live ! m \<longrightarrow> live ! k \<longrightarrow> live ! v)"
      using Cons.IH [OF Cons.prems, of queue changed] by (elim exE conjE) (rule that; assumption)
    have least: "\<forall>P. (\<forall>i < length (nodes g). live ! i \<longrightarrow> P i)
           \<longrightarrow> (\<forall>e \<in> set (e # es). \<forall>m k v. eph_at g e m k v \<longrightarrow> P m \<longrightarrow> P k \<longrightarrow> P v)
           \<longrightarrow> (\<forall>i < length (nodes g). live' ! i \<longrightarrow> P i)"
    proof (intro allI impI)
      fix P i assume "\<forall>i < length (nodes g). live ! i \<longrightarrow> P i"
        "\<forall>e \<in> set (e # es). \<forall>m k v. eph_at g e m k v \<longrightarrow> P m \<longrightarrow> P k \<longrightarrow> P v"
        and "i < length (nodes g)" "live' ! i"
      with spec [OF IH(6), of P] show "P i" by simp
    qed
    have e_stable: "\<forall>m k v. eph_at g e m k v \<longrightarrow> live ! m \<longrightarrow> live ! k \<longrightarrow> live ! v"
      using False by blast
    have stable: "added = [] \<longrightarrow> live' = live
         \<and> (\<forall>e \<in> set (e # es). \<forall>m k v. eph_at g e m k v \<longrightarrow> live ! m \<longrightarrow> live ! k \<longrightarrow> live ! v)"
      by (intro impI) (use IH(7) e_stable in simp)
    show ?thesis unfolding step by (intro exI conjI) (rule IH(1-5) least stable)+
  qed
qed simp


subsection \<open>The fixed point\<close>

text \<open>The identities that are live by the rules of the collector.\<close>

inductive graph_live :: "heap \<Rightarrow> (nat \<Rightarrow> nat) \<Rightarrow> cycle_graph \<Rightarrow> nat \<Rightarrow> bool"
  for h strong g where
  root: "k < length (nodes g) \<Longrightarrow> is_root h strong g (incoming_counts g) k \<Longrightarrow>
    graph_live h strong g (node_identity (nodes g ! k))"
| edge: "graph_live h strong g s \<Longrightarrow> (s, t) \<in> set (ordinary_edges g) \<Longrightarrow> t \<in> node_ids g \<Longrightarrow>
    graph_live h strong g t"
| ephemeron: "e \<in> set (ephemerons g) \<Longrightarrow> graph_live h strong g (eph_map e) \<Longrightarrow>
    graph_live h strong g (eph_key e) \<Longrightarrow> eph_value e \<in> node_ids g \<Longrightarrow>
    graph_live h strong g (eph_value e)"

lemma graph_live_node: "graph_live h strong g i \<Longrightarrow> i \<in> node_ids g"
  by (induction rule: graph_live.induct) auto

definition closed_flags :: "cycle_graph \<Rightarrow> bool list \<Rightarrow> bool" where
  "closed_flags g live \<longleftrightarrow>
     length live = length (nodes g)
     \<and> (\<forall>s < length live. live ! s \<longrightarrow> (\<forall>t \<in> set (live_adjacency g ! s). live ! t))"

definition within :: "heap \<Rightarrow> (nat \<Rightarrow> nat) \<Rightarrow> cycle_graph \<Rightarrow> bool list \<Rightarrow> bool" where
  "within h strong g live \<longleftrightarrow>
     (\<forall>i < length (nodes g). live ! i \<longrightarrow> graph_live h strong g (node_identity (nodes g ! i)))"

lemma graph_live_adjacent:
  assumes "graph_wf g" and "s < length (nodes g)" and "t \<in> set (live_adjacency g ! s)"
    and "graph_live h strong g (node_identity (nodes g ! s))"
  shows "graph_live h strong g (node_identity (nodes g ! t))"
proof -
  from assms(2,3) obtain a b where ab: "(a, b) \<in> set (ordinary_edges g)"
    "node_indices g a = Some s" "node_indices g b = Some t"
    by (auto simp: live_adjacency_spec(2) [OF assms(1)])
  then show ?thesis
    using graph_live.edge [of h strong g a b] assms(4)
    by (simp add: graph_wf_index [OF assms(1)]) (metis image_eqI nth_mem)
qed

lemma graph_live_eph_at:
  assumes "graph_wf g" and "e \<in> set (ephemerons g)" and "eph_at g e m k v"
    and "graph_live h strong g (node_identity (nodes g ! m))"
    and "graph_live h strong g (node_identity (nodes g ! k))"
  shows "graph_live h strong g (node_identity (nodes g ! v))"
  using graph_live.ephemeron [OF assms(2), of h strong] assms(3-5)
  by (simp add: eph_at_def graph_wf_index [OF assms(1)]) (metis image_eqI nth_mem)

lemma ephemeron_loop_spec:
  assumes wf: "graph_wf g" and "closed_flags g live" and "within h strong g live"
  shows "\<exists>live'. ephemeron_loop g (live_adjacency g) live = Some live'
    \<and> closed_flags g live' \<and> within h strong g live'
    \<and> (\<forall>i < length (nodes g). live ! i \<longrightarrow> live' ! i)
    \<and> (\<forall>e \<in> set (ephemerons g). \<forall>m k v. eph_at g e m k v \<longrightarrow> live' ! m \<longrightarrow> live' ! k \<longrightarrow> live' ! v)"
  using assms(2,3)
proof (induction "unmarked live" arbitrary: live rule: less_induct)
  case less
  note closed = less.prems(1) and in_live = less.prems(2)
  have len: "length live = length (nodes g)" using closed by (simp add: closed_flags_def)
  obtain l added c where pass: "ephemeron_pass g (ephemerons g) live [] False = Some (l, [] @ added, c)"
    and l: "length l = length (nodes g)" "c \<longleftrightarrow> added \<noteq> []"
      "\<forall>i < length (nodes g). l ! i \<longleftrightarrow> live ! i \<or> i \<in> set added"
      "\<forall>i \<in> set added. i < length (nodes g)"
    and least: "\<forall>P. (\<forall>i < length (nodes g). live ! i \<longrightarrow> P i)
           \<longrightarrow> (\<forall>e \<in> set (ephemerons g). \<forall>m k v. eph_at g e m k v \<longrightarrow> P m \<longrightarrow> P k \<longrightarrow> P v)
           \<longrightarrow> (\<forall>i < length (nodes g). l ! i \<longrightarrow> P i)"
    and stable: "added = [] \<longrightarrow> l = live
         \<and> (\<forall>e \<in> set (ephemerons g). \<forall>m k v. eph_at g e m k v \<longrightarrow> live ! m \<longrightarrow> live ! k \<longrightarrow> live ! v)"
    using ephemeron_pass_spec [OF wf len, of "ephemerons g" "[]" False]
    by (elim exE conjE) (rule that; (assumption | simp))
  have l_in: "within h strong g l"
    unfolding within_def
    using spec [OF least, of "\<lambda>i. graph_live h strong g (node_identity (nodes g ! i))"]
      in_live graph_live_eph_at [OF wf] by (auto simp: within_def)
  have adj: "adjacency_ok (length l) (live_adjacency g)"
    using live_adjacency_spec(1) [OF wf] l(1) by simp
  have q: "\<forall>s \<in> set added. s < length l \<and> l ! s" using l by auto
  have cl: "\<forall>s < length l. l ! s \<longrightarrow> s \<notin> set added \<longrightarrow> (\<forall>t \<in> set (live_adjacency g ! s). l ! t)"
  proof (intro allI impI ballI)
    fix s t assume s: "s < length l" "l ! s" "s \<notin> set added" and t: "t \<in> set (live_adjacency g ! s)"
    have "t < length (nodes g)" using adjacency_okD [OF adj s(1) t] l(1) by simp
    moreover have "live ! t" using s t l closed by (auto simp: closed_flags_def)
    ultimately show "l ! t" using l(3) by simp
  qed
  obtain l2 where l2: "propagate (live_adjacency g) l added = Some l2"
    and l2_closed: "\<forall>s < length l. l2 ! s \<longrightarrow> (\<forall>t \<in> set (live_adjacency g ! s). l2 ! t)"
    and l2_least: "\<forall>P. (\<forall>i < length l. l ! i \<longrightarrow> P i)
       \<longrightarrow> (\<forall>s < length l. \<forall>t \<in> set (live_adjacency g ! s). P s \<longrightarrow> P t) \<longrightarrow> (\<forall>i < length l. l2 ! i \<longrightarrow> P i)"
    using propagate_spec [OF adj q cl] by blast
  have l2_flags: "closed_flags g l2"
    using l2_closed length_propagate [OF l2] l(1) by (simp add: closed_flags_def)
  have l2_in: "within h strong g l2"
    unfolding within_def
    using spec [OF l2_least, of "\<lambda>i. graph_live h strong g (node_identity (nodes g ! i))"]
      l_in graph_live_adjacent [OF wf] l(1) by (auto simp: within_def)
  have grows: "\<forall>i < length (nodes g). live ! i \<longrightarrow> l2 ! i"
    using propagate_keeps [OF l2] l(3) by blast
  have unfold: "ephemeron_loop g (live_adjacency g) live =
      (if c then ephemeron_loop g (live_adjacency g) l2 else Some l2)"
    by (subst ephemeron_loop.simps) (simp add: pass l2)
  show ?case
  proof (cases c)
    case True
    have "unmarked l2 < unmarked live"
      using ephemeron_pass_unmarked [OF pass] propagate_unmarked [OF l2] True by simp
    from less.hyps [OF this l2_flags l2_in] grows unfold True show ?thesis by auto
  next
    case False
    then have "l2 = live" using l(2) stable l2 by simp
    with False unfold l2_flags l2_in stable l(2) show ?thesis by auto
  qed
qed

lemma live_flags_spec:
  assumes wf: "graph_wf g"
  shows "\<exists>live. live_flags h strong g = Some live \<and> length live = length (nodes g)
    \<and> (\<forall>i < length (nodes g). live ! i \<longleftrightarrow> graph_live h strong g (node_identity (nodes g ! i)))"
proof -
  let ?root = "is_root h strong g (incoming_counts g)"
  define roots where "roots = filter ?root [0..<length (nodes g)]"
  define live where "live = map ?root [0..<length (nodes g)]"
  have len: "length live = length (nodes g)" by (simp add: live_def)
  have adj: "adjacency_ok (length live) (live_adjacency g)"
    using live_adjacency_spec(1) [OF wf] len by simp
  have q: "\<forall>s \<in> set roots. s < length live \<and> live ! s" by (auto simp: roots_def live_def)
  have cl: "\<forall>s < length live. live ! s \<longrightarrow> s \<notin> set roots \<longrightarrow> (\<forall>t \<in> set (live_adjacency g ! s). live ! t)"
    by (auto simp: roots_def live_def)
  obtain l1 where l1: "propagate (live_adjacency g) live roots = Some l1"
    and l1_closed: "\<forall>s < length live. l1 ! s \<longrightarrow> (\<forall>t \<in> set (live_adjacency g ! s). l1 ! t)"
    and l1_least: "\<forall>P. (\<forall>i < length live. live ! i \<longrightarrow> P i)
       \<longrightarrow> (\<forall>s < length live. \<forall>t \<in> set (live_adjacency g ! s). P s \<longrightarrow> P t) \<longrightarrow> (\<forall>i < length live. l1 ! i \<longrightarrow> P i)"
    using propagate_spec [OF adj q cl] by blast
  have flags: "closed_flags g l1"
    using l1_closed length_propagate [OF l1] len by (simp add: closed_flags_def)
  have "within h strong g live" by (auto simp: within_def live_def intro: graph_live.root)
  then have l1_in: "within h strong g l1"
    unfolding within_def
    using spec [OF l1_least, of "\<lambda>i. graph_live h strong g (node_identity (nodes g ! i))"]
      graph_live_adjacent [OF wf] len by auto
  obtain l2 where l2: "ephemeron_loop g (live_adjacency g) l1 = Some l2" "closed_flags g l2"
    "within h strong g l2" "\<forall>i < length (nodes g). l1 ! i \<longrightarrow> l2 ! i"
    "\<forall>e \<in> set (ephemerons g). \<forall>m k v. eph_at g e m k v \<longrightarrow> l2 ! m \<longrightarrow> l2 ! k \<longrightarrow> l2 ! v"
    using ephemeron_loop_spec [OF wf flags l1_in] by blast
  have complete: "\<exists>k < length (nodes g). node_identity (nodes g ! k) = i \<and> l2 ! k" if "graph_live h strong g i" for i
    using that
  proof (induction rule: graph_live.induct)
    case (root k)
    then have "live ! k" by (simp add: live_def)
    with root l2(4) propagate_keeps [OF l1] show ?case by auto
  next
    case (edge s t)
    then obtain k where k: "k < length (nodes g)" "node_identity (nodes g ! k) = s" "l2 ! k" by blast
    from edge(3) obtain j where j: "j < length (nodes g)" "node_identity (nodes g ! j) = t"
      by (auto simp: in_set_conv_nth)
    have "j \<in> set (live_adjacency g ! k)"
      using edge(2) k j by (auto simp: live_adjacency_spec(2) [OF wf] graph_wf_index [OF wf])
    with l2(2) k have "l2 ! j" by (simp add: closed_flags_def)
    with j show ?case by blast
  next
    case (ephemeron e)
    then obtain m k where mk: "m < length (nodes g)" "node_identity (nodes g ! m) = eph_map e" "l2 ! m"
      "k < length (nodes g)" "node_identity (nodes g ! k) = eph_key e" "l2 ! k" by blast
    from ephemeron(4) obtain v where v: "v < length (nodes g)" "node_identity (nodes g ! v) = eph_value e"
      by (auto simp: in_set_conv_nth)
    have "eph_at g e m k v" using mk v by (simp add: eph_at_def graph_wf_index [OF wf])
    with l2(5) ephemeron(1) mk v show ?case by blast
  qed
  have "l2 ! i \<longleftrightarrow> graph_live h strong g (node_identity (nodes g ! i))" if "i < length (nodes g)" for i
  proof
    assume "graph_live h strong g (node_identity (nodes g ! i))"
    from complete [OF this] obtain k where k: "k < length (nodes g)"
      "node_identity (nodes g ! k) = node_identity (nodes g ! i)" "l2 ! k" by blast
    have "distinct (map node_identity (nodes g))" using wf by (simp add: graph_wf_def)
    with k that have "k = i" by (simp add: distinct_conv_nth) (metis)
    with k show "l2 ! i" by simp
  qed (use l2(3) that in \<open>simp add: within_def\<close>)
  moreover have "live_flags h strong g = Some l2"
    using l1 l2(1) by (simp add: live_flags_def Let_def roots_def live_def)
  ultimately show ?thesis using l2(2) by (auto simp: closed_flags_def)
qed

lemma live_identities_spec:
  assumes wf: "graph_wf g"
  shows "live_identities h strong g =
    Some (filter (graph_live h strong g) (map node_identity (nodes g)))"
proof -
  obtain live where live: "live_flags h strong g = Some live" "length live = length (nodes g)"
    "\<forall>i < length (nodes g). live ! i \<longleftrightarrow> graph_live h strong g (node_identity (nodes g ! i))"
    using live_flags_spec [OF wf] by blast
  then have "live = map (\<lambda>n. graph_live h strong g (node_identity n)) (nodes g)"
    by (intro nth_equalityI) auto
  then have "map (node_identity \<circ> fst) (filter snd (zip (nodes g) live)) =
      filter (graph_live h strong g) (map node_identity (nodes g))"
    by (simp add: zip_map2 zip_same_conv_map filter_map comp_def)
  with live show ?thesis by (simp add: live_identities_def)
qed

end
