(* ===== verification/Weak_Objects.thy ===== *)
theory Weak_Objects
  imports Cycle_Values
begin

text \<open>
  The sidecars of weak objects (\<open>src/src/runtime/weak.rs\<close>, \<open>WeakObjectRuntime\<close> and the methods of
  \<open>ExecutorGlobals\<close> over it): the states of \<open>WeakReference\<close>, \<open>WeakMap\<close> and of iterators over
  weak maps, kept per request beside the objects they belong to. A \<open>HashMap\<close> is an association
  list in some iteration order. Whether the target of a weak handle is alive is read from the
  counts \<open>strong\<close>; a new reference cell gets its identity from \<open>new_id\<close>, the allocator.

  The invariant \<open>weak_wf\<close> says that the two indexes kept for releases, the count of map entries
  per key and the set of reference owners, are exact, and that every stored value is an owned
  reference cell.
\<close>

datatype weak_php_object = WeakObject nat | WeakClosure nat

fun weak_identity :: "weak_php_object \<Rightarrow> nat" where
  "weak_identity (WeakObject i) = i"
| "weak_identity (WeakClosure i) = i"

definition weak_strong_count :: "(nat \<Rightarrow> nat) \<Rightarrow> weak_php_object \<Rightarrow> nat" where
  "weak_strong_count strong w = strong (weak_identity w)"

fun weak_upgrade :: "(nat \<Rightarrow> nat) \<Rightarrow> weak_php_object \<Rightarrow> pvalue option" where
  "weak_upgrade strong (WeakObject i) = (if strong i = 0 then None else Some (ObjectV i))"
| "weak_upgrade strong (WeakClosure i) = (if strong i = 0 then None else Some (ClosureV i))"

fun weak_object_owner :: "pvalue \<Rightarrow> weak_php_object option" where
  "weak_object_owner (ObjectV i) = Some (WeakObject i)"
| "weak_object_owner (ClosureV i) = Some (WeakClosure i)"
| "weak_object_owner _ = None"

text \<open>Upgrading a \<open>Weak<RefCell<PhpObject>>\<close>, which is an object identity.\<close>

definition upgrade_object :: "(nat \<Rightarrow> nat) \<Rightarrow> nat \<Rightarrow> pvalue option" where
  "upgrade_object strong i = (if strong i = 0 then None else Some (ObjectV i))"

record weak_reference_state =
  wr_owner_identity :: nat
  wr_owner :: nat
  wr_target :: weak_php_object
  wr_cleared :: bool

record weak_map_entry =
  key_identity :: nat
  entry_key :: weak_php_object
  entry_value :: pvalue
  exposed_reference :: bool

record weak_map_state =
  map_owner :: nat
  map_state_entries :: "weak_map_entry list"

record weak_iterator_state =
  iter_owner :: nat
  iter_map :: pvalue
  iter_keys :: "nat list"
  iter_position :: nat
  iter_by_reference :: bool

record weak_runtime =
  references :: "(nat \<times> weak_reference_state) list"
  reference_owners :: "nat set"
  map_keys :: "(nat \<times> nat) list"
  maps :: "(nat \<times> weak_map_state) list"
  iterators :: "(nat \<times> weak_iterator_state) list"

definition default_weak_runtime :: weak_runtime where
  "default_weak_runtime =
     \<lparr>references = [], reference_owners = {}, map_keys = [], maps = [], iterators = []\<rparr>"

subsection \<open>Weak references\<close>

definition reference_for_target ::
  "(nat \<Rightarrow> nat) \<Rightarrow> nat \<Rightarrow> weak_runtime \<Rightarrow> pvalue option \<times> weak_runtime"
where
  "reference_for_target strong target rt =
     (case map_of (references rt) target of
        None \<Rightarrow> (None, rt)
      | Some state \<Rightarrow>
          (if wr_cleared state \<or> weak_strong_count strong (wr_target state) = 0
           then (None, rt\<lparr>references := AList.delete target (references rt),
                          reference_owners := reference_owners rt - {wr_owner_identity state}\<rparr>)
           else (upgrade_object strong (wr_owner state), rt)))"

definition register_reference :: "pvalue \<Rightarrow> pvalue \<Rightarrow> weak_runtime \<Rightarrow> bool \<times> weak_runtime" where
  "register_reference owner target rt =
     (case (object_identity owner, weak_object_identity target, weak_object_owner target) of
        (Some i, Some t, Some w) \<Rightarrow>
          (let previous = map_of (references rt) t;
               rt = rt\<lparr>references := AList.update t
                      \<lparr>wr_owner_identity = i, wr_owner = i, wr_target = w, wr_cleared = False\<rparr>
                      (references rt)\<rparr>;
               rt = (case previous of
                       None \<Rightarrow> rt
                     | Some state \<Rightarrow>
                         rt\<lparr>reference_owners := reference_owners rt - {wr_owner_identity state}\<rparr>)
           in (True, rt\<lparr>reference_owners := insert i (reference_owners rt)\<rparr>))
      | _ \<Rightarrow> (False, rt))"

definition reference_target :: "(nat \<Rightarrow> nat) \<Rightarrow> nat \<Rightarrow> weak_runtime \<Rightarrow> pvalue option" where
  "reference_target strong owner rt =
     (case List.find (\<lambda>state. wr_owner_identity state = owner) (map snd (references rt)) of
        None \<Rightarrow> None
      | Some state \<Rightarrow>
          (if wr_cleared state then None else weak_upgrade strong (wr_target state)))"

subsection \<open>Weak maps\<close>

text \<open>The counter of the entries that key on an identity; \<open>delta\<close> is \<open>1\<close> or \<open>-1\<close>.\<close>

definition note_map_key :: "nat \<Rightarrow> int \<Rightarrow> weak_runtime \<Rightarrow> weak_runtime" where
  "note_map_key key delta rt =
     (case map_of (map_keys rt) key of
        Some count \<Rightarrow>
          (let count' = nat (max (int count + delta) 0)
           in if count' = 0 then rt\<lparr>map_keys := AList.delete key (map_keys rt)\<rparr>
              else rt\<lparr>map_keys := AList.update key count' (map_keys rt)\<rparr>)
      | None \<Rightarrow>
          (if 0 < delta then rt\<lparr>map_keys := AList.update key (nat delta) (map_keys rt)\<rparr> else rt))"

definition ensure_map :: "pvalue \<Rightarrow> weak_runtime \<Rightarrow> nat option \<times> weak_runtime" where
  "ensure_map m rt =
     (case object_identity m of
        None \<Rightarrow> (None, rt)
      | Some i \<Rightarrow>
          (if map_of (maps rt) i = None
           then (Some i, rt\<lparr>maps := AList.update i \<lparr>map_owner = i, map_state_entries = []\<rparr> (maps rt)\<rparr>)
           else (Some i, rt)))"

definition map_entries_of :: "weak_runtime \<Rightarrow> nat \<Rightarrow> weak_map_entry list" where
  "map_entries_of rt m = (case map_of (maps rt) m of None \<Rightarrow> [] | Some state \<Rightarrow> map_state_entries state)"

definition map_value :: "(nat \<Rightarrow> nat) \<Rightarrow> nat \<Rightarrow> nat \<Rightarrow> weak_runtime \<Rightarrow> pvalue option" where
  "map_value strong m key rt =
     (case map_of (maps rt) m of
        None \<Rightarrow> None
      | Some state \<Rightarrow>
          map_option entry_value
            (List.find (\<lambda>e. key_identity e = key \<and> weak_strong_count strong (entry_key e) \<noteq> 0)
               (map_state_entries state)))"

text \<open>\<open>Value::owned_reference\<close> allocates a cell.\<close>

definition owned_reference :: "(heap \<Rightarrow> nat) \<Rightarrow> pvalue \<Rightarrow> heap \<Rightarrow> pvalue \<times> heap" where
  "owned_reference new_id v h = (OwnedRef (new_id h), put_alloc (new_id h) (ReferenceAlloc v) h)"

definition entry_cell :: "(heap \<Rightarrow> nat) \<Rightarrow> pvalue \<Rightarrow> heap \<Rightarrow> pvalue \<times> heap" where
  "entry_cell new_id v h =
     (if is_owned_reference v then (v, h) else owned_reference new_id (dereferenced h v) h)"

text \<open>Storing the entries of a map that exists.\<close>

definition put_entries :: "nat \<Rightarrow> weak_map_entry list \<Rightarrow> weak_runtime \<Rightarrow> weak_runtime" where
  "put_entries m es rt =
     (case map_of (maps rt) m of
        None \<Rightarrow> rt
      | Some state \<Rightarrow> rt\<lparr>maps := AList.update m (state\<lparr>map_state_entries := es\<rparr>) (maps rt)\<rparr>)"

definition map_set ::
  "(heap \<Rightarrow> nat) \<Rightarrow> pvalue \<Rightarrow> pvalue \<Rightarrow> pvalue \<Rightarrow> heap \<Rightarrow> weak_runtime \<Rightarrow> bool \<times> heap \<times> weak_runtime"
where
  "map_set new_id m key v h rt =
     (case ensure_map m rt of
        (None, rt) \<Rightarrow> (False, h, rt)
      | (Some i, rt) \<Rightarrow>
          (case (weak_object_identity key, weak_object_owner key) of
             (Some k, Some w) \<Rightarrow>
               (let entries = map_entries_of rt i;
                    (cell, h') = entry_cell new_id v h
                in case Prelude.position (\<lambda>e. key_identity e = k) entries of
                     Some at \<Rightarrow>
                       (True, h',
                        put_entries i
                          (entries[at := (entries ! at)\<lparr>entry_value := cell,
                             exposed_reference :=
                               (if is_owned_reference v then exposed_reference (entries ! at) else False)\<rparr>]) rt)
                   | None \<Rightarrow>
                       (True, h',
                        note_map_key k 1
                          (put_entries i
                             (entries @ [\<lparr>key_identity = k, entry_key = w, entry_value = cell,
                                          exposed_reference = False\<rparr>]) rt)))
           | _ \<Rightarrow> (False, h, rt)))"

definition map_remove :: "nat \<Rightarrow> nat \<Rightarrow> weak_runtime \<Rightarrow> pvalue option \<times> weak_runtime" where
  "map_remove m key rt =
     (case map_of (maps rt) m of
        None \<Rightarrow> (None, rt)
      | Some state \<Rightarrow>
          (case Prelude.position (\<lambda>e. key_identity e = key) (map_state_entries state) of
             None \<Rightarrow> (None, rt)
           | Some at \<Rightarrow>
               (Some (entry_value (map_state_entries state ! at)),
                note_map_key key (-1)
                  (rt\<lparr>maps := AList.update m
                        (state\<lparr>map_state_entries := vec_remove at (map_state_entries state)\<rparr>)
                        (maps rt)\<rparr>))))"

text \<open>\<open>owned_reference_is_aliased\<close>: more than one owner beside the internal aliases.\<close>

definition owned_reference_is_aliased ::
  "(nat \<Rightarrow> nat) \<Rightarrow> (nat \<Rightarrow> nat) \<Rightarrow> pvalue \<Rightarrow> bool"
where
  "owned_reference_is_aliased strong internal v =
     (case v of
        OwnedRef i \<Rightarrow> (if strong i < internal i then True else 1 < strong i - internal i)
      | _ \<Rightarrow> False)"

definition map_entries ::
  "(nat \<Rightarrow> nat) \<Rightarrow> (nat \<Rightarrow> nat) \<Rightarrow> heap \<Rightarrow> nat \<Rightarrow> weak_runtime \<Rightarrow> (pvalue \<times> pvalue) list"
where
  "map_entries strong internal h m rt =
     (case map_of (maps rt) m of
        None \<Rightarrow> []
      | Some state \<Rightarrow>
          List.map_filter
            (\<lambda>e. map_option
                (\<lambda>key. (key, if exposed_reference e
                               \<or> owned_reference_is_aliased strong internal (entry_value e)
                             then entry_value e else dereferenced h (entry_value e)))
                (weak_upgrade strong (entry_key e)))
            (map_state_entries state))"

fun clone_entries ::
  "(heap \<Rightarrow> nat) \<Rightarrow> (nat \<Rightarrow> nat) \<Rightarrow> (nat \<Rightarrow> nat) \<Rightarrow> weak_map_entry list \<Rightarrow> heap \<Rightarrow>
     weak_map_entry list \<times> heap"
where
  "clone_entries new_id strong internal [] h = ([], h)"
| "clone_entries new_id strong internal (e # es) h =
     (if weak_strong_count strong (entry_key e) \<noteq> 0
      then let (cell, h') =
                 (if owned_reference_is_aliased strong internal (entry_value e) then (entry_value e, h)
                  else owned_reference new_id (dereferenced h (entry_value e)) h);
               (rest_es, h'') = clone_entries new_id strong internal es h'
           in (e\<lparr>entry_value := cell\<rparr> # rest_es, h'')
      else clone_entries new_id strong internal es h)"

definition clone_map ::
  "(heap \<Rightarrow> nat) \<Rightarrow> (nat \<Rightarrow> nat) \<Rightarrow> (nat \<Rightarrow> nat) \<Rightarrow> pvalue \<Rightarrow> pvalue \<Rightarrow> heap \<Rightarrow> weak_runtime \<Rightarrow>
     heap \<times> weak_runtime"
where
  "clone_map new_id strong internal source target h rt =
     (case (object_identity source, object_identity target) of
        (Some s, Some t) \<Rightarrow>
          (let (entries, h) = clone_entries new_id strong internal (map_entries_of rt s) h;
               rt = fold (\<lambda>e. note_map_key (key_identity e) 1) entries rt;
               previous = map_of (maps rt) t;
               rt = rt\<lparr>maps := AList.update t \<lparr>map_owner = t, map_state_entries = entries\<rparr> (maps rt)\<rparr>
           in (h, case previous of
                    None \<Rightarrow> rt
                  | Some state \<Rightarrow>
                      fold (\<lambda>e. note_map_key (key_identity e) (-1)) (map_state_entries state) rt))
      | _ \<Rightarrow> (h, rt))"


subsection \<open>Iterators over weak maps\<close>

definition register_iterator ::
  "(nat \<Rightarrow> nat) \<Rightarrow> pvalue \<Rightarrow> pvalue \<Rightarrow> weak_runtime \<Rightarrow> bool \<times> weak_runtime"
where
  "register_iterator strong iterator m rt =
     (case (object_identity iterator, object_identity m) of
        (Some i, Some mi) \<Rightarrow>
          (let keys = (case map_of (maps rt) mi of
                         None \<Rightarrow> []
                       | Some state \<Rightarrow>
                           map key_identity
                             (filter (\<lambda>e. weak_strong_count strong (entry_key e) \<noteq> 0)
                                (map_state_entries state)))
           in (True, rt\<lparr>iterators := AList.update i
                 \<lparr>iter_owner = i, iter_map = m, iter_keys = keys, iter_position = 0,
                  iter_by_reference = False\<rparr> (iterators rt)\<rparr>))
      | _ \<Rightarrow> (False, rt))"

definition iterator_rewind :: "nat \<Rightarrow> weak_runtime \<Rightarrow> weak_runtime" where
  "iterator_rewind i rt =
     (case map_of (iterators rt) i of
        None \<Rightarrow> rt
      | Some it \<Rightarrow> rt\<lparr>iterators := AList.update i (it\<lparr>iter_position := 0\<rparr>) (iterators rt)\<rparr>)"

definition iterator_next :: "nat \<Rightarrow> weak_runtime \<Rightarrow> weak_runtime" where
  "iterator_next i rt =
     (case map_of (iterators rt) i of
        None \<Rightarrow> rt
      | Some it \<Rightarrow>
          rt\<lparr>iterators := AList.update i
               (it\<lparr>iter_position := saturating_add_usize (iter_position it) 1\<rparr>) (iterators rt)\<rparr>)"

text \<open>A vector has at most \<open>usize::MAX\<close> elements, so that the last index is never valid.\<close>

definition key_at :: "weak_iterator_state \<Rightarrow> nat option" where
  "key_at it = (if iter_position it < usize_MAX then vec_get (iter_keys it) (iter_position it) else None)"

text \<open>The remaining keys of an iterator, the measure of its loop.\<close>

definition keys_left :: "nat \<Rightarrow> weak_runtime \<Rightarrow> nat" where
  "keys_left i rt =
     (case map_of (iterators rt) i of None \<Rightarrow> 0 | Some it \<Rightarrow> length (iter_keys it) - iter_position it)"

lemma iterator_next_keys_left:
  "map_of (iterators rt) i = Some it \<Longrightarrow> key_at it = Some k \<Longrightarrow>
     keys_left i (iterator_next i rt) < keys_left i rt"
  by (auto simp: keys_left_def iterator_next_def key_at_def saturating_add_usize_def
      split: if_splits)

function iterator_entry ::
  "(nat \<Rightarrow> nat) \<Rightarrow> nat \<Rightarrow> weak_runtime \<Rightarrow> (nat \<times> nat) option \<times> weak_runtime"
where
  "iterator_entry strong i rt =
     (case map_of (iterators rt) i of
        None \<Rightarrow> (None, rt)
      | Some it \<Rightarrow>
          (case object_identity (iter_map it) of
             None \<Rightarrow> (None, rt)
           | Some m \<Rightarrow>
               (case key_at it of
                  None \<Rightarrow> (None, rt)
                | Some k \<Rightarrow>
                    (if map_value strong m k rt \<noteq> None then (Some (m, k), rt)
                     else iterator_entry strong i (iterator_next i rt)))))"
  by pat_completeness auto
termination
  by (relation "measure (\<lambda>(strong, i, rt). keys_left i rt)") (auto simp: iterator_next_keys_left)

declare iterator_entry.simps [simp del]

definition iterator_key :: "(nat \<Rightarrow> nat) \<Rightarrow> nat \<Rightarrow> weak_runtime \<Rightarrow> pvalue option \<times> weak_runtime" where
  "iterator_key strong i rt =
     (case iterator_entry strong i rt of
        (None, rt) \<Rightarrow> (None, rt)
      | (Some (m, k), rt) \<Rightarrow>
          (case List.find (\<lambda>e. key_identity e = k) (map_entries_of rt m) of
             None \<Rightarrow> (None, rt)
           | Some e \<Rightarrow> (weak_upgrade strong (entry_key e), rt)))"

definition iterator_value :: "(nat \<Rightarrow> nat) \<Rightarrow> nat \<Rightarrow> weak_runtime \<Rightarrow> pvalue option \<times> weak_runtime" where
  "iterator_value strong i rt =
     (case iterator_entry strong i rt of
        (None, rt) \<Rightarrow> (None, rt)
      | (Some (m, k), rt) \<Rightarrow>
          (case (map_of (iterators rt) i, map_of (maps rt) m) of
             (Some it, Some state) \<Rightarrow>
               (case Prelude.position (\<lambda>e. key_identity e = k) (map_state_entries state) of
                  None \<Rightarrow> (None, rt)
                | Some at \<Rightarrow>
                    (let e = map_state_entries state ! at
                     in (Some (entry_value e),
                         if iter_by_reference it
                         then rt\<lparr>maps := AList.update m
                                (state\<lparr>map_state_entries :=
                                   (map_state_entries state)[at := e\<lparr>exposed_reference := True\<rparr>]\<rparr>)
                                (maps rt)\<rparr>
                         else rt)))
           | _ \<Rightarrow> (None, rt)))"

definition enable_iterator_references :: "nat \<Rightarrow> weak_runtime \<Rightarrow> weak_runtime" where
  "enable_iterator_references i rt =
     (case map_of (iterators rt) i of
        None \<Rightarrow> rt
      | Some it \<Rightarrow> rt\<lparr>iterators := AList.update i (it\<lparr>iter_by_reference := True\<rparr>) (iterators rt)\<rparr>)"

subsection \<open>Releasing an object\<close>

definition has_release_work :: "(nat \<Rightarrow> nat) \<Rightarrow> nat \<Rightarrow> weak_runtime \<Rightarrow> bool" where
  "has_release_work strong i rt \<longleftrightarrow>
     map_of (references rt) i \<noteq> None
     \<or> i \<in> reference_owners rt
     \<or> (case map_of (maps rt) i of None \<Rightarrow> False | Some state \<Rightarrow> strong (map_owner state) \<noteq> 0)
     \<or> map_of (map_keys rt) i \<noteq> None
     \<or> (case map_of (iterators rt) i of None \<Rightarrow> False | Some it \<Rightarrow> strong (iter_owner it) \<noteq> 0)"

definition has_any_release_work :: "(nat \<Rightarrow> nat) \<Rightarrow> weak_runtime \<Rightarrow> bool" where
  "has_any_release_work strong rt \<longleftrightarrow>
     references rt \<noteq> [] \<or> map_keys rt \<noteq> []
     \<or> list_ex (\<lambda>(_, state). strong (map_owner state) \<noteq> 0) (maps rt)
     \<or> list_ex (\<lambda>(_, it). strong (iter_owner it) \<noteq> 0) (iterators rt)"

text \<open>The steps of \<open>release_identity\<close>, in order: the references to the object, the map entries
  it keys, the references it owns, its map and its iterator.\<close>

definition clear_reference :: "nat \<Rightarrow> weak_runtime \<Rightarrow> weak_runtime" where
  "clear_reference i rt =
     (case map_of (references rt) i of
        None \<Rightarrow> rt
      | Some state \<Rightarrow>
          rt\<lparr>references := AList.update i (state\<lparr>wr_cleared := True\<rparr>) (references rt)\<rparr>)"

definition release_key :: "nat \<Rightarrow> weak_runtime \<Rightarrow> pvalue list \<times> weak_runtime" where
  "release_key i rt =
     (if map_of (map_keys rt) i \<noteq> None
      then (concat (map (\<lambda>(_, state). map entry_value
                      (filter (\<lambda>e. key_identity e = i) (map_state_entries state))) (maps rt)),
            rt\<lparr>maps := map (\<lambda>(m, state). (m, state\<lparr>map_state_entries :=
                              filter (\<lambda>e. key_identity e \<noteq> i) (map_state_entries state)\<rparr>)) (maps rt),
               map_keys := AList.delete i (map_keys rt)\<rparr>)
      else ([], rt))"

definition release_owner :: "nat \<Rightarrow> weak_runtime \<Rightarrow> weak_runtime" where
  "release_owner i rt =
     (if i \<in> reference_owners rt
      then rt\<lparr>reference_owners := reference_owners rt - {i},
              references := filter (\<lambda>(_, state). wr_owner_identity state \<noteq> i) (references rt)\<rparr>
      else rt)"

definition release_map :: "nat \<Rightarrow> weak_runtime \<Rightarrow> pvalue list \<times> weak_runtime" where
  "release_map i rt =
     (case map_of (maps rt) i of
        None \<Rightarrow> ([], rt)
      | Some state \<Rightarrow>
          (map entry_value (map_state_entries state),
           fold (\<lambda>e. note_map_key (key_identity e) (-1)) (map_state_entries state)
             (rt\<lparr>maps := AList.delete i (maps rt)\<rparr>)))"

definition release_iterator :: "nat \<Rightarrow> weak_runtime \<Rightarrow> pvalue list \<times> weak_runtime" where
  "release_iterator i rt =
     (case map_of (iterators rt) i of
        None \<Rightarrow> ([], rt)
      | Some it \<Rightarrow> ([iter_map it], rt\<lparr>iterators := AList.delete i (iterators rt)\<rparr>))"

definition release_identity :: "nat \<Rightarrow> weak_runtime \<Rightarrow> pvalue list \<times> weak_runtime" where
  "release_identity i rt =
     (let rt = clear_reference i rt;
          (by_key, rt) = release_key i rt;
          rt = release_owner i rt;
          (by_map, rt) = release_map i rt;
          (by_iterator, rt) = release_iterator i rt
      in (by_key @ by_map @ by_iterator, rt))"

subsection \<open>The snapshot for a cycle collection\<close>

record weak_map_cycle_entry =
  ce_key_identity :: nat
  ce_key :: "pvalue option"
  ce_value :: pvalue

record weak_map_cycle_state =
  cm_identity :: nat
  cm_map :: "pvalue option"
  cm_entries :: "weak_map_cycle_entry list"

record weak_iterator_cycle_state =
  ci_identity :: nat
  ci_iterator :: "pvalue option"
  ci_map :: pvalue

record weak_cycle_snapshot =
  snap_maps :: "weak_map_cycle_state list"
  snap_iterators :: "weak_iterator_cycle_state list"
  snap_stale :: "nat list"

text \<open>The stale identities form a set; their order is unspecified. The handle of an entry is
  taken with \<open>clone_cycle_handle\<close>, which panics on a value that is no handle.\<close>

definition stale_identities :: "(nat \<Rightarrow> nat) \<Rightarrow> weak_runtime \<Rightarrow> nat list" where
  "stale_identities strong rt =
     remdups
       (concat (map (\<lambda>(target, state).
           (if weak_strong_count strong (wr_target state) = 0 then [target] else [])
           @ (if strong (wr_owner state) = 0 then [wr_owner_identity state] else [])) (references rt))
        @ concat (map (\<lambda>(m, state).
           (if strong (map_owner state) = 0 then [m] else [])
           @ concat (map (\<lambda>e. if weak_strong_count strong (entry_key e) = 0 then [key_identity e] else [])
               (map_state_entries state))) (maps rt))
        @ concat (map (\<lambda>(i, it). if strong (iter_owner it) = 0 then [i] else []) (iterators rt)))"

definition snapshot_entry :: "(nat \<Rightarrow> nat) \<Rightarrow> weak_map_entry \<Rightarrow> weak_map_cycle_entry option" where
  "snapshot_entry strong e =
     map_option (\<lambda>v. \<lparr>ce_key_identity = key_identity e, ce_key = weak_upgrade strong (entry_key e),
                      ce_value = v\<rparr>)
       (clone_cycle_handle (entry_value e))"

definition snapshot_map :: "(nat \<Rightarrow> nat) \<Rightarrow> nat \<times> weak_map_state \<Rightarrow> weak_map_cycle_state option" where
  "snapshot_map strong p =
     (case p of (m, state) \<Rightarrow>
        map_option (\<lambda>es. \<lparr>cm_identity = m, cm_map = upgrade_object strong (map_owner state),
                         cm_entries = es\<rparr>)
          (those (map (snapshot_entry strong) (map_state_entries state))))"

definition cycle_snapshot :: "(nat \<Rightarrow> nat) \<Rightarrow> weak_runtime \<Rightarrow> weak_cycle_snapshot option" where
  "cycle_snapshot strong rt =
     map_option (\<lambda>ms. \<lparr>snap_maps = ms,
         snap_iterators = map (\<lambda>(i, it). \<lparr>ci_identity = i,
             ci_iterator = upgrade_object strong (iter_owner it), ci_map = iter_map it\<rparr>) (iterators rt),
         snap_stale = stale_identities strong rt\<rparr>)
       (those (map (snapshot_map strong) (maps rt)))"

subsection \<open>The methods of the request globals\<close>

text \<open>\<open>ExecutorGlobals\<close> allocates the runtime on the first use that needs one.\<close>

type_synonym weak_objects = "weak_runtime option"

definition weak_runtime_of :: "weak_objects \<Rightarrow> weak_runtime" where
  "weak_runtime_of w = (case w of None \<Rightarrow> default_weak_runtime | Some rt \<Rightarrow> rt)"

definition existing_weak_reference ::
  "(nat \<Rightarrow> nat) \<Rightarrow> pvalue \<Rightarrow> weak_objects \<Rightarrow> pvalue option \<times> weak_objects"
where
  "existing_weak_reference strong target w =
     (case (w, weak_object_identity target) of
        (Some rt, Some t) \<Rightarrow> map_prod id Some (reference_for_target strong t rt)
      | _ \<Rightarrow> (None, w))"

definition register_weak_reference :: "pvalue \<Rightarrow> pvalue \<Rightarrow> weak_objects \<Rightarrow> bool \<times> weak_objects" where
  "register_weak_reference owner target w =
     map_prod id Some (register_reference owner target (weak_runtime_of w))"

definition weak_reference_target :: "(nat \<Rightarrow> nat) \<Rightarrow> pvalue \<Rightarrow> weak_objects \<Rightarrow> pvalue option" where
  "weak_reference_target strong owner w =
     (case (w, object_identity owner) of
        (Some rt, Some i) \<Rightarrow> reference_target strong i rt
      | _ \<Rightarrow> None)"

definition ensure_weak_map :: "pvalue \<Rightarrow> weak_objects \<Rightarrow> bool \<times> weak_objects" where
  "ensure_weak_map m w = map_prod (\<lambda>i. i \<noteq> None) Some (ensure_map m (weak_runtime_of w))"

definition weak_map_value :: "(nat \<Rightarrow> nat) \<Rightarrow> pvalue \<Rightarrow> pvalue \<Rightarrow> weak_objects \<Rightarrow> pvalue option" where
  "weak_map_value strong m key w =
     (case (w, object_identity m, weak_object_identity key) of
        (Some rt, Some i, Some k) \<Rightarrow> map_value strong i k rt
      | _ \<Rightarrow> None)"

definition set_weak_map_value ::
  "(heap \<Rightarrow> nat) \<Rightarrow> pvalue \<Rightarrow> pvalue \<Rightarrow> pvalue \<Rightarrow> heap \<Rightarrow> weak_objects \<Rightarrow> bool \<times> heap \<times> weak_objects"
where
  "set_weak_map_value new_id m key v h w =
     (case map_set new_id m key v h (weak_runtime_of w) of (ok, h, rt) \<Rightarrow> (ok, h, Some rt))"

definition remove_weak_map_value ::
  "pvalue \<Rightarrow> pvalue \<Rightarrow> weak_objects \<Rightarrow> pvalue option \<times> weak_objects"
where
  "remove_weak_map_value m key w =
     (case (w, object_identity m, weak_object_identity key) of
        (Some rt, Some i, Some k) \<Rightarrow> map_prod id Some (map_remove i k rt)
      | _ \<Rightarrow> (None, w))"

definition weak_map_entries ::
  "(nat \<Rightarrow> nat) \<Rightarrow> (nat \<Rightarrow> nat) \<Rightarrow> heap \<Rightarrow> pvalue \<Rightarrow> weak_objects \<Rightarrow> (pvalue \<times> pvalue) list"
where
  "weak_map_entries strong internal h m w =
     (case (object_identity m, w) of
        (Some i, Some rt) \<Rightarrow> map_entries strong internal h i rt
      | _ \<Rightarrow> [])"

definition clone_weak_map ::
  "(heap \<Rightarrow> nat) \<Rightarrow> (nat \<Rightarrow> nat) \<Rightarrow> (nat \<Rightarrow> nat) \<Rightarrow> pvalue \<Rightarrow> pvalue \<Rightarrow> heap \<Rightarrow> weak_objects \<Rightarrow>
     heap \<times> weak_objects"
where
  "clone_weak_map new_id strong internal source target h w =
     (if (case object_identity source of
            None \<Rightarrow> False
          | Some i \<Rightarrow> (case object_at h i of None \<Rightarrow> False | Some obj \<Rightarrow> class_name obj = ''WeakMap''))
      then map_prod id Some (clone_map new_id strong internal source target h (weak_runtime_of w))
      else (h, w))"

definition register_weak_map_iterator ::
  "(nat \<Rightarrow> nat) \<Rightarrow> pvalue \<Rightarrow> pvalue \<Rightarrow> weak_objects \<Rightarrow> bool \<times> weak_objects"
where
  "register_weak_map_iterator strong iterator m w =
     map_prod id Some (register_iterator strong iterator m (weak_runtime_of w))"

definition with_iterator :: "(nat \<Rightarrow> weak_runtime \<Rightarrow> weak_runtime) \<Rightarrow> pvalue \<Rightarrow> weak_objects \<Rightarrow> weak_objects" where
  "with_iterator f iterator w =
     (case (w, object_identity iterator) of (Some rt, Some i) \<Rightarrow> Some (f i rt) | _ \<Rightarrow> w)"

definition weak_iterator_rewind :: "pvalue \<Rightarrow> weak_objects \<Rightarrow> weak_objects" where
  "weak_iterator_rewind = with_iterator iterator_rewind"

definition weak_iterator_next :: "pvalue \<Rightarrow> weak_objects \<Rightarrow> weak_objects" where
  "weak_iterator_next = with_iterator iterator_next"

definition enable_weak_iterator_references :: "pvalue \<Rightarrow> weak_objects \<Rightarrow> weak_objects" where
  "enable_weak_iterator_references = with_iterator enable_iterator_references"

definition weak_iterator_valid :: "(nat \<Rightarrow> nat) \<Rightarrow> pvalue \<Rightarrow> weak_objects \<Rightarrow> bool \<times> weak_objects" where
  "weak_iterator_valid strong iterator w =
     (case (w, object_identity iterator) of
        (Some rt, Some i) \<Rightarrow> map_prod (\<lambda>e. e \<noteq> None) Some (iterator_entry strong i rt)
      | _ \<Rightarrow> (False, w))"

definition weak_iterator_key ::
  "(nat \<Rightarrow> nat) \<Rightarrow> pvalue \<Rightarrow> weak_objects \<Rightarrow> pvalue option \<times> weak_objects"
where
  "weak_iterator_key strong iterator w =
     (case (w, object_identity iterator) of
        (Some rt, Some i) \<Rightarrow> map_prod id Some (iterator_key strong i rt)
      | _ \<Rightarrow> (None, w))"

definition weak_iterator_value ::
  "(nat \<Rightarrow> nat) \<Rightarrow> pvalue \<Rightarrow> weak_objects \<Rightarrow> pvalue option \<times> weak_objects"
where
  "weak_iterator_value strong iterator w =
     (case (w, object_identity iterator) of
        (Some rt, Some i) \<Rightarrow> map_prod id Some (iterator_value strong i rt)
      | _ \<Rightarrow> (None, w))"

definition weak_iterator_allows_references :: "pvalue \<Rightarrow> weak_objects \<Rightarrow> bool" where
  "weak_iterator_allows_references iterator w =
     (case (object_identity iterator, w) of
        (Some i, Some rt) \<Rightarrow> map_of (iterators rt) i \<noteq> None
      | _ \<Rightarrow> False)"

definition has_weak_object_release_work :: "(nat \<Rightarrow> nat) \<Rightarrow> nat \<Rightarrow> weak_objects \<Rightarrow> bool" where
  "has_weak_object_release_work strong i w =
     (case w of None \<Rightarrow> False | Some rt \<Rightarrow> has_release_work strong i rt)"

definition release_weak_object :: "nat \<Rightarrow> weak_objects \<Rightarrow> pvalue list \<times> weak_objects" where
  "release_weak_object i w =
     (case w of None \<Rightarrow> ([], None) | Some rt \<Rightarrow> map_prod id Some (release_identity i rt))"

definition weak_cycle_snapshot_of :: "(nat \<Rightarrow> nat) \<Rightarrow> weak_objects \<Rightarrow> weak_cycle_snapshot option" where
  "weak_cycle_snapshot_of strong w =
     (case w of
        None \<Rightarrow> Some \<lparr>snap_maps = [], snap_iterators = [], snap_stale = []\<rparr>
      | Some rt \<Rightarrow> cycle_snapshot strong rt)"

end
