(* ===== verification/Weak_Laws.thy ===== *)
theory Weak_Laws
  imports Weak_Objects "HOL-Library.Multiset"
begin

text \<open>
  The laws of the weak-object sidecars: the invariant \<open>weak_wf\<close> and that every operation keeps
  it, what a weak map answers after an update, and what releasing an object removes.
\<close>

subsection \<open>Sums over association lists\<close>

lemma sum_update:
  "sum_list (map (f \<circ> snd) (AList.update k v al)) + (case map_of al k of None \<Rightarrow> 0 | Some u \<Rightarrow> f u)
   = sum_list (map (f \<circ> snd) al) + (f v :: 'a :: comm_monoid_add)"
  by (induction al) (auto simp: ac_simps split: option.splits)

lemma sum_delete:
  "distinct (map fst al) \<Longrightarrow>
   sum_list (map (f \<circ> snd) (AList.delete k al)) + (case map_of al k of None \<Rightarrow> 0 | Some u \<Rightarrow> f u)
   = (sum_list (map (f \<circ> snd) al) :: 'a :: comm_monoid_add)"
proof (induction al)
  case (Cons p al)
  show ?case
  proof (cases "fst p = k")
    case True
    with Cons.prems have "k \<notin> fst ` set al" by auto
    then have "AList.delete k al = al" by (force simp: AList.delete_eq filter_id_conv)
    with True show ?thesis by (cases p) (simp add: ac_simps)
  qed (use Cons in \<open>cases p; auto simp: ac_simps split: option.splits\<close>)
qed simp

lemma set_update_subset: "set (AList.update k v al) \<subseteq> insert (k, v) (set al)"
  by (induction al) auto

lemma set_delete_subset: "set (AList.delete k al) \<subseteq> set al"
  by (auto simp: AList.delete_eq)

lemma set_update_eq:
  "distinct (map fst al) \<Longrightarrow> set (AList.update k v al) = insert (k, v) {p \<in> set al. fst p \<noteq> k}"
  by (induction al) force+

subsection \<open>The invariant\<close>

definition key_count :: "weak_runtime \<Rightarrow> nat \<Rightarrow> nat" where
  "key_count rt k = (case map_of (map_keys rt) k of None \<Rightarrow> 0 | Some n \<Rightarrow> n)"

definition count_key :: "nat \<Rightarrow> weak_map_state \<Rightarrow> nat" where
  "count_key k state = length (filter (\<lambda>e. key_identity e = k) (map_state_entries state))"

definition key_total :: "weak_runtime \<Rightarrow> nat \<Rightarrow> nat" where
  "key_total rt k = sum_list (map (count_key k \<circ> snd) (maps rt))"

definition map_keys_ok :: "weak_runtime \<Rightarrow> bool" where
  "map_keys_ok rt \<longleftrightarrow> distinct (map fst (map_keys rt)) \<and> 0 \<notin> snd ` set (map_keys rt)"

definition entry_ok :: "weak_map_entry \<Rightarrow> bool" where
  "entry_ok e \<longleftrightarrow> is_owned_reference (entry_value e) \<and> weak_identity (entry_key e) = key_identity e"

definition entries_ok :: "weak_map_entry list \<Rightarrow> bool" where
  "entries_ok es \<longleftrightarrow> distinct (map key_identity es) \<and> list_all entry_ok es"

definition maps_ok :: "(nat \<times> weak_map_state) list \<Rightarrow> bool" where
  "maps_ok ms \<longleftrightarrow>
     distinct (map fst ms)
     \<and> (\<forall>(m, state) \<in> set ms. map_owner state = m \<and> entries_ok (map_state_entries state))"

definition refs_ok :: "(nat \<times> weak_reference_state) list \<Rightarrow> nat set \<Rightarrow> bool" where
  "refs_ok refs owners \<longleftrightarrow>
     distinct (map fst refs) \<and> distinct (map (wr_owner_identity \<circ> snd) refs)
     \<and> owners = set (map (wr_owner_identity \<circ> snd) refs)
     \<and> (\<forall>(t, state) \<in> set refs. wr_owner state = wr_owner_identity state \<and> weak_identity (wr_target state) = t)"

definition iters_ok :: "(nat \<times> weak_iterator_state) list \<Rightarrow> bool" where
  "iters_ok its \<longleftrightarrow>
     distinct (map fst its) \<and> (\<forall>(i, it) \<in> set its. iter_owner it = i \<and> object_identity (iter_map it) \<noteq> None)"

definition weak_wf :: "weak_runtime \<Rightarrow> bool" where
  "weak_wf rt \<longleftrightarrow>
     maps_ok (maps rt) \<and> map_keys_ok rt \<and> (\<forall>k. key_count rt k = key_total rt k)
     \<and> refs_ok (references rt) (reference_owners rt) \<and> iters_ok (iterators rt)"

lemma weak_wf_default [simp]: "weak_wf default_weak_runtime"
  by (simp add: weak_wf_def default_weak_runtime_def maps_ok_def map_keys_ok_def key_count_def
      key_total_def refs_ok_def iters_ok_def)

subsection \<open>The counter of keys\<close>

lemma note_map_key_fields [simp]:
  "maps (note_map_key k d rt) = maps rt" "references (note_map_key k d rt) = references rt"
  "reference_owners (note_map_key k d rt) = reference_owners rt"
  "iterators (note_map_key k d rt) = iterators rt"
  by (auto simp: note_map_key_def Let_def split: option.splits)

lemma keys_ok_update:
  "map_keys_ok rt \<Longrightarrow> n \<noteq> 0 \<Longrightarrow> map_keys_ok (rt\<lparr>map_keys := AList.update k n (map_keys rt)\<rparr>)"
  using set_update_subset [of k n "map_keys rt"] by (force simp: map_keys_ok_def distinct_update)

lemma keys_ok_delete: "map_keys_ok rt \<Longrightarrow> map_keys_ok (rt\<lparr>map_keys := AList.delete k (map_keys rt)\<rparr>)"
  using set_delete_subset [of k "map_keys rt"] by (force simp: map_keys_ok_def distinct_delete)

lemma note_map_key_ok: "map_keys_ok rt \<Longrightarrow> map_keys_ok (note_map_key k d rt)"
  by (simp add: note_map_key_def Let_def keys_ok_update keys_ok_delete split: option.splits)

lemma note_map_key_count:
  "key_count (note_map_key key d rt) k =
     (if k = key then nat (max (int (key_count rt key) + d) 0) else key_count rt k)"
  by (auto simp: note_map_key_def key_count_def Let_def split: option.splits)

lemma note_entries:
  "maps (fold (\<lambda>e. note_map_key (key_identity e) d) es rt) = maps rt"
  "references (fold (\<lambda>e. note_map_key (key_identity e) d) es rt) = references rt"
  "reference_owners (fold (\<lambda>e. note_map_key (key_identity e) d) es rt) = reference_owners rt"
  "iterators (fold (\<lambda>e. note_map_key (key_identity e) d) es rt) = iterators rt"
  "map_keys_ok rt \<Longrightarrow> map_keys_ok (fold (\<lambda>e. note_map_key (key_identity e) d) es rt)"
  by (induction es arbitrary: rt) (simp_all add: note_map_key_ok)

lemma note_entries_plus:
  "key_count (fold (\<lambda>e. note_map_key (key_identity e) 1) es rt) k
     = key_count rt k + length (filter (\<lambda>e. key_identity e = k) es)"
  by (induction es arbitrary: rt) (auto simp: note_map_key_count)

lemma note_entries_minus:
  "key_count (fold (\<lambda>e. note_map_key (key_identity e) (-1)) es rt) k
     = key_count rt k - length (filter (\<lambda>e. key_identity e = k) es)"
  by (induction es arbitrary: rt) (auto simp: note_map_key_count)

lemma key_total_update:
  "key_total (rt\<lparr>maps := AList.update m state (maps rt)\<rparr>) k
     + (case map_of (maps rt) m of None \<Rightarrow> 0 | Some old \<Rightarrow> count_key k old)
   = key_total rt k + count_key k state"
  unfolding key_total_def using sum_update [of "count_key k" m state "maps rt"] by simp

lemma key_total_delete:
  "maps_ok (maps rt) \<Longrightarrow>
   key_total (rt\<lparr>maps := AList.delete m (maps rt)\<rparr>) k
     + (case map_of (maps rt) m of None \<Rightarrow> 0 | Some old \<Rightarrow> count_key k old) = key_total rt k"
  unfolding key_total_def using sum_delete [of "maps rt" "count_key k" m] by (simp add: maps_ok_def)

lemma maps_ok_update:
  assumes "maps_ok ms" and "map_owner state = m" and "entries_ok (map_state_entries state)"
  shows "maps_ok (AList.update m state ms)"
  using assms set_update_subset [of m state ms] by (fastforce simp: maps_ok_def distinct_update)

lemma maps_ok_delete: "maps_ok ms \<Longrightarrow> maps_ok (AList.delete m ms)"
  using set_delete_subset [of m ms] by (fastforce simp: maps_ok_def distinct_delete)

lemma maps_ok_get:
  "maps_ok ms \<Longrightarrow> map_of ms m = Some state \<Longrightarrow> map_owner state = m \<and> entries_ok (map_state_entries state)"
  by (auto simp: maps_ok_def dest!: map_of_SomeD)


lemma key_count_maps [simp]:
  "key_count (rt\<lparr>maps := ms\<rparr>) k = key_count rt k" "map_keys_ok (rt\<lparr>maps := ms\<rparr>) = map_keys_ok rt"
  by (simp_all add: key_count_def map_keys_ok_def)

lemma key_total_note [simp]:
  "key_total (note_map_key key d rt) k = key_total rt k"
  "key_total (fold (\<lambda>e. note_map_key (key_identity e) d) es rt) k = key_total rt k"
  by (simp_all add: key_total_def note_entries)

lemma count_key_distinct:
  "entries_ok (map_state_entries state) \<Longrightarrow> e \<in> set (map_state_entries state) \<Longrightarrow> count_key (key_identity e) state = 1"
proof -
  have "distinct (map key_identity es) \<Longrightarrow> e \<in> set es \<Longrightarrow>
      length (filter (\<lambda>x. key_identity x = key_identity e) es) = 1" for es
  proof (induction es)
    case (Cons x es)
    then show ?case
      by (auto simp: filter_empty_conv image_iff)
  qed simp
  then show "entries_ok (map_state_entries state) \<Longrightarrow> e \<in> set (map_state_entries state) \<Longrightarrow> ?thesis"
    by (simp add: entries_ok_def count_key_def)
qed

subsection \<open>Updates of a map\<close>

text \<open>Storing new entries for one map, with the counter adjusted by the difference, keeps the
  invariant.\<close>

lemma put_entries_wf:
  assumes wf: "weak_wf rt" and es: "entries_ok es"
    and counts: "\<And>k. key_count rt' k + length (filter (\<lambda>e. key_identity e = k) (map_entries_of rt m))
                     = key_count rt k + length (filter (\<lambda>e. key_identity e = k) es)"
    and rt': "maps rt' = AList.update m \<lparr>map_owner = m, map_state_entries = es\<rparr> (maps rt)"
      "references rt' = references rt" "reference_owners rt' = reference_owners rt"
      "iterators rt' = iterators rt" "map_keys_ok rt'"
  shows "weak_wf rt'"
proof -
  let ?s = "\<lparr>map_owner = m, map_state_entries = es\<rparr>"
  have total: "key_total rt' k + length (filter (\<lambda>e. key_identity e = k) (map_entries_of rt m))
      = key_total rt k + length (filter (\<lambda>e. key_identity e = k) es)" for k
    using key_total_update [of m ?s rt k] rt'(1)
    by (simp add: key_total_def count_key_def map_entries_of_def split: option.splits)
  have "key_count rt' k = key_total rt' k" for k
    using total [of k] counts [of k] wf by (simp add: weak_wf_def)
  with wf es rt' show ?thesis
    by (simp add: weak_wf_def maps_ok_update)
qed

lemma new_map_wf:
  assumes "weak_wf rt" and "map_of (maps rt) i = None"
  shows "weak_wf (rt\<lparr>maps := AList.update i \<lparr>map_owner = i, map_state_entries = []\<rparr> (maps rt)\<rparr>)"
proof (rule put_entries_wf [OF assms(1), where es = "[]" and m = i])
  show "map_keys_ok (rt\<lparr>maps := AList.update i \<lparr>map_owner = i, map_state_entries = []\<rparr> (maps rt)\<rparr>)"
    using assms(1) by (simp add: weak_wf_def)
qed (simp_all add: entries_ok_def map_entries_of_def assms(2))

lemma ensure_map_wf:
  assumes "weak_wf rt" and "ensure_map m rt = (r, rt')"
  shows "weak_wf rt'" and "\<And>i. r = Some i \<Longrightarrow> m = ObjectV i \<and> map_of (maps rt') i \<noteq> None"
    and "map_entries_of rt' = map_entries_of rt"
proof -
  show "weak_wf rt'"
  proof (cases "object_identity m")
    case (Some i)
    with assms new_map_wf [OF assms(1), of i] show ?thesis
      by (cases "map_of (maps rt) i") (simp_all add: ensure_map_def)
  qed (use assms in \<open>simp add: ensure_map_def\<close>)
  show "m = ObjectV i \<and> map_of (maps rt') i \<noteq> None" if "r = Some i" for i
    using that assms(2) by (cases m) (auto simp: ensure_map_def split: if_splits)
  show "map_entries_of rt' = map_entries_of rt"
    using assms(2)
    by (auto simp: ensure_map_def map_entries_of_def fun_eq_iff split: option.splits if_splits)
qed

lemma entry_cell_owned: "is_owned_reference (fst (entry_cell new_id v h))"
  by (simp add: entry_cell_def owned_reference_def)

lemma map_entries_of_ok: "weak_wf rt \<Longrightarrow> entries_ok (map_entries_of rt m)"
  by (auto simp: weak_wf_def map_entries_of_def entries_ok_def [of "[]"] dest: maps_ok_get split: option.splits)

lemma map_owner_of:
  "weak_wf rt \<Longrightarrow> (case map_of (maps rt) i of Some s \<Rightarrow> map_owner s | None \<Rightarrow> i) = i"
  by (auto simp: weak_wf_def dest: maps_ok_get split: option.splits)

lemma weak_object_owner_identity:
  "weak_object_identity key = Some k \<Longrightarrow> weak_object_owner key = Some w \<Longrightarrow> weak_identity w = k"
  by (cases key) auto

lemma entries_ok_update:
  assumes "entries_ok es" and "at < length es" and "key_identity e = key_identity (es ! at)" and "entry_ok e"
  shows "entries_ok (es[at := e])" and "map key_identity (es[at := e]) = map key_identity es"
proof -
  show ids: "map key_identity (es[at := e]) = map key_identity es"
    using assms(2,3) by (simp add: map_update list_update_same_conv)
  show "entries_ok (es[at := e])"
    using assms ids set_update_subset_insert [of es at e]
    by (auto simp: entries_ok_def list_all_iff)
qed

lemma filter_key_length:
  "map key_identity es = map key_identity fs \<Longrightarrow>
   length (filter (\<lambda>e. key_identity e = k) es) = length (filter (\<lambda>e. key_identity e = k) fs)"
proof -
  have "length (filter (\<lambda>e. key_identity e = k) xs) = length (filter (\<lambda>i. i = k) (map key_identity xs))" for xs
    by (induction xs) auto
  then show "map key_identity es = map key_identity fs \<Longrightarrow> ?thesis" by metis
qed

text \<open>What \<open>map_set\<close> does once it is given a map and a key.\<close>

definition set_entry :: "nat \<Rightarrow> weak_php_object \<Rightarrow> pvalue \<Rightarrow> pvalue \<Rightarrow> weak_map_entry list \<Rightarrow> weak_map_entry list" where
  "set_entry k w v cell entries =
     (case Prelude.position (\<lambda>e. key_identity e = k) entries of
        Some at \<Rightarrow> entries[at := (entries ! at)\<lparr>entry_value := cell,
                     exposed_reference := (if is_owned_reference v then exposed_reference (entries ! at) else False)\<rparr>]
      | None \<Rightarrow> entries @ [\<lparr>key_identity = k, entry_key = w, entry_value = cell, exposed_reference = False\<rparr>])"

lemma put_entries_maps:
  assumes "weak_wf rt" and "map_of (maps rt) m \<noteq> None"
  shows "maps (put_entries m es rt) = AList.update m \<lparr>map_owner = m, map_state_entries = es\<rparr> (maps rt)"
proof -
  from assms obtain state where state: "map_of (maps rt) m = Some state" "map_owner state = m"
    by (auto simp: weak_wf_def dest: maps_ok_get)
  then show ?thesis by (cases state) (simp add: put_entries_def)
qed

lemma put_entries_fields [simp]:
  "references (put_entries m es rt) = references rt"
  "reference_owners (put_entries m es rt) = reference_owners rt"
  "iterators (put_entries m es rt) = iterators rt" "map_keys (put_entries m es rt) = map_keys rt"
  "key_count (put_entries m es rt) k = key_count rt k" "map_keys_ok (put_entries m es rt) = map_keys_ok rt"
  by (simp_all add: put_entries_def key_count_def map_keys_ok_def split: option.splits)

lemma map_set_eq:
  assumes "weak_wf rt" and "weak_object_identity key = Some k" and "weak_object_owner key = Some w"
    and "ensure_map (ObjectV i) rt = (Some i, rt1)" and "entry_cell new_id v h = (cell, h')"
  shows "map_set new_id (ObjectV i) key v h rt =
    (True, h', (if k \<in> set (map key_identity (map_entries_of rt i)) then id else note_map_key k 1)
       (put_entries i (set_entry k w v cell (map_entries_of rt i)) rt1))"
proof -
  have ents: "map_entries_of rt1 = map_entries_of rt"
    using ensure_map_wf [OF assms(1,4)] by simp
  show ?thesis
  proof (cases "Prelude.position (\<lambda>e. key_identity e = k) (map_entries_of rt i)")
    case None
    then have "k \<notin> set (map key_identity (map_entries_of rt i))" by (auto simp: position_None)
    with None show ?thesis
      using assms(2-5) by (simp add: map_set_def ents set_entry_def Let_def)
  next
    case (Some at)
    from position_SomeD [OF this] have "k \<in> set (map key_identity (map_entries_of rt i))"
      by (metis (mono_tags, lifting) image_eqI list.set_map nth_mem)
    with Some show ?thesis
      using assms(2-5) by (simp add: map_set_def ents set_entry_def Let_def)
  qed
qed

lemma set_entry_ok:
  assumes es: "entries_ok es" and "weak_identity w = k" and "is_owned_reference cell"
  shows "entries_ok (set_entry k w v cell es)"
    and "length (filter (\<lambda>e. key_identity e = j) (set_entry k w v cell es)) =
      length (filter (\<lambda>e. key_identity e = j) es) + (if j = k \<and> k \<notin> set (map key_identity es) then 1 else 0)"
proof -
  have "entries_ok (set_entry k w v cell es) \<and>
    length (filter (\<lambda>e. key_identity e = j) (set_entry k w v cell es)) =
      length (filter (\<lambda>e. key_identity e = j) es) + (if j = k \<and> k \<notin> set (map key_identity es) then 1 else 0)"
  proof (cases "Prelude.position (\<lambda>e. key_identity e = k) es")
    case None
    then have "k \<notin> set (map key_identity es)" by (auto simp: position_None)
    with None assms show ?thesis
      by (auto simp: set_entry_def entries_ok_def entry_ok_def)
  next
    case (Some at)
    let ?e = "(es ! at)\<lparr>entry_value := cell,
        exposed_reference := (if is_owned_reference v then exposed_reference (es ! at) else False)\<rparr>"
    from position_SomeD [OF Some] have at: "at < length es" "key_identity (es ! at) = k" by auto
    then have mem: "k \<in> set (map key_identity es)" by (metis image_eqI list.set_map nth_mem)
    have "entry_ok (es ! at)" using es at by (simp add: entries_ok_def list_all_length)
    then have "entry_ok ?e" using assms(3) by (simp add: entry_ok_def)
    from entries_ok_update [OF es at(1) _ this] have
      up: "entries_ok (es[at := ?e])" "map key_identity (es[at := ?e]) = map key_identity es"
      using at(2) by simp_all
    from filter_key_length [OF up(2), of j] up(1) Some mem show ?thesis by (simp add: set_entry_def)
  qed
  then show "entries_ok (set_entry k w v cell es)"
    and "length (filter (\<lambda>e. key_identity e = j) (set_entry k w v cell es)) =
      length (filter (\<lambda>e. key_identity e = j) es) + (if j = k \<and> k \<notin> set (map key_identity es) then 1 else 0)"
    by auto
qed

lemma map_set_wf:
  assumes wf: "weak_wf rt" and res: "map_set new_id m key v h rt = (ok, h', rt')"
  shows "weak_wf rt'"
proof -
  obtain r rt1 where em: "ensure_map m rt = (r, rt1)" by force
  note e = ensure_map_wf [OF wf em]
  show ?thesis
  proof (cases "r = None \<or> weak_object_identity key = None \<or> weak_object_owner key = None")
    case True
    then have "rt' = rt1" using res em by (auto simp: map_set_def split: option.splits)
    with e(1) show ?thesis by simp
  next
    case False
    then obtain i k w where ikw: "r = Some i" "weak_object_identity key = Some k" "weak_object_owner key = Some w"
      by auto
    from e(2) [OF ikw(1)] have m: "m = ObjectV i" "map_of (maps rt1) i \<noteq> None" by auto
    obtain cell h1 where cell: "entry_cell new_id v h = (cell, h1)" by force
    have owned: "is_owned_reference cell" using entry_cell_owned [of new_id v h] cell by simp
    let ?es = "map_entries_of rt i"
    have rt': "rt' = (if k \<in> set (map key_identity ?es) then id else note_map_key k 1)
       (put_entries i (set_entry k w v cell ?es) rt1)"
      using res map_set_eq [OF wf ikw(2,3) _ cell, of i rt1] em m ikw(1) by simp
    have es_ok: "entries_ok ?es" using wf by (rule map_entries_of_ok)
    note se = set_entry_ok [OF es_ok weak_object_owner_identity [OF ikw(2,3)] owned]
    have ents: "map_entries_of rt1 i = ?es" using e(3) by simp
    show ?thesis
    proof (rule put_entries_wf [OF e(1) se(1)])
      show "key_count rt' j + length (filter (\<lambda>e. key_identity e = j) (map_entries_of rt1 i))
          = key_count rt1 j + length (filter (\<lambda>e. key_identity e = j) (set_entry k w v cell ?es))" for j
        unfolding se(2) ents rt' by (auto simp: note_map_key_count)
      show "map_keys_ok rt'" using e(1) unfolding rt' by (simp add: weak_wf_def note_map_key_ok)
    qed (use put_entries_maps [OF e(1) m(2)] in \<open>simp_all add: rt'\<close>)
  qed
qed


lemma length_filter_vec_remove:
  "at < length es \<Longrightarrow>
   length (filter P (vec_remove at es)) + (if P (es ! at) then 1 else 0) = length (filter P es)"
proof -
  assume at: "at < length es"
  have "filter P es = filter P (take at es) @ filter P (drop at es)"
    by (metis append_take_drop_id filter_append)
  also have "drop at es = es ! at # drop (Suc at) es" using at by (simp add: Cons_nth_drop_Suc)
  finally show ?thesis by (simp add: vec_remove_def)
qed

lemma entries_ok_vec_remove: "entries_ok es \<Longrightarrow> entries_ok (vec_remove at es)"
proof -
  assume es: "entries_ok es"
  have "set (vec_remove at es) \<subseteq> set es"
    using set_take_subset [of at es] set_drop_subset [of "Suc at" es] by (auto simp: vec_remove_def)
  moreover have "map key_identity (vec_remove at es) = vec_remove at (map key_identity es)"
    by (simp add: vec_remove_def take_map drop_map)
  ultimately show ?thesis using es distinct_vec_remove [of "map key_identity es" at]
    by (auto simp: entries_ok_def list_all_iff)
qed

lemma count_key_le_total:
  "map_of (maps rt) m = Some state \<Longrightarrow> count_key k state \<le> key_total rt k"
  unfolding key_total_def by (rule member_le_sum_list) (force dest: map_of_SomeD)+

lemma map_remove_wf:
  assumes wf: "weak_wf rt" and res: "map_remove m key rt = (r, rt')"
  shows "weak_wf rt'"
proof (cases "map_of (maps rt) m")
  case (Some state)
  let ?es = "map_state_entries state"
  have st: "map_owner state = m" "entries_ok ?es" using wf Some by (auto simp: weak_wf_def dest: maps_ok_get)
  show ?thesis
  proof (cases "Prelude.position (\<lambda>e. key_identity e = key) ?es")
    case None
    with res Some wf show ?thesis by (simp add: map_remove_def)
  next
    case (Some at)
    from position_SomeD [OF this] have at: "at < length ?es" "key_identity (?es ! at) = key" by auto
    let ?rt1 = "rt\<lparr>maps := AList.update m (state\<lparr>map_state_entries := vec_remove at ?es\<rparr>) (maps rt)\<rparr>"
    have rt': "rt' = note_map_key key (-1) ?rt1"
      using res Some \<open>map_of (maps rt) m = Some state\<close> by (simp add: map_remove_def)
    have ents: "map_entries_of rt m = ?es" using \<open>map_of (maps rt) m = Some state\<close> by (simp add: map_entries_of_def)
    have "count_key key state = 1" using count_key_distinct [OF st(2) nth_mem [OF at(1)]] at(2) by simp
    then have pos: "0 < key_count rt key"
      using count_key_le_total [OF \<open>map_of (maps rt) m = Some state\<close>, of key] wf by (simp add: weak_wf_def)
    show ?thesis
    proof (rule put_entries_wf [OF wf entries_ok_vec_remove [OF st(2)], where m = m])
      show "key_count rt' j + length (filter (\<lambda>e. key_identity e = j) (map_entries_of rt m))
          = key_count rt j + length (filter (\<lambda>e. key_identity e = j) (vec_remove at ?es))" for j
        using length_filter_vec_remove [OF at(1), of "\<lambda>e. key_identity e = j"] at(2) pos
        by (auto simp: rt' ents note_map_key_count)
      show "map_keys_ok rt'" using wf by (simp add: rt' weak_wf_def note_map_key_ok)
      show "maps rt' = AList.update m \<lparr>map_owner = m, map_state_entries = vec_remove at ?es\<rparr> (maps rt)"
        using st(1) by (cases state) (simp add: rt')
    qed (simp_all add: rt')
  qed
qed (use assms in \<open>simp add: map_remove_def\<close>)

lemma clone_entries_spec:
  assumes "clone_entries new_id strong internal es h = (cs, h')"
  shows "map key_identity cs = map key_identity (filter (\<lambda>e. weak_strong_count strong (entry_key e) \<noteq> 0) es)"
    and "list_all entry_ok es \<Longrightarrow> list_all entry_ok cs"
proof -
  have "map key_identity cs = map key_identity (filter (\<lambda>e. weak_strong_count strong (entry_key e) \<noteq> 0) es)
    \<and> (list_all entry_ok es \<longrightarrow> list_all entry_ok cs)"
    using assms
  proof (induction es arbitrary: h cs h')
    case (Cons e es)
    show ?case
    proof (cases "weak_strong_count strong (entry_key e) = 0")
      case False
      obtain cell h1 where c: "(if owned_reference_is_aliased strong internal (entry_value e) then (entry_value e, h)
          else owned_reference new_id (dereferenced h (entry_value e)) h) = (cell, h1)" by force
      obtain ds h2 where d: "clone_entries new_id strong internal es h1 = (ds, h2)" by force
      have cs: "cs = e\<lparr>entry_value := cell\<rparr> # ds"
        using Cons.prems False c d by (simp split: if_splits)
      have "is_owned_reference (entry_value e) \<longrightarrow> is_owned_reference cell"
        using c by (auto simp: owned_reference_def split: if_splits)
      with Cons.IH [OF d] cs False show ?thesis by (auto simp: entry_ok_def)
    qed (use Cons in auto)
  qed simp
  then show "map key_identity cs = map key_identity (filter (\<lambda>e. weak_strong_count strong (entry_key e) \<noteq> 0) es)"
    and "list_all entry_ok es \<Longrightarrow> list_all entry_ok cs" by auto
qed

lemma clone_map_wf:
  assumes wf: "weak_wf rt" and res: "clone_map new_id strong internal source target h rt = (h', rt')"
  shows "weak_wf rt'"
proof (cases "object_identity source = None \<or> object_identity target = None")
  case False
  then obtain s t where st: "object_identity source = Some s" "object_identity target = Some t" by auto
  obtain cs h1 where c: "clone_entries new_id strong internal (map_entries_of rt s) h = (cs, h1)" by force
  let ?prev = "map_entries_of rt t"
  let ?rt1 = "fold (\<lambda>e. note_map_key (key_identity e) 1) cs rt"
  let ?rt2 = "?rt1\<lparr>maps := AList.update t \<lparr>map_owner = t, map_state_entries = cs\<rparr> (maps ?rt1)\<rparr>"
  have rt': "rt' = fold (\<lambda>e. note_map_key (key_identity e) (-1)) ?prev ?rt2"
    using res st c by (auto simp: clone_map_def Let_def map_entries_of_def note_entries split: option.splits)
  have "distinct (map key_identity cs)"
    using clone_entries_spec(1) [OF c] map_entries_of_ok [OF wf, of s]
    by (simp add: entries_ok_def distinct_map_filter)
  then have cs: "entries_ok cs"
    using clone_entries_spec(2) [OF c] map_entries_of_ok [OF wf, of s] by (simp add: entries_ok_def)
  have le: "length (filter (\<lambda>e. key_identity e = k) ?prev) \<le> key_count rt k" for k
  proof (cases "map_of (maps rt) t")
    case (Some state)
    with count_key_le_total [OF this, of k] wf show ?thesis
      by (simp add: map_entries_of_def count_key_def weak_wf_def)
  qed (simp add: map_entries_of_def)
  show ?thesis
  proof (rule put_entries_wf [OF wf cs, where m = t])
    show "key_count rt' j + length (filter (\<lambda>e. key_identity e = j) ?prev)
        = key_count rt j + length (filter (\<lambda>e. key_identity e = j) cs)" for j
      using le [of j] by (simp add: rt' note_entries_minus note_entries_plus)
    show "map_keys_ok rt'" using wf by (simp add: rt' weak_wf_def note_entries)
  qed (simp_all add: rt' note_entries)
qed (use assms in \<open>auto simp: clone_map_def split: option.splits\<close>)


subsection \<open>References and iterators\<close>

lemma refs_okD:
  assumes "refs_ok refs owners" and "map_of refs t = Some state"
  shows "(t, state) \<in> set refs" and "wr_owner_identity state \<in> owners"
    and "\<And>u st. (u, st) \<in> set refs \<Longrightarrow> wr_owner_identity st = wr_owner_identity state \<Longrightarrow> u = t"
proof -
  show mem: "(t, state) \<in> set refs" using assms(2) by (rule map_of_SomeD)
  then show "wr_owner_identity state \<in> owners" using assms(1) by (force simp: refs_ok_def)
  have "inj_on (wr_owner_identity \<circ> snd) (set refs)"
    using assms(1) by (simp add: refs_ok_def distinct_map)
  then show "(u, st) \<in> set refs \<Longrightarrow> wr_owner_identity st = wr_owner_identity state \<Longrightarrow> u = t" for u st
    using inj_onD [of "wr_owner_identity \<circ> snd" "set refs" "(u, st)" "(t, state)"] mem by simp
qed

lemma refs_ok_filter:
  assumes "refs_ok refs owners"
  shows "refs_ok (filter P refs) (set (map (wr_owner_identity \<circ> snd) (filter P refs)))"
  using assms by (auto simp: refs_ok_def distinct_map_filter)

lemma refs_ok_delete:
  assumes "refs_ok refs owners" and "map_of refs t = Some state"
  shows "refs_ok (AList.delete t refs) (owners - {wr_owner_identity state})"
proof -
  have "set (map (wr_owner_identity \<circ> snd) (AList.delete t refs)) = owners - {wr_owner_identity state}"
  proof (rule set_eqI)
    fix x
    have dist: "distinct (map fst refs)" and owners: "owners = set (map (wr_owner_identity \<circ> snd) refs)"
      using assms(1) by (simp_all add: refs_ok_def)
    have "x \<in> set (map (wr_owner_identity \<circ> snd) (AList.delete t refs))
        \<longleftrightarrow> (\<exists>u st. (u, st) \<in> set refs \<and> u \<noteq> t \<and> x = wr_owner_identity st)"
      by (force simp: AList.delete_eq)
    also have "\<dots> \<longleftrightarrow> (\<exists>u st. (u, st) \<in> set refs \<and> x = wr_owner_identity st) \<and> x \<noteq> wr_owner_identity state"
      using refs_okD(1,3) [OF assms] assms(2) map_of_is_SomeI [OF dist] by (metis option.inject)
    also have "\<dots> \<longleftrightarrow> x \<in> owners - {wr_owner_identity state}" by (force simp: owners)
    finally show "x \<in> set (map (wr_owner_identity \<circ> snd) (AList.delete t refs))
        \<longleftrightarrow> x \<in> owners - {wr_owner_identity state}" .
  qed
  with refs_ok_filter [OF assms(1), of "\<lambda>(k', _). t \<noteq> k'"] show ?thesis
    by (simp only: AList.delete_eq)
qed

lemma refs_ok_update_new:
  assumes ok: "refs_ok refs owners" and "map_of refs t = None" and "i \<notin> owners" and "weak_identity w = t"
  shows "refs_ok (AList.update t \<lparr>wr_owner_identity = i, wr_owner = i, wr_target = w, wr_cleared = False\<rparr> refs)
           (insert i owners)"
proof -
  have "t \<notin> fst ` set refs" using assms(2) by (simp add: map_of_eq_None_iff)
  then have "AList.update t st refs = refs @ [(t, st)]" for st
    by (induction refs) auto
  with assms \<open>t \<notin> fst ` set refs\<close> show ?thesis by (auto simp: refs_ok_def)
qed

lemma update_via_delete:
  "distinct (map fst refs) \<Longrightarrow> map_of refs t = Some old \<Longrightarrow>
   mset (AList.update t st refs) = mset ((t, st) # AList.delete t refs)"
proof (induction refs)
  case (Cons p refs)
  show ?case
  proof (cases "fst p = t")
    case True
    with Cons.prems have "t \<notin> fst ` set refs" by auto
    then have "AList.delete t refs = refs" by (force simp: AList.delete_eq filter_id_conv)
    with True show ?thesis by (cases p) simp
  qed (use Cons in \<open>cases p; simp\<close>)
qed simp

lemma refs_ok_mset:
  assumes "mset refs = mset refs'" and "refs_ok refs owners"
  shows "refs_ok refs' owners"
proof -
  have "mset (map f refs) = mset (map f refs')" for f :: "nat \<times> weak_reference_state \<Rightarrow> nat"
    using assms(1) by simp
  then have "distinct (map f refs) = distinct (map f refs')" for f :: "nat \<times> weak_reference_state \<Rightarrow> nat"
    by (rule mset_eq_imp_distinct_iff)
  moreover have "set refs = set refs'" using assms(1) by (rule mset_eq_setD)
  ultimately show ?thesis using assms(2) by (simp add: refs_ok_def)
qed

lemma refs_ok_update_old:
  assumes ok: "refs_ok refs owners" and old: "map_of refs t = Some state"
    and i: "i \<notin> owners - {wr_owner_identity state}" and "weak_identity w = t"
  shows "refs_ok (AList.update t \<lparr>wr_owner_identity = i, wr_owner = i, wr_target = w, wr_cleared = c\<rparr> refs)
           (insert i (owners - {wr_owner_identity state}))"
proof (rule refs_ok_mset [OF update_via_delete [symmetric]])
  show "distinct (map fst refs)" using ok by (simp add: refs_ok_def)
  show "map_of refs t = Some state" by (rule old)
  have "t \<notin> fst ` set (AList.delete t refs)" by (auto simp: AList.delete_eq)
  with refs_ok_delete [OF ok old] assms(3,4)
  show "refs_ok ((t, \<lparr>wr_owner_identity = i, wr_owner = i, wr_target = w, wr_cleared = c\<rparr>) # AList.delete t refs)
      (insert i (owners - {wr_owner_identity state}))"
    by (auto simp: refs_ok_def)
qed

lemma weak_wf_refs:
  "weak_wf rt \<Longrightarrow> refs_ok refs owners \<Longrightarrow> weak_wf (rt\<lparr>references := refs, reference_owners := owners\<rparr>)"
  by (simp add: weak_wf_def map_keys_ok_def key_count_def key_total_def)

text \<open>A \<open>WeakReference\<close> is registered once, for one target: its owner is new to the runtime.\<close>

lemma register_reference_wf:
  assumes wf: "weak_wf rt" and new: "\<And>i. object_identity owner = Some i \<Longrightarrow> i \<notin> reference_owners rt"
  shows "weak_wf (snd (register_reference owner target rt))"
proof (cases "object_identity owner = None \<or> weak_object_identity target = None \<or> weak_object_owner target = None")
  case False
  then obtain i t w where itw: "object_identity owner = Some i" "weak_object_identity target = Some t"
    "weak_object_owner target = Some w" by auto
  have ok: "refs_ok (references rt) (reference_owners rt)" using wf by (simp add: weak_wf_def)
  have w: "weak_identity w = t" using itw by (simp add: weak_object_owner_identity)
  show ?thesis
  proof (cases "map_of (references rt) t")
    case None
    from weak_wf_refs [OF wf refs_ok_update_new [OF ok None new [OF itw(1)] w]] None itw show ?thesis
      by (simp add: register_reference_def Let_def)
  next
    case (Some state)
    have "i \<notin> reference_owners rt - {wr_owner_identity state}" using new [OF itw(1)] by simp
    from weak_wf_refs [OF wf refs_ok_update_old [OF ok Some this w]] Some itw show ?thesis
      by (simp add: register_reference_def Let_def)
  qed
qed (use wf in \<open>auto simp: register_reference_def split: option.splits\<close>)

lemma reference_for_target_wf:
  assumes wf: "weak_wf rt"
  shows "weak_wf (snd (reference_for_target strong t rt))"
proof (cases "map_of (references rt) t")
  case (Some state)
  have "refs_ok (references rt) (reference_owners rt)" using wf by (simp add: weak_wf_def)
  from weak_wf_refs [OF wf refs_ok_delete [OF this Some]] Some wf show ?thesis
    by (simp add: reference_for_target_def)
qed (use wf in \<open>simp add: reference_for_target_def\<close>)

lemma iters_ok_update:
  "iters_ok its \<Longrightarrow> iter_owner it = i \<Longrightarrow> object_identity (iter_map it) \<noteq> None \<Longrightarrow> iters_ok (AList.update i it its)"
  using set_update_subset [of i it its] by (fastforce simp: iters_ok_def distinct_update)

lemma weak_wf_iters: "weak_wf rt \<Longrightarrow> iters_ok its \<Longrightarrow> weak_wf (rt\<lparr>iterators := its\<rparr>)"
  by (simp add: weak_wf_def map_keys_ok_def key_count_def key_total_def)

lemma iters_ok_get:
  "weak_wf rt \<Longrightarrow> map_of (iterators rt) i = Some it \<Longrightarrow> iter_owner it = i \<and> object_identity (iter_map it) \<noteq> None"
  by (auto simp: weak_wf_def iters_ok_def dest!: map_of_SomeD)

lemma iterator_change_wf:
  assumes "weak_wf rt" and "map_of (iterators rt) i = Some it" and "iter_owner it' = iter_owner it" and "iter_map it' = iter_map it"
  shows "weak_wf (rt\<lparr>iterators := AList.update i it' (iterators rt)\<rparr>)"
  using iters_ok_get [OF assms(1,2)] assms by (intro weak_wf_iters iters_ok_update) (auto simp: weak_wf_def)

lemma iterator_ops_wf:
  assumes "weak_wf rt"
  shows "weak_wf (iterator_rewind i rt)" "weak_wf (iterator_next i rt)" "weak_wf (enable_iterator_references i rt)"
  using assms
  by (auto simp: iterator_rewind_def iterator_next_def enable_iterator_references_def
      split: option.splits intro!: iterator_change_wf [OF assms])

lemma register_iterator_wf:
  assumes "weak_wf rt"
  shows "weak_wf (snd (register_iterator strong iterator m rt))"
proof -
  have "iters_ok (iterators rt)" using assms by (simp add: weak_wf_def)
  then show ?thesis using assms
    by (auto simp: register_iterator_def Let_def split: option.splits
        intro!: weak_wf_iters iters_ok_update)
qed

lemma iterator_entry_wf: "weak_wf rt \<Longrightarrow> weak_wf (snd (iterator_entry strong i rt))"
proof (induction strong i rt rule: iterator_entry.induct)
  case (1 strong i rt)
  then show ?case
    by (subst iterator_entry.simps) (simp split: option.splits add: iterator_ops_wf)
qed


lemma expose_entry_wf:
  assumes wf: "weak_wf rt" and st: "map_of (maps rt) m = Some state" and at: "at < length (map_state_entries state)"
  shows "weak_wf (rt\<lparr>maps := AList.update m (state\<lparr>map_state_entries :=
     (map_state_entries state)[at := (map_state_entries state ! at)\<lparr>exposed_reference := True\<rparr>]\<rparr>) (maps rt)\<rparr>)"
    (is "weak_wf ?rt")
proof -
  let ?es = "map_state_entries state" and ?e = "(map_state_entries state ! at)\<lparr>exposed_reference := True\<rparr>"
  have ok: "map_owner state = m" "entries_ok ?es" using wf st by (auto simp: weak_wf_def dest: maps_ok_get)
  then have "entry_ok (?es ! at)" using at by (simp add: entries_ok_def list_all_length)
  then have "entry_ok ?e" by (simp add: entry_ok_def)
  from entries_ok_update [OF ok(2) at _ this]
  have up: "entries_ok (?es[at := ?e])" "map key_identity (?es[at := ?e]) = map key_identity ?es" by simp_all
  show ?thesis
  proof (rule put_entries_wf [OF wf up(1), where m = m])
    show "key_count ?rt k + length (filter (\<lambda>e. key_identity e = k) (map_entries_of rt m))
        = key_count rt k + length (filter (\<lambda>e. key_identity e = k) (?es[at := ?e]))" for k
      using filter_key_length [OF up(2), of k] st by (simp add: map_entries_of_def)
    show "map_keys_ok ?rt" using wf by (simp add: weak_wf_def)
    show "maps ?rt = AList.update m \<lparr>map_owner = m, map_state_entries = ?es[at := ?e]\<rparr> (maps rt)"
      using ok(1) by (cases state) simp
  qed simp_all
qed

lemma iterator_value_wf:
  assumes "weak_wf rt"
  shows "weak_wf (snd (iterator_value strong i rt))"
proof -
  obtain r rt1 where e: "iterator_entry strong i rt = (r, rt1)" by force
  have wf1: "weak_wf rt1" using iterator_entry_wf [OF assms, of strong i] e by simp
  then show ?thesis using expose_entry_wf [OF wf1]
    by (auto simp: iterator_value_def e Let_def split: option.splits dest: position_SomeD)
qed

lemma iterator_key_wf: "weak_wf rt \<Longrightarrow> weak_wf (snd (iterator_key strong i rt))"
  using iterator_entry_wf [of rt strong i]
  by (auto simp: iterator_key_def split: option.splits prod.splits)

subsection \<open>Releases\<close>

text \<open>The handles the sidecars own: the values of the map entries and the maps of the iterators.\<close>

definition stored_handles :: "weak_runtime \<Rightarrow> pvalue multiset" where
  "stored_handles rt =
     sum_list (map ((\<lambda>state. mset (map entry_value (map_state_entries state))) \<circ> snd) (maps rt))
     + mset (map (iter_map \<circ> snd) (iterators rt))"

lemma clear_reference_wf:
  assumes wf: "weak_wf rt"
  shows "weak_wf (clear_reference i rt)"
proof (cases "map_of (references rt) i")
  case (Some state)
  have ok: "refs_ok (references rt) (reference_owners rt)" using wf by (simp add: weak_wf_def)
  have own: "wr_owner state = wr_owner_identity state" "weak_identity (wr_target state) = i"
    "wr_owner_identity state \<in> reference_owners rt"
    using ok refs_okD(1,2) [OF ok Some] by (auto simp: refs_ok_def)
  have "refs_ok (AList.update i (state\<lparr>wr_cleared := True\<rparr>) (references rt)) (reference_owners rt)"
    using refs_ok_update_old [OF ok Some, of "wr_owner_identity state" "wr_target state" True] own
    by (cases state) (simp add: insert_absorb)
  from weak_wf_refs [OF wf this] Some show ?thesis by (simp add: clear_reference_def)
qed (use wf in \<open>simp add: clear_reference_def\<close>)

lemma clear_reference_fields [simp]:
  "maps (clear_reference i rt) = maps rt" "iterators (clear_reference i rt) = iterators rt"
  "reference_owners (clear_reference i rt) = reference_owners rt"
  by (simp_all add: clear_reference_def split: option.splits)

lemma maps_ok_filter:
  "maps_ok ms \<Longrightarrow>
   maps_ok (map (\<lambda>(m, state). (m, state\<lparr>map_state_entries := filter P (map_state_entries state)\<rparr>)) ms)"
  by (auto simp: maps_ok_def comp_def case_prod_unfold entries_ok_def distinct_map_filter list_all_iff)

lemma sum_filter_keys:
  "sum_list (map (count_key k \<circ> snd)
     (map (\<lambda>(m, state). (m, state\<lparr>map_state_entries := filter (\<lambda>e. key_identity e \<noteq> i) (map_state_entries state)\<rparr>)) ms))
   = (if k = i then 0 else sum_list (map (count_key k \<circ> snd) ms))"
proof -
  have "count_key k (state\<lparr>map_state_entries := filter (\<lambda>e. key_identity e \<noteq> i) (map_state_entries state)\<rparr>)
      = (if k = i then 0 else count_key k state)" for state
    by (auto simp: count_key_def intro!: arg_cong [of _ _ length] filter_cong)
  then show ?thesis by (induction ms) auto
qed

lemma release_key_wf:
  assumes wf: "weak_wf rt" and res: "release_key i rt = (vs, rt')"
  shows "weak_wf rt'"
proof (cases "map_of (map_keys rt) i")
  case (Some n)
  let ?ms = "map (\<lambda>(m, state). (m, state\<lparr>map_state_entries := filter (\<lambda>e. key_identity e \<noteq> i) (map_state_entries state)\<rparr>)) (maps rt)"
  have rt': "rt' = rt\<lparr>maps := ?ms, map_keys := AList.delete i (map_keys rt)\<rparr>"
    using res Some by (simp add: release_key_def)
  have "key_count rt' k = key_total rt' k" for k
    using wf sum_filter_keys [of k i "maps rt"]
    by (simp add: rt' key_count_def key_total_def weak_wf_def)
  moreover have "map_keys_ok rt'" using wf keys_ok_delete [of rt i] by (simp add: rt' weak_wf_def map_keys_ok_def)
  moreover have "maps_ok ?ms" using wf by (simp add: weak_wf_def maps_ok_filter)
  ultimately show ?thesis using wf by (simp add: weak_wf_def rt')
qed (use assms in \<open>simp add: release_key_def\<close>)

lemma no_entries_without_key:
  assumes wf: "weak_wf rt" and "map_of (map_keys rt) i = None" and "(m, state) \<in> set (maps rt)"
    and "e \<in> set (map_state_entries state)"
  shows "key_identity e \<noteq> i"
proof
  assume "key_identity e = i"
  have "map_of (maps rt) m = Some state"
    using assms(1,3) by (simp add: weak_wf_def maps_ok_def)
  moreover have "key_total rt i = key_count rt i" using wf by (simp add: weak_wf_def)
  moreover have "key_count rt i = 0" using assms(2) by (simp add: key_count_def)
  ultimately have "count_key i state = 0" using count_key_le_total [of rt m state i] by simp
  with assms(4) \<open>key_identity e = i\<close> show False by (auto simp: count_key_def filter_empty_conv)
qed

lemma release_key_spec:
  assumes wf: "weak_wf rt" and res: "release_key i rt = (vs, rt')"
  shows "mset vs + stored_handles rt' = stored_handles rt"
    and "\<And>m state e. (m, state) \<in> set (maps rt') \<Longrightarrow> e \<in> set (map_state_entries state) \<Longrightarrow> key_identity e \<noteq> i"
    and "iterators rt' = iterators rt" and "references rt' = references rt"
    and "reference_owners rt' = reference_owners rt" and "map fst (maps rt') = map fst (maps rt)"
proof -
  have "mset (concat (map (\<lambda>(_, state). map entry_value (filter (\<lambda>e. key_identity e = i) (map_state_entries state))) ms))
      + sum_list (map ((\<lambda>state. mset (map entry_value (map_state_entries state))) \<circ> snd)
          (map (\<lambda>(m, state). (m, state\<lparr>map_state_entries := filter (\<lambda>e. key_identity e \<noteq> i) (map_state_entries state)\<rparr>)) ms))
      = sum_list (map ((\<lambda>state. mset (map entry_value (map_state_entries state))) \<circ> snd) ms)" for ms
  proof -
    have parts: "mset (map entry_value (filter (\<lambda>e. key_identity e = i) es))
        + mset (map entry_value (filter (\<lambda>e. key_identity e \<noteq> i) es)) = mset (map entry_value es)" for es
      by (induction es) auto
    have "mset (concat (map (\<lambda>(_, state). map entry_value (filter (\<lambda>e. key_identity e = i) (map_state_entries state))) ms))
        = sum_list (map (\<lambda>p. mset (map entry_value (filter (\<lambda>e. key_identity e = i) (map_state_entries (snd p))))) ms)"
      by (induction ms) auto
    then show ?thesis
      by (simp add: comp_def case_prod_unfold sum_list_addf [symmetric] parts del: mset_map)
  qed
  then show "mset vs + stored_handles rt' = stored_handles rt"
    using res by (auto simp: release_key_def stored_handles_def union_assoc [symmetric] split: if_splits option.splits)
  show "key_identity e \<noteq> i" if "(m, state) \<in> set (maps rt')" "e \<in> set (map_state_entries state)" for m state e
  proof (cases "map_of (map_keys rt) i")
    case None
    with res have "rt' = rt" by (simp add: release_key_def)
    with no_entries_without_key [OF wf None] that show ?thesis by blast
  next
    case (Some n)
    with res that show ?thesis by (auto simp: release_key_def)
  qed
qed (use res in \<open>auto simp: release_key_def comp_def case_prod_unfold split: if_splits\<close>)


lemma release_owner_spec:
  assumes wf: "weak_wf rt"
  shows "weak_wf (release_owner i rt)" and "i \<notin> reference_owners (release_owner i rt)"
    and "(t, state) \<in> set (references (release_owner i rt)) \<Longrightarrow> wr_owner_identity state \<noteq> i"
    and "maps (release_owner i rt) = maps rt" and "iterators (release_owner i rt) = iterators rt"
proof -
  have ok: "refs_ok (references rt) (reference_owners rt)" using wf by (simp add: weak_wf_def)
  have owners: "reference_owners rt = set (map (wr_owner_identity \<circ> snd) (references rt))"
    using ok by (simp add: refs_ok_def)
  have "set (map (wr_owner_identity \<circ> snd) (filter (\<lambda>(_, state). wr_owner_identity state \<noteq> i) (references rt)))
      = reference_owners rt - {i}" unfolding owners by force
  with refs_ok_filter [OF ok, of "\<lambda>(_, state). wr_owner_identity state \<noteq> i"]
  have "refs_ok (filter (\<lambda>(_, state). wr_owner_identity state \<noteq> i) (references rt)) (reference_owners rt - {i})"
    by simp
  from weak_wf_refs [OF wf this] wf show "weak_wf (release_owner i rt)"
    by (cases rt) (simp add: release_owner_def)
  show "i \<notin> reference_owners (release_owner i rt)" by (simp add: release_owner_def)
  show "(t, state) \<in> set (references (release_owner i rt)) \<Longrightarrow> wr_owner_identity state \<noteq> i"
    using owners by (force simp: release_owner_def split: if_splits)
qed (simp_all add: release_owner_def)

lemma release_map_spec:
  assumes wf: "weak_wf rt" and res: "release_map i rt = (vs, rt')"
  shows "weak_wf rt'" and "mset vs + stored_handles rt' = stored_handles rt"
    and "maps rt' = AList.delete i (maps rt)" and "references rt' = references rt"
    and "reference_owners rt' = reference_owners rt" and "iterators rt' = iterators rt"
proof -
  have ok: "maps_ok (maps rt)" using wf by (simp add: weak_wf_def)
  show ms: "maps rt' = AList.delete i (maps rt)" and "references rt' = references rt"
    and "reference_owners rt' = reference_owners rt" and its: "iterators rt' = iterators rt"
    using res delete_id [of i "maps rt"]
    by (auto simp: release_map_def note_entries map_of_eq_None_iff split: option.splits)
  note tot = key_total_delete [OF ok, of i]
  show "weak_wf rt'"
  proof (cases "map_of (maps rt) i")
    case (Some state)
    then have rt': "rt' = fold (\<lambda>e. note_map_key (key_identity e) (-1)) (map_state_entries state)
        (rt\<lparr>maps := AList.delete i (maps rt)\<rparr>)"
      using res by (simp add: release_map_def)
    have "key_count rt' k = key_total rt' k" for k
      using tot [of k] Some wf by (simp add: rt' note_entries_minus weak_wf_def count_key_def)
    moreover have "map_keys_ok rt'" using wf by (simp add: rt' note_entries weak_wf_def)
    ultimately show ?thesis
      using wf maps_ok_delete [OF ok, of i] by (simp add: weak_wf_def rt' note_entries)
  qed (use res wf in \<open>simp add: release_map_def\<close>)
  have "distinct (map fst (maps rt))" using ok by (simp add: maps_ok_def)
  from sum_delete [OF this, of "\<lambda>state. mset (map entry_value (map_state_entries state))" i]
  show "mset vs + stored_handles rt' = stored_handles rt"
    using res ms its
    by (auto simp: stored_handles_def release_map_def ac_simps split: option.splits)
qed

lemma sum_list_singletons: "sum_list (map (\<lambda>x. {#f x#}) xs) = mset (map f xs)"
  by (induction xs) auto

lemma release_iterator_spec:
  assumes wf: "weak_wf rt" and res: "release_iterator i rt = (vs, rt')"
  shows "weak_wf rt'" and "mset vs + stored_handles rt' = stored_handles rt"
    and "iterators rt' = AList.delete i (iterators rt)" and "references rt' = references rt"
    and "reference_owners rt' = reference_owners rt" and "maps rt' = maps rt"
proof -
  have ok: "iters_ok (iterators rt)" using wf by (simp add: weak_wf_def)
  have "iters_ok (AList.delete i (iterators rt))"
    using ok set_delete_subset [of i "iterators rt"] by (fastforce simp: iters_ok_def distinct_delete)
  from weak_wf_iters [OF wf this] res wf show "weak_wf rt'"
    by (auto simp: release_iterator_def split: option.splits)
  show its: "iterators rt' = AList.delete i (iterators rt)" and "references rt' = references rt"
    and "reference_owners rt' = reference_owners rt" and ms: "maps rt' = maps rt"
    using res delete_id [of i "iterators rt"]
    by (auto simp: release_iterator_def map_of_eq_None_iff split: option.splits)
  have "distinct (map fst (iterators rt))" using ok by (simp add: iters_ok_def)
  from sum_delete [OF this, of "\<lambda>it. {#iter_map it#}" i]
  have "mset vs + mset (map (iter_map \<circ> snd) (AList.delete i (iterators rt))) = mset (map (iter_map \<circ> snd) (iterators rt))"
    using res
    by (auto simp: release_iterator_def comp_def sum_list_singletons ac_simps
        split: option.splits)
  then show "mset vs + stored_handles rt' = stored_handles rt"
    using its ms by (simp add: stored_handles_def ac_simps)
qed

lemma release_identity_spec:
  assumes wf: "weak_wf rt" and res: "release_identity i rt = (vs, rt')"
  shows "weak_wf rt'" and "mset vs + stored_handles rt' = stored_handles rt"
    and "map_of (maps rt') i = None" and "map_of (iterators rt') i = None"
    and "i \<notin> reference_owners rt'"
    and "\<And>m e. e \<in> set (map_entries_of rt' m) \<Longrightarrow> key_identity e \<noteq> i"
    and "\<And>state. map_of (references rt') i = Some state \<Longrightarrow> wr_cleared state"
    and "\<And>t state. (t, state) \<in> set (references rt') \<Longrightarrow> wr_owner_identity state \<noteq> i"
proof -
  define rt0 where "rt0 = clear_reference i rt"
  obtain v1 rt1 where r1: "release_key i rt0 = (v1, rt1)" by force
  define rt2 where "rt2 = release_owner i rt1"
  obtain v2 rt3 where r3: "release_map i rt2 = (v2, rt3)" by force
  obtain v3 rt4 where r4: "release_iterator i rt3 = (v3, rt4)" by force
  have vs: "vs = v1 @ v2 @ v3" and rt': "rt' = rt4"
    using res r1 r3 r4 by (simp_all add: release_identity_def rt0_def rt2_def)
  have wf0: "weak_wf rt0" using wf by (simp add: rt0_def clear_reference_wf)
  note wf1 = release_key_wf [OF wf0 r1] and s1 = release_key_spec [OF wf0 r1]
  note s2 = release_owner_spec [OF wf1, where i = i, folded rt2_def]
  note s3 = release_map_spec [OF s2(1) r3]
  note s4 = release_iterator_spec [OF s3(1) r4]
  show "weak_wf rt'" using s4(1) rt' by simp
  have "stored_handles rt0 = stored_handles rt" by (simp add: stored_handles_def rt0_def)
  moreover have "stored_handles rt2 = stored_handles rt1" using s2(4,5) by (simp add: stored_handles_def)
  ultimately show "mset vs + stored_handles rt' = stored_handles rt"
    using s1(1) s3(2) s4(2) vs rt' by (simp add: union_assoc)
  have maps': "maps rt' = AList.delete i (maps rt1)" using s4(6) s3(3) s2(4) rt' by simp
  show "map_of (maps rt') i = None" by (simp add: maps')
  show "map_of (iterators rt') i = None" using s4(3) rt' by simp
  have refs': "references rt' = references rt2" "reference_owners rt' = reference_owners rt2"
    using s4(4,5) s3(4,5) rt' by simp_all
  show "i \<notin> reference_owners rt'" using s2(2) refs' by simp
  show "key_identity e \<noteq> i" if "e \<in> set (map_entries_of rt' m)" for m e
  proof -
    from that obtain state where "(m, state) \<in> set (maps rt')" "e \<in> set (map_state_entries state)"
      by (cases "map_of (maps rt') m") (auto simp: map_entries_of_def dest: map_of_SomeD)
    with s1(2) set_delete_subset [of i "maps rt1"] show ?thesis by (auto simp: maps')
  qed
  show "wr_owner_identity state \<noteq> i" if "(t, state) \<in> set (references rt')" for t state
    using s2(3) that refs' by simp
  show "wr_cleared state" if "map_of (references rt') i = Some state" for state
  proof -
    have ok: "refs_ok (references rt0) (reference_owners rt0)" using wf0 by (simp add: weak_wf_def)
    have "(i, state) \<in> set (references rt0)"
      using map_of_SomeD [OF that] s1(4) refs'(1) by (auto simp: rt2_def release_owner_def split: if_splits)
    with ok have "map_of (references rt0) i = Some state" by (simp add: refs_ok_def)
    then show ?thesis by (auto simp: rt0_def clear_reference_def split: option.splits)
  qed
qed


text \<open>What an object has in the sidecars, and what they are without it. A weak reference to the
  object stays registered under it, cleared.\<close>

definition without_key :: "nat \<Rightarrow> weak_map_state \<Rightarrow> weak_map_state" where
  "without_key i state = state\<lparr>map_state_entries := filter (\<lambda>e. key_identity e \<noteq> i) (map_state_entries state)\<rparr>"

definition handles_of_identity :: "nat \<Rightarrow> weak_runtime \<Rightarrow> pvalue list" where
  "handles_of_identity i rt =
     concat (map (\<lambda>(m, state). map entry_value (filter (\<lambda>e. m = i \<or> key_identity e = i) (map_state_entries state))) (maps rt))
     @ map (iter_map \<circ> snd) (filter (\<lambda>(j, _). j = i) (iterators rt))"

lemma release_key_maps:
  assumes wf: "weak_wf rt" and res: "release_key i rt = (vs, rt')"
  shows "maps rt' = map (\<lambda>(m, state). (m, without_key i state)) (maps rt)"
proof (cases "map_of (map_keys rt) i")
  case None
  have "without_key i state = state" if "(m, state) \<in> set (maps rt)" for m state
    using no_entries_without_key [OF wf None that] by (simp add: without_key_def)
  then have "map (\<lambda>(m, state). (m, without_key i state)) (maps rt) = maps rt"
    by (auto intro: map_idI)
  with None res show ?thesis by (simp add: release_key_def)
qed (use res in \<open>auto simp: release_key_def without_key_def\<close>)

lemma release_owner_references:
  assumes "weak_wf rt"
  shows "references (release_owner i rt) = filter (\<lambda>(_, state). wr_owner_identity state \<noteq> i) (references rt)"
    and "reference_owners (release_owner i rt) = reference_owners rt - {i}"
proof -
  have "reference_owners rt = set (map (wr_owner_identity \<circ> snd) (references rt))"
    using assms by (simp add: weak_wf_def refs_ok_def)
  then show "references (release_owner i rt) = filter (\<lambda>(_, state). wr_owner_identity state \<noteq> i) (references rt)"
    by (force simp: release_owner_def intro!: filter_True [symmetric])
qed (simp add: release_owner_def)

lemma update_one_key:
  "distinct (map fst xs) \<Longrightarrow> map_of xs i = Some v \<Longrightarrow>
   AList.update i w xs = map (\<lambda>(k, x). (k, if k = i then w else x)) xs"
proof (induction xs)
  case (Cons p xs)
  have "map (\<lambda>(k, x). (k, if k = i then w else x)) xs = xs" if "i \<notin> fst ` set xs"
    using that by (force intro: map_idI)
  with Cons show ?case by (cases p) auto
qed simp

lemma clear_reference_references:
  assumes "weak_wf rt"
  shows "references (clear_reference i rt)
    = map (\<lambda>(t, state). (t, if t = i then state\<lparr>wr_cleared := True\<rparr> else state)) (references rt)"
proof (cases "map_of (references rt) i")
  case None
  then have "map (\<lambda>(t, state). (t, if t = i then state\<lparr>wr_cleared := True\<rparr> else state)) (references rt) = references rt"
    by (force intro: map_idI simp: map_of_eq_None_iff)
  with None show ?thesis by (simp add: clear_reference_def)
next
  case (Some state)
  have "distinct (map fst (references rt))" using assms by (simp add: weak_wf_def refs_ok_def)
  with Some show ?thesis
    by (auto simp: clear_reference_def update_one_key [OF _ Some] dest: eq_key_imp_eq_value)
qed

lemma handles_of_identity_split:
  "mset (handles_of_identity i rt)
    + (sum_list (map ((\<lambda>state. mset (map entry_value (map_state_entries state))) \<circ> snd)
          (map (\<lambda>(m, state). (m, without_key i state)) (filter (\<lambda>(m, _). m \<noteq> i) (maps rt))))
       + mset (map (iter_map \<circ> snd) (filter (\<lambda>(j, _). j \<noteq> i) (iterators rt))))
   = stored_handles rt"
proof -
  have its: "mset (map (iter_map \<circ> snd) (filter (\<lambda>(j, _). j = i) its))
      + mset (map (iter_map \<circ> snd) (filter (\<lambda>(j, _). j \<noteq> i) its)) = mset (map (iter_map \<circ> snd) its)" for its :: "(nat \<times> weak_iterator_state) list"
    by (induction its) auto
  have parts: "mset (map entry_value (filter (\<lambda>e. key_identity e = i) es))
      + mset (map entry_value (filter (\<lambda>e. key_identity e \<noteq> i) es)) = mset (map entry_value es)" for es
    by (induction es) auto
  have "mset (concat (map (\<lambda>(m, state). map entry_value (filter (\<lambda>e. m = i \<or> key_identity e = i) (map_state_entries state))) ms))
      + sum_list (map ((\<lambda>state. mset (map entry_value (map_state_entries state))) \<circ> snd)
          (map (\<lambda>(m, state). (m, without_key i state)) (filter (\<lambda>(m, _). m \<noteq> i) ms)))
      = sum_list (map ((\<lambda>state. mset (map entry_value (map_state_entries state))) \<circ> snd) ms)" for ms
  proof (induction ms)
    case (Cons p ms)
    obtain m state where p: "p = (m, state)" by force
    have "mset (map entry_value (filter (\<lambda>e. m = i \<or> key_identity e = i) (map_state_entries state)))
        + (if m = i then {#} else mset (map entry_value (map_state_entries (without_key i state))))
        = mset (map entry_value (map_state_entries state))"
      using parts [of "map_state_entries state"] by (simp add: without_key_def del: mset_map)
    with Cons show ?case by (simp add: p del: mset_map) (auto simp: ac_simps)
  qed simp
  from this [of "maps rt"] its [of "iterators rt"] show ?thesis
    by (simp add: handles_of_identity_def stored_handles_def ac_simps del: mset_map)
qed

lemma release_identity_state:
  assumes wf: "weak_wf rt" and res: "release_identity i rt = (vs, rt')"
  shows "mset vs = mset (handles_of_identity i rt)"
    and "maps rt' = map (\<lambda>(m, state). (m, without_key i state)) (filter (\<lambda>(m, _). m \<noteq> i) (maps rt))"
    and "iterators rt' = filter (\<lambda>(j, _). j \<noteq> i) (iterators rt)"
    and "references rt' = map (\<lambda>(t, state). (t, if t = i then state\<lparr>wr_cleared := True\<rparr> else state))
           (filter (\<lambda>(_, state). wr_owner_identity state \<noteq> i) (references rt))"
    and "reference_owners rt' = reference_owners rt - {i}"
proof -
  define rt0 where "rt0 = clear_reference i rt"
  obtain v1 rt1 where r1: "release_key i rt0 = (v1, rt1)" by force
  define rt2 where "rt2 = release_owner i rt1"
  obtain v2 rt3 where r3: "release_map i rt2 = (v2, rt3)" by force
  obtain v3 rt4 where r4: "release_iterator i rt3 = (v3, rt4)" by force
  have rt': "rt' = rt4"
    using res r1 r3 r4 by (simp add: release_identity_def rt0_def rt2_def)
  have wf0: "weak_wf rt0" using wf by (simp add: rt0_def clear_reference_wf)
  note wf1 = release_key_wf [OF wf0 r1] and s1 = release_key_spec [OF wf0 r1]
  note s2 = release_owner_spec [OF wf1, where i = i, folded rt2_def]
  note s3 = release_map_spec [OF s2(1) r3]
  note s4 = release_iterator_spec [OF s3(1) r4]
  have "maps rt' = AList.delete i (map (\<lambda>(m, state). (m, without_key i state)) (maps rt))"
    using s4(6) s3(3) s2(4) release_key_maps [OF wf0 r1] by (simp add: rt' rt0_def)
  then show ms: "maps rt' = map (\<lambda>(m, state). (m, without_key i state)) (filter (\<lambda>(m, _). m \<noteq> i) (maps rt))"
    by (simp add: AList.delete_eq filter_map comp_def case_prod_unfold eq_commute [of _ i])
  show its: "iterators rt' = filter (\<lambda>(j, _). j \<noteq> i) (iterators rt)"
    using s4(3) s3(6) s2(5) s1(3) by (simp add: rt' rt0_def AList.delete_eq case_prod_unfold eq_commute [of _ i])
  have "references rt' = filter (\<lambda>(_, state). wr_owner_identity state \<noteq> i) (references rt0)"
    using s4(4) s3(4) s1(4) release_owner_references(1) [OF wf1, of i] by (simp add: rt' rt2_def)
  then show "references rt' = map (\<lambda>(t, state). (t, if t = i then state\<lparr>wr_cleared := True\<rparr> else state))
      (filter (\<lambda>(_, state). wr_owner_identity state \<noteq> i) (references rt))"
    unfolding rt0_def clear_reference_references [OF wf] filter_map
    by (auto intro!: arg_cong [where f = "map _"] filter_cong split: if_splits)
  show "reference_owners rt' = reference_owners rt - {i}"
    using s4(5) s3(5) s1(5) release_owner_references(2) [OF wf1, of i] by (simp add: rt' rt2_def rt0_def)
  have "mset vs + stored_handles rt' = mset (handles_of_identity i rt) + stored_handles rt'"
    using release_identity_spec(2) [OF wf res] handles_of_identity_split [of i rt]
    by (simp add: stored_handles_def ms its del: mset_map)
  then show "mset vs = mset (handles_of_identity i rt)" by simp
qed


subsection \<open>What a weak map answers\<close>

lemma map_value_entries:
  "map_value strong m k rt = map_option entry_value
     (List.find (\<lambda>e. key_identity e = k \<and> weak_strong_count strong (entry_key e) \<noteq> 0) (map_entries_of rt m))"
  by (simp add: map_value_def map_entries_of_def split: option.splits)

lemma map_entries_of_update:
  "map_entries_of (rt\<lparr>maps := AList.update m state ms\<rparr>) j =
     (if j = m then map_state_entries state else map_entries_of (rt\<lparr>maps := ms\<rparr>) j)"
  by (simp add: map_entries_of_def)

lemma map_entries_of_put:
  "map_of (maps rt) m \<noteq> None \<Longrightarrow>
   map_entries_of (put_entries m es rt) j = (if j = m then es else map_entries_of rt j)"
  by (auto simp: put_entries_def map_entries_of_def)

lemma map_entries_of_note [simp]: "map_entries_of (note_map_key k d rt) = map_entries_of rt"
  by (simp add: map_entries_of_def fun_eq_iff)

lemma find_list_update_neq:
  "at < length es \<Longrightarrow> \<not> P (es ! at) \<Longrightarrow> \<not> P e \<Longrightarrow> List.find P (es[at := e]) = List.find P es"
proof (induction es arbitrary: at)
  case (Cons x es)
  then show ?case by (cases at) auto
qed simp

lemma find_append: "List.find P (xs @ ys) = (case List.find P xs of None \<Rightarrow> List.find P ys | Some x \<Rightarrow> Some x)"
  by (induction xs) auto

lemma find_at:
  "at < length es \<Longrightarrow> P e \<Longrightarrow> (\<forall>j < at. \<not> P (es ! j)) \<Longrightarrow> List.find P (es[at := e]) = Some e"
proof (induction es arbitrary: at)
  case (Cons x es)
  show ?case
  proof (cases at)
    case (Suc n)
    with Cons.prems have "\<not> P x" "\<forall>j < n. \<not> P (es ! j)" by fastforce+
    with Suc Cons show ?thesis by simp
  qed (use Cons in simp)
qed simp

lemma find_set_entry:
  assumes es: "entries_ok es" and w: "weak_identity w = k" and alive: "strong k \<noteq> 0"
  shows "map_option entry_value (List.find (\<lambda>e. key_identity e = j \<and> weak_strong_count strong (entry_key e) \<noteq> 0)
      (set_entry k w v cell es))
    = (if j = k then Some cell else map_option entry_value
        (List.find (\<lambda>e. key_identity e = j \<and> weak_strong_count strong (entry_key e) \<noteq> 0) es))"
proof (cases "Prelude.position (\<lambda>e. key_identity e = k) es")
  case None
  then have "List.find (\<lambda>e. key_identity e = k \<and> weak_strong_count strong (entry_key e) \<noteq> 0) es = None"
    by (auto simp: position_None find_None_iff)
  with None w alive show ?thesis
    by (auto simp: set_entry_def find_append weak_strong_count_def split: option.splits)
next
  case (Some at)
  from position_SomeD [OF this] have at: "at < length es" "key_identity (es ! at) = k"
    "\<forall>j < at. key_identity (es ! j) \<noteq> k" by auto
  have "weak_identity (entry_key (es ! at)) = k"
    using es at by (simp add: entries_ok_def list_all_length entry_ok_def)
  with at alive Some show ?thesis
    by (auto simp: set_entry_def weak_strong_count_def find_at find_list_update_neq)
qed

lemma entry_cell_deref:
  assumes "entry_cell new_id v h = (cell, h')"
  shows "dereferenced h' cell = dereferenced h v"
    and "c \<noteq> new_id h \<Longrightarrow> cell_at h' c = cell_at h c"
  using assms
  by (auto simp: entry_cell_def owned_reference_def put_alloc_def cell_at_def split: if_splits)

lemma map_set_get:
  assumes wf: "weak_wf rt" and key: "weak_object_identity key = Some k" and alive: "strong k \<noteq> 0"
  shows "\<exists>h' rt' cell. map_set new_id (ObjectV i) key v h rt = (True, h', rt')
    \<and> (\<forall>m j. map_value strong m j rt' = (if m = i \<and> j = k then Some cell else map_value strong m j rt))
    \<and> dereferenced h' cell = dereferenced h v
    \<and> (\<forall>c. c \<noteq> new_id h \<longrightarrow> cell_at h' c = cell_at h c)"
proof -
  obtain w where w: "weak_object_owner key = Some w" using key by (cases key) auto
  obtain rt1 where em: "ensure_map (ObjectV i) rt = (Some i, rt1)"
    by (cases "map_of (maps rt) i") (auto simp: ensure_map_def)
  note e = ensure_map_wf [OF wf em]
  obtain cell h' where cell: "entry_cell new_id v h = (cell, h')" by force
  let ?rt' = "(if k \<in> set (map key_identity (map_entries_of rt i)) then id else note_map_key k 1)
       (put_entries i (set_entry k w v cell (map_entries_of rt i)) rt1)"
  have "map_value strong m j ?rt' = (if m = i \<and> j = k then Some cell else map_value strong m j rt)" for m j
    using map_entries_of_put [of rt1 i "set_entry k w v cell (map_entries_of rt i)" m] e(2) [OF refl] e(3)
      find_set_entry [where strong = strong, OF map_entries_of_ok [OF wf, of i] weak_object_owner_identity [OF key w] alive, of j v cell]
    by (auto simp: map_value_entries)
  with map_set_eq [OF wf key w em cell] entry_cell_deref [OF cell] show ?thesis by blast
qed


subsection \<open>Properties\<close>

text \<open>The life of the sidecars: any sequence of their operations, with any counts and any
  allocator at each. Registering a weak reference is given an owner that owns none yet.\<close>

inductive weak_step :: "weak_runtime \<Rightarrow> weak_runtime \<Rightarrow> bool" where
  lookup_reference: "weak_step rt (snd (reference_for_target strong t rt))"
| new_reference: "(\<And>i. object_identity owner = Some i \<Longrightarrow> i \<notin> reference_owners rt) \<Longrightarrow>
    weak_step rt (snd (register_reference owner target rt))"
| new_map: "ensure_map m rt = (r, rt') \<Longrightarrow> weak_step rt rt'"
| set_value: "map_set new_id m key v h rt = (ok, h', rt') \<Longrightarrow> weak_step rt rt'"
| remove_value: "map_remove m k rt = (r, rt') \<Longrightarrow> weak_step rt rt'"
| copy_map: "clone_map new_id strong internal source target h rt = (h', rt') \<Longrightarrow> weak_step rt rt'"
| new_iterator: "weak_step rt (snd (register_iterator strong iterator m rt))"
| rewind: "weak_step rt (iterator_rewind i rt)"
| advance: "weak_step rt (iterator_next i rt)"
| by_reference: "weak_step rt (enable_iterator_references i rt)"
| valid: "weak_step rt (snd (iterator_entry strong i rt))"
| read_key: "weak_step rt (snd (iterator_key strong i rt))"
| read_value: "weak_step rt (snd (iterator_value strong i rt))"
| release_object: "release_identity i rt = (vs, rt') \<Longrightarrow> weak_step rt rt'"

lemma weak_step_wf: "weak_step rt rt' \<Longrightarrow> weak_wf rt \<Longrightarrow> weak_wf rt'"
  by (induction rule: weak_step.induct)
    (auto simp: reference_for_target_wf register_reference_wf register_iterator_wf iterator_ops_wf
      iterator_entry_wf iterator_key_wf iterator_value_wf
      dest: ensure_map_wf(1) map_set_wf map_remove_wf clone_map_wf release_identity_spec(1))

lemma weak_reachable_wf: "weak_step\<^sup>*\<^sup>* default_weak_runtime rt \<Longrightarrow> weak_wf rt"
  by (induction rule: rtranclp_induct) (simp_all add: weak_step_wf)

text \<open>C8. In every state of the sidecars the counter of map keys counts exactly the entries of
  all weak maps that key on an object, and is absent where there are none; the set of reference
  owners is exactly the owners of the registered references; and every value of a map is an
  owned reference cell, so that taking the snapshot for a cycle collection never panics.\<close>
theorem weak_indexes_exact:
  assumes "weak_step\<^sup>*\<^sup>* default_weak_runtime rt"
  shows "(\<forall>k. (case map_of (map_keys rt) k of None \<Rightarrow> 0 | Some n \<Rightarrow> n)
           = sum_list (map (\<lambda>(_, state). length (filter (\<lambda>e. key_identity e = k) (map_state_entries state))) (maps rt)))
    \<and> (\<forall>k. map_of (map_keys rt) k \<noteq> Some 0)
    \<and> reference_owners rt = {wr_owner_identity state |t state. (t, state) \<in> set (references rt)}
    \<and> (\<exists>snap. cycle_snapshot strong rt = Some snap)"
proof -
  have wf: "weak_wf rt" using assms by (rule weak_reachable_wf)
  have owners: "reference_owners rt = set (map (wr_owner_identity \<circ> snd) (references rt))"
    using wf by (simp add: weak_wf_def refs_ok_def)
  have "(case map_of (map_keys rt) k of None \<Rightarrow> 0 | Some n \<Rightarrow> n)
      = sum_list (map (\<lambda>(_, state). length (filter (\<lambda>e. key_identity e = k) (map_state_entries state))) (maps rt))" for k
    using wf by (simp add: weak_wf_def key_count_def key_total_def count_key_def comp_def case_prod_unfold)
  moreover have "map_of (map_keys rt) k \<noteq> Some 0" for k
    using wf by (force simp: weak_wf_def map_keys_ok_def dest: map_of_SomeD)
  moreover have "reference_owners rt = {wr_owner_identity state |t state. (t, state) \<in> set (references rt)}"
    unfolding owners by force
  moreover have "\<exists>snap. cycle_snapshot strong rt = Some snap"
  proof -
    have entry: "\<exists>ce. snapshot_entry strong e = Some ce" if "entry_ok e" for e
      using that by (cases "entry_value e") (simp_all add: snapshot_entry_def entry_ok_def clone_cycle_handle_def)
    have those: "\<exists>ys. those (map f xs) = Some ys" if "\<forall>x \<in> set xs. \<exists>y. f x = Some y" for f :: "'b \<Rightarrow> 'c option" and xs
      using that by (induction xs) (auto simp: those.simps split: option.splits)
    have "\<exists>cm. snapshot_map strong p = Some cm" if "p \<in> set (maps rt)" for p
    proof -
      have "list_all entry_ok (map_state_entries (snd p))"
        using wf that by (auto simp: weak_wf_def maps_ok_def entries_ok_def case_prod_unfold)
      then show ?thesis using those [of "map_state_entries (snd p)" "snapshot_entry strong"] entry
        by (auto simp: snapshot_map_def list_all_iff split: prod.splits)
    qed
    then show ?thesis using those [of "maps rt" "snapshot_map strong"] by (auto simp: cycle_snapshot_def)
  qed
  ultimately show ?thesis by blast
qed

definition fresh_id :: "heap \<Rightarrow> nat" where
  "fresh_id h = Suc (fold max (map fst (allocs h)) 0)"

theorem weak_indexes_exact_witness:
  "reference_owners (snd (register_reference (ObjectV 7) (ObjectV 3) default_weak_runtime)) = {7}"
proof -
  have "weak_step\<^sup>*\<^sup>* default_weak_runtime (snd (register_reference (ObjectV 7) (ObjectV 3) default_weak_runtime))"
    by (intro r_into_rtranclp weak_step.new_reference) (simp add: default_weak_runtime_def)
  from weak_indexes_exact [OF this] show ?thesis
    by (simp add: register_reference_def default_weak_runtime_def)
qed

text \<open>C18. A value stored in a weak map under a live key is found there, with the content that was
  stored, and no other entry of any weak map, and no reference cell that existed, changes.\<close>
theorem weak_map_get_after_set:
  assumes "weak_step\<^sup>*\<^sup>* default_weak_runtime rt" and "weak_object_identity key = Some k" and "strong k \<noteq> 0"
    and "map_of (allocs h) (new_id h) = None"
  shows "\<exists>h' rt' cell. map_set new_id (ObjectV i) key v h rt = (True, h', rt')
    \<and> map_value strong i k rt' = Some cell \<and> dereferenced h' cell = dereferenced h v
    \<and> (\<forall>m j. (m, j) \<noteq> (i, k) \<longrightarrow> map_value strong m j rt' = map_value strong m j rt)
    \<and> (\<forall>c content. cell_at h c = Some content \<longrightarrow> cell_at h' c = Some content)"
proof -
  obtain h' rt' cell where r: "map_set new_id (ObjectV i) key v h rt = (True, h', rt')"
    "\<forall>m j. map_value strong m j rt' = (if m = i \<and> j = k then Some cell else map_value strong m j rt)"
    "dereferenced h' cell = dereferenced h v" "\<forall>c. c \<noteq> new_id h \<longrightarrow> cell_at h' c = cell_at h c"
    using map_set_get [where strong = strong, OF weak_reachable_wf [OF assms(1)] assms(2,3)] by blast
  have "cell_at h' c = Some content" if "cell_at h c = Some content" for c content
    using that r(4) assms(4) by (cases "c = new_id h") (auto simp: cell_at_def)
  with r show ?thesis by auto
qed

theorem weak_map_get_after_set_witness:
  "\<exists>h' rt' cell. map_set fresh_id (ObjectV 9) (ClosureV 4) (Scalar 5) \<lparr>allocs = [], statics = []\<rparr> default_weak_runtime
       = (True, h', rt')
     \<and> map_value (\<lambda>_. 1) 9 4 rt' = Some cell \<and> dereferenced h' cell = Scalar 5"
  using weak_map_get_after_set [of default_weak_runtime "ClosureV 4" 4 "\<lambda>_. 1" "\<lparr>allocs = [], statics = []\<rparr>" fresh_id 9 "Scalar 5"]
  by auto

text \<open>C9. Releasing an object hands back exactly the values of its own weak map and of the entries
  of other maps keyed by it, and the map its iterator walks. What stays is exact too: every other
  map keeps its other entries in order, the other iterators stay, the references the object owned
  are gone, the others stay, and the one to the object itself is cleared. Afterwards no map answers
  for the object, as the owner of a reference it has no target, no reference to it is found, and
  it is not counted as a key.\<close>
theorem weak_release_is_complete:
  assumes "weak_step\<^sup>*\<^sup>* default_weak_runtime rt" and "release_identity i rt = (released, rt')"
  shows "mset released = mset (concat (map (\<lambda>(m, state).
               map entry_value (filter (\<lambda>e. m = i \<or> key_identity e = i) (map_state_entries state))) (maps rt)))
             + mset (map (iter_map \<circ> snd) (filter (\<lambda>(j, _). j = i) (iterators rt)))
    \<and> maps rt' = map (\<lambda>(m, state). (m, state\<lparr>map_state_entries := filter (\<lambda>e. key_identity e \<noteq> i) (map_state_entries state)\<rparr>))
        (filter (\<lambda>(m, _). m \<noteq> i) (maps rt))
    \<and> iterators rt' = filter (\<lambda>(j, _). j \<noteq> i) (iterators rt)
    \<and> references rt' = map (\<lambda>(t, state). (t, if t = i then state\<lparr>wr_cleared := True\<rparr> else state))
        (filter (\<lambda>(_, state). wr_owner_identity state \<noteq> i) (references rt))
    \<and> reference_owners rt' = reference_owners rt - {i}
    \<and> (\<forall>m. map_value strong m i rt' = None)
    \<and> reference_target strong i rt' = None
    \<and> fst (reference_for_target strong i rt') = None
    \<and> map_of (map_keys rt') i = None"
proof -
  note s = release_identity_spec [OF weak_reachable_wf [OF assms(1)] assms(2)]
  have "map_value strong m i rt' = None" for m
    using s(6) by (auto simp: map_value_entries find_None_iff)
  moreover have "reference_target strong i rt' = None"
  proof -
    have "List.find (\<lambda>state. wr_owner_identity state = i) (map snd (references rt')) = None"
      using s(8) by (fastforce simp: find_None_iff)
    then show ?thesis by (simp add: reference_target_def)
  qed
  moreover have "fst (reference_for_target strong i rt') = None"
    using s(7) by (auto simp: reference_for_target_def split: option.splits)
  moreover have "map_of (map_keys rt') i = None"
  proof -
    have "count_key i state = 0" if "(m, state) \<in> set (maps rt')" for m state
    proof -
      have "map_of (maps rt') m = Some state" using s(1) that by (simp add: weak_wf_def maps_ok_def)
      then show ?thesis using s(6) [of _ m] by (auto simp: count_key_def map_entries_of_def filter_empty_conv)
    qed
    then have "key_total rt' i = 0" by (auto simp: key_total_def)
    then have "key_count rt' i = 0" using s(1) by (simp add: weak_wf_def)
    moreover have "map_of (map_keys rt') i \<noteq> Some 0"
      using s(1) by (force simp: weak_wf_def map_keys_ok_def dest: map_of_SomeD)
    ultimately show ?thesis by (auto simp: key_count_def split: option.splits)
  qed
  ultimately show ?thesis
    using release_identity_state [OF weak_reachable_wf [OF assms(1)] assms(2)]
    by (simp only: handles_of_identity_def without_key_def mset_append simp_thms)
qed

theorem weak_release_is_complete_witness:
  "(let rt = snd (snd (map_set fresh_id (ObjectV 9) (ObjectV 4) (Scalar 5) \<lparr>allocs = [], statics = []\<rparr> default_weak_runtime))
    in map (length \<circ> map_state_entries \<circ> snd) (maps rt) = [1]
     \<and> size (mset (fst (release_identity 4 rt))) = 1
     \<and> map (length \<circ> map_state_entries \<circ> snd) (maps (snd (release_identity 4 rt))) = [0])"
proof -
  define rt where "rt = snd (snd (map_set fresh_id (ObjectV 9) (ObjectV 4) (Scalar 5) \<lparr>allocs = [], statics = []\<rparr> default_weak_runtime))"
  have steps: "weak_step\<^sup>*\<^sup>* default_weak_runtime rt"
    unfolding rt_def by (intro r_into_rtranclp weak_step.set_value) (simp add: prod_eq_iff)
  have ms: "\<exists>w cell. maps rt = [(9, \<lparr>map_owner = 9, map_state_entries = [\<lparr>key_identity = 4, entry_key = w,
      entry_value = cell, exposed_reference = False\<rparr>]\<rparr>)] \<and> iterators rt = []"
    by (simp add: rt_def map_set_def ensure_map_def default_weak_runtime_def put_entries_def note_map_key_def
        map_entries_of_def entry_cell_def owned_reference_def Let_def)
  then show ?thesis
    using weak_release_is_complete [OF steps surjective_pairing, where i = 4 and strong = "\<lambda>_. 1"]
    unfolding Let_def rt_def [symmetric] by (elim exE conjE) simp
qed

end
