(* ===== verification/Cycle_Build.thy ===== *)
theory Cycle_Build
  imports Cycle_Marking Weak_Laws
begin

text \<open>
  Building the graph of a collection from the possible roots and the weak sidecars
  (\<open>src/src/runtime/cycle.rs\<close>, \<open>build_cycle_graph\<close> and \<open>build_cycle_graph_from_roots\<close>). The graph is
  closed: it has an edge for every handle that one of its nodes holds, as many times as it is
  held, and a node for each target.
\<close>

subsection \<open>The construction\<close>

fun add_weak_entries :: "nat \<Rightarrow> weak_map_cycle_entry list \<Rightarrow> cycle_graph \<Rightarrow> cycle_graph option" where
  "add_weak_entries m [] g = Some g"
| "add_weak_entries m (e # es) g =
     (let g = add_node_opt (ce_key e) g
      in case cycle_node (ce_value e) of
           None \<Rightarrow> None
         | Some (v, _) \<Rightarrow>
             (let g = add_node (ce_value e) g
              in add_weak_entries m es
                   (g\<lparr>ephemerons := ephemerons g
                        @ [\<lparr>eph_map = m, eph_key = ce_key_identity e, eph_value = v\<rparr>]\<rparr>)))"

fun add_weak_maps :: "weak_map_cycle_state list \<Rightarrow> cycle_graph \<Rightarrow> cycle_graph option" where
  "add_weak_maps [] g = Some g"
| "add_weak_maps (cm # cms) g =
     Option.bind (add_weak_entries (cm_identity cm) (cm_entries cm) (add_node_opt (cm_map cm) g))
       (add_weak_maps cms)"

fun add_weak_iterators :: "weak_iterator_cycle_state list \<Rightarrow> cycle_graph \<Rightarrow> cycle_graph option" where
  "add_weak_iterators [] g = Some g"
| "add_weak_iterators (ci # cis) g =
     (let g = add_node_opt (ci_iterator ci) g
      in case cycle_node (ci_map ci) of
           None \<Rightarrow> None
         | Some (m, _) \<Rightarrow>
             (let g = add_node (ci_map ci) g
              in add_weak_iterators cis
                   (g\<lparr>ordinary_edges := ordinary_edges g @ [(ci_identity ci, m)]\<rparr>)))"

definition build_cycle_graph_from_roots ::
  "heap \<Rightarrow> (nat \<Rightarrow> nat) \<Rightarrow> fiber_table \<Rightarrow> weak_objects \<Rightarrow> pvalue list \<Rightarrow> cycle_graph option"
where
  "build_cycle_graph_from_roots h strong fibers w roots =
     (let g = fold add_node roots empty_graph;
          g = g\<lparr>root_count := length (nodes g)\<rparr>
      in Option.bind (weak_cycle_snapshot_of strong w) (\<lambda>snap.
           let g = g\<lparr>stale_weak_identities := snap_stale snap\<rparr>
           in Option.bind (add_weak_maps (snap_maps snap) g) (\<lambda>g.
                Option.bind (add_weak_iterators (snap_iterators snap) g) (\<lambda>g.
                  expand_value_edges h fibers g))))"

text \<open>The graph of a collection starts from the buffered roots and records which identities are
  not admitted to collection.\<close>

definition build_cycle_graph ::
  "heap \<Rightarrow> (nat \<Rightarrow> nat) \<Rightarrow> fiber_table \<Rightarrow> weak_objects \<Rightarrow> cycle_root_state \<Rightarrow>
     cycle_graph option \<times> cycle_root_state"
where
  "build_cycle_graph h strong fibers w st =
     (let (roots, st) = cycle_root_snapshot strong st;
          g = build_cycle_graph_from_roots h strong fibers w (map candidate_value roots);
          (un, st) = unadmitted_cycle_root_identities strong st
      in (map_option (\<lambda>g. g\<lparr>unadmitted_nodes := un\<rparr>) g, st))"

subsection \<open>Counting handles\<close>

definition handle_count :: "nat \<Rightarrow> pvalue list \<Rightarrow> nat" where
  "handle_count i vs = length (filter (\<lambda>v. map_option fst (cycle_node v) = Some i) vs)"

definition edges_into :: "cycle_graph \<Rightarrow> nat \<Rightarrow> nat" where
  "edges_into g i = length (filter (\<lambda>e. snd e = i) (ordinary_edges g))"

definition children_or_nil :: "heap \<Rightarrow> fiber_table \<Rightarrow> cycle_graph_node \<Rightarrow> pvalue list" where
  "children_or_nil h fibers n = (case node_children h fibers n of None \<Rightarrow> [] | Some cs \<Rightarrow> cs)"

lemma handle_count_Cons:
  "handle_count i (v # vs) = (if map_option fst (cycle_node v) = Some i then 1 else 0) + handle_count i vs"
  by (simp add: handle_count_def)

lemma handle_count_pos: "0 < handle_count i vs \<longleftrightarrow> i \<in> handle_ids vs"
proof -
  have "map_option fst (cycle_node v) = Some i \<longleftrightarrow> (\<exists>k. cycle_node v = Some (i, k))" for v
    by (cases "cycle_node v") auto
  then show ?thesis by (auto simp: handle_count_def handle_ids_def filter_empty_conv)
qed

lemma add_node_fields [simp]:
  "ordinary_edges (add_node v g) = ordinary_edges g" "ephemerons (add_node v g) = ephemerons g"
  "root_count (add_node v g) = root_count g" "unadmitted_nodes (add_node v g) = unadmitted_nodes g"
  "stale_weak_identities (add_node v g) = stale_weak_identities g"
  by (simp_all add: add_node_def split: option.splits)

lemma add_node_opt_fields [simp]:
  "ordinary_edges (add_node_opt v g) = ordinary_edges g" "ephemerons (add_node_opt v g) = ephemerons g"
  by (simp_all add: add_node_opt_def split: option.splits)

lemma add_node_prefix: "\<exists>ns. nodes (add_node v g) = nodes g @ ns"
  by (auto simp: add_node_def split: option.splits)

lemma add_child_prefix: "\<exists>ns. nodes (add_child s v g) = nodes g @ ns"
  using add_node_prefix [of v g] by (auto simp: add_child_def Let_def split: option.splits)

lemma add_children_prefix: "\<exists>ns. nodes (fold (add_child s) cs g) = nodes g @ ns"
proof (induction cs arbitrary: g)
  case (Cons c cs)
  from add_child_prefix [of s c g] Cons.IH [of "add_child s c g"] show ?case by auto
qed simp

lemma add_children_fields:
  "ephemerons (fold (add_child s) cs g) = ephemerons g"
  "root_count (fold (add_child s) cs g) = root_count g"
  "stale_weak_identities (fold (add_child s) cs g) = stale_weak_identities g"
  by (induction cs arbitrary: g) (auto simp: add_child_def Let_def split: option.splits)

lemma add_children_edges:
  "edges_into (fold (add_child s) cs g) i = edges_into g i + handle_count i cs"
proof (induction cs arbitrary: g)
  case (Cons c cs)
  have "edges_into (add_child s c g) i = edges_into g i + (if map_option fst (cycle_node c) = Some i then 1 else 0)"
    by (auto simp: edges_into_def add_child_def Let_def split: option.splits)
  with Cons show ?case by (simp add: handle_count_Cons)
qed (simp add: handle_count_def)

lemma add_children_edge_set:
  "set (ordinary_edges (fold (add_child s) cs g)) = set (ordinary_edges g) \<union> {s} \<times> handle_ids cs"
proof (induction cs arbitrary: g)
  case (Cons c cs)
  have "set (ordinary_edges (add_child s c g)) = set (ordinary_edges g) \<union> {s} \<times> handle_ids [c]"
    by (auto simp: add_child_def Let_def handle_ids_def split: option.splits)
  moreover have "handle_ids (c # cs) = handle_ids [c] \<union> handle_ids cs" by (auto simp: handle_ids_def)
  ultimately show ?case using Cons by auto
qed simp

lemma add_children_nodes: "graph_wf g \<Longrightarrow> handle_ids cs \<subseteq> node_ids (fold (add_child s) cs g)"
proof (induction cs arbitrary: g)
  case (Cons c cs)
  have wf: "graph_wf (add_child s c g)" using Cons.prems by (rule add_child_wf)
  have "handle_ids [c] \<subseteq> dom (node_indices (add_child s c g))"
    using add_node_dom [of c g] by (auto simp: add_child_def Let_def handle_ids_def split: option.splits)
  then have "handle_ids [c] \<subseteq> node_ids (add_child s c g)" using graph_wf_dom [OF wf] by auto
  moreover obtain ns where "nodes (fold (add_child s) cs (add_child s c g)) = nodes (add_child s c g) @ ns"
    using add_children_prefix by blast
  moreover have "handle_ids (c # cs) = handle_ids [c] \<union> handle_ids cs" by (auto simp: handle_ids_def)
  ultimately show ?case using Cons.IH [OF wf] by auto
qed simp

subsection \<open>The expanded graph is closed\<close>

lemma expand_from_prefix: "expand_from h fibers at g = Some g' \<Longrightarrow> \<exists>ns. nodes g' = nodes g @ ns"
proof (induction h fibers at g rule: expand_from.induct)
  case (1 h fibers at g)
  show ?case
  proof (cases "at < length (nodes g)")
    case True
    then obtain cs where cs: "node_children h fibers (nodes g ! at) = Some cs"
      using 1(2) by (subst (asm) expand_from.simps) (auto split: option.splits)
    then have "expand_from h fibers (at + 1) (fold (add_child (node_identity (nodes g ! at))) cs g) = Some g'"
      using 1(2) True by (subst (asm) expand_from.simps) simp
    from 1(1) [OF True cs this] add_children_prefix [of "node_identity (nodes g ! at)" cs g]
    show ?thesis by auto
  qed (use 1(2) in \<open>subst (asm) expand_from.simps, auto\<close>)
qed

text \<open>The state of the expansion at a position: the nodes before it have all their edges.\<close>

definition expanded_to :: "heap \<Rightarrow> fiber_table \<Rightarrow> (nat \<Rightarrow> nat) \<Rightarrow> nat \<Rightarrow> cycle_graph \<Rightarrow> bool" where
  "expanded_to h fibers base at g \<longleftrightarrow>
     graph_wf g \<and> at \<le> length (nodes g)
     \<and> (\<forall>i. edges_into g i =
          base i + sum_list (map (\<lambda>n. handle_count i (children_or_nil h fibers n)) (take at (nodes g))))
     \<and> (\<forall>n \<in> set (take at (nodes g)).
          node_children h fibers n \<noteq> None
          \<and> (\<forall>i \<in> handle_ids (children_or_nil h fibers n). (node_identity n, i) \<in> set (ordinary_edges g) \<and> i \<in> node_ids g))"

lemma expand_from_closed:
  "expand_from h fibers at g = Some g' \<Longrightarrow> expanded_to h fibers base at g \<Longrightarrow>
     expanded_to h fibers base (length (nodes g')) g'
     \<and> (\<exists>ns. nodes g' = nodes g @ ns) \<and> set (ordinary_edges g) \<subseteq> set (ordinary_edges g')
     \<and> ephemerons g' = ephemerons g \<and> root_count g' = root_count g
     \<and> stale_weak_identities g' = stale_weak_identities g"
proof (induction h fibers at g rule: expand_from.induct)
  case (1 h fibers at g)
  note wf = 1(3) [unfolded expanded_to_def]
  show ?case
  proof (cases "at < length (nodes g)")
    case False
    with 1(2,3) show ?thesis
      by (subst (asm) expand_from.simps) (auto simp: expanded_to_def)
  next
    case True
    let ?n = "nodes g ! at"
    obtain cs where cs: "node_children h fibers ?n = Some cs"
      using 1(2) True by (subst (asm) expand_from.simps) (auto split: option.splits)
    let ?g = "fold (add_child (node_identity ?n)) cs g"
    have res: "expand_from h fibers (at + 1) ?g = Some g'"
      using 1(2) True cs by (subst (asm) expand_from.simps) simp
    obtain ns where ns: "nodes ?g = nodes g @ ns" using add_children_prefix by blast
    have take: "take (at + 1) (nodes ?g) = take at (nodes g) @ [?n]"
      using True by (simp add: ns take_Suc_conv_app_nth)
    have cn: "children_or_nil h fibers ?n = cs" by (simp add: children_or_nil_def cs)
    have step: "expanded_to h fibers base (at + 1) ?g"
      unfolding expanded_to_def take
    proof (intro conjI allI)
      show wf': "graph_wf ?g" using wf by (simp add: add_children_wf)
      show "at + 1 \<le> length (nodes ?g)" using True by (simp add: ns)
      show "edges_into ?g i = base i + sum_list (map (\<lambda>n. handle_count i (children_or_nil h fibers n)) (take at (nodes g) @ [?n]))" for i
        using wf by (simp add: add_children_edges cn)
      have sub: "node_ids g \<subseteq> node_ids ?g" by (auto simp: ns)
      show "\<forall>n \<in> set (take at (nodes g) @ [?n]). node_children h fibers n \<noteq> None
          \<and> (\<forall>i \<in> handle_ids (children_or_nil h fibers n). (node_identity n, i) \<in> set (ordinary_edges ?g) \<and> i \<in> node_ids ?g)"
        using wf sub cs cn add_children_edge_set [of "node_identity ?n" cs g]
          add_children_nodes [of g cs "node_identity ?n"] by auto
    qed
    from 1(1) [OF True cs res step] ns add_children_edge_set [of "node_identity ?n" cs g]
    show ?thesis by (auto simp: add_children_fields)
  qed
qed


lemma expand_from_origin:
  "expand_from h fibers at g = Some g' \<Longrightarrow> e \<in> set (ordinary_edges g') \<Longrightarrow>
     e \<in> set (ordinary_edges g)
     \<or> (\<exists>n \<in> set (nodes g'). fst e = node_identity n \<and> snd e \<in> handle_ids (children_or_nil h fibers n))"
proof (induction h fibers at g rule: expand_from.induct)
  case (1 h fibers at g)
  show ?case
  proof (cases "at < length (nodes g)")
    case False
    with 1(2,3) show ?thesis by (subst (asm) expand_from.simps) auto
  next
    case True
    let ?n = "nodes g ! at"
    obtain cs where cs: "node_children h fibers ?n = Some cs"
      using 1(2) True by (subst (asm) expand_from.simps) (auto split: option.splits)
    let ?g = "fold (add_child (node_identity ?n)) cs g"
    have res: "expand_from h fibers (at + 1) ?g = Some g'"
      using 1(2) True cs by (subst (asm) expand_from.simps) simp
    obtain ns ms where "nodes ?g = nodes g @ ns" "nodes g' = nodes ?g @ ms"
      using add_children_prefix [of "node_identity ?n" cs g] expand_from_prefix [OF res] by blast
    then have "?n \<in> set (nodes g')" using True by (auto simp: in_set_conv_nth)
    moreover have "children_or_nil h fibers ?n = cs" by (simp add: children_or_nil_def cs)
    ultimately show ?thesis
      using 1(1) [OF True cs res 1(3)] add_children_edge_set [of "node_identity ?n" cs g] by fastforce
  qed
qed

subsection \<open>Typed handles\<close>

fun alloc_kind :: "allocation \<Rightarrow> cycle_node_kind" where
  "alloc_kind (ArrayAlloc _) = KArray"
| "alloc_kind (ObjectAlloc _) = KObject"
| "alloc_kind (ReferenceAlloc _) = KReference"
| "alloc_kind (ClosureAlloc _) = KClosure"

fun handle_of :: "nat \<Rightarrow> cycle_node_kind \<Rightarrow> pvalue" where
  "handle_of i KArray = ArrayV i"
| "handle_of i KObject = ObjectV i"
| "handle_of i KReference = OwnedRef i"
| "handle_of i KClosure = ClosureV i"

text \<open>A handle names an allocation of its kind.\<close>

definition typed :: "heap \<Rightarrow> pvalue \<Rightarrow> bool" where
  "typed h v \<longleftrightarrow>
     (case cycle_node v of
        None \<Rightarrow> True
      | Some (i, k) \<Rightarrow> (case map_of (allocs h) i of None \<Rightarrow> False | Some a \<Rightarrow> alloc_kind a = k))"

definition heap_typed :: "heap \<Rightarrow> fiber_table \<Rightarrow> bool" where
  "heap_typed h fibers \<longleftrightarrow>
     distinct (map fst (allocs h)) \<and> list_all (typed h) (heap_values h @ concat (map snd fibers))"

lemma cycle_node_handle: "cycle_node v = Some (i, k) \<Longrightarrow> v = handle_of i k"
  by (cases v) auto

definition good_graph :: "heap \<Rightarrow> cycle_graph \<Rightarrow> bool" where
  "good_graph h g \<longleftrightarrow> graph_wf g \<and> (\<forall>n \<in> set (nodes g). typed h (node_value n))"

lemma good_graph_wf: "good_graph h g \<Longrightarrow> graph_wf g"
  by (simp add: good_graph_def)

lemma add_node_good: "good_graph h g \<Longrightarrow> typed h v \<Longrightarrow> good_graph h (add_node v g)"
  using add_node_wf [of g v] by (auto simp: good_graph_def add_node_def split: option.splits if_splits)

lemma add_nodes_good:
  "good_graph h g \<Longrightarrow> list_all (typed h) vs \<Longrightarrow> good_graph h (fold add_node vs g)"
  by (induction vs arbitrary: g) (auto simp: add_node_good)

lemma good_graph_fields [simp]:
  "good_graph h (g\<lparr>ordinary_edges := es\<rparr>) = good_graph h g"
  "good_graph h (g\<lparr>ephemerons := eps\<rparr>) = good_graph h g"
  "good_graph h (g\<lparr>root_count := n\<rparr>) = good_graph h g"
  "good_graph h (g\<lparr>stale_weak_identities := st\<rparr>) = good_graph h g"
  "good_graph h (g\<lparr>unadmitted_nodes := un\<rparr>) = good_graph h g"
  by (simp_all add: good_graph_def graph_wf_def)

lemma empty_graph_good [simp]: "good_graph h empty_graph"
  by (simp add: good_graph_def) (simp add: empty_graph_def)

lemma add_children_good:
  "good_graph h g \<Longrightarrow> list_all (typed h) cs \<Longrightarrow> good_graph h (fold (add_child s) cs g)"
  by (induction cs arbitrary: g) (auto simp: add_child_def Let_def add_node_good split: option.splits)

lemma node_children_typed:
  assumes "heap_typed h fibers" and "node_children h fibers n = Some cs"
  shows "list_all (typed h) cs"
proof -
  have fib: "set (fiber_cycle_children fibers i) \<subseteq> set (concat (map snd fibers))" for i
  proof (cases "map_of fibers i")
    case (Some vs)
    from map_of_SomeD [OF this] Some show ?thesis by (force simp: fiber_cycle_children_def)
  qed (simp add: fiber_cycle_children_def)
  from assms(2) obtain c where c: "for_each_cycle_child_handle h (node_value n) = Some c"
    "cs = c @ (if node_kind n = KObject then fiber_cycle_children fibers (node_identity n) else [])"
    by (auto simp: node_children_def)
  from cycle_children_in_heap(3) [OF c(1)] fib
  have "set cs \<subseteq> set (heap_values h @ concat (map snd fibers))" by (fastforce simp: c(2))
  with assms(1) show ?thesis by (auto simp: heap_typed_def list_all_iff)
qed

lemma expand_from_good:
  "expand_from h fibers at g = Some g' \<Longrightarrow> heap_typed h fibers \<Longrightarrow> good_graph h g \<Longrightarrow> good_graph h g'"
proof (induction h fibers at g rule: expand_from.induct)
  case (1 h fibers at g)
  then show ?case
    by (subst (asm) expand_from.simps [of h fibers at g])
      (auto split: if_splits option.splits simp: add_children_good node_children_typed)
qed

subsection \<open>The weak sidecars in the graph\<close>

definition value_id :: "pvalue \<Rightarrow> nat" where
  "value_id v = (case cycle_node v of None \<Rightarrow> 0 | Some (i, _) \<Rightarrow> i)"

lemma add_node_ids: "graph_wf g \<Longrightarrow> node_ids (add_node v g) = node_ids g \<union> handle_ids [v]"
  using graph_wf_dom [OF add_node_wf [of g v]] graph_wf_dom [of g] add_node_dom [of v g]
  by (auto simp: set_eq_iff domIff)

lemma add_node_opt_props:
  assumes "good_graph h g" and "\<And>x. v = Some x \<Longrightarrow> typed h x"
  shows "good_graph h (add_node_opt v g)"
    and "node_ids (add_node_opt v g) = node_ids g \<union> (case v of None \<Rightarrow> {} | Some x \<Rightarrow> handle_ids [x])"
  using assms add_node_ids [OF good_graph_wf [OF assms(1)]]
  by (auto simp: add_node_opt_def add_node_good split: option.splits)

lemma add_weak_entries_props:
  assumes "add_weak_entries m es g = Some g'" and "good_graph h g"
    and "\<forall>e \<in> set es. typed h (ce_value e) \<and> (\<forall>x. ce_key e = Some x \<longrightarrow> typed h x)"
  shows "good_graph h g' \<and> node_ids g \<subseteq> node_ids g' \<and> ordinary_edges g' = ordinary_edges g
    \<and> ephemerons g' = ephemerons g @ map (\<lambda>e. \<lparr>eph_map = m, eph_key = ce_key_identity e, eph_value = value_id (ce_value e)\<rparr>) es
    \<and> (\<forall>e \<in> set es. value_id (ce_value e) \<in> node_ids g'
         \<and> (\<forall>x. ce_key e = Some x \<longrightarrow> handle_ids [x] \<subseteq> node_ids g'))"
  using assms
proof (induction es arbitrary: g)
  case (Cons e es)
  let ?g1 = "add_node_opt (ce_key e) g"
  obtain v k where v: "cycle_node (ce_value e) = Some (v, k)"
    using Cons.prems(1) by (auto simp: Let_def split: option.splits)
  let ?g2 = "add_node (ce_value e) ?g1"
  let ?g3 = "?g2\<lparr>ephemerons := ephemerons ?g2 @ [\<lparr>eph_map = m, eph_key = ce_key_identity e, eph_value = v\<rparr>]\<rparr>"
  have g1: "good_graph h ?g1" "node_ids ?g1 = node_ids g \<union> (case ce_key e of None \<Rightarrow> {} | Some x \<Rightarrow> handle_ids [x])"
    using Cons.prems(2,3) by (auto intro!: add_node_opt_props)
  have g2: "good_graph h ?g2" using g1(1) Cons.prems(3) by (simp add: add_node_good)
  have ids: "node_ids ?g2 = node_ids ?g1 \<union> {v}"
    using add_node_ids [OF good_graph_wf [OF g1(1)], of "ce_value e"] v by (auto simp: handle_ids_def)
  have "add_weak_entries m es ?g3 = Some g'" using Cons.prems(1) v by (simp add: Let_def)
  from Cons.IH [OF this] g2 Cons.prems(3) have IH: "good_graph h g' \<and> node_ids ?g2 \<subseteq> node_ids g'
    \<and> ordinary_edges g' = ordinary_edges ?g2
    \<and> ephemerons g' = ephemerons ?g3 @ map (\<lambda>e. \<lparr>eph_map = m, eph_key = ce_key_identity e, eph_value = value_id (ce_value e)\<rparr>) es
    \<and> (\<forall>e \<in> set es. value_id (ce_value e) \<in> node_ids g'
         \<and> (\<forall>x. ce_key e = Some x \<longrightarrow> handle_ids [x] \<subseteq> node_ids g'))" by simp
  have "value_id (ce_value e) = v" by (simp add: value_id_def v)
  with IH ids g1(2) show ?case by auto
qed simp


definition eph_of :: "weak_map_cycle_state \<Rightarrow> ephemeron_edge list" where
  "eph_of cm = map (\<lambda>e. \<lparr>eph_map = cm_identity cm, eph_key = ce_key_identity e,
                         eph_value = value_id (ce_value e)\<rparr>) (cm_entries cm)"

lemma add_weak_maps_props:
  assumes "add_weak_maps cms g = Some g'" and "good_graph h g"
    and "\<forall>cm \<in> set cms. (\<forall>x. cm_map cm = Some x \<longrightarrow> typed h x)
           \<and> (\<forall>e \<in> set (cm_entries cm). typed h (ce_value e) \<and> (\<forall>x. ce_key e = Some x \<longrightarrow> typed h x))"
  shows "good_graph h g' \<and> node_ids g \<subseteq> node_ids g' \<and> ordinary_edges g' = ordinary_edges g
    \<and> ephemerons g' = ephemerons g @ concat (map eph_of cms)
    \<and> (\<forall>cm \<in> set cms. (\<forall>x. cm_map cm = Some x \<longrightarrow> handle_ids [x] \<subseteq> node_ids g')
         \<and> (\<forall>e \<in> set (cm_entries cm). value_id (ce_value e) \<in> node_ids g'
              \<and> (\<forall>x. ce_key e = Some x \<longrightarrow> handle_ids [x] \<subseteq> node_ids g')))"
  using assms
proof (induction cms arbitrary: g)
  case (Cons cm cms)
  let ?g1 = "add_node_opt (cm_map cm) g"
  obtain g2 where g2: "add_weak_entries (cm_identity cm) (cm_entries cm) ?g1 = Some g2" "add_weak_maps cms g2 = Some g'"
    using Cons.prems(1) by (auto simp: Option.bind_eq_Some_conv)
  have g1: "good_graph h ?g1" "node_ids ?g1 = node_ids g \<union> (case cm_map cm of None \<Rightarrow> {} | Some x \<Rightarrow> handle_ids [x])"
    using Cons.prems(2,3) by (auto intro!: add_node_opt_props)
  have p2: "good_graph h g2 \<and> node_ids ?g1 \<subseteq> node_ids g2 \<and> ordinary_edges g2 = ordinary_edges ?g1
    \<and> ephemerons g2 = ephemerons ?g1 @ eph_of cm
    \<and> (\<forall>e \<in> set (cm_entries cm). value_id (ce_value e) \<in> node_ids g2
         \<and> (\<forall>x. ce_key e = Some x \<longrightarrow> handle_ids [x] \<subseteq> node_ids g2))"
    using add_weak_entries_props [OF g2(1) g1(1)] Cons.prems(3) by (simp add: eph_of_def)
  from Cons.IH [OF g2(2)] p2 Cons.prems(3)
  have IH: "good_graph h g' \<and> node_ids g2 \<subseteq> node_ids g' \<and> ordinary_edges g' = ordinary_edges g2
    \<and> ephemerons g' = ephemerons g2 @ concat (map eph_of cms)
    \<and> (\<forall>cm \<in> set cms. (\<forall>x. cm_map cm = Some x \<longrightarrow> handle_ids [x] \<subseteq> node_ids g')
         \<and> (\<forall>e \<in> set (cm_entries cm). value_id (ce_value e) \<in> node_ids g'
              \<and> (\<forall>x. ce_key e = Some x \<longrightarrow> handle_ids [x] \<subseteq> node_ids g')))" by simp
  have own: "handle_ids [x] \<subseteq> node_ids g'" if "cm_map cm = Some x" for x
    using IH p2 g1(2) that by auto
  have ents: "\<forall>e \<in> set (cm_entries cm). value_id (ce_value e) \<in> node_ids g'
      \<and> (\<forall>x. ce_key e = Some x \<longrightarrow> handle_ids [x] \<subseteq> node_ids g')"
  proof (intro ballI conjI allI impI)
    have sub: "node_ids g2 \<subseteq> node_ids g'" using IH by simp
    fix e assume e: "e \<in> set (cm_entries cm)"
    with p2 have v: "value_id (ce_value e) \<in> node_ids g2"
      and key: "\<forall>x. ce_key e = Some x \<longrightarrow> handle_ids [x] \<subseteq> node_ids g2" by simp_all
    from v sub show "value_id (ce_value e) \<in> node_ids g'" by (rule subsetD [rotated])
    show "handle_ids [x] \<subseteq> node_ids g'" if "ce_key e = Some x" for x
      using key that sub by blast
  qed
  have "node_ids g \<subseteq> node_ids ?g1" using g1(2) by auto
  also have "\<dots> \<subseteq> node_ids g2" using p2 by simp
  also have "\<dots> \<subseteq> node_ids g'" using IH by simp
  finally show ?case using IH p2 own ents by simp
qed simp

lemma add_weak_iterators_props:
  assumes "add_weak_iterators cis g = Some g'" and "good_graph h g"
    and "\<forall>ci \<in> set cis. typed h (ci_map ci) \<and> (\<forall>x. ci_iterator ci = Some x \<longrightarrow> typed h x)"
  shows "good_graph h g' \<and> node_ids g \<subseteq> node_ids g' \<and> ephemerons g' = ephemerons g
    \<and> ordinary_edges g' = ordinary_edges g @ map (\<lambda>ci. (ci_identity ci, value_id (ci_map ci))) cis
    \<and> (\<forall>ci \<in> set cis. value_id (ci_map ci) \<in> node_ids g'
         \<and> (\<forall>x. ci_iterator ci = Some x \<longrightarrow> handle_ids [x] \<subseteq> node_ids g'))"
  using assms
proof (induction cis arbitrary: g)
  case (Cons ci cis)
  let ?g1 = "add_node_opt (ci_iterator ci) g"
  obtain m k where m: "cycle_node (ci_map ci) = Some (m, k)"
    using Cons.prems(1) by (auto simp: Let_def split: option.splits)
  let ?g2 = "add_node (ci_map ci) ?g1"
  let ?g3 = "?g2\<lparr>ordinary_edges := ordinary_edges ?g2 @ [(ci_identity ci, m)]\<rparr>"
  have g1: "good_graph h ?g1" "node_ids ?g1 = node_ids g \<union> (case ci_iterator ci of None \<Rightarrow> {} | Some x \<Rightarrow> handle_ids [x])"
    using Cons.prems(2,3) by (auto intro!: add_node_opt_props)
  have g2: "good_graph h ?g2" using g1(1) Cons.prems(3) by (simp add: add_node_good)
  have ids: "node_ids ?g2 = node_ids ?g1 \<union> {m}"
    using add_node_ids [OF good_graph_wf [OF g1(1)], of "ci_map ci"] m by (auto simp: handle_ids_def)
  have "add_weak_iterators cis ?g3 = Some g'" using Cons.prems(1) m by (simp add: Let_def)
  from Cons.IH [OF this] g2 Cons.prems(3) have IH: "good_graph h g' \<and> node_ids ?g2 \<subseteq> node_ids g'
    \<and> ephemerons g' = ephemerons g
    \<and> ordinary_edges g' = ordinary_edges ?g3 @ map (\<lambda>ci. (ci_identity ci, value_id (ci_map ci))) cis
    \<and> (\<forall>ci \<in> set cis. value_id (ci_map ci) \<in> node_ids g'
         \<and> (\<forall>x. ci_iterator ci = Some x \<longrightarrow> handle_ids [x] \<subseteq> node_ids g'))" by simp
  have "value_id (ci_map ci) = m" by (simp add: value_id_def m)
  with IH ids g1(2) show ?case by auto
qed simp

end
