(* ===== verification/Cycle_Safety.thy ===== *)
theory Cycle_Safety
  imports Cycle_Build
begin

text \<open>
  What the marking of a collection means for the handles its traversal shows. The number of owners
  of an allocation is split here into the handles the collector can see, in other allocations and
  in the weak sidecars, and the rest; \<open>Cycle_Ownership\<close> relates that to the owners as they are stored. An allocation is reachable if
  it is held from elsewhere, or is a root of its own, or if a reachable allocation holds a handle
  of it, where the value of a weak map entry counts as held while both the map and the key are
  reachable. The marking never misses a reachable node, and when the graph covers the heap it
  marks nothing else.
\<close>

subsection \<open>The sidecars of a runtime\<close>

definition ephemerons_of :: "weak_runtime \<Rightarrow> ephemeron_edge list" where
  "ephemerons_of rt =
     concat (map (\<lambda>(m, state). map (\<lambda>e. \<lparr>eph_map = m, eph_key = key_identity e,
                                          eph_value = value_id (entry_value e)\<rparr>) (map_state_entries state)) (maps rt))"

definition iterator_edges :: "weak_runtime \<Rightarrow> (nat \<times> nat) list" where
  "iterator_edges rt = map (\<lambda>(i, it). (i, value_id (iter_map it))) (iterators rt)"

text \<open>The handles of the sidecars, and those their weak handles upgrade to, are typed.\<close>

definition weak_typed :: "heap \<Rightarrow> (nat \<Rightarrow> nat) \<Rightarrow> weak_runtime \<Rightarrow> bool" where
  "weak_typed h strong rt \<longleftrightarrow>
     (\<forall>(m, state) \<in> set (maps rt).
        (strong m \<noteq> 0 \<longrightarrow> typed h (ObjectV m))
        \<and> (\<forall>e \<in> set (map_state_entries state). typed h (entry_value e)
             \<and> (\<forall>x. weak_upgrade strong (entry_key e) = Some x \<longrightarrow> typed h x)))
     \<and> (\<forall>(i, it) \<in> set (iterators rt). typed h (iter_map it) \<and> (strong i \<noteq> 0 \<longrightarrow> typed h (ObjectV i)))"

lemma snapshot_of_runtime: "weak_cycle_snapshot_of strong w = cycle_snapshot strong (weak_runtime_of w)"
  by (simp add: weak_cycle_snapshot_of_def weak_runtime_of_def cycle_snapshot_def default_weak_runtime_def
      stale_identities_def split: option.splits)

lemma those_map_Some:
  "those (map f xs) = Some ys \<Longrightarrow> length ys = length xs \<and> (\<forall>k < length xs. f (xs ! k) = Some (ys ! k))"
proof (induction xs arbitrary: ys)
  case (Cons x xs)
  then obtain y zs where "f x = Some y" "those (map f xs) = Some zs" "ys = y # zs"
    by (auto split: option.splits)
  with Cons.IH [of zs] show ?case by (auto simp: nth_Cons split: nat.splits)
qed simp

lemma those_map_eq: "those (map f xs) = Some ys \<Longrightarrow> (\<And>x y. x \<in> set xs \<Longrightarrow> f x = Some y \<Longrightarrow> g y = k x) \<Longrightarrow> map g ys = map k xs"
  using those_map_Some [of f xs ys] by (intro nth_equalityI) auto

lemma those_map_mem: "those (map f xs) = Some ys \<Longrightarrow> y \<in> set ys \<Longrightarrow> \<exists>x \<in> set xs. f x = Some y"
  using those_map_Some [of f xs ys] by (metis in_set_conv_nth)

lemma those_map_mem2: "those (map f xs) = Some ys \<Longrightarrow> x \<in> set xs \<Longrightarrow> \<exists>y \<in> set ys. f x = Some y"
  using those_map_Some [of f xs ys] by (metis in_set_conv_nth)

lemma snapshot_entry_Some:
  "snapshot_entry strong e = Some ce \<Longrightarrow>
   ce_key_identity ce = key_identity e \<and> ce_key ce = weak_upgrade strong (entry_key e) \<and> ce_value ce = entry_value e"
  by (auto simp: snapshot_entry_def clone_cycle_handle_def split: if_splits)

lemma snapshot_map_Some:
  assumes "snapshot_map strong (m, state) = Some cm"
  shows "cm_identity cm = m" and "cm_map cm = upgrade_object strong (map_owner state)"
    and "eph_of cm = map (\<lambda>e. \<lparr>eph_map = m, eph_key = key_identity e, eph_value = value_id (entry_value e)\<rparr>) (map_state_entries state)"
    and "\<And>ce. ce \<in> set (cm_entries cm) \<Longrightarrow> \<exists>e \<in> set (map_state_entries state). ce_key ce = weak_upgrade strong (entry_key e) \<and> ce_value ce = entry_value e"
    and "\<And>e. e \<in> set (map_state_entries state) \<Longrightarrow> \<exists>ce \<in> set (cm_entries cm). ce_key ce = weak_upgrade strong (entry_key e) \<and> ce_value ce = entry_value e"
proof -
  from assms obtain es where es: "those (map (snapshot_entry strong) (map_state_entries state)) = Some es"
    and cm: "cm = \<lparr>cm_identity = m, cm_map = upgrade_object strong (map_owner state), cm_entries = es\<rparr>"
    by (auto simp: snapshot_map_def)
  show "cm_identity cm = m" and "cm_map cm = upgrade_object strong (map_owner state)" by (simp_all add: cm)
  show "eph_of cm = map (\<lambda>e. \<lparr>eph_map = m, eph_key = key_identity e, eph_value = value_id (entry_value e)\<rparr>) (map_state_entries state)"
    unfolding eph_of_def cm by (simp, rule those_map_eq [OF es]) (auto dest: snapshot_entry_Some)
  show "\<exists>e \<in> set (map_state_entries state). ce_key ce = weak_upgrade strong (entry_key e) \<and> ce_value ce = entry_value e"
    if "ce \<in> set (cm_entries cm)" for ce
    using those_map_mem [OF es, of ce] that snapshot_entry_Some by (fastforce simp: cm)
  show "\<exists>ce \<in> set (cm_entries cm). ce_key ce = weak_upgrade strong (entry_key e) \<and> ce_value ce = entry_value e"
    if "e \<in> set (map_state_entries state)" for e
    using those_map_mem2 [OF es that] snapshot_entry_Some by (fastforce simp: cm)
qed

subsection \<open>The allocation behind a node\<close>

text \<open>The handles that the allocation of an identity shows to the collector.\<close>

definition object_children :: "heap \<Rightarrow> fiber_table \<Rightarrow> nat \<Rightarrow> pvalue list" where
  "object_children h fibers i =
     (case map_of (allocs h) i of
        None \<Rightarrow> []
      | Some a \<Rightarrow> children_or_nil h fibers
          \<lparr>node_identity = i, node_kind = alloc_kind a, node_value = handle_of i (alloc_kind a)\<rparr>)"

lemma node_of_alloc:
  assumes "good_graph h g" and "n \<in> set (nodes g)"
  obtains a where "map_of (allocs h) (node_identity n) = Some a"
    and "n = \<lparr>node_identity = node_identity n, node_kind = alloc_kind a, node_value = handle_of (node_identity n) (alloc_kind a)\<rparr>"
proof -
  have cn: "cycle_node (node_value n) = Some (node_identity n, node_kind n)" and t: "typed h (node_value n)"
    using assms by (auto simp: good_graph_def graph_wf_def)
  then obtain a where "map_of (allocs h) (node_identity n) = Some a" "alloc_kind a = node_kind n"
    by (auto simp: typed_def split: option.splits)
  with cycle_node_handle [OF cn] that show ?thesis by (cases n) auto
qed

lemma node_object_children:
  assumes "good_graph h g" and "n \<in> set (nodes g)"
  shows "children_or_nil h fibers n = object_children h fibers (node_identity n)"
  using node_of_alloc [OF assms] by (metis (no_types, lifting) object_children_def option.simps(5))

subsection \<open>The built graph\<close>

text \<open>What the construction guarantees of the graph of a heap and its sidecars.\<close>

definition graph_of :: "heap \<Rightarrow> (nat \<Rightarrow> nat) \<Rightarrow> fiber_table \<Rightarrow> weak_runtime \<Rightarrow> cycle_graph \<Rightarrow> bool" where
  "graph_of h strong fibers rt g \<longleftrightarrow>
     good_graph h g \<and> ephemerons g = ephemerons_of rt
     \<and> set (iterator_edges rt) \<subseteq> set (ordinary_edges g)
     \<and> (\<forall>i. edges_into g i = length (filter (\<lambda>e. snd e = i) (iterator_edges rt))
            + sum_list (map (\<lambda>n. handle_count i (children_or_nil h fibers n)) (nodes g)))
     \<and> (\<forall>n \<in> set (nodes g). \<forall>i \<in> handle_ids (children_or_nil h fibers n).
          (node_identity n, i) \<in> set (ordinary_edges g) \<and> i \<in> node_ids g)
     \<and> (\<forall>(m, state) \<in> set (maps rt). (strong m \<noteq> 0 \<longrightarrow> m \<in> node_ids g)
          \<and> (\<forall>e \<in> set (map_state_entries state). value_id (entry_value e) \<in> node_ids g
               \<and> (strong (key_identity e) \<noteq> 0 \<longrightarrow> key_identity e \<in> node_ids g)))
     \<and> (\<forall>(i, it) \<in> set (iterators rt). (strong i \<noteq> 0 \<longrightarrow> i \<in> node_ids g) \<and> value_id (iter_map it) \<in> node_ids g)"

lemma upgrade_handle_ids:
  "strong (weak_identity w) \<noteq> 0 \<Longrightarrow> \<exists>x. weak_upgrade strong w = Some x \<and> handle_ids [x] = {weak_identity w}"
  by (cases w) (auto simp: handle_ids_def)

lemma fold_add_node_ids: "good_graph h g \<Longrightarrow> list_all (typed h) vs \<Longrightarrow> node_ids (fold add_node vs g) = node_ids g \<union> handle_ids vs"
proof (induction vs arbitrary: g)
  case (Cons v vs)
  have "handle_ids (v # vs) = handle_ids [v] \<union> handle_ids vs" by (auto simp: handle_ids_def)
  with Cons add_node_ids [OF good_graph_wf [OF Cons.prems(1)], of v] show ?case
    by (auto simp: add_node_good)
qed simp

lemma fold_add_node_edges: "ordinary_edges (fold add_node vs g) = ordinary_edges g" "ephemerons (fold add_node vs g) = ephemerons g"
  by (induction vs arbitrary: g) simp_all

lemma build_graph_of:
  assumes "build_cycle_graph_from_roots h strong fibers w roots = Some g"
    and ht: "heap_typed h fibers" and rt_ok: "list_all (typed h) roots"
    and wf: "weak_wf (weak_runtime_of w)" and wt: "weak_typed h strong (weak_runtime_of w)"
  shows "graph_of h strong fibers (weak_runtime_of w) g" and "handle_ids roots \<subseteq> node_ids g"
    and "(s, t) \<in> set (ordinary_edges g) \<Longrightarrow>
      t \<in> handle_ids (object_children h fibers s) \<or> (s, t) \<in> set (iterator_edges (weak_runtime_of w))"
proof -
  let ?rt = "weak_runtime_of w"
  define g0 where "g0 = fold add_node roots empty_graph"
  obtain snap ga gb where snap: "cycle_snapshot strong ?rt = Some snap"
    and ga: "add_weak_maps (snap_maps snap) (g0\<lparr>root_count := length (nodes g0), stale_weak_identities := snap_stale snap\<rparr>) = Some ga"
    and gb: "add_weak_iterators (snap_iterators snap) ga = Some gb"
    and g: "expand_from h fibers 0 gb = Some g"
    using assms(1)
    by (auto simp: build_cycle_graph_from_roots_def Let_def g0_def snapshot_of_runtime
        Option.bind_eq_Some_conv expand_value_edges_def)
  have maps: "those (map (snapshot_map strong) (maps ?rt)) = Some (snap_maps snap)"
    and its: "snap_iterators snap = map (\<lambda>(i, it). \<lparr>ci_identity = i,
        ci_iterator = upgrade_object strong (iter_owner it), ci_map = iter_map it\<rparr>) (iterators ?rt)"
    using snap by (auto simp: cycle_snapshot_def)
  have owner: "map_owner state = m" and eok: "list_all entry_ok (map_state_entries state)"
    if "(m, state) \<in> set (maps ?rt)" for m state
    using wf that by (auto simp: weak_wf_def maps_ok_def entries_ok_def)
  have iowner: "iter_owner it = i" and iobj: "object_identity (iter_map it) \<noteq> None"
    if "(i, it) \<in> set (iterators ?rt)" for i it
    using wf that by (auto simp: weak_wf_def iters_ok_def)
  have g0: "good_graph h (g0\<lparr>root_count := length (nodes g0), stale_weak_identities := snap_stale snap\<rparr>)"
    using rt_ok by (simp add: g0_def add_nodes_good)
  have g0_ids: "node_ids g0 = handle_ids roots"
    using fold_add_node_ids [OF empty_graph_good rt_ok] by (simp add: g0_def empty_graph_def)
  have mt: "\<forall>cm \<in> set (snap_maps snap). (\<forall>x. cm_map cm = Some x \<longrightarrow> typed h x)
      \<and> (\<forall>e \<in> set (cm_entries cm). typed h (ce_value e) \<and> (\<forall>x. ce_key e = Some x \<longrightarrow> typed h x))"
  proof
    fix cm assume "cm \<in> set (snap_maps snap)"
    then obtain m state where ms: "(m, state) \<in> set (maps ?rt)" "snapshot_map strong (m, state) = Some cm"
      using those_map_mem [OF maps] by (metis surj_pair)
    note sm = snapshot_map_Some [OF ms(2)]
    have t: "strong m \<noteq> 0 \<longrightarrow> typed h (ObjectV m)"
      "\<forall>e \<in> set (map_state_entries state). typed h (entry_value e) \<and> (\<forall>x. weak_upgrade strong (entry_key e) = Some x \<longrightarrow> typed h x)"
      using wt ms(1) by (auto simp: weak_typed_def)
    show "(\<forall>x. cm_map cm = Some x \<longrightarrow> typed h x)
      \<and> (\<forall>e \<in> set (cm_entries cm). typed h (ce_value e) \<and> (\<forall>x. ce_key e = Some x \<longrightarrow> typed h x))"
    proof (intro conjI allI impI ballI)
      show "typed h x" if "cm_map cm = Some x" for x
        using that sm(2) owner [OF ms(1)] t(1) by (auto simp: upgrade_object_def split: if_splits)
      fix ce assume "ce \<in> set (cm_entries cm)"
      from sm(4) [OF this] t(2) show "typed h (ce_value ce)" and "\<And>x. ce_key ce = Some x \<Longrightarrow> typed h x" by auto
    qed
  qed
  note pa = add_weak_maps_props [OF ga g0 mt]
  have it: "\<forall>ci \<in> set (snap_iterators snap). typed h (ci_map ci) \<and> (\<forall>x. ci_iterator ci = Some x \<longrightarrow> typed h x)"
    using wt iowner by (fastforce simp: its weak_typed_def upgrade_object_def split: if_splits)
  have "good_graph h ga" using pa by simp
  note pb = add_weak_iterators_props [OF gb this it]
  have gb_edges: "ordinary_edges gb = iterator_edges ?rt"
  proof -
    have "ordinary_edges ga = []" using pa by (simp add: g0_def fold_add_node_edges) (simp add: empty_graph_def)
    then show ?thesis using pb by (simp add: its iterator_edges_def comp_def case_prod_unfold)
  qed
  have gb_eph: "ephemerons gb = ephemerons_of ?rt"
  proof -
    have "map eph_of (snap_maps snap) = map (\<lambda>(m, state). map (\<lambda>e. \<lparr>eph_map = m, eph_key = key_identity e,
        eph_value = value_id (entry_value e)\<rparr>) (map_state_entries state)) (maps ?rt)"
      by (rule those_map_eq [OF maps]) (auto simp: snapshot_map_Some(3))
    then show ?thesis using pa pb by (simp add: ephemerons_of_def g0_def fold_add_node_edges) (simp add: empty_graph_def)
  qed
  have "expanded_to h fibers (edges_into gb) 0 gb"
    using pb by (simp add: expanded_to_def good_graph_def)
  note ex = expand_from_closed [OF g this]
  have good: "good_graph h g" using expand_from_good [OF g ht] pb by simp
  obtain ns where ns: "nodes g = nodes gb @ ns" using ex by blast
  have sub: "node_ids ga \<subseteq> node_ids g" "node_ids gb \<subseteq> node_ids g" using pb by (auto simp: ns)
  have mnode: "(strong m \<noteq> 0 \<longrightarrow> m \<in> node_ids g)
      \<and> (\<forall>e \<in> set (map_state_entries state). value_id (entry_value e) \<in> node_ids g
           \<and> (strong (key_identity e) \<noteq> 0 \<longrightarrow> key_identity e \<in> node_ids g))"
    if mem: "(m, state) \<in> set (maps ?rt)" for m state
  proof -
    obtain cm where cm: "cm \<in> set (snap_maps snap)" "snapshot_map strong (m, state) = Some cm"
      using those_map_mem2 [OF maps mem] by blast
    note sm = snapshot_map_Some [OF cm(2)]
    have own: "\<forall>x. cm_map cm = Some x \<longrightarrow> handle_ids [x] \<subseteq> node_ids ga"
      and ents: "\<forall>e \<in> set (cm_entries cm). value_id (ce_value e) \<in> node_ids ga
              \<and> (\<forall>x. ce_key e = Some x \<longrightarrow> handle_ids [x] \<subseteq> node_ids ga)" using pa cm(1) by auto
    have "m \<in> node_ids ga" if "strong m \<noteq> 0"
    proof -
      have "cm_map cm = Some (ObjectV m)" using sm(2) owner [OF \<open>(m, state) \<in> set (maps ?rt)\<close>] that
        by (simp add: upgrade_object_def)
      with own show ?thesis by (auto simp: handle_ids_def)
    qed
    moreover have "value_id (entry_value e) \<in> node_ids ga \<and> (strong (key_identity e) \<noteq> 0 \<longrightarrow> key_identity e \<in> node_ids ga)"
      if e: "e \<in> set (map_state_entries state)" for e
    proof -
      from sm(5) [OF e] obtain ce where ce: "ce \<in> set (cm_entries cm)"
        "ce_key ce = weak_upgrade strong (entry_key e)" "ce_value ce = entry_value e" by blast
      have "weak_identity (entry_key e) = key_identity e"
        using eok [OF \<open>(m, state) \<in> set (maps ?rt)\<close>] e by (simp add: list_all_iff entry_ok_def)
      with upgrade_handle_ids [of strong "entry_key e"] ents ce show ?thesis
        by (metis insert_subset)
    qed
    ultimately show ?thesis using sub(1) by blast
  qed
  have inode: "(strong i \<noteq> 0 \<longrightarrow> i \<in> node_ids g) \<and> value_id (iter_map it) \<in> node_ids g"
    if "(i, it) \<in> set (iterators ?rt)" for i it
  proof -
    let ?ci = "\<lparr>ci_identity = i, ci_iterator = upgrade_object strong (iter_owner it), ci_map = iter_map it\<rparr>"
    have "?ci \<in> set (snap_iterators snap)" using that by (force simp: its)
    with pb have "value_id (iter_map it) \<in> node_ids gb"
      "\<forall>x. upgrade_object strong (iter_owner it) = Some x \<longrightarrow> handle_ids [x] \<subseteq> node_ids gb" by fastforce+
    with iowner [OF that] sub(2) show ?thesis by (auto simp: upgrade_object_def handle_ids_def)
  qed
  have closed: "expanded_to h fibers (edges_into gb) (length (nodes g)) g"
    and eph: "ephemerons g = ephemerons gb" and edges: "set (ordinary_edges gb) \<subseteq> set (ordinary_edges g)"
    using ex by simp_all
  have into: "edges_into gb i = length (filter (\<lambda>e. snd e = i) (iterator_edges ?rt))" for i
    by (simp add: edges_into_def gb_edges)
  show "graph_of h strong fibers ?rt g"
    unfolding graph_of_def
    using good eph gb_eph edges gb_edges closed mnode inode into
    by (auto simp: expanded_to_def)
  show "handle_ids roots \<subseteq> node_ids g" using g0_ids pa sub(1) by auto
  show "t \<in> handle_ids (object_children h fibers s) \<or> (s, t) \<in> set (iterator_edges ?rt)"
    if "(s, t) \<in> set (ordinary_edges g)"
    using expand_from_origin [OF g that] gb_edges node_object_children [OF good] by auto
qed


subsection \<open>Owners and reachability\<close>

text \<open>How many handles of an allocation the collector can see in all.\<close>

definition visible_owners :: "heap \<Rightarrow> fiber_table \<Rightarrow> weak_runtime \<Rightarrow> nat \<Rightarrow> nat" where
  "visible_owners h fibers rt i =
     sum_list (map (\<lambda>(j, _). handle_count i (object_children h fibers j)) (allocs h))
     + length (filter (\<lambda>e. snd e = i) (iterator_edges rt))
     + length (filter (\<lambda>e. eph_value e = i) (ephemerons_of rt))"

inductive heap_reach :: "heap \<Rightarrow> fiber_table \<Rightarrow> weak_runtime \<Rightarrow> (nat \<Rightarrow> bool) \<Rightarrow> nat \<Rightarrow> bool"
  for h fibers rt root where
  root: "root i \<Longrightarrow> heap_reach h fibers rt root i"
| child: "heap_reach h fibers rt root j \<Longrightarrow> i \<in> handle_ids (object_children h fibers j) \<Longrightarrow>
    heap_reach h fibers rt root i"
| iterated: "heap_reach h fibers rt root j \<Longrightarrow> (j, i) \<in> set (iterator_edges rt) \<Longrightarrow>
    heap_reach h fibers rt root i"
| weak_entry: "heap_reach h fibers rt root (eph_map e) \<Longrightarrow> heap_reach h fibers rt root (eph_key e) \<Longrightarrow>
    e \<in> set (ephemerons_of rt) \<Longrightarrow> heap_reach h fibers rt root (eph_value e)"

text \<open>What is a root of the heap: an allocation with owners elsewhere, an object whose native
  state keeps it, or one that is not admitted to collection; all of them alive.\<close>

definition root_of :: "heap \<Rightarrow> (nat \<Rightarrow> nat) \<Rightarrow> (nat \<Rightarrow> nat) \<Rightarrow> nat list \<Rightarrow> nat \<Rightarrow> bool" where
  "root_of h strong external unadm i \<longleftrightarrow>
     strong i \<noteq> 0
     \<and> (external i \<noteq> 0 \<or> i \<in> set unadm
        \<or> (case object_at h i of None \<Rightarrow> False
           | Some obj \<Rightarrow> o_borrowed obj \<or> native_state_retains_cycle_root obj))"

lemma bump_length [simp]: "length (bump g t inc) = length inc"
  by (simp add: bump_def split: option.splits)

lemma bumps_nth:
  assumes wf: "graph_wf g" and "length inc = length (nodes g)" and k: "k < length (nodes g)"
    and "inc ! k + length (filter (\<lambda>x. f x = node_identity (nodes g ! k)) xs) \<le> usize_MAX"
  shows "fold (\<lambda>x. bump g (f x)) xs inc ! k = inc ! k + length (filter (\<lambda>x. f x = node_identity (nodes g ! k)) xs)"
    and "length (fold (\<lambda>x. bump g (f x)) xs inc) = length inc"
proof -
  show "length (fold (\<lambda>x. bump g (f x)) xs inc) = length inc" by (induction xs arbitrary: inc) simp_all
  show "fold (\<lambda>x. bump g (f x)) xs inc ! k = inc ! k + length (filter (\<lambda>x. f x = node_identity (nodes g ! k)) xs)"
    using assms(2,4)
  proof (induction xs arbitrary: inc)
    case (Cons x xs)
    have "bump g (f x) inc ! k = inc ! k + (if f x = node_identity (nodes g ! k) then 1 else 0)"
    proof (cases "node_indices g (f x)")
      case None
      then have "f x \<notin> node_ids g" using graph_wf_dom [OF wf, of "f x"] by simp
      then have "f x \<noteq> node_identity (nodes g ! k)" using k by auto
      with None show ?thesis by (simp add: bump_def)
    next
      case (Some t)
      then have t: "t < length (nodes g)" "node_identity (nodes g ! t) = f x" by (simp_all add: graph_wf_index [OF wf])
      have "distinct (map node_identity (nodes g))" using wf by (simp add: graph_wf_def)
      then have "f x = node_identity (nodes g ! k) \<longleftrightarrow> t = k"
        using t k by (simp add: distinct_conv_nth) metis
      with Some t(1) Cons.prems show ?thesis
        by (cases "t = k") (simp_all add: bump_def saturating_add_usize_def)
    qed
    with Cons.prems Cons.IH [of "bump g (f x) inc"] show ?case
      by (cases "f x = node_identity (nodes g ! k)") simp_all
  qed simp
qed

lemma incoming_counts_nth:
  assumes wf: "graph_wf g" and k: "k < length (nodes g)"
    and small: "length (ordinary_edges g) + length (ephemerons g) \<le> usize_MAX"
  shows "incoming_counts g ! k = edges_into g (node_identity (nodes g ! k))
    + length (filter (\<lambda>e. eph_value e = node_identity (nodes g ! k)) (ephemerons g))"
proof -
  let ?i = "node_identity (nodes g ! k)"
  let ?inc = "fold (\<lambda>e. bump g (snd e)) (ordinary_edges g) (replicate (length (nodes g)) 0)"
  have le: "length (filter (\<lambda>e. snd e = ?i) (ordinary_edges g)) + length (filter (\<lambda>e. eph_value e = ?i) (ephemerons g)) \<le> usize_MAX"
    using small length_filter_le [of "\<lambda>e. snd e = ?i" "ordinary_edges g"]
      length_filter_le [of "\<lambda>e. eph_value e = ?i" "ephemerons g"] by linarith
  have inc: "?inc ! k = length (filter (\<lambda>e. snd e = ?i) (ordinary_edges g))"
    and len: "length ?inc = length (nodes g)"
    using bumps_nth [OF wf _ k, of "replicate (length (nodes g)) 0" snd "ordinary_edges g"] le k by simp_all
  have "fold (\<lambda>e. bump g (eph_value e)) (ephemerons g) ?inc ! k
      = ?inc ! k + length (filter (\<lambda>e. eph_value e = ?i) (ephemerons g))"
    using bumps_nth(1) [OF wf len k, of eph_value "ephemerons g"] le inc by simp
  then show ?thesis
    by (simp add: incoming_counts_def edges_into_def inc case_prod_unfold)
qed

lemma nodes_sum:
  assumes "good_graph h g"
  shows "sum_list (map (\<lambda>n. handle_count i (children_or_nil h fibers n)) (nodes g))
    = (\<Sum>j \<in> node_ids g. handle_count i (object_children h fibers j))"
proof -
  have "distinct (map node_identity (nodes g))" using assms by (simp add: good_graph_def graph_wf_def)
  then have inj: "inj_on node_identity (set (nodes g))" and dist: "distinct (nodes g)" by (auto simp: distinct_map)
  have "sum_list (map (\<lambda>n. handle_count i (children_or_nil h fibers n)) (nodes g))
      = (\<Sum>n \<in> set (nodes g). handle_count i (children_or_nil h fibers n))"
    using dist by (simp add: sum_list_distinct_conv_sum_set)
  also have "\<dots> = (\<Sum>n \<in> set (nodes g). handle_count i (object_children h fibers (node_identity n)))"
    by (intro sum.cong refl) (simp add: node_object_children [OF assms])
  also have "\<dots> = (\<Sum>j \<in> node_ids g. handle_count i (object_children h fibers j))"
    by (simp add: sum.reindex [OF inj] comp_def)
  finally show ?thesis .
qed

lemma allocs_sum:
  assumes "distinct (map fst (allocs h))"
  shows "sum_list (map (\<lambda>(j, _). handle_count i (object_children h fibers j)) (allocs h))
    = (\<Sum>j \<in> fst ` set (allocs h). handle_count i (object_children h fibers j))"
proof -
  have "sum_list (map (\<lambda>(j, _). handle_count i (object_children h fibers j)) (allocs h))
      = sum_list (map (\<lambda>j. handle_count i (object_children h fibers j)) (map fst (allocs h)))"
    by (intro arg_cong [of _ _ sum_list]) auto
  also have "\<dots> = (\<Sum>j \<in> set (map fst (allocs h)). handle_count i (object_children h fibers j))"
    using assms by (rule sum_list_distinct_conv_sum_set)
  finally show ?thesis by simp
qed

text \<open>The handles the graph does not account for are those held by allocations outside it.\<close>

lemma visible_owners_split:
  assumes g: "graph_of h strong fibers rt g" and dist: "distinct (map fst (allocs h))"
  shows "visible_owners h fibers rt i =
    edges_into g i + length (filter (\<lambda>e. eph_value e = i) (ephemerons g))
    + (\<Sum>j \<in> fst ` set (allocs h) - node_ids g. handle_count i (object_children h fibers j))"
proof -
  have good: "good_graph h g" using g by (simp add: graph_of_def)
  have sub: "node_ids g \<subseteq> fst ` set (allocs h)"
  proof
    fix j assume "j \<in> node_ids g"
    then obtain n where "n \<in> set (nodes g)" "node_identity n = j" by auto
    with node_of_alloc [OF good] obtain a where "map_of (allocs h) j = Some a" by metis
    then show "j \<in> fst ` set (allocs h)" by (force dest: map_of_SomeD)
  qed
  have "(\<Sum>j \<in> fst ` set (allocs h). handle_count i (object_children h fibers j))
      = (\<Sum>j \<in> fst ` set (allocs h) - node_ids g. handle_count i (object_children h fibers j))
        + (\<Sum>j \<in> node_ids g. handle_count i (object_children h fibers j))"
    by (rule sum.subset_diff [OF sub]) simp
  with g show ?thesis
    by (simp add: visible_owners_def allocs_sum [OF dist] graph_of_def nodes_sum [OF good])
qed

lemma child_alloc: "i \<in> handle_ids (object_children h fibers j) \<Longrightarrow> j \<in> fst ` set (allocs h)"
  by (auto simp: object_children_def split: option.splits dest: map_of_SomeD intro: rev_image_eqI)

lemma child_visible:
  assumes "distinct (map fst (allocs h))" and "i \<in> handle_ids (object_children h fibers j)"
  shows "0 < visible_owners h fibers rt i"
proof -
  have "handle_count i (object_children h fibers j) \<le> (\<Sum>j \<in> fst ` set (allocs h). handle_count i (object_children h fibers j))"
    by (rule member_le_sum) (use child_alloc [OF assms(2)] in auto)
  with assms show ?thesis by (simp add: visible_owners_def allocs_sum handle_count_pos [symmetric])
qed

lemma reach_alive:
  assumes "distinct (map fst (allocs h))" and "\<And>i. strong i = external i + visible_owners h fibers rt i"
    and "heap_reach h fibers rt (root_of h strong external unadm) i"
  shows "strong i \<noteq> 0"
  using assms(3)
proof (induction rule: heap_reach.induct)
  case (root i)
  then show ?case by (simp add: root_of_def)
next
  case (child j i)
  from child_visible [OF assms(1) child(2), of rt] assms(2) [of i] show ?case by simp
next
  case (iterated j i)
  then have "0 < length (filter (\<lambda>e. snd e = i) (iterator_edges rt))" by (force simp: filter_empty_conv)
  with assms(2) [of i] show ?case by (simp add: visible_owners_def)
next
  case (weak_entry e)
  then have "0 < length (filter (\<lambda>e'. eph_value e' = eph_value e) (ephemerons_of rt))" by (auto simp: filter_empty_conv)
  with assms(2) [of "eph_value e"] show ?case by (simp add: visible_owners_def)
qed

lemma eph_entry:
  assumes "e \<in> set (ephemerons_of rt)"
  obtains m state w where "(m, state) \<in> set (maps rt)" and "w \<in> set (map_state_entries state)"
    and "eph_map e = m" and "eph_key e = key_identity w" and "eph_value e = value_id (entry_value w)"
  using assms by (auto simp: ephemerons_of_def)

lemma node_is_root:
  assumes g: "graph_of h strong fibers rt g" and dist: "distinct (map fst (allocs h))"
    and counts: "\<And>i. strong i = external i + visible_owners h fibers rt i"
    and small: "length (ordinary_edges g) + length (ephemerons g) \<le> usize_MAX"
    and k: "k < length (nodes g)" and i: "node_identity (nodes g ! k) = i"
  shows "is_root h strong g (incoming_counts g) k \<longleftrightarrow>
    native_root h (nodes g ! k) \<or> i \<in> set (unadmitted_nodes g) \<or> external i \<noteq> 0
    \<or> (\<exists>j \<in> fst ` set (allocs h) - node_ids g. i \<in> handle_ids (object_children h fibers j))"
proof -
  have wf: "graph_wf g" using g by (simp add: graph_of_def good_graph_def)
  have "strong i + 1 - (1 + incoming_counts g ! k)
      = external i + (\<Sum>j \<in> fst ` set (allocs h) - node_ids g. handle_count i (object_children h fibers j))"
    using incoming_counts_nth [OF wf k small] i counts [of i] visible_owners_split [OF g dist, of i] by simp
  moreover have "(\<Sum>j \<in> fst ` set (allocs h) - node_ids g. handle_count i (object_children h fibers j)) \<noteq> 0
      \<longleftrightarrow> (\<exists>j \<in> fst ` set (allocs h) - node_ids g. i \<in> handle_ids (object_children h fibers j))"
    by (simp add: sum_eq_0_iff handle_count_pos [symmetric])
  ultimately show ?thesis by (auto simp: is_root_def i)
qed

lemma native_root_object:
  assumes "good_graph h g" and "n \<in> set (nodes g)"
  shows "native_root h n \<longleftrightarrow> (case object_at h (node_identity n) of None \<Rightarrow> False
     | Some obj \<Rightarrow> o_borrowed obj \<or> native_state_retains_cycle_root obj)"
proof -
  obtain a where "map_of (allocs h) (node_identity n) = Some a" "node_kind n = alloc_kind a"
    using node_of_alloc [OF assms] by (metis cycle_graph_node.select_convs(2))
  then show ?thesis by (cases a) (auto simp: native_root_def object_at_def)
qed

lemma reach_is_live:
  assumes g: "graph_of h strong fibers rt g" and dist: "distinct (map fst (allocs h))"
    and counts: "\<And>i. strong i = external i + visible_owners h fibers rt i"
    and small: "length (ordinary_edges g) + length (ephemerons g) \<le> usize_MAX"
    and "heap_reach h fibers rt (root_of h strong external (unadmitted_nodes g)) i" and "i \<in> node_ids g"
  shows "graph_live h strong g i"
  using assms(5,6)
proof (induction rule: heap_reach.induct)
  case (root i)
  then obtain k where k: "k < length (nodes g)" "node_identity (nodes g ! k) = i" by (auto simp: in_set_conv_nth)
  have good: "good_graph h g" using g by (simp add: graph_of_def)
  from root(1) native_root_object [OF good nth_mem [OF k(1)]] k(2)
  have "is_root h strong g (incoming_counts g) k"
    by (auto simp: node_is_root [OF g dist counts small k] root_of_def)
  with graph_live.root [OF k(1)] k(2) show ?case by blast
next
  case (child j i)
  show ?case
  proof (cases "j \<in> node_ids g")
    case True
    then obtain n where n: "n \<in> set (nodes g)" "node_identity n = j" by auto
    have "i \<in> handle_ids (children_or_nil h fibers n)"
      using child(2) node_object_children [of h g n fibers] g n by (simp add: graph_of_def)
    with g n have "(j, i) \<in> set (ordinary_edges g)" by (auto simp: graph_of_def)
    with child True show ?thesis by (blast intro: graph_live.edge)
  next
    case False
    from child(4) obtain k where k: "k < length (nodes g)" "node_identity (nodes g ! k) = i" by (auto simp: in_set_conv_nth)
    have "j \<in> fst ` set (allocs h) - node_ids g" using child_alloc [OF child(2)] False by blast
    with child(2) have "is_root h strong g (incoming_counts g) k"
      unfolding node_is_root [OF g dist counts small k] by blast
    with graph_live.root [OF k(1)] k(2) show ?thesis by blast
  qed
next
  case (iterated j i)
  have alive: "strong j \<noteq> 0" using reach_alive [OF dist counts iterated(1)] .
  from iterated(2) obtain it where it: "(j, it) \<in> set (iterators rt)" by (auto simp: iterator_edges_def)
  with g alive have "j \<in> node_ids g" by (auto simp: graph_of_def)
  moreover have "(j, i) \<in> set (ordinary_edges g)" using g iterated(2) by (auto simp: graph_of_def)
  ultimately show ?case using iterated by (blast intro: graph_live.edge)
next
  case (weak_entry e)
  obtain m state w where mw: "(m, state) \<in> set (maps rt)" "w \<in> set (map_state_entries state)"
    "eph_map e = m" "eph_key e = key_identity w" using eph_entry [OF weak_entry(3)] by metis
  have "strong m \<noteq> 0" "strong (key_identity w) \<noteq> 0"
    using reach_alive [OF dist counts weak_entry(1)] reach_alive [OF dist counts weak_entry(2)] mw by simp_all
  with g mw have "eph_map e \<in> node_ids g" "eph_key e \<in> node_ids g" by (auto simp: graph_of_def)
  with weak_entry g show ?case by (intro graph_live.ephemeron) (auto simp: graph_of_def)
qed

lemma live_is_reach:
  assumes g: "graph_of h strong fibers rt g" and dist: "distinct (map fst (allocs h))"
    and counts: "\<And>i. strong i = external i + visible_owners h fibers rt i"
    and small: "length (ordinary_edges g) + length (ephemerons g) \<le> usize_MAX"
    and cover: "fst ` set (allocs h) \<subseteq> node_ids g" and alive: "\<And>i. i \<in> node_ids g \<Longrightarrow> strong i \<noteq> 0"
    and edges: "\<And>s t. (s, t) \<in> set (ordinary_edges g) \<Longrightarrow>
      t \<in> handle_ids (object_children h fibers s) \<or> (s, t) \<in> set (iterator_edges rt)"
    and "graph_live h strong g i"
  shows "heap_reach h fibers rt (root_of h strong external (unadmitted_nodes g)) i"
  using assms(8)
proof (induction rule: graph_live.induct)
  case (root k)
  let ?i = "node_identity (nodes g ! k)"
  have good: "good_graph h g" using g by (simp add: graph_of_def)
  have none: "fst ` set (allocs h) - node_ids g = {}" using cover by blast
  from root(2) have "native_root h (nodes g ! k) \<or> ?i \<in> set (unadmitted_nodes g) \<or> external ?i \<noteq> 0"
    unfolding node_is_root [OF g dist counts small root(1) refl] none by blast
  moreover have "strong ?i \<noteq> 0" using alive root(1) by auto
  ultimately have "root_of h strong external (unadmitted_nodes g) ?i"
    using native_root_object [OF good nth_mem [OF root(1)]] by (auto simp: root_of_def)
  then show ?case by (rule heap_reach.root)
next
  case (edge s t)
  from edges [OF edge(2)] edge(4) show ?case by (blast intro: heap_reach.child heap_reach.iterated)
next
  case (ephemeron e)
  then show ?case using g by (intro heap_reach.weak_entry) (simp_all add: graph_of_def)
qed

end
