(* ===== verification/Cycle_Ownership.thy ===== *)
theory Cycle_Ownership
  imports Cycle_Safety
begin

text \<open>
  The owners of an allocation, counted where they are stored and not by the traversal of the
  collector: every field of every allocation, every store of function statics and every fiber
  table once, and the handles of the weak sidecars. The traversal of an allocation visits no
  handle that the allocation does not hold, and none twice, as long as a layout lists no slot
  twice and no two allocations share a store of statics. It may leave handles out (a closure
  that cannot lead back into a cycle, a declared property of an object with a detached table);
  what such a handle names has an owner the graph does not count, so that it is a root.
\<close>

subsection \<open>What an allocation holds\<close>

fun static_store :: "allocation \<Rightarrow> nat option" where
  "static_store (ClosureAlloc c) = c_static_vars c"
| "static_store (ObjectAlloc obj) = (case o_generator obj of None \<Rightarrow> None | Some g \<Rightarrow> closure_static_vars g)"
| "static_store _ = None"

definition store_values :: "heap \<Rightarrow> nat option \<Rightarrow> pvalue list" where
  "store_values h store =
     (case Option.bind store (map_of (statics h)) of None \<Rightarrow> [] | Some sv \<Rightarrow> sv_values sv)"

definition held_values :: "heap \<Rightarrow> fiber_table \<Rightarrow> nat \<Rightarrow> pvalue list" where
  "held_values h fibers j =
     (case map_of (allocs h) j of
        None \<Rightarrow> []
      | Some a \<Rightarrow> alloc_values a @ store_values h (static_store a) @ fiber_cycle_children fibers j)"

text \<open>All handles of an allocation that are stored in the heap, the fibers and the sidecars.\<close>

definition stored_owners :: "heap \<Rightarrow> fiber_table \<Rightarrow> weak_runtime \<Rightarrow> nat \<Rightarrow> nat" where
  "stored_owners h fibers rt i =
     handle_count i (heap_values h @ concat (map snd fibers))
     + length (filter (\<lambda>e. snd e = i) (iterator_edges rt))
     + length (filter (\<lambda>e. eph_value e = i) (ephemerons_of rt))"

text \<open>No slot of a layout is listed twice, and no store of statics has two holders.\<close>

definition unshared :: "heap \<Rightarrow> bool" where
  "unshared h \<longleftrightarrow>
     distinct (List.map_filter (static_store \<circ> snd) (allocs h))
     \<and> (\<forall>(j, a) \<in> set (allocs h). case a of ObjectAlloc obj \<Rightarrow> distinct (iteration_slots obj) | _ \<Rightarrow> True)"

inductive held_reach :: "heap \<Rightarrow> fiber_table \<Rightarrow> weak_runtime \<Rightarrow> (nat \<Rightarrow> bool) \<Rightarrow> nat \<Rightarrow> bool"
  for h fibers rt root where
  root: "root i \<Longrightarrow> held_reach h fibers rt root i"
| holds: "held_reach h fibers rt root j \<Longrightarrow> i \<in> handle_ids (held_values h fibers j) \<Longrightarrow>
    held_reach h fibers rt root i"
| iterated: "held_reach h fibers rt root j \<Longrightarrow> (j, i) \<in> set (iterator_edges rt) \<Longrightarrow>
    held_reach h fibers rt root i"
| weak_entry: "held_reach h fibers rt root (eph_map e) \<Longrightarrow> held_reach h fibers rt root (eph_key e) \<Longrightarrow>
    e \<in> set (ephemerons_of rt) \<Longrightarrow> held_reach h fibers rt root (eph_value e)"

subsection \<open>The traversal visits what is held, once\<close>

lemma handle_count_size: "handle_count i vs = size (filter_mset (\<lambda>v. map_option fst (cycle_node v) = Some i) (mset vs))"
  unfolding handle_count_def mset_filter [symmetric] size_mset ..

lemma handle_count_append [simp]: "handle_count i (vs @ ws) = handle_count i vs + handle_count i ws"
  by (simp add: handle_count_def)

lemma handle_count_mono: "mset vs \<subseteq># mset ws \<Longrightarrow> handle_count i vs \<le> handle_count i ws"
  unfolding handle_count_size by (intro size_mset_mono multiset_filter_mono)

lemma visit_then_mset: "mset (fst (visit_then a b)) \<subseteq># mset (fst a) + mset (fst b)"
  by (cases "(a, b)" rule: visit_then.cases) auto

lemma statics_visit_mset: "mset (fst (statics_visit h store)) \<subseteq># mset (store_values h store)"
  by (auto simp: statics_visit_def store_values_def split: option.splits)

lemma generator_visit_mset:
  "mset (fst (generator_visit h g)) \<subseteq># mset (generator_values g) + mset (store_values h (closure_static_vars g))"
proof -
  let ?sv = "statics_visit h (closure_static_vars g)"
  obtain vs ok where sv: "?sv = (vs, ok)" by force
  have "mset (fst (generator_visit h g)) \<subseteq># mset (generator_values g) + mset vs"
    by (cases ok)
      (auto simp: generator_visit_def sv generator_values_def option_values_def split: option.splits yield_from_delegate.splits)
  also have "\<dots> \<subseteq># mset (generator_values g) + mset (store_values h (closure_static_vars g))"
    using statics_visit_mset [of h "closure_static_vars g"] sv by simp
  finally show ?thesis .
qed

lemma declared_values_mset:
  assumes "distinct (iteration_slots obj)"
  shows "mset (declared_values obj) \<subseteq># mset (property_values obj)"
proof -
  let ?vs = "property_values obj" and ?slots = "filter (\<lambda>s. s < layout_keys obj \<and> s < length (property_values obj)) (iteration_slots obj)"
  have "List.map_filter (\<lambda>slot. if slot < layout_keys obj then vec_get ?vs slot else None) ss
      = map (\<lambda>s. ?vs ! s) (filter (\<lambda>s. s < layout_keys obj \<and> s < length ?vs) ss)" for ss
    by (induction ss) (simp_all add: List.map_filter_simps vec_get_def)
  then have "declared_values obj = map (\<lambda>s. ?vs ! s) ?slots" by (simp add: declared_values_def)
  moreover have "mset ?slots \<subseteq># mset [0..<length ?vs]"
  proof -
    have "mset ?slots = mset_set (set ?slots)" by (rule mset_set_set [OF distinct_filter [OF assms], symmetric])
    also have "\<dots> \<subseteq># mset_set {0..<length ?vs}" by (rule subset_imp_msubset_mset_set) auto
    finally show ?thesis by simp
  qed
  then have "mset (map (\<lambda>s. ?vs ! s) ?slots) \<subseteq># mset (map (\<lambda>s. ?vs ! s) [0..<length ?vs])"
    by (simp add: image_mset_subseteq_mono del: mset_filter)
  ultimately show ?thesis by (simp add: map_nth)
qed

lemma object_visit_mset:
  assumes "distinct (iteration_slots obj)"
  shows "mset (fst (object_visit h obj)) \<subseteq># mset (alloc_values (ObjectAlloc obj)) + mset (store_values h (static_store (ObjectAlloc obj)))"
proof -
  define gv where "gv = (case o_generator obj of None \<Rightarrow> ([], True) | Some g \<Rightarrow> if g_borrowed g then ([], False) else generator_visit h g)"
  define held where "held = (case o_generator obj of None \<Rightarrow> [] | Some g \<Rightarrow> generator_values g)"
  let ?store = "store_values h (static_store (ObjectAlloc obj))"
  have gen: "mset (fst gv) \<subseteq># mset held + mset ?store"
    using generator_visit_mset by (auto simp: gv_def held_def split: option.splits)
  have owned: "mset (owned_values obj) \<subseteq># mset (property_values obj
      @ (case dynamic_properties obj of None \<Rightarrow> [] | Some dynamic \<Rightarrow> dp_values dynamic @ native_owned_values dynamic))"
    using declared_values_mset [OF assms]
    by (auto simp: owned_values_def property_visit_def ac_simps split: option.splits)
  have "mset (fst (object_visit h obj)) \<subseteq># mset (owned_values obj) + mset (fst gv)"
    using visit_then_mset [of "(owned_values obj, True)" gv] by (simp add: object_visit_def gv_def)
  also have "\<dots> \<subseteq># mset (alloc_values (ObjectAlloc obj)) + mset ?store"
    using subset_mset.add_mono [OF owned gen] by (simp add: held_def ac_simps)
  finally show ?thesis .
qed

lemma node_visit_mset:
  assumes a: "map_of (allocs h) j = Some a" and "unshared h"
  shows "mset (fst (node_visit h (handle_of j (alloc_kind a)))) \<subseteq># mset (alloc_values a) + mset (store_values h (static_store a))"
proof (cases a)
  case (ArrayAlloc vs)
  with a show ?thesis by (simp add: node_visit_def array_at_def)
next
  case (ObjectAlloc obj)
  have "distinct (iteration_slots obj)"
    using assms(2) map_of_SomeD [OF a] ObjectAlloc by (fastforce simp: unshared_def)
  from object_visit_mset [OF this, of h] a ObjectAlloc show ?thesis
    by (simp add: node_visit_def object_at_def)
next
  case (ReferenceAlloc v)
  with a show ?thesis by (simp add: node_visit_def cell_at_def)
next
  case (ClosureAlloc c)
  have "mset (fst (closure_visit h c)) \<subseteq># mset (option_values (bound_this c) @ captures c) + mset (fst (statics_visit h (c_static_vars c)))"
    using visit_then_mset [of "(option_values (bound_this c) @ captures c, True)" "statics_visit h (c_static_vars c)"]
    by (simp add: closure_visit_def option_values_def)
  also have "\<dots> \<subseteq># mset (option_values (bound_this c) @ captures c) + mset (store_values h (c_static_vars c))"
    using statics_visit_mset by simp
  finally show ?thesis using a ClosureAlloc by (simp add: node_visit_def closure_at_def)
qed

lemma children_mset:
  assumes "unshared h"
  shows "mset (object_children h fibers j) \<subseteq># mset (held_values h fibers j)"
proof (cases "map_of (allocs h) j")
  case None
  then show ?thesis by (simp add: object_children_def)
next
  case (Some a)
  let ?v = "handle_of j (alloc_kind a)"
  let ?n = "\<lparr>node_identity = j, node_kind = alloc_kind a, node_value = ?v\<rparr>"
  have own: "mset cs \<subseteq># mset (alloc_values a) + mset (store_values h (static_store a))"
    if "for_each_cycle_child_handle h ?v = Some cs" for cs
  proof (cases "\<exists>obj. a = ObjectAlloc obj \<and> has_detached_property_table obj")
    case True
    then obtain obj where a: "a = ObjectAlloc obj" and det: "has_detached_property_table obj" by blast
    then have "mset cs \<subseteq># mset (detached_visit obj)"
      using that Some by (auto simp: for_each_cycle_child_handle_def object_at_def map_filter_clone split: if_splits)
    also have "\<dots> \<subseteq># mset (alloc_values a) + mset (store_values h (static_store a))"
      by (auto simp: a detached_visit_def ac_simps split: option.splits)
    finally show ?thesis .
  next
    case False
    with that Some have "cs = filter is_cycle_value (fst (node_visit h ?v))"
      by (cases a) (auto simp: for_each_cycle_child_handle_def try_for_each_cycle_child_handle_def object_at_def
          map_filter_clone Let_def split_beta split: if_splits)
    then have "mset cs \<subseteq># mset (fst (node_visit h ?v))" by simp
    also have "\<dots> \<subseteq># mset (alloc_values a) + mset (store_values h (static_store a))"
      by (rule node_visit_mset [OF Some assms])
    finally show ?thesis .
  qed
  show ?thesis
  proof (cases "for_each_cycle_child_handle h ?v")
    case None
    then show ?thesis using Some by (simp add: object_children_def children_or_nil_def node_children_def)
  next
    case (Some cs)
    from own [OF Some] \<open>map_of (allocs h) j = Some a\<close> Some show ?thesis
      by (auto simp: object_children_def children_or_nil_def node_children_def held_values_def add.assoc
          intro: subset_mset.add_mono subset_mset.order_trans [of _ "mset (alloc_values a) + mset (store_values h (static_store a))"])
  qed
qed

subsection \<open>Comparing the counts\<close>

lemma lookup_sum_le:
  fixes f :: "'b \<Rightarrow> nat"
  assumes "distinct js"
  shows "sum_list (map (\<lambda>j. case map_of xs j of None \<Rightarrow> 0 | Some v \<Rightarrow> f v) js) \<le> sum_list (map (f \<circ> snd) xs)"
  using assms
proof (induction xs arbitrary: js)
  case (Cons p xs)
  obtain k v where p: "p = (k, v)" by force
  have other: "map (\<lambda>j. case map_of (p # xs) j of None \<Rightarrow> 0 | Some v \<Rightarrow> f v) ks
      = map (\<lambda>j. case map_of xs j of None \<Rightarrow> 0 | Some v \<Rightarrow> f v) ks" if "k \<notin> set ks" for ks
    using that by (auto simp: p)
  show ?case
  proof (cases "k \<in> set js")
    case True
    then obtain as bs where js: "js = as @ k # bs" by (meson split_list)
    with Cons.prems have "distinct (as @ bs)" "k \<notin> set as" "k \<notin> set bs" by auto
    then have "map (\<lambda>j. case map_of (p # xs) j of None \<Rightarrow> 0 | Some v \<Rightarrow> f v) js
        = map (\<lambda>j. case map_of xs j of None \<Rightarrow> 0 | Some v \<Rightarrow> f v) as
          @ f v # map (\<lambda>j. case map_of xs j of None \<Rightarrow> 0 | Some v \<Rightarrow> f v) bs"
      using other [of as] other [of bs] by (simp add: js p)
    with Cons.IH [OF \<open>distinct (as @ bs)\<close>] show ?thesis by (simp only: sum_list_append) (simp add: p)
  next
    case False
    show ?thesis unfolding other [OF False] using Cons.IH [OF Cons.prems] by (simp add: p)
  qed
qed simp

lemma handle_count_concat: "handle_count i (concat vss) = sum_list (map (handle_count i) vss)"
  by (induction vss) (simp_all add: handle_count_def)

lemma store_sum:
  "sum_list (map (\<lambda>(j, a). handle_count i (store_values h (static_store a))) as)
   = sum_list (map (\<lambda>s. case map_of (statics h) s of None \<Rightarrow> 0 | Some sv \<Rightarrow> handle_count i (sv_values sv))
       (List.map_filter (static_store \<circ> snd) as))"
  by (induction as)
    (auto simp: List.map_filter_simps store_values_def handle_count_def split: option.splits)

lemma held_sum_le:
  assumes dist: "distinct (map fst (allocs h))" and "unshared h"
  shows "(\<Sum>j \<in> fst ` set (allocs h). handle_count i (held_values h fibers j)) \<le> handle_count i (heap_values h @ concat (map snd fibers))"
proof -
  have "(\<Sum>j \<in> fst ` set (allocs h). handle_count i (held_values h fibers j))
      = sum_list (map (\<lambda>j. handle_count i (held_values h fibers j)) (map fst (allocs h)))"
    using sum_list_distinct_conv_sum_set [OF dist, of "\<lambda>j. handle_count i (held_values h fibers j)"] by simp
  also have "\<dots> = sum_list (map (\<lambda>(j, a). handle_count i (alloc_values a) + handle_count i (store_values h (static_store a))
        + handle_count i (fiber_cycle_children fibers j)) (allocs h))"
    using dist by (auto simp: held_values_def intro!: arg_cong [where f = sum_list])
  also have "\<dots> = sum_list (map (\<lambda>(j, a). handle_count i (alloc_values a)) (allocs h))
      + sum_list (map (\<lambda>(j, a). handle_count i (store_values h (static_store a))) (allocs h))
      + sum_list (map (\<lambda>j. handle_count i (fiber_cycle_children fibers j)) (map fst (allocs h)))"
    by (simp add: case_prod_unfold sum_list_addf comp_def)
  also have "\<dots> \<le> handle_count i (heap_values h @ concat (map snd fibers))"
  proof -
    have "sum_list (map (\<lambda>(j, a). handle_count i (store_values h (static_store a))) (allocs h))
        \<le> sum_list (map ((\<lambda>sv. handle_count i (sv_values sv)) \<circ> snd) (statics h))"
      using assms(2) unfolding store_sum by (intro lookup_sum_le) (simp add: unshared_def)
    moreover have "handle_count i (fiber_cycle_children fibers j)
        = (case map_of fibers j of None \<Rightarrow> 0 | Some vs \<Rightarrow> handle_count i vs)" for j
      by (simp add: fiber_cycle_children_def handle_count_def split: option.splits)
    then have "sum_list (map (\<lambda>j. handle_count i (fiber_cycle_children fibers j)) (map fst (allocs h)))
        \<le> sum_list (map (handle_count i \<circ> snd) fibers)"
      using lookup_sum_le [OF dist, of "handle_count i" fibers] by simp
    ultimately show ?thesis
      by (simp add: heap_values_def handle_count_concat comp_def case_prod_unfold)
  qed
  finally show ?thesis .
qed

lemma visible_le_stored:
  assumes dist: "distinct (map fst (allocs h))" and un: "unshared h"
  shows "visible_owners h fibers rt i \<le> stored_owners h fibers rt i"
    and "i \<in> handle_ids (held_values h fibers j) \<Longrightarrow> i \<notin> handle_ids (object_children h fibers j) \<Longrightarrow>
      visible_owners h fibers rt i < stored_owners h fibers rt i"
proof -
  let ?held = "\<lambda>j. handle_count i (held_values h fibers j)" and ?seen = "\<lambda>j. handle_count i (object_children h fibers j)"
  have le: "?seen j \<le> ?held j" for j by (rule handle_count_mono [OF children_mset [OF un]])
  have seen: "visible_owners h fibers rt i = (\<Sum>j \<in> fst ` set (allocs h). ?seen j)
      + length (filter (\<lambda>e. snd e = i) (iterator_edges rt)) + length (filter (\<lambda>e. eph_value e = i) (ephemerons_of rt))"
    by (simp add: visible_owners_def allocs_sum [OF dist])
  show "visible_owners h fibers rt i \<le> stored_owners h fibers rt i"
    using sum_mono [of "fst ` set (allocs h)" ?seen ?held] le held_sum_le [OF dist un, of i fibers]
    by (simp add: seen stored_owners_def)
  assume held: "i \<in> handle_ids (held_values h fibers j)" and hidden: "i \<notin> handle_ids (object_children h fibers j)"
  have "j \<in> fst ` set (allocs h)"
    using held by (auto simp: held_values_def split: option.splits dest: map_of_SomeD intro: rev_image_eqI)
  moreover have "?seen j < ?held j"
    using held hidden handle_count_pos [of i] by (metis gr_zeroI)
  ultimately have "(\<Sum>j \<in> fst ` set (allocs h). ?seen j) < (\<Sum>j \<in> fst ` set (allocs h). ?held j)"
    using le by (intro sum_strict_mono_ex1) auto
  with held_sum_le [OF dist un, of i fibers] show "visible_owners h fibers rt i < stored_owners h fibers rt i"
    by (simp add: seen stored_owners_def)
qed

subsection \<open>Real and visible reachability\<close>

text \<open>The owners the traversal leaves over are at least those elsewhere.\<close>

definition unseen_owners :: "heap \<Rightarrow> (nat \<Rightarrow> nat) \<Rightarrow> fiber_table \<Rightarrow> weak_runtime \<Rightarrow> nat \<Rightarrow> nat" where
  "unseen_owners h strong fibers rt i = strong i - visible_owners h fibers rt i"

lemma unseen_counts:
  assumes "distinct (map fst (allocs h))" "unshared h" and "\<And>i. strong i = external i + stored_owners h fibers rt i"
  shows "strong i = unseen_owners h strong fibers rt i + visible_owners h fibers rt i"
  using visible_le_stored(1) [OF assms(1,2), of fibers rt i] assms(3) [of i] by (simp add: unseen_owners_def)

lemma held_is_seen:
  assumes dist: "distinct (map fst (allocs h))" and un: "unshared h"
    and counts: "\<And>i. strong i = external i + stored_owners h fibers rt i"
    and "held_reach h fibers rt (root_of h strong external unadm) i"
  shows "heap_reach h fibers rt (root_of h strong (unseen_owners h strong fibers rt) unadm) i"
  using assms(4)
proof (induction rule: held_reach.induct)
  case (root i)
  have "external i \<le> unseen_owners h strong fibers rt i"
    using visible_le_stored(1) [OF dist un, of fibers rt i] counts [of i] by (simp add: unseen_owners_def)
  with root show ?case by (intro heap_reach.root) (auto simp: root_of_def)
next
  case (holds j i)
  show ?case
  proof (cases "i \<in> handle_ids (object_children h fibers j)")
    case True
    with holds show ?thesis by (blast intro: heap_reach.child)
  next
    case False
    from visible_le_stored(2) [OF dist un holds(2) False, of rt] counts [of i]
    have "unseen_owners h strong fibers rt i \<noteq> 0" "strong i \<noteq> 0" by (simp_all add: unseen_owners_def)
    then show ?thesis by (intro heap_reach.root) (simp add: root_of_def)
  qed
next
  case (iterated j i)
  then show ?case by (blast intro: heap_reach.iterated)
next
  case (weak_entry e)
  then show ?case by (blast intro: heap_reach.weak_entry)
qed

lemma seen_is_held:
  assumes "unshared h" and "heap_reach h fibers rt root i"
  shows "held_reach h fibers rt root i"
  using assms(2)
proof (induction rule: heap_reach.induct)
  case (child j i)
  have "handle_ids (object_children h fibers j) \<subseteq> handle_ids (held_values h fibers j)"
    using children_mset [OF assms(1)] by (intro handle_ids_mono) (metis set_mset_mono set_mset_mset)
  with child show ?case by (blast intro: held_reach.holds)
qed (blast intro: held_reach.root held_reach.iterated held_reach.weak_entry)+

end
