(* ===== verification/Vec_Swap.thy ===== *)
theory Vec_Swap
  imports Prelude "HOL-Library.Multiset"
begin

text \<open>
  \<open>Vec::swap_remove\<close> of the standard library, which moves the last element of a vector into the
  place of the removed one: what it keeps, as a multiset, and where.
\<close>

definition swap_remove :: "nat \<Rightarrow> 'a list \<Rightarrow> 'a list" where
  "swap_remove i xs = (if i = length xs - 1 then butlast xs else (butlast xs)[i := last xs])"

lemma length_swap_remove [simp]: "length (swap_remove i xs) = length xs - 1"
  by (simp add: swap_remove_def)

lemma mset_swap_remove:
  assumes "i < length xs"
  shows "mset (swap_remove i xs) = mset xs - {#xs ! i#}"
proof -
  obtain ys y where xs: "xs = ys @ [y]" using assms by (cases xs rule: rev_cases) auto
  show ?thesis using assms by (auto simp: swap_remove_def xs nth_append mset_update less_Suc_eq)
qed

lemma nth_swap_remove: "k < i \<Longrightarrow> i < length xs \<Longrightarrow> swap_remove i xs ! k = xs ! k"
  by (auto simp: swap_remove_def nth_butlast nth_list_update)

lemma swap_remove_distinct:
  assumes "distinct xs" "i < length xs"
  shows "distinct (swap_remove i xs)" "set (swap_remove i xs) = set xs - {xs ! i}"
proof -
  have eq: "mset (swap_remove i xs) = mset (remove1 (xs ! i) xs)" using assms by (simp add: mset_swap_remove)
  show "distinct (swap_remove i xs)" using mset_eq_imp_distinct_iff [OF eq] assms(1) by simp
  show "set (swap_remove i xs) = set xs - {xs ! i}" using mset_eq_setD [OF eq] assms(1) by simp
qed

end
