(* ===== verification/Cycle_Components.thy ===== *)
theory Cycle_Components
  imports Cycle_Marking Vec_Swap
begin

text \<open>
  The cyclic part of the garbage and the order of its destructors
  (\<open>src/src/runtime/cycle.rs\<close>, \<open>cyclic_identities\<close> and \<open>destructor_order\<close>). The first is Kosaraju's
  computation of strongly connected components, with explicit stacks: a depth-first search that
  lists the nodes as they are finished, and a search against the edges that takes them in the
  opposite order. An index out of range panics, which is \<open>None\<close>.
\<close>

subsection \<open>The components\<close>

definition garbage_edges :: "cycle_graph \<Rightarrow> (nat \<times> nat) list" where
  "garbage_edges g = ordinary_edges g @ map (\<lambda>e. (eph_key e, eph_value e)) (ephemerons g)"

text \<open>The closure \<open>add\<close>: an edge between two nodes of the garbage enters both lists.\<close>

definition add_garbage_edge ::
  "cycle_graph \<Rightarrow> nat list \<Rightarrow> nat \<times> nat \<Rightarrow> nat list list \<times> nat list list \<Rightarrow> nat list list \<times> nat list list"
where
  "add_garbage_edge g garbage e adj_rev =
     (case (node_indices g (fst e), node_indices g (snd e)) of
        (Some s, Some t) \<Rightarrow>
          (if node_identity (nodes g ! s) \<in> set garbage \<and> node_identity (nodes g ! t) \<in> set garbage
           then (push_edge s t (fst adj_rev), push_edge t s (snd adj_rev)) else adj_rev)
      | _ \<Rightarrow> adj_rev)"

definition garbage_lists :: "cycle_graph \<Rightarrow> nat list \<Rightarrow> nat list list \<times> nat list list" where
  "garbage_lists g garbage =
     fold (add_garbage_edge g garbage) (garbage_edges g)
       (replicate (length (nodes g)) [], replicate (length (nodes g)) [])"

text \<open>The stack of the first search has its top first; a frame is a node and its next edge.\<close>

definition frames_left :: "nat list list \<Rightarrow> (nat \<times> nat) list \<Rightarrow> nat" where
  "frames_left adjacency stack = sum_list (map (\<lambda>(node, edge). Suc (length (adjacency ! node) - edge)) stack)"

lemma unmarked_less: "t < length seen \<Longrightarrow> \<not> seen ! t \<Longrightarrow> unmarked (seen[t := True]) < unmarked seen"
  using unmarked_update [of t seen] by simp

function finish_order ::
  "nat list list \<Rightarrow> bool list \<Rightarrow> (nat \<times> nat) list \<Rightarrow> nat list \<Rightarrow> (bool list \<times> nat list) option"
where
  "finish_order adjacency seen [] order = Some (seen, order)"
| "finish_order adjacency seen ((node, edge) # stack) order =
     (if length adjacency \<le> node then None
      else case vec_get (adjacency ! node) edge of
        Some target \<Rightarrow>
          (if length seen \<le> target then None
           else if \<not> seen ! target
           then finish_order adjacency (seen[target := True]) ((target, 0) # (node, edge + 1) # stack) order
           else finish_order adjacency seen ((node, edge + 1) # stack) order)
      | None \<Rightarrow> finish_order adjacency seen stack (order @ [node]))"
  by pat_completeness auto
termination
  by (relation "measures [\<lambda>(adjacency, seen, stack, order). unmarked seen,
                          \<lambda>(adjacency, seen, stack, order). frames_left adjacency stack]")
    (auto simp: frames_left_def unmarked_less not_le)

fun finish_all ::
  "nat list list \<Rightarrow> (nat \<Rightarrow> bool) \<Rightarrow> nat list \<Rightarrow> bool list \<Rightarrow> nat list \<Rightarrow> (bool list \<times> nat list) option"
where
  "finish_all adjacency garbage [] seen order = Some (seen, order)"
| "finish_all adjacency garbage (start # starts) seen order =
     (if seen ! start \<or> \<not> garbage start then finish_all adjacency garbage starts seen order
      else case finish_order adjacency (seen[start := True]) [(start, 0)] order of
             None \<Rightarrow> None
           | Some (seen', order') \<Rightarrow> finish_all adjacency garbage starts seen' order')"

text \<open>The second search; \<open>usize::MAX\<close>, no component yet, is \<open>None\<close>.\<close>

fun claim_sources ::
  "nat list \<Rightarrow> nat \<Rightarrow> nat option list \<Rightarrow> nat list \<Rightarrow> (nat option list \<times> nat list) option"
where
  "claim_sources [] cid component stack = Some (component, stack)"
| "claim_sources (source # sources) cid component stack =
     (if length component \<le> source then None
      else if component ! source = None
      then claim_sources sources cid (component[source := Some cid]) (source # stack)
      else claim_sources sources cid component stack)"

definition unclaimed :: "nat option list \<Rightarrow> nat" where
  "unclaimed component = length (filter (\<lambda>c. c = None) component)"

lemma unclaimed_update:
  "t < length c \<Longrightarrow> c ! t = None \<Longrightarrow> Suc (unclaimed (c[t := Some cid])) = unclaimed c"
proof (induction c arbitrary: t)
  case (Cons b c)
  then show ?case by (cases t) (auto simp: unclaimed_def)
qed simp

lemma claim_sources_measure:
  "claim_sources sources cid c stack = Some (c', stack') \<Longrightarrow>
     unclaimed c' + length stack' = unclaimed c + length stack"
proof (induction sources cid c stack rule: claim_sources.induct)
  case (2 source sources cid component stack)
  then show ?case using unclaimed_update [of source component cid] by (auto split: if_splits)
qed simp

function collect_members ::
  "nat list list \<Rightarrow> nat \<Rightarrow> nat option list \<Rightarrow> nat list \<Rightarrow> nat list \<Rightarrow> (nat option list \<times> nat list) option"
where
  "collect_members reverse cid component [] members = Some (component, members)"
| "collect_members reverse cid component (node # stack) members =
     (if length reverse \<le> node then None
      else case claim_sources (reverse ! node) cid component stack of
             None \<Rightarrow> None
           | Some (component', stack') \<Rightarrow>
               collect_members reverse cid component' stack' (members @ [node]))"
  by pat_completeness auto
termination
  by (relation "measure (\<lambda>(reverse, cid, component, stack, members). unclaimed component + length stack)")
    (auto dest: claim_sources_measure)

fun collect_components ::
  "nat list list \<Rightarrow> nat list \<Rightarrow> nat option list \<Rightarrow> nat list list \<Rightarrow> nat list list option"
where
  "collect_components reverse [] component components = Some components"
| "collect_components reverse (start # starts) component components =
     (if component ! start \<noteq> None then collect_components reverse starts component components
      else case collect_members reverse (length components)
                  (component[start := Some (length components)]) [start] [] of
             None \<Rightarrow> None
           | Some (component', members) \<Rightarrow>
               collect_components reverse starts component' (components @ [members]))"

definition has_cycle :: "nat list list \<Rightarrow> nat list \<Rightarrow> bool" where
  "has_cycle adjacency members \<longleftrightarrow>
     1 < length members
     \<or> (case members of [] \<Rightarrow> False | node # _ \<Rightarrow> list_ex (\<lambda>target. target = node) (adjacency ! node))"

definition cyclic_identities :: "cycle_graph \<Rightarrow> nat list \<Rightarrow> nat list option" where
  "cyclic_identities g garbage =
     (let (adjacency, reverse) = garbage_lists g garbage;
          is_garbage = (\<lambda>k. node_identity (nodes g ! k) \<in> set garbage)
      in Option.bind (finish_all adjacency is_garbage [0..<length (nodes g)]
                        (replicate (length (nodes g)) False) [])
           (\<lambda>(seen, order).
              map_option (\<lambda>components.
                  map (\<lambda>node. node_identity (nodes g ! node))
                    (concat (filter (has_cycle adjacency) components)))
                (collect_components reverse (rev order) (replicate (length (nodes g)) None) [])))"

subsection \<open>The order of destructors\<close>

definition is_generator :: "heap \<Rightarrow> cycle_graph_node \<Rightarrow> bool" where
  "is_generator h n \<longleftrightarrow>
     node_kind n = KObject
     \<and> (case object_at h (node_identity n) of None \<Rightarrow> False | Some obj \<Rightarrow> o_generator obj \<noteq> None)"

definition destructor_adjacency :: "cycle_graph \<Rightarrow> nat list \<Rightarrow> nat list list" where
  "destructor_adjacency g garbage =
     fold (\<lambda>(source, target) adjacency.
             case (node_indices g source, node_indices g target) of
               (Some s, Some t) \<Rightarrow>
                 (if node_identity (nodes g ! s) \<in> set garbage \<and> node_identity (nodes g ! t) \<in> set garbage
                  then push_edge s t adjacency else adjacency)
             | _ \<Rightarrow> adjacency)
       (ordinary_edges g) (replicate (length (nodes g)) [])"

text \<open>The stack has its top first: extending it by the reversed successors puts the first
  successor on top.\<close>

function visit_from ::
  "nat list list \<Rightarrow> (nat \<Rightarrow> bool) \<Rightarrow> nat list \<Rightarrow> bool list \<Rightarrow> nat list \<Rightarrow> (bool list \<times> nat list) option"
where
  "visit_from adjacency garbage [] visited ordered = Some (visited, ordered)"
| "visit_from adjacency garbage (current # stack) visited ordered =
     (if length visited \<le> current then None
      else if visited ! current \<or> \<not> garbage current
      then visit_from adjacency garbage stack visited ordered
      else visit_from adjacency garbage (adjacency ! current @ stack) (visited[current := True])
             (ordered @ [current]))"
  by pat_completeness auto
termination
  by (relation "measures [\<lambda>(adjacency, garbage, stack, visited, ordered). unmarked visited,
                          \<lambda>(adjacency, garbage, stack, visited, ordered). length stack]")
    (auto simp: unmarked_less not_le)

fun visit_generators ::
  "heap \<Rightarrow> cycle_graph \<Rightarrow> nat list list \<Rightarrow> (nat \<Rightarrow> bool) \<Rightarrow> nat list \<Rightarrow> bool list \<Rightarrow> nat list \<Rightarrow>
     (bool list \<times> nat list) option"
where
  "visit_generators h g adjacency garbage [] visited ordered = Some (visited, ordered)"
| "visit_generators h g adjacency garbage (index # rest_ix) visited ordered =
     (if \<not> is_generator h (nodes g ! index) \<or> \<not> garbage index
      then visit_generators h g adjacency garbage rest_ix visited ordered
      else case visit_from adjacency garbage [index] visited ordered of
             None \<Rightarrow> None
           | Some (visited', ordered') \<Rightarrow>
               visit_generators h g adjacency garbage rest_ix visited' ordered')"

function compact_roots :: "(nat \<Rightarrow> bool) \<Rightarrow> nat \<Rightarrow> nat list \<Rightarrow> nat list" where
  "compact_roots garbage at roots =
     (if at < length roots
      then if garbage (roots ! at) then compact_roots garbage (at + 1) roots
           else compact_roots garbage at (swap_remove at roots)
      else roots)"
  by pat_completeness auto
termination
  by (relation "measure (\<lambda>(garbage, at, roots). length roots - at)") auto

declare compact_roots.simps [simp del]

definition destructor_order :: "heap \<Rightarrow> cycle_graph \<Rightarrow> nat list \<Rightarrow> nat list option" where
  "destructor_order h g garbage =
     (let adjacency = destructor_adjacency g garbage;
          is_garbage = (\<lambda>k. node_identity (nodes g ! k) \<in> set garbage)
      in map_option (\<lambda>(visited, ordered).
             ordered
             @ filter (\<lambda>k. \<not> visited ! k) (compact_roots is_garbage 0 [0..<root_count g])
             @ filter (\<lambda>k. is_garbage k \<and> \<not> visited ! k) [root_count g..<length (nodes g)])
           (visit_generators h g adjacency is_garbage [0..<length (nodes g)]
              (replicate (length (nodes g)) False) []))"

end
