(* ===== verification/Cycle_Kosaraju.thy ===== *)
theory Cycle_Kosaraju
  imports Cycle_Components
begin

text \<open>
  The components of \<open>Cycle_Components\<close> are the strongly connected ones. The invariant of the
  first search is about the order in which nodes will have finished, the finished ones followed
  by the stack from its top: from a finished node, every node found so far that it reaches is
  followed (or is itself) by a node of the same component. The second search takes the
  nodes from the end of that order, so the nodes it meets against the edges that no earlier
  component claimed are those of one component.
\<close>

subsection \<open>Reachability in adjacency lists\<close>

definition edges_of :: "nat list list \<Rightarrow> (nat \<times> nat) set" where
  "edges_of adjacency = {(s, t). s < length adjacency \<and> t \<in> set (adjacency ! s)}"

definition same_component :: "nat list list \<Rightarrow> nat \<Rightarrow> nat \<Rightarrow> bool" where
  "same_component adjacency x y \<longleftrightarrow> (x, y) \<in> (edges_of adjacency)\<^sup>* \<and> (y, x) \<in> (edges_of adjacency)\<^sup>*"

lemma same_component_refl [simp]: "same_component adjacency x x"
  by (simp add: same_component_def)

lemma same_component_sym: "same_component adjacency x y \<Longrightarrow> same_component adjacency y x"
  by (simp add: same_component_def)

lemma same_component_trans:
  "same_component adjacency x y \<Longrightarrow> same_component adjacency y z \<Longrightarrow> same_component adjacency x z"
  unfolding same_component_def by (meson rtrancl_trans)

text \<open>A path that leaves a set passes an element of it with a successor outside.\<close>

lemma path_leaves:
  assumes "(x, y) \<in> E\<^sup>*" "x \<in> A" "y \<notin> A"
  shows "\<exists>a b. (x, a) \<in> E\<^sup>* \<and> a \<in> A \<and> (a, b) \<in> E \<and> b \<notin> A"
  using assms
proof (induction rule: rtrancl_induct)
  case (step b c)
  then show ?case by (cases "b \<in> A") blast+
qed simp

lemma mark_keeps: "seen ! k \<Longrightarrow> seen[t := True] ! k"
  by (metis nth_list_update_eq nth_list_update_neq not_less list_update_beyond)

subsection \<open>The first search\<close>

text \<open>What stands at \<open>y\<close> or after it.\<close>

definition from_on :: "nat \<Rightarrow> nat list \<Rightarrow> nat set" where
  "from_on y xs = set (dropWhile (\<lambda>z. z \<noteq> y) xs)"

lemma from_on_self: "y \<in> set xs \<Longrightarrow> y \<in> from_on y xs"
  by (induction xs) (auto simp: from_on_def)

lemma from_on_append:
  "from_on y (xs @ ys) = (if y \<in> set xs then from_on y xs \<union> set ys else from_on y ys)"
  by (induction xs) (auto simp: from_on_def)

lemma from_on_subset: "from_on y xs \<subseteq> set xs"
  by (auto simp: from_on_def dest: set_dropWhileD)

lemma from_on_Cons: "from_on y (x # xs) = (if x = y then insert x (set xs) else from_on y xs)"
  by (simp add: from_on_def)

definition finished_ok :: "nat list list \<Rightarrow> nat list \<Rightarrow> nat list \<Rightarrow> bool" where
  "finished_ok adjacency order stack \<longleftrightarrow>
     (\<forall>x \<in> set order. \<forall>y \<in> set (order @ stack). (x, y) \<in> (edges_of adjacency)\<^sup>* \<longrightarrow>
        (\<exists>c \<in> from_on y (order @ stack). same_component adjacency x c))"

definition search_inv :: "nat list list \<Rightarrow> bool list \<Rightarrow> (nat \<times> nat) list \<Rightarrow> nat list \<Rightarrow> bool" where
  "search_inv adjacency seen stack order \<longleftrightarrow>
     length seen = length adjacency
     \<and> distinct (order @ map fst stack)
     \<and> {k. k < length seen \<and> seen ! k} = set (order @ map fst stack)
     \<and> (\<forall>x \<in> set order. \<forall>y \<in> set (adjacency ! x). seen ! y)
     \<and> (\<forall>(x, e) \<in> set stack. \<forall>j < e. j < length (adjacency ! x) \<longrightarrow> seen ! (adjacency ! x ! j))
     \<and> sorted_wrt (\<lambda>y x. (x, y) \<in> (edges_of adjacency)\<^sup>*) (map fst stack)
     \<and> finished_ok adjacency order (map fst stack)"

lemma search_invD:
  assumes "search_inv adjacency seen stack order"
  shows "length seen = length adjacency" "distinct (order @ map fst stack)"
    and "{k. k < length seen \<and> seen ! k} = set (order @ map fst stack)"
    and "x \<in> set order \<Longrightarrow> y \<in> set (adjacency ! x) \<Longrightarrow> seen ! y"
    and "finished_ok adjacency order (map fst stack)"
  using assms unfolding search_inv_def by blast+

lemma search_inv_bound:
  assumes "search_inv adjacency seen stack order" "f \<in> set stack"
  shows "fst f < length adjacency"
proof -
  have "fst f \<in> {k. k < length seen \<and> seen ! k}" using assms by (simp add: search_invD(3))
  then show ?thesis using search_invD(1) [OF assms(1)] by simp
qed

lemma finished_ok_push:
  assumes fin: "finished_ok adjacency order stack"
    and new: "t \<notin> set (order @ stack)" and disj: "distinct (order @ stack)"
    and closed: "\<forall>x \<in> set order. \<forall>y. (x, y) \<in> edges_of adjacency \<longrightarrow> y \<in> set (order @ stack)"
  shows "finished_ok adjacency order (t # stack)"
  unfolding finished_ok_def
proof (intro ballI impI)
  fix x y assume x: "x \<in> set order" and y: "y \<in> set (order @ t # stack)"
    and path: "(x, y) \<in> (edges_of adjacency)\<^sup>*"
  show "\<exists>c \<in> from_on y (order @ t # stack). same_component adjacency x c"
  proof (cases "y = t")
    case True
    obtain a z where "(x, a) \<in> (edges_of adjacency)\<^sup>*" "a \<in> set order" "(a, z) \<in> edges_of adjacency" "z \<notin> set order"
      using path_leaves [OF path x] True new by auto
    then have z: "(x, z) \<in> (edges_of adjacency)\<^sup>*" "z \<in> set stack" "z \<notin> set order"
      using closed by auto
    then obtain c where "c \<in> from_on z (order @ stack)" "same_component adjacency x c"
      using fin x unfolding finished_ok_def by auto
    with z True new show ?thesis
      using from_on_subset [of z stack] by (auto simp: from_on_append from_on_Cons)
  next
    case False
    then have "y \<in> set (order @ stack)" using y by auto
    then obtain c where "c \<in> from_on y (order @ stack)" "same_component adjacency x c"
      using fin x path unfolding finished_ok_def by blast
    then show ?thesis using False by (auto simp: from_on_append from_on_Cons split: if_splits)
  qed
qed

lemma finished_ok_finish:
  assumes fin: "finished_ok adjacency order (x # stack)"
    and path: "\<forall>y \<in> set stack. (y, x) \<in> (edges_of adjacency)\<^sup>*" and disj: "distinct (order @ x # stack)"
  shows "finished_ok adjacency (order @ [x]) stack"
  unfolding finished_ok_def
proof (intro ballI impI)
  fix u y assume u: "u \<in> set (order @ [x])" and y: "y \<in> set ((order @ [x]) @ stack)"
    and reach: "(u, y) \<in> (edges_of adjacency)\<^sup>*"
  show "\<exists>c \<in> from_on y ((order @ [x]) @ stack). same_component adjacency u c"
  proof (cases "u \<in> set order")
    case True
    then show ?thesis using fin y reach unfolding finished_ok_def by auto
  next
    case False
    then have ux: "u = x" using u by simp
    show ?thesis
    proof (cases "y \<in> set stack")
      case True
      then have "same_component adjacency u y" using path reach ux by (simp add: same_component_def)
      then show ?thesis using from_on_self [OF y] by blast
    next
      case False
      then have "x \<in> from_on y ((order @ [x]) @ stack)"
        using y from_on_self [of y order] by (auto simp: from_on_append from_on_Cons)
      then show ?thesis using ux same_component_refl by blast
    qed
  qed
qed

lemma search_inv_push:
  assumes inv: "search_inv adjacency seen stack order" and t: "t < length adjacency" "\<not> seen ! t"
    and top: "\<forall>f \<in> set stack. (fst f, t) \<in> (edges_of adjacency)\<^sup>*"
    and ok: "adjacency_ok (length adjacency) adjacency"
  shows "search_inv adjacency (seen[t := True]) ((t, 0) # stack) order"
proof -
  have seen: "length seen = length adjacency" "{k. k < length seen \<and> seen ! k} = set (order @ map fst stack)"
    and dist: "distinct (order @ map fst stack)" and fin: "finished_ok adjacency order (map fst stack)"
    using search_invD [OF inv] by blast+
  have new: "t \<notin> set (order @ map fst stack)" using seen t by blast
  have "\<forall>x \<in> set order. \<forall>y. (x, y) \<in> edges_of adjacency \<longrightarrow> y \<in> set (order @ map fst stack)"
  proof (intro ballI allI impI)
    fix x y assume xy: "x \<in> set order" "(x, y) \<in> edges_of adjacency"
    then have "y < length adjacency" "seen ! y"
      using ok search_invD(4) [OF inv] by (auto simp: edges_of_def dest: adjacency_okD)
    then show "y \<in> set (order @ map fst stack)" unfolding seen(2) [symmetric] using seen(1) by simp
  qed
  then have "finished_ok adjacency order (t # map fst stack)" using finished_ok_push [OF fin new dist] by blast
  moreover have "{k. k < length (seen[t := True]) \<and> seen[t := True] ! k} = insert t (set (order @ map fst stack))"
    unfolding seen(2) [symmetric] using seen(1) t by (auto simp: nth_list_update)
  ultimately show ?thesis
    using inv new top unfolding search_inv_def
    by (simp add: case_prod_unfold mark_keeps)
qed

lemma search_inv_next:
  assumes "search_inv adjacency seen (pre @ (x, e) # stack) order" "seen ! (adjacency ! x ! e)"
  shows "search_inv adjacency seen (pre @ (x, Suc e) # stack) order"
  using assms by (auto simp: search_inv_def less_Suc_eq)

lemma search_inv_finish:
  assumes inv: "search_inv adjacency seen ((x, e) # stack) order" and "length (adjacency ! x) \<le> e"
  shows "search_inv adjacency seen stack (order @ [x])"
proof -
  have "\<forall>y \<in> set (adjacency ! x). seen ! y"
    using assms unfolding search_inv_def by (auto simp: in_set_conv_nth)
  moreover have "finished_ok adjacency (order @ [x]) (map fst stack)"
    using inv unfolding search_inv_def by (intro finished_ok_finish) auto
  ultimately show ?thesis using inv by (auto simp: search_inv_def)
qed

lemma finish_order_step:
  assumes "node < length adjacency"
  shows "length (adjacency ! node) \<le> edge \<Longrightarrow>
      finish_order adjacency seen ((node, edge) # stack) order = finish_order adjacency seen stack (order @ [node])"
    and "edge < length (adjacency ! node) \<Longrightarrow> adjacency ! node ! edge = target \<Longrightarrow> target < length seen \<Longrightarrow> seen ! target \<Longrightarrow>
      finish_order adjacency seen ((node, edge) # stack) order = finish_order adjacency seen ((node, edge + 1) # stack) order"
    and "edge < length (adjacency ! node) \<Longrightarrow> adjacency ! node ! edge = target \<Longrightarrow> target < length seen \<Longrightarrow> \<not> seen ! target \<Longrightarrow>
      finish_order adjacency seen ((node, edge) # stack) order =
        finish_order adjacency (seen[target := True]) ((target, 0) # (node, edge + 1) # stack) order"
  using assms by (simp_all add: vec_get_def)

declare finish_order.simps(2) [simp del]

lemma finish_order_ok:
  assumes "search_inv adjacency seen stack order" "adjacency_ok (length adjacency) adjacency"
    and "\<forall>(s, t) \<in> edges_of adjacency. P t" "\<forall>k < length seen. seen ! k \<longrightarrow> P k"
  shows "\<exists>seen' order'. finish_order adjacency seen stack order = Some (seen', order')
    \<and> search_inv adjacency seen' [] order'
    \<and> (\<forall>k < length seen. seen ! k \<longrightarrow> seen' ! k) \<and> (\<forall>k < length seen'. seen' ! k \<longrightarrow> P k)"
  using assms
proof (induction adjacency seen stack order rule: finish_order.induct)
  case (1 adjacency seen order)
  then show ?case by simp
next
  case (2 adjacency seen node edge stack order)
  note inv = 2(4) and ok = 2(5)
  have node: "node < length adjacency" using search_inv_bound [OF inv, of "(node, edge)"] by simp
  have len: "length seen = length adjacency" using inv by (simp add: search_inv_def)
  show ?case
  proof (cases "vec_get (adjacency ! node) edge")
    case None
    then have "search_inv adjacency seen stack (order @ [node])" using search_inv_finish [OF inv] by simp
    then show ?thesis using 2(1) [OF _ None] None 2(5-7) node by (simp add: finish_order_step(1))
  next
    case (Some target)
    then have edge: "(node, target) \<in> edges_of adjacency" and e: "edge < length (adjacency ! node)" "adjacency ! node ! edge = target"
      using node by (auto simp: edges_of_def)
    have t: "target < length adjacency" using ok node e adjacency_okD nth_mem by blast
    show ?thesis
    proof (cases "seen ! target")
      case True
      then have "search_inv adjacency seen ((node, edge + 1) # stack) order" using search_inv_next [where pre = "[]"] inv e by simp
      then show ?thesis using 2(3) [OF _ Some] 2(5-7) e node True t len by (simp add: finish_order_step(2))
    next
      case False
      have "\<forall>f \<in> set ((node, edge) # stack). (fst f, target) \<in> (edges_of adjacency)\<^sup>*"
        using inv edge by (auto simp: search_inv_def intro: rtrancl_into_rtrancl)
      from search_inv_push [OF inv t False this ok]
      have "search_inv adjacency (seen[target := True]) ([(target, 0)] @ (node, Suc edge) # stack) order"
        using e t len by (intro search_inv_next) auto
      moreover have "\<forall>k < length (seen[target := True]). seen[target := True] ! k \<longrightarrow> P k"
        using 2(6,7) edge t len by (auto simp: nth_list_update split: if_splits)
      ultimately obtain seen' order' where *: "finish_order adjacency (seen[target := True]) ((target, 0) # (node, edge + 1) # stack) order = Some (seen', order')"
        "search_inv adjacency seen' [] order'" "\<forall>k < length seen'. seen' ! k \<longrightarrow> P k"
        "\<forall>k < length (seen[target := True]). seen[target := True] ! k \<longrightarrow> seen' ! k"
        using 2(2) [OF _ Some] ok 2(6) node False t len by auto
      then have "\<forall>k < length seen. seen ! k \<longrightarrow> seen' ! k" by (simp add: mark_keeps)
      with * show ?thesis using e node False t len by (simp add: finish_order_step(3))
    qed
  qed
qed

lemma finish_all_ok:
  assumes "search_inv adjacency seen [] order" "adjacency_ok (length adjacency) adjacency"
    and "\<forall>(s, t) \<in> edges_of adjacency. P t" "\<forall>k < length seen. seen ! k \<longrightarrow> P k"
    and "\<forall>s \<in> set starts. s < length adjacency"
  shows "\<exists>seen' order'. finish_all adjacency P starts seen order = Some (seen', order')
    \<and> search_inv adjacency seen' [] order'
    \<and> (\<forall>k < length seen. seen ! k \<longrightarrow> seen' ! k) \<and> (\<forall>k < length seen'. seen' ! k \<longrightarrow> P k)
    \<and> (\<forall>s \<in> set starts. P s \<longrightarrow> seen' ! s)"
  using assms
proof (induction starts arbitrary: seen order)
  case (Cons start starts)
  have len: "length seen = length adjacency" using Cons.prems(1) by (rule search_invD(1))
  show ?case
  proof (cases "seen ! start \<or> \<not> P start")
    case True
    obtain seen' order' where "finish_all adjacency P starts seen order = Some (seen', order')"
      "search_inv adjacency seen' [] order'" "\<forall>k < length seen. seen ! k \<longrightarrow> seen' ! k"
      "\<forall>k < length seen'. seen' ! k \<longrightarrow> P k" "\<forall>s \<in> set starts. P s \<longrightarrow> seen' ! s"
      using Cons.IH [OF Cons.prems(1-4)] Cons.prems(5) by auto
    then show ?thesis using True Cons.prems(5) len by auto
  next
    case False
    then have "search_inv adjacency (seen[start := True]) [(start, 0)] order"
      using search_inv_push [OF Cons.prems(1)] Cons.prems(2,5) by simp
    moreover have "\<forall>k < length (seen[start := True]). seen[start := True] ! k \<longrightarrow> P k"
      using Cons.prems(4,5) False len by (auto simp: nth_list_update)
    ultimately obtain s1 o1 where 1: "finish_order adjacency (seen[start := True]) [(start, 0)] order = Some (s1, o1)"
      "search_inv adjacency s1 [] o1" "\<forall>k < length s1. s1 ! k \<longrightarrow> P k"
      "\<forall>k < length (seen[start := True]). seen[start := True] ! k \<longrightarrow> s1 ! k"
      using finish_order_ok [of adjacency "seen[start := True]" "[(start, 0)]" order P] Cons.prems(2,3) by blast
    have l1: "length s1 = length adjacency" using 1(2) by (rule search_invD(1))
    obtain seen' order' where 2: "finish_all adjacency P starts s1 o1 = Some (seen', order')"
      "search_inv adjacency seen' [] order'" "\<forall>k < length s1. s1 ! k \<longrightarrow> seen' ! k"
      "\<forall>k < length seen'. seen' ! k \<longrightarrow> P k" "\<forall>s \<in> set starts. P s \<longrightarrow> seen' ! s"
      using Cons.IH [OF 1(2) Cons.prems(2,3) 1(3)] Cons.prems(5) by auto
    have "\<forall>k < length seen. seen ! k \<or> k = start \<longrightarrow> seen' ! k"
      using 1(4) 2(3) len l1 Cons.prems(5) by (auto simp: mark_keeps)
    with 1 2 False Cons.prems(5) len show ?thesis by auto
  qed
qed simp

subsection \<open>The second search\<close>

lemma claim_sources_ok:
  assumes "\<forall>s \<in> set sources. s < length component"
  shows "\<exists>component' new. claim_sources sources cid component stack = Some (component', rev new @ stack)
    \<and> length component' = length component \<and> distinct new
    \<and> set new = {s \<in> set sources. component ! s = None}
    \<and> (\<forall>k < length component. component' ! k = (if k \<in> set new then Some cid else component ! k))"
  using assms
proof (induction sources arbitrary: component stack)
  case (Cons s sources)
  show ?case
  proof (cases "component ! s")
    case None
    obtain c new where *: "claim_sources sources cid (component[s := Some cid]) (s # stack) = Some (c, rev new @ s # stack)"
      "length c = length component" "distinct new"
      "set new = {t \<in> set sources. component[s := Some cid] ! t = None}"
      "\<forall>k < length component. c ! k = (if k \<in> set new then Some cid else component[s := Some cid] ! k)"
      using Cons.IH [of "component[s := Some cid]" "s # stack"] Cons.prems by auto
    have s: "s < length component" "s \<notin> set new" using Cons.prems * by auto
    have "set (s # new) = {t \<in> set (s # sources). component ! t = None}"
      using s None by (auto simp: *(4) nth_list_update)
    moreover have "\<forall>k < length component. c ! k = (if k \<in> set (s # new) then Some cid else component ! k)"
      using *(5) s by (auto simp: nth_list_update)
    ultimately show ?thesis using * s None by (intro exI [of _ c] exI [of _ "s # new"]) auto
  next
    case (Some x)
    then obtain c new where "claim_sources sources cid component stack = Some (c, rev new @ stack)"
      "length c = length component" "distinct new" "set new = {t \<in> set sources. component ! t = None}"
      "\<forall>k < length component. c ! k = (if k \<in> set new then Some cid else component ! k)"
      using Cons.IH [of component stack] Cons.prems by auto
    then show ?thesis using Some Cons.prems by (intro exI [of _ c] exI [of _ new]) auto
  qed
qed auto

text \<open>The members of one call: those that reach the start without leaving the unclaimed nodes.\<close>

definition members_inv ::
  "nat list list \<Rightarrow> nat set \<Rightarrow> nat \<Rightarrow> nat option list \<Rightarrow> nat list \<Rightarrow> nat list \<Rightarrow> bool" where
  "members_inv adjacency claimed start component stack members \<longleftrightarrow>
     length component = length adjacency
     \<and> distinct (members @ stack) \<and> start \<in> set (members @ stack)
     \<and> set (members @ stack) \<inter> claimed = {}
     \<and> {k. k < length component \<and> component ! k \<noteq> None} = claimed \<union> set (members @ stack)
     \<and> (\<forall>k \<in> set (members @ stack). (k, start) \<in> (edges_of adjacency)\<^sup>*)
     \<and> (\<forall>k \<in> set members. \<forall>s. (s, k) \<in> edges_of adjacency \<longrightarrow> s \<in> claimed \<union> set (members @ stack))"

lemma collect_members_ok:
  assumes "members_inv adjacency claimed start component stack members"
    and "length reverse = length adjacency"
    and "\<forall>t < length reverse. set (reverse ! t) = {s. (s, t) \<in> edges_of adjacency}"
  shows "\<exists>component' members'. collect_members reverse cid component stack members = Some (component', members')
    \<and> members_inv adjacency claimed start component' [] members'"
  using assms
proof (induction reverse cid component stack members rule: collect_members.induct)
  case (2 reverse cid component node stack members)
  note inv = 2(2)
  have len: "length component = length adjacency"
    and cl: "{k. k < length component \<and> component ! k \<noteq> None} = claimed \<union> set (members @ node # stack)"
    using inv unfolding members_inv_def by blast+
  have "node \<in> {k. k < length component \<and> component ! k \<noteq> None}" unfolding cl by simp
  then have node: "node < length reverse" using len 2(3) by simp
  have rev: "set (reverse ! node) = {s. (s, node) \<in> edges_of adjacency}" using 2(4) node by blast
  then have "\<forall>s \<in> set (reverse ! node). s < length component" by (auto simp: edges_of_def len)
  then obtain c new where c: "claim_sources (reverse ! node) cid component stack = Some (c, rev new @ stack)"
    "length c = length component" "distinct new" "set new = {s \<in> set (reverse ! node). component ! s = None}"
    "\<forall>k < length component. c ! k = (if k \<in> set new then Some cid else component ! k)"
    using claim_sources_ok by blast
  have new: "set new = {s. (s, node) \<in> edges_of adjacency \<and> s \<notin> claimed \<union> set (members @ node # stack)}"
    unfolding cl [symmetric] c(4) rev by (auto simp: edges_of_def len)
  have "{k. k < length c \<and> c ! k \<noteq> None} = set new \<union> {k. k < length component \<and> component ! k \<noteq> None}"
    using c(2,5) by (auto simp: new edges_of_def len)
  then have cl': "{k. k < length c \<and> c ! k \<noteq> None} = claimed \<union> set ((members @ [node]) @ rev new @ stack)"
    unfolding cl by auto
  have node_path: "(node, start) \<in> (edges_of adjacency)\<^sup>*" using inv by (simp add: members_inv_def)
  let ?all = "(members @ [node]) @ rev new @ stack"
  have "distinct ?all" "start \<in> set ?all" "set ?all \<inter> claimed = {}"
    using inv c(3) new by (auto simp: members_inv_def)
  moreover have "\<forall>k \<in> set ?all. (k, start) \<in> (edges_of adjacency)\<^sup>*"
    using inv node_path by (auto simp: members_inv_def new intro: converse_rtrancl_into_rtrancl)
  moreover have "\<forall>k \<in> set (members @ [node]). \<forall>s. (s, k) \<in> edges_of adjacency \<longrightarrow> s \<in> claimed \<union> set ?all"
    using inv by (fastforce simp: members_inv_def new)
  ultimately have "members_inv adjacency claimed start c (rev new @ stack) (members @ [node])"
    using c(2) len cl' by (simp add: members_inv_def)
  from 2(1) [OF _ c(1) refl this 2(3,4)] show ?case using c(1) node by simp
qed simp

lemma members_are_component:
  assumes inv: "members_inv adjacency claimed start component [] members"
    and claimed: "claimed = {k. k < length adjacency \<and> (\<exists>c \<in> set pre. same_component adjacency c k)}"
    and before: "\<forall>x. (x, start) \<in> (edges_of adjacency)\<^sup>* \<longrightarrow>
      (\<exists>c. same_component adjacency x c \<and> (c = start \<or> c \<in> set pre))"
    and start: "start < length adjacency"
  shows "set members = {k. same_component adjacency start k}"
proof -
  have inv': "start \<in> set members" "set members \<inter> claimed = {}"
    "{k. k < length adjacency \<and> component ! k \<noteq> None} = claimed \<union> set members"
    "\<And>k. k \<in> set members \<Longrightarrow> (k, start) \<in> (edges_of adjacency)\<^sup>*"
    "\<And>k s. k \<in> set members \<Longrightarrow> (s, k) \<in> edges_of adjacency \<Longrightarrow> s \<in> claimed \<union> set members"
    using inv unfolding members_inv_def append_Nil2 by (metis, metis, metis, metis, metis)
  have fresh: "y \<notin> claimed" if "same_component adjacency start y" for y
    using inv'(1,2) start that unfolding claimed by (blast intro: same_component_trans same_component_sym)
  have "same_component adjacency start k" if k: "k \<in> set members" for k
  proof -
    obtain c where c: "same_component adjacency k c" "c = start \<or> c \<in> set pre"
      using before inv'(4) [OF k] by blast
    have "k \<in> {k. k < length adjacency \<and> component ! k \<noteq> None}" "k \<notin> claimed"
      using inv'(2,3) k by auto
    then have "c \<notin> set pre" using c(1) unfolding claimed by (blast intro: same_component_sym)
    then show ?thesis using c same_component_sym by blast
  qed
  moreover have "k \<in> set members" if "same_component adjacency start k" for k
  proof -
    have "(k, start) \<in> (edges_of adjacency)\<^sup>*" "(start, k) \<in> (edges_of adjacency)\<^sup>*"
      using that by (simp_all add: same_component_def)
    then show ?thesis
    proof (induction rule: converse_rtrancl_induct)
      case (step y z)
      then have "z \<in> set members" by (auto intro: rtrancl_into_rtrancl)
      moreover have "same_component adjacency start y"
        using step by (auto simp: same_component_def intro: converse_rtrancl_into_rtrancl)
      ultimately show ?case using inv'(5) step(1) fresh by blast
    qed (rule inv'(1))
  qed
  ultimately show ?thesis by blast
qed

definition components_ok :: "nat list list \<Rightarrow> nat list \<Rightarrow> nat list list \<Rightarrow> bool" where
  "components_ok adjacency order components \<longleftrightarrow>
     (\<forall>ms \<in> set components. distinct ms \<and> (\<exists>x \<in> set order. set ms = {k. same_component adjacency x k}))
     \<and> (\<forall>x \<in> set order. \<exists>ms \<in> set components. x \<in> set ms)"

text \<open>When a start is taken, everything that reaches it is of its component or of an earlier one.\<close>

lemma starts_component:
  assumes "finished_ok adjacency order []" "distinct order"
    and "\<forall>(s, t) \<in> edges_of adjacency. s \<in> set order" "order = rev starts @ start # rev pre"
  shows "\<forall>x. (x, start) \<in> (edges_of adjacency)\<^sup>* \<longrightarrow>
    (\<exists>c. same_component adjacency x c \<and> (c = start \<or> c \<in> set pre))"
proof (intro allI impI)
  fix x assume x: "(x, start) \<in> (edges_of adjacency)\<^sup>*"
  then have "x = start \<or> x \<in> set order" using assms(3) by (auto elim: converse_rtranclE)
  then have "x \<in> set order" using assms(4) by auto
  then obtain c where "c \<in> from_on start order" "same_component adjacency x c"
    using assms(1,4) x unfolding finished_ok_def by fastforce
  then show "\<exists>c. same_component adjacency x c \<and> (c = start \<or> c \<in> set pre)"
    using assms(2,4) by (auto simp: from_on_append from_on_Cons)
qed

lemma components_ok_snoc:
  assumes ok: "components_ok adjacency pre components" and c: "c \<in> set pre" "same_component adjacency c start"
  shows "components_ok adjacency (pre @ [start]) components"
proof -
  obtain ms where ms: "ms \<in> set components" "c \<in> set ms" using ok c(1) by (auto simp: components_ok_def)
  then obtain x where "set ms = {k. same_component adjacency x k}" using ok by (auto simp: components_ok_def)
  then have "start \<in> set ms" using ms(2) c(2) by (auto intro: same_component_trans)
  then show ?thesis using ok ms(1) unfolding components_ok_def by auto
qed

lemma collect_components_ok:
  assumes "finished_ok adjacency order []" "distinct order" "rev order = pre @ starts"
    and "\<forall>(s, t) \<in> edges_of adjacency. s \<in> set order" "\<forall>x \<in> set order. x < length adjacency"
    and "length reverse = length adjacency"
    and "\<forall>t < length reverse. set (reverse ! t) = {s. (s, t) \<in> edges_of adjacency}"
    and "length component = length adjacency"
    and "{k. k < length component \<and> component ! k \<noteq> None} =
      {k. k < length adjacency \<and> (\<exists>c \<in> set pre. same_component adjacency c k)}"
    and "components_ok adjacency pre components"
  shows "\<exists>components'. collect_components reverse starts component components = Some components'
    \<and> components_ok adjacency order components'"
  using assms
proof (induction starts arbitrary: pre component components)
  case Nil
  then have "set pre = set order" by (metis append_Nil2 set_rev)
  with Nil show ?case by (simp add: components_ok_def)
next
  case (Cons start starts)
  note claimed = Cons.prems(9)
  have start: "start < length adjacency" using Cons.prems(3,5) by (metis in_set_conv_decomp set_rev)
  have split: "rev order = (pre @ [start]) @ starts" using Cons.prems(3) by simp
  have order: "order = rev starts @ start # rev pre" using Cons.prems(3) by (metis rev_append rev_rev_ident rev.simps(2) append.assoc append_Cons append_Nil)
  let ?claimed = "{k. k < length adjacency \<and> (\<exists>c \<in> set pre. same_component adjacency c k)}"
  show ?case
  proof (cases "component ! start")
    case (Some i)
    then have "start \<in> ?claimed" unfolding claimed [symmetric] using start Cons.prems(8) by simp
    then obtain c where c: "c \<in> set pre" "same_component adjacency c start" by blast
    then have same: "(\<exists>d \<in> set (pre @ [start]). same_component adjacency d k) \<longleftrightarrow>
        (\<exists>d \<in> set pre. same_component adjacency d k)" for k
      by (auto intro: same_component_trans)
    have "components_ok adjacency (pre @ [start]) components"
      using components_ok_snoc [OF Cons.prems(10) c] .
    then show ?thesis
      using Cons.IH [OF Cons.prems(1,2) split Cons.prems(4-8)] claimed Some by (simp only: same) simp
  next
    case None
    let ?c = "component[start := Some (length components)]"
    have fresh: "start \<notin> ?claimed" unfolding claimed [symmetric] using None by simp
    have "{k. k < length ?c \<and> ?c ! k \<noteq> None} = insert start {k. k < length component \<and> component ! k \<noteq> None}"
      using start Cons.prems(8) by (auto simp: nth_list_update)
    then have "members_inv adjacency ?claimed start ?c [start] []"
      using fresh start Cons.prems(8) unfolding claimed by (simp add: members_inv_def)
    from collect_members_ok [OF this Cons.prems(6,7), of "length components"]
    obtain c' members where c': "collect_members reverse (length components) ?c [start] [] = Some (c', members)"
      and inv: "members_inv adjacency ?claimed start c' [] members" by blast
    have members: "set members = {k. same_component adjacency start k}"
      by (rule members_are_component [OF inv refl _ start])
        (rule starts_component [OF Cons.prems(1,2,4) order])
    have props: "length c' = length adjacency" "distinct members"
      "{k. k < length c' \<and> c' ! k \<noteq> None} = ?claimed \<union> set members"
      using inv unfolding members_inv_def append_Nil2 by (metis, metis, metis)
    have "set members \<subseteq> {k. k < length c' \<and> c' ! k \<noteq> None}" unfolding props(3) by simp
    then have "set members \<subseteq> {k. k < length adjacency}" using props(1) by auto
    then have "{k. k < length c' \<and> c' ! k \<noteq> None} =
        {k. k < length adjacency \<and> (\<exists>c \<in> set (pre @ [start]). same_component adjacency c k)}"
      unfolding props(3) members by auto
    moreover have "components_ok adjacency (pre @ [start]) (components @ [members])"
      using Cons.prems(10) props(2) members unfolding components_ok_def by auto
    ultimately show ?thesis
      using Cons.IH [OF Cons.prems(1,2) split Cons.prems(4-7) props(1)] c' None by simp
  qed
qed

subsection \<open>The cyclic nodes\<close>

lemma component_has_cycle:
  assumes "distinct ms" "set ms = {k. same_component adjacency x k}" "i \<in> set ms" "i < length adjacency"
  shows "has_cycle adjacency ms \<longleftrightarrow> (i, i) \<in> (edges_of adjacency)\<^sup>+"
proof (cases "1 < length ms")
  case True
  then have "\<not> set ms \<subseteq> {i}" using assms(1) by (metis card_mono distinct_card finite.emptyI finite.insertI is_singletonI is_singleton_altdef not_less)
  then obtain j where j: "j \<in> set ms" "j \<noteq> i" by blast
  then have "same_component adjacency i j" using assms(2,3) by (auto intro: same_component_trans same_component_sym)
  then have "(i, j) \<in> (edges_of adjacency)\<^sup>+" "(j, i) \<in> (edges_of adjacency)\<^sup>*"
    using j(2) by (auto simp: same_component_def rtrancl_eq_or_trancl)
  then show ?thesis using True by (auto simp: has_cycle_def intro: trancl_rtrancl_trancl)
next
  case False
  then have ms: "ms = [i]" using assms(3) by (cases ms) auto
  have "(i, i) \<in> edges_of adjacency" if cyc: "(i, i) \<in> (edges_of adjacency)\<^sup>+"
  proof -
    obtain z where z: "(i, z) \<in> edges_of adjacency" "(z, i) \<in> (edges_of adjacency)\<^sup>*"
      using tranclD [OF cyc] by blast
    then have "same_component adjacency i z" by (auto simp: same_component_def)
    then have "z \<in> set ms" using assms(2,3) by (auto intro: same_component_trans)
    then show ?thesis using z ms by simp
  qed
  then show ?thesis using ms assms(4) by (auto simp: has_cycle_def list_ex_iff edges_of_def)
qed

lemma components_cyclic:
  assumes "components_ok adjacency order components" "\<forall>x \<in> set order. x < length adjacency"
    and "\<forall>ms \<in> set components. set ms \<subseteq> set order"
  shows "set (concat (filter (has_cycle adjacency) components)) =
    {i \<in> set order. (i, i) \<in> (edges_of adjacency)\<^sup>+}"
proof -
  have iff: "has_cycle adjacency ms \<longleftrightarrow> (i, i) \<in> (edges_of adjacency)\<^sup>+"
    if ms: "ms \<in> set components" "i \<in> set ms" for ms i
  proof -
    obtain x where "distinct ms" "set ms = {k. same_component adjacency x k}"
      using assms(1) ms(1) by (auto simp: components_ok_def)
    then show ?thesis using component_has_cycle ms(2) assms(2,3) ms(1) by blast
  qed
  have "\<exists>ms \<in> set components. i \<in> set ms" if "i \<in> set order" for i
    using assms(1) that by (auto simp: components_ok_def)
  with iff assms(3) show ?thesis by fastforce
qed

subsection \<open>The graph of the garbage\<close>

definition garbage_rel :: "cycle_graph \<Rightarrow> nat list \<Rightarrow> (nat \<times> nat) set" where
  "garbage_rel g garbage =
     {(a, b). (a, b) \<in> set (garbage_edges g) \<and> a \<in> node_ids g \<inter> set garbage \<and> b \<in> node_ids g \<inter> set garbage}"

abbreviation ident :: "cycle_graph \<Rightarrow> nat \<Rightarrow> nat" where
  "ident g k \<equiv> node_identity (nodes g ! k)"

definition garbage_pairs :: "cycle_graph \<Rightarrow> nat list \<Rightarrow> (nat \<times> nat) list \<Rightarrow> (nat \<times> nat) set" where
  "garbage_pairs g garbage es =
     {(s, t). s < length (nodes g) \<and> t < length (nodes g) \<and> (ident g s, ident g t) \<in> set es
              \<and> ident g s \<in> set garbage \<and> ident g t \<in> set garbage}"

lemma add_garbage_edge_spec:
  assumes wf: "graph_wf g" and len: "length (fst ls) = length (nodes g)" "length (snd ls) = length (nodes g)"
  shows "length (fst (add_garbage_edge g garbage e ls)) = length (nodes g)
    \<and> length (snd (add_garbage_edge g garbage e ls)) = length (nodes g)
    \<and> (\<forall>s < length (nodes g). set (fst (add_garbage_edge g garbage e ls) ! s) = set (fst ls ! s) \<union> {t. (s, t) \<in> garbage_pairs g garbage [e]})
    \<and> (\<forall>t < length (nodes g). set (snd (add_garbage_edge g garbage e ls) ! t) = set (snd ls ! t) \<union> {s. (s, t) \<in> garbage_pairs g garbage [e]})"
proof (cases "(node_indices g (fst e), node_indices g (snd e))")
  case (Pair i j)
  have bound: "node_indices g a = Some s \<longleftrightarrow> s < length (nodes g) \<and> ident g s = a" for a s
    using graph_wf_index [OF wf] by blast
  show ?thesis
  proof (cases "\<exists>s t. i = Some s \<and> j = Some t")
    case True
    then obtain s t where st: "node_indices g (fst e) = Some s" "node_indices g (snd e) = Some t" using Pair by auto
    then have s: "s < length (nodes g)" "ident g s = fst e" and t: "t < length (nodes g)" "ident g t = snd e"
      by (simp_all add: bound)
    have new: "garbage_pairs g garbage [e] = (if fst e \<in> set garbage \<and> snd e \<in> set garbage then {(s, t)} else {})"
      using st s t unfolding garbage_pairs_def by (auto simp: prod_eq_iff) (metis bound option.inject)+
    show ?thesis
      using st s t len by (auto simp: new add_garbage_edge_def push_edge_nth)
  next
    case False
    then have "garbage_pairs g garbage [e] = {}" using Pair graph_wf_nth [OF wf] by (auto simp: garbage_pairs_def)
    then show ?thesis using False Pair len by (auto simp: add_garbage_edge_def split: option.splits)
  qed
qed

lemma garbage_lists_fold:
  assumes wf: "graph_wf g" and "length (fst ls) = length (nodes g)" "length (snd ls) = length (nodes g)"
  shows "length (fst (fold (add_garbage_edge g garbage) es ls)) = length (nodes g)
    \<and> length (snd (fold (add_garbage_edge g garbage) es ls)) = length (nodes g)
    \<and> (\<forall>s < length (nodes g). set (fst (fold (add_garbage_edge g garbage) es ls) ! s) = set (fst ls ! s) \<union> {t. (s, t) \<in> garbage_pairs g garbage es})
    \<and> (\<forall>t < length (nodes g). set (snd (fold (add_garbage_edge g garbage) es ls) ! t) = set (snd ls ! t) \<union> {s. (s, t) \<in> garbage_pairs g garbage es})"
  using assms(2,3)
proof (induction es arbitrary: ls)
  case (Cons e es)
  show ?case
    using Cons.IH [of "add_garbage_edge g garbage e ls"] add_garbage_edge_spec [OF wf Cons.prems, of garbage e]
    by (auto simp: garbage_pairs_def)
qed (simp add: garbage_pairs_def)

lemma garbage_lists_spec:
  assumes "graph_wf g" "garbage_lists g garbage = (adjacency, reverse)"
  shows "length adjacency = length (nodes g)" "length reverse = length (nodes g)"
    and "edges_of adjacency = garbage_pairs g garbage (garbage_edges g)"
    and "\<forall>t < length reverse. set (reverse ! t) = {s. (s, t) \<in> edges_of adjacency}"
proof -
  note fold = garbage_lists_fold [OF assms(1), of "(replicate (length (nodes g)) [], replicate (length (nodes g)) [])"
      garbage "garbage_edges g", folded garbage_lists_def, unfolded assms(2), simplified]
  show len: "length adjacency = length (nodes g)" "length reverse = length (nodes g)" using fold by blast+
  show edges: "edges_of adjacency = garbage_pairs g garbage (garbage_edges g)"
    using fold by (auto simp: edges_of_def) (auto simp: garbage_pairs_def)
  show "\<forall>t < length reverse. set (reverse ! t) = {s. (s, t) \<in> edges_of adjacency}"
    unfolding edges using fold len by simp
qed

lemma garbage_rel_pairs:
  assumes wf: "graph_wf g" and ab: "(a, b) \<in> garbage_rel g garbage"
  shows "(the (node_indices g a), the (node_indices g b)) \<in> garbage_pairs g garbage (garbage_edges g)"
proof -
  obtain s t where st: "node_indices g a = Some s" "node_indices g b = Some t"
    using ab graph_wf_dom [OF wf] by (fastforce simp: garbage_rel_def)
  then have "s < length (nodes g)" "ident g s = a" "t < length (nodes g)" "ident g t = b"
    using graph_wf_index [OF wf] by blast+
  then show ?thesis using ab by (simp add: st garbage_rel_def garbage_pairs_def)
qed

lemma garbage_paths:
  assumes wf: "graph_wf g" and k: "k < length (nodes g)"
  shows "(k, k) \<in> (garbage_pairs g garbage (garbage_edges g))\<^sup>+ \<longleftrightarrow> (ident g k, ident g k) \<in> (garbage_rel g garbage)\<^sup>+"
proof
  have "(k, j) \<in> (garbage_pairs g garbage (garbage_edges g))\<^sup>+ \<Longrightarrow> (ident g k, ident g j) \<in> (garbage_rel g garbage)\<^sup>+" for j
  proof (induction rule: trancl_induct)
    case (base y)
    then show ?case by (auto simp: garbage_pairs_def garbage_rel_def)
  next
    case (step y z)
    have "(ident g y, ident g z) \<in> garbage_rel g garbage"
      using step(2) by (auto simp: garbage_pairs_def garbage_rel_def)
    with step(3) show ?case by (rule trancl_into_trancl)
  qed
  then show "(k, k) \<in> (garbage_pairs g garbage (garbage_edges g))\<^sup>+ \<Longrightarrow> (ident g k, ident g k) \<in> (garbage_rel g garbage)\<^sup>+" .
next
  have "(a, b) \<in> (garbage_rel g garbage)\<^sup>+ \<Longrightarrow>
      (the (node_indices g a), the (node_indices g b)) \<in> (garbage_pairs g garbage (garbage_edges g))\<^sup>+" for a b
  proof (induction rule: trancl_induct)
    case (base y)
    then show ?case using garbage_rel_pairs [OF wf] by blast
  next
    case (step y z)
    then show ?case using garbage_rel_pairs [OF wf] by (blast intro: trancl_into_trancl)
  qed
  from this [of "ident g k" "ident g k"]
  show "(ident g k, ident g k) \<in> (garbage_rel g garbage)\<^sup>+ \<Longrightarrow> (k, k) \<in> (garbage_pairs g garbage (garbage_edges g))\<^sup>+"
    using graph_wf_nth [OF wf k] by simp
qed

lemma node_ids_nth: "node_ids g = {ident g k |k. k < length (nodes g)}"
  by (auto simp: in_set_conv_nth image_iff) (metis nth_mem)+

lemma cyclic_identities_spec:
  assumes wf: "graph_wf g"
  shows "\<exists>cyclic. cyclic_identities g garbage = Some cyclic
    \<and> set cyclic = {i \<in> node_ids g \<inter> set garbage. (i, i) \<in> (garbage_rel g garbage)\<^sup>+}"
proof -
  obtain adjacency reverse where lists: "garbage_lists g garbage = (adjacency, reverse)" by force
  note spec = garbage_lists_spec [OF wf lists]
  let ?n = "length (nodes g)" and ?P = "\<lambda>k. ident g k \<in> set garbage"
  have ok: "adjacency_ok (length adjacency) adjacency"
    using spec(3) by (fastforce simp: adjacency_ok_def spec(1) garbage_pairs_def edges_of_def in_set_conv_nth)
  have edges: "\<forall>(s, t) \<in> edges_of adjacency. ?P t" "\<forall>(s, t) \<in> edges_of adjacency. ?P s \<and> s < ?n"
    unfolding spec(3) by (auto simp: garbage_pairs_def)
  have "search_inv adjacency (replicate ?n False) [] []"
    by (simp add: search_inv_def finished_ok_def spec(1))
  from finish_all_ok [OF this ok edges(1), of "[0..<?n]"]
  obtain seen order where fin: "finish_all adjacency ?P [0..<?n] (replicate ?n False) [] = Some (seen, order)"
    "search_inv adjacency seen [] order" "\<forall>k < length seen. seen ! k \<longrightarrow> ?P k" "\<forall>k < ?n. ?P k \<longrightarrow> seen ! k"
    by (auto simp: spec(1))
  have "set order = {k. k < ?n \<and> seen ! k}" using search_invD(1,3) [OF fin(2)] spec(1) by simp
  then have order: "set order = {k. k < ?n \<and> ?P k}" using fin(3,4) search_invD(1) [OF fin(2)] spec(1) by auto
  have "\<exists>components. collect_components reverse (rev order) (replicate ?n None) [] = Some components
      \<and> components_ok adjacency order components"
    by (rule collect_components_ok [where pre = "[]"])
      (use search_invD(2,5) [OF fin(2)] order edges(2) spec in \<open>auto simp: components_ok_def\<close>)
  then obtain components where comp: "collect_components reverse (rev order) (replicate ?n None) [] = Some components"
    "components_ok adjacency order components" by blast
  have sub: "\<forall>ms \<in> set components. set ms \<subseteq> set order"
  proof (intro ballI subsetI)
    fix ms k assume "ms \<in> set components" "k \<in> set ms"
    then obtain x where x: "x \<in> set order" "same_component adjacency x k"
      using comp(2) by (auto simp: components_ok_def)
    then have "(k, x) \<in> (edges_of adjacency)\<^sup>*" by (simp add: same_component_def)
    then show "k \<in> set order"
      by (cases rule: converse_rtranclE) (use x(1) edges(2) order in auto)
  qed
  have "set (concat (filter (has_cycle adjacency) components)) =
      {k. k < ?n \<and> ?P k \<and> (ident g k, ident g k) \<in> (garbage_rel g garbage)\<^sup>+}"
    using components_cyclic [OF comp(2) _ sub] garbage_paths [OF wf] order spec(1) by (auto simp: spec(3))
  then have "set (map (ident g) (concat (filter (has_cycle adjacency) components))) =
      {i \<in> node_ids g \<inter> set garbage. (i, i) \<in> (garbage_rel g garbage)\<^sup>+}"
    by (simp only: set_map node_ids_nth) auto
  then show ?thesis using fin(1) comp(1) by (simp add: cyclic_identities_def lists)
qed

end
