(* ===== verification/Cycle_Order.thy ===== *)
theory Cycle_Order
  imports Cycle_Kosaraju
begin

text \<open>
  The order of destructors: \<open>destructor_order\<close> lists every node of the garbage exactly once, and
  what the garbage generators retain comes first. The buffer of roots, which is
  compacted by moving its last element into a gap, keeps exactly the garbage roots.
\<close>

subsection \<open>The compacted roots\<close>

lemma compact_roots_mset:
  assumes "\<forall>k < at. k < length roots \<longrightarrow> garbage (roots ! k)"
  shows "mset (compact_roots garbage at roots) = filter_mset garbage (mset roots)"
  using assms
proof (induction garbage at roots rule: compact_roots.induct)
  case (1 garbage at roots)
  show ?case
  proof (cases "at < length roots")
    case True
    show ?thesis
    proof (cases "garbage (roots ! at)")
      case True
      then show ?thesis using 1 \<open>at < length roots\<close> by (subst compact_roots.simps) (simp add: less_Suc_eq)
    next
      case False
      have "\<forall>k < at. k < length (swap_remove at roots) \<longrightarrow> garbage (swap_remove at roots ! k)"
        using 1(3) True by (simp add: nth_swap_remove)
      then have "mset (compact_roots garbage at (swap_remove at roots)) = filter_mset garbage (mset roots - {#roots ! at#})"
        using 1(2) [OF True False] True by (simp add: mset_swap_remove)
      also have "\<dots> = filter_mset garbage (mset roots)" using False by simp
      finally show ?thesis using True False by (subst compact_roots.simps) simp
    qed
  next
    case False
    then have "\<forall>r \<in> set roots. garbage r" using 1(3) by (auto simp: in_set_conv_nth)
    then show ?thesis using False by (subst compact_roots.simps) (simp add: filter_id_conv flip: mset_filter)
  qed
qed

lemma compact_roots_set:
  assumes "distinct roots"
  shows "distinct (compact_roots garbage 0 roots)" "set (compact_roots garbage 0 roots) = {r \<in> set roots. garbage r}"
proof -
  have eq: "mset (compact_roots garbage 0 roots) = mset (filter garbage roots)"
    by (simp add: compact_roots_mset)
  show "distinct (compact_roots garbage 0 roots)" using mset_eq_imp_distinct_iff [OF eq] assms by simp
  show "set (compact_roots garbage 0 roots) = {r \<in> set roots. garbage r}" using mset_eq_setD [OF eq] by simp
qed

subsection \<open>The visits from generators\<close>

definition visit_inv :: "nat list list \<Rightarrow> (nat \<Rightarrow> bool) \<Rightarrow> nat list \<Rightarrow> bool list \<Rightarrow> nat list \<Rightarrow> bool" where
  "visit_inv adjacency garbage stack visited ordered \<longleftrightarrow>
     length visited = length adjacency \<and> distinct ordered
     \<and> (\<forall>k < length adjacency. visited ! k \<longleftrightarrow> k \<in> set ordered)
     \<and> (\<forall>k \<in> set (ordered @ stack). k < length adjacency)
     \<and> (\<forall>k \<in> set ordered. garbage k \<and> (\<forall>t. (k, t) \<in> edges_of adjacency \<longrightarrow> garbage t \<longrightarrow> t \<in> set ordered \<or> t \<in> set stack))"

lemma visit_invD:
  assumes "visit_inv adjacency garbage stack visited ordered"
  shows "length visited = length adjacency" "distinct ordered"
    and "k < length adjacency \<Longrightarrow> visited ! k \<longleftrightarrow> k \<in> set ordered"
    and "k \<in> set (ordered @ stack) \<Longrightarrow> k < length adjacency" "k \<in> set ordered \<Longrightarrow> garbage k"
    and "k \<in> set ordered \<Longrightarrow> (k, t) \<in> edges_of adjacency \<Longrightarrow> garbage t \<Longrightarrow> t \<in> set ordered \<or> t \<in> set stack"
  using assms unfolding visit_inv_def by blast+

lemma visit_inv_push:
  assumes "visit_inv adjacency garbage [] visited ordered" "i < length adjacency"
  shows "visit_inv adjacency garbage [i] visited ordered"
  unfolding visit_inv_def
proof (intro conjI ballI allI impI)
  fix k t assume "k \<in> set ordered" "(k, t) \<in> edges_of adjacency" "garbage t"
  then show "t \<in> set ordered \<or> t \<in> set [i]" using visit_invD(6) [OF assms(1)] by auto
qed (use visit_invD(1-5) [OF assms(1)] assms(2) in auto)

lemma visit_from_ok:
  assumes "visit_inv adjacency garbage stack visited ordered" "adjacency_ok (length adjacency) adjacency"
    and "\<forall>k. Q k \<longrightarrow> (\<forall>t. (k, t) \<in> edges_of adjacency \<longrightarrow> garbage t \<longrightarrow> Q t)"
    and "\<forall>k \<in> set ordered. Q k" "\<forall>k \<in> set stack. garbage k \<longrightarrow> Q k"
  shows "\<exists>visited' new. visit_from adjacency garbage stack visited ordered = Some (visited', ordered @ new)
    \<and> visit_inv adjacency garbage [] visited' (ordered @ new)
    \<and> (\<forall>k \<in> set stack. garbage k \<longrightarrow> k \<in> set (ordered @ new)) \<and> (\<forall>k \<in> set new. Q k)"
  using assms
proof (induction adjacency garbage stack visited ordered rule: visit_from.induct)
  case (2 adjacency garbage current stack visited ordered)
  note inv = 2(3)
  have inv': "length visited = length adjacency" "distinct ordered"
    "\<forall>k < length adjacency. visited ! k \<longleftrightarrow> k \<in> set ordered" "current < length adjacency"
    using inv by (simp_all add: visit_inv_def)
  show ?case
  proof (cases "visited ! current \<or> \<not> garbage current")
    case True
    then have cur: "garbage current \<longrightarrow> current \<in> set ordered" using inv' by auto
    then have "visit_inv adjacency garbage stack visited ordered" using inv by (auto simp: visit_inv_def)
    with 2(1) True 2(4-7) inv'(1,4) obtain visited' new where
      "visit_from adjacency garbage stack visited ordered = Some (visited', ordered @ new)"
      "visit_inv adjacency garbage [] visited' (ordered @ new)"
      "\<forall>k \<in> set stack. garbage k \<longrightarrow> k \<in> set (ordered @ new)" "\<forall>k \<in> set new. Q k" by auto
    then show ?thesis using True cur inv'(1,4) by auto
  next
    case False
    have fresh: "current \<notin> set ordered" using False inv' by simp
    have marks: "\<forall>k < length adjacency. visited[current := True] ! k \<longleftrightarrow> k \<in> set (ordered @ [current])"
      using inv'(1,3,4) by (auto simp: nth_list_update)
    have "visit_inv adjacency garbage (adjacency ! current @ stack) (visited[current := True]) (ordered @ [current])"
      using inv fresh False 2(4) inv'(4) marks unfolding visit_inv_def
      by (auto simp: edges_of_def dest: adjacency_okD) blast
    moreover have "\<forall>k \<in> set (adjacency ! current @ stack). garbage k \<longrightarrow> Q k"
      using 2(5,7) False inv'(4) by (auto simp: edges_of_def)
    ultimately obtain visited' new where *:
      "visit_from adjacency garbage (adjacency ! current @ stack) (visited[current := True]) (ordered @ [current])
         = Some (visited', (ordered @ [current]) @ new)"
      "visit_inv adjacency garbage [] visited' ((ordered @ [current]) @ new)"
      "\<forall>k \<in> set (adjacency ! current @ stack). garbage k \<longrightarrow> k \<in> set ((ordered @ [current]) @ new)" "\<forall>k \<in> set new. Q k"
      using 2(2) [OF _ False] 2(4-7) False inv'(1,4) by auto
    then show ?thesis using False inv'(1,4) 2(7)
      by (intro exI [of _ visited'] exI [of _ "current # new"]) auto
  qed
qed simp

lemma visit_generators_ok:
  assumes "visit_inv adjacency garbage [] visited ordered" "adjacency_ok (length adjacency) adjacency"
    and "\<forall>k. Q k \<longrightarrow> (\<forall>t. (k, t) \<in> edges_of adjacency \<longrightarrow> garbage t \<longrightarrow> Q t)"
    and "\<forall>k \<in> set ordered. Q k" "\<forall>k \<in> set ixs. is_generator h (nodes g ! k) \<longrightarrow> garbage k \<longrightarrow> Q k"
    and "\<forall>k \<in> set ixs. k < length adjacency"
  shows "\<exists>visited' ordered'. visit_generators h g adjacency garbage ixs visited ordered = Some (visited', ordered')
    \<and> visit_inv adjacency garbage [] visited' ordered' \<and> set ordered \<subseteq> set ordered'
    \<and> (\<forall>k \<in> set ixs. is_generator h (nodes g ! k) \<longrightarrow> garbage k \<longrightarrow> k \<in> set ordered') \<and> (\<forall>k \<in> set ordered'. Q k)"
  using assms
proof (induction ixs arbitrary: visited ordered)
  case (Cons i ixs)
  show ?case
  proof (cases "is_generator h (nodes g ! i) \<and> garbage i")
    case True
    have inv: "visit_inv adjacency garbage [i] visited ordered" using Cons.prems(1,6) by (simp add: visit_inv_push)
    have "\<forall>k \<in> set [i]. garbage k \<longrightarrow> Q k" using Cons.prems(5) True by simp
    from visit_from_ok [OF inv Cons.prems(2-4) this] True obtain v new where v: "visit_from adjacency garbage [i] visited ordered = Some (v, ordered @ new)"
      "visit_inv adjacency garbage [] v (ordered @ new)" "i \<in> set (ordered @ new)" "\<forall>k \<in> set new. Q k"
      by auto
    have Q: "\<forall>k \<in> set (ordered @ new). Q k" using Cons.prems(4) v(4) by auto
    have "\<forall>k \<in> set ixs. is_generator h (nodes g ! k) \<longrightarrow> garbage k \<longrightarrow> Q k" "\<forall>k \<in> set ixs. k < length adjacency"
      using Cons.prems(5,6) by simp_all
    from Cons.IH [OF v(2) Cons.prems(2,3) Q this] obtain v2 o2 where "visit_generators h g adjacency garbage ixs v (ordered @ new) = Some (v2, o2)"
      "visit_inv adjacency garbage [] v2 o2" "set (ordered @ new) \<subseteq> set o2" "\<forall>k \<in> set o2. Q k"
      "\<forall>k \<in> set ixs. is_generator h (nodes g ! k) \<longrightarrow> garbage k \<longrightarrow> k \<in> set o2"
      by blast
    then show ?thesis using v(1,3) True by auto
  next
    case False
    then show ?thesis using Cons.IH [OF Cons.prems(1-4)] Cons.prems(5,6) by auto
  qed
qed simp

subsection \<open>The whole order\<close>

lemma destructor_adjacency_fst:
  "destructor_adjacency g garbage =
     fst (fold (add_garbage_edge g garbage) (ordinary_edges g)
            (replicate (length (nodes g)) [], replicate (length (nodes g)) []))"
proof -
  define step where "step = (\<lambda>(source, target) adjacency.
             case (node_indices g source, node_indices g target) of
               (Some s, Some t) \<Rightarrow>
                 (if node_identity (nodes g ! s) \<in> set garbage \<and> node_identity (nodes g ! t) \<in> set garbage
                  then push_edge s t adjacency else adjacency)
             | _ \<Rightarrow> adjacency)"
  have step: "fst (add_garbage_edge g garbage e ls) = step e (fst ls)" for e ls
    by (auto simp: add_garbage_edge_def step_def split: prod.splits option.splits)
  have "fst (fold (add_garbage_edge g garbage) es ls) = fold step es (fst ls)" for es ls
    by (induction es arbitrary: ls) (simp_all add: step)
  then show ?thesis by (simp add: destructor_adjacency_def step_def)
qed

lemma destructor_adjacency_spec:
  assumes "graph_wf g"
  shows "length (destructor_adjacency g garbage) = length (nodes g)"
    and "edges_of (destructor_adjacency g garbage) = garbage_pairs g garbage (ordinary_edges g)"
proof -
  note fold = garbage_lists_fold [OF assms, of "(replicate (length (nodes g)) [], replicate (length (nodes g)) [])"
      garbage "ordinary_edges g", folded destructor_adjacency_fst, simplified]
  show "length (destructor_adjacency g garbage) = length (nodes g)" using fold by blast
  show "edges_of (destructor_adjacency g garbage) = garbage_pairs g garbage (ordinary_edges g)"
    using fold by (auto simp: edges_of_def) (auto simp: garbage_pairs_def)
qed

definition generator_retained :: "heap \<Rightarrow> cycle_graph \<Rightarrow> nat list \<Rightarrow> nat set" where
  "generator_retained h g garbage =
     {k. \<exists>s < length (nodes g). is_generator h (nodes g ! s) \<and> ident g s \<in> set garbage
         \<and> (s, k) \<in> (garbage_pairs g garbage (ordinary_edges g))\<^sup>*}"

text \<open>Every node of the garbage is listed once, and what a garbage generator retains is listed
  before everything else.\<close>

lemma destructor_order_spec:
  assumes wf: "graph_wf g" and roots: "root_count g \<le> length (nodes g)"
  shows "\<exists>first others. destructor_order h g garbage = Some (first @ others)
    \<and> distinct (first @ others)
    \<and> set (first @ others) = {k. k < length (nodes g) \<and> ident g k \<in> set garbage}
    \<and> set first = generator_retained h g garbage"
proof -
  let ?n = "length (nodes g)" and ?P = "\<lambda>k. ident g k \<in> set garbage" and ?adj = "destructor_adjacency g garbage"
  note adj = destructor_adjacency_spec [OF wf, of garbage]
  have ok: "adjacency_ok (length ?adj) ?adj"
    using adj(2) by (fastforce simp: adjacency_ok_def adj(1) garbage_pairs_def edges_of_def in_set_conv_nth)
  have inv: "visit_inv ?adj ?P [] (replicate ?n False) []" by (simp add: visit_inv_def adj(1))
  have closed: "\<forall>k. k \<in> generator_retained h g garbage \<longrightarrow>
      (\<forall>t. (k, t) \<in> edges_of ?adj \<longrightarrow> ?P t \<longrightarrow> t \<in> generator_retained h g garbage)"
    by (auto simp: generator_retained_def adj(2) intro: rtrancl_into_rtrancl)
  have gens: "\<forall>k \<in> set [0..<?n]. is_generator h (nodes g ! k) \<longrightarrow> ?P k \<longrightarrow> k \<in> generator_retained h g garbage"
    by (auto simp: generator_retained_def)
  have bounds: "\<forall>k \<in> set []. k \<in> generator_retained h g garbage" "\<forall>k \<in> set [0..<?n]. k < length ?adj" by (simp_all add: adj(1))
  from visit_generators_ok [OF inv ok closed bounds(1) gens bounds(2)]
  obtain visited first where v: "visit_generators h g ?adj ?P [0..<?n] (replicate ?n False) [] = Some (visited, first)"
    "visit_inv ?adj ?P [] visited first"
    "\<forall>k < ?n. is_generator h (nodes g ! k) \<longrightarrow> ?P k \<longrightarrow> k \<in> set first"
    "\<forall>k \<in> set first. k \<in> generator_retained h g garbage"
    by auto
  have first1: "distinct first" by (rule visit_invD(2) [OF v(2)])
  have first2: "visited ! k \<longleftrightarrow> k \<in> set first" if "k < ?n" for k
    by (rule visit_invD(3) [OF v(2)]) (simp add: adj(1) that)
  have first3: "?P k" "k < ?n" if "k \<in> set first" for k
    using visit_invD(5) [OF v(2) that] visit_invD(4) [OF v(2), of k] that by (simp_all add: adj(1))
  have first4: "t \<in> set first" if "k \<in> set first" "(k, t) \<in> edges_of ?adj" "?P t" for k t
    using visit_invD(6) [OF v(2) that] by simp
  have "k \<in> set first" if "s \<in> set first" "(s, k) \<in> (garbage_pairs g garbage (ordinary_edges g))\<^sup>*" for s k
    using that(2,1)
  proof (induction rule: rtrancl_induct)
    case (step y z)
    then show ?case using first4 [of y z] by (auto simp: adj(2) garbage_pairs_def)
  qed
  then have ret: "set first = generator_retained h g garbage"
    using v(3,4) unfolding generator_retained_def by blast
  let ?roots = "filter (\<lambda>k. \<not> visited ! k) (compact_roots ?P 0 [0..<root_count g])"
  let ?desc = "filter (\<lambda>k. ?P k \<and> \<not> visited ! k) [root_count g..<?n]"
  have "distinct (first @ ?roots @ ?desc)"
    using first1 first2 first3 roots compact_roots_set [of "[0..<root_count g]" ?P] by auto
  moreover have "set (first @ ?roots @ ?desc) = {k. k < ?n \<and> ?P k}"
    using first2 first3 roots compact_roots_set [of "[0..<root_count g]" ?P] by auto
  ultimately show ?thesis using v(1) ret
    by (intro exI [of _ first] exI [of _ "?roots @ ?desc"]) (simp add: destructor_order_def)
qed

end
