(* ===== verification/Cycle_Properties.thy ===== *)
theory Cycle_Properties
  imports Cycle_Ownership Cycle_Order
begin

text \<open>
  The properties of the collector's graph: the marking keeps what is reachable and, on a graph that
  covers the heap, nothing else; the cyclic part of the garbage is what lies on a cycle; the
  destructors run once each. A small heap, with a garbage cycle and an object held from
  elsewhere, witnesses them. A second one shows why the marking needs stores of statics that are
  not shared: a store of a closure and its generator is visited once for each of them.
\<close>

subsection \<open>Two heaps\<close>

definition plain_object :: "pvalue list \<Rightarrow> php_object" where
  "plain_object vs = \<lparr>o_borrowed = False, class_name = ''stdClass'', layout_keys = length vs, iteration_slots = [0..<length vs],
     property_values = vs, dynamic_properties = None, o_generator = None\<rparr>"

definition small_heap :: heap where
  "small_heap = \<lparr>allocs = [(1, ArrayAlloc [ArrayV 1]), (2, ObjectAlloc (plain_object [ArrayV 3])), (3, ArrayAlloc [])], statics = []\<rparr>"

definition one_each :: "nat \<Rightarrow> nat" where
  "one_each i = (if i \<in> {1, 2, 3} then 1 else 0)"

definition small_graph :: cycle_graph where
  "small_graph = \<lparr>nodes = [\<lparr>node_identity = 1, node_kind = KArray, node_value = ArrayV 1\<rparr>,
       \<lparr>node_identity = 2, node_kind = KObject, node_value = ObjectV 2\<rparr>,
       \<lparr>node_identity = 3, node_kind = KArray, node_value = ArrayV 3\<rparr>],
     root_count = 2, node_indices = [1 \<mapsto> 0, 2 \<mapsto> 1, 3 \<mapsto> 2], unadmitted_nodes = [],
     ordinary_edges = [(1, 1), (2, 3)], ephemerons = [], stale_weak_identities = []\<rparr>"

lemmas visit_defs = node_children_def for_each_cycle_child_handle_def try_for_each_cycle_child_handle_def node_visit_def
  array_at_def object_at_def closure_at_def cell_at_def has_detached_property_table_def object_visit_def owned_values_def property_visit_def
  declared_values_def vec_get_def fiber_cycle_children_def clone_cycle_handle_def List.map_filter_simps

lemma small_graph_built:
  "build_cycle_graph_from_roots small_heap one_each [] None [ArrayV 1, ObjectV 2] = Some small_graph"
  by (simp add: build_cycle_graph_from_roots_def expand_value_edges_def expand_from.simps small_heap_def add_node_def
      empty_graph_def weak_cycle_snapshot_of_def Let_def plain_object_def add_child_def small_graph_def upt_rec visit_defs)
    (simp add: eval_nat_numeral)

lemma small_owners: "visible_owners small_heap [] default_weak_runtime i = (if i = 1 \<or> i = 3 then 1 else 0)"
  by (simp add: visible_owners_def small_heap_def object_children_def children_or_nil_def plain_object_def visit_defs
     upt_rec handle_count_def iterator_edges_def ephemerons_of_def default_weak_runtime_def)

definition idle_generator :: generator where
  "idle_generator = \<lparr>g_borrowed = False, g_completed = False, tmp_values = [], cv_values = [],
     g_value = null_value, g_key = null_value, last_yielded_value = null_value, last_yielded_key = null_value,
     trace_num_args = null_value, extra_args = [], pending_finally_exceptions = [], fiber_resume_input = None,
     return_value = null_value, closure_static_vars = None, closure_owner = None, delegate = None,
     iterator_continuation = None\<rparr>"

definition shared_heap :: heap where
  "shared_heap = \<lparr>allocs =
     [(1, ClosureAlloc \<lparr>bound_this = None, captures = [], c_static_vars = Some 9, has_heap_captures = False\<rparr>),
      (2, ObjectAlloc ((plain_object [])\<lparr>o_generator :=
            Some (idle_generator\<lparr>closure_static_vars := Some 9, closure_owner := Some (ClosureV 1)\<rparr>)\<rparr>)),
      (3, ObjectAlloc (plain_object [])), (4, ArrayAlloc [ClosureV 1, ObjectV 2, ArrayV 4])],
     statics = [(9, \<lparr>sv_borrowed = False, sv_values = [ObjectV 3]\<rparr>)]\<rparr>"

definition shared_strong :: "nat \<Rightarrow> nat" where
  "shared_strong i = (if i = 1 \<or> i = 3 then 2 else if i = 2 \<or> i = 4 then 1 else 0)"

definition shared_graph :: cycle_graph where
  "shared_graph = \<lparr>nodes = [\<lparr>node_identity = 4, node_kind = KArray, node_value = ArrayV 4\<rparr>,
       \<lparr>node_identity = 1, node_kind = KClosure, node_value = ClosureV 1\<rparr>,
       \<lparr>node_identity = 2, node_kind = KObject, node_value = ObjectV 2\<rparr>,
       \<lparr>node_identity = 3, node_kind = KObject, node_value = ObjectV 3\<rparr>],
     root_count = 1, node_indices = [4 \<mapsto> 0, 1 \<mapsto> 1, 2 \<mapsto> 2, 3 \<mapsto> 3], unadmitted_nodes = [],
     ordinary_edges = [(4, 1), (4, 2), (4, 4), (1, 3), (2, 3), (2, 1)], ephemerons = [], stale_weak_identities = []\<rparr>"

lemma shared_graph_built:
  "build_cycle_graph_from_roots shared_heap shared_strong [] None [ArrayV 4] = Some shared_graph"
  by (simp add: build_cycle_graph_from_roots_def expand_value_edges_def expand_from.simps shared_heap_def add_node_def
      empty_graph_def weak_cycle_snapshot_of_def Let_def plain_object_def add_child_def shared_graph_def visit_defs
      closure_visit_def statics_visit_def generator_visit_def idle_generator_def null_value_def
      owner_has_cycle_children_def closure_has_cycle_children_def is_cycle_value_def)
    (simp add: eval_nat_numeral)

subsection \<open>The marking\<close>

lemma graph_live_unadm: "graph_of h strong fibers rt (g\<lparr>unadmitted_nodes := un\<rparr>) = graph_of h strong fibers rt g"
  by (simp add: graph_of_def good_graph_def graph_wf_def edges_into_def)

lemma small_stored: "stored_owners small_heap [] default_weak_runtime i = (if i = 1 \<or> i = 3 then 1 else 0)"
  by (simp add: stored_owners_def heap_values_def small_heap_def plain_object_def handle_count_def
      iterator_edges_def ephemerons_of_def default_weak_runtime_def)

lemma small_unshared: "unshared small_heap"
  by (simp add: unshared_def small_heap_def plain_object_def List.map_filter_simps)

text \<open>C5. The marking of a collection is safe. The graph is built from typed roots of a typed heap and
  its well-formed weak sidecars, and the strong count of every allocation is the number of its
  handles stored in allocations, in stores of statics, in fibers and in sidecars, each counted
  once, plus the owners elsewhere. No layout lists a slot twice and no store of statics has two
  holders; the counters of edges do not overflow. Then \<open>live_identities\<close> does not panic, and it marks every node
  that stored handles reach from an owner elsewhere, from a native root or from an allocation
  not admitted to collection, whether or not the traversal of the collector visits those handles.
  It is exact, so that unreachable cycles are found, when the traversal leaves no stored handle
  out, the graph covers the heap and its nodes are alive.\<close>

theorem marking_keeps_reachable:
  assumes "build_cycle_graph_from_roots h strong fibers w roots = Some g"
    and "heap_typed h fibers" "list_all (typed h) roots"
    and "weak_wf (weak_runtime_of w)" "weak_typed h strong (weak_runtime_of w)"
    and "unshared h"
    and "\<And>i. strong i = external i + stored_owners h fibers (weak_runtime_of w) i"
    and "length (ordinary_edges g) + length (ephemerons g) \<le> usize_MAX"
  shows "\<exists>live. live_identities h strong (g\<lparr>unadmitted_nodes := un\<rparr>) = Some live
    \<and> (\<forall>i \<in> node_ids g. held_reach h fibers (weak_runtime_of w) (root_of h strong external un) i \<longrightarrow> i \<in> set live)
    \<and> ((\<forall>i. visible_owners h fibers (weak_runtime_of w) i = stored_owners h fibers (weak_runtime_of w) i)
         \<and> fst ` set (allocs h) \<subseteq> node_ids g \<and> (\<forall>i \<in> node_ids g. strong i \<noteq> 0) \<longrightarrow>
         set live = {i \<in> node_ids g. held_reach h fibers (weak_runtime_of w) (root_of h strong external un) i})"
proof -
  let ?g = "g\<lparr>unadmitted_nodes := un\<rparr>" and ?rt = "weak_runtime_of w"
  let ?unseen = "unseen_owners h strong fibers ?rt" and ?held = "held_reach h fibers ?rt (root_of h strong external un)"
  note built = build_graph_of [OF assms(1-5)]
  have g: "graph_of h strong fibers ?rt ?g" using built(1) by (simp add: graph_live_unadm)
  have dist: "distinct (map fst (allocs h))" using assms(2) by (simp add: heap_typed_def)
  have counts: "\<And>i. strong i = ?unseen i + visible_owners h fibers ?rt i"
    by (rule unseen_counts [OF dist assms(6,7)])
  have small: "length (ordinary_edges ?g) + length (ephemerons ?g) \<le> usize_MAX" using assms(8) by simp
  have wf: "graph_wf ?g" using g by (simp add: graph_of_def good_graph_def)
  let ?live = "filter (graph_live h strong ?g) (map node_identity (nodes ?g))"
  have set: "set ?live = {i \<in> node_ids g. graph_live h strong ?g i}" by auto
  have safe: "graph_live h strong ?g i" if "?held i" "i \<in> node_ids g" for i
    using reach_is_live [OF g dist counts small, of i] held_is_seen [OF dist assms(6,7) that(1)] that(2) by simp
  have exact: "?held i"
    if "\<forall>i. visible_owners h fibers ?rt i = stored_owners h fibers ?rt i"
      "fst ` set (allocs h) \<subseteq> node_ids g" "\<forall>i \<in> node_ids g. strong i \<noteq> 0" "graph_live h strong ?g i" for i
  proof -
    have "?unseen = external" using assms(7) that(1) by (simp add: fun_eq_iff unseen_owners_def)
    then show ?thesis
      using live_is_reach [OF g dist counts small, of i] built(3) that seen_is_held [OF assms(6)] by simp
  qed
  show ?thesis
    by (rule exI [of _ ?live], intro conjI, rule live_identities_spec [OF wf]; unfold set)
      (use safe in blast, use safe exact in blast)
qed

theorem marking_keeps_reachable_witness:
  "\<exists>live. live_identities small_heap one_each (small_graph\<lparr>unadmitted_nodes := []\<rparr>) = Some live
     \<and> 3 \<in> set live \<and> set live = {i \<in> node_ids small_graph.
          held_reach small_heap [] (weak_runtime_of None)
            (root_of small_heap one_each (\<lambda>i. if i = 2 then 1 else 0) []) i}"
proof -
  let ?reach = "held_reach small_heap [] (weak_runtime_of None) (root_of small_heap one_each (\<lambda>i. if i = 2 then 1 else 0) [])"
  have "fst ` set (allocs small_heap) \<subseteq> node_ids small_graph" "\<forall>i \<in> node_ids small_graph. one_each i \<noteq> 0"
    by (simp_all add: small_heap_def small_graph_def one_each_def)
  moreover have "heap_typed small_heap []" "list_all (typed small_heap) [ArrayV 1, ObjectV 2]"
    by (simp_all add: heap_typed_def heap_values_def small_heap_def plain_object_def typed_def)
  moreover have "weak_wf (weak_runtime_of None)" by (simp add: weak_runtime_of_def)
  moreover have "weak_typed small_heap one_each (weak_runtime_of None)"
    by (simp add: weak_runtime_of_def weak_typed_def default_weak_runtime_def)
  moreover have "one_each i = (if i = 2 then 1 else 0) + stored_owners small_heap [] (weak_runtime_of None) i" for i
    by (simp add: small_stored weak_runtime_of_def one_each_def)
  moreover have "visible_owners small_heap [] (weak_runtime_of None) i = stored_owners small_heap [] (weak_runtime_of None) i" for i
    by (simp add: small_stored small_owners weak_runtime_of_def)
  moreover have "length (ordinary_edges small_graph) + length (ephemerons small_graph) \<le> usize_MAX"
    by (simp add: small_graph_def usize_MAX_def)
  moreover have "?reach 3"
  proof (rule held_reach.holds [of _ _ _ _ 2])
    show "?reach 2" by (intro held_reach.root) (simp add: root_of_def one_each_def)
    show "3 \<in> handle_ids (held_values small_heap [] 2)"
      by (simp add: handle_ids_def held_values_def small_heap_def plain_object_def)
  qed
  moreover have "3 \<in> node_ids small_graph" by (simp add: small_graph_def)
  ultimately show ?thesis
    using marking_keeps_reachable [OF small_graph_built _ _ _ _ small_unshared, of "\<lambda>i. if i = 2 then 1 else 0" "[]"] by blast
qed


subsection \<open>The cyclic part and the destructors\<close>

text \<open>C6. On a well-formed graph the computation of strongly connected components ends without a panic, and its
  result has exactly the garbage nodes that reach themselves by at least one edge of the
  garbage, where an ephemeron is an edge from its key to its value.\<close>

theorem cyclic_part_exact:
  assumes "graph_wf g"
  shows "\<exists>cyclic. cyclic_identities g garbage = Some cyclic
    \<and> set cyclic = {i \<in> node_ids g \<inter> set garbage. (i, i) \<in> (garbage_rel g garbage)\<^sup>+}"
  by (rule cyclic_identities_spec [OF assms])

lemma shared_graph_wf: "graph_wf shared_graph"
  by (auto simp: graph_wf_def shared_graph_def nth_Cons eval_nat_numeral less_Suc_eq split: nat.splits)

theorem cyclic_part_exact_witness:
  "\<exists>cyclic. cyclic_identities shared_graph [1, 2, 3, 4] = Some cyclic \<and> 4 \<in> set cyclic"
proof -
  have "(4, 4) \<in> (garbage_rel shared_graph [1, 2, 3, 4])\<^sup>+"
    by (rule r_into_trancl) (simp add: garbage_rel_def garbage_edges_def shared_graph_def)
  moreover have "4 \<in> node_ids shared_graph" by (simp add: shared_graph_def)
  ultimately show ?thesis using cyclic_part_exact [OF shared_graph_wf, of "[1, 2, 3, 4]"] by auto
qed

text \<open>C19. The order of destructors lists every garbage node exactly once, first those that a garbage
  generator retains, among them the generators themselves.\<close>

theorem destructors_listed_once:
  assumes "graph_wf g" "root_count g \<le> length (nodes g)"
  shows "\<exists>first others. destructor_order h g garbage = Some (first @ others)
    \<and> distinct (first @ others)
    \<and> set (first @ others) = {k. k < length (nodes g) \<and> ident g k \<in> set garbage}
    \<and> set first = generator_retained h g garbage"
  by (rule destructor_order_spec [OF assms])

lemma shared_graph_roots: "root_count shared_graph \<le> length (nodes shared_graph)"
  by (simp add: shared_graph_def)

theorem destructors_listed_once_witness:
  "\<exists>first others. destructor_order shared_heap shared_graph [1, 2, 3, 4] = Some (first @ others)
     \<and> distinct (first @ others) \<and> 2 \<in> set first"
proof -
  have "2 \<in> generator_retained shared_heap shared_graph [1, 2, 3, 4]"
    unfolding generator_retained_def
    by (intro CollectI exI [of _ 2]) (simp add: shared_graph_def shared_heap_def is_generator_def object_at_def)
  then show ?thesis
    using destructors_listed_once [OF shared_graph_wf shared_graph_roots, of shared_heap "[1, 2, 3, 4]"] by metis
qed

subsection \<open>Shared statics\<close>

text \<open>Why the marking needs unshared stores. A closure and a generator made from it share the store of
  their function statics, and the traversal visits it for both, so that one handle in the store
  counts as two owners. In the heap below the object 3 has two owners, one of them elsewhere, yet
  the marking returns no live identity at all: a collection would clear an object that is still in use.\<close>

lemma shared_statics_hide_owner:
  "\<not> unshared shared_heap \<and> handle_count 3 (heap_values shared_heap) = 1 \<and> shared_strong 3 = 2
   \<and> Option.bind (build_cycle_graph_from_roots shared_heap shared_strong [] None [ArrayV 4])
       (live_identities shared_heap shared_strong) = Some []"
proof (intro conjI)
  show "\<not> unshared shared_heap"
    by (simp add: unshared_def shared_heap_def plain_object_def List.map_filter_simps)
  show "handle_count 3 (heap_values shared_heap) = 1"
   by (simp add: handle_count_def heap_values_def shared_heap_def plain_object_def
      idle_generator_def generator_values_def option_values_def null_value_def)
  show "shared_strong 3 = 2" by (simp add: shared_strong_def)
  show "Option.bind (build_cycle_graph_from_roots shared_heap shared_strong [] None [ArrayV 4])
       (live_identities shared_heap shared_strong) = Some []"
    unfolding shared_graph_built
    by (simp add: live_identities_def live_flags_def is_root_def native_root_def incoming_counts_def bump_def
       shared_graph_def shared_strong_def object_at_def shared_heap_def plain_object_def native_state_retains_cycle_root_def
       saturating_add_usize_def usize_MAX_def live_adjacency_def push_edge_def
        cycle_strong_count_def ephemeron_loop.simps upt_rec)
qed

end
