(* ===== verification/Object_Handles.thy ===== *)
theory Object_Handles
  imports Cycle_Roots Vec_Swap "HOL-Library.Word"
begin

unbundle bit_operations_syntax

text \<open>
  The numbers of PHP objects (\<open>src/src/value/mod.rs\<close>, \<open>struct ObjectHandleState\<close>), as
  \<open>spl_object_id\<close> shows them: a free stack of released handles, the identities of owners made
  outside a request, and the sorted identities of owners that outlived the request boundary,
  whose old numbers must not return. A failed assertion or \<open>expect\<close> is \<open>None\<close>. A handle and
  \<open>next\<close> are \<open>u32\<close>, kept as natural numbers whose \<open>checked_add\<close> is written out.

  The laws are about runs: owners are made and dropped, requests begin when no owner of the
  earlier request is left, and end.
\<close>

subsection \<open>The state and its operations\<close>

definition OBJECT_DESTRUCTOR_RAN :: "32 word" where "OBJECT_DESTRUCTOR_RAN = push_bit 31 1"
definition OBJECT_DEEP_DROP_STACK_CHECKPOINT :: "32 word" where "OBJECT_DEEP_DROP_STACK_CHECKPOINT = push_bit 30 1"
definition OBJECT_VM_RELEASE_TRACKED :: "32 word" where "OBJECT_VM_RELEASE_TRACKED = push_bit 29 1"

definition OBJECT_STATE_MASK :: "32 word" where
  "OBJECT_STATE_MASK =
     OBJECT_DESTRUCTOR_RAN OR OBJECT_DEEP_DROP_STACK_CHECKPOINT OR OBJECT_VM_RELEASE_TRACKED"

definition OBJECT_HANDLE_MASK :: "32 word" where
  "OBJECT_HANDLE_MASK = NOT OBJECT_STATE_MASK"

record object_handle_state =
  next_handle :: nat
  released :: "nat list"
  before_request :: "nat list"
  stale :: "nat list"
  in_request :: bool

definition default_handle_state :: object_handle_state where
  "default_handle_state =
     \<lparr>next_handle = 0, released = [], before_request = [], stale = [], in_request = False\<rparr>"

definition begin_request :: "object_handle_state \<Rightarrow> object_handle_state" where
  "begin_request st =
     st\<lparr>stale := sort (stale st @ before_request st), before_request := [],
        next_handle := 1, released := [], in_request := True\<rparr>"

text \<open>The free stack has its top last. \<open>checked_add\<close> fails at \<open>u32::MAX\<close>.\<close>

definition fresh_handle :: "object_handle_state \<Rightarrow> (nat \<times> object_handle_state) option" where
  "fresh_handle st =
     (let handle = if next_handle st = 0 then 1 else next_handle st
      in if handle + 1 < 2 ^ 32 then Some (handle, st\<lparr>next_handle := handle + 1\<rparr>) else None)"

definition allocate :: "object_handle_state \<Rightarrow> (nat \<times> object_handle_state) option" where
  "allocate st =
     Option.bind
       (if released st = [] then fresh_handle st
        else Some (last (released st), st\<lparr>released := butlast (released st)\<rparr>))
       (\<lambda>(handle, st). if handle \<le> unat OBJECT_HANDLE_MASK then Some (handle, st) else None)"

definition register_identity :: "nat \<Rightarrow> object_handle_state \<Rightarrow> object_handle_state" where
  "register_identity i st =
     (if in_request st then st else st\<lparr>before_request := before_request st @ [i]\<rparr>)"

text \<open>\<open>binary_search\<close> on the sorted identities; an identity occurs there once at most.\<close>

definition binary_search :: "nat list \<Rightarrow> nat \<Rightarrow> nat option" where
  "binary_search xs i = position (\<lambda>x. x = i) xs"

definition forget_before_request :: "nat \<Rightarrow> object_handle_state \<Rightarrow> object_handle_state" where
  "forget_before_request i st =
     (case position (\<lambda>x. x = i) (before_request st) of
        None \<Rightarrow> st
      | Some at \<Rightarrow> st\<lparr>before_request := swap_remove at (before_request st)\<rparr>)"

definition release_handle :: "nat \<Rightarrow> nat \<Rightarrow> object_handle_state \<Rightarrow> object_handle_state" where
  "release_handle i handle st =
     (case (if stale st \<noteq> [] \<and> hd (stale st) \<le> i \<and> i \<le> last (stale st) then binary_search (stale st) i else None) of
        Some at \<Rightarrow> st\<lparr>stale := vec_remove at (stale st)\<rparr>
      | None \<Rightarrow> (let st = forget_before_request i st in st\<lparr>released := released st @ [handle]\<rparr>))"

definition release_object_handle :: "nat \<Rightarrow> nat \<Rightarrow> object_handle_state \<Rightarrow> object_handle_state" where
  "release_object_handle i handle st = (if handle = 0 then st else release_handle i handle st)"

text \<open>A request boundary resets the handles and the possible roots together.\<close>

definition begin_object_handle_request ::
  "nat \<Rightarrow> object_handle_state \<times> cycle_root_state \<Rightarrow> object_handle_state \<times> cycle_root_state"
where
  "begin_object_handle_request now p = (begin_request (fst p), begin_request_roots now (snd p))"

definition end_object_handle_request ::
  "object_handle_state \<times> cycle_root_state \<Rightarrow> object_handle_state \<times> cycle_root_state"
where
  "end_object_handle_request p = ((fst p)\<lparr>in_request := False\<rparr>, end_request_roots (snd p))"

text \<open>Making an owner takes a handle, and records its identity outside a request.\<close>

definition new_owner :: "nat \<Rightarrow> object_handle_state \<Rightarrow> (nat \<times> object_handle_state) option" where
  "new_owner i st =
     map_option (\<lambda>(handle, st'). (handle, if in_request st' then st' else register_identity i st')) (allocate st)"

subsection \<open>Runs\<close>

datatype era = Inside | Outside | Earlier

record owner =
  owner_identity :: nat
  owner_handle :: nat
  owner_era :: era

definition present :: "owner list \<Rightarrow> owner list" where
  "present os = filter (\<lambda>ow. owner_era ow \<noteq> Earlier) os"

text \<open>An owner has the address of its allocation for an identity, so a new one has a fresh one. A
  request begins once every owner made inside the earlier one has gone away.\<close>

inductive handle_run :: "object_handle_state \<Rightarrow> owner list \<Rightarrow> bool" where
  start: "handle_run default_handle_state []"
| makes: "handle_run st os \<Longrightarrow> i \<notin> owner_identity ` set os \<Longrightarrow> new_owner i st = Some (h, st') \<Longrightarrow>
    handle_run st' (\<lparr>owner_identity = i, owner_handle = h,
                     owner_era = if in_request st then Inside else Outside\<rparr> # os)"
| drops: "handle_run st os \<Longrightarrow> ow \<in> set os \<Longrightarrow>
    handle_run (release_object_handle (owner_identity ow) (owner_handle ow) st) (remove1 ow os)"
| begins: "handle_run st os \<Longrightarrow> \<forall>ow \<in> set os. owner_era ow \<noteq> Inside \<Longrightarrow>
    handle_run (begin_request st) (map (\<lambda>ow. ow\<lparr>owner_era := Earlier\<rparr>) os)"
| ends: "handle_run st os \<Longrightarrow> handle_run (st\<lparr>in_request := False\<rparr>) os"

abbreviation ids_of :: "era \<Rightarrow> owner list \<Rightarrow> nat set" where
  "ids_of e os \<equiv> {owner_identity ow |ow. ow \<in> set os \<and> owner_era ow = e}"

definition handle_limit :: "object_handle_state \<Rightarrow> nat" where
  "handle_limit st = max 1 (next_handle st)"

definition handles_wf :: "object_handle_state \<Rightarrow> owner list \<Rightarrow> bool" where
  "handles_wf st os \<longleftrightarrow>
     distinct (map owner_identity os) \<and> (\<forall>ow \<in> set os. owner_handle ow \<noteq> 0)
     \<and> sorted (stale st) \<and> distinct (stale st) \<and> set (stale st) = ids_of Earlier os
     \<and> distinct (before_request st) \<and> set (before_request st) = ids_of Outside os
     \<and> distinct (released st @ map owner_handle (present os))
     \<and> set (released st @ map owner_handle (present os)) = {1..<handle_limit st}
     \<and> handle_limit st \<le> 2 ^ 29"

lemma handle_mask: "unat OBJECT_HANDLE_MASK = 2 ^ 29 - 1"
  by (simp add: OBJECT_HANDLE_MASK_def OBJECT_STATE_MASK_def OBJECT_DESTRUCTOR_RAN_def
      OBJECT_DEEP_DROP_STACK_CHECKPOINT_def OBJECT_VM_RELEASE_TRACKED_def push_bit_eq_mult)

lemma binary_search_Some:
  "binary_search xs i = Some k \<Longrightarrow> k < length xs \<and> xs ! k = i"
  by (auto simp: binary_search_def dest: position_SomeD)

lemma binary_search_None: "binary_search xs i = None \<longleftrightarrow> i \<notin> set xs"
  by (auto simp: binary_search_def position_None)

text \<open>The range test before the search never hides an identity.\<close>

lemma stale_search:
  assumes "sorted xs"
  shows "(if xs \<noteq> [] \<and> hd xs \<le> i \<and> i \<le> last xs then binary_search xs i else None) = binary_search xs i"
proof -
  have "hd xs \<le> i" if "i \<in> set xs" using that assms by (cases xs) auto
  moreover have "i \<le> last xs" if "i \<in> set xs"
    using that assms by (cases xs rule: rev_cases) (auto simp: sorted_append)
  moreover have "binary_search xs i = None" if "i \<notin> set xs" using that by (simp add: binary_search_None)
  ultimately show ?thesis by (cases "i \<in> set xs") auto
qed

lemma vec_remove_set: "distinct xs \<Longrightarrow> i < length xs \<Longrightarrow> set (vec_remove i xs) = set xs - {xs ! i}"
  by (subst (2) id_take_nth_drop [of i xs])
    (auto simp: vec_remove_def distinct_conv_nth in_set_conv_nth nth_Cons split: nat.splits)

lemma vec_remove_sorted: "sorted xs \<Longrightarrow> sorted (vec_remove i xs)"
  unfolding vec_remove_def sorted_append
  by (auto simp: sorted_wrt_take sorted_wrt_drop in_set_conv_nth sorted_iff_nth_mono)

lemma forget_before_request_spec:
  assumes "distinct (before_request st)"
  shows "distinct (before_request (forget_before_request i st))"
    and "set (before_request (forget_before_request i st)) = set (before_request st) - {i}"
    and "stale (forget_before_request i st) = stale st" "released (forget_before_request i st) = released st"
    and "next_handle (forget_before_request i st) = next_handle st"
  using assms
  by (auto simp: forget_before_request_def position_None swap_remove_distinct split: option.splits dest!: position_SomeD)

lemma ids_of_remove1:
  assumes "distinct (map owner_identity os)" "ow \<in> set os"
  shows "ids_of e (remove1 ow os) = ids_of e os - (if owner_era ow = e then {owner_identity ow} else {})"
proof -
  have "distinct os" using assms(1) distinct_map by blast
  then have "set (remove1 ow os) = set os - {ow}" by simp
  moreover have "o1 = ow" if "o1 \<in> set os" "owner_identity o1 = owner_identity ow" for o1
    using assms that by (auto simp: distinct_map inj_on_def)
  ultimately show ?thesis by auto
qed

lemma ids_of_era:
  assumes "distinct (map owner_identity os)" "ow \<in> set os" "owner_identity ow \<in> ids_of e os"
  shows "owner_era ow = e"
  using assms by (auto simp: distinct_map inj_on_def)

lemma release_early:
  assumes wf: "handles_wf st os" and ow: "ow \<in> set os" "owner_era ow = Earlier"
  obtains k where "release_object_handle (owner_identity ow) (owner_handle ow) st = st\<lparr>stale := vec_remove k (stale st)\<rparr>"
    and "k < length (stale st)" "stale st ! k = owner_identity ow"
proof -
  have "owner_identity ow \<in> set (stale st)" using wf ow by (auto simp: handles_wf_def)
  then obtain k where k: "binary_search (stale st) (owner_identity ow) = Some k"
    using binary_search_None by fastforce
  have "owner_handle ow \<noteq> 0" "sorted (stale st)" using wf ow by (simp_all add: handles_wf_def)
  then have "release_object_handle (owner_identity ow) (owner_handle ow) st = st\<lparr>stale := vec_remove k (stale st)\<rparr>"
    by (simp add: release_object_handle_def release_handle_def stale_search k)
  then show ?thesis using that binary_search_Some [OF k] by blast
qed

lemma release_present:
  assumes wf: "handles_wf st os" and ow: "ow \<in> set os" "owner_era ow \<noteq> Earlier"
  shows "release_object_handle (owner_identity ow) (owner_handle ow) st =
    (forget_before_request (owner_identity ow) st)\<lparr>released := released st @ [owner_handle ow]\<rparr>"
proof -
  have "owner_identity ow \<notin> ids_of Earlier os"
    using wf ow by (auto simp: handles_wf_def distinct_map inj_on_def)
  then have "binary_search (stale st) (owner_identity ow) = None" "sorted (stale st)"
    using wf by (auto simp: binary_search_None handles_wf_def)
  moreover have "owner_handle ow \<noteq> 0" using wf ow by (simp add: handles_wf_def)
  ultimately show ?thesis using wf
    by (simp add: release_object_handle_def release_handle_def stale_search forget_before_request_spec handles_wf_def)
qed

lemma present_remove1: "present (remove1 ow os) = (if owner_era ow = Earlier then present os else remove1 ow (present os))"
  by (simp add: present_def filter_remove1 remove1_idem)

lemma release_wf:
  assumes wf: "handles_wf st os" and ow: "ow \<in> set os"
  shows "handles_wf (release_object_handle (owner_identity ow) (owner_handle ow) st) (remove1 ow os)"
proof -
  have dist: "distinct (map owner_identity os)" using wf by (simp add: handles_wf_def)
  then have dist': "distinct (map owner_identity (remove1 ow os))"
    by (metis distinct_map distinct_remove1 inj_on_subset set_remove1_subset)
  note ids = ids_of_remove1 [OF dist ow]
  show ?thesis
  proof (cases "owner_era ow = Earlier")
    case True
    from release_early [OF wf ow True] obtain k where
      k: "release_object_handle (owner_identity ow) (owner_handle ow) st = st\<lparr>stale := vec_remove k (stale st)\<rparr>"
      "k < length (stale st)" "stale st ! k = owner_identity ow" by blast
    show ?thesis
      using wf dist' k(2,3) True
      by (auto simp: k(1) handles_wf_def ids present_remove1 handle_limit_def vec_remove_set vec_remove_sorted
          distinct_vec_remove dest: notin_set_remove1)
  next
    case False
    have mem: "ow \<in> set (present os)" using ow False by (simp add: present_def)
    then obtain as bs where split: "present os = as @ ow # bs" "ow \<notin> set as" by (metis split_list_first)
    then have rem: "remove1 ow (present os) = as @ bs" by (simp add: remove1_append)
    let ?st = "release_object_handle (owner_identity ow) (owner_handle ow) st"
    have st: "?st = (forget_before_request (owner_identity ow) st)\<lparr>released := released st @ [owner_handle ow]\<rparr>"
      by (rule release_present [OF wf ow False])
    have "distinct (before_request st)" using wf by (simp add: handles_wf_def)
    note before = forget_before_request_spec [OF this, of "owner_identity ow"]
    have "set (before_request ?st) = ids_of Outside (remove1 ow os)"
    proof -
      have "set (before_request st) = ids_of Outside os" using wf by (simp add: handles_wf_def)
      then have "set (before_request ?st) = ids_of Outside os - {owner_identity ow}" by (simp only: st before) (simp add: before)
      also have "\<dots> = ids_of Outside (remove1 ow os)"
      proof (cases "owner_era ow = Outside")
        case True
        then show ?thesis by (simp only: ids) simp
      next
        case False
        then have "owner_identity ow \<notin> ids_of Outside os" using ids_of_era [OF dist ow] by blast
        then show ?thesis using False by (simp only: ids) simp
      qed
      finally show ?thesis .
    qed
    moreover have "stale ?st = stale st" "ids_of Earlier (remove1 ow os) = ids_of Earlier os"
      using False by (simp_all add: st before ids)
    moreover have limit: "handle_limit ?st = handle_limit st" and "distinct (before_request ?st)"
      using before by (simp_all add: st handle_limit_def)
    moreover have "distinct (released ?st @ map owner_handle (present (remove1 ow os)))"
      "set (released ?st @ map owner_handle (present (remove1 ow os))) = {1..<handle_limit ?st}"
    proof -
      have pres: "present (remove1 ow os) = as @ bs" using False rem by (simp add: present_remove1)
      have lim: "distinct (released st @ map owner_handle (as @ ow # bs))"
        "set (released st @ map owner_handle (as @ ow # bs)) = {1..<handle_limit st}"
        using wf unfolding handles_wf_def split(1) by blast+
      show "distinct (released ?st @ map owner_handle (present (remove1 ow os)))" unfolding pres st using lim(1) by auto
      show "set (released ?st @ map owner_handle (present (remove1 ow os))) = {1..<handle_limit ?st}"
      proof -
        have "released ?st = released st @ [owner_handle ow]" by (simp add: st)
        then have "set (released ?st @ map owner_handle (as @ bs)) = set (released st @ map owner_handle (as @ ow # bs))"
          by auto
        then show ?thesis unfolding pres limit lim(2) .
      qed
    qed
    ultimately show ?thesis using wf dist' unfolding handles_wf_def by (metis notin_set_remove1)
  qed
qed

lemma allocate_spec:
  assumes "allocate st = Some (h, st')" and wf: "handles_wf st os"
  shows "h \<noteq> 0" "h \<notin> set (map owner_handle (present os))"
    and "distinct (h # released st' @ map owner_handle (present os))"
    and "set (h # released st' @ map owner_handle (present os)) = {1..<handle_limit st'}"
    and "handle_limit st' \<le> 2 ^ 29"
    and "stale st' = stale st" "before_request st' = before_request st" "in_request st' = in_request st"
proof -
  have lim: "distinct (released st @ map owner_handle (present os))"
    "set (released st @ map owner_handle (present os)) = {1..<handle_limit st}" "handle_limit st \<le> 2 ^ 29"
    using wf unfolding handles_wf_def by blast+
  show "stale st' = stale st" "before_request st' = before_request st" "in_request st' = in_request st"
    using assms(1) by (auto simp: allocate_def fresh_handle_def Let_def split: if_splits)
  have all: "h \<noteq> 0 \<and> distinct (h # released st' @ map owner_handle (present os))
      \<and> set (h # released st' @ map owner_handle (present os)) = {1..<handle_limit st'} \<and> handle_limit st' \<le> 2 ^ 29"
  proof (cases "released st" rule: rev_cases)
    case Nil
    then have "h = handle_limit st" "st' = st\<lparr>next_handle := handle_limit st + 1\<rparr>" "h \<le> 2 ^ 29 - 1"
      using assms(1) by (auto simp: allocate_def fresh_handle_def Let_def handle_mask handle_limit_def split: if_splits)
    then show ?thesis using lim Nil by (auto simp: handle_limit_def)
  next
    case (snoc xs x)
    then have "h = x" "st' = st\<lparr>released := xs\<rparr>"
      using assms(1) by (auto simp: allocate_def split: if_splits)
    moreover have "x \<noteq> 0"
    proof -
      have "x \<in> {1..<handle_limit st}" unfolding lim(2) [symmetric] snoc by simp
      then show ?thesis by simp
    qed
    ultimately show ?thesis using lim snoc by (auto simp: handle_limit_def)
  qed
  then show "h \<noteq> 0" "h \<notin> set (map owner_handle (present os))"
    "distinct (h # released st' @ map owner_handle (present os))"
    "set (h # released st' @ map owner_handle (present os)) = {1..<handle_limit st'}" "handle_limit st' \<le> 2 ^ 29"
    by auto
qed

lemma make_wf:
  assumes wf: "handles_wf st os" and new: "i \<notin> owner_identity ` set os" and "new_owner i st = Some (h, st')"
  shows "handles_wf st' (\<lparr>owner_identity = i, owner_handle = h,
    owner_era = if in_request st then Inside else Outside\<rparr> # os)"
proof -
  obtain st1 where a: "allocate st = Some (h, st1)" and st': "st' = (if in_request st1 then st1 else register_identity i st1)"
    using assms(3) by (auto simp: new_owner_def)
  note spec = allocate_spec [OF a wf]
  have ids: "ids_of e (x # os) = (if owner_era x = e then insert (owner_identity x) (ids_of e os) else ids_of e os)" for e x
    by auto
  have fresh: "i \<notin> ids_of e os" for e using new by auto
  have "released st' = released st1" "handle_limit st' = handle_limit st1" "stale st' = stale st"
    "before_request st' = (if in_request st then before_request st else before_request st @ [i])"
    using spec(6-8) by (simp_all add: st' register_identity_def handle_limit_def)
  then show ?thesis using wf new fresh spec(1,3-5)
    unfolding handles_wf_def ids by (auto simp: present_def)
qed

lemma begin_wf:
  assumes wf: "handles_wf st os" and "\<forall>ow \<in> set os. owner_era ow \<noteq> Inside"
  shows "handles_wf (begin_request st) (map (\<lambda>ow. ow\<lparr>owner_era := Earlier\<rparr>) os)"
proof -
  let ?os = "map (\<lambda>ow. ow\<lparr>owner_era := Earlier\<rparr>) os"
  have era: "owner_era ow = Earlier \<or> owner_era ow = Outside" if "ow \<in> set os" for ow
    using assms(2) that by (cases "owner_era ow") auto
  have "ids_of Earlier ?os = owner_identity ` set ?os" by auto
  also have "\<dots> = owner_identity ` set os" by (simp add: image_image)
  also have "\<dots> = ids_of Earlier os \<union> ids_of Outside os" using era by blast
  finally have "ids_of Earlier ?os = ids_of Earlier os \<union> ids_of Outside os" .
  moreover have "ids_of Earlier os \<inter> ids_of Outside os = {}"
  proof -
    have dist: "distinct (map owner_identity os)" using wf by (simp add: handles_wf_def)
    have "owner_era ow = Outside" if "ow \<in> set os" "owner_identity ow \<in> ids_of Outside os" for ow
      using ids_of_era [OF dist that] .
    then show ?thesis by fastforce
  qed
  moreover have "map owner_identity ?os = map owner_identity os" "present ?os = []" "ids_of Outside ?os = {}"
    by (auto simp: present_def)
  ultimately show ?thesis using wf
    unfolding handles_wf_def by (simp add: begin_request_def handle_limit_def Un_commute comp_def)
qed

lemma run_wf: "handle_run st os \<Longrightarrow> handles_wf st os"
proof (induction rule: handle_run.induct)
  case start
  then show ?case by (auto simp: handles_wf_def default_handle_state_def present_def handle_limit_def)
next
  case (ends st os)
  then show ?case by (simp add: handles_wf_def handle_limit_def)
qed (rule make_wf release_wf begin_wf; assumption)+

subsection \<open>Properties\<close>

text \<open>C17. In every run the handles of the owners made since the last request boundary are pairwise distinct and
  between 1 and \<open>2 ^ 29 - 1\<close>, so that they fit beside the three state bits of an object; together with
  the free stack they are exactly the numbers below the next fresh one, so numbers are reused before new ones are
  taken.\<close>

theorem object_handles_unique:
  assumes "handle_run st os"
  shows "distinct (map owner_handle (present os))
    \<and> (\<forall>ow \<in> set (present os). 1 \<le> owner_handle ow \<and> owner_handle ow < 2 ^ 29)
    \<and> set (released st) \<union> owner_handle ` set (present os) = {1..<max 1 (next_handle st)}
    \<and> length (released st) + length (present os) = max 1 (next_handle st) - 1"
proof -
  have wf: "distinct (released st @ map owner_handle (present os))"
    "set (released st @ map owner_handle (present os)) = {1..<handle_limit st}" "handle_limit st \<le> 2 ^ 29"
    using run_wf [OF assms] unfolding handles_wf_def by blast+
  have "length (released st @ map owner_handle (present os)) = card {1..<handle_limit st}"
    using distinct_card [OF wf(1)] wf(2) by simp
  moreover have "owner_handle ow \<in> {1..<handle_limit st}" if "ow \<in> set (present os)" for ow
    unfolding wf(2) [symmetric] using that by simp
  ultimately show ?thesis using wf by (fastforce simp: handle_limit_def)
qed

text \<open>Dropping an owner made since the request boundary puts its number on top of the free stack, and the
  next owner gets it; dropping an owner of an earlier request leaves the free stack as it is, so its old number cannot
  become the number of two owners.\<close>

theorem released_handle_reused:
  assumes "handle_run st os" "ow \<in> set os"
  shows "if owner_era ow = Earlier
    then released (release_object_handle (owner_identity ow) (owner_handle ow) st) = released st
      \<and> next_handle (release_object_handle (owner_identity ow) (owner_handle ow) st) = next_handle st
    else map_option fst (allocate (release_object_handle (owner_identity ow) (owner_handle ow) st)) = Some (owner_handle ow)"
proof (cases "owner_era ow = Earlier")
  case True
  obtain k where "release_object_handle (owner_identity ow) (owner_handle ow) st = st\<lparr>stale := vec_remove k (stale st)\<rparr>"
    by (rule release_early [OF run_wf [OF assms(1)] assms(2) True])
  then show ?thesis using True by simp
next
  case False
  have wf: "handles_wf st os" by (rule run_wf [OF assms(1)])
  have "owner_handle ow \<in> set (released st @ map owner_handle (present os))"
    using assms(2) False by (simp add: present_def)
  moreover have lim: "set (released st @ map owner_handle (present os)) = {1..<handle_limit st}" "handle_limit st \<le> 2 ^ 29"
    using wf unfolding handles_wf_def by blast+
  ultimately have "owner_handle ow < 2 ^ 29" unfolding lim(1) by simp
  then show ?thesis using False
    by (simp add: release_present [OF wf assms(2) False] allocate_def handle_mask)
qed

definition first_owner :: owner where
  "first_owner = \<lparr>owner_identity = 40, owner_handle = 1, owner_era = Inside\<rparr>"

definition one_owner :: object_handle_state where
  "one_owner = \<lparr>next_handle = 2, released = [], before_request = [], stale = [], in_request = True\<rparr>"

lemma one_owner_run: "handle_run one_owner [first_owner]"
proof -
  have "handle_run (begin_request default_handle_state) []"
    using handle_run.begins [OF handle_run.start] by simp
  from handle_run.makes [OF this, of 40 1 one_owner]
  show ?thesis
    by (simp add: first_owner_def one_owner_def new_owner_def allocate_def fresh_handle_def
        begin_request_def default_handle_state_def handle_mask)
qed

theorem object_handles_unique_witness:
  "handle_run one_owner [first_owner] \<and> set (released one_owner) \<union> owner_handle ` set (present [first_owner]) = {1}"
  using one_owner_run object_handles_unique [OF one_owner_run] by (simp add: one_owner_def)

theorem released_handle_reused_witness:
  "map_option fst (allocate (release_object_handle 40 1 one_owner)) = Some 1"
  using released_handle_reused [OF one_owner_run, of first_owner] by (simp add: first_owner_def)

end
