(* ===== verification/Spec2Isabelle.thy ===== *)
theory Spec2Isabelle
  imports Array_Properties Memory_Accounting Uuencode Quoted_Printable Word_Wrap Metaphone Heap_Pool Calendar_Properties
    Cycle_Properties Object_Handles
begin

text \<open>
  rphp is an implementation of PHP in Rust: a lexer, parser and compiler to bytecode, a virtual machine
  with a JIT, a runtime of values and classes, its own process heap, and the standard library. This
  development models the parts that carry the data the rest works on.

  \<^bold>\<open>Arrays\<close> (\<open>src/src/value/mod.rs\<close>, \<open>impl PhpArray\<close>). A PHP array is an insertion-ordered map kept in
  one of four storage tiers (\<open>Packed\<close>, \<open>SmallHash\<close>, \<open>LinearHash\<close>, \<open>Hash\<close> with a string index, an integer
  index that also caches small longs, and a verified arithmetic prefix).
  \<^item> \<open>Array_Types\<close>: \<open>Value\<close>, \<open>ArrayKey\<close>, the storage and the packed index word.
  \<^item> \<open>Array_Storage\<close>: the tiers below \<open>PhpArray\<close>. \<open>Php_Array\<close>: its operations, in the order of the source.
  \<^item> \<open>Ordered_Map\<close>: the specification (a list of entries with distinct keys) and the locale
    \<open>ordered_map\<close>; \<open>Php_Array_Refine\<close>, \<open>Php_Array_Append\<close>, \<open>Php_Array_Remove\<close>, \<open>Php_Array_Pointer\<close>,
    \<open>Php_Array_Reads\<close> show that the operations refine it and keep \<open>array_wf\<close>; \<open>Php_Array_Contract\<close>
    interprets the locale and proves the invariant of every reachable array. \<open>Array_Keys\<close> treats the
    decimal string keys and the byte bridge, \<open>Array_Limits\<close> four runs where the code departs from the
    map (they are why \<open>write_safe\<close> bounds the stride of an integer key, and why the positional overwrite and
    the promotion to external storage are no steps of the reachable arrays), \<open>Array_Properties\<close> the results.

  \<^bold>\<open>By-reference foreach\<close> (\<open>src/src/value/reference_array_iteration.rs\<close>). The registry of live cursors that
  array removals adjust: \<open>Foreach_Registry\<close>, with the locale \<open>position_tracker\<close>. How arrays and the
  registry work together is the theorem at the end of this theory.

  \<^bold>\<open>Request memory\<close> (\<open>src/src/request_memory.rs\<close>). \<open>Request_Memory\<close> holds the budgets, charges, releases and
  string reservations, \<open>Memory_Accounting\<close> that the bytes booked are those of the live owners, and when
  a charge is refused. A thread that unwinds is never refused, so the ceiling is shown for the others.

  \<^bold>\<open>The heap\<close> (\<open>src/src/heap/\<close>).
  \<^item> \<open>Heap_Layout\<close>: size classes, their tables and the bit computation against a linear search.
  \<^item> \<open>Heap_Region\<close>: the reservation of the address range, its division and the lock-free carving.
  \<^item> \<open>Page_Stack\<close>: the lock-free stacks with a versioned head, as interleaved atomic steps labelled with the
    calls and returns of the operations. A forward simulation shows that the calls, returns and results are
    those of an atomic stack, the ABA case included, as long as fewer than \<open>2 ^ 40\<close> updates (the width of the
    version) fall between a load and its exchange: the exchange steps carry that bound as a ghost guard.
  \<^item> \<open>Heap_Pages\<close>: page headers and block lists; \<open>Heap_Pool\<close>: any run of page initialisations,
    allocations, owner and remote frees, collections and releases keeps held blocks disjoint. Every
    operation is an atomic step there: those of the owner are run by one thread, and of a remote free, which any thread
    runs, the retry loops on the chain word are collapsed into the exchange that succeeds. When a page is released is
    left open: any page without a held block may be.

  \<^bold>\<open>The cycle collector\<close> (\<open>src/src/runtime/cycle.rs\<close>, the root state and the traversals of
  \<open>src/src/value/mod.rs\<close>, \<open>src/src/vm/generator.rs\<close>). Reference counting leaves cycles behind; a release buffers its
  allocation as a possible root, and a collection builds the graph of handles from the roots, takes
  as roots of the marking the nodes with more owners than the graph has edges into them, and clears the rest.
  \<^item> \<open>Cycle_Roots\<close>: the buffer, its index, automatic admission, the guards of a collection, the request
    boundary, and the invariant of every reachable state.
  \<^item> \<open>Cycle_Values\<close>: the heap as the collector sees it and the traversals; \<open>Cycle_Graph\<close>: the graph, its
    expansion and the marking with ephemerons; \<open>Cycle_Marking\<close>: the marking computes a least
    fixed point; \<open>Cycle_Build\<close>: the graph is built from roots and weak sidecars and is closed.
  \<^item> \<open>Cycle_Safety\<close>: what the marking means for the handles the traversal shows. \<open>Cycle_Ownership\<close>: owners counted
    where they are stored, independently of the traversal; where no store of statics has two holders and no layout
    lists a slot twice, the traversal counts no handle that is not there, and what it leaves out makes a root, so
    that the marking is safe for what stored handles reach. \<open>Cycle_Components\<close> and
    \<open>Cycle_Kosaraju\<close>: strongly connected components by two searches with explicit stacks;
    \<open>Cycle_Order\<close>: the order of destructors; \<open>Cycle_Properties\<close>: the results.

  \<^bold>\<open>Weak objects\<close> (\<open>src/src/runtime/weak.rs\<close>). \<open>Weak_Objects\<close> has weak references, weak maps and their
  iterators, the release of an identity and the snapshot the collector takes; \<open>Weak_Laws\<close> that the
  indexes are exact and what a release hands back and keeps.

  \<^bold>\<open>Object handles\<close> (\<open>src/src/value/mod.rs\<close>, \<open>ObjectHandleState\<close>). \<open>Object_Handles\<close>: the numbers of objects,
  their free stack and what crosses a request boundary; as the comment on \<open>begin_object_handle_request\<close> asks, a
  request begins only when no owner made inside the earlier one is left. \<open>Vec_Swap\<close>: \<open>swap_remove\<close>.

  \<^bold>\<open>Calendars\<close> (\<open>src/src/stdlib/calendar.rs\<close>).
  \<^item> \<open>Calendar\<close>: conversions of the Gregorian, Julian, Hebrew and French calendars;
    \<open>Calendar_Functions\<close>: arrays, Hebrew numerals, Easter, Unix time and the handlers.
  \<^item> \<open>Calendar_Civil\<close>: the reference (days of the months, the next day), the locale \<open>civil_calendar\<close> of
    what a pair of conversions promises, and \<open>roman_calendar\<close>, interpreted for the Gregorian and the
    Julian calendar. \<open>Calendar_Hebrew\<close>: the new moons and the lengths of the Hebrew years.
    \<open>Calendar_Days\<close>: the locale for the French and the Hebrew calendar. \<open>Calendar_Laws\<close>: the dispatch over
    the four, \<open>Calendar_Easter\<close>, \<open>Calendar_Results\<close> and \<open>Calendar_Properties\<close> the results.

  \<^bold>\<open>Byte codecs and strings\<close>: \<open>Base64\<close> (\<open>src/src/base64.rs\<close>), \<open>Uuencode\<close> (\<open>src/src/uuencode.rs\<close>),
  \<open>Quoted_Printable\<close> (\<open>src/src/quoted_printable.rs\<close>), and \<open>Byte_Strings\<close>, \<open>Word_Wrap\<close>, \<open>Metaphone\<close>
  (\<open>src/src/string_byte_utilities.rs\<close>): round trips, shapes and bounds of what they produce.

  \<open>Prelude\<close> has Rust's checked integer arithmetic, vectors and association lists, and the collections
  \<open>vec_simps\<close> and \<open>i64_simps\<close>.

  \<^bold>\<open>How the code is modelled.\<close> Functions on values are HOL functions; a function that mutates its receiver
  returns it; \<open>Option\<close>, errors and panics are values. \<open>i64\<close> arithmetic is on \<open>int\<close> with the checks
  and wrapping written out, words of the machine are \<open>64 word\<close>. Hash maps are association lists.
  Loops are total recursive functions; no definition takes fuel.

  \<^bold>\<open>What is assumed.\<close> The kernel's \<open>mmap\<close> is a function argument that may refuse or answer an aligned
  range; the clock, the collector's size and whether a string is still referenced are arguments; the
  strong count of an allocation is a function of its identity, and the handles of a fiber's native
  stack are a table from objects to handles; a
  calendar handler gets its arguments after the runtime has converted them. An array holds fewer than
  \<open>2 ^ 56\<close> entries (\<open>has_room\<close>), far more than an address space.

  \<^bold>\<open>What the modelling found.\<close> A stride that does not fit \<open>i64\<close> hides a stored key; a positional write
  leaves a cached long behind; a promotion to external storage changes the next key of an array whose
  last keys were popped; a chunk append does not record an exhausted sequence (\<open>Array_Limits\<close>); the
  last Hebrew month that begins inside the supported range has a negative length
  (\<open>Calendar_Properties\<close>); and statics that a closure and its generators share are counted once for
  each of them, so that a collection can clear an object still in use (\<open>Cycle_Properties\<close>), the case the safety
  of the marking excludes.

  \<^bold>\<open>Not modelled.\<close> Lexer, parser, compiler, virtual machine, JIT, regular expressions, generics, classes,
  coroutines, the pass that runs destructors as PHP code between two markings and the drops of the handles a
  collection clears, streams and the rest of the standard library, whose
  behaviour depends on the whole runtime, the operating system or generated tables; of \<open>PhpArray\<close> the
  clone, union and projection helpers and the layouts for the JIT; of the heap the page lists of a thread, the cold path of an owner free (\<open>free_cold\<close> of \<open>slow.rs\<close>), which recycles pages, large blocks and the allocator entry points.
\<close>

subsection \<open>Arrays under a by-reference foreach\<close>

text \<open>C3. When an entry is removed from an array that a by-reference foreach is walking, the cursor
  of the loop keeps pointing at the same entry, unless it was the removed one.\<close>

theorem foreach_cursor_follows_entry:
  assumes "array_wf a" and "has_flag ARRAY_REFERENCE_FOREACH a" and "registry_wf reg"
    and "take_with_position addr key a reg = ((a', reg'), Some (pos, v))"
    and "tracked reg cur addr = Some p" and "p < length (iter a)" and "p \<noteq> pos"
  shows "\<exists>q. tracked reg' cur addr = Some q \<and> iter a' ! q = iter a ! p"
proof -
  note T = take_with_position_ok [OF assms(1,4)]
  from T(4) have f: "find_key key (iter a) = Some pos" by (cases "find_key key (iter a)") auto
  have pos: "pos < length (iter a)" using find_key_SomeD [OF f] by simp
  have len: "length (iter a) \<le> usize_MAX"
    using keys_okD(3) [OF array_wfD(2) [OF assms(1)]] by (simp add: usize_MAX_def)
  have "reg' = splice addr pos 1 0 reg" "iter a' = vec_remove pos (iter a)"
    using T(2,5) f assms(2) by (simp_all add: remove_key_def)
  then show ?thesis
    using foreach_positions.track_removed_element [OF assms(3,5,6,7) pos len] by simp
qed

theorem foreach_cursor_follows_entry_witness:
  "\<exists>a' reg' q. take_with_position 5 (Key_Int 0) (mark_flag ARRAY_REFERENCE_FOREACH sample)
       (advance 1 1 (register 1 5 empty_registry)) = ((a', reg'), Some (0, VLong 10)) \<and>
     tracked reg' 1 5 = Some q \<and> iter a' ! q = (Key_Int 1, VLong 20)"
proof -
  let ?a = "mark_flag ARRAY_REFERENCE_FOREACH sample"
  let ?reg = "advance 1 1 (register 1 5 empty_registry)"
  have wf: "array_wf ?a" by (rule array_wf_frame [OF sample_wf]) (simp_all add: has_flag_mono)
  have it: "iter ?a = iter sample" by (simp add: iter_def)
  obtain a' reg' res where r: "take_with_position 5 (Key_Int 0) ?a ?reg = ((a', reg'), res)"
    by (metis prod.collapse)
  have res: "res = Some (0, VLong 10)"
    using take_with_position_ok(4) [OF wf r] it by (simp add: find_key_def)
  have "tracked ?reg 1 5 = Some 1"
    by (simp add: tracked_def advance_def register_def empty_registry_def cursor_position_def)
  moreover have "registry_wf ?reg" by (intro advance_wf register_wf registry_wf_empty)
  moreover have "has_flag ARRAY_REFERENCE_FOREACH ?a"
    by (rule has_flag_mark) (simp add: ARRAY_REFERENCE_FOREACH_def)
  ultimately show ?thesis
    using foreach_cursor_follows_entry [OF wf _ _ r [unfolded res], of 1 1] r res it by auto
qed

end
